(* ===== verification/Squrust_Prelude.thy ===== *)
theory Squrust_Prelude
  imports Main "HOL-Library.Word" "HOL-Library.Multiset"
begin

unbundle bit_operations_syntax

text \<open>
  Shared vocabulary of the development: the machine integers of the Rust code, the
  outcome of a fallible call (a value, an error, a panic, or no return within the
  fuel), byte buffers with the bounds checks of Rust slices, and big-endian encodings.
  Every component theory imports this one.
\<close>

named_theorems outcome_simps \<open>evaluation of the outcome monad\<close>
named_theorems buffer_simps \<open>lengths, reads and writes of byte buffers\<close>

section \<open>Machine integers\<close>

type_synonym u8 = "8 word"
type_synonym u16 = "16 word"
type_synonym u32 = "32 word"
type_synonym u64 = "64 word"
type_synonym bytes = "u8 list"

text \<open>
  A signed 64-bit integer is its bit pattern, ordered by the two's complement reading.
  The Rust casts \<open>as u64\<close> and \<open>as i64\<close> keep the bits.
\<close>

datatype i64 = I64 (i64_bits: u64)

definition int_of_i64 :: "i64 \<Rightarrow> int" where
  "int_of_i64 i = sint (i64_bits i)"

definition i64_of_int :: "int \<Rightarrow> i64" where
  "i64_of_int k = I64 (word_of_int k)"

lemma unat_less_pow: "unat (w :: 'a::len word) < 2 ^ LENGTH('a)"
  by (rule unsigned_less)

lemma unat_of_nat_small: "x < 2 ^ LENGTH('a) \<Longrightarrow> unat (word_of_nat x :: 'a::len word) = x"
  by (simp add: unat_of_nat)

lemma int_of_i64_inject [simp]: "int_of_i64 a = int_of_i64 b \<longleftrightarrow> a = b"
  by (cases a; cases b) (metis i64.sel int_of_i64_def of_int_sint scast_id)

instantiation i64 :: linorder
begin

definition less_eq_i64 :: "i64 \<Rightarrow> i64 \<Rightarrow> bool" where
  "less_eq_i64 a b \<longleftrightarrow> int_of_i64 a \<le> int_of_i64 b"

definition less_i64 :: "i64 \<Rightarrow> i64 \<Rightarrow> bool" where
  "less_i64 a b \<longleftrightarrow> int_of_i64 a < int_of_i64 b"

instance
  by standard (auto simp: less_eq_i64_def less_i64_def)

end

definition i64_min :: int where
  "i64_min = - (2 ^ 63)"

definition i64_max :: int where
  "i64_max = 2 ^ 63 - 1"

lemma int_of_i64_bounds: "i64_min \<le> int_of_i64 a" "int_of_i64 a \<le> i64_max"
  using sint_greater_eq [of "i64_bits a"] sint_lt [of "i64_bits a"]
  by (auto simp: int_of_i64_def i64_min_def i64_max_def)

lemma int_of_i64_of_int:
  assumes "i64_min \<le> k" and "k \<le> i64_max"
  shows "int_of_i64 (i64_of_int k) = k"
proof -
  have "signed_take_bit 63 k = k"
    using assms by (intro signed_take_bit_int_eq_self) (auto simp: i64_min_def i64_max_def)
  then show ?thesis by (simp add: int_of_i64_def i64_of_int_def signed_of_int)
qed

lemma i64_of_int_of_i64 [simp]: "i64_of_int (int_of_i64 a) = a"
  by (cases a) (simp add: int_of_i64_def i64_of_int_def)

section \<open>Outcomes of fallible calls\<close>

text \<open>
  A Rust call that returns \<open>Result<T, E>\<close> ends in \<open>Ok\<close> or \<open>Err\<close>, or it panics
  (an index out of range, an overflow, a failed \<open>clamp\<close>). \<open>Diverge\<close> is the value of a
  fuelled loop that has not returned when its fuel is spent.
\<close>

datatype ('a, 'e) outcome = Ok 'a | Err 'e | Panic | Diverge

fun obind :: "('a, 'e) outcome \<Rightarrow> ('a \<Rightarrow> ('b, 'e) outcome) \<Rightarrow> ('b, 'e) outcome" where
  "obind (Ok x) f = f x"
| "obind (Err e) f = Err e"
| "obind Panic f = Panic"
| "obind Diverge f = Diverge"

declare obind.simps [outcome_simps]

lemma obind_eq_Ok [outcome_simps]:
  "obind m f = Ok y \<longleftrightarrow> (\<exists>x. m = Ok x \<and> f x = Ok y)"
  by (cases m) auto

lemma obind_assoc: "obind (obind m f) g = obind m (\<lambda>x. obind (f x) g)"
  by (cases m) auto

lemma obind_cong [fundef_cong]:
  assumes "m = m'" and "\<And>x. m' = Ok x \<Longrightarrow> f x = g x"
  shows "obind m f = obind m' g"
  using assms by (cases m') auto

definition omap :: "('a \<Rightarrow> 'b) \<Rightarrow> ('a, 'e) outcome \<Rightarrow> ('b, 'e) outcome" where
  "omap f m = obind m (\<lambda>x. Ok (f x))"

lemma omap_simps [simp]:
  "omap f (Ok x) = Ok (f x)" "omap f (Err e) = Err e" "omap f Panic = Panic"
  "omap f Diverge = Diverge"
  by (simp_all add: omap_def)

text \<open>\<open>ok_or\<close> turns an absent value into an error, as the \<open>?\<close> operator on \<open>ok_or_else\<close> does.\<close>

definition ok_or :: "'a option \<Rightarrow> 'e \<Rightarrow> ('a, 'e) outcome" where
  "ok_or x e = (case x of None \<Rightarrow> Err e | Some y \<Rightarrow> Ok y)"

lemma ok_or_simps [simp]: "ok_or None e = Err e" "ok_or (Some y) e = Ok y"
  by (simp_all add: ok_or_def)

text \<open>The value of an outcome that is known to be \<open>Ok\<close>; used in witnesses and tests.\<close>

fun is_ok :: "('a, 'e) outcome \<Rightarrow> bool" where
  "is_ok (Ok x) = True"
| "is_ok _ = False"

section \<open>The storage errors\<close>

text \<open>The \<open>format!\<close>ted message of a corruption error, as the data it is rendered from.\<close>

datatype corrupt_msg =
    BadPayloadVarint
  | BadRowidVarint
  | BadInteriorRowidVarint
  | UnsupportedPageType u8
  | OverflowLengthMismatch nat u64

datatype corrupt_wal_msg =
    ShortFrame nat
  | ChecksumMismatch

datatype storage_error =
    IoError
  | BadMagic
  | BadPageSize u32
  | PageOutOfRange u32
  | CorruptWal corrupt_wal_msg
  | Corrupt corrupt_msg
  | Conflict
  | ReadOnly

type_synonym 'a sres = "('a, storage_error) outcome"

section \<open>Byte buffers\<close>

text \<open>
  A buffer is a list of bytes. \<open>slice xs a n\<close> reads \<open>n\<close> bytes at \<open>a\<close>; \<open>patch at src buf\<close>
  overwrites \<open>length src\<close> bytes at \<open>at\<close>. Both are total; the checked forms below panic
  where the Rust slice operations do.
\<close>

definition slice :: "nat \<Rightarrow> nat \<Rightarrow> 'a list \<Rightarrow> 'a list" where
  "slice a n xs = take n (drop a xs)"

definition patch :: "nat \<Rightarrow> 'a list \<Rightarrow> 'a list \<Rightarrow> 'a list" where
  "patch at src buf = take at buf @ src @ drop (at + length src) buf"

text \<open>\<open>buf[i]\<close>, \<open>&buf[a..]\<close>, \<open>&buf[a..b]\<close> and \<open>buf[at..at+n].copy_from_slice(src)\<close>.\<close>

definition index_at :: "'a list \<Rightarrow> nat \<Rightarrow> ('a, 'e) outcome" where
  "index_at xs i = (if i < length xs then Ok (xs ! i) else Panic)"

definition slice_from :: "'a list \<Rightarrow> nat \<Rightarrow> ('a list, 'e) outcome" where
  "slice_from xs a = (if a \<le> length xs then Ok (drop a xs) else Panic)"

definition slice_range :: "'a list \<Rightarrow> nat \<Rightarrow> nat \<Rightarrow> ('a list, 'e) outcome" where
  "slice_range xs a b = (if a \<le> b \<and> b \<le> length xs then Ok (slice a (b - a) xs) else Panic)"

definition copy_at :: "'a list \<Rightarrow> nat \<Rightarrow> 'a list \<Rightarrow> ('a list, 'e) outcome" where
  "copy_at buf at src =
     (if at + length src \<le> length buf then Ok (patch at src buf) else Panic)"

lemma length_slice [buffer_simps]: "a + n \<le> length xs \<Longrightarrow> length (slice a n xs) = n"
  by (simp add: slice_def)

lemma length_patch [buffer_simps]:
  "at + length src \<le> length buf \<Longrightarrow> length (patch at src buf) = length buf"
  by (simp add: patch_def)

lemma slice_patch_same [buffer_simps]:
  "at + length src \<le> length buf \<Longrightarrow> n = length src \<Longrightarrow> slice at n (patch at src buf) = src"
  by (simp add: slice_def patch_def)

lemma slice_patch_before:
  "a + n \<le> at \<Longrightarrow> at + length src \<le> length buf \<Longrightarrow> slice a n (patch at src buf) = slice a n buf"
  by (simp add: slice_def patch_def take_drop)

lemma slice_patch_after:
  "at + length src \<le> a \<Longrightarrow> at + length src \<le> length buf \<Longrightarrow>
   slice a n (patch at src buf) = slice a n buf"
  by (simp add: slice_def patch_def)

lemma slice_patch_other [buffer_simps]:
  "a + n \<le> at \<or> at + length src \<le> a \<Longrightarrow> at + length src \<le> length buf \<Longrightarrow>
   slice a n (patch at src buf) = slice a n buf"
  using slice_patch_before slice_patch_after by blast

lemma slice_slice: "a + n \<le> m \<Longrightarrow> slice a n (slice b m xs) = slice (b + a) n xs"
  by (simp add: slice_def drop_take add.commute min_def)

lemma slice_all: "length xs = n \<Longrightarrow> slice 0 n xs = xs"
  by (simp add: slice_def)

lemma slice_append_left [simp]: "length xs = n \<Longrightarrow> slice 0 n (xs @ ys) = xs"
  by (simp add: slice_def)

lemma slice_append_right:
  "length xs \<le> a \<Longrightarrow> slice a n (xs @ ys) = slice (a - length xs) n ys"
  by (simp add: slice_def)

lemma slice_eq_iff_nth:
  "a + n \<le> length xs \<Longrightarrow> i < n \<Longrightarrow> slice a n xs ! i = xs ! (a + i)"
  by (simp add: slice_def)

lemma drop_eq_slice_append:
  "a + n \<le> length xs \<Longrightarrow> drop a xs = slice a n xs @ drop (a + n) xs"
  unfolding slice_def by (metis append_take_drop_id drop_drop add.commute)

section \<open>Big-endian encodings\<close>

text \<open>
  \<open>to_be n x\<close> is the \<open>n\<close>-byte big-endian form of \<open>x\<close> (Rust's \<open>to_be_bytes\<close>), \<open>of_be\<close>
  reads one back.
\<close>

primrec to_be :: "nat \<Rightarrow> nat \<Rightarrow> bytes" where
  "to_be 0 x = []"
| "to_be (Suc n) x = to_be n (x div 256) @ [word_of_nat x]"

definition of_be :: "bytes \<Rightarrow> nat" where
  "of_be bs = foldl (\<lambda>a b. a * 256 + unat b) 0 bs"

lemma of_be_Nil [simp]: "of_be [] = 0"
  by (simp add: of_be_def)

lemma of_be_snoc [simp]: "of_be (bs @ [b]) = of_be bs * 256 + unat b"
  by (simp add: of_be_def)

lemma length_to_be [simp]: "length (to_be n x) = n"
  by (induction n arbitrary: x) auto

lemma of_be_bound: "of_be bs < 256 ^ length bs"
proof (induction bs rule: rev_induct)
  case (snoc b bs)
  have "unat b < 256" using unat_less_pow [of b] by simp
  with snoc show ?case by simp
qed simp

lemma of_be_to_be: "of_be (to_be n x) = x mod 256 ^ n"
proof (induction n arbitrary: x)
  case (Suc n)
  have "unat (word_of_nat x :: u8) = x mod 256"
    by (simp add: unat_of_nat)
  then have "of_be (to_be (Suc n) x) = (x div 256 mod 256 ^ n) * 256 + x mod 256"
    by (simp add: Suc.IH)
  also have "\<dots> = x mod 256 ^ Suc n"
    by (simp add: mod_mult2_eq [of x 256 "256 ^ n"] mult.commute)
  finally show ?case .
qed simp

lemma to_be_of_be: "length bs = n \<Longrightarrow> to_be n (of_be bs) = bs"
proof (induction bs arbitrary: n rule: rev_induct)
  case (snoc b bs)
  have b: "unat b < 256" using unat_less_pow [of b] by simp
  have "(of_be bs * 256 + unat b) div 256 = of_be bs" using b by simp
  moreover have "(word_of_nat (of_be bs * 256 + unat b) :: u8) = b"
  proof -
    have "(of_be bs * 256 + unat b) mod 256 = unat b" using b by simp
    then have "unat (word_of_nat (of_be bs * 256 + unat b) :: u8) = unat b"
      by (subst unat_of_nat) simp
    then show ?thesis by (rule unsigned_word_eqI)
  qed
  ultimately show ?case using snoc by auto
qed simp

definition u16_be :: "u16 \<Rightarrow> bytes" where "u16_be w = to_be 2 (unat w)"
definition u32_be :: "u32 \<Rightarrow> bytes" where "u32_be w = to_be 4 (unat w)"
definition u64_be :: "u64 \<Rightarrow> bytes" where "u64_be w = to_be 8 (unat w)"

definition be_u16 :: "bytes \<Rightarrow> u16" where "be_u16 bs = word_of_nat (of_be bs)"
definition be_u32 :: "bytes \<Rightarrow> u32" where "be_u32 bs = word_of_nat (of_be bs)"
definition be_u64 :: "bytes \<Rightarrow> u64" where "be_u64 bs = word_of_nat (of_be bs)"

lemma length_be [simp]:
  "length (u16_be a) = 2" "length (u32_be b) = 4" "length (u64_be c) = 8"
  by (simp_all add: u16_be_def u32_be_def u64_be_def)

lemma be_u16_be [simp]: "be_u16 (u16_be w) = w"
  using unat_less_pow [of w] by (simp add: be_u16_def u16_be_def of_be_to_be)

lemma be_u32_be [simp]: "be_u32 (u32_be w) = w"
  using unat_less_pow [of w] by (simp add: be_u32_def u32_be_def of_be_to_be)

lemma be_u64_be [simp]: "be_u64 (u64_be w) = w"
  using unat_less_pow [of w] by (simp add: be_u64_def u64_be_def of_be_to_be)

lemma u16_be_inject: "length bs = 2 \<Longrightarrow> u16_be (be_u16 bs) = bs"
  using of_be_bound [of bs] by (simp add: be_u16_def u16_be_def to_be_of_be unat_of_nat_small)

lemma u32_be_inject: "length bs = 4 \<Longrightarrow> u32_be (be_u32 bs) = bs"
  using of_be_bound [of bs] by (simp add: be_u32_def u32_be_def to_be_of_be unat_of_nat_small)

lemma u64_be_inject: "length bs = 8 \<Longrightarrow> u64_be (be_u64 bs) = bs"
  using of_be_bound [of bs] by (simp add: be_u64_def u64_be_def to_be_of_be unat_of_nat_small)

text \<open>Checked reads and writes of integers in a buffer (\<open>read_u16\<close>, \<open>write_u32\<close>, ...).\<close>

definition read_u16 :: "bytes \<Rightarrow> nat \<Rightarrow> (u16, 'e) outcome" where
  "read_u16 buf at = omap be_u16 (slice_range buf at (at + 2))"

definition read_u32 :: "bytes \<Rightarrow> nat \<Rightarrow> (u32, 'e) outcome" where
  "read_u32 buf at = omap be_u32 (slice_range buf at (at + 4))"

definition write_u16 :: "bytes \<Rightarrow> nat \<Rightarrow> u16 \<Rightarrow> (bytes, 'e) outcome" where
  "write_u16 buf at v = copy_at buf at (u16_be v)"

definition write_u32 :: "bytes \<Rightarrow> nat \<Rightarrow> u32 \<Rightarrow> (bytes, 'e) outcome" where
  "write_u32 buf at v = copy_at buf at (u32_be v)"

lemma read_u16_slice: "at + 2 \<le> length buf \<Longrightarrow> read_u16 buf at = Ok (be_u16 (slice at 2 buf))"
  by (simp add: read_u16_def slice_range_def)

lemma read_u32_slice: "at + 4 \<le> length buf \<Longrightarrow> read_u32 buf at = Ok (be_u32 (slice at 4 buf))"
  by (simp add: read_u32_def slice_range_def)

lemma write_u16_patch: "at + 2 \<le> length buf \<Longrightarrow> write_u16 buf at v = Ok (patch at (u16_be v) buf)"
  by (simp add: write_u16_def copy_at_def)

lemma write_u32_patch: "at + 4 \<le> length buf \<Longrightarrow> write_u32 buf at v = Ok (patch at (u32_be v) buf)"
  by (simp add: write_u32_def copy_at_def)

lemma copy_at_patch: "at + length src \<le> length buf \<Longrightarrow> copy_at buf at src = Ok (patch at src buf)"
  by (simp add: copy_at_def)

lemma slice_range_ok: "a \<le> b \<Longrightarrow> b \<le> length xs \<Longrightarrow> slice_range xs a b = Ok (slice a (b - a) xs)"
  by (simp add: slice_range_def)

end
