(* ===== verification/Varint.thy ===== *)
theory Varint
  imports Squrust_Prelude
begin

unbundle bit_operations_syntax

text \<open>
  The SQLite variable-length integers of \<open>squrust-core/src/varint.rs\<close>: the length
  table \<open>len\<close>, the encoder \<open>write\<close> and the decoder \<open>read\<close>, each as the code has it
  (64-bit words, shifts and masks), with the round trip and the bounds the page and
  record codecs rely on.
\<close>

section \<open>The code\<close>

text \<open>\<open>varint::len\<close>: the match on ranges.\<close>

definition varint_len :: "u64 \<Rightarrow> nat" where
  "varint_len v =
     (if v \<le> 0x7f then 1
      else if v \<le> 0x3fff then 2
      else if v \<le> 0x1fffff then 3
      else if v \<le> 0xfffffff then 4
      else if v \<le> 0x7ffffffff then 5
      else if v \<le> 0x3ffffffffff then 6
      else if v \<le> 0x1ffffffffffff then 7
      else if v \<le> 0xffffffffffffff then 8
      else 9)"

text \<open>
  The loop \<open>for i in (0..n).rev() { buf[i] = (x as u8 & 0x7f) | 0x80; x >>= 7; }\<close>:
  the \<open>n\<close> bytes it leaves in \<open>buf[..n]\<close>.
\<close>

primrec varint_groups :: "nat \<Rightarrow> u64 \<Rightarrow> bytes" where
  "varint_groups 0 x = []"
| "varint_groups (Suc n) x = varint_groups n (drop_bit 7 x) @ [(ucast x AND 0x7f) OR 0x80]"

text \<open>\<open>buf[n - 1] &= 0x7f\<close>.\<close>

definition clear_last :: "bytes \<Rightarrow> bytes" where
  "clear_last bs = butlast bs @ [last bs AND 0x7f]"

text \<open>\<open>varint::write\<close>: the extended output and the number of bytes written.\<close>

definition varint_write :: "bytes \<Rightarrow> u64 \<Rightarrow> bytes \<times> nat" where
  "varint_write out v =
     (if v > 0x00ffffffffffffff
      then (out @ varint_groups 8 (drop_bit 8 v) @ [ucast v], 9)
      else let n = varint_len v in (out @ clear_last (varint_groups n v), n))"

abbreviation varint_bytes :: "u64 \<Rightarrow> bytes" where
  "varint_bytes v \<equiv> fst (varint_write [] v)"

text \<open>
  \<open>varint::read\<close>. The loop runs \<open>i\<close> over \<open>0..8\<close>; \<open>k\<close> counts the iterations left, so
  the source's inner test \<open>i == 8\<close> never fires. \<open>data.get(i)?\<close> returns \<open>None\<close> past the end.
\<close>

primrec varint_read_loop :: "bytes \<Rightarrow> nat \<Rightarrow> nat \<Rightarrow> u64 \<Rightarrow> (u64 \<times> nat) option" where
  "varint_read_loop data 0 i result =
     (if 8 < length data
      then Some (push_bit 8 result OR ucast (data ! 8), 9) else None)"
| "varint_read_loop data (Suc k) i result =
     (if i < length data
      then let byte = data ! i in
           if byte AND 0x80 = 0 then Some (push_bit 7 result OR ucast byte, i + 1)
           else varint_read_loop data k (i + 1) (push_bit 7 result OR ucast (byte AND 0x7f))
      else None)"

definition varint_read :: "bytes \<Rightarrow> (u64 \<times> nat) option" where
  "varint_read data = varint_read_loop data 8 0 0"

section \<open>Lengths\<close>

lemma length_varint_groups [simp]: "length (varint_groups n x) = n"
  by (induction n arbitrary: x) auto

lemma varint_len_range: "1 \<le> varint_len v" "varint_len v \<le> 9"
  by (auto simp: varint_len_def)

text \<open>The table read over the naturals, where its thresholds are linear arithmetic.\<close>

lemma varint_len_unat:
  "varint_len v =
     (if unat v < 2 ^ 7 then 1 else if unat v < 2 ^ 14 then 2 else if unat v < 2 ^ 21 then 3
      else if unat v < 2 ^ 28 then 4 else if unat v < 2 ^ 35 then 5 else if unat v < 2 ^ 42 then 6
      else if unat v < 2 ^ 49 then 7 else if unat v < 2 ^ 56 then 8 else 9)"
  by (simp add: varint_len_def word_le_nat_alt)

lemma varint_len_9_iff: "varint_len v = 9 \<longleftrightarrow> v > 0x00ffffffffffffff"
  unfolding varint_len_unat word_less_nat_alt by simp

lemma length_clear_last: "bs \<noteq> [] \<Longrightarrow> length (clear_last bs) = length bs"
  by (simp add: clear_last_def)

lemma varint_write_append: "varint_write out v = (out @ varint_bytes v, snd (varint_write [] v))"
  by (simp add: varint_write_def Let_def)

lemma length_varint_bytes [simp]: "length (varint_bytes v) = varint_len v"
proof (cases "v > 0x00ffffffffffffff")
  case True
  then have "varint_len v = 9" by (simp add: varint_len_9_iff)
  with True show ?thesis by (simp add: varint_write_def)
next
  case False
  have "varint_groups (varint_len v) v \<noteq> []"
    using varint_len_range(1) [of v] length_varint_groups [of "varint_len v" v]
    by (metis list.size(3) not_one_le_zero)
  with False show ?thesis by (simp add: varint_write_def Let_def length_clear_last)
qed

lemma snd_varint_write [simp]: "snd (varint_write out v) = varint_len v"
  by (simp add: varint_write_def Let_def flip: varint_len_9_iff)

lemma varint_len_fits:
  assumes "varint_len v < 9"
  shows "take_bit (7 * varint_len v) v = v"
proof -
  have "unat v < 2 ^ (7 * varint_len v)"
    using assms unfolding varint_len_unat by (simp split: if_splits)
  then show ?thesis
    by (metis take_bit_nat_eq_self unsigned_take_bit_eq unsigned_word_eqI)
qed

section \<open>The round trip\<close>

lemma low7: "(b :: u8) AND 0x7f = take_bit 7 b"
  by (simp add: take_bit_eq_mask mask_numeral)

lemma bit_high8 [simp]: "bit (0x80 :: u8) n \<longleftrightarrow> n = 7"
proof -
  have "(0x80 :: u8) = push_bit 7 1" by simp
  then show ?thesis by (simp only: bit_push_bit_iff bit_1_iff) auto
qed

lemma high8_zero_iff: "(b :: u8) AND 0x80 = 0 \<longleftrightarrow> \<not> bit b 7"
proof -
  have "bit (b AND 0x80) n \<longleftrightarrow> bit b 7 \<and> n = 7" for n
    by (auto simp only: bit_and_iff bit_high8)
  then show ?thesis
    unfolding bit_eq_iff [of "b AND 0x80" 0] by (auto dest: spec [where x = 7])
qed

lemma group_continues [simp]: "(take_bit 7 b OR 0x80 :: u8) AND 0x80 \<noteq> 0"
  by (simp add: high8_zero_iff bit_or_iff)

lemma last_stops [simp]: "take_bit 7 (b :: u8) AND 0x80 = 0"
  by (simp add: high8_zero_iff bit_take_bit_iff)

lemma group_payload: "take_bit 7 (take_bit 7 b OR 0x80 :: u8) = take_bit 7 b"
  by (rule bit_eqI) (auto simp: bit_take_bit_iff bit_or_iff)

lemma shift_group:
  "push_bit 7 (push_bit (7 * k) r OR take_bit (7 * k) (drop_bit 7 x)) OR ucast (take_bit 7 (ucast x) :: u8)
   = push_bit (7 * Suc k) r OR take_bit (7 * Suc k) (x :: u64)"
  by (rule bit_eqI) (auto simp: bit_simps)

text \<open>
  Reading \<open>k\<close> continuation groups shifts \<open>7 k\<close> bits of the encoded value into the
  accumulator and leaves the loop with \<open>m\<close> iterations.
\<close>

lemma read_groups:
  "varint_read_loop (pre @ varint_groups k x @ rest) (k + m) (length pre) r =
   varint_read_loop (pre @ varint_groups k x @ rest) m (length pre + k)
     (push_bit (7 * k) r OR take_bit (7 * k) x)"
proof (induction k arbitrary: x rest m)
  case (Suc k)
  let ?b = "take_bit 7 (ucast x) OR 0x80 :: u8"
  let ?data = "pre @ varint_groups (Suc k) x @ rest"
  have data: "?data = pre @ varint_groups k (drop_bit 7 x) @ (?b # rest)"
    by (simp add: low7)
  have nth: "?data ! (length pre + k) = ?b" and len: "length pre + k < length ?data"
    by (simp_all add: data nth_append low7)
  have "varint_read_loop ?data (k + Suc m) (length pre) r =
        varint_read_loop ?data (Suc m) (length pre + k)
          (push_bit (7 * k) r OR take_bit (7 * k) (drop_bit 7 x))"
    unfolding data by (rule Suc.IH)
  also have "\<dots> = varint_read_loop ?data m (length pre + Suc k)
      (push_bit 7 (push_bit (7 * k) r OR take_bit (7 * k) (drop_bit 7 x))
       OR ucast (take_bit 7 (ucast x) :: u8))"
    using nth len by (simp add: Let_def low7 group_payload)
  finally show ?case by (simp only: shift_group add_Suc_shift)
qed simp

lemma varint_read_bytes_short:
  assumes "varint_len v < 9"
  shows "varint_read (varint_bytes v @ rest) = Some (v, varint_len v)"
proof -
  obtain n where n: "varint_len v = Suc n"
    using varint_len_range(1) [of v] by (cases "varint_len v") auto
  have n7: "n \<le> 7" using assms n by simp
  have "\<not> v > 0x00ffffffffffffff" using assms varint_len_9_iff [of v] by simp
  then have bytes: "varint_bytes v = varint_groups n (drop_bit 7 v) @ [take_bit 7 (ucast v)]"
    by (simp add: varint_write_def Let_def n clear_last_def low7 group_payload)
  have "varint_read (varint_bytes v @ rest) =
      varint_read_loop (varint_bytes v @ rest) (n + Suc (7 - n)) 0 0"
    using n7 by (simp add: varint_read_def)
  also have "\<dots> = varint_read_loop (varint_bytes v @ rest) (Suc (7 - n)) n
      (take_bit (7 * n) (drop_bit 7 v))"
    using read_groups [of "[]" n "drop_bit 7 v" "take_bit 7 (ucast v) # rest" "Suc (7 - n)" 0]
    by (simp add: bytes)
  also have "\<dots> = Some (push_bit 7 (take_bit (7 * n) (drop_bit 7 v))
      OR ucast (take_bit 7 (ucast v) :: u8), n + 1)"
    by (simp add: bytes nth_append)
  also have "\<dots> = Some (v, varint_len v)"
    using shift_group [of n 0 v] varint_len_fits [OF assms] by (simp add: n)
  finally show ?thesis .
qed

lemma full_byte:
  "push_bit 8 (take_bit 56 (drop_bit 8 x)) OR ucast (ucast x :: u8) = (x :: u64)"
  by (rule bit_eqI) (auto simp: bit_simps)

lemma varint_read_bytes_long:
  assumes "varint_len v = 9"
  shows "varint_read (varint_bytes v @ rest) = Some (v, 9)"
proof -
  have bytes: "varint_bytes v = varint_groups 8 (drop_bit 8 v) @ [ucast v]"
    using assms varint_len_9_iff [of v] by (simp add: varint_write_def)
  have "varint_read (varint_bytes v @ rest) =
      varint_read_loop (varint_bytes v @ rest) 0 8 (take_bit 56 (drop_bit 8 v))"
    using read_groups [of "[]" 8 "drop_bit 8 v" "ucast v # rest" 0 0]
    by (simp add: bytes varint_read_def)
  also have "\<dots> = Some (push_bit 8 (take_bit 56 (drop_bit 8 v)) OR ucast (ucast v :: u8), 9)"
    by (simp add: bytes nth_append)
  finally show ?thesis by (simp add: full_byte)
qed

lemma varint_read_bytes [simp]: "varint_read (varint_bytes v @ rest) = Some (v, varint_len v)"
  using varint_read_bytes_short varint_read_bytes_long varint_len_range(2) [of v]
  by (metis le_neq_implies_less)

text \<open>
  C35. Reading back what \<open>write\<close> appended yields the value and the number of bytes it
  reported, whatever follows in the buffer; that number is \<open>len v\<close>, between 1 and 9.
\<close>

theorem varint_roundtrip:
  "(let (out', n) = varint_write out v
    in varint_read (drop (length out) out' @ rest) = Some (v, n)
       \<and> take (length out) out' = out \<and> length out' = length out + n
       \<and> n = varint_len v \<and> 1 \<le> n \<and> n \<le> 9)"
proof -
  have "varint_write out v = (out @ varint_bytes v, varint_len v)"
    by (metis varint_write_append snd_varint_write)
  then show ?thesis using varint_len_range by simp
qed

text \<open>A successful read consumes between 1 and 9 bytes of its input.\<close>

lemma varint_read_loop_consumed:
  "varint_read_loop data k i r = Some (v, n) \<Longrightarrow> i + k = 8 \<Longrightarrow> i < n \<and> n \<le> 9 \<and> n \<le> length data"
  by (induction k arbitrary: i r) (force simp: Let_def split: if_splits)+

lemma varint_read_consumed:
  assumes "varint_read data = Some (v, n)"
  shows "1 \<le> n" "n \<le> 9" "n \<le> length data"
  using varint_read_loop_consumed [of data 8 0 0 v n] assms by (auto simp: varint_read_def)

end
