(* ===== verification/Page.thy ===== *)
theory Page
  imports Squrust_Prelude
begin

text \<open>
  Pages, the fixed-size unit of storage: \<open>squrust-core/src/page/mod.rs\<close> and the format
  constants of \<open>page/format.rs\<close>. A page's data is a list of bytes; \<open>page_wf\<close> says that it
  has the length of the Rust array \<open>[u8; PAGE_SIZE]\<close>, and every operation keeps it.
\<close>

section \<open>Format constants\<close>

definition PAGE_SIZE :: nat where "PAGE_SIZE = 4096"
definition HEADER_SIZE :: nat where "HEADER_SIZE = 100"

text \<open>\<open>b"SQLite format 3\0"\<close>.\<close>

definition MAGIC :: bytes where
  "MAGIC = [83, 81, 76, 105, 116, 101, 32, 102, 111, 114, 109, 97, 116, 32, 51, 0]"

definition OFF_MAGIC :: nat where "OFF_MAGIC = 0"
definition OFF_PAGE_SIZE :: nat where "OFF_PAGE_SIZE = 16"
definition OFF_WRITE_VERSION :: nat where "OFF_WRITE_VERSION = 18"
definition OFF_READ_VERSION :: nat where "OFF_READ_VERSION = 19"
definition OFF_RESERVED :: nat where "OFF_RESERVED = 20"
definition OFF_FILE_CHANGE_COUNTER :: nat where "OFF_FILE_CHANGE_COUNTER = 24"
definition OFF_DB_SIZE_PAGES :: nat where "OFF_DB_SIZE_PAGES = 28"
definition OFF_FREELIST_TRUNK :: nat where "OFF_FREELIST_TRUNK = 32"
definition OFF_FREELIST_COUNT :: nat where "OFF_FREELIST_COUNT = 36"
definition OFF_SCHEMA_COOKIE :: nat where "OFF_SCHEMA_COOKIE = 40"
definition OFF_SCHEMA_FORMAT :: nat where "OFF_SCHEMA_FORMAT = 44"
definition OFF_TEXT_ENCODING :: nat where "OFF_TEXT_ENCODING = 56"
definition OFF_VERSION_VALID_FOR :: nat where "OFF_VERSION_VALID_FOR = 92"
definition OFF_SQLITE_VERSION :: nat where "OFF_SQLITE_VERSION = 96"
definition TEXT_ENCODING_UTF8 :: u32 where "TEXT_ENCODING_UTF8 = 1"

lemmas format_defs =
  PAGE_SIZE_def HEADER_SIZE_def OFF_MAGIC_def OFF_PAGE_SIZE_def OFF_WRITE_VERSION_def
  OFF_READ_VERSION_def OFF_RESERVED_def OFF_FILE_CHANGE_COUNTER_def OFF_DB_SIZE_PAGES_def
  OFF_FREELIST_TRUNK_def OFF_FREELIST_COUNT_def OFF_SCHEMA_COOKIE_def OFF_SCHEMA_FORMAT_def
  OFF_TEXT_ENCODING_def OFF_VERSION_VALID_FOR_def OFF_SQLITE_VERSION_def TEXT_ENCODING_UTF8_def

lemma length_MAGIC [simp]: "length MAGIC = 16"
  by (simp add: MAGIC_def)

section \<open>Page types\<close>

type_synonym page_id = u32

datatype page_type = Interior | Leaf | Overflow | FreeList

fun page_type_to_byte :: "page_type \<Rightarrow> u8" where
  "page_type_to_byte Interior = 0x05"
| "page_type_to_byte Leaf = 0x0d"
| "page_type_to_byte Overflow = 0x02"
| "page_type_to_byte FreeList = 0x00"

definition page_type_from_byte :: "u8 \<Rightarrow> page_type option" where
  "page_type_from_byte b =
     (if b = 0x05 then Some Interior
      else if b = 0x0d then Some Leaf
      else if b = 0x02 then Some Overflow
      else if b = 0x00 then Some FreeList
      else None)"

lemma page_type_roundtrip: "page_type_from_byte (page_type_to_byte t) = Some t"
  by (cases t) (simp_all add: page_type_from_byte_def)

lemma page_type_from_byte_Some:
  "page_type_from_byte b = Some t \<longleftrightarrow> b = page_type_to_byte t"
  by (cases t) (auto simp: page_type_from_byte_def)

section \<open>Raw pages\<close>

record raw_page =
  rp_id :: page_id
  rp_data :: bytes
  rp_dirty :: bool

definition page_wf :: "raw_page \<Rightarrow> bool" where
  "page_wf p \<longleftrightarrow> length (rp_data p) = PAGE_SIZE"

definition new_page :: "page_id \<Rightarrow> raw_page" where
  "new_page pid = \<lparr>rp_id = pid, rp_data = replicate PAGE_SIZE 0, rp_dirty = False\<rparr>"

text \<open>\<open>from_bytes\<close> copies at most a page of the input and leaves the rest zero.\<close>

definition page_from_bytes :: "page_id \<Rightarrow> bytes \<Rightarrow> raw_page" where
  "page_from_bytes pid bs =
     (let n = min (length bs) PAGE_SIZE in
      \<lparr>rp_id = pid, rp_data = patch 0 (take n bs) (replicate PAGE_SIZE 0), rp_dirty = False\<rparr>)"

lemma page_wf_new [simp]: "page_wf (new_page pid)"
  by (simp add: page_wf_def new_page_def)

lemma rp_id_new [simp]: "rp_id (new_page pid) = pid"
  by (simp add: new_page_def)

lemma page_wf_from_bytes [simp]: "page_wf (page_from_bytes pid bs)"
  by (simp add: page_wf_def page_from_bytes_def Let_def length_patch)

lemma rp_id_from_bytes [simp]: "rp_id (page_from_bytes pid bs) = pid"
  by (simp add: page_from_bytes_def Let_def)

lemma page_from_bytes_full:
  "length bs = PAGE_SIZE \<Longrightarrow>
   page_from_bytes pid bs = \<lparr>rp_id = pid, rp_data = bs, rp_dirty = False\<rparr>"
  by (simp add: page_from_bytes_def Let_def patch_def)

lemma rp_data_from_bytes [simp]:
  "length bs = PAGE_SIZE \<Longrightarrow> rp_data (page_from_bytes pid bs) = bs"
  by (simp add: page_from_bytes_full)

end
