(* ===== verification/PageCache.thy ===== *)
theory PageCache
  imports Page
begin

text \<open>
  The LRU page cache of \<open>squrust-core/src/page/cache.rs\<close>: a hash map of pages and the
  recency list, least recently used first. The mutex makes every method one step, so
  each is a function on the inner state. The invariant ties the list to the map's keys;
  under it the cache never exceeds its capacity and a hit returns the page last inserted.
\<close>

section \<open>The code\<close>

definition DEFAULT_CAPACITY :: nat where "DEFAULT_CAPACITY = 2000"

record page_cache =
  pc_capacity :: nat
  pc_map :: "page_id \<Rightarrow> raw_page option"
  pc_lru :: "page_id list"

text \<open>\<open>lru.iter().position(..)\<close> then \<open>lru.remove(pos)\<close>: the first occurrence goes.\<close>

definition lru_remove :: "page_id \<Rightarrow> page_id list \<Rightarrow> page_id list" where
  "lru_remove pid xs = remove1 pid xs"

definition cache_touch :: "page_id \<Rightarrow> page_cache \<Rightarrow> page_cache" where
  "cache_touch pid c = c\<lparr>pc_lru := lru_remove pid (pc_lru c) @ [pid]\<rparr>"

text \<open>\<open>evict_if_needed\<close>: the loop drops the front of the list while the map is too large.\<close>

primrec evict_loop ::
    "nat \<Rightarrow> (page_id \<Rightarrow> raw_page option) \<Rightarrow> page_id list \<Rightarrow>
     (page_id \<Rightarrow> raw_page option) \<times> page_id list" where
  "evict_loop cap m [] = (m, [])"
| "evict_loop cap m (victim # rest) =
     (if card (dom m) > cap then evict_loop cap (m(victim := None)) rest
      else (m, victim # rest))"

definition evict_if_needed :: "page_cache \<Rightarrow> page_cache" where
  "evict_if_needed c =
     (let (m, l) = evict_loop (pc_capacity c) (pc_map c) (pc_lru c)
      in c\<lparr>pc_map := m, pc_lru := l\<rparr>)"

definition cache_new :: "nat \<Rightarrow> page_cache" where
  "cache_new capacity = \<lparr>pc_capacity = max capacity 1, pc_map = Map.empty, pc_lru = []\<rparr>"

definition cache_with_default_capacity :: page_cache where
  "cache_with_default_capacity = cache_new DEFAULT_CAPACITY"

definition cache_get :: "page_id \<Rightarrow> page_cache \<Rightarrow> raw_page option \<times> page_cache" where
  "cache_get pid c =
     (case pc_map c pid of
        Some page \<Rightarrow> (Some page, cache_touch pid c)
      | None \<Rightarrow> (None, c))"

definition cache_insert :: "raw_page \<Rightarrow> page_cache \<Rightarrow> page_cache" where
  "cache_insert page c =
     evict_if_needed (cache_touch (rp_id page) (c\<lparr>pc_map := (pc_map c)(rp_id page \<mapsto> page)\<rparr>))"

definition cache_invalidate :: "page_id \<Rightarrow> page_cache \<Rightarrow> page_cache" where
  "cache_invalidate pid c =
     c\<lparr>pc_map := (pc_map c)(pid := None), pc_lru := lru_remove pid (pc_lru c)\<rparr>"

definition cache_clear :: "page_cache \<Rightarrow> page_cache" where
  "cache_clear c = c\<lparr>pc_map := Map.empty, pc_lru := []\<rparr>"

definition cache_len :: "page_cache \<Rightarrow> nat" where
  "cache_len c = card (dom (pc_map c))"

section \<open>The invariant\<close>

definition cache_inv :: "page_cache \<Rightarrow> bool" where
  "cache_inv c \<longleftrightarrow>
     1 \<le> pc_capacity c \<and> distinct (pc_lru c) \<and> set (pc_lru c) = dom (pc_map c) \<and>
     cache_len c \<le> pc_capacity c \<and>
     (\<forall>pid p. pc_map c pid = Some p \<longrightarrow> rp_id p = pid \<and> page_wf p)"

lemma cache_invD:
  assumes "cache_inv c"
  shows "1 \<le> pc_capacity c" "distinct (pc_lru c)" "set (pc_lru c) = dom (pc_map c)"
    "length (pc_lru c) = cache_len c" "cache_len c \<le> pc_capacity c"
    "pc_map c pid = Some p \<Longrightarrow> rp_id p = pid" "pc_map c pid = Some p \<Longrightarrow> page_wf p"
  using assms distinct_card [of "pc_lru c"] by (auto simp: cache_inv_def cache_len_def)

lemma cache_inv_new [simp]: "cache_inv (cache_new n)"
  by (simp add: cache_inv_def cache_new_def cache_len_def)

lemma cache_inv_get: "cache_inv c \<Longrightarrow> cache_inv (snd (cache_get pid c))"
  by (auto simp: cache_inv_def cache_get_def cache_touch_def lru_remove_def cache_len_def
      split: option.splits)

lemma cache_inv_invalidate: "cache_inv c \<Longrightarrow> cache_inv (cache_invalidate pid c)"
  by (auto simp: cache_inv_def cache_invalidate_def lru_remove_def cache_len_def
      intro: le_trans [OF card_Diff1_le] split: if_splits)

lemma cache_inv_clear: "cache_inv c \<Longrightarrow> cache_inv (cache_clear c)"
  by (simp add: cache_inv_def cache_clear_def cache_len_def)

text \<open>
  One page too many: the loop drops exactly the head of the recency list. With at most
  the capacity it does nothing.
\<close>

lemma evict_loop_fits: "card (dom m) \<le> cap \<Longrightarrow> evict_loop cap m l = (m, l)"
  by (cases l) auto

lemma evict_loop_one:
  assumes "card (dom m) = Suc cap" and "v \<in> dom m" and "finite (dom m)"
  shows "evict_loop cap m (v # rest) = (m(v := None), rest)"
proof -
  have "card (dom (m(v := None))) = cap"
    using assms by (simp add: card_Diff_singleton)
  then show ?thesis using assms(1) evict_loop_fits by simp
qed

text \<open>The state an insertion reaches before it evicts.\<close>

definition cache_put :: "raw_page \<Rightarrow> page_cache \<Rightarrow> page_cache" where
  "cache_put page c = cache_touch (rp_id page) (c\<lparr>pc_map := (pc_map c)(rp_id page \<mapsto> page)\<rparr>)"

lemma cache_put_simps:
  "pc_map (cache_put page c) = (pc_map c)(rp_id page \<mapsto> page)"
  "pc_lru (cache_put page c) = lru_remove (rp_id page) (pc_lru c) @ [rp_id page]"
  "pc_capacity (cache_put page c) = pc_capacity c"
  by (simp_all add: cache_put_def cache_touch_def)

lemma cache_insert_evicts:
  assumes inv: "cache_inv c" and full: "cache_len (cache_put page c) > pc_capacity c"
  obtains v rest where "pc_lru c = v # rest" "v \<noteq> rp_id page"
    "rp_id page \<notin> dom (pc_map c)"
    "cache_insert page c = c\<lparr>pc_map := (pc_map c)(v := None, rp_id page \<mapsto> page),
                              pc_lru := rest @ [rp_id page]\<rparr>"
proof -
  let ?p = "rp_id page"
  have fin: "finite (dom (pc_map c))"
    using cache_invD(3) [OF inv] by (metis List.finite_set)
  have new: "?p \<notin> dom (pc_map c)"
  proof
    assume "?p \<in> dom (pc_map c)"
    then have "cache_len (cache_put page c) = cache_len c"
      by (simp add: cache_len_def cache_put_simps insert_absorb)
    with full cache_invD(5) [OF inv] show False by simp
  qed
  then have len: "cache_len (cache_put page c) = Suc (cache_len c)"
    using fin by (simp add: cache_len_def cache_put_simps)
  with full cache_invD(5) [OF inv] have cap: "cache_len c = pc_capacity c" by simp
  with cache_invD(1,4) [OF inv] obtain v rest where l: "pc_lru c = v # rest"
    by (cases "pc_lru c") auto
  then have v: "v \<in> dom (pc_map c)" using cache_invD(3) [OF inv] by auto
  with new have vp: "v \<noteq> ?p" by auto
  have lru: "pc_lru (cache_put page c) = v # rest @ [?p]"
    using new cache_invD(3) [OF inv] by (simp add: cache_put_simps lru_remove_def remove1_idem l [symmetric])
  have "evict_loop (pc_capacity c) (pc_map (cache_put page c)) (v # rest @ [?p]) =
        ((pc_map (cache_put page c))(v := None), rest @ [?p])"
    using len cap v fin
    by (intro evict_loop_one) (auto simp: cache_len_def cache_put_simps)
  then have "cache_insert page c = (cache_put page c)\<lparr>pc_map := (pc_map (cache_put page c))(v := None),
      pc_lru := rest @ [?p]\<rparr>"
    by (simp add: cache_insert_def evict_if_needed_def cache_put_simps(3) lru flip: cache_put_def)
  also have "\<dots> = c\<lparr>pc_map := (pc_map c)(v := None, ?p \<mapsto> page), pc_lru := rest @ [?p]\<rparr>"
    using vp by (simp add: cache_put_def cache_touch_def fun_upd_twist)
  finally show thesis using that l vp new by blast
qed

lemma cache_insert_no_evict:
  "cache_len (cache_put page c) \<le> pc_capacity c \<Longrightarrow> cache_insert page c = cache_put page c"
  by (simp add: cache_insert_def evict_if_needed_def evict_loop_fits cache_len_def
      cache_put_simps flip: cache_put_def)

lemma cache_inv_insert:
  assumes inv: "cache_inv c" and wf: "page_wf page"
  shows "cache_inv (cache_insert page c)"
proof (cases "cache_len (cache_put page c) > pc_capacity c")
  case True
  with inv obtain v rest where ev: "pc_lru c = v # rest" "v \<noteq> rp_id page"
    "rp_id page \<notin> dom (pc_map c)"
    "cache_insert page c = c\<lparr>pc_map := (pc_map c)(v := None, rp_id page \<mapsto> page),
                              pc_lru := rest @ [rp_id page]\<rparr>"
    by (rule cache_insert_evicts)
  let ?m = "(pc_map c)(v := None, rp_id page \<mapsto> page)"
  have d: "dom ?m = insert (rp_id page) (set rest)"
    using ev(1-3) cache_invD(2,3) [OF inv] by auto
  have r: "rp_id page \<notin> set rest" "distinct rest"
    using ev(1-3) cache_invD(2,3) [OF inv] by auto
  have "card (dom ?m) = Suc (length rest)"
    using d r by (simp add: distinct_card)
  also have "\<dots> = cache_len c"
    using ev(1) cache_invD(4) [OF inv] by simp
  finally have "card (dom ?m) = cache_len c" .
  moreover have "rp_id p = pid \<and> page_wf p" if "?m pid = Some p" for pid p
    using that wf cache_invD(6,7) [OF inv] by (cases "pid = v"; cases "pid = rp_id page") auto
  ultimately show ?thesis
    using d r cache_invD(1,5) [OF inv]
    by (simp add: ev(4) cache_inv_def cache_len_def del: fun_upd_apply)
next
  case False
  then have "cache_insert page c = cache_put page c"
    by (simp add: cache_insert_no_evict)
  with False inv wf show ?thesis
    by (auto simp: cache_inv_def cache_put_simps lru_remove_def split: if_splits)
qed

section \<open>What the operations return\<close>

lemma cache_insert_capacity [simp]: "pc_capacity (cache_insert page c) = pc_capacity c"
  by (simp add: cache_insert_def evict_if_needed_def cache_touch_def split: prod.splits)

text \<open>The page just inserted is in the cache, whatever was evicted.\<close>

lemma cache_insert_hit:
  assumes "cache_inv c"
  shows "pc_map (cache_insert page c) (rp_id page) = Some page"
proof (cases "cache_len (cache_put page c) > pc_capacity c")
  case True
  with assms show ?thesis by (rule cache_insert_evicts) simp
qed (simp add: cache_insert_no_evict cache_put_simps)

text \<open>The entries after an insertion are old entries or the new one.\<close>

lemma cache_insert_entries:
  assumes "cache_inv c"
  shows "pc_map (cache_insert page c) \<subseteq>\<^sub>m (pc_map c)(rp_id page \<mapsto> page)"
proof (cases "cache_len (cache_put page c) > pc_capacity c")
  case True
  with assms show ?thesis by (rule cache_insert_evicts) (auto simp: map_le_def)
qed (simp add: cache_insert_no_evict cache_put_simps)

lemma cache_get_map [simp]: "pc_map (snd (cache_get pid c)) = pc_map c"
  by (simp add: cache_get_def cache_touch_def split: option.splits)

lemma cache_get_fst [simp]: "fst (cache_get pid c) = pc_map c pid"
  by (simp add: cache_get_def split: option.splits)

lemma cache_invalidate_map [simp]: "pc_map (cache_invalidate pid c) = (pc_map c)(pid := None)"
  by (simp add: cache_invalidate_def)

text \<open>
  C34. A cache that satisfies the invariant keeps it under an insertion, never holds more
  pages than its capacity, returns the page just inserted on the next lookup, and
  evicts, when it is full and the page is new, exactly the least recently used page.
\<close>

theorem cache_insert_correct:
  assumes "cache_inv c" and "page_wf page"
  shows "cache_inv (cache_insert page c)
    \<and> cache_len (cache_insert page c) \<le> pc_capacity c
    \<and> fst (cache_get (rp_id page) (cache_insert page c)) = Some page
    \<and> (\<forall>pid. pid \<noteq> rp_id page \<longrightarrow>
         pc_map (cache_insert page c) pid =
           (if rp_id page \<notin> dom (pc_map c) \<and> cache_len c = pc_capacity c \<and> pid = hd (pc_lru c)
            then None else pc_map c pid))"
proof (cases "cache_len (cache_put page c) > pc_capacity c")
  case True
  with assms(1) obtain v rest where ev: "pc_lru c = v # rest" "v \<noteq> rp_id page"
    "rp_id page \<notin> dom (pc_map c)"
    "cache_insert page c = c\<lparr>pc_map := (pc_map c)(v := None, rp_id page \<mapsto> page),
                              pc_lru := rest @ [rp_id page]\<rparr>"
    by (rule cache_insert_evicts)
  have "finite (dom (pc_map c))"
    using cache_invD(3) [OF assms(1)] by (metis List.finite_set)
  then have "cache_len (cache_put page c) = Suc (cache_len c)"
    using ev(3) by (simp add: cache_len_def cache_put_simps)
  with True cache_invD(5) [OF assms(1)] have "cache_len c = pc_capacity c" by simp
  with ev assms show ?thesis
    using cache_invD(5) [OF cache_inv_insert [OF assms]] cache_inv_insert [OF assms]
    by (simp add: cache_insert_hit)
next
  case False
  have "finite (dom (pc_map c))"
    using cache_invD(3) [OF assms(1)] by (metis List.finite_set)
  then have "rp_id page \<in> dom (pc_map c) \<or> cache_len c < pc_capacity c"
    using False by (cases "rp_id page \<in> dom (pc_map c)") (simp_all add: cache_len_def cache_put_simps)
  then show ?thesis
    using False cache_invD(5) [OF cache_inv_insert [OF assms]] cache_inv_insert [OF assms]
    by (auto simp: cache_insert_no_evict cache_put_simps)
qed

theorem cache_insert_correct_witness:
  "fst (cache_get 3 (cache_insert (new_page 3) (cache_new 1))) = Some (new_page 3)"
  using cache_insert_correct [of "cache_new 1" "new_page 3"] by simp

end
