(* ===== verification/DbHeader.thy ===== *)
theory DbHeader
  imports Page
begin

text \<open>
  The 100-byte database header of \<open>squrust-core/src/storage/header.rs\<close>, written and read
  at the start of page 1. The writer is the sequence of buffer writes of the code, in
  its order; the reader is its two checks and its field reads.
\<close>

section \<open>The code\<close>

record db_header =
  dh_page_size :: u32
  dh_db_size_pages :: u32
  dh_change_counter :: u32
  dh_schema_cookie :: u32
  dh_freelist_trunk :: u32
  dh_freelist_count :: u32
  dh_user_version :: u32

definition default_header :: db_header where
  "default_header =
     \<lparr>dh_page_size = word_of_nat PAGE_SIZE, dh_db_size_pages = 1, dh_change_counter = 1,
      dh_schema_cookie = 0, dh_freelist_trunk = 0, dh_freelist_count = 0,
      dh_user_version = 0\<rparr>"

text \<open>A sequence of writes \<open>buf[at..at + n].copy_from_slice(..)\<close>.\<close>

definition apply_writes :: "(nat \<times> bytes) list \<Rightarrow> bytes \<Rightarrow> bytes" where
  "apply_writes ws buf = foldl (\<lambda>b (at, src). patch at src b) buf ws"

definition header_page_size_field :: "u32 \<Rightarrow> u16" where
  "header_page_size_field ps = (if ps = 65536 then 1 else ucast ps)"

definition header_writes :: "db_header \<Rightarrow> (nat \<times> bytes) list" where
  "header_writes h =
     [(0, replicate HEADER_SIZE 0),
      (OFF_MAGIC, MAGIC),
      (OFF_PAGE_SIZE, u16_be (header_page_size_field (dh_page_size h))),
      (OFF_WRITE_VERSION, [1]),
      (OFF_READ_VERSION, [1]),
      (OFF_RESERVED, [0]),
      (21, [64]),
      (22, [32]),
      (23, [32]),
      (OFF_FILE_CHANGE_COUNTER, u32_be (dh_change_counter h)),
      (OFF_DB_SIZE_PAGES, u32_be (dh_db_size_pages h)),
      (OFF_FREELIST_TRUNK, u32_be (dh_freelist_trunk h)),
      (OFF_FREELIST_COUNT, u32_be (dh_freelist_count h)),
      (OFF_SCHEMA_COOKIE, u32_be (dh_schema_cookie h)),
      (OFF_SCHEMA_FORMAT, u32_be 4),
      (48, u32_be 0),
      (52, u32_be 0),
      (OFF_TEXT_ENCODING, u32_be TEXT_ENCODING_UTF8),
      (60, u32_be (dh_user_version h)),
      (64, u32_be 0),
      (68, u32_be 0),
      (OFF_VERSION_VALID_FOR, u32_be (dh_change_counter h)),
      (OFF_SQLITE_VERSION, u32_be 3045000)]"

text \<open>\<open>assert!(buf.len() >= HEADER_SIZE)\<close>; after it every write is in bounds.\<close>

definition header_write_into :: "db_header \<Rightarrow> bytes \<Rightarrow> bytes sres" where
  "header_write_into h buf =
     (if length buf \<ge> HEADER_SIZE then Ok (apply_writes (header_writes h) buf) else Panic)"

definition get_u32 :: "bytes \<Rightarrow> nat \<Rightarrow> u32" where
  "get_u32 buf at = be_u32 (slice at 4 buf)"

definition header_read_from :: "bytes \<Rightarrow> db_header sres" where
  "header_read_from buf =
     (if length buf < HEADER_SIZE \<or> slice OFF_MAGIC 16 buf \<noteq> MAGIC then Err BadMagic
      else
        let raw_ps = be_u16 (slice OFF_PAGE_SIZE 2 buf);
            page_size = (if raw_ps = 1 then 65536 else ucast raw_ps)
        in if page_size \<noteq> word_of_nat PAGE_SIZE then Err (BadPageSize page_size)
           else Ok \<lparr>dh_page_size = page_size,
                    dh_db_size_pages = get_u32 buf OFF_DB_SIZE_PAGES,
                    dh_change_counter = get_u32 buf OFF_FILE_CHANGE_COUNTER,
                    dh_schema_cookie = get_u32 buf OFF_SCHEMA_COOKIE,
                    dh_freelist_trunk = get_u32 buf OFF_FREELIST_TRUNK,
                    dh_freelist_count = get_u32 buf OFF_FREELIST_COUNT,
                    dh_user_version = get_u32 buf 60\<rparr>)"

section \<open>What the writer leaves in the buffer\<close>

lemma apply_writes_simps [simp]:
  "apply_writes [] buf = buf"
  "apply_writes ((at, src) # ws) buf = apply_writes ws (patch at src buf)"
  by (simp_all add: apply_writes_def)

lemma apply_writes_snoc: "apply_writes (ws @ [(at, src)]) buf = patch at src (apply_writes ws buf)"
  by (simp add: apply_writes_def)

lemma length_apply_writes:
  "list_all (\<lambda>(at, src). at + length src \<le> length buf) ws \<Longrightarrow>
   length (apply_writes ws buf) = length buf"
  by (induction ws arbitrary: buf) (auto simp: length_patch)

text \<open>
  A region is what the write \<open>(at, src)\<close> put there when no later write touches it; a
  region no write touches is unchanged.
\<close>

lemma slice_apply_writes_other:
  "list_all (\<lambda>(at, src). at + length src \<le> length buf \<and> (a + n \<le> at \<or> at + length src \<le> a)) ws \<Longrightarrow>
   slice a n (apply_writes ws buf) = slice a n buf"
proof (induction ws arbitrary: buf)
  case (Cons w ws)
  obtain at src where w: "w = (at, src)" by force
  with Cons.prems have "slice a n (apply_writes ws (patch at src buf)) = slice a n (patch at src buf)"
    by (intro Cons.IH) (simp add: length_patch)
  also have "\<dots> = slice a n buf"
    using Cons.prems w by (intro slice_patch_other) auto
  finally show ?case by (simp add: w)
qed simp

lemma slice_apply_writes_at:
  assumes "list_all (\<lambda>(at, src). at + length src \<le> length buf) (ws1 @ (at, src) # ws2)"
    and "list_all (\<lambda>(at', src'). at + length src \<le> at' \<or> at' + length src' \<le> at) ws2"
    and "n = length src"
  shows "slice at n (apply_writes (ws1 @ (at, src) # ws2) buf) = src"
proof -
  let ?b = "apply_writes ws1 buf"
  have len: "length ?b = length buf"
    using assms(1) by (simp add: length_apply_writes)
  have "slice at n (apply_writes ws2 (patch at src ?b)) = slice at n (patch at src ?b)"
    using assms len
    by (intro slice_apply_writes_other) (auto simp: list_all_iff length_patch)
  also have "\<dots> = src"
    using assms len by (intro slice_patch_same) auto
  finally show ?thesis by (simp add: apply_writes_def)
qed

lemma header_writes_bounds:
  "HEADER_SIZE \<le> length buf \<Longrightarrow>
   list_all (\<lambda>(at, src). at + length src \<le> length buf) (header_writes h)"
  by (simp add: header_writes_def format_defs)

lemma header_write_length:
  "header_write_into h buf = Ok buf' \<Longrightarrow> length buf' = length buf"
  by (auto simp: header_write_into_def length_apply_writes header_writes_bounds split: if_splits)

text \<open>The bytes past the header are untouched.\<close>

lemma header_write_tail:
  assumes "HEADER_SIZE \<le> length buf" and "HEADER_SIZE \<le> a"
  shows "slice a n (apply_writes (header_writes h) buf) = slice a n buf"
  using assms by (intro slice_apply_writes_other) (simp add: header_writes_def format_defs)

lemma header_write_drop:
  assumes "HEADER_SIZE \<le> length buf"
  shows "drop HEADER_SIZE (apply_writes (header_writes h) buf) = drop HEADER_SIZE buf"
  using header_write_tail [OF assms order.refl, of "length buf" h]
    length_apply_writes [OF header_writes_bounds [OF assms]]
  by (simp add: slice_def)

text \<open>One lemma per field: which write of the sequence determines it.\<close>

lemma header_slices:
  assumes "HEADER_SIZE \<le> length buf"
  shows "slice OFF_MAGIC 16 (apply_writes (header_writes h) buf) = MAGIC"
    and "slice OFF_PAGE_SIZE 2 (apply_writes (header_writes h) buf)
         = u16_be (header_page_size_field (dh_page_size h))"
    and "slice OFF_FILE_CHANGE_COUNTER 4 (apply_writes (header_writes h) buf) = u32_be (dh_change_counter h)"
    and "slice OFF_DB_SIZE_PAGES 4 (apply_writes (header_writes h) buf) = u32_be (dh_db_size_pages h)"
    and "slice OFF_FREELIST_TRUNK 4 (apply_writes (header_writes h) buf) = u32_be (dh_freelist_trunk h)"
    and "slice OFF_FREELIST_COUNT 4 (apply_writes (header_writes h) buf) = u32_be (dh_freelist_count h)"
    and "slice OFF_SCHEMA_COOKIE 4 (apply_writes (header_writes h) buf) = u32_be (dh_schema_cookie h)"
    and "slice 60 4 (apply_writes (header_writes h) buf) = u32_be (dh_user_version h)"
    and "slice OFF_VERSION_VALID_FOR 4 (apply_writes (header_writes h) buf) = u32_be (dh_change_counter h)"
proof -
  have at: "slice at n (apply_writes (header_writes h) buf) = src"
    if "header_writes h = pre @ (at, src) # post" and "n = length src"
      and "list_all (\<lambda>(at', src'). at + length src \<le> at' \<or> at' + length src' \<le> at) post"
    for at n src pre post
    using slice_apply_writes_at [of buf pre at src post n] that header_writes_bounds [OF assms, of h]
    by simp
  note w = header_writes_def format_defs
  show "slice OFF_MAGIC 16 (apply_writes (header_writes h) buf) = MAGIC"
    by (rule at [where pre = "take 1 (header_writes h)" and post = "drop 2 (header_writes h)"]) (simp_all add: w)
  show "slice OFF_PAGE_SIZE 2 (apply_writes (header_writes h) buf)
         = u16_be (header_page_size_field (dh_page_size h))"
    by (rule at [where pre = "take 2 (header_writes h)" and post = "drop 3 (header_writes h)"]) (simp_all add: w)
  show "slice OFF_FILE_CHANGE_COUNTER 4 (apply_writes (header_writes h) buf) = u32_be (dh_change_counter h)"
    by (rule at [where pre = "take 9 (header_writes h)" and post = "drop 10 (header_writes h)"]) (simp_all add: w)
  show "slice OFF_DB_SIZE_PAGES 4 (apply_writes (header_writes h) buf) = u32_be (dh_db_size_pages h)"
    by (rule at [where pre = "take 10 (header_writes h)" and post = "drop 11 (header_writes h)"]) (simp_all add: w)
  show "slice OFF_FREELIST_TRUNK 4 (apply_writes (header_writes h) buf) = u32_be (dh_freelist_trunk h)"
    by (rule at [where pre = "take 11 (header_writes h)" and post = "drop 12 (header_writes h)"]) (simp_all add: w)
  show "slice OFF_FREELIST_COUNT 4 (apply_writes (header_writes h) buf) = u32_be (dh_freelist_count h)"
    by (rule at [where pre = "take 12 (header_writes h)" and post = "drop 13 (header_writes h)"]) (simp_all add: w)
  show "slice OFF_SCHEMA_COOKIE 4 (apply_writes (header_writes h) buf) = u32_be (dh_schema_cookie h)"
    by (rule at [where pre = "take 13 (header_writes h)" and post = "drop 14 (header_writes h)"]) (simp_all add: w)
  show "slice 60 4 (apply_writes (header_writes h) buf) = u32_be (dh_user_version h)"
    by (rule at [where pre = "take 18 (header_writes h)" and post = "drop 19 (header_writes h)"]) (simp_all add: w)
  show "slice OFF_VERSION_VALID_FOR 4 (apply_writes (header_writes h) buf) = u32_be (dh_change_counter h)"
    by (rule at [where pre = "take 21 (header_writes h)" and post = "drop 22 (header_writes h)"]) (simp_all add: w)
qed

section \<open>The round trip\<close>

lemma header_roundtrip_core:
  assumes "HEADER_SIZE \<le> length buf" and "dh_page_size h = word_of_nat PAGE_SIZE"
  shows "\<exists>buf'. header_write_into h buf = Ok buf' \<and> header_read_from buf' = Ok h
     \<and> length buf' = length buf"
proof -
  let ?b = "apply_writes (header_writes h) buf"
  have len: "length ?b = length buf"
    using assms(1) by (simp add: length_apply_writes header_writes_bounds)
  have "header_read_from ?b = Ok h"
    using assms len header_slices [OF assms(1), of h]
    by (simp add: header_read_from_def get_u32_def header_page_size_field_def Let_def PAGE_SIZE_def)
  then show ?thesis using assms(1) len by (simp add: header_write_into_def)
qed

text \<open>
  Writing a header whose page size is the supported one and reading it back gives
  the same header; the writer changes nothing past byte 100, keeps the buffer's length,
  and stores the change counter a second time as "version valid for".
\<close>

theorem header_roundtrip:
  assumes "HEADER_SIZE \<le> length buf" and "dh_page_size h = word_of_nat PAGE_SIZE"
  shows "\<exists>buf'. header_write_into h buf = Ok buf' \<and> header_read_from buf' = Ok h
     \<and> length buf' = length buf \<and> drop HEADER_SIZE buf' = drop HEADER_SIZE buf
     \<and> get_u32 buf' OFF_VERSION_VALID_FOR = dh_change_counter h"
  using header_roundtrip_core [OF assms] assms(1) header_write_drop [OF assms(1)]
    header_slices(9) [OF assms(1), of h]
  by (auto simp: header_write_into_def get_u32_def)

theorem header_roundtrip_witness:
  "\<exists>buf'. header_write_into default_header (replicate 100 7) = Ok buf'
     \<and> header_read_from buf' = Ok default_header"
  using header_roundtrip [of "replicate 100 7" default_header]
  by (auto simp: HEADER_SIZE_def default_header_def)

text \<open>A header is accepted only with the magic string and the supported page size.\<close>

lemma header_read_from_ok:
  assumes "header_read_from buf = Ok h"
  shows "HEADER_SIZE \<le> length buf" "slice OFF_MAGIC 16 buf = MAGIC"
    "dh_page_size h = word_of_nat PAGE_SIZE"
  using assms by (auto simp: header_read_from_def Let_def split: if_splits)

end
