(* ===== verification/BTreeNode.thy ===== *)
theory BTreeNode
  imports Page Varint
begin

text \<open>
  The on-disk b-tree nodes of \<open>squrust-core/src/btree/node.rs\<close>: leaf and interior nodes,
  their sizes, the search and routing functions, the serializer into a page and the
  parser back. The main lemma is the round trip: a node that fits its page is written
  without a panic and parses back to itself, and on page 1 the first 100 bytes (the
  database header) are kept.
\<close>

section \<open>Constants and cells\<close>

definition TABLE_LEAF :: u8 where "TABLE_LEAF = 0x0d"
definition TABLE_INTERIOR :: u8 where "TABLE_INTERIOR = 0x05"
definition USABLE :: nat where "USABLE = PAGE_SIZE"

definition header_offset :: "page_id \<Rightarrow> nat" where
  "header_offset pid = (if pid = 1 then 100 else 0)"

text \<open>\<open>v as u64\<close> and \<open>v as i64\<close>: the names are historical, the bits are kept.\<close>

definition zigzag :: "i64 \<Rightarrow> u64" where "zigzag v = i64_bits v"
definition unzigzag :: "u64 \<Rightarrow> i64" where "unzigzag v = I64 v"

lemma unzigzag_zigzag [simp]: "unzigzag (zigzag v) = v"
  by (simp add: zigzag_def unzigzag_def)

record leaf_cell =
  lc_rowid :: i64
  lc_payload_len :: u64
  lc_overflow :: page_id
  lc_inline :: bytes

definition encoded_len :: "leaf_cell \<Rightarrow> nat" where
  "encoded_len c =
     varint_len (lc_payload_len c) + varint_len (zigzag (lc_rowid c)) + length (lc_inline c)
     + (if lc_overflow c \<noteq> 0 then 4 else 0)"

record leaf_node =
  ln_cells :: "leaf_cell list"

record interior_node =
  in_cells :: "(page_id \<times> i64) list"
  in_right_child :: page_id

datatype node = NLeaf leaf_node | NInterior interior_node

definition empty_leaf :: node where
  "empty_leaf = NLeaf \<lparr>ln_cells = []\<rparr>"

section \<open>Search and routing\<close>

text \<open>
  \<open>binary_search_by_key\<close> of the standard library: bisection of \<open>lo..hi\<close>. On a strictly
  sorted list the documented result is unique (lemmas below), so any implementation of
  it agrees with this one there.
\<close>

datatype search_result = Found nat | NotFound nat

function bisect :: "i64 list \<Rightarrow> i64 \<Rightarrow> nat \<Rightarrow> nat \<Rightarrow> search_result" where
  "bisect keys k lo hi =
     (if lo < hi then
        let mid = lo + (hi - lo) div 2 in
        if keys ! mid < k then bisect keys k (mid + 1) hi
        else if k < keys ! mid then bisect keys k lo mid
        else Found mid
      else NotFound lo)"
  by pat_completeness auto
termination
  by (relation "measure (\<lambda>(keys, k, lo, hi). hi - lo)") auto

declare bisect.simps [simp del]

definition leaf_search :: "leaf_node \<Rightarrow> i64 \<Rightarrow> search_result" where
  "leaf_search l rowid = bisect (map lc_rowid (ln_cells l)) rowid 0 (length (ln_cells l))"

definition leaf_used :: "leaf_node \<Rightarrow> page_id \<Rightarrow> nat" where
  "leaf_used l pid =
     header_offset pid + 8 + length (ln_cells l) * 2 + sum_list (map encoded_len (ln_cells l))"

definition leaf_fits :: "leaf_node \<Rightarrow> page_id \<Rightarrow> bool" where
  "leaf_fits l pid \<longleftrightarrow> leaf_used l pid \<le> PAGE_SIZE"

text \<open>\<open>child_for\<close>: the first cell whose key is at least the rowid, else the right child.\<close>

fun child_for_cells :: "(page_id \<times> i64) list \<Rightarrow> page_id \<Rightarrow> i64 \<Rightarrow> page_id" where
  "child_for_cells [] rc rowid = rc"
| "child_for_cells ((child, key) # cs) rc rowid =
     (if rowid \<le> key then child else child_for_cells cs rc rowid)"

definition child_for :: "interior_node \<Rightarrow> i64 \<Rightarrow> page_id" where
  "child_for n rowid = child_for_cells (in_cells n) (in_right_child n) rowid"

definition cell_len :: "i64 \<Rightarrow> nat" where
  "cell_len key = 4 + varint_len (zigzag key)"

definition interior_used :: "interior_node \<Rightarrow> page_id \<Rightarrow> nat" where
  "interior_used n pid =
     header_offset pid + 12 + length (in_cells n) * 2
     + sum_list (map (\<lambda>(_, k). cell_len k) (in_cells n))"

definition interior_fits :: "interior_node \<Rightarrow> page_id \<Rightarrow> bool" where
  "interior_fits n pid \<longleftrightarrow> interior_used n pid \<le> PAGE_SIZE"

section \<open>The serializer\<close>

text \<open>The bytes of one leaf cell, \<open>tmp\<close> in the code.\<close>

definition leaf_cell_bytes :: "leaf_cell \<Rightarrow> bytes" where
  "leaf_cell_bytes c =
     varint_bytes (lc_payload_len c) @ varint_bytes (zigzag (lc_rowid c)) @ lc_inline c
     @ (if lc_overflow c \<noteq> 0 then u32_be (lc_overflow c) else [])"

text \<open>
  The loop over the cells: \<open>ptr\<close> is \<open>ptr_array + i * 2\<close> and \<open>pos\<close> is \<open>cell_pos\<close>.
\<close>

fun put_leaf_cells :: "bytes \<Rightarrow> nat \<Rightarrow> nat \<Rightarrow> leaf_cell list \<Rightarrow> bytes sres" where
  "put_leaf_cells buf ptr pos [] = Ok buf"
| "put_leaf_cells buf ptr pos (c # cs) =
     obind (write_u16 buf ptr (word_of_nat pos)) (\<lambda>buf.
     obind (copy_at buf pos (leaf_cell_bytes c)) (\<lambda>buf.
     put_leaf_cells buf (ptr + 2) (pos + length (leaf_cell_bytes c)) cs))"

fun put_interior_cells :: "bytes \<Rightarrow> nat \<Rightarrow> nat \<Rightarrow> (page_id \<times> i64) list \<Rightarrow> bytes sres" where
  "put_interior_cells buf ptr pos [] = Ok buf"
| "put_interior_cells buf ptr pos ((child, key) # cs) =
     obind (write_u16 buf ptr (word_of_nat pos)) (\<lambda>buf.
     obind (copy_at buf pos (u32_be child)) (\<lambda>buf.
     obind (copy_at buf (pos + 4) (varint_bytes (zigzag key))) (\<lambda>buf.
     put_interior_cells buf (ptr + 2) (pos + 4 + length (varint_bytes (zigzag key))) cs)))"

text \<open>The 8 header bytes both kinds of node share.\<close>

definition put_node_header :: "bytes \<Rightarrow> nat \<Rightarrow> u8 \<Rightarrow> nat \<Rightarrow> nat \<Rightarrow> bytes sres" where
  "put_node_header buf off ty num_cells content_start =
     obind (copy_at buf off [ty]) (\<lambda>buf.
     obind (write_u16 buf (off + 1) 0) (\<lambda>buf.
     obind (write_u16 buf (off + 3) (word_of_nat num_cells)) (\<lambda>buf.
     obind (write_u16 buf (off + 5) (word_of_nat content_start)) (\<lambda>buf.
     copy_at buf (off + 7) [0]))))"

text \<open>\<open>PAGE_SIZE - total\<close> panics on underflow.\<close>

definition serialize_leaf :: "leaf_node \<Rightarrow> nat \<Rightarrow> bytes \<Rightarrow> bytes sres" where
  "serialize_leaf leaf off buf =
     (let total = sum_list (map encoded_len (ln_cells leaf)) in
      if total > PAGE_SIZE then Panic
      else
        let content_start = PAGE_SIZE - total in
        obind (put_node_header buf off TABLE_LEAF (length (ln_cells leaf)) content_start) (\<lambda>buf.
        put_leaf_cells buf (off + 8) content_start (ln_cells leaf)))"

definition serialize_interior :: "interior_node \<Rightarrow> nat \<Rightarrow> bytes \<Rightarrow> bytes sres" where
  "serialize_interior n off buf =
     (let total = sum_list (map (\<lambda>(_, k). cell_len k) (in_cells n)) in
      if total > PAGE_SIZE then Panic
      else
        let content_start = PAGE_SIZE - total in
        obind (put_node_header buf off TABLE_INTERIOR (length (in_cells n)) content_start) (\<lambda>buf.
        obind (write_u32 buf (off + 8) (in_right_child n)) (\<lambda>buf.
        put_interior_cells buf (off + 12) content_start (in_cells n))))"

definition serialize_into :: "node \<Rightarrow> raw_page \<Rightarrow> raw_page sres" where
  "serialize_into nd page =
     (let off = header_offset (rp_id page);
          buf = take off (rp_data page) @ replicate (length (rp_data page) - off) 0 in
      obind (case nd of NLeaf leaf \<Rightarrow> serialize_leaf leaf off buf
                      | NInterior n \<Rightarrow> serialize_interior n off buf) (\<lambda>buf.
      Ok (page\<lparr>rp_data := buf, rp_dirty := True\<rparr>)))"

section \<open>The parser\<close>

definition inline_len_for :: "u64 \<Rightarrow> nat" where
  "inline_len_for p =
     (let u = USABLE; x = u - 35 in
      if unat p \<le> x then unat p
      else
        let m = (u - 12) * 32 div 255 - 23;
            k = m + (unat p - m) mod (u - 4)
        in if k \<le> x then k else m)"

definition parse_leaf_cell :: "bytes \<Rightarrow> nat \<Rightarrow> leaf_cell sres" where
  "parse_leaf_cell buf pos =
     obind (slice_from buf pos) (\<lambda>d.
     obind (ok_or (varint_read d) (Corrupt BadPayloadVarint)) (\<lambda>(payload_len, n).
     let pos = pos + n in
     obind (slice_from buf pos) (\<lambda>d.
     obind (ok_or (varint_read d) (Corrupt BadRowidVarint)) (\<lambda>(rowid_raw, n).
     let pos = pos + n; rowid = unzigzag rowid_raw; p = unat payload_len; x = USABLE - 35 in
     if p \<le> x then
       obind (slice_range buf pos (pos + p)) (\<lambda>inline.
       Ok \<lparr>lc_rowid = rowid, lc_payload_len = payload_len, lc_overflow = 0, lc_inline = inline\<rparr>)
     else
       let inline_len = inline_len_for payload_len in
       obind (slice_range buf pos (pos + inline_len)) (\<lambda>inline.
       obind (read_u32 buf (pos + inline_len)) (\<lambda>overflow.
       Ok \<lparr>lc_rowid = rowid, lc_payload_len = payload_len, lc_overflow = overflow,
           lc_inline = inline\<rparr>))))))"

definition parse_interior_cell :: "bytes \<Rightarrow> nat \<Rightarrow> (page_id \<times> i64) sres" where
  "parse_interior_cell buf cell_off =
     obind (read_u32 buf cell_off) (\<lambda>child.
     obind (slice_from buf (cell_off + 4)) (\<lambda>d.
     obind (ok_or (varint_read d) (Corrupt BadInteriorRowidVarint)) (\<lambda>(key, _).
     Ok (child, unzigzag key))))"

text \<open>The loop \<open>for i in 0..num_cells\<close>, with the cell parser as its argument.\<close>

fun parse_cells :: "(bytes \<Rightarrow> nat \<Rightarrow> 'c sres) \<Rightarrow> bytes \<Rightarrow> nat \<Rightarrow> nat \<Rightarrow> 'c list sres" where
  "parse_cells p buf ptr 0 = Ok []"
| "parse_cells p buf ptr (Suc n) =
     obind (read_u16 buf ptr) (\<lambda>cell_off.
     obind (p buf (unat cell_off)) (\<lambda>c.
     obind (parse_cells p buf (ptr + 2) n) (\<lambda>cs. Ok (c # cs))))"

definition parse_node :: "raw_page \<Rightarrow> node sres" where
  "parse_node page =
     (let off = header_offset (rp_id page); buf = rp_data page in
      obind (index_at buf off) (\<lambda>ty.
      obind (read_u16 buf (off + 3)) (\<lambda>num_cells.
      if ty = TABLE_LEAF then
        obind (parse_cells parse_leaf_cell buf (off + 8) (unat num_cells)) (\<lambda>cells.
        Ok (NLeaf \<lparr>ln_cells = cells\<rparr>))
      else if ty = TABLE_INTERIOR then
        obind (read_u32 buf (off + 8)) (\<lambda>right_child.
        obind (parse_cells parse_interior_cell buf (off + 12) (unat num_cells)) (\<lambda>cells.
        Ok (NInterior \<lparr>in_cells = cells, in_right_child = right_child\<rparr>)))
      else Err (Corrupt (UnsupportedPageType ty)))))"

section \<open>Search on a strictly sorted leaf\<close>

lemma bisect_Found:
  "bisect keys k lo hi = Found i \<Longrightarrow> hi \<le> length keys \<Longrightarrow> lo \<le> i \<and> i < hi \<and> keys ! i = k"
proof (induction keys k lo hi rule: bisect.induct)
  case (1 keys k lo hi)
  let ?mid = "lo + (hi - lo) div 2"
  show ?case
  proof (cases "lo < hi")
    case True
    then have mid: "lo \<le> ?mid" "?mid < hi" by auto
    consider "keys ! ?mid < k" | "k < keys ! ?mid" "\<not> keys ! ?mid < k" | "keys ! ?mid = k"
      by force
    then show ?thesis
    proof cases
      case 1
      with True "1.prems" have "bisect keys k (?mid + 1) hi = Found i"
        by (simp add: bisect.simps [of keys k lo hi] Let_def)
      with 1 True mid "1.prems"(2) "1.IH"(1) show ?thesis by force
    next
      case 2
      with True "1.prems" have "bisect keys k lo ?mid = Found i"
        by (simp add: bisect.simps [of keys k lo hi] Let_def)
      with 2 True mid "1.prems"(2) "1.IH"(2) show ?thesis by force
    next
      case 3
      with True "1.prems" mid show ?thesis
        by (simp add: bisect.simps [of keys k lo hi] Let_def)
    qed
  qed (use "1.prems" in \<open>simp add: bisect.simps [of keys k lo hi]\<close>)
qed

lemma bisect_NotFound:
  assumes "bisect keys k lo hi = NotFound i" and "sorted_wrt (<) keys" and "lo \<le> hi"
    and "hi \<le> length keys" and "\<forall>j<lo. keys ! j < k" and "\<forall>j. hi \<le> j \<and> j < length keys \<longrightarrow> k < keys ! j"
  shows "i \<le> length keys \<and> (\<forall>j<i. keys ! j < k) \<and> (\<forall>j. i \<le> j \<and> j < length keys \<longrightarrow> k < keys ! j)"
  using assms
proof (induction keys k lo hi rule: bisect.induct)
  case (1 keys k lo hi)
  let ?mid = "lo + (hi - lo) div 2"
  show ?case
  proof (cases "lo < hi")
    case True
    then have mid: "lo \<le> ?mid" "?mid < hi" "?mid < length keys" using "1.prems"(4) by auto
    consider "keys ! ?mid < k" | "k < keys ! ?mid" "\<not> keys ! ?mid < k" | "keys ! ?mid = k"
      by force
    then show ?thesis
    proof cases
      case 1
      have "\<forall>j<?mid + 1. keys ! j < k"
      proof (intro allI impI)
        fix j
        assume "j < ?mid + 1"
        then consider "j < ?mid" | "j = ?mid" by linarith
        then show "keys ! j < k"
          using 1 mid sorted_wrt_nth_less [OF "1.prems"(2), of j ?mid]
          by cases (auto intro: less_trans)
      qed
      moreover have "bisect keys k (?mid + 1) hi = NotFound i"
        using 1 True "1.prems"(1) by (simp add: bisect.simps [of keys k lo hi] Let_def)
      ultimately show ?thesis
        using 1 True mid "1.prems"(2,4,6) by (intro "1.IH"(1)) auto
    next
      case 2
      have "\<forall>j. ?mid \<le> j \<and> j < length keys \<longrightarrow> k < keys ! j"
      proof (intro allI impI)
        fix j
        assume j: "?mid \<le> j \<and> j < length keys"
        then consider "?mid < j" | "j = ?mid" by linarith
        then show "k < keys ! j"
          using 2 j sorted_wrt_nth_less [OF "1.prems"(2), of ?mid j]
          by cases (auto intro: less_trans)
      qed
      moreover have "bisect keys k lo ?mid = NotFound i"
        using 2 True "1.prems"(1) by (simp add: bisect.simps [of keys k lo hi] Let_def)
      ultimately show ?thesis
        using 2 True mid "1.prems"(2,5) by (intro "1.IH"(2)) auto
    next
      case 3
      with True "1.prems"(1) show ?thesis
        by (simp add: bisect.simps [of keys k lo hi] Let_def)
    qed
  next
    case False
    with "1.prems" show ?thesis by (simp add: bisect.simps [of keys k lo hi])
  qed
qed

abbreviation cell_keys :: "leaf_cell list \<Rightarrow> i64 list" where
  "cell_keys cs \<equiv> map lc_rowid cs"

lemma leaf_search_Found:
  assumes "leaf_search l rowid = Found i"
  shows "i < length (ln_cells l)" "lc_rowid (ln_cells l ! i) = rowid"
  using bisect_Found [of "cell_keys (ln_cells l)" rowid 0 "length (ln_cells l)" i] assms
  by (auto simp: leaf_search_def)

lemma leaf_search_NotFound:
  assumes "leaf_search l rowid = NotFound i" and "sorted_wrt (<) (cell_keys (ln_cells l))"
  shows "i \<le> length (ln_cells l)"
    "\<And>j. j < i \<Longrightarrow> lc_rowid (ln_cells l ! j) < rowid"
    "\<And>j. i \<le> j \<Longrightarrow> j < length (ln_cells l) \<Longrightarrow> rowid < lc_rowid (ln_cells l ! j)"
proof -
  have "i \<le> length (cell_keys (ln_cells l)) \<and> (\<forall>j<i. cell_keys (ln_cells l) ! j < rowid)
      \<and> (\<forall>j. i \<le> j \<and> j < length (cell_keys (ln_cells l)) \<longrightarrow> rowid < cell_keys (ln_cells l) ! j)"
    using assms by (intro bisect_NotFound) (auto simp: leaf_search_def)
  then show "i \<le> length (ln_cells l)"
    and "\<And>j. j < i \<Longrightarrow> lc_rowid (ln_cells l ! j) < rowid"
    and "\<And>j. i \<le> j \<Longrightarrow> j < length (ln_cells l) \<Longrightarrow> rowid < lc_rowid (ln_cells l ! j)"
    by auto
qed

section \<open>Cells laid out in a page\<close>

lemma length_leaf_cell_bytes [simp]: "length (leaf_cell_bytes c) = encoded_len c"
  by (simp add: leaf_cell_bytes_def encoded_len_def)

definition interior_cell_bytes :: "page_id \<times> i64 \<Rightarrow> bytes" where
  "interior_cell_bytes c = u32_be (fst c) @ varint_bytes (zigzag (snd c))"

lemma length_interior_cell_bytes [simp]: "length (interior_cell_bytes c) = cell_len (snd c)"
  by (simp add: interior_cell_bytes_def cell_len_def)

text \<open>
  \<open>laid_out buf ptr pos cs\<close>: the pointer array at \<open>ptr\<close> points at the encoded cells \<open>cs\<close>,
  which follow each other from \<open>pos\<close>.
\<close>

fun laid_out :: "bytes \<Rightarrow> nat \<Rightarrow> nat \<Rightarrow> bytes list \<Rightarrow> bool" where
  "laid_out buf ptr pos [] = True"
| "laid_out buf ptr pos (c # cs) =
     (slice ptr 2 buf = u16_be (word_of_nat pos) \<and> slice pos (length c) buf = c
      \<and> laid_out buf (ptr + 2) (pos + length c) cs)"

text \<open>Regions before the pointer slot and between the pointers and the cells survive.\<close>

definition untouched :: "nat \<Rightarrow> nat \<Rightarrow> nat \<Rightarrow> nat \<Rightarrow> nat \<Rightarrow> nat \<Rightarrow> bool" where
  "untouched ptr np pos nc a n \<longleftrightarrow> (a + n \<le> ptr \<or> ptr + np \<le> a) \<and> (a + n \<le> pos \<or> pos + nc \<le> a)"

lemma put_leaf_cells_ok:
  assumes "ptr + 2 * length cs \<le> pos" and "pos + sum_list (map encoded_len cs) \<le> length buf"
  shows "\<exists>buf'. put_leaf_cells buf ptr pos cs = Ok buf' \<and> length buf' = length buf
    \<and> laid_out buf' ptr pos (map leaf_cell_bytes cs)
    \<and> (\<forall>a n. untouched ptr (2 * length cs) pos (sum_list (map encoded_len cs)) a n
         \<longrightarrow> slice a n buf' = slice a n buf)"
  using assms
proof (induction cs arbitrary: buf ptr pos)
  case (Cons c cs)
  let ?b1 = "patch ptr (u16_be (word_of_nat pos)) buf"
  let ?b2 = "patch pos (leaf_cell_bytes c) ?b1"
  have len1: "length ?b1 = length buf" and len2: "length ?b2 = length buf"
    using Cons.prems by (simp_all add: length_patch)
  obtain buf' where buf': "put_leaf_cells ?b2 (ptr + 2) (pos + encoded_len c) cs = Ok buf'"
      "length buf' = length buf"
      "laid_out buf' (ptr + 2) (pos + encoded_len c) (map leaf_cell_bytes cs)"
      "\<And>a n. untouched (ptr + 2) (2 * length cs) (pos + encoded_len c) (sum_list (map encoded_len cs)) a n
         \<Longrightarrow> slice a n buf' = slice a n ?b2"
    using Cons.IH [of "ptr + 2" "pos + encoded_len c" ?b2] Cons.prems len2 by auto
  have "slice ptr 2 buf' = slice ptr 2 ?b2"
    using Cons.prems by (intro buf'(4)) (simp add: untouched_def)
  also have "\<dots> = u16_be (word_of_nat pos)"
    using Cons.prems len1 by (simp add: slice_patch_other slice_patch_same)
  finally have p: "slice ptr 2 buf' = u16_be (word_of_nat pos)" .
  have "slice pos (encoded_len c) buf' = slice pos (encoded_len c) ?b2"
    using Cons.prems by (intro buf'(4)) (simp add: untouched_def)
  also have "\<dots> = leaf_cell_bytes c"
    using Cons.prems len1 by (simp add: slice_patch_same)
  finally have q: "slice pos (encoded_len c) buf' = leaf_cell_bytes c" .
  have r: "slice a n buf' = slice a n buf"
    if "untouched ptr (2 * length (c # cs)) pos (sum_list (map encoded_len (c # cs))) a n" for a n
  proof -
    have "slice a n buf' = slice a n ?b2"
      using that Cons.prems by (intro buf'(4)) (auto simp: untouched_def)
    also have "\<dots> = slice a n ?b1"
      using that Cons.prems len1 by (intro slice_patch_other) (auto simp: untouched_def)
    also have "\<dots> = slice a n buf"
      using that Cons.prems by (intro slice_patch_other) (auto simp: untouched_def)
    finally show ?thesis .
  qed
  have "put_leaf_cells buf ptr pos (c # cs) = Ok buf'"
    using Cons.prems len1 buf'(1) by (simp add: write_u16_patch copy_at_patch)
  with buf'(2,3) p q r show ?case by auto
qed simp

lemma patch_patch_append:
  assumes "at + length x + length y \<le> length buf"
  shows "patch (at + length x) y (patch at x buf) = patch at (x @ y) buf"
proof -
  have "at \<le> length buf" using assms by simp
  then show ?thesis by (simp add: patch_def ac_simps)
qed

lemma put_interior_cells_ok:
  assumes "ptr + 2 * length cs \<le> pos" and "pos + sum_list (map (\<lambda>(_, k). cell_len k) cs) \<le> length buf"
  shows "\<exists>buf'. put_interior_cells buf ptr pos cs = Ok buf' \<and> length buf' = length buf
    \<and> laid_out buf' ptr pos (map interior_cell_bytes cs)
    \<and> (\<forall>a n. untouched ptr (2 * length cs) pos (sum_list (map (\<lambda>(_, k). cell_len k) cs)) a n
         \<longrightarrow> slice a n buf' = slice a n buf)"
  using assms
proof (induction cs arbitrary: buf ptr pos)
  case (Cons c cs)
  obtain child key where c: "c = (child, key)" by force
  let ?e = "interior_cell_bytes c"
  let ?b1 = "patch ptr (u16_be (word_of_nat pos)) buf"
  let ?b2 = "patch pos ?e ?b1"
  have len1: "length ?b1 = length buf" and len2: "length ?b2 = length buf"
    using Cons.prems c by (simp_all add: length_patch)
  obtain buf' where buf': "put_interior_cells ?b2 (ptr + 2) (pos + cell_len key) cs = Ok buf'"
      "length buf' = length buf"
      "laid_out buf' (ptr + 2) (pos + cell_len key) (map interior_cell_bytes cs)"
      "\<And>a n. untouched (ptr + 2) (2 * length cs) (pos + cell_len key) (sum_list (map (\<lambda>(_, k). cell_len k) cs)) a n
         \<Longrightarrow> slice a n buf' = slice a n ?b2"
    using Cons.IH [of "ptr + 2" "pos + cell_len key" ?b2] Cons.prems len2 c by auto
  have "slice ptr 2 buf' = slice ptr 2 ?b2"
    using Cons.prems by (intro buf'(4)) (simp add: untouched_def)
  also have "\<dots> = u16_be (word_of_nat pos)"
    using Cons.prems len1 c by (simp add: slice_patch_other slice_patch_same)
  finally have p: "slice ptr 2 buf' = u16_be (word_of_nat pos)" .
  have "slice pos (cell_len key) buf' = slice pos (cell_len key) ?b2"
    using Cons.prems by (intro buf'(4)) (simp add: untouched_def)
  also have "\<dots> = ?e"
    using Cons.prems len1 c by (simp add: slice_patch_same)
  finally have q: "slice pos (cell_len key) buf' = ?e" .
  have r: "slice a n buf' = slice a n buf"
    if "untouched ptr (2 * length (c # cs)) pos (sum_list (map (\<lambda>(_, k). cell_len k) (c # cs))) a n" for a n
  proof -
    have "slice a n buf' = slice a n ?b2"
      using that Cons.prems c by (intro buf'(4)) (auto simp: untouched_def)
    also have "\<dots> = slice a n ?b1"
      using that Cons.prems len1 c by (intro slice_patch_other) (auto simp: untouched_def)
    also have "\<dots> = slice a n buf"
      using that Cons.prems c by (intro slice_patch_other) (auto simp: untouched_def)
    finally show ?thesis .
  qed
  have two: "patch (pos + 4) (varint_bytes (zigzag key)) (patch pos (u32_be child) ?b1) = ?b2"
    using patch_patch_append [of pos "u32_be child" "varint_bytes (zigzag key)" ?b1] Cons.prems len1 c
    by (simp add: interior_cell_bytes_def cell_len_def)
  have "put_interior_cells buf ptr pos (c # cs) = Ok buf'"
    using Cons.prems len1 buf'(1) c two
    by (simp add: write_u16_patch copy_at_patch length_patch cell_len_def)
      (simp add: add.commute add.left_commute)
  with buf'(2,3) p q r c show ?case by auto
qed simp

section \<open>Parsing what was laid out\<close>

text \<open>
  A cell as the tree builds it: a short record is inline in full, a long one keeps the
  inline prefix of \<open>inline_len_for\<close> and names a first overflow page.
\<close>

definition cell_wf :: "leaf_cell \<Rightarrow> bool" where
  "cell_wf c \<longleftrightarrow>
     (if unat (lc_payload_len c) \<le> USABLE - 35
      then lc_overflow c = 0 \<and> length (lc_inline c) = unat (lc_payload_len c)
      else lc_overflow c \<noteq> 0 \<and> length (lc_inline c) = inline_len_for (lc_payload_len c))"

lemma slice_shift: "slice (pos + a) n buf = slice a n (drop pos buf)"
  by (simp add: slice_def add.commute)

lemma parse_leaf_cell_bytes:
  assumes "slice pos (encoded_len c) buf = leaf_cell_bytes c"
    and "pos + encoded_len c \<le> length buf" and wf: "cell_wf c"
  shows "parse_leaf_cell buf pos = Ok c"
proof -
  define rest where "rest = drop (pos + encoded_len c) buf"
  let ?n1 = "varint_len (lc_payload_len c)" and ?n2 = "varint_len (zigzag (lc_rowid c))"
  let ?v1 = "varint_bytes (lc_payload_len c)" and ?v2 = "varint_bytes (zigzag (lc_rowid c))"
  let ?tl = "if lc_overflow c \<noteq> 0 then u32_be (lc_overflow c) else []"
  have d: "drop pos buf = ?v1 @ ?v2 @ lc_inline c @ ?tl @ rest"
    using drop_eq_slice_append [of pos "encoded_len c" buf] assms(1,2)
    by (simp add: rest_def leaf_cell_bytes_def)
  have len: "pos + ?n1 + ?n2 + length (lc_inline c) + length ?tl \<le> length buf"
    using assms(2) by (auto simp: encoded_len_def)
  have s1: "slice_from buf pos = (Ok (?v1 @ ?v2 @ lc_inline c @ ?tl @ rest) :: bytes sres)"
    using len d by (simp add: slice_from_def)
  have "drop (pos + ?n1) buf = drop ?n1 (drop pos buf)" by (simp add: add.commute)
  then have s2: "slice_from buf (pos + ?n1) = (Ok (?v2 @ lc_inline c @ ?tl @ rest) :: bytes sres)"
    using len d by (simp add: slice_from_def)
  have s3: "slice (pos + ?n1 + ?n2) (length (lc_inline c)) buf = lc_inline c"
    using slice_shift [of pos "?n1 + ?n2" "length (lc_inline c)" buf] d
    by (simp add: slice_def add.assoc)
  have s4: "slice (pos + ?n1 + ?n2 + length (lc_inline c)) 4 buf = u32_be (lc_overflow c)"
    if "lc_overflow c \<noteq> 0"
    using slice_shift [of pos "?n1 + ?n2 + length (lc_inline c)" 4 buf] d that
    by (simp add: slice_def add.assoc)
  have pre: "parse_leaf_cell buf pos =
     (let pos = pos + ?n1 + ?n2; rowid = lc_rowid c; p = unat (lc_payload_len c); x = USABLE - 35 in
     if p \<le> x then
       obind (slice_range buf pos (pos + p)) (\<lambda>inline.
       Ok \<lparr>lc_rowid = rowid, lc_payload_len = lc_payload_len c, lc_overflow = 0, lc_inline = inline\<rparr>)
     else
       let inline_len = inline_len_for (lc_payload_len c) in
       obind (slice_range buf pos (pos + inline_len)) (\<lambda>inline.
       obind (read_u32 buf (pos + inline_len)) (\<lambda>overflow.
       Ok \<lparr>lc_rowid = rowid, lc_payload_len = lc_payload_len c, lc_overflow = overflow,
           lc_inline = inline\<rparr>)))"
    unfolding parse_leaf_cell_def s1
    by (simp add: s2 Let_def)
  show ?thesis
  proof (cases "unat (lc_payload_len c) \<le> USABLE - 35")
    case True
    with wf have w: "lc_overflow c = 0" "length (lc_inline c) = unat (lc_payload_len c)"
      by (simp_all add: cell_wf_def)
    with True len s3 show ?thesis
      by (cases c) (simp add: pre Let_def slice_range_ok)
  next
    case False
    with wf have w: "lc_overflow c \<noteq> 0" "length (lc_inline c) = inline_len_for (lc_payload_len c)"
      by (simp_all add: cell_wf_def)
    have "read_u32 buf (pos + ?n1 + ?n2 + length (lc_inline c)) = (Ok (lc_overflow c) :: u32 sres)"
      using len w(1) s4 by (simp add: read_u32_slice)
    with False len s3 w show ?thesis
      by (cases c) (simp add: pre Let_def slice_range_ok)
  qed
qed

lemma parse_interior_cell_bytes:
  assumes "slice pos (cell_len key) buf = interior_cell_bytes (child, key)"
    and "pos + cell_len key \<le> length buf"
  shows "parse_interior_cell buf pos = Ok (child, key)"
proof -
  define rest where "rest = drop (pos + cell_len key) buf"
  have d: "drop pos buf = u32_be child @ varint_bytes (zigzag key) @ rest"
    using drop_eq_slice_append [of pos "cell_len key" buf] assms
    by (simp add: rest_def interior_cell_bytes_def)
  have len: "pos + 4 + varint_len (zigzag key) \<le> length buf"
    using assms(2) by (simp add: cell_len_def)
  have "slice pos 4 buf = u32_be child"
    using slice_shift [of pos 0 4 buf] d by (simp add: slice_def)
  then have "read_u32 buf pos = (Ok child :: u32 sres)"
    using len by (simp add: read_u32_slice)
  moreover have "drop (pos + 4) buf = drop 4 (drop pos buf)" by (simp add: add.commute)
  then have "slice_from buf (pos + 4) = (Ok (varint_bytes (zigzag key) @ rest) :: bytes sres)"
    using len d by (simp add: slice_from_def)
  ultimately show ?thesis by (simp add: parse_interior_cell_def)
qed

lemma parse_cells_laid_out:
  assumes "laid_out buf ptr pos (map enc cs)" and "ptr + 2 * length cs \<le> length buf"
    and "pos + sum_list (map (length \<circ> enc) cs) \<le> length buf" and "length buf \<le> PAGE_SIZE"
    and "\<And>c at. c \<in> set cs \<Longrightarrow> slice at (length (enc c)) buf = enc c \<Longrightarrow>
          at + length (enc c) \<le> length buf \<Longrightarrow> p buf at = Ok c"
  shows "parse_cells p buf ptr (length cs) = Ok cs"
  using assms
proof (induction cs arbitrary: ptr pos)
  case (Cons c cs)
  have "pos < 2 ^ 16" using Cons.prems(3,4) by (simp add: PAGE_SIZE_def)
  then have u: "unat (word_of_nat pos :: u16) = pos" by (simp add: unat_of_nat)
  have "read_u16 buf ptr = (Ok (word_of_nat pos) :: u16 sres)"
    using Cons.prems(1,2) by (simp add: read_u16_slice)
  moreover have "p buf pos = Ok c"
    using Cons.prems by (intro Cons.prems(5)) auto
  moreover have "parse_cells p buf (ptr + 2) (length cs) = Ok cs"
    using Cons.prems by (intro Cons.IH [of "ptr + 2" "pos + length (enc c)"]) auto
  ultimately show ?case by (simp add: u)
qed simp

section \<open>The node round trip\<close>

lemma put_node_header_ok:
  assumes "off + 8 \<le> length buf"
  shows "\<exists>buf'. put_node_header buf off ty n cs = Ok buf' \<and> length buf' = length buf
     \<and> slice off 1 buf' = [ty] \<and> slice (off + 3) 2 buf' = u16_be (word_of_nat n)
     \<and> take off buf' = take off buf"
proof -
  let ?w = "[(off, [ty]), (off + 1, u16_be 0), (off + 3, u16_be (word_of_nat n)),
             (off + 5, u16_be (word_of_nat cs)), (off + 7, [0])]"
  let ?b = "patch (off + 7) [0] (patch (off + 5) (u16_be (word_of_nat cs))
    (patch (off + 3) (u16_be (word_of_nat n)) (patch (off + 1) (u16_be 0) (patch off [ty] buf))))"
  have "put_node_header buf off ty n cs = Ok ?b"
    using assms by (simp add: put_node_header_def copy_at_patch write_u16_patch length_patch)
  moreover have "length ?b = length buf" using assms by (simp add: length_patch)
  moreover have "slice off 1 ?b = [ty]" "slice (off + 3) 2 ?b = u16_be (word_of_nat n)"
    using assms by (simp_all add: slice_patch_other slice_patch_same length_patch)
  moreover have "slice 0 off ?b = slice 0 off buf"
    using assms by (simp add: slice_patch_other length_patch)
  ultimately show ?thesis by (simp add: slice_def)
qed

definition node_fits :: "node \<Rightarrow> page_id \<Rightarrow> bool" where
  "node_fits nd pid = (case nd of NLeaf l \<Rightarrow> leaf_fits l pid | NInterior n \<Rightarrow> interior_fits n pid)"

definition node_wf :: "node \<Rightarrow> bool" where
  "node_wf nd = (case nd of NLeaf l \<Rightarrow> list_all cell_wf (ln_cells l) | NInterior n \<Rightarrow> True)"

lemma slice_one: "a < length buf \<Longrightarrow> slice a 1 buf = [buf ! a]"
  by (simp add: slice_def take_Suc_conv_app_nth Cons_nth_drop_Suc [symmetric])

lemma leaf_roundtrip:
  assumes page: "page_wf page" and fits: "leaf_fits l (rp_id page)"
    and wf: "list_all cell_wf (ln_cells l)"
  shows "\<exists>page'. serialize_into (NLeaf l) page = Ok page' \<and> rp_id page' = rp_id page
     \<and> page_wf page' \<and> parse_node page' = Ok (NLeaf l)
     \<and> take (header_offset (rp_id page)) (rp_data page') = take (header_offset (rp_id page)) (rp_data page)"
proof -
  let ?off = "header_offset (rp_id page)" and ?cs = "ln_cells l"
  let ?total = "sum_list (map encoded_len ?cs)"
  let ?buf = "take ?off (rp_data page) @ replicate (length (rp_data page) - ?off) 0"
  have off: "?off \<le> 100" by (simp add: header_offset_def)
  have room: "?off + 8 + 2 * length ?cs + ?total \<le> PAGE_SIZE"
    using fits by (simp add: leaf_fits_def leaf_used_def)
  have lb: "length ?buf = PAGE_SIZE"
    using page off by (simp add: page_wf_def PAGE_SIZE_def)
  have "?off + 8 \<le> length ?buf" unfolding lb using room by simp
  then obtain b1 where b1: "put_node_header ?buf ?off TABLE_LEAF (length ?cs) (PAGE_SIZE - ?total) = Ok b1"
      "length b1 = PAGE_SIZE" "slice ?off 1 b1 = [TABLE_LEAF]"
      "slice (?off + 3) 2 b1 = u16_be (word_of_nat (length ?cs))" "take ?off b1 = take ?off ?buf"
    using put_node_header_ok [of ?off ?buf TABLE_LEAF "length ?cs" "PAGE_SIZE - ?total"] lb by metis
  have "\<exists>b2. put_leaf_cells b1 (?off + 8) (PAGE_SIZE - ?total) ?cs = Ok b2 \<and> length b2 = length b1
    \<and> laid_out b2 (?off + 8) (PAGE_SIZE - ?total) (map leaf_cell_bytes ?cs)
    \<and> (\<forall>a n. untouched (?off + 8) (2 * length ?cs) (PAGE_SIZE - ?total) ?total a n
         \<longrightarrow> slice a n b2 = slice a n b1)"
    using room b1(2) by (intro put_leaf_cells_ok) auto
  then obtain b2 where b2: "put_leaf_cells b1 (?off + 8) (PAGE_SIZE - ?total) ?cs = Ok b2"
      "length b2 = PAGE_SIZE"
      "laid_out b2 (?off + 8) (PAGE_SIZE - ?total) (map leaf_cell_bytes ?cs)"
      "\<And>a n. untouched (?off + 8) (2 * length ?cs) (PAGE_SIZE - ?total) ?total a n \<Longrightarrow> slice a n b2 = slice a n b1"
    unfolding b1(2) by blast
  have b2s: "slice a n b2 = slice a n b1" if "a + n \<le> ?off + 8" for a n
    using that room unfolding untouched_def by (intro b2(4) [unfolded untouched_def]) linarith
  let ?page' = "page\<lparr>rp_data := b2, rp_dirty := True\<rparr>"
  have ser: "serialize_into (NLeaf l) page = Ok ?page'"
    using b1(1) b2(1) room by (simp add: serialize_into_def serialize_leaf_def Let_def)
  have ty: "b2 ! ?off = TABLE_LEAF"
    using b2(2) room b1(3) b2s [of ?off 1] slice_one [of ?off b2] by simp
  have nc: "read_u16 b2 (?off + 3) = (Ok (word_of_nat (length ?cs)) :: u16 sres)"
    using b2(2) room b1(4) b2s [of "?off + 3" 2] by (simp add: read_u16_slice)
  have "length ?cs < 2 ^ 16" using room by (simp add: PAGE_SIZE_def)
  then have un: "unat (word_of_nat (length ?cs) :: u16) = length ?cs" by (simp add: unat_of_nat)
  have "parse_cells parse_leaf_cell b2 (?off + 8) (length ?cs) = Ok ?cs"
    using b2(2,3) room wf
    by (intro parse_cells_laid_out [where enc = leaf_cell_bytes and pos = "PAGE_SIZE - ?total"])
      (auto simp: o_def list_all_iff intro: parse_leaf_cell_bytes)
  then have parse: "parse_node ?page' = Ok (NLeaf l)"
    using ty nc un b2(2) room by (simp add: parse_node_def Let_def index_at_def)
  have "take ?off b2 = take ?off b1" using b2s [of 0 ?off] by (simp add: slice_def)
  then show ?thesis
    using ser parse b1(5) b2(2) by (simp add: page_wf_def)
qed

lemma interior_roundtrip:
  assumes page: "page_wf page" and fits: "interior_fits n (rp_id page)"
  shows "\<exists>page'. serialize_into (NInterior n) page = Ok page' \<and> rp_id page' = rp_id page
     \<and> page_wf page' \<and> parse_node page' = Ok (NInterior n)
     \<and> take (header_offset (rp_id page)) (rp_data page') = take (header_offset (rp_id page)) (rp_data page)"
proof -
  let ?off = "header_offset (rp_id page)" and ?cs = "in_cells n"
  let ?total = "sum_list (map (\<lambda>(_, k). cell_len k) ?cs)"
  let ?buf = "take ?off (rp_data page) @ replicate (length (rp_data page) - ?off) 0"
  have off: "?off \<le> 100" by (simp add: header_offset_def)
  have room: "?off + 12 + 2 * length ?cs + ?total \<le> PAGE_SIZE"
    using fits by (simp add: interior_fits_def interior_used_def)
  have lb: "length ?buf = PAGE_SIZE"
    using page off by (simp add: page_wf_def PAGE_SIZE_def)
  have "?off + 8 \<le> length ?buf" unfolding lb using room by simp
  then obtain b0 where b0: "put_node_header ?buf ?off TABLE_INTERIOR (length ?cs) (PAGE_SIZE - ?total) = Ok b0"
      "length b0 = PAGE_SIZE" "slice ?off 1 b0 = [TABLE_INTERIOR]"
      "slice (?off + 3) 2 b0 = u16_be (word_of_nat (length ?cs))" "take ?off b0 = take ?off ?buf"
    using put_node_header_ok [of ?off ?buf TABLE_INTERIOR "length ?cs" "PAGE_SIZE - ?total"] lb by metis
  define b1 where "b1 = patch (?off + 8) (u32_be (in_right_child n)) b0"
  have w: "write_u32 b0 (?off + 8) (in_right_child n) = (Ok b1 :: bytes sres)"
    using b0(2) room by (simp add: write_u32_patch b1_def)
  have b1: "length b1 = PAGE_SIZE" "slice (?off + 8) 4 b1 = u32_be (in_right_child n)"
      "\<And>a k. a + k \<le> ?off + 8 \<Longrightarrow> slice a k b1 = slice a k b0"
    using b0(2) room by (simp_all add: b1_def length_patch slice_patch_same slice_patch_other)
  have "\<exists>b2. put_interior_cells b1 (?off + 12) (PAGE_SIZE - ?total) ?cs = Ok b2 \<and> length b2 = length b1
    \<and> laid_out b2 (?off + 12) (PAGE_SIZE - ?total) (map interior_cell_bytes ?cs)
    \<and> (\<forall>a k. untouched (?off + 12) (2 * length ?cs) (PAGE_SIZE - ?total) ?total a k
         \<longrightarrow> slice a k b2 = slice a k b1)"
    using room b1(1) by (intro put_interior_cells_ok) auto
  then obtain b2 where b2: "put_interior_cells b1 (?off + 12) (PAGE_SIZE - ?total) ?cs = Ok b2"
      "length b2 = PAGE_SIZE"
      "laid_out b2 (?off + 12) (PAGE_SIZE - ?total) (map interior_cell_bytes ?cs)"
      "\<And>a k. untouched (?off + 12) (2 * length ?cs) (PAGE_SIZE - ?total) ?total a k \<Longrightarrow> slice a k b2 = slice a k b1"
    unfolding b1(1) by blast
  have b2s: "slice a k b2 = slice a k b1" if "a + k \<le> ?off + 12" for a k
    using that room unfolding untouched_def by (intro b2(4) [unfolded untouched_def]) linarith
  let ?page' = "page\<lparr>rp_data := b2, rp_dirty := True\<rparr>"
  have ser: "serialize_into (NInterior n) page = Ok ?page'"
    using b0(1) w b2(1) room by (simp add: serialize_into_def serialize_interior_def Let_def)
  have ty: "b2 ! ?off = TABLE_INTERIOR"
    using b2(2) room b0(3) b1(3) [of ?off 1] b2s [of ?off 1] slice_one [of ?off b2] by simp
  have nc: "read_u16 b2 (?off + 3) = (Ok (word_of_nat (length ?cs)) :: u16 sres)"
    using b2(2) room b0(4) b1(3) [of "?off + 3" 2] b2s [of "?off + 3" 2] by (simp add: read_u16_slice)
  have rc: "read_u32 b2 (?off + 8) = (Ok (in_right_child n) :: u32 sres)"
    using b2(2) room b1(2) b2s [of "?off + 8" 4] by (simp add: read_u32_slice)
  have "length ?cs < 2 ^ 16" using room by (simp add: PAGE_SIZE_def)
  then have un: "unat (word_of_nat (length ?cs) :: u16) = length ?cs" by (simp add: unat_of_nat)
  have "parse_cells parse_interior_cell b2 (?off + 12) (length ?cs) = Ok ?cs"
    using b2(2,3) room
    by (intro parse_cells_laid_out [where enc = interior_cell_bytes and pos = "PAGE_SIZE - ?total"])
      (auto simp: o_def case_prod_unfold intro: parse_interior_cell_bytes)
  then have parse: "parse_node ?page' = Ok (NInterior n)"
    using ty nc rc un b2(2) room
    by (simp add: parse_node_def Let_def index_at_def TABLE_LEAF_def TABLE_INTERIOR_def)
  have "take ?off b2 = take ?off b0"
    using b2s [of 0 ?off] b1(3) [of 0 ?off] by (simp add: slice_def)
  then show ?thesis
    using ser parse b0(5) b2(2) by (simp add: page_wf_def)
qed

section \<open>A node depends on the body of its page only\<close>

text \<open>
  What is kept of a page: all of it, but of the 100 bytes of the database header of page 1 only the four
  of \<open>PRAGMA user_version\<close>. The others (the size of the file, the change counter, the schema cookie,
  constants) no reader of a transaction sees, and a checkpoint computes them anew.
\<close>

definition page_body :: "page_id \<Rightarrow> bytes \<Rightarrow> bytes" where
  "page_body pid d = (if pid = 1 then slice 60 4 d else []) @ drop (header_offset pid) d"

lemma page_body_eq_iff:
  assumes "length d = PAGE_SIZE" and "length d' = PAGE_SIZE"
  shows "page_body pid d = page_body pid d' \<longleftrightarrow>
    (pid = 1 \<longrightarrow> slice 60 4 d = slice 60 4 d') \<and> drop (header_offset pid) d = drop (header_offset pid) d'"
  using assms by (auto simp: page_body_def slice_def PAGE_SIZE_def)

lemma slice_take_eq: "take n d = take n d' \<Longrightarrow> a + k \<le> n \<Longrightarrow> slice a k d = slice a k d'"
  by (metis add_diff_cancel_left' drop_take min.absorb1 slice_def take_take)

abbreviation copies :: "bytes \<Rightarrow> nat \<Rightarrow> bytes \<Rightarrow> bytes \<Rightarrow> bool" where
  "copies buf at src buf' \<equiv> copy_at buf at src = (Ok buf' :: bytes sres)"

definition agree_from :: "nat \<Rightarrow> bytes \<Rightarrow> bytes \<Rightarrow> bool" where
  "agree_from off b b' \<longleftrightarrow> length b = length b' \<and> drop off b = drop off b'"

lemma drop_patch: "off \<le> at \<Longrightarrow> at \<le> length b \<Longrightarrow> drop off (patch at src b) = patch (at - off) src (drop off b)"
  by (simp add: patch_def drop_take)

lemma copy_at_agree:
  assumes "agree_from off b b'" and "off \<le> at" and "copies b at src c"
  shows "\<exists>c'. copies b' at src c' \<and> agree_from off c c'"
  using assms drop_patch [of off at b src] drop_patch [of off at b' src]
  by (auto simp: copy_at_def agree_from_def length_patch split: if_splits)

lemma put_node_header_agree:
  assumes "agree_from off b b'" and "put_node_header b off ty n cs = Ok c"
  shows "\<exists>c'. put_node_header b' off ty n cs = Ok c' \<and> agree_from off c c'"
proof -
  from assms(2) obtain b1 b2 b3 b4 where w:
      "copies b off [ty] b1" "copies b1 (off + 1) (u16_be 0) b2"
      "copies b2 (off + 3) (u16_be (word_of_nat n)) b3"
      "copies b3 (off + 5) (u16_be (word_of_nat cs)) b4" "copies b4 (off + 7) [0] c"
    by (auto simp: put_node_header_def write_u16_def obind_eq_Ok)
  obtain c1 where c1: "copies b' off [ty] c1" "agree_from off b1 c1"
    using copy_at_agree [OF assms(1) _ w(1)] by auto
  obtain c2 where c2: "copies c1 (off + 1) (u16_be 0) c2" "agree_from off b2 c2"
    using copy_at_agree [OF c1(2) _ w(2)] by auto
  obtain c3 where c3: "copies c2 (off + 3) (u16_be (word_of_nat n)) c3" "agree_from off b3 c3"
    using copy_at_agree [OF c2(2) _ w(3)] by auto
  obtain c4 where c4: "copies c3 (off + 5) (u16_be (word_of_nat cs)) c4" "agree_from off b4 c4"
    using copy_at_agree [OF c3(2) _ w(4)] by auto
  show ?thesis
    using copy_at_agree [OF c4(2) _ w(5)] c1(1) c2(1) c3(1) c4(1)
    by (auto simp: put_node_header_def write_u16_def)
qed

lemma put_leaf_cells_agree:
  assumes "agree_from off b b'" and "off \<le> ptr" and "off \<le> pos" and "put_leaf_cells b ptr pos cs = Ok c"
  shows "\<exists>c'. put_leaf_cells b' ptr pos cs = Ok c' \<and> agree_from off c c'"
  using assms
proof (induction cs arbitrary: b b' ptr pos)
  case (Cons x cs)
  from Cons.prems(4) obtain b1 b2 where w: "copies b ptr (u16_be (word_of_nat pos)) b1"
      "copies b1 pos (leaf_cell_bytes x) b2"
      "put_leaf_cells b2 (ptr + 2) (pos + length (leaf_cell_bytes x)) cs = Ok c"
    by (auto simp: write_u16_def obind_eq_Ok)
  obtain c1 where c1: "copies b' ptr (u16_be (word_of_nat pos)) c1" "agree_from off b1 c1"
    using copy_at_agree [OF Cons.prems(1,2) w(1)] by auto
  obtain c2 where c2: "copies c1 pos (leaf_cell_bytes x) c2" "agree_from off b2 c2"
    using copy_at_agree [OF c1(2) Cons.prems(3) w(2)] by auto
  show ?case
    using Cons.IH [OF c2(2) _ _ w(3)] Cons.prems(2,3) c1(1) c2(1) by (auto simp: write_u16_def)
qed simp

lemma put_interior_cells_agree:
  assumes "agree_from off b b'" and "off \<le> ptr" and "off \<le> pos" and "put_interior_cells b ptr pos cs = Ok c"
  shows "\<exists>c'. put_interior_cells b' ptr pos cs = Ok c' \<and> agree_from off c c'"
  using assms
proof (induction cs arbitrary: b b' ptr pos)
  case (Cons x cs)
  obtain child key where x: "x = (child, key)" by (cases x)
  let ?v = "varint_bytes (zigzag key)"
  from Cons.prems(4) x obtain b1 b2 b3 where w: "copies b ptr (u16_be (word_of_nat pos)) b1"
      "copies b1 pos (u32_be child) b2" "copies b2 (pos + 4) ?v b3"
      "put_interior_cells b3 (ptr + 2) (pos + 4 + length ?v) cs = Ok c"
    by (auto simp: write_u16_def obind_eq_Ok)
  obtain c1 where c1: "copies b' ptr (u16_be (word_of_nat pos)) c1" "agree_from off b1 c1"
    using copy_at_agree [OF Cons.prems(1,2) w(1)] by auto
  obtain c2 where c2: "copies c1 pos (u32_be child) c2" "agree_from off b2 c2"
    using copy_at_agree [OF c1(2) Cons.prems(3) w(2)] by auto
  obtain c3 where c3: "copies c2 (pos + 4) ?v c3" "agree_from off b3 c3"
    using copy_at_agree [OF c2(2) _ w(3)] Cons.prems(3) by auto
  show ?case
    using Cons.IH [OF c3(2) _ _ w(4)] Cons.prems(2,3) c1(1) c2(1) c3(1) x by (auto simp: write_u16_def)
qed simp

lemma serialize_agree:
  assumes "serialize_into nd page = Ok page'" and "node_fits nd (rp_id page)"
    and "page_wf page" and "page_wf page2" and "rp_id page2 = rp_id page"
  shows "\<exists>page2'. serialize_into nd page2 = Ok page2'
     \<and> drop (header_offset (rp_id page)) (rp_data page2') = drop (header_offset (rp_id page)) (rp_data page')"
proof -
  let ?off = "header_offset (rp_id page)"
  let ?b = "\<lambda>p. take ?off (rp_data p) @ replicate (length (rp_data p) - ?off) 0"
  have a: "agree_from ?off (?b page) (?b page2)"
    using assms(3,4) by (auto simp: agree_from_def page_wf_def min_def)
  show ?thesis
  proof (cases nd)
    case (NLeaf l)
    let ?t = "sum_list (map encoded_len (ln_cells l))"
    have fit: "?off \<le> PAGE_SIZE - ?t" "\<not> ?t > PAGE_SIZE"
      using assms(2) NLeaf by (auto simp: node_fits_def leaf_fits_def leaf_used_def)
    from assms(1) NLeaf fit obtain b1 b2 where w:
        "put_node_header (?b page) ?off TABLE_LEAF (length (ln_cells l)) (PAGE_SIZE - ?t) = Ok b1"
        "put_leaf_cells b1 (?off + 8) (PAGE_SIZE - ?t) (ln_cells l) = Ok b2" "rp_data page' = b2"
      by (auto simp: serialize_into_def serialize_leaf_def Let_def obind_eq_Ok)
    obtain c1 where c1: "put_node_header (?b page2) ?off TABLE_LEAF (length (ln_cells l)) (PAGE_SIZE - ?t) = Ok c1"
        "agree_from ?off b1 c1"
      using put_node_header_agree [OF a w(1)] by blast
    obtain c2 where c2: "put_leaf_cells c1 (?off + 8) (PAGE_SIZE - ?t) (ln_cells l) = Ok c2" "agree_from ?off b2 c2"
      using put_leaf_cells_agree [OF c1(2) _ fit(1) w(2)] by auto
    then show ?thesis
      using c1(1) w(3) fit(2) NLeaf assms(5)
      by (auto simp: serialize_into_def serialize_leaf_def Let_def agree_from_def)
  next
    case (NInterior n)
    let ?t = "sum_list (map (\<lambda>(_, k). cell_len k) (in_cells n))"
    have fit: "?off \<le> PAGE_SIZE - ?t" "\<not> ?t > PAGE_SIZE"
      using assms(2) NInterior by (auto simp: node_fits_def interior_fits_def interior_used_def)
    from assms(1) NInterior fit obtain b1 b2 b3 where w:
        "put_node_header (?b page) ?off TABLE_INTERIOR (length (in_cells n)) (PAGE_SIZE - ?t) = Ok b1"
        "copies b1 (?off + 8) (u32_be (in_right_child n)) b2"
        "put_interior_cells b2 (?off + 12) (PAGE_SIZE - ?t) (in_cells n) = Ok b3" "rp_data page' = b3"
      by (auto simp: serialize_into_def serialize_interior_def Let_def obind_eq_Ok write_u32_def)
    obtain c1 where c1: "put_node_header (?b page2) ?off TABLE_INTERIOR (length (in_cells n)) (PAGE_SIZE - ?t) = Ok c1"
        "agree_from ?off b1 c1"
      using put_node_header_agree [OF a w(1)] by blast
    obtain c2 where c2: "copies c1 (?off + 8) (u32_be (in_right_child n)) c2" "agree_from ?off b2 c2"
      using copy_at_agree [OF c1(2) _ w(2)] by auto
    obtain c3 where c3: "put_interior_cells c2 (?off + 12) (PAGE_SIZE - ?t) (in_cells n) = Ok c3" "agree_from ?off b3 c3"
      using put_interior_cells_agree [OF c2(2) _ fit(1) w(3)] by auto
    then show ?thesis
      using c1(1) c2(1) w(4) fit(2) NInterior assms(5)
      by (auto simp: serialize_into_def serialize_interior_def Let_def agree_from_def write_u32_def)
  qed
qed

text \<open>\<open>node_at pid b nd\<close>: every page with id \<open>pid\<close> and body \<open>b\<close> parses to \<open>nd\<close>.\<close>

definition node_at :: "page_id \<Rightarrow> bytes \<Rightarrow> node \<Rightarrow> bool" where
  "node_at pid b nd \<longleftrightarrow> (\<forall>page. rp_id page = pid \<longrightarrow> page_wf page \<longrightarrow>
     page_body pid (rp_data page) = b \<longrightarrow> parse_node page = Ok nd)"

lemma node_roundtrip_core:
  assumes "page_wf page" and "node_fits nd (rp_id page)" and "node_wf nd"
  shows "\<exists>page'. serialize_into nd page = Ok page' \<and> parse_node page' = Ok nd
     \<and> rp_id page' = rp_id page \<and> page_wf page'
     \<and> take (header_offset (rp_id page)) (rp_data page') = take (header_offset (rp_id page)) (rp_data page)"
proof (cases nd)
  case (NLeaf l)
  with leaf_roundtrip [of page l] assms show ?thesis
    by (auto simp: node_fits_def node_wf_def)
next
  case (NInterior n)
  with interior_roundtrip [of page n] assms show ?thesis
    by (auto simp: node_fits_def)
qed

lemma parse_node_cong: "rp_id p = rp_id q \<Longrightarrow> rp_data p = rp_data q \<Longrightarrow> parse_node p = parse_node q"
  by (simp add: parse_node_def)

lemma serialize_into_node_at:
  assumes "serialize_into nd page = Ok page'" and "page_wf page" and "node_fits nd (rp_id page)" and "node_wf nd"
  shows "node_at (rp_id page) (page_body (rp_id page) (rp_data page')) nd"
proof -
  have wf: "page_wf page'" using node_roundtrip_core [OF assms(2-4)] assms(1) by auto
  have "parse_node q = Ok nd"
    if q: "rp_id q = rp_id page" "page_wf q" "page_body (rp_id page) (rp_data q) = page_body (rp_id page) (rp_data page')" for q
  proof -
    let ?off = "header_offset (rp_id page)"
    obtain q' where q': "serialize_into nd q = Ok q'" "parse_node q' = Ok nd" "rp_id q' = rp_id page"
        "take ?off (rp_data q') = take ?off (rp_data q)"
      using node_roundtrip_core [of q nd] assms(3,4) q by auto
    have "drop ?off (rp_data q') = drop ?off (rp_data page')"
      using serialize_agree [of nd page page' q] assms(1-3) q q'(1) by auto
    moreover have "drop ?off (rp_data q) = drop ?off (rp_data page')"
      using q(2,3) wf by (simp add: page_body_eq_iff page_wf_def)
    ultimately have "rp_data q' = rp_data q" using q'(4) by (metis append_take_drop_id)
    then show ?thesis using parse_node_cong [of q' q] q'(2,3) q(1) by simp
  qed
  then show ?thesis by (simp add: node_at_def)
qed

lemma serialize_node_at:
  assumes "node_fits nd pid" and "node_wf nd"
  shows "\<exists>page'. serialize_into nd (new_page pid) = Ok page' \<and> rp_id page' = pid \<and> page_wf page'
     \<and> node_at pid (page_body pid (rp_data page')) nd"
  using node_roundtrip_core [of "new_page pid" nd] serialize_into_node_at [of nd "new_page pid"] assms by auto

lemma node_at_parse:
  "node_at pid b nd \<Longrightarrow> rp_id page = pid \<Longrightarrow> page_wf page \<Longrightarrow> page_body pid (rp_data page) = b \<Longrightarrow>
   parse_node page = Ok nd"
  by (simp add: node_at_def)

section \<open>The round trip\<close>

text \<open>
  C20. A node that fits its page is serialized without a panic into a page that parses
  back to the same node; the page keeps its id and length, and on page 1 the 100 bytes
  of the database header in front of the node are untouched.
\<close>

theorem node_roundtrip:
  assumes "page_wf page" and "node_fits nd (rp_id page)" and "node_wf nd"
  shows "\<exists>page'. serialize_into nd page = Ok page' \<and> parse_node page' = Ok nd
     \<and> rp_id page' = rp_id page \<and> page_wf page'
     \<and> take (header_offset (rp_id page)) (rp_data page') = take (header_offset (rp_id page)) (rp_data page)"
  using assms by (rule node_roundtrip_core)

theorem node_roundtrip_witness:
  "\<exists>page'. serialize_into (NInterior \<lparr>in_cells = [(2, i64_of_int 10), (3, i64_of_int 20)],
       in_right_child = 4\<rparr>) (new_page 1) = Ok page'
     \<and> parse_node page' = Ok (NInterior \<lparr>in_cells = [(2, i64_of_int 10), (3, i64_of_int 20)],
         in_right_child = 4\<rparr>)"
proof -
  let ?n = "\<lparr>in_cells = [(2, i64_of_int 10), (3, i64_of_int 20)], in_right_child = 4\<rparr>"
  have "interior_used ?n 1 \<le> 112 + 4 + 2 * (4 + 9)"
    using varint_len_range(2) [of "zigzag (i64_of_int 10)"] varint_len_range(2) [of "zigzag (i64_of_int 20)"]
    by (simp add: interior_used_def header_offset_def cell_len_def)
  then have "node_fits (NInterior ?n) (rp_id (new_page 1))"
    by (simp add: node_fits_def interior_fits_def PAGE_SIZE_def)
  then show ?thesis
    using node_roundtrip [of "new_page 1" "NInterior ?n"] by (auto simp: node_wf_def)
qed

end
