(* ===== verification/BTreeSplit.thy ===== *)
theory BTreeSplit
  imports BTreeNode
begin

text \<open>
  Splitting overfull nodes: \<open>squrust-core/src/btree/split.rs\<close>. The lemmas give what the
  tree needs of a split (nothing lost, both sides nonempty, the separator between them)
  and when the halves fit their pages: always for interior nodes, and for leaves whose
  cells are at most 512 bytes. For larger cells the halves of a leaf need not fit
  (\<open>split_leaf_may_overflow\<close>), although the module's comment promises it.
\<close>

section \<open>The code\<close>

definition leaf_cell_len :: "leaf_cell \<Rightarrow> nat" where
  "leaf_cell_len c =
     varint_len (lc_payload_len c) + varint_len (i64_bits (lc_rowid c)) + length (lc_inline c)
     + (if lc_overflow c \<noteq> 0 then 4 else 0)"

text \<open>The scan for the first index where twice the accumulated size reaches the total.\<close>

fun split_scan :: "nat \<Rightarrow> nat \<Rightarrow> nat \<Rightarrow> leaf_cell list \<Rightarrow> nat" where
  "split_scan tot acc i [] = 0"
| "split_scan tot acc i (c # cs) =
     (let acc = acc + leaf_cell_len c in
      if acc * 2 \<ge> tot then i + 1 else split_scan tot acc (i + 1) cs)"

text \<open>\<open>idx.clamp(1, len - 1)\<close> panics for fewer than two cells.\<close>

definition split_leaf :: "leaf_node \<Rightarrow> (leaf_node \<times> leaf_node \<times> i64) sres" where
  "split_leaf leaf =
     (let cells = ln_cells leaf;
          tot = sum_list (map leaf_cell_len cells);
          idx = split_scan tot 0 0 cells in
      if length cells < 2 then Panic
      else
        let idx = min (max idx 1) (length cells - 1) in
        Ok (\<lparr>ln_cells = take idx cells\<rparr>, \<lparr>ln_cells = drop idx cells\<rparr>,
            lc_rowid (last (take idx cells))))"

text \<open>\<open>(n / 2).clamp(0, n - 1)\<close>; an empty node panics.\<close>

definition split_interior :: "interior_node \<Rightarrow> (interior_node \<times> interior_node \<times> i64) sres" where
  "split_interior node =
     (let n = length (in_cells node) in
      if n = 0 then Panic
      else
        let m = min (n div 2) (n - 1);
            (mid_child, sep) = in_cells node ! m in
        Ok (\<lparr>in_cells = take m (in_cells node), in_right_child = mid_child\<rparr>,
            \<lparr>in_cells = drop (m + 1) (in_cells node), in_right_child = in_right_child node\<rparr>,
            sep))"

section \<open>Leaves\<close>

lemma leaf_cell_len_eq [simp]: "leaf_cell_len c = encoded_len c"
  by (simp add: leaf_cell_len_def encoded_len_def zigzag_def)

lemma encoded_len_ge_2: "2 \<le> encoded_len c"
  using varint_len_range(1) [of "lc_payload_len c"] varint_len_range(1) [of "zigzag (lc_rowid c)"]
  by (simp add: encoded_len_def)

definition cells_size :: "leaf_cell list \<Rightarrow> nat" where
  "cells_size cs = sum_list (map encoded_len cs)"

lemma cells_size_simps [simp]:
  "cells_size [] = 0" "cells_size (c # cs) = encoded_len c + cells_size cs"
  "cells_size (cs @ ds) = cells_size cs + cells_size ds"
  by (simp_all add: cells_size_def)

lemma cells_size_ge: "2 * length cs \<le> cells_size cs"
proof (induction cs)
  case (Cons c cs)
  then show ?case using encoded_len_ge_2 [of c] by simp
qed simp

lemma split_leaf_parts:
  assumes "2 \<le> length (ln_cells leaf)"
  obtains ls rs where "split_leaf leaf = Ok (\<lparr>ln_cells = ls\<rparr>, \<lparr>ln_cells = rs\<rparr>, lc_rowid (last ls))"
    "ln_cells leaf = ls @ rs" "ls \<noteq> []" "rs \<noteq> []"
    "length ls = min (max (split_scan (cells_size (ln_cells leaf)) 0 0 (ln_cells leaf)) 1)
                   (length (ln_cells leaf) - 1)"
proof -
  let ?cs = "ln_cells leaf"
  let ?i = "min (max (split_scan (cells_size ?cs) 0 0 ?cs) 1) (length ?cs - 1)"
  have "split_leaf leaf = Ok (\<lparr>ln_cells = take ?i ?cs\<rparr>, \<lparr>ln_cells = drop ?i ?cs\<rparr>, lc_rowid (last (take ?i ?cs)))"
    using assms by (simp add: split_leaf_def Let_def cells_size_def cong: map_cong)
  moreover have "take ?i ?cs \<noteq> []" "drop ?i ?cs \<noteq> []" "length (take ?i ?cs) = ?i"
    using assms by auto
  ultimately show thesis using that [of "take ?i ?cs" "drop ?i ?cs"] by simp
qed

text \<open>
  Where the scan stops: before the last cell of the left part less than half of the total
  has been seen, and with it at least half.
\<close>

lemma split_scan_spec:
  assumes "tot \<le> 2 * (acc + cells_size cs)" and "cs \<noteq> []"
  shows "\<exists>n. split_scan tot acc i cs = i + n \<and> 1 \<le> n \<and> n \<le> length cs
    \<and> tot \<le> 2 * (acc + cells_size (take n cs))
    \<and> (n = 1 \<or> 2 * (acc + cells_size (take (n - 1) cs)) < tot)"
  using assms
proof (induction cs arbitrary: acc i)
  case (Cons c cs)
  show ?case
  proof (cases "tot \<le> 2 * (acc + encoded_len c)")
    case True
    then show ?thesis by (intro exI [of _ 1]) (simp add: Let_def mult.commute)
  next
    case False
    then have ne: "cs \<noteq> []" using Cons.prems by auto
    obtain n where n: "split_scan tot (acc + encoded_len c) (i + 1) cs = i + 1 + n" "1 \<le> n"
        "n \<le> length cs" "tot \<le> 2 * (acc + encoded_len c + cells_size (take n cs))"
        "n = 1 \<or> 2 * (acc + encoded_len c + cells_size (take (n - 1) cs)) < tot"
      using Cons.IH [of "acc + encoded_len c" "i + 1"] Cons.prems ne by (auto simp: add.assoc)
    show ?thesis
      using n False by (intro exI [of _ "Suc n"]) (cases n; auto simp: Let_def mult.commute add.assoc)
  qed
qed simp

text \<open>The left half stays below half the total plus one cell, the right below half or one cell.\<close>

lemma split_leaf_sizes:
  assumes two: "2 \<le> length (ln_cells leaf)" and M: "\<And>c. c \<in> set (ln_cells leaf) \<Longrightarrow> encoded_len c \<le> M"
    and split: "split_leaf leaf = Ok (l, r, sep)"
  shows "2 * cells_size (ln_cells l) \<le> cells_size (ln_cells leaf) + 2 * M"
    and "2 * cells_size (ln_cells r) \<le> cells_size (ln_cells leaf) + 2 * M"
proof -
  let ?cs = "ln_cells leaf" and ?S = "cells_size (ln_cells leaf)"
  obtain ls rs where p: "split_leaf leaf = Ok (\<lparr>ln_cells = ls\<rparr>, \<lparr>ln_cells = rs\<rparr>, lc_rowid (last ls))"
    "?cs = ls @ rs" "ls \<noteq> []" "rs \<noteq> []"
    "length ls = min (max (split_scan ?S 0 0 ?cs) 1) (length ?cs - 1)"
    using two by (rule split_leaf_parts)
  have lr: "ln_cells l = ls" "ln_cells r = rs" using p(1) split by auto
  have ne: "?cs \<noteq> []" using two by auto
  obtain n where n: "split_scan ?S 0 0 ?cs = n" "1 \<le> n" "n \<le> length ?cs"
      "?S \<le> 2 * cells_size (take n ?cs)" "n = 1 \<or> 2 * cells_size (take (n - 1) ?cs) < ?S"
    using split_scan_spec [of ?S 0 ?cs 0] ne by auto
  have len: "length ls = min n (length ?cs - 1)" using p(5) n(1,2) by simp
  have ls: "ls = take (length ls) ?cs" using p(2) by simp
  have M': "c \<in> set ls \<union> set rs \<Longrightarrow> encoded_len c \<le> M" for c using M p(2) by simp
  have bl: "cells_size (butlast ls) + encoded_len (last ls) = cells_size ls"
    using p(3) by (metis append_butlast_last_id cells_size_simps add_0_right)
  have lastM: "encoded_len (last ls) \<le> M" using p(3) M' by simp
  show "2 * cells_size (ln_cells l) \<le> ?S + 2 * M"
  proof (cases "n = 1")
    case True
    then have "length ls = 1" using len two by simp
    then have "butlast ls = []" by (cases ls) auto
    then show ?thesis using bl lastM lr by simp
  next
    case False
    have "cells_size (butlast ls) \<le> cells_size (take (n - 1) ?cs)"
    proof -
      have "butlast ls = take (length ls - 1) ?cs"
        using ls by (metis butlast_take p(2) le_add1 length_append)
      moreover have "take (length ls - 1) (take (n - 1) ?cs) = take (length ls - 1) ?cs"
        using len by (simp add: min_def)
      ultimately show ?thesis
        by (metis append_take_drop_id cells_size_simps(3) le_add1)
    qed
    with False n(5) bl lastM lr show ?thesis by simp
  qed
  show "2 * cells_size (ln_cells r) \<le> ?S + 2 * M"
  proof (cases "n \<le> length ?cs - 1")
    case True
    then have "ls = take n ?cs" using len ls by simp
    then show ?thesis using n(4) p(2) lr by simp
  next
    case False
    then have "length ls = length ?cs - 1" using len by (simp only: min_def if_False)
    then have "length rs = 1" using p(2) two by (metis add_diff_cancel_left' diff_diff_cancel
      le_trans length_append one_le_numeral)
    then obtain c where c: "rs = [c]" by (cases rs) auto
    then have "encoded_len c \<le> M" using M' [of c] by simp
    with c lr show ?thesis by simp
  qed
qed


text \<open>
  Leaves that were overfilled by one insertion split into halves that fit, when every
  cell has at most \<open>SMALL_CELL\<close> bytes.
\<close>

definition SMALL_CELL :: nat where "SMALL_CELL = 512"

lemma split_leaf_fits:
  assumes M: "\<And>c. c \<in> set (ln_cells leaf) \<Longrightarrow> encoded_len c \<le> SMALL_CELL"
    and used: "leaf_used leaf pid \<le> PAGE_SIZE + SMALL_CELL + 2" and full: "\<not> leaf_fits leaf pid"
    and "right_pid \<noteq> 1"
  shows "\<exists>l r sep. split_leaf leaf = Ok (l, r, sep) \<and> leaf_fits l pid \<and> leaf_fits r right_pid"
proof -
  let ?N = "length (ln_cells leaf)" and ?S = "cells_size (ln_cells leaf)" and ?off = "header_offset pid"
  have u: "leaf_used leaf pid = ?off + 8 + ?N * 2 + ?S"
    by (simp add: leaf_used_def cells_size_def)
  have off: "?off \<le> 100" by (simp add: header_offset_def)
  have two: "2 \<le> ?N"
  proof (rule ccontr)
    assume "\<not> 2 \<le> ?N"
    then consider "ln_cells leaf = []" | c where "ln_cells leaf = [c]"
      by (cases "ln_cells leaf" rule: remdups_adj.cases) auto
    then show False
      using full u off M by cases (auto simp: leaf_fits_def PAGE_SIZE_def SMALL_CELL_def)
  qed
  obtain ls rs where p: "split_leaf leaf = Ok (\<lparr>ln_cells = ls\<rparr>, \<lparr>ln_cells = rs\<rparr>, lc_rowid (last ls))"
    "ln_cells leaf = ls @ rs" "ls \<noteq> []" "rs \<noteq> []"
    using two by (rule split_leaf_parts)
  have sz: "2 * cells_size ls \<le> ?S + 2 * SMALL_CELL" "2 * cells_size rs \<le> ?S + 2 * SMALL_CELL"
    using split_leaf_sizes [OF two M p(1)] by simp_all
  have len: "length ls + 1 \<le> ?N" "length rs + 1 \<le> ?N"
    using p(2-4) by (simp_all add: Suc_le_eq)
  have S: "2 * ?N \<le> ?S" by (rule cells_size_ge)
  have T: "?off + 8 + ?N * 2 + ?S \<le> 4610" using used u by (simp add: PAGE_SIZE_def SMALL_CELL_def)
  have "leaf_fits \<lparr>ln_cells = ls\<rparr> pid"
    using sz(1) len(1) S T off
    by (simp add: leaf_fits_def leaf_used_def PAGE_SIZE_def SMALL_CELL_def flip: cells_size_def)
  moreover have "header_offset right_pid = 0" using assms(4) by (simp add: header_offset_def)
  then have "leaf_fits \<lparr>ln_cells = rs\<rparr> right_pid"
    using sz(2) len(2) S T off
    by (simp add: leaf_fits_def leaf_used_def PAGE_SIZE_def SMALL_CELL_def flip: cells_size_def)
  ultimately show ?thesis using p(1) by blast
qed

text \<open>
  C26. Splitting a leaf of at least two cells loses and reorders nothing, leaves both sides
  nonempty, and with strictly increasing rowids the separator is the largest rowid on the
  left and smaller than every rowid on the right. The split is balanced: each side has at most half of the bytes
  of the cells and one cell more. So when every cell has at most 512 bytes and the leaf is at most one
  such cell, with its pointer, too large for its page, the left half fits the old page and the right half
  any page other than the first.
\<close>

theorem split_leaf_correct:
  assumes "2 \<le> length (ln_cells leaf)" and "sorted_wrt (<) (cell_keys (ln_cells leaf))"
  shows "\<exists>l r sep. split_leaf leaf = Ok (l, r, sep) \<and> ln_cells leaf = ln_cells l @ ln_cells r
     \<and> ln_cells l \<noteq> [] \<and> ln_cells r \<noteq> [] \<and> sep = lc_rowid (last (ln_cells l))
     \<and> (\<forall>k \<in> set (cell_keys (ln_cells l)). k \<le> sep) \<and> (\<forall>k \<in> set (cell_keys (ln_cells r)). sep < k)
     \<and> (\<forall>m. (\<forall>c\<in>set (ln_cells leaf). encoded_len c \<le> m) \<longrightarrow>
          2 * cells_size (ln_cells l) \<le> cells_size (ln_cells leaf) + 2 * m
        \<and> 2 * cells_size (ln_cells r) \<le> cells_size (ln_cells leaf) + 2 * m)
     \<and> ((\<forall>c\<in>set (ln_cells leaf). encoded_len c \<le> 512) \<and> leaf_used leaf pid \<le> PAGE_SIZE + 514 \<and> right_pid \<noteq> 1
          \<longrightarrow> leaf_fits l pid \<and> leaf_fits r right_pid)"
proof -
  obtain ls rs where p: "split_leaf leaf = Ok (\<lparr>ln_cells = ls\<rparr>, \<lparr>ln_cells = rs\<rparr>, lc_rowid (last ls))"
    "ln_cells leaf = ls @ rs" "ls \<noteq> []" "rs \<noteq> []"
    using assms(1) by (rule split_leaf_parts)
  obtain ls' z where z: "ls = ls' @ [z]" using p(3) by (metis append_butlast_last_id)
  have "sorted_wrt (<) (cell_keys ls' @ lc_rowid z # cell_keys rs)"
    using assms(2) p(2) z by simp
  then have keys: "(\<forall>k \<in> set (cell_keys ls). k \<le> lc_rowid z) \<and> (\<forall>k \<in> set (cell_keys rs). lc_rowid z < k)"
    using z by (auto simp: sorted_wrt_append)
  have bal: "2 * cells_size ls \<le> cells_size (ln_cells leaf) + 2 * m \<and> 2 * cells_size rs \<le> cells_size (ln_cells leaf) + 2 * m"
    if "\<forall>c\<in>set (ln_cells leaf). encoded_len c \<le> m" for m
    using split_leaf_sizes [OF assms(1) _ p(1), of m] that by simp
  have fits: "leaf_fits \<lparr>ln_cells = ls\<rparr> pid \<and> leaf_fits \<lparr>ln_cells = rs\<rparr> right_pid"
    if "\<forall>c\<in>set (ln_cells leaf). encoded_len c \<le> 512" "leaf_used leaf pid \<le> PAGE_SIZE + 514" "right_pid \<noteq> 1"
  proof (cases "leaf_fits leaf pid")
    case True
    then show ?thesis using p(2) that(3) by (auto simp: leaf_fits_def leaf_used_def header_offset_def)
  next
    case False
    then show ?thesis
      using split_leaf_fits [of leaf pid right_pid] that p(1) by (auto simp: SMALL_CELL_def PAGE_SIZE_def)
  qed
  show ?thesis using p z keys bal fits by (intro exI conjI) auto
qed

section \<open>Interior nodes\<close>

lemma cell_len_bounds: "5 \<le> cell_len k" "cell_len k \<le> 13"
  using varint_len_range [of "zigzag k"] by (auto simp: cell_len_def)

definition icells_size :: "(page_id \<times> i64) list \<Rightarrow> nat" where
  "icells_size cs = sum_list (map (\<lambda>(_, k). cell_len k) cs)"

lemma icells_size_simps [simp]:
  "icells_size [] = 0" "icells_size (c # cs) = cell_len (snd c) + icells_size cs"
  "icells_size (cs @ ds) = icells_size cs + icells_size ds"
  by (simp_all add: icells_size_def case_prod_unfold)

lemma icells_size_bounds: "5 * length cs \<le> icells_size cs" "icells_size cs \<le> 13 * length cs"
  using cell_len_bounds by (induction cs) (force intro: add_mono)+

lemma interior_used_eq:
  "interior_used n pid = header_offset pid + 12 + length (in_cells n) * 2 + icells_size (in_cells n)"
  by (simp add: interior_used_def icells_size_def)

lemma split_interior_parts:
  assumes "in_cells node \<noteq> []"
  obtains ls c k rs where "split_interior node =
      Ok (\<lparr>in_cells = ls, in_right_child = c\<rparr>, \<lparr>in_cells = rs, in_right_child = in_right_child node\<rparr>, k)"
    "in_cells node = ls @ (c, k) # rs" "length ls = length (in_cells node) div 2"
proof -
  let ?cs = "in_cells node" and ?m = "length (in_cells node) div 2"
  have m: "?m < length ?cs" "min ?m (length ?cs - 1) = ?m"
    using assms by (cases ?cs; simp)+
  obtain c k where ck: "?cs ! ?m = (c, k)" by force
  have "split_interior node = Ok (\<lparr>in_cells = take ?m ?cs, in_right_child = c\<rparr>,
      \<lparr>in_cells = drop (?m + 1) ?cs, in_right_child = in_right_child node\<rparr>, k)"
    using assms m ck by (simp add: split_interior_def Let_def)
  moreover have "?cs = take ?m ?cs @ (c, k) # drop (?m + 1) ?cs"
    using id_take_nth_drop [OF m(1)] ck by simp
  ultimately show thesis using that m by (metis length_take min.absorb2 less_imp_le_nat)
qed

lemma split_interior_fits:
  assumes "\<not> interior_fits node pid" and "interior_used node pid \<le> PAGE_SIZE + 15"
    and "right_pid \<noteq> 1"
  shows "\<exists>l r sep. split_interior node = Ok (l, r, sep)
     \<and> in_cells node = in_cells l @ (in_right_child l, sep) # in_cells r
     \<and> in_right_child r = in_right_child node
     \<and> interior_fits l pid \<and> interior_fits r right_pid"
proof -
  let ?cs = "in_cells node" and ?off = "header_offset pid"
  have off: "?off \<le> 100" by (simp add: header_offset_def)
  have big: "?off + 12 + length ?cs * 2 + icells_size ?cs > 4096"
    using assms(1) by (simp add: interior_fits_def interior_used_eq PAGE_SIZE_def)
  have len: "100 \<le> length ?cs"
    using big off icells_size_bounds(2) [of ?cs] by linarith
  then have "?cs \<noteq> []" by auto
  then obtain ls c k rs where p: "split_interior node =
      Ok (\<lparr>in_cells = ls, in_right_child = c\<rparr>, \<lparr>in_cells = rs, in_right_child = in_right_child node\<rparr>, k)"
    "?cs = ls @ (c, k) # rs" "length ls = length ?cs div 2"
    by (rule split_interior_parts)
  have rlen: "10 \<le> length rs" and llen: "10 \<le> length ls"
    using p(2,3) len by auto
  have T: "?off + 12 + length ?cs * 2 + icells_size ?cs \<le> 4111"
    using assms(2) by (simp add: interior_used_eq PAGE_SIZE_def)
  have "interior_fits \<lparr>in_cells = ls, in_right_child = c\<rparr> pid"
    using T p(2) rlen icells_size_bounds(1) [of rs] cell_len_bounds(1) [of k]
    by (simp add: interior_fits_def interior_used_eq PAGE_SIZE_def)
  moreover have "interior_fits \<lparr>in_cells = rs, in_right_child = in_right_child node\<rparr> right_pid"
    using T p(2) llen icells_size_bounds(1) [of ls] cell_len_bounds(1) [of k] assms(3)
    by (simp add: interior_fits_def interior_used_eq PAGE_SIZE_def header_offset_def)
  ultimately show ?thesis using p by auto
qed

text \<open>
  An interior node overfilled by one more cell (at most 15 bytes of page space) splits
  into halves that both fit, and no child or key is lost: the middle key is promoted and
  its child becomes the left half's right child.
\<close>

theorem split_interior_correct:
  assumes "\<not> interior_fits node pid" and "interior_used node pid \<le> PAGE_SIZE + 15"
    and "right_pid \<noteq> 1"
  shows "\<exists>l r sep. split_interior node = Ok (l, r, sep)
     \<and> in_cells node = in_cells l @ (in_right_child l, sep) # in_cells r
     \<and> in_right_child r = in_right_child node
     \<and> interior_fits l pid \<and> interior_fits r right_pid"
  using assms by (rule split_interior_fits)

section \<open>Leaves with large cells\<close>

text \<open>A row of \<open>n\<close> zero bytes.\<close>

definition zero_cell :: "int \<Rightarrow> nat \<Rightarrow> leaf_cell" where
  "zero_cell r n = \<lparr>lc_rowid = i64_of_int r, lc_payload_len = word_of_nat n, lc_overflow = 0,
                    lc_inline = replicate n 0\<rparr>"

definition overfull_leaf :: leaf_node where
  "overfull_leaf = \<lparr>ln_cells = [zero_cell 1 1990, zero_cell 2 2094, zero_cell 3 1990]\<rparr>"

definition overfull_left :: leaf_node where
  "overfull_left = \<lparr>ln_cells = [zero_cell 1 1990, zero_cell 2 2094]\<rparr>"

lemma encoded_len_zero_cell:
  "encoded_len (zero_cell 1 1990) = 1993" "encoded_len (zero_cell 2 2094) = 2097"
  "encoded_len (zero_cell 3 1990) = 1993"
  by (simp_all add: zero_cell_def encoded_len_def zigzag_def i64_of_int_def varint_len_def)

lemma cell_wf_zero_cell: "n \<le> 4061 \<Longrightarrow> cell_wf (zero_cell r n)"
  by (simp add: cell_wf_def zero_cell_def USABLE_def PAGE_SIZE_def unat_of_nat)

lemma slice_patch_inside:
  "at \<le> a \<Longrightarrow> a + n \<le> at + length src \<Longrightarrow> at + length src \<le> length buf \<Longrightarrow>
   slice a n (patch at src buf) = slice (a - at) n src"
  by (simp add: slice_def patch_def)

lemma split_overfull_leaf:
  "split_leaf overfull_leaf = Ok (overfull_left, \<lparr>ln_cells = [zero_cell 3 1990]\<rparr>, i64_of_int 2)"
  by (simp add: split_leaf_def overfull_leaf_def overfull_left_def Let_def encoded_len_zero_cell)
    (simp add: zero_cell_def)

lemma varint_groups_numeral: "varint_groups 2 x = varint_groups 1 (drop_bit 7 x) @ [(ucast x AND 0x7f) OR 0x80]"
    "varint_groups 1 x = [(ucast x AND 0x7f) OR 0x80]"
  by (simp_all add: numeral_2_eq_2)

lemma varint_bytes_1990: "varint_bytes 1990 = [0x8f, 0x46]"
  by (simp add: varint_write_def varint_len_def Let_def varint_groups_numeral clear_last_def)

lemma varint_bytes_1: "varint_bytes 1 = [1]"
  by (simp add: varint_write_def varint_len_def Let_def clear_last_def)

lemma zero_cell_bytes_head:
  "slice 2 2 (leaf_cell_bytes (zero_cell 1 1990)) = [1, 0]"
  "slice 250 2 (leaf_cell_bytes (zero_cell 1 1990)) = [0, 0]"
proof -
  have b: "leaf_cell_bytes (zero_cell 1 1990) = [0x8f, 0x46, 1] @ replicate 1990 0"
    by (simp add: leaf_cell_bytes_def zero_cell_def zigzag_def i64_of_int_def varint_bytes_1990 varint_bytes_1)
  have "replicate 1990 (0::u8) = replicate 1 0 @ replicate 1989 0"
    unfolding replicate_add [symmetric] by simp
  then show "slice 2 2 (leaf_cell_bytes (zero_cell 1 1990)) = [1, 0]"
    by (simp add: b slice_def)
  show "slice 250 2 (leaf_cell_bytes (zero_cell 1 1990)) = [0, 0]"
    by (simp add: b slice_def numeral_2_eq_2)
qed

text \<open>
  C37. The halves of a split need not fit: three rows of about 2 KB. The first and the last
  fit one page; inserting the middle one between them splits the leaf so that the left half
  is 4102 bytes. Writing it overruns: the pointer array and the cells overlap, no panic is
  raised, and the page does not parse back to the rows that were written.
\<close>

theorem split_leaf_may_overflow:
  "list_all cell_wf (ln_cells overfull_leaf)
   \<and> leaf_fits \<lparr>ln_cells = [zero_cell 1 1990, zero_cell 3 1990]\<rparr> 2
   \<and> split_leaf overfull_leaf = Ok (overfull_left, \<lparr>ln_cells = [zero_cell 3 1990]\<rparr>, i64_of_int 2)
   \<and> \<not> leaf_fits overfull_left 2
   \<and> (\<exists>page. serialize_into (NLeaf overfull_left) (new_page 2) = Ok page
        \<and> parse_node page \<noteq> Ok (NLeaf overfull_left))"
proof -
  let ?e1 = "leaf_cell_bytes (zero_cell 1 1990)" and ?e2 = "leaf_cell_bytes (zero_cell 2 2094)"
  let ?z = "replicate 4096 0 :: bytes"
  obtain h where h: "put_node_header ?z 0 TABLE_LEAF (Suc (Suc 0)) 6 = Ok h" "length h = 4096"
      "slice 0 1 h = [TABLE_LEAF]" "slice 3 2 h = u16_be 2"
    using put_node_header_ok [of 0 ?z TABLE_LEAF "Suc (Suc 0)" 6] by auto
  define b where "b = patch 1999 ?e2 (patch 10 (u16_be 1999) (patch 6 ?e1 (patch 8 (u16_be 6) h)))"
  have len: "length b = 4096"
    by (simp add: b_def length_patch h encoded_len_zero_cell)
  have ser: "serialize_into (NLeaf overfull_left) (new_page 2) = Ok \<lparr>rp_id = 2, rp_data = b, rp_dirty = True\<rparr>"
    using h
    by (simp add: serialize_into_def serialize_leaf_def overfull_left_def new_page_def header_offset_def
        PAGE_SIZE_def encoded_len_zero_cell write_u16_patch copy_at_patch length_patch b_def)
  have "slice 8 2 b = [1, 0]" "slice 256 2 b = [0, 0]"
    using zero_cell_bytes_head
    by (simp_all add: b_def slice_patch_other slice_patch_inside length_patch h encoded_len_zero_cell)
  then have ptr: "read_u16 b 8 = (Ok 256 :: u16 sres)" and cell: "slice 256 2 b = [0, 0]"
    by (simp_all add: read_u16_slice len be_u16_def of_be_def)
  have d: "drop 256 b = 0 # 0 # drop 258 b"
    using drop_eq_slice_append [of 256 2 b] cell len by simp
  have d': "drop 257 b = 0 # drop 258 b"
    using arg_cong [OF d, of tl] by (simp add: tl_drop drop_Suc [symmetric])
  have r0: "varint_read (0 # xs) = Some (0, 1)" for xs :: bytes
    by (simp add: varint_read_def numeral_eq_Suc)
  have first: "parse_leaf_cell b 256 =
      Ok \<lparr>lc_rowid = I64 0, lc_payload_len = 0, lc_overflow = 0, lc_inline = []\<rparr>"
    by (simp add: parse_leaf_cell_def Let_def slice_from_def len d d' r0 unzigzag_def slice_range_def slice_def)
  have "b ! 0 = TABLE_LEAF"
    using slice_one [of 0 b] len h(3)
    by (simp add: b_def slice_patch_other length_patch h encoded_len_zero_cell)
  moreover have "read_u16 b 3 = (Ok 2 :: u16 sres)"
    by (simp add: read_u16_slice len) (simp add: b_def slice_patch_other length_patch h encoded_len_zero_cell)
  moreover have "parse_cells parse_leaf_cell b 8 (Suc (Suc 0)) \<noteq> Ok (ln_cells overfull_left)"
    using ptr first by (auto simp: overfull_left_def zero_cell_def obind_eq_Ok)
  then have "parse_cells parse_leaf_cell b 8 2 \<noteq> Ok (ln_cells overfull_left)"
    by (simp add: numeral_2_eq_2)
  ultimately have "parse_node \<lparr>rp_id = 2, rp_data = b, rp_dirty = True\<rparr> \<noteq> Ok (NLeaf overfull_left)"
    by (auto simp: parse_node_def header_offset_def index_at_def len Let_def overfull_left_def obind_eq_Ok)
  then show ?thesis
    using ser split_overfull_leaf
    by (simp add: overfull_leaf_def cell_wf_zero_cell leaf_fits_def leaf_used_def header_offset_def
        PAGE_SIZE_def encoded_len_zero_cell) (simp add: overfull_left_def encoded_len_zero_cell)
qed


definition small_cell_leaf :: leaf_node where
  "small_cell_leaf = \<lparr>ln_cells = map (\<lambda>i. zero_cell i 509) [0, 1, 2, 3, 4, 5, 6, 7]\<rparr>"

lemma encoded_len_small_cell: "i \<in> {0, 1, 2, 3, 4, 5, 6, 7} \<Longrightarrow> encoded_len (zero_cell i 509) = 512"
  by (auto simp: zero_cell_def encoded_len_def zigzag_def i64_of_int_def varint_len_def)

theorem split_leaf_correct_witness:
  "\<not> leaf_fits small_cell_leaf 5
   \<and> (\<exists>l r sep. split_leaf small_cell_leaf = Ok (l, r, sep) \<and> leaf_fits l 5 \<and> leaf_fits r 6)"
proof -
  let ?l = small_cell_leaf
  have n: "2 \<le> length (ln_cells ?l)" by (simp add: small_cell_leaf_def)
  have k: "sorted_wrt (<) (cell_keys (ln_cells ?l))"
    by (simp add: small_cell_leaf_def zero_cell_def less_i64_def int_of_i64_of_int i64_min_def i64_max_def)
  have u: "leaf_used ?l 5 = 4120" by (simp add: leaf_used_def header_offset_def small_cell_leaf_def encoded_len_small_cell)
  have "\<forall>c\<in>set (ln_cells ?l). encoded_len c \<le> 512" by (simp add: small_cell_leaf_def encoded_len_small_cell)
  with split_leaf_correct [OF n k, of 5 6] u show ?thesis by (auto simp: leaf_fits_def PAGE_SIZE_def)
qed

theorem split_interior_correct_witness:
  "\<exists>l r sep. split_interior \<lparr>in_cells = replicate 584 (2, I64 0), in_right_child = 3\<rparr> = Ok (l, r, sep)
     \<and> interior_fits l 5 \<and> interior_fits r 6"
  using split_interior_correct [of "\<lparr>in_cells = replicate 584 (2, I64 0), in_right_child = 3\<rparr>" 5 6]
  by (auto simp: interior_fits_def interior_used_def header_offset_def cell_len_def zigzag_def
      varint_len_def sum_list_replicate PAGE_SIZE_def)

end
