(* ===== verification/BTree.thy ===== *)
theory BTree
  imports BTreeSplit
begin

text \<open>
  The table b-tree of \<open>squrust-core/src/btree/mod.rs\<close> and its cursor (\<open>btree/cursor.rs\<close>),
  operation by operation, over any page store. The Rust traits \<open>PageSource\<close> and
  \<open>PageSink\<close> are a record of operations that thread the store's state; the loops that
  follow page pointers take fuel (a damaged file can make the Rust code loop forever).
  What the operations guarantee is proved in the theories \<open>BTreeRead\<close> and \<open>BTreeWrite\<close>.
\<close>

section \<open>The page store interface\<close>

text \<open>\<open>PageSink\<close> extends \<open>PageSource\<close>; the readers work over any extension of a source.\<close>

record 's page_source =
  po_get :: "'s \<Rightarrow> page_id \<Rightarrow> (raw_page \<times> 's) sres"

record 's page_ops = "'s page_source" +
  po_alloc :: "'s \<Rightarrow> (page_id \<times> 's) sres"
  po_put :: "'s \<Rightarrow> raw_page \<Rightarrow> 's sres"
  po_free :: "'s \<Rightarrow> page_id \<Rightarrow> 's sres"

definition OVERFLOW_CAP :: nat where "OVERFLOW_CAP = USABLE - 4"

record split_info =
  sp_sep_key :: i64
  sp_right_page :: page_id

definition get_node :: "('s, 'm) page_source_scheme \<Rightarrow> 's \<Rightarrow> page_id \<Rightarrow> (node \<times> 's) sres" where
  "get_node S s pid =
     obind (po_get S s pid) (\<lambda>(page, s). obind (parse_node page) (\<lambda>nd. Ok (nd, s)))"

definition write_node :: "'s page_ops \<Rightarrow> 's \<Rightarrow> page_id \<Rightarrow> node \<Rightarrow> 's sres" where
  "write_node S s pid nd =
     obind (serialize_into nd (new_page pid)) (\<lambda>page. po_put S s page)"

definition btree_create :: "'s page_ops \<Rightarrow> 's \<Rightarrow> (page_id \<times> 's) sres" where
  "btree_create S s =
     obind (po_alloc S s) (\<lambda>(root, s).
     obind (serialize_into empty_leaf (new_page root)) (\<lambda>page.
     obind (po_put S s page) (\<lambda>s. Ok (root, s))))"

section \<open>Overflow chains\<close>

text \<open>\<open>slice::chunks\<close>.\<close>

function chunks :: "nat \<Rightarrow> 'a list \<Rightarrow> 'a list list" where
  "chunks n xs = (if xs = [] \<or> n = 0 then [] else take n xs # chunks n (drop n xs))"
  by pat_completeness auto
termination
  by (relation "measure (\<lambda>(n, xs). length xs)") auto

declare chunks.simps [simp del]

primrec alloc_pages :: "'s page_ops \<Rightarrow> nat \<Rightarrow> 's \<Rightarrow> (page_id list \<times> 's) sres" where
  "alloc_pages S 0 s = Ok ([], s)"
| "alloc_pages S (Suc n) s =
     obind (po_alloc S s) (\<lambda>(pid, s).
     obind (alloc_pages S n s) (\<lambda>(ids, s). Ok (pid # ids, s)))"

text \<open>\<open>page.data[0..4] = next; page.data[4..] = chunk; page.dirty = true\<close>.\<close>

definition overflow_page :: "page_id \<Rightarrow> page_id \<Rightarrow> bytes \<Rightarrow> raw_page sres" where
  "overflow_page pid next chunk =
     obind (copy_at (rp_data (new_page pid)) 0 (u32_be next)) (\<lambda>buf.
     obind (copy_at buf 4 chunk) (\<lambda>buf.
     Ok ((new_page pid)\<lparr>rp_data := buf, rp_dirty := True\<rparr>)))"

fun put_chunks :: "'s page_ops \<Rightarrow> page_id list \<Rightarrow> bytes list \<Rightarrow> 's \<Rightarrow> 's sres" where
  "put_chunks S (pid # ids) (chunk # cs) s =
     (let next = (case ids of [] \<Rightarrow> 0 | q # _ \<Rightarrow> q) in
      obind (overflow_page pid next chunk) (\<lambda>page.
      obind (po_put S s page) (\<lambda>s. put_chunks S ids cs s)))"
| "put_chunks S ids cs s = Ok s"

definition write_overflow :: "'s page_ops \<Rightarrow> 's \<Rightarrow> bytes \<Rightarrow> (page_id \<times> 's) sres" where
  "write_overflow S s tail =
     (let cs = chunks OVERFLOW_CAP tail in
      obind (alloc_pages S (length cs) s) (\<lambda>(ids, s).
      obind (put_chunks S ids cs s) (\<lambda>s.
      obind (index_at ids 0) (\<lambda>first. Ok (first, s)))))"

text \<open>The loop of \<open>read_value\<close>; \<open>plen - length out\<close> panics on underflow.\<close>

fun read_chain :: "('s, 'm) page_source_scheme \<Rightarrow> nat \<Rightarrow> page_id \<Rightarrow> nat \<Rightarrow> bytes \<Rightarrow> 's \<Rightarrow> (bytes \<times> 's) sres" where
  "read_chain S 0 next plen out s = (if next = 0 then Ok (out, s) else Diverge)"
| "read_chain S (Suc fuel) next plen out s =
     (if next = 0 then Ok (out, s)
      else
        obind (po_get S s next) (\<lambda>(page, s).
        obind (read_u32 (rp_data page) 0) (\<lambda>np.
        if plen < length out then Panic
        else
          let remaining = plen - length out; tk = min remaining OVERFLOW_CAP in
          obind (slice_range (rp_data page) 4 (4 + tk)) (\<lambda>part.
          read_chain S fuel np plen (out @ part) s))))"

definition read_value :: "('s, 'm) page_source_scheme \<Rightarrow> nat \<Rightarrow> 's \<Rightarrow> leaf_cell \<Rightarrow> (bytes \<times> 's) sres" where
  "read_value S fuel s cell =
     (if lc_overflow cell = 0 then Ok (lc_inline cell, s)
      else
        obind (read_chain S fuel (lc_overflow cell) (unat (lc_payload_len cell)) (lc_inline cell) s)
          (\<lambda>(out, s).
        if length out \<noteq> unat (lc_payload_len cell)
        then Err (Corrupt (OverflowLengthMismatch (length out) (lc_payload_len cell)))
        else Ok (out, s)))"

fun free_overflow_chain :: "'s page_ops \<Rightarrow> nat \<Rightarrow> 's \<Rightarrow> page_id \<Rightarrow> 's sres" where
  "free_overflow_chain S 0 s next = (if next = 0 then Ok s else Diverge)"
| "free_overflow_chain S (Suc fuel) s next =
     (if next = 0 then Ok s
      else
        obind (po_get S s next) (\<lambda>(page, s).
        obind (read_u32 (rp_data page) 0) (\<lambda>np.
        obind (po_free S s next) (\<lambda>s. free_overflow_chain S fuel s np))))"

section \<open>Reads\<close>

fun btree_get :: "('s, 'm) page_source_scheme \<Rightarrow> nat \<Rightarrow> page_id \<Rightarrow> 's \<Rightarrow> i64 \<Rightarrow> (bytes option \<times> 's) sres" where
  "btree_get S 0 cur s rowid = Diverge"
| "btree_get S (Suc fuel) cur s rowid =
     obind (get_node S s cur) (\<lambda>(nd, s).
     case nd of
       NInterior n \<Rightarrow> btree_get S fuel (child_for n rowid) s rowid
     | NLeaf l \<Rightarrow>
         (case leaf_search l rowid of
            Found i \<Rightarrow>
              obind (index_at (ln_cells l) i) (\<lambda>cell.
              obind (read_value S fuel s cell) (\<lambda>(v, s). Ok (Some v, s)))
          | NotFound _ \<Rightarrow> Ok (None, s)))"

text \<open>\<open>last_key\<close>: the rightmost descent, then the last cell of that leaf.\<close>

fun btree_last_key :: "('s, 'm) page_source_scheme \<Rightarrow> nat \<Rightarrow> page_id \<Rightarrow> 's \<Rightarrow> (i64 option \<times> 's) sres" where
  "btree_last_key S 0 cur s = Diverge"
| "btree_last_key S (Suc fuel) cur s =
     obind (get_node S s cur) (\<lambda>(nd, s).
     case nd of
       NInterior n \<Rightarrow> btree_last_key S fuel (in_right_child n) s
     | NLeaf l \<Rightarrow> Ok (if ln_cells l = [] then None else Some (lc_rowid (last (ln_cells l))), s))"

section \<open>Insertion\<close>

definition make_cell :: "'s page_ops \<Rightarrow> 's \<Rightarrow> i64 \<Rightarrow> bytes \<Rightarrow> (leaf_cell \<times> 's) sres" where
  "make_cell S s rowid record =
     (let payload_len = word_of_nat (length record); x = USABLE - 35 in
      if length record \<le> x then
        Ok (\<lparr>lc_rowid = rowid, lc_payload_len = payload_len, lc_overflow = 0,
             lc_inline = record\<rparr>, s)
      else
        let inline_len = inline_len_for payload_len in
        obind (slice_range record 0 inline_len) (\<lambda>inline.
        obind (write_overflow S s (drop inline_len record)) (\<lambda>(overflow, s).
        Ok (\<lparr>lc_rowid = rowid, lc_payload_len = payload_len, lc_overflow = overflow,
             lc_inline = inline\<rparr>, s))))"

text \<open>\<open>cells.iter().position(|(_, k)| rowid <= *k)\<close>.\<close>

fun key_position :: "(page_id \<times> i64) list \<Rightarrow> i64 \<Rightarrow> nat option" where
  "key_position [] rowid = None"
| "key_position ((_, k) # cs) rowid =
     (if rowid \<le> k then Some 0 else map_option Suc (key_position cs rowid))"

text \<open>\<open>Vec::insert\<close>.\<close>

definition vec_insert :: "nat \<Rightarrow> 'a \<Rightarrow> 'a list \<Rightarrow> 'a list" where
  "vec_insert i x xs = take i xs @ x # drop i xs"

text \<open>The replaced or new cell in the leaf, and the overflow chain it releases.\<close>

definition leaf_place :: "leaf_node \<Rightarrow> leaf_cell \<Rightarrow> leaf_node \<times> page_id" where
  "leaf_place leaf cell =
     (case leaf_search leaf (lc_rowid cell) of
        Found i \<Rightarrow> (\<lparr>ln_cells = (ln_cells leaf)[i := cell]\<rparr>, lc_overflow (ln_cells leaf ! i))
      | NotFound i \<Rightarrow> (\<lparr>ln_cells = vec_insert i cell (ln_cells leaf)\<rparr>, 0))"

definition store_leaf ::
    "'s page_ops \<Rightarrow> 's \<Rightarrow> page_id \<Rightarrow> leaf_node \<Rightarrow> (split_info option \<times> 's) sres" where
  "store_leaf S s pid leaf =
     (if leaf_fits leaf pid then
        obind (write_node S s pid (NLeaf leaf)) (\<lambda>s. Ok (None, s))
      else
        obind (split_leaf leaf) (\<lambda>(left, right, sep).
        obind (po_alloc S s) (\<lambda>(right_page, s).
        obind (write_node S s pid (NLeaf left)) (\<lambda>s.
        obind (write_node S s right_page (NLeaf right)) (\<lambda>s.
        Ok (Some \<lparr>sp_sep_key = sep, sp_right_page = right_page\<rparr>, s))))))"

text \<open>The parent's cells after the child at \<open>pos\<close> split.\<close>

definition place_split ::
    "interior_node \<Rightarrow> nat option \<Rightarrow> page_id \<Rightarrow> split_info \<Rightarrow> interior_node" where
  "place_split node pos child sp =
     (case pos of
        Some i \<Rightarrow>
          let old_key = snd (in_cells node ! i) in
          node\<lparr>in_cells := vec_insert (i + 1) (sp_right_page sp, old_key)
                          ((in_cells node)[i := (child, sp_sep_key sp)])\<rparr>
      | None \<Rightarrow>
          \<lparr>in_cells = in_cells node @ [(child, sp_sep_key sp)],
           in_right_child = sp_right_page sp\<rparr>)"

definition store_interior ::
    "'s page_ops \<Rightarrow> 's \<Rightarrow> page_id \<Rightarrow> interior_node \<Rightarrow> (split_info option \<times> 's) sres" where
  "store_interior S s pid node =
     (if interior_fits node pid then
        obind (write_node S s pid (NInterior node)) (\<lambda>s. Ok (None, s))
      else
        obind (split_interior node) (\<lambda>(left, right, sep).
        obind (po_alloc S s) (\<lambda>(right_page, s).
        obind (write_node S s pid (NInterior left)) (\<lambda>s.
        obind (write_node S s right_page (NInterior right)) (\<lambda>s.
        Ok (Some \<lparr>sp_sep_key = sep, sp_right_page = right_page\<rparr>, s))))))"

fun insert_rec ::
    "'s page_ops \<Rightarrow> nat \<Rightarrow> 's \<Rightarrow> page_id \<Rightarrow> leaf_cell \<Rightarrow> (split_info option \<times> 's) sres" where
  "insert_rec S 0 s pid cell = Diverge"
| "insert_rec S (Suc fuel) s pid cell =
     obind (get_node S s pid) (\<lambda>(nd, s).
     case nd of
       NLeaf leaf \<Rightarrow>
         (let (leaf', freed) = leaf_place leaf cell in
          obind (store_leaf S s pid leaf') (\<lambda>(result, s).
          if freed \<noteq> 0
          then obind (free_overflow_chain S fuel s freed) (\<lambda>s. Ok (result, s))
          else Ok (result, s)))
     | NInterior node \<Rightarrow>
         (let pos = key_position (in_cells node) (lc_rowid cell);
              child = (case pos of Some i \<Rightarrow> fst (in_cells node ! i) | None \<Rightarrow> in_right_child node) in
          obind (insert_rec S fuel s child cell) (\<lambda>(result, s).
          case result of
            None \<Rightarrow> Ok (None, s)
          | Some sp \<Rightarrow> store_interior S s pid (place_split node pos child sp))))"

definition grow_root :: "'s page_ops \<Rightarrow> 's \<Rightarrow> page_id \<Rightarrow> split_info \<Rightarrow> 's sres" where
  "grow_root S s root sp =
     obind (get_node S s root) (\<lambda>(left_node, s).
     obind (po_alloc S s) (\<lambda>(left_page, s).
     obind (write_node S s left_page left_node) (\<lambda>s.
     write_node S s root
       (NInterior \<lparr>in_cells = [(left_page, sp_sep_key sp)], in_right_child = sp_right_page sp\<rparr>))))"

definition btree_insert :: "'s page_ops \<Rightarrow> nat \<Rightarrow> page_id \<Rightarrow> 's \<Rightarrow> i64 \<Rightarrow> bytes \<Rightarrow> 's sres" where
  "btree_insert S fuel root s rowid record =
     obind (make_cell S s rowid record) (\<lambda>(cell, s).
     obind (insert_rec S fuel s root cell) (\<lambda>(result, s).
     case result of
       None \<Rightarrow> Ok s
     | Some sp \<Rightarrow> grow_root S s root sp))"

section \<open>Deletion\<close>

text \<open>\<open>Vec::remove\<close>.\<close>

definition vec_remove :: "nat \<Rightarrow> 'a list \<Rightarrow> 'a list" where
  "vec_remove i xs = take i xs @ drop (Suc i) xs"

fun delete_rec :: "'s page_ops \<Rightarrow> nat \<Rightarrow> 's \<Rightarrow> page_id \<Rightarrow> i64 \<Rightarrow> (bool \<times> 's) sres" where
  "delete_rec S 0 s pid rowid = Diverge"
| "delete_rec S (Suc fuel) s pid rowid =
     obind (get_node S s pid) (\<lambda>(nd, s).
     case nd of
       NInterior n \<Rightarrow> delete_rec S fuel s (child_for n rowid) rowid
     | NLeaf leaf \<Rightarrow>
         (case leaf_search leaf rowid of
            Found i \<Rightarrow>
              obind (index_at (ln_cells leaf) i) (\<lambda>removed.
              obind (write_node S s pid (NLeaf \<lparr>ln_cells = vec_remove i (ln_cells leaf)\<rparr>)) (\<lambda>s.
              if lc_overflow removed \<noteq> 0
              then obind (free_overflow_chain S fuel s (lc_overflow removed)) (\<lambda>s. Ok (True, s))
              else Ok (True, s)))
          | NotFound _ \<Rightarrow> Ok (False, s)))"

definition btree_delete :: "'s page_ops \<Rightarrow> nat \<Rightarrow> page_id \<Rightarrow> 's \<Rightarrow> i64 \<Rightarrow> (bool \<times> 's) sres" where
  "btree_delete S fuel root s rowid = delete_rec S fuel s root rowid"

section \<open>The cursor\<close>

text \<open>
  \<open>BTreeCursor\<close>: the interior nodes from the root with the child index descended (the
  index \<open>cells.len()\<close> is the right child), the innermost first, and the current leaf
  with the next cell index.
\<close>

record cursor =
  cu_stack :: "(interior_node \<times> nat) list"
  cu_leaf :: "(leaf_node \<times> nat) option"

definition child_at :: "interior_node \<Rightarrow> nat \<Rightarrow> page_id" where
  "child_at node idx =
     (if idx < length (in_cells node) then fst (in_cells node ! idx) else in_right_child node)"

fun cursor_seek_loop ::
    "('s, 'm) page_source_scheme \<Rightarrow> nat \<Rightarrow> 's \<Rightarrow> page_id \<Rightarrow> i64 \<Rightarrow> (interior_node \<times> nat) list \<Rightarrow> (cursor \<times> 's) sres" where
  "cursor_seek_loop S 0 s cur rowid stack = Diverge"
| "cursor_seek_loop S (Suc fuel) s cur rowid stack =
     obind (get_node S s cur) (\<lambda>(nd, s).
     case nd of
       NInterior n \<Rightarrow>
         (let idx = (case key_position (in_cells n) rowid of
                       Some i \<Rightarrow> i | None \<Rightarrow> length (in_cells n)) in
          cursor_seek_loop S fuel s (child_at n idx) rowid ((n, idx) # stack))
     | NLeaf l \<Rightarrow>
         (let i = (case leaf_search l rowid of Found i \<Rightarrow> i | NotFound i \<Rightarrow> i) in
          Ok (\<lparr>cu_stack = stack, cu_leaf = Some (l, i)\<rparr>, s)))"

definition cursor_seek :: "('s, 'm) page_source_scheme \<Rightarrow> nat \<Rightarrow> 's \<Rightarrow> page_id \<Rightarrow> i64 \<Rightarrow> (cursor \<times> 's) sres" where
  "cursor_seek S fuel s root rowid = cursor_seek_loop S fuel s root rowid []"

definition cursor_seek_first :: "('s, 'm) page_source_scheme \<Rightarrow> nat \<Rightarrow> 's \<Rightarrow> page_id \<Rightarrow> (cursor \<times> 's) sres" where
  "cursor_seek_first S fuel s root = cursor_seek S fuel s root (i64_of_int i64_min)"

fun descend_leftmost ::
    "('s, 'm) page_source_scheme \<Rightarrow> nat \<Rightarrow> 's \<Rightarrow> page_id \<Rightarrow> (interior_node \<times> nat) list \<Rightarrow> (cursor \<times> 's) sres" where
  "descend_leftmost S 0 s cur stack = Diverge"
| "descend_leftmost S (Suc fuel) s cur stack =
     obind (get_node S s cur) (\<lambda>(nd, s).
     case nd of
       NInterior n \<Rightarrow> descend_leftmost S fuel s (child_at n 0) ((n, 0) # stack)
     | NLeaf l \<Rightarrow> Ok (\<lparr>cu_stack = stack, cu_leaf = Some (l, 0)\<rparr>, s))"

text \<open>
  The inner loop of \<open>next\<close>: advance the innermost index, popping exhausted nodes. The
  result is the next child to descend and the stack that leads to it.
\<close>

fun next_child :: "(interior_node \<times> nat) list \<Rightarrow> (page_id \<times> (interior_node \<times> nat) list) option" where
  "next_child [] = None"
| "next_child ((node, idx) # stack) =
     (let idx = idx + 1 in
      if idx \<le> length (in_cells node) then Some (child_at node idx, (node, idx) # stack)
      else next_child stack)"

text \<open>
  \<open>next\<close>: the outer loop re-enters after each descent, so an empty leaf is skipped.
\<close>

fun cursor_next ::
    "('s, 'm) page_source_scheme \<Rightarrow> nat \<Rightarrow> nat \<Rightarrow> 's \<Rightarrow> cursor \<Rightarrow> ((i64 \<times> bytes) option \<times> cursor \<times> 's) sres" where
  "cursor_next S fuel 0 s c = Diverge"
| "cursor_next S fuel (Suc n) s c =
     (case cu_leaf c of
        Some (leaf, i) \<Rightarrow>
          if i < length (ln_cells leaf) then
            let cell = ln_cells leaf ! i in
            obind (read_value S fuel s cell) (\<lambda>(v, s).
            Ok (Some (lc_rowid cell, v), c\<lparr>cu_leaf := Some (leaf, i + 1)\<rparr>, s))
          else
            (case next_child (cu_stack c) of
               None \<Rightarrow> Ok (None, \<lparr>cu_stack = [], cu_leaf = None\<rparr>, s)
             | Some (child, stack) \<Rightarrow>
                 obind (descend_leftmost S fuel s child stack) (\<lambda>(c, s).
                 cursor_next S fuel n s c))
      | None \<Rightarrow>
          (case next_child (cu_stack c) of
             None \<Rightarrow> Ok (None, \<lparr>cu_stack = [], cu_leaf = None\<rparr>, s)
           | Some (child, stack) \<Rightarrow>
               obind (descend_leftmost S fuel s child stack) (\<lambda>(c, s).
               cursor_next S fuel n s c)))"

text \<open>The client loop \<open>while let Some((rowid, bytes)) = cursor.next()?\<close>.\<close>

fun cursor_collect ::
    "('s, 'm) page_source_scheme \<Rightarrow> nat \<Rightarrow> nat \<Rightarrow> 's \<Rightarrow> cursor \<Rightarrow> ((i64 \<times> bytes) list \<times> 's) sres" where
  "cursor_collect S fuel 0 s c = Diverge"
| "cursor_collect S fuel (Suc n) s c =
     obind (cursor_next S fuel fuel s c) (\<lambda>(r, c, s).
     case r of
       None \<Rightarrow> Ok ([], s)
     | Some kv \<Rightarrow> obind (cursor_collect S fuel n s c) (\<lambda>(kvs, s). Ok (kv # kvs, s)))"

end
