(* ===== verification/PageStore.thy ===== *)
theory PageStore
  imports BTree
begin

text \<open>
  The contract the b-tree relies on. A \<open>page_reader\<close> returns, for every page its view
  defines, a page with that body; a \<open>page_store\<close> also allocates, writes and frees pages.
  The contract is about page bodies: all of a page, but of the database header on page 1 only the user version.
  Inside the locales: reading and writing nodes, and the life of an overflow chain.
  The transactions of the storage engine are shown to be such stores in the theory
  \<open>TxStore\<close>.
\<close>

section \<open>Readers\<close>

locale page_reader =
  fixes S :: "('s, 'm) page_source_scheme" and inv :: "'s \<Rightarrow> bool"
    and view :: "'s \<Rightarrow> page_id \<Rightarrow> bytes option"
  assumes get_law: "inv s \<Longrightarrow> view s p = Some b \<Longrightarrow>
    \<exists>page s'. po_get S s p = Ok (page, s') \<and> rp_id page = p \<and> page_wf page
      \<and> page_body p (rp_data page) = b \<and> inv s' \<and> view s' = view s"

text \<open>
  A chain of overflow pages that holds \<open>data\<close>: each page has the next page's number in
  its first four bytes and up to \<open>OVERFLOW_CAP\<close> bytes of data after them.
\<close>

fun chain_rep :: "(page_id \<Rightarrow> bytes option) \<Rightarrow> page_id \<Rightarrow> page_id list \<Rightarrow> bytes \<Rightarrow> bool" where
  "chain_rep vw nx [] data \<longleftrightarrow> nx = 0 \<and> data = []"
| "chain_rep vw nx (p # ps) data \<longleftrightarrow>
     nx = p \<and> p \<noteq> 0 \<and> p \<noteq> 1 \<and> data \<noteq> []
     \<and> (\<exists>b np. vw p = Some b \<and> length b = PAGE_SIZE \<and> take 4 b = u32_be np
          \<and> slice 4 (min (length data) OVERFLOW_CAP) b = take OVERFLOW_CAP data
          \<and> chain_rep vw np ps (drop OVERFLOW_CAP data))"

text \<open>A cell and the value it stands for: inline, or an inline prefix and a chain.\<close>

definition cell_rep :: "(page_id \<Rightarrow> bytes option) \<Rightarrow> leaf_cell \<Rightarrow> bytes \<Rightarrow> page_id list \<Rightarrow> bool" where
  "cell_rep vw c val ch \<longleftrightarrow>
     cell_wf c \<and> length val = unat (lc_payload_len c)
     \<and> (if lc_overflow c = 0 then ch = [] \<and> val = lc_inline c
        else ch \<noteq> [] \<and> take (length (lc_inline c)) val = lc_inline c
          \<and> chain_rep vw (lc_overflow c) ch (drop (length (lc_inline c)) val))"

lemma OVERFLOW_CAP_eq: "OVERFLOW_CAP = 4092" "PAGE_SIZE = 4096"
  by (simp_all add: OVERFLOW_CAP_def USABLE_def PAGE_SIZE_def)

lemma chain_rep_cong:
  "(\<And>p. p \<in> set ps \<Longrightarrow> vw p = vw' p) \<Longrightarrow> chain_rep vw nx ps data \<longleftrightarrow> chain_rep vw' nx ps data"
  by (induction ps arbitrary: nx data) auto

lemma cell_rep_cong:
  "(\<And>p. p \<in> set ch \<Longrightarrow> vw p = vw' p) \<Longrightarrow> cell_rep vw c val ch \<longleftrightarrow> cell_rep vw' c val ch"
  unfolding cell_rep_def using chain_rep_cong [of ch vw vw'] by auto

lemma chain_rep_nz: "chain_rep vw nx ps data \<Longrightarrow> p \<in> set ps \<Longrightarrow> p \<noteq> 0 \<and> p \<noteq> 1"
  by (induction ps arbitrary: nx data) auto

lemma cell_rep_chain_nz: "cell_rep vw c val ch \<Longrightarrow> p \<in> set ch \<Longrightarrow> p \<noteq> 0 \<and> p \<noteq> 1"
  unfolding cell_rep_def by (metis chain_rep_nz empty_iff list.set(1))

lemma page_body_other: "p \<noteq> 1 \<Longrightarrow> page_body p d = d"
  by (simp add: page_body_def header_offset_def)

context page_reader begin

lemma get_node_ok:
  assumes "inv s" and "view s p = Some b" and "node_at p b nd"
  shows "\<exists>s'. get_node S s p = Ok (nd, s') \<and> inv s' \<and> view s' = view s"
proof -
  obtain page s' where "po_get S s p = Ok (page, s')" "rp_id page = p" "page_wf page"
      "page_body p (rp_data page) = b" "inv s'" "view s' = view s"
    using get_law [OF assms(1,2)] by blast
  then show ?thesis using node_at_parse [OF assms(3)] by (simp add: get_node_def)
qed

text \<open>One fuel unit per page reads a chain.\<close>

lemma read_chain_ok:
  assumes "inv s" and "chain_rep (view s) nx ps data" and "plen = length out + length data"
    and "length ps \<le> fuel"
  shows "\<exists>s'. read_chain S fuel nx plen out s = Ok (out @ data, s') \<and> inv s' \<and> view s' = view s"
  using assms
proof (induction ps arbitrary: fuel nx data out s)
  case Nil
  then show ?case by (cases fuel) auto
next
  case (Cons p ps)
  then obtain f where f: "fuel = Suc f" by (cases fuel) auto
  from Cons.prems(2) obtain b np where c: "nx = p" "p \<noteq> 0" "p \<noteq> 1" "view s p = Some b"
      "length b = PAGE_SIZE" "take 4 b = u32_be np"
      "slice 4 (min (length data) OVERFLOW_CAP) b = take OVERFLOW_CAP data"
      "chain_rep (view s) np ps (drop OVERFLOW_CAP data)"
    by auto
  obtain page s1 where g: "po_get S s p = Ok (page, s1)" "rp_data page = b" "inv s1" "view s1 = view s"
    using get_law [OF Cons.prems(1) c(4)] page_body_other [OF c(3)] by auto
  have np: "read_u32 b 0 = (Ok np :: u32 sres)"
    using c(5,6) by (simp add: read_u32_slice slice_def OVERFLOW_CAP_eq)
  have part: "slice_range b 4 (4 + min (length data) OVERFLOW_CAP) = (Ok (take OVERFLOW_CAP data) :: bytes sres)"
    using c(5,7) by (simp add: slice_range_def OVERFLOW_CAP_eq)
  have "\<exists>s'. read_chain S f np plen (out @ take OVERFLOW_CAP data) s1
      = Ok ((out @ take OVERFLOW_CAP data) @ drop OVERFLOW_CAP data, s') \<and> inv s' \<and> view s' = view s1"
    using Cons.prems(3,4) f g(3,4) c(8) by (intro Cons.IH) auto
  then show ?case
    using f c(1,2) g np part Cons.prems(3) by (auto simp: Let_def)
qed

lemma read_value_ok:
  assumes "inv s" and "cell_rep (view s) c val ch" and "length ch \<le> fuel"
  shows "\<exists>s'. read_value S fuel s c = Ok (val, s') \<and> inv s' \<and> view s' = view s"
proof (cases "lc_overflow c = 0")
  case True
  with assms show ?thesis by (simp add: read_value_def cell_rep_def)
next
  case False
  let ?n = "length (lc_inline c)"
  from assms(2) False have c: "length val = unat (lc_payload_len c)" "take ?n val = lc_inline c"
      "chain_rep (view s) (lc_overflow c) ch (drop ?n val)"
    by (auto simp: cell_rep_def)
  have "?n \<le> length val" using arg_cong [OF c(2), of length] by simp
  then obtain s' where "read_chain S fuel (lc_overflow c) (unat (lc_payload_len c)) (lc_inline c) s
      = Ok (lc_inline c @ drop ?n val, s')" "inv s'" "view s' = view s"
    using read_chain_ok [OF assms(1) c(3) _ assms(3), of "unat (lc_payload_len c)" "lc_inline c"] c(1) by auto
  moreover have "lc_inline c @ drop ?n val = val" using c(2) by (metis append_take_drop_id)
  ultimately show ?thesis using False c(1) by (simp add: read_value_def)
qed

end

section \<open>Stores\<close>

locale page_store = page_reader S inv view
  for S :: "'s page_ops" and inv :: "'s \<Rightarrow> bool" and view :: "'s \<Rightarrow> page_id \<Rightarrow> bytes option" +
  fixes avail :: "'s \<Rightarrow> page_id set"
  assumes get_avail: "inv s \<Longrightarrow> po_get S s p = Ok (page, s') \<Longrightarrow> avail s' = avail s"
    and alloc_law: "inv s \<Longrightarrow> avail s \<noteq> {} \<Longrightarrow>
      \<exists>p s'. po_alloc S s = Ok (p, s') \<and> p \<in> avail s \<and> inv s' \<and> view s' = view s
        \<and> avail s' = avail s - {p}"
    and put_law: "inv s \<Longrightarrow> page_wf page \<Longrightarrow> rp_id page \<noteq> 0 \<Longrightarrow>
      \<exists>s'. po_put S s page = Ok s' \<and> inv s' \<and> avail s' = avail s
        \<and> view s' = (view s)(rp_id page \<mapsto> page_body (rp_id page) (rp_data page))"
    and free_law: "inv s \<Longrightarrow> p \<notin> avail s \<Longrightarrow> p \<noteq> 0 \<Longrightarrow> p \<noteq> 1 \<Longrightarrow>
      \<exists>s'. po_free S s p = Ok s' \<and> inv s' \<and> avail s' = insert p (avail s)
        \<and> (\<forall>q. q \<noteq> p \<longrightarrow> view s' q = view s q)"
    and avail_valid: "inv s \<Longrightarrow> p \<in> avail s \<Longrightarrow> p \<noteq> 0 \<and> p \<noteq> 1"

context page_store begin

lemma get_node_store:
  assumes "inv s" and "view s p = Some b" and "node_at p b nd"
  shows "\<exists>s'. get_node S s p = Ok (nd, s') \<and> inv s' \<and> view s' = view s \<and> avail s' = avail s"
proof -
  obtain s' where s': "get_node S s p = Ok (nd, s')" "inv s'" "view s' = view s"
    using get_node_ok [OF assms] by blast
  then obtain page where "po_get S s p = Ok (page, s')" by (auto simp: get_node_def obind_eq_Ok)
  then show ?thesis using s' get_avail [OF assms(1)] by blast
qed

lemma write_node_ok:
  assumes "inv s" and "p \<noteq> 0" and "node_fits nd p" and "node_wf nd"
  shows "\<exists>s' b. write_node S s p nd = Ok s' \<and> node_at p b nd \<and> inv s' \<and> avail s' = avail s
     \<and> view s' = (view s)(p \<mapsto> b)"
proof -
  obtain page' where p': "serialize_into nd (new_page p) = Ok page'" "rp_id page' = p" "page_wf page'"
      "node_at p (page_body p (rp_data page')) nd"
    using serialize_node_at [OF assms(3,4)] by blast
  then show ?thesis using put_law [OF assms(1) p'(3)] assms(2) by (auto simp: write_node_def)
qed

end

section \<open>Overflow chains in a store\<close>

lemma chunks_step: "xs \<noteq> [] \<Longrightarrow> 0 < n \<Longrightarrow> chunks n xs = take n xs # chunks n (drop n xs)"
  by (simp add: chunks.simps [of n xs])

lemma chunks_Nil [simp]: "chunks n [] = []"
  by (simp add: chunks.simps)

lemma chunks_eq_Nil: "0 < n \<Longrightarrow> chunks n xs = [] \<longleftrightarrow> xs = []"
  by (simp add: chunks.simps [of n xs])

lemma inline_len_for_bounds:
  assumes "USABLE - 35 < unat p"
  shows "inline_len_for p < unat p" "inline_len_for p \<le> USABLE - 35"
  using assms by (auto simp: inline_len_for_def Let_def USABLE_def PAGE_SIZE_def)

definition overflow_pages :: "bytes \<Rightarrow> nat" where
  "overflow_pages record =
     (if length record \<le> USABLE - 35 then 0
      else length (chunks OVERFLOW_CAP (drop (inline_len_for (word_of_nat (length record))) record)))"

context page_store begin

lemma alloc_pages_ok:
  assumes "inv s" and "n \<le> card (avail s)"
  shows "\<exists>ids s'. alloc_pages S n s = Ok (ids, s') \<and> length ids = n \<and> distinct ids
     \<and> set ids \<subseteq> avail s \<and> avail s' = avail s - set ids \<and> inv s' \<and> view s' = view s"
  using assms
proof (induction n arbitrary: s)
  case (Suc n)
  then have "avail s \<noteq> {}" by auto
  then obtain p s1 where a: "po_alloc S s = Ok (p, s1)" "p \<in> avail s" "inv s1" "view s1 = view s"
      "avail s1 = avail s - {p}"
    using alloc_law [OF Suc.prems(1)] by blast
  have "n \<le> card (avail s1)" using Suc.prems(2) a(2,5) by simp
  then obtain ids s' where i: "alloc_pages S n s1 = Ok (ids, s')" "length ids = n" "distinct ids"
      "set ids \<subseteq> avail s1" "avail s' = avail s1 - set ids" "inv s'" "view s' = view s1"
    using Suc.IH [OF a(3)] by blast
  then show ?case using a by (intro exI [of _ "p # ids"] exI [of _ s']) auto
qed simp

lemma overflow_page_ok:
  assumes "length chunk \<le> OVERFLOW_CAP"
  shows "\<exists>page. overflow_page pid np chunk = Ok page \<and> rp_id page = pid \<and> page_wf page
     \<and> take 4 (rp_data page) = u32_be np \<and> slice 4 (length chunk) (rp_data page) = chunk"
proof -
  let ?b1 = "patch 0 (u32_be np) (rp_data (new_page pid))"
  let ?b2 = "patch 4 chunk ?b1"
  have l: "length (rp_data (new_page pid)) = 4096" by (simp add: new_page_def PAGE_SIZE_def)
  then have l1: "length ?b1 = 4096" by (simp add: length_patch)
  have c: "4 + length chunk \<le> 4096" using assms by (simp add: OVERFLOW_CAP_eq)
  have "take 4 ?b2 = slice 0 4 ?b1" using l1 c slice_patch_other [of 0 4 4 chunk ?b1] by (simp add: slice_def)
  also have "\<dots> = u32_be np" using l by (simp add: slice_patch_same)
  finally have "take 4 ?b2 = u32_be np" .
  moreover have "slice 4 (length chunk) ?b2 = chunk" using l1 c by (simp add: slice_patch_same)
  ultimately show ?thesis
    using l l1 c by (simp add: overflow_page_def copy_at_patch page_wf_def PAGE_SIZE_def length_patch)
qed

lemma put_chunks_ok:
  assumes "inv s" and "length ids = length (chunks OVERFLOW_CAP data)" and "distinct ids"
    and "\<forall>p\<in>set ids. p \<noteq> 0 \<and> p \<noteq> 1"
  shows "\<exists>s'. put_chunks S ids (chunks OVERFLOW_CAP data) s = Ok s' \<and> inv s' \<and> avail s' = avail s
     \<and> chain_rep (view s') (case ids of [] \<Rightarrow> 0 | q # _ \<Rightarrow> q) ids data
     \<and> (\<forall>q. q \<notin> set ids \<longrightarrow> view s' q = view s q)"
  using assms
proof (induction ids arbitrary: data s)
  case Nil
  then have "data = []" using chunks_eq_Nil [of OVERFLOW_CAP data] by (simp add: OVERFLOW_CAP_eq)
  with Nil show ?case by simp
next
  case (Cons p ids)
  have pos: "0 < OVERFLOW_CAP" by (simp add: OVERFLOW_CAP_eq)
  have ne: "data \<noteq> []" using Cons.prems(2) by auto
  note ch = chunks_step [OF ne pos]
  let ?np = "case ids of [] \<Rightarrow> 0 | q # _ \<Rightarrow> q"
  let ?chunk = "take OVERFLOW_CAP data"
  obtain page where page: "overflow_page p ?np ?chunk = Ok page" "rp_id page = p" "page_wf page"
      "take 4 (rp_data page) = u32_be ?np" "slice 4 (length ?chunk) (rp_data page) = ?chunk"
    using overflow_page_ok [of ?chunk p ?np] by auto
  have p: "p \<noteq> 0" "p \<noteq> 1" using Cons.prems(4) by auto
  obtain s1 where s1: "po_put S s page = Ok s1" "inv s1" "avail s1 = avail s"
      "view s1 = (view s)(p \<mapsto> rp_data page)"
    using put_law [OF Cons.prems(1) page(3)] page(2) p page_body_other [OF p(2)] by auto
  obtain s' where s': "put_chunks S ids (chunks OVERFLOW_CAP (drop OVERFLOW_CAP data)) s1 = Ok s'" "inv s'"
      "avail s' = avail s1" "chain_rep (view s') ?np ids (drop OVERFLOW_CAP data)"
      "\<And>q. q \<notin> set ids \<Longrightarrow> view s' q = view s1 q"
    using Cons.IH [OF s1(2), of "drop OVERFLOW_CAP data"] Cons.prems(2-4) ch by auto
  have "view s' p = Some (rp_data page)" using s'(5) [of p] s1(4) Cons.prems(3) by simp
  moreover have "length ?chunk = min (length data) OVERFLOW_CAP" by simp
  ultimately have "chain_rep (view s') p (p # ids) data"
    using p ne page(3-5) s'(4) by (auto simp: page_wf_def)
  moreover have "put_chunks S (p # ids) (chunks OVERFLOW_CAP data) s = Ok s'"
    using ch page(1) s1(1) s'(1) by (simp add: Let_def)
  moreover have "\<forall>q. q \<notin> set (p # ids) \<longrightarrow> view s' q = view s q" using s'(5) s1(4) by auto
  ultimately show ?case using s'(2,3) s1(3) by auto
qed

lemma write_overflow_ok:
  assumes "inv s" and "tail \<noteq> []" and "length (chunks OVERFLOW_CAP tail) \<le> card (avail s)"
  shows "\<exists>first ids s'. write_overflow S s tail = Ok (first, s') \<and> inv s'
     \<and> chain_rep (view s') first ids tail \<and> ids \<noteq> [] \<and> distinct ids
     \<and> length ids = length (chunks OVERFLOW_CAP tail)
     \<and> set ids \<subseteq> avail s \<and> avail s' = avail s - set ids
     \<and> (\<forall>q. q \<notin> set ids \<longrightarrow> view s' q = view s q)"
proof -
  let ?cs = "chunks OVERFLOW_CAP tail"
  have ne: "?cs \<noteq> []" using assms(2) chunks_eq_Nil [of OVERFLOW_CAP tail] by (simp add: OVERFLOW_CAP_eq)
  obtain ids s1 where a: "alloc_pages S (length ?cs) s = Ok (ids, s1)" "length ids = length ?cs" "distinct ids"
      "set ids \<subseteq> avail s" "avail s1 = avail s - set ids" "inv s1" "view s1 = view s"
    using alloc_pages_ok [OF assms(1,3)] by blast
  have "\<forall>p\<in>set ids. p \<noteq> 0 \<and> p \<noteq> 1" using a(4) avail_valid [OF assms(1)] by blast
  then obtain s' where s': "put_chunks S ids ?cs s1 = Ok s'" "inv s'" "avail s' = avail s1"
      "chain_rep (view s') (case ids of [] \<Rightarrow> 0 | q # _ \<Rightarrow> q) ids tail"
      "\<forall>q. q \<notin> set ids \<longrightarrow> view s' q = view s1 q"
    using put_chunks_ok [OF a(6,2,3)] by blast
  obtain q qs where q: "ids = q # qs" using ne a(2) by (cases ids) auto
  have "write_overflow S s tail = Ok (q, s')"
    using a(1) s'(1) q by (simp add: write_overflow_def Let_def index_at_def)
  then show ?thesis
    using s' a q by (intro exI [of _ q] exI [of _ ids] exI [of _ s']) auto
qed

lemma free_chain_ok:
  assumes "inv s" and "chain_rep (view s) nx ps data" and "length ps \<le> fuel" and "distinct ps"
    and "set ps \<inter> avail s = {}"
  shows "\<exists>s'. free_overflow_chain S fuel s nx = Ok s' \<and> inv s' \<and> avail s' = avail s \<union> set ps
     \<and> (\<forall>q. q \<notin> set ps \<longrightarrow> view s' q = view s q)"
  using assms
proof (induction ps arbitrary: nx data s fuel)
  case Nil
  then show ?case by (cases fuel) auto
next
  case (Cons p ps)
  then obtain f where f: "fuel = Suc f" by (cases fuel) auto
  from Cons.prems(2) obtain b np where c: "nx = p" "p \<noteq> 0" "p \<noteq> 1" "view s p = Some b"
      "length b = PAGE_SIZE" "take 4 b = u32_be np"
      "chain_rep (view s) np ps (drop OVERFLOW_CAP data)"
    by auto
  obtain page s1 where g: "po_get S s p = Ok (page, s1)" "rp_data page = b" "inv s1" "view s1 = view s"
    using get_law [OF Cons.prems(1) c(4)] page_body_other [OF c(3)] by auto
  have av1: "avail s1 = avail s" using get_avail [OF Cons.prems(1) g(1)] .
  have np: "read_u32 b 0 = (Ok np :: u32 sres)"
    using c(5,6) by (simp add: read_u32_slice slice_def OVERFLOW_CAP_eq)
  obtain s2 where s2: "po_free S s1 p = Ok s2" "inv s2" "avail s2 = insert p (avail s)"
      "\<And>q. q \<noteq> p \<Longrightarrow> view s2 q = view s q"
    using free_law [OF g(3), of p] Cons.prems(5) c(2,3) av1 g(4) by auto
  have "chain_rep (view s2) np ps (drop OVERFLOW_CAP data)"
  proof (subst chain_rep_cong [of ps "view s2" "view s"])
    show "view s2 q = view s q" if "q \<in> set ps" for q
      using s2(4) [of q] Cons.prems(4) that by (cases "q = p") auto
  qed (rule c(7))
  moreover have "set ps \<inter> avail s2 = {}" using Cons.prems(4,5) s2(3) by auto
  ultimately obtain s' where "free_overflow_chain S f s2 np = Ok s'" "inv s'"
      "avail s' = avail s2 \<union> set ps" "\<forall>q. q \<notin> set ps \<longrightarrow> view s' q = view s2 q"
    using Cons.IH [OF s2(2), of np "drop OVERFLOW_CAP data" f] Cons.prems(3,4) f by auto
  then show ?case using f c(1,2) g np s2 by auto
qed

text \<open>A record becomes a cell; a long one takes its overflow pages from the free ones.\<close>

lemma make_cell_ok:
  assumes "inv s" and "length record < 2 ^ 64" and "overflow_pages record \<le> card (avail s)"
  shows "\<exists>c ids s'. make_cell S s rowid record = Ok (c, s') \<and> inv s' \<and> lc_rowid c = rowid
     \<and> cell_rep (view s') c record ids \<and> distinct ids \<and> length ids = overflow_pages record
     \<and> lc_payload_len c = word_of_nat (length record)
     \<and> length (lc_inline c) = inline_len_for (word_of_nat (length record))
     \<and> (lc_overflow c \<noteq> 0 \<longleftrightarrow> USABLE - 35 < length record)
     \<and> set ids \<subseteq> avail s \<and> avail s' = avail s - set ids
     \<and> (\<forall>q. q \<notin> set ids \<longrightarrow> view s' q = view s q)"
proof -
  let ?p = "word_of_nat (length record) :: u64"
  have p: "unat ?p = length record" using assms(2) by (simp add: unat_of_nat)
  show ?thesis
  proof (cases "length record \<le> USABLE - 35")
    case True
    then show ?thesis
      using assms(1) p by (simp add: make_cell_def cell_rep_def cell_wf_def overflow_pages_def inline_len_for_def Let_def)
  next
    case False
    let ?n = "inline_len_for ?p"
    have n: "?n < length record" "?n \<le> USABLE - 35"
      using inline_len_for_bounds [of ?p] False p by auto
    then have ne: "drop ?n record \<noteq> []" by simp
    obtain first ids s' where w: "write_overflow S s (drop ?n record) = Ok (first, s')" "inv s'"
        "chain_rep (view s') first ids (drop ?n record)" "ids \<noteq> []" "distinct ids"
        "length ids = length (chunks OVERFLOW_CAP (drop ?n record))"
        "set ids \<subseteq> avail s" "avail s' = avail s - set ids" "\<forall>q. q \<notin> set ids \<longrightarrow> view s' q = view s q"
      using write_overflow_ok [OF assms(1) ne] assms(3) False by (auto simp: overflow_pages_def)
    let ?c = "\<lparr>lc_rowid = rowid, lc_payload_len = ?p, lc_overflow = first, lc_inline = take ?n record\<rparr>"
    have f0: "first \<noteq> 0" using w(3,4) by (cases ids) auto
    have "make_cell S s rowid record = Ok (?c, s')"
      using False n w(1) by (simp add: make_cell_def Let_def slice_range_def slice_def)
    moreover have "cell_rep (view s') ?c record ids"
      using False p f0 n w(3,4) by (simp add: cell_rep_def cell_wf_def)
    ultimately show ?thesis
      using w n f0 False by (intro exI [of _ ?c] exI [of _ ids] exI [of _ s']) (auto simp: overflow_pages_def)
  qed
qed

end

end
