(* ===== verification/BTreeModel.thy ===== *)
theory BTreeModel
  imports PageStore
begin

text \<open>
  The abstract side of the b-tree: the tree a root page stands for, with its pages,
  its entries in order and the separator intervals, and when a page store holds such a
  tree. No code is modelled here; these are the notions in which the correctness of
  \<open>btree/mod.rs\<close> and \<open>btree/cursor.rs\<close> is stated.
\<close>

section \<open>Trees\<close>

text \<open>An entry is a leaf cell with the value it stands for and its overflow pages.\<close>

type_synonym entry = "leaf_cell \<times> bytes \<times> page_id list"

abbreviation entry_key :: "entry \<Rightarrow> i64" where "entry_key e \<equiv> lc_rowid (fst e)"
abbreviation entry_val :: "entry \<Rightarrow> bytes" where "entry_val e \<equiv> fst (snd e)"
abbreviation entry_chain :: "entry \<Rightarrow> page_id list" where "entry_chain e \<equiv> snd (snd e)"

datatype btree = TLeaf page_id "entry list" | TNode page_id "(btree \<times> i64) list" btree

fun root_of :: "btree \<Rightarrow> page_id" where
  "root_of (TLeaf p es) = p"
| "root_of (TNode p cs r) = p"

fun set_root :: "page_id \<Rightarrow> btree \<Rightarrow> btree" where
  "set_root q (TLeaf p es) = TLeaf q es"
| "set_root q (TNode p cs r) = TNode q cs r"

fun entries :: "btree \<Rightarrow> entry list" where
  "entries (TLeaf p es) = es"
| "entries (TNode p cs r) = concat (map (\<lambda>c. entries (fst c)) cs) @ entries r"

fun pages :: "btree \<Rightarrow> page_id list" where
  "pages (TLeaf p es) = p # concat (map entry_chain es)"
| "pages (TNode p cs r) = p # concat (map (\<lambda>c. pages (fst c)) cs) @ pages r"

fun height :: "btree \<Rightarrow> nat" where
  "height (TLeaf p es) = 0"
| "height (TNode p cs r) = Suc (fold max (map (\<lambda>c. height (fst c)) cs) (height r))"

abbreviation kids_entries :: "(btree \<times> i64) list \<Rightarrow> entry list" where
  "kids_entries cs \<equiv> concat (map (\<lambda>c. entries (fst c)) cs)"

abbreviation kids_pages :: "(btree \<times> i64) list \<Rightarrow> page_id list" where
  "kids_pages cs \<equiv> concat (map (\<lambda>c. pages (fst c)) cs)"

text \<open>The node a tree has in its root page.\<close>

definition inode :: "(btree \<times> i64) list \<Rightarrow> btree \<Rightarrow> interior_node" where
  "inode cs r = \<lparr>in_cells = map (\<lambda>c. (root_of (fst c), snd c)) cs, in_right_child = root_of r\<rparr>"

fun node_of :: "btree \<Rightarrow> node" where
  "node_of (TLeaf p es) = NLeaf \<lparr>ln_cells = map fst es\<rparr>"
| "node_of (TNode p cs r) = NInterior (inode cs r)"

section \<open>Key order\<close>

text \<open>
  \<open>ordered lo hi t\<close>: the keys of \<open>t\<close> lie in the interval from \<open>lo\<close> (excluded) to \<open>hi\<close>
  (included) and each child keeps to the interval its separators give it.
\<close>

definition bound :: "int \<Rightarrow> (btree \<times> i64) list \<Rightarrow> int" where
  "bound lo cs = (if cs = [] then lo else int_of_i64 (snd (last cs)))"

fun ordered :: "int \<Rightarrow> int \<Rightarrow> btree \<Rightarrow> bool"
  and kids_ordered :: "int \<Rightarrow> (btree \<times> i64) list \<Rightarrow> bool" where
  "ordered lo hi (TLeaf p es) \<longleftrightarrow>
     sorted_wrt (<) (map entry_key es)
     \<and> (\<forall>e\<in>set es. lo < int_of_i64 (entry_key e) \<and> int_of_i64 (entry_key e) \<le> hi)"
| "ordered lo hi (TNode p cs r) \<longleftrightarrow>
     kids_ordered lo cs \<and> bound lo cs \<le> hi \<and> ordered (bound lo cs) hi r"
| "kids_ordered lo [] \<longleftrightarrow> True"
| "kids_ordered lo ((t, k) # cs) \<longleftrightarrow>
     lo \<le> int_of_i64 k \<and> ordered lo (int_of_i64 k) t \<and> kids_ordered (int_of_i64 k) cs"

lemma bound_simps [simp]:
  "bound lo [] = lo" "bound lo (cs @ [c]) = int_of_i64 (snd c)"
  by (simp_all add: bound_def)

lemma bound_append [simp]: "bound lo (cs @ ds) = bound (bound lo cs) ds"
  by (simp add: bound_def)

lemma bound_Cons [simp]: "bound lo (c # cs) = bound (int_of_i64 (snd c)) cs"
  by (simp add: bound_def)

lemma kids_ordered_append [simp]:
  "kids_ordered lo (cs @ ds) \<longleftrightarrow> kids_ordered lo cs \<and> kids_ordered (bound lo cs) ds"
proof (induction cs arbitrary: lo)
  case (Cons c cs)
  obtain t k where c: "c = (t, k)" by (cases c)
  show ?case unfolding c by (simp add: Cons.IH conj_assoc)
qed simp

lemma kids_ordered_bound: "kids_ordered lo cs \<Longrightarrow> lo \<le> bound lo cs"
proof (induction cs arbitrary: lo)
  case (Cons c cs)
  obtain t k where c: "c = (t, k)" by (cases c)
  then have "int_of_i64 k \<le> bound (int_of_i64 k) cs" "lo \<le> int_of_i64 k" using Cons by simp_all
  with c show ?case by simp
qed simp

abbreviation in_bounds :: "int \<Rightarrow> int \<Rightarrow> entry list \<Rightarrow> bool" where
  "in_bounds lo hi es \<equiv> \<forall>e\<in>set es. lo < int_of_i64 (entry_key e) \<and> int_of_i64 (entry_key e) \<le> hi"

lemma sorted_entries_append:
  assumes "sorted_wrt (<) (map entry_key es)" and "sorted_wrt (<) (map entry_key fs)"
    and "in_bounds lo m es" and "in_bounds m hi fs"
  shows "sorted_wrt (<) (map entry_key (es @ fs))"
  using assms by (fastforce simp: sorted_wrt_append less_i64_def)

lemma ordered_entries:
  "ordered lo hi t \<Longrightarrow> sorted_wrt (<) (map entry_key (entries t)) \<and> in_bounds lo hi (entries t)"
  "kids_ordered lo cs \<Longrightarrow>
     sorted_wrt (<) (map entry_key (kids_entries cs)) \<and> in_bounds lo (bound lo cs) (kids_entries cs)"
proof (induction lo hi t and lo cs rule: ordered_kids_ordered.induct)
  case (2 lo hi p cs r)
  let ?m = "bound lo cs"
  have k: "sorted_wrt (<) (map entry_key (kids_entries cs))" "in_bounds lo ?m (kids_entries cs)"
    and r: "sorted_wrt (<) (map entry_key (entries r))" "in_bounds ?m hi (entries r)"
    using "2.IH" "2.prems" by simp_all
  have "lo \<le> ?m" using "2.prems" kids_ordered_bound by simp
  with sorted_entries_append [OF k(1) r(1) k(2) r(2)] k(2) r(2) "2.prems" show ?case by fastforce
next
  case (4 lo t k cs)
  let ?m = "int_of_i64 k"
  have t: "sorted_wrt (<) (map entry_key (entries t))" "in_bounds lo ?m (entries t)"
    and c: "sorted_wrt (<) (map entry_key (kids_entries cs))" "in_bounds ?m (bound ?m cs) (kids_entries cs)"
    using "4.IH" "4.prems" by simp_all
  have "?m \<le> bound ?m cs" "lo \<le> ?m" using "4.prems" kids_ordered_bound by simp_all
  with sorted_entries_append [OF t(1) c(1) t(2) c(2)] t(2) c(2) show ?case by fastforce
qed auto

lemma ordered_set_root [simp]: "ordered lo hi (set_root q t) = ordered lo hi t"
  by (cases t) simp_all

lemma entries_set_root [simp]: "entries (set_root q t) = entries t"
  by (cases t) simp_all

lemma root_set_root [simp]: "root_of (set_root q t) = q"
  by (cases t) simp_all

lemma height_set_root [simp]: "height (set_root q t) = height t"
  by (cases t) simp_all

lemma node_of_set_root [simp]: "node_of (set_root q t) = node_of t"
  by (cases t) simp_all

lemma pages_root: "pages t = root_of t # tl (pages t)"
  by (cases t) simp_all

lemma pages_set_root [simp]: "pages (set_root q t) = q # tl (pages t)"
  by (cases t) simp_all

section \<open>Heights\<close>

lemma fold_max_ge: "a \<le> fold max xs (a :: nat)"
  by (induction xs arbitrary: a) (auto intro: le_trans [OF max.cobounded2])

lemma fold_max_mem: "x \<in> set xs \<Longrightarrow> x \<le> fold max xs (a :: nat)"
proof (induction xs arbitrary: a)
  case (Cons y xs)
  have "max y a \<le> fold max xs (max y a)" by (rule fold_max_ge)
  with Cons show ?case by fastforce
qed simp

lemma fold_max_le: "fold max xs (a :: nat) \<le> n \<longleftrightarrow> a \<le> n \<and> (\<forall>x\<in>set xs. x \<le> n)"
  by (induction xs arbitrary: a) auto

lemma height_TNode_le:
  "height (TNode p cs r) \<le> Suc n \<longleftrightarrow> height r \<le> n \<and> (\<forall>c\<in>set cs. height (fst c) \<le> n)"
  by (auto simp: fold_max_le)

lemma height_child:
  "c \<in> set cs \<Longrightarrow> height (fst c) < height (TNode p cs r)" "height r < height (TNode p cs r)"
  using fold_max_mem [of "height (fst c)" "map (\<lambda>c. height (fst c)) cs" "height r"]
    fold_max_ge [of "height r" "map (\<lambda>c. height (fst c)) cs"]
  by (auto simp: less_Suc_eq_le)

declare height.simps(2) [simp del]

section \<open>Routing\<close>

text \<open>
  The child that \<open>child_for\<close>, \<open>key_position\<close> and the cursor choose: the first whose
  separator is at least the key, else the right child.
\<close>

lemma route_cases:
  obtains (cell) as t k bs where "cs = as @ (t, k) # bs" "\<forall>c\<in>set as. snd c < rowid" "rowid \<le> k"
      "key_position (in_cells (inode cs r)) rowid = Some (length as)"
      "child_for (inode cs r) rowid = root_of t"
  | (right) "\<forall>c\<in>set cs. snd c < rowid" "key_position (in_cells (inode cs r)) rowid = None"
      "child_for (inode cs r) rowid = root_of r"
proof -
  have "(\<exists>as t k bs. cs = as @ (t, k) # bs \<and> (\<forall>c\<in>set as. snd c < rowid) \<and> rowid \<le> k
      \<and> key_position (in_cells (inode cs r)) rowid = Some (length as)
      \<and> child_for (inode cs r) rowid = root_of t)
    \<or> (\<forall>c\<in>set cs. snd c < rowid) \<and> key_position (in_cells (inode cs r)) rowid = None
      \<and> child_for (inode cs r) rowid = root_of r"
  proof (induction cs)
    case Nil
    then show ?case by (simp add: inode_def child_for_def)
  next
    case (Cons c cs)
    obtain t k where c: "c = (t, k)" by (cases c)
    show ?case
    proof (cases "rowid \<le> k")
      case True
      then show ?thesis using c by (intro disjI1 exI [of _ "[]"]) (simp add: inode_def child_for_def)
    next
      case False
      from Cons show ?thesis
      proof (elim disjE exE conjE)
        fix as t' k' bs
        assume h: "cs = as @ (t', k') # bs" "\<forall>c\<in>set as. snd c < rowid" "rowid \<le> k'"
          "key_position (in_cells (inode cs r)) rowid = Some (length as)"
          "child_for (inode cs r) rowid = root_of t'"
        show ?thesis
          using False c h by (intro disjI1 exI [of _ "c # as"]) (simp add: inode_def child_for_def not_le)
      next
        assume "\<forall>c\<in>set cs. snd c < rowid" "key_position (in_cells (inode cs r)) rowid = None"
          "child_for (inode cs r) rowid = root_of r"
        then show ?thesis using False c by (intro disjI2) (simp add: inode_def child_for_def not_le)
      qed
    qed
  qed
  then show thesis using cell right by blast
qed

text \<open>The keys on either side of the chosen child.\<close>

lemma bound_less:
  assumes "\<forall>c\<in>set as. snd c < rowid" and "lo < int_of_i64 rowid"
  shows "bound lo as < int_of_i64 rowid"
proof (cases as rule: rev_cases)
  case Nil
  with assms(2) show ?thesis by simp
next
  case (snoc as' c)
  with assms(1) show ?thesis by (simp add: less_i64_def)
qed

lemma left_of_route:
  assumes "kids_ordered lo as" and "\<forall>c\<in>set as. snd c < rowid" and "lo < int_of_i64 rowid"
  shows "\<forall>e\<in>set (kids_entries as). entry_key e < rowid"
proof
  fix e assume "e \<in> set (kids_entries as)"
  then have "int_of_i64 (entry_key e) \<le> bound lo as" using ordered_entries(2) [OF assms(1)] by blast
  then show "entry_key e < rowid" using bound_less [OF assms(2,3)] by (simp add: less_i64_def)
qed

lemma right_of_route:
  assumes "kids_ordered (int_of_i64 k) bs" and "ordered (bound (int_of_i64 k) bs) hi r" and "rowid \<le> k"
  shows "\<forall>e\<in>set (kids_entries bs @ entries r). rowid < entry_key e"
proof
  fix e assume "e \<in> set (kids_entries bs @ entries r)"
  then have "int_of_i64 k < int_of_i64 (entry_key e)"
    using ordered_entries(2) [OF assms(1)] ordered_entries(1) [OF assms(2)] kids_ordered_bound [OF assms(1)]
    by fastforce
  then show "rowid < entry_key e" using assms(3) by (simp add: less_i64_def less_eq_i64_def)
qed

section \<open>Lookup, insertion and removal of entries\<close>

definition lookup :: "entry list \<Rightarrow> i64 \<Rightarrow> bytes option" where
  "lookup es k = map_of (map (\<lambda>e. (entry_key e, entry_val e)) es) k"

definition ins_entry :: "entry \<Rightarrow> entry list \<Rightarrow> entry list" where
  "ins_entry e es = filter (\<lambda>x. entry_key x < entry_key e) es @ e # filter (\<lambda>x. entry_key e < entry_key x) es"

definition del_entry :: "i64 \<Rightarrow> entry list \<Rightarrow> entry list" where
  "del_entry k es = filter (\<lambda>x. entry_key x \<noteq> k) es"

lemma lookup_append: "lookup (es @ fs) k = (case lookup es k of None \<Rightarrow> lookup fs k | Some v \<Rightarrow> Some v)"
  by (simp add: lookup_def map_add_def map_of_append split: option.split)

lemma lookup_None: "\<forall>e\<in>set es. entry_key e \<noteq> k \<Longrightarrow> lookup es k = None"
  by (auto simp: lookup_def map_of_eq_None_iff)

lemma lookup_middle:
  assumes "\<forall>e\<in>set L. entry_key e < k" and "\<forall>e\<in>set R. k < entry_key e"
  shows "lookup (L @ es @ R) k = lookup es k"
proof -
  have "lookup L k = None" "lookup R k = None" using assms by (force intro: lookup_None)+
  then show ?thesis by (simp add: lookup_append split: option.split)
qed

lemma lookup_ins: "lookup (ins_entry e es) k = (if k = entry_key e then Some (entry_val e) else lookup es k)"
proof -
  have "lookup (filter P es) k = lookup es k" if "\<forall>x. entry_key x = k \<longrightarrow> P x" for P
    using that by (induction es) (auto simp: lookup_def)
  moreover have l: "lookup (filter P es) k = None" if "\<forall>x. entry_key x = k \<longrightarrow> \<not> P x" for P
    using that by (intro lookup_None) auto
  moreover have "lookup (e # es) k = (if k = entry_key e then Some (entry_val e) else lookup es k)" for es
    by (simp add: lookup_def)
  ultimately show ?thesis
    by (cases "k < entry_key e"; cases "entry_key e < k") (auto simp: ins_entry_def lookup_append split: option.split)
qed

lemma lookup_del: "lookup (del_entry k es) k' = (if k' = k then None else lookup es k')"
  by (induction es) (auto simp: del_entry_def lookup_def)

lemma ins_middle:
  assumes "\<forall>x\<in>set L. entry_key x < entry_key e" and "\<forall>x\<in>set R. entry_key e < entry_key x"
  shows "ins_entry e (L @ es @ R) = L @ ins_entry e es @ R"
proof -
  have "filter (\<lambda>x. entry_key x < entry_key e) L = L" "filter (\<lambda>x. entry_key e < entry_key x) L = []"
    "filter (\<lambda>x. entry_key e < entry_key x) R = R" "filter (\<lambda>x. entry_key x < entry_key e) R = []"
    using assms by (auto simp: filter_id_conv filter_empty_conv dest: less_asym)
  then show ?thesis by (simp add: ins_entry_def)
qed

lemma del_middle:
  assumes "\<forall>x\<in>set L. entry_key x < k" and "\<forall>x\<in>set R. k < entry_key x"
  shows "del_entry k (L @ es @ R) = L @ del_entry k es @ R"
proof -
  have "del_entry k L = L" "del_entry k R = R"
    using assms unfolding del_entry_def by (auto simp: filter_id_conv)
  then show ?thesis by (simp add: del_entry_def)
qed

section \<open>A tree in a page store\<close>

text \<open>
  \<open>tree_rep\<close>: the nodes of a tree are on its pages, with their records. Every cell takes at most \<open>SMALL_CELL\<close> = 512
  bytes of its leaf. The code has no such bound, but it is what makes every split fit its pages: with
  larger cells a half may not fit (\<open>split_leaf_may_overflow\<close>), so tables with such rows are outside
  all statements about trees.
\<close>

fun tree_rep :: "(page_id \<Rightarrow> bytes option) \<Rightarrow> btree \<Rightarrow> bool" where
  "tree_rep vw (TLeaf p es) \<longleftrightarrow>
     p \<noteq> 0 \<and> (\<exists>b. vw p = Some b \<and> node_at p b (node_of (TLeaf p es)))
     \<and> leaf_fits \<lparr>ln_cells = map fst es\<rparr> p
     \<and> (\<forall>e\<in>set es. cell_rep vw (fst e) (entry_val e) (entry_chain e) \<and> encoded_len (fst e) \<le> SMALL_CELL)"
| "tree_rep vw (TNode p cs r) \<longleftrightarrow>
     p \<noteq> 0 \<and> (\<exists>b. vw p = Some b \<and> node_at p b (node_of (TNode p cs r)))
     \<and> interior_fits (inode cs r) p
     \<and> (\<forall>c\<in>set cs. tree_rep vw (fst c)) \<and> tree_rep vw r"

lemma tree_rep_cong:
  "(\<And>p. p \<in> set (pages t) \<Longrightarrow> vw p = vw' p) \<Longrightarrow> tree_rep vw t \<longleftrightarrow> tree_rep vw' t"
proof (induction t)
  case (TLeaf p es)
  have "cell_rep vw (fst e) (entry_val e) (entry_chain e) = cell_rep vw' (fst e) (entry_val e) (entry_chain e)"
    if "e \<in> set es" for e
    using TLeaf that by (intro cell_rep_cong) auto
  with TLeaf show ?case by auto
next
  case (TNode p cs r)
  have "tree_rep vw (fst c) = tree_rep vw' (fst c)" if "c \<in> set cs" for c
    using that TNode.prems by (intro TNode.IH(1) [of c "fst c"]) (auto simp: prod_set_defs)
  moreover have "tree_rep vw r = tree_rep vw' r" using TNode.prems by (intro TNode.IH(2)) auto
  moreover have "vw p = vw' p" using TNode.prems by simp
  ultimately show ?case by auto
qed

lemma tree_rep_root:
  "tree_rep vw t \<Longrightarrow> root_of t \<noteq> 0 \<and> (\<exists>b. vw (root_of t) = Some b \<and> node_at (root_of t) b (node_of t))"
  by (cases t) simp_all

lemma tree_rep_entries:
  "tree_rep vw t \<Longrightarrow> e \<in> set (entries t) \<Longrightarrow>
   cell_rep vw (fst e) (entry_val e) (entry_chain e) \<and> encoded_len (fst e) \<le> SMALL_CELL"
  by (induction vw t rule: tree_rep.induct) auto

lemma chain_in_pages: "e \<in> set (entries t) \<Longrightarrow> set (entry_chain e) \<subseteq> set (tl (pages t))"
proof (induction t)
  case (TNode p cs r)
  then consider c where "c \<in> set cs" "e \<in> set (entries (fst c))" | "e \<in> set (entries r)" by auto
  then show ?case
  proof cases
    case 1
    then have "set (entry_chain e) \<subseteq> set (tl (pages (fst c)))"
      using TNode.IH(1) [of c "fst c"] by (auto simp: prod_set_defs)
    also have "\<dots> \<subseteq> set (pages (fst c))" by (cases "pages (fst c)") auto
    finally show ?thesis using 1(1) by auto
  next
    case 2
    then have "set (entry_chain e) \<subseteq> set (tl (pages r))" using TNode.IH(2) by simp
    also have "\<dots> \<subseteq> set (pages r)" by (cases "pages r") auto
    finally show ?thesis by auto
  qed
qed auto

text \<open>
  \<open>tree_ok vw av lo hi t\<close>: the store holds \<open>t\<close>, its pages are disjoint and allocated, and
  only the root may be page 1.
\<close>

definition tree_ok :: "(page_id \<Rightarrow> bytes option) \<Rightarrow> page_id set \<Rightarrow> int \<Rightarrow> int \<Rightarrow> btree \<Rightarrow> bool" where
  "tree_ok vw av lo hi t \<longleftrightarrow> tree_rep vw t \<and> ordered lo hi t \<and> distinct (pages t)
     \<and> set (pages t) \<inter> av = {} \<and> 1 \<notin> set (tl (pages t))"

text \<open>Fuel that suffices for a descent and for reading or freeing one overflow chain.\<close>

definition fuel_ok :: "nat \<Rightarrow> btree \<Rightarrow> bool" where
  "fuel_ok fuel t \<longleftrightarrow> height t < fuel \<and> (\<forall>e\<in>set (entries t). height t + length (entry_chain e) < fuel)"

end
