(* ===== verification/BTreeRead.thy ===== *)
theory BTreeRead
  imports BTreeModel
begin

text \<open>
  The reading side of the b-tree, for every page store that honours the reader's
  contract: a lookup finds exactly the entries of the tree, \<open>last_key\<close> looks at the
  rightmost leaf, and the cursor enumerates the entries from a key in order.
\<close>

section \<open>Leaves\<close>

lemma node_of_leaf: "node_of (TLeaf p es) = NLeaf \<lparr>ln_cells = map fst es\<rparr>"
  by simp

lemma lookup_nth:
  assumes "sorted_wrt (<) (map entry_key es)" and "i < length es"
  shows "lookup es (entry_key (es ! i)) = Some (entry_val (es ! i))"
proof -
  have "distinct (map entry_key es)" using assms(1) strict_sorted_iff by blast
  then have "distinct (map fst (map (\<lambda>e. (entry_key e, entry_val e)) es))" by (simp add: o_def)
  then show ?thesis unfolding lookup_def using assms(2) by (intro map_of_is_SomeI) auto
qed

lemma leaf_search_cases:
  assumes "sorted_wrt (<) (map entry_key es)"
  obtains (found) i where "leaf_search \<lparr>ln_cells = map fst es\<rparr> k = Found i" "i < length es"
      "entry_key (es ! i) = k" "lookup es k = Some (entry_val (es ! i))"
  | (absent) i where "leaf_search \<lparr>ln_cells = map fst es\<rparr> k = NotFound i" "i \<le> length es"
      "\<forall>e\<in>set (take i es). entry_key e < k" "\<forall>e\<in>set (drop i es). k < entry_key e" "lookup es k = None"
proof (cases "leaf_search \<lparr>ln_cells = map fst es\<rparr> k")
  case (Found i)
  have i: "i < length es" "entry_key (es ! i) = k"
    using leaf_search_Found [OF Found] by auto
  with lookup_nth [OF assms i(1)] Found show thesis by (intro found) auto
next
  case (NotFound i)
  have s: "sorted_wrt (<) (cell_keys (ln_cells \<lparr>ln_cells = map fst es\<rparr>))" using assms by (simp add: o_def)
  have i: "i \<le> length es" "\<And>j. j < i \<Longrightarrow> entry_key (es ! j) < k"
    "\<And>j. i \<le> j \<Longrightarrow> j < length es \<Longrightarrow> k < entry_key (es ! j)"
    using leaf_search_NotFound [OF NotFound s] by auto
  have t: "\<forall>e\<in>set (take i es). entry_key e < k" using i(1,2) by (force simp: in_set_conv_nth)
  have d: "\<forall>e\<in>set (drop i es). k < entry_key e"
  proof
    fix e assume "e \<in> set (drop i es)"
    then obtain j where "j < length es - i" "e = es ! (i + j)" using i(1) by (auto simp: in_set_conv_nth)
    then show "k < entry_key e" using i(3) [of "i + j"] by simp
  qed
  have "lookup es k = lookup (take i es @ [] @ drop i es) k" by simp
  also have "\<dots> = None" using lookup_middle [OF t d, of "[]"] by (simp add: lookup_def)
  finally show thesis using NotFound i(1) t d by (intro absent)
qed

lemma fuel_ok_child:
  assumes "fuel_ok (Suc f) (TNode p cs r)"
  shows "c \<in> set cs \<Longrightarrow> fuel_ok f (fst c)" and "fuel_ok f r"
proof -
  have h: "height (TNode p cs r) < Suc f"
    "\<And>e. e \<in> set (entries (TNode p cs r)) \<Longrightarrow> height (TNode p cs r) + length (entry_chain e) < Suc f"
    using assms by (auto simp: fuel_ok_def)
  show "fuel_ok f (fst c)" if "c \<in> set cs"
    unfolding fuel_ok_def
  proof (intro conjI ballI)
    show "height (fst c) < f" using h(1) height_child(1) [OF that, of p r] by linarith
    fix e assume "e \<in> set (entries (fst c))"
    then have "e \<in> set (entries (TNode p cs r))" using that by auto
    then show "height (fst c) + length (entry_chain e) < f"
      using h(2) [of e] height_child(1) [OF that, of p r] by linarith
  qed
  show "fuel_ok f r"
    unfolding fuel_ok_def
  proof (intro conjI ballI)
    show "height r < f" using h(1) height_child(2) [of r p cs] by linarith
    fix e assume "e \<in> set (entries r)"
    then have "e \<in> set (entries (TNode p cs r))" by auto
    then show "height r + length (entry_chain e) < f"
      using h(2) [of e] height_child(2) [of r p cs] by linarith
  qed
qed

lemma fuel_ok_leaf:
  assumes "fuel_ok (Suc f) (TLeaf p es)" and "e \<in> set es"
  shows "length (entry_chain e) \<le> f"
  using assms by (auto simp: fuel_ok_def)

section \<open>Lookup\<close>

context page_reader begin

lemma get_root:
  assumes "inv s" and "tree_rep (view s) t"
  shows "\<exists>s'. get_node S s (root_of t) = Ok (node_of t, s') \<and> inv s' \<and> view s' = view s"
  using tree_rep_root [OF assms(2)] get_node_ok [OF assms(1)] by blast

lemma btree_get_ok:
  assumes "inv s" and "tree_rep (view s) t" and "ordered lo hi t" and "lo < int_of_i64 k"
    and "fuel_ok fuel t"
  shows "\<exists>s'. btree_get S fuel (root_of t) s k = Ok (lookup (entries t) k, s') \<and> inv s' \<and> view s' = view s"
  using assms
proof (induction fuel arbitrary: t s lo hi)
  case 0
  then show ?case by (simp add: fuel_ok_def)
next
  case (Suc f)
  obtain s1 where g: "get_node S s (root_of t) = Ok (node_of t, s1)" "inv s1" "view s1 = view s"
    using get_root [OF Suc.prems(1,2)] by blast
  show ?case
  proof (cases t)
    case (TLeaf p es)
    have "sorted_wrt (<) (map entry_key es)" using Suc.prems(3) TLeaf by simp
    then show ?thesis
    proof (cases rule: leaf_search_cases [where k = k])
      case (found i)
      have e: "es ! i \<in> set es" using found(2) by simp
      then have "cell_rep (view s1) (fst (es ! i)) (entry_val (es ! i)) (entry_chain (es ! i))"
        using Suc.prems(2) TLeaf g(3) by auto
      moreover have "length (entry_chain (es ! i)) \<le> f" using fuel_ok_leaf Suc.prems(5) TLeaf e by blast
      ultimately obtain s' where "read_value S f s1 (fst (es ! i)) = Ok (entry_val (es ! i), s')"
          "inv s'" "view s' = view s1"
        using read_value_ok [OF g(2)] by blast
      then show ?thesis using g TLeaf found by (simp add: index_at_def)
    next
      case (absent i)
      then show ?thesis using g TLeaf by simp
    qed
  next
    case (TNode p cs r)
    show ?thesis
    proof (cases rule: route_cases [of cs k r])
      case (cell as t' k' bs)
      have o: "kids_ordered lo as" "ordered (bound lo as) (int_of_i64 k') t'"
          "kids_ordered (int_of_i64 k') bs" "ordered (bound (int_of_i64 k') bs) hi r"
        using Suc.prems(3) TNode cell(1) by auto
      have "tree_rep (view s1) t'" "fuel_ok f t'"
        using Suc.prems(2,5) TNode cell(1) g(3) fuel_ok_child(1) [of f p cs r "(t', k')"] by auto
      then obtain s' where s': "btree_get S f (root_of t') s1 k = Ok (lookup (entries t') k, s')" "inv s'" "view s' = view s1"
        using Suc.IH [OF g(2) _ o(2) bound_less [OF cell(2) Suc.prems(4)]] by blast
      have "lookup (entries t) k = lookup (entries t') k"
        using lookup_middle [OF left_of_route [OF o(1) cell(2) Suc.prems(4)] right_of_route [OF o(3,4) cell(3)]]
          TNode cell(1) by simp
      then show ?thesis using s' g TNode cell(5) by simp
    next
      case right
      have o: "kids_ordered lo cs" "ordered (bound lo cs) hi r" using Suc.prems(3) TNode by auto
      have "tree_rep (view s1) r" "fuel_ok f r" using Suc.prems(2,5) TNode g(3) fuel_ok_child(2) by auto
      then obtain s' where s': "btree_get S f (root_of r) s1 k = Ok (lookup (entries r) k, s')" "inv s'" "view s' = view s1"
        using Suc.IH [OF g(2) _ o(2) bound_less [OF right(1) Suc.prems(4)]] by blast
      have "lookup (entries t) k = lookup (entries r) k"
        using lookup_middle [OF left_of_route [OF o(1) right(1) Suc.prems(4)], of "[]" "entries r"] TNode by simp
      then show ?thesis using s' g TNode right(3) by simp
    qed
  qed
qed

end

section \<open>The largest key\<close>

fun rightmost :: "btree \<Rightarrow> entry list" where
  "rightmost (TLeaf p es) = es"
| "rightmost (TNode p cs r) = rightmost r"

lemma rightmost_suffix: "\<exists>es. entries t = es @ rightmost t"
proof (induction t)
  case (TNode p cs r)
  then obtain es where "entries r = es @ rightmost r" by auto
  then have "entries (TNode p cs r) = (kids_entries cs @ es) @ rightmost (TNode p cs r)" by simp
  then show ?case by blast
qed simp

context page_reader begin

lemma btree_last_key_ok:
  assumes "inv s" and "tree_rep (view s) t" and "height t < fuel"
  shows "\<exists>s'. btree_last_key S fuel (root_of t) s =
      Ok (if rightmost t = [] then None else Some (entry_key (last (rightmost t))), s')
    \<and> inv s' \<and> view s' = view s"
  using assms
proof (induction fuel arbitrary: t s)
  case (Suc f)
  obtain s1 where g: "get_node S s (root_of t) = Ok (node_of t, s1)" "inv s1" "view s1 = view s"
    using get_root [OF Suc.prems(1,2)] by blast
  show ?case
  proof (cases t)
    case (TLeaf p es)
    then show ?thesis using g by (simp add: last_map)
  next
    case (TNode p cs r)
    have "height r < f" using Suc.prems(3) TNode height_child(2) [of r p cs] by simp
    moreover have "tree_rep (view s1) r" using Suc.prems(2) TNode g(3) by simp
    ultimately obtain s' where "btree_last_key S f (root_of r) s1 =
        Ok (if rightmost r = [] then None else Some (entry_key (last (rightmost r))), s')" "inv s'" "view s' = view s1"
      using Suc.IH [OF g(2)] by blast
    then show ?thesis using TNode g by (simp add: inode_def)
  qed
qed simp

end

section \<open>The cursor\<close>

text \<open>
  A frame of the cursor's stack: an interior node and the index of the child the cursor
  is in. What the cursor has yet to visit of it are the children after that index.
\<close>

type_synonym frame = "(btree \<times> i64) list \<times> btree \<times> nat"

definition kids :: "(btree \<times> i64) list \<Rightarrow> btree \<Rightarrow> btree list" where
  "kids cs r = map fst cs @ [r]"

definition frame_rest :: "frame \<Rightarrow> btree list" where
  "frame_rest fr = (case fr of (cs, r, i) \<Rightarrow> drop (Suc i) (kids cs r))"

definition rest_trees :: "frame list \<Rightarrow> btree list" where
  "rest_trees stk = concat (map frame_rest stk)"

definition frame_node :: "frame \<Rightarrow> interior_node \<times> nat" where
  "frame_node fr = (case fr of (cs, r, i) \<Rightarrow> (inode cs r, i))"

definition trees_entries :: "btree list \<Rightarrow> entry list" where
  "trees_entries ts = concat (map entries ts)"

fun leaf_count :: "btree \<Rightarrow> nat" where
  "leaf_count (TLeaf p es) = 1"
| "leaf_count (TNode p cs r) = sum_list (map (\<lambda>c. leaf_count (fst c)) cs) + leaf_count r"

definition trees_leaves :: "btree list \<Rightarrow> nat" where
  "trees_leaves ts = sum_list (map leaf_count ts)"

lemma rest_trees_simps [simp]: "rest_trees [] = []" "rest_trees (fr # stk) = frame_rest fr @ rest_trees stk"
  by (simp_all add: rest_trees_def)

lemma trees_entries_simps [simp]:
  "trees_entries [] = []" "trees_entries (t # ts) = entries t @ trees_entries ts"
  "trees_entries (ts @ us) = trees_entries ts @ trees_entries us"
  by (simp_all add: trees_entries_def)

lemma trees_leaves_simps [simp]:
  "trees_leaves [] = 0" "trees_leaves (t # ts) = leaf_count t + trees_leaves ts"
  "trees_leaves (ts @ us) = trees_leaves ts + trees_leaves us"
  by (simp_all add: trees_leaves_def)

lemma kids_simps [simp]: "kids [] r = [r]" "kids (c # cs) r = fst c # kids cs r"
  by (simp_all add: kids_def)

lemma length_kids [simp]: "length (kids cs r) = Suc (length cs)"
  by (simp add: kids_def)

lemma entries_kids: "entries (TNode p cs r) = trees_entries (kids cs r)"
  by (induction cs) auto

lemma leaves_kids: "leaf_count (TNode p cs r) = trees_leaves (kids cs r)"
  by (induction cs) auto

lemma tree_rep_kids: "tree_rep vw (TNode p cs r) \<Longrightarrow> t \<in> set (kids cs r) \<Longrightarrow> tree_rep vw t"
  by (auto simp: kids_def)

lemma fuel_ok_kids: "fuel_ok (Suc f) (TNode p cs r) \<Longrightarrow> t \<in> set (kids cs r) \<Longrightarrow> fuel_ok f t"
  using fuel_ok_child [of f p cs r] unfolding kids_def by auto

lemma child_at_kids: "i \<le> length cs \<Longrightarrow> child_at (inode cs r) i = root_of (kids cs r ! i)"
  by (auto simp: child_at_def inode_def kids_def nth_append)

lemma fuel_ok_mono: "fuel_ok f t \<Longrightarrow> f \<le> g \<Longrightarrow> fuel_ok g t"
  by (fastforce simp: fuel_ok_def)

text \<open>\<open>stack_ok\<close>: the unvisited subtrees are in the store and fuel suffices for each.\<close>

definition stack_ok :: "(page_id \<Rightarrow> bytes option) \<Rightarrow> nat \<Rightarrow> frame list \<Rightarrow> bool" where
  "stack_ok vw fuel stk \<longleftrightarrow>
     (\<forall>(cs, r, i)\<in>set stk. i \<le> length cs)
     \<and> (\<forall>t\<in>set (rest_trees stk). tree_rep vw t \<and> fuel_ok fuel t)"

text \<open>\<open>cursor_rep\<close>: the cursor stands before the entries \<open>L\<close>, in front of \<open>n\<close> more leaves.\<close>

definition cursor_rep ::
    "(page_id \<Rightarrow> bytes option) \<Rightarrow> nat \<Rightarrow> cursor \<Rightarrow> entry list \<Rightarrow> nat \<Rightarrow> bool" where
  "cursor_rep vw fuel c L n \<longleftrightarrow> (\<exists>stk es j.
     cu_stack c = map frame_node stk \<and> stack_ok vw fuel stk
     \<and> cu_leaf c = Some (\<lparr>ln_cells = map fst es\<rparr>, j) \<and> j \<le> length es
     \<and> (\<forall>e\<in>set es. cell_rep vw (fst e) (entry_val e) (entry_chain e) \<and> length (entry_chain e) \<le> fuel)
     \<and> L = drop j es @ trees_entries (rest_trees stk) \<and> n = trees_leaves (rest_trees stk))"

lemma leaf_count_pos: "0 < leaf_count t"
  by (induction t) auto

lemma next_child_None:
  "next_child (map frame_node stk) = None \<Longrightarrow> rest_trees stk = []"
proof (induction stk)
  case (Cons fr stk)
  obtain cs r i where "fr = (cs, r, i)" by (cases fr)
  with Cons show ?case
    by (auto simp: frame_node_def frame_rest_def Let_def inode_def split: if_splits)
qed simp

lemma next_child_Some:
  assumes "next_child (map frame_node stk) = Some (child, stack)" and "stack_ok vw fuel stk"
  shows "\<exists>t stk'. child = root_of t \<and> stack = map frame_node stk' \<and> stack_ok vw fuel stk'
     \<and> rest_trees stk = t # rest_trees stk' \<and> tree_rep vw t \<and> fuel_ok fuel t"
  using assms
proof (induction stk)
  case (Cons fr stk)
  obtain cs r i where fr: "fr = (cs, r, i)" by (cases fr)
  show ?case
  proof (cases "Suc i \<le> length cs")
    case True
    let ?t = "kids cs r ! Suc i"
    have res: "child = root_of ?t" "stack = map frame_node ((cs, r, Suc i) # stk)"
      using Cons.prems(1) fr True child_at_kids [OF True, of r]
      by (auto simp: frame_node_def Let_def inode_def)
    have "drop (Suc i) (kids cs r) = ?t # drop (Suc (Suc i)) (kids cs r)"
      using True by (intro Cons_nth_drop_Suc [symmetric]) simp
    then have rest: "rest_trees (fr # stk) = ?t # rest_trees ((cs, r, Suc i) # stk)"
      using fr by (simp add: frame_rest_def)
    then have "stack_ok vw fuel ((cs, r, Suc i) # stk)" "tree_rep vw ?t" "fuel_ok fuel ?t"
      using Cons.prems(2) True unfolding stack_ok_def rest by auto
    with res rest show ?thesis by blast
  next
    case False
    have "frame_node fr = (inode cs r, i)" "length (in_cells (inode cs r)) = length cs"
      using fr by (simp_all add: frame_node_def inode_def)
    then have "next_child (map frame_node stk) = Some (child, stack)" "frame_rest fr = []"
      using Cons.prems(1) fr False by (simp_all add: frame_rest_def Let_def)
    then show ?thesis using Cons.IH Cons.prems(2) by (auto simp: stack_ok_def)
  qed
qed simp

lemma leaf_cells_ok:
  assumes "tree_rep vw (TLeaf p es)" and "fuel_ok (Suc f) (TLeaf p es)"
  shows "\<forall>e\<in>set es. cell_rep vw (fst e) (entry_val e) (entry_chain e) \<and> length (entry_chain e) \<le> f"
  using assms fuel_ok_leaf by auto

lemma filter_ge_middle:
  assumes "\<forall>e\<in>set L. entry_key e < k" and "\<forall>e\<in>set R. k < entry_key e"
  shows "filter (\<lambda>e. k \<le> entry_key e) (L @ es @ R) = filter (\<lambda>e. k \<le> entry_key e) es @ R"
proof -
  have "filter (\<lambda>e. k \<le> entry_key e) L = []" using assms(1) by (auto simp: filter_empty_conv not_le)
  moreover have "filter (\<lambda>e. k \<le> entry_key e) R = R" using assms(2) by (auto simp: filter_id_conv)
  ultimately show ?thesis by simp
qed

lemma leaf_seek_index:
  assumes "sorted_wrt (<) (map entry_key es)"
  shows "\<exists>i. (case leaf_search \<lparr>ln_cells = map fst es\<rparr> k of Found i \<Rightarrow> i | NotFound i \<Rightarrow> i) = i
     \<and> i \<le> length es \<and> drop i es = filter (\<lambda>e. k \<le> entry_key e) es"
  using assms
proof (cases rule: leaf_search_cases [where k = k])
  case (found i)
  have split: "es = take i es @ [es ! i] @ drop (Suc i) es" using id_take_nth_drop [OF found(2)] by simp
  then have "sorted_wrt (<) (map entry_key (take i es) @ map entry_key [es ! i] @ map entry_key (drop (Suc i) es))"
    using assms by (metis map_append)
  then have lr: "\<forall>e\<in>set (take i es). entry_key e < k" "\<forall>e\<in>set (drop (Suc i) es). k < entry_key e"
    using found(3) by (auto simp: sorted_wrt_append)
  have "filter (\<lambda>e. k \<le> entry_key e) (take i es @ [es ! i] @ drop (Suc i) es) = [es ! i] @ drop (Suc i) es"
    unfolding filter_ge_middle [OF lr] using found(3) by simp
  then have "filter (\<lambda>e. k \<le> entry_key e) es = [es ! i] @ drop (Suc i) es" by (simp only: split [symmetric])
  also have "\<dots> = drop i es" using found(2) by (simp add: Cons_nth_drop_Suc)
  finally show ?thesis using found(1,2) by simp
next
  case (absent i)
  have "filter (\<lambda>e. k \<le> entry_key e) (take i es @ [] @ drop i es) = drop i es"
    using filter_ge_middle [OF absent(3,4), of "[]"] by simp
  then show ?thesis using absent(1,2) by simp
qed

lemma seek_route:
  assumes "ordered lo hi (TNode p cs r)" and "lo < int_of_i64 k"
  shows "\<exists>i lo' hi'. (case key_position (in_cells (inode cs r)) k of Some i \<Rightarrow> i | None \<Rightarrow> length (in_cells (inode cs r))) = i
     \<and> i \<le> length cs \<and> ordered lo' hi' (kids cs r ! i) \<and> lo' < int_of_i64 k
     \<and> filter (\<lambda>e. k \<le> entry_key e) (entries (TNode p cs r))
        = filter (\<lambda>e. k \<le> entry_key e) (entries (kids cs r ! i)) @ trees_entries (drop (Suc i) (kids cs r))"
proof (cases rule: route_cases [of cs k r])
  case (cell as t k' bs)
  have o: "kids_ordered lo as" "ordered (bound lo as) (int_of_i64 k') t"
      "kids_ordered (int_of_i64 k') bs" "ordered (bound (int_of_i64 k') bs) hi r"
    using assms(1) cell(1) by auto
  have kid: "kids cs r ! length as = t" "drop (Suc (length as)) (kids cs r) = kids bs r"
    using cell(1) by (simp_all add: kids_def nth_append)
  have "filter (\<lambda>e. k \<le> entry_key e) (entries (TNode p cs r))
      = filter (\<lambda>e. k \<le> entry_key e) (entries t) @ kids_entries bs @ entries r"
    using filter_ge_middle [OF left_of_route [OF o(1) cell(2) assms(2)] right_of_route [OF o(3,4) cell(3)], of "entries t"]
      cell(1) by simp
  moreover have "kids_entries bs @ entries r = trees_entries (kids bs r)"
    using entries_kids [of p bs r] by simp
  ultimately show ?thesis
    using kid cell(1,4) o(2) bound_less [OF cell(2) assms(2)]
    by (intro exI [of _ "length as"] exI [of _ "bound lo as"] exI [of _ "int_of_i64 k'"]) simp
next
  case right
  have o: "kids_ordered lo cs" "ordered (bound lo cs) hi r" using assms(1) by auto
  have "filter (\<lambda>e. k \<le> entry_key e) (entries (TNode p cs r)) = filter (\<lambda>e. k \<le> entry_key e) (entries r)"
    using filter_ge_middle [OF left_of_route [OF o(1) right(1) assms(2)], of "[]" "entries r"] by simp
  then show ?thesis
    using o(2) right(2) bound_less [OF right(1) assms(2)]
    by (intro exI [of _ "length cs"] exI [of _ "bound lo cs"] exI [of _ hi])
      (simp add: kids_def nth_append inode_def)
qed

context page_reader begin

lemma descend_leftmost_ok:
  assumes "inv s" and "tree_rep (view s) t" and "fuel_ok fuel t" and "fuel \<le> g" and "stack_ok (view s) g stk"
  shows "\<exists>c s'. descend_leftmost S fuel s (root_of t) (map frame_node stk) = Ok (c, s') \<and> inv s' \<and> view s' = view s
     \<and> (\<exists>n < leaf_count t + trees_leaves (rest_trees stk).
          cursor_rep (view s) g c (entries t @ trees_entries (rest_trees stk)) n)"
  using assms
proof (induction fuel arbitrary: t s stk)
  case 0
  then show ?case by (simp add: fuel_ok_def)
next
  case (Suc f)
  obtain s1 where g: "get_node S s (root_of t) = Ok (node_of t, s1)" "inv s1" "view s1 = view s"
    using get_root [OF Suc.prems(1,2)] by blast
  show ?case
  proof (cases t)
    case (TLeaf p es)
    let ?c = "\<lparr>cu_stack = map frame_node stk, cu_leaf = Some (\<lparr>ln_cells = map fst es\<rparr>, 0)\<rparr>"
    have "\<forall>e\<in>set es. cell_rep (view s) (fst e) (entry_val e) (entry_chain e) \<and> length (entry_chain e) \<le> g"
      using leaf_cells_ok [of "view s" p es f] Suc.prems(2,3,4) TLeaf by force
    then have "cursor_rep (view s) g ?c (entries t @ trees_entries (rest_trees stk)) (trees_leaves (rest_trees stk))"
      using Suc.prems(5) TLeaf unfolding cursor_rep_def
      by (intro exI [of _ stk] exI [of _ es] exI [of _ 0]) simp
    then show ?thesis using g TLeaf by auto
  next
    case (TNode p cs r)
    let ?t = "kids cs r ! 0" and ?stk = "(cs, r, 0) # stk"
    have k: "kids cs r = ?t # drop (Suc 0) (kids cs r)" by (cases "kids cs r") (auto simp: kids_def)
    have mem: "?t \<in> set (kids cs r)" by (metis k list.set_intros(1))
    note rp = tree_rep_kids [OF Suc.prems(2) [unfolded TNode]] and fu = fuel_ok_kids [OF Suc.prems(3) [unfolded TNode]]
    have kid: "tree_rep (view s1) ?t" "fuel_ok f ?t"
      using rp [OF mem] fu [OF mem] g(3) by simp_all
    have "\<forall>t\<in>set (kids cs r). tree_rep (view s) t \<and> fuel_ok g t"
      using rp fu fuel_ok_mono [of f _ g] Suc.prems(4) by simp
    then have stk: "stack_ok (view s1) g ?stk"
      using Suc.prems(5) g(3) by (auto simp: stack_ok_def frame_rest_def dest: in_set_dropD)
    have ent: "entries t @ trees_entries (rest_trees stk) = entries ?t @ trees_entries (rest_trees ?stk)"
      unfolding TNode entries_kids by (subst k) (simp add: frame_rest_def)
    have lc: "leaf_count t + trees_leaves (rest_trees stk) = leaf_count ?t + trees_leaves (rest_trees ?stk)"
      unfolding TNode leaves_kids by (subst k) (simp add: frame_rest_def)
    show ?thesis
      using Suc.IH [OF g(2) kid _ stk] Suc.prems(4) g TNode child_at_kids [of 0 cs r] unfolding ent lc
      by (simp add: frame_node_def)
  qed
qed

text \<open>One fuel unit per remaining leaf finds the next entry, or the end.\<close>

lemma cursor_next_ok:
  assumes "inv s" and "cursor_rep (view s) fuel c L n" and "n < m"
  shows "\<exists>s'. inv s' \<and> view s' = view s \<and>
    (case L of
       [] \<Rightarrow> \<exists>c'. cursor_next S fuel m s c = Ok (None, c', s')
     | e # L' \<Rightarrow> \<exists>c' n'. cursor_next S fuel m s c = Ok (Some (entry_key e, entry_val e), c', s')
         \<and> n' \<le> n \<and> cursor_rep (view s) fuel c' L' n')"
  using assms
proof (induction m arbitrary: s c n)
  case (Suc m)
  from Suc.prems(2) obtain stk es j where c: "cu_stack c = map frame_node stk" "stack_ok (view s) fuel stk"
      "cu_leaf c = Some (\<lparr>ln_cells = map fst es\<rparr>, j)" "j \<le> length es"
      "\<forall>e\<in>set es. cell_rep (view s) (fst e) (entry_val e) (entry_chain e) \<and> length (entry_chain e) \<le> fuel"
      "L = drop j es @ trees_entries (rest_trees stk)" "n = trees_leaves (rest_trees stk)"
    by (auto simp: cursor_rep_def)
  show ?case
  proof (cases "j < length es")
    case True
    let ?e = "es ! j"
    have "?e \<in> set es" using True by simp
    then obtain s' where s': "read_value S fuel s (fst ?e) = Ok (entry_val ?e, s')" "inv s'" "view s' = view s"
      using read_value_ok [OF Suc.prems(1)] c(5) by blast
    have L: "L = ?e # drop (Suc j) es @ trees_entries (rest_trees stk)"
      using c(6) True by (simp add: Cons_nth_drop_Suc [symmetric])
    have "cursor_rep (view s) fuel (c\<lparr>cu_leaf := Some (\<lparr>ln_cells = map fst es\<rparr>, j + 1)\<rparr>)
        (drop (Suc j) es @ trees_entries (rest_trees stk)) n"
      using c True unfolding cursor_rep_def
      by (intro exI [of _ stk] exI [of _ es] exI [of _ "Suc j"]) simp
    then show ?thesis using s' c(3) True L by (auto simp: Let_def)
  next
    case False
    then have L: "L = trees_entries (rest_trees stk)" using c(4,6) by simp
    show ?thesis
    proof (cases "next_child (map frame_node stk)")
      case None
      then show ?thesis using L next_child_None [OF None] c(1,3) False Suc.prems(1) by auto
    next
      case (Some x)
      then obtain child stack where x: "next_child (map frame_node stk) = Some (child, stack)" by (cases x) auto
      obtain t stk' where t: "child = root_of t" "stack = map frame_node stk'" "stack_ok (view s) fuel stk'"
          "rest_trees stk = t # rest_trees stk'" "tree_rep (view s) t" "fuel_ok fuel t"
        using next_child_Some [OF x c(2)] by blast
      obtain c1 s1 k where d: "descend_leftmost S fuel s child stack = Ok (c1, s1)" "inv s1" "view s1 = view s"
          "k < n" "cursor_rep (view s1) fuel c1 L k"
        using descend_leftmost_ok [OF Suc.prems(1) t(5,6) order.refl t(3)] t(1,2,4) L c(7) by auto
      have nx: "cursor_next S fuel (Suc m) s c = cursor_next S fuel m s1 c1"
        using c(1,3) x d(1) False by simp
      have "k < m" using d(4) Suc.prems(3) by simp
      then show ?thesis
        using Suc.IH [OF d(2,5)] d(3,4) unfolding nx
        by (cases L) (simp_all, meson less_imp_le order_trans)
    qed
  qed
qed simp

lemma cursor_collect_ok:
  assumes "inv s" and "cursor_rep (view s) fuel c L n" and "n < fuel" and "length L < m"
  shows "\<exists>s'. cursor_collect S fuel m s c = Ok (map (\<lambda>e. (entry_key e, entry_val e)) L, s') \<and> inv s' \<and> view s' = view s"
  using assms
proof (induction m arbitrary: s c L n)
  case (Suc m)
  show ?case
  proof (cases L)
    case Nil
    then show ?thesis using cursor_next_ok [OF Suc.prems(1-3)] by auto
  next
    case (Cons e L')
    then obtain s1 c1 n1 where nx: "cursor_next S fuel fuel s c = Ok (Some (entry_key e, entry_val e), c1, s1)"
        "inv s1" "view s1 = view s" "n1 \<le> n" "cursor_rep (view s1) fuel c1 L' n1"
      using cursor_next_ok [OF Suc.prems(1-3)] by auto
    then show ?thesis using Suc.IH [OF nx(2,5)] Suc.prems(3,4) Cons by auto
  qed
qed simp

lemma cursor_seek_loop_ok:
  assumes "inv s" and "tree_rep (view s) t" and "ordered lo hi t" and "lo < int_of_i64 k"
    and "fuel_ok fuel t" and "fuel \<le> g" and "stack_ok (view s) g stk"
  shows "\<exists>c s'. cursor_seek_loop S fuel s (root_of t) k (map frame_node stk) = Ok (c, s') \<and> inv s' \<and> view s' = view s
     \<and> (\<exists>n < leaf_count t + trees_leaves (rest_trees stk).
          cursor_rep (view s) g c (filter (\<lambda>e. k \<le> entry_key e) (entries t) @ trees_entries (rest_trees stk)) n)"
  using assms
proof (induction fuel arbitrary: t s stk lo hi)
  case 0
  then show ?case by (simp add: fuel_ok_def)
next
  case (Suc f)
  obtain s1 where g: "get_node S s (root_of t) = Ok (node_of t, s1)" "inv s1" "view s1 = view s"
    using get_root [OF Suc.prems(1,2)] by blast
  show ?case
  proof (cases t)
    case (TLeaf p es)
    have srt: "sorted_wrt (<) (map entry_key es)" using Suc.prems(3) TLeaf by simp
    obtain i where i: "(case leaf_search \<lparr>ln_cells = map fst es\<rparr> k of Found i \<Rightarrow> i | NotFound i \<Rightarrow> i) = i"
        "i \<le> length es" "drop i es = filter (\<lambda>e. k \<le> entry_key e) es"
      using leaf_seek_index [OF srt] by blast
    let ?c = "\<lparr>cu_stack = map frame_node stk, cu_leaf = Some (\<lparr>ln_cells = map fst es\<rparr>, i)\<rparr>"
    have "\<forall>e\<in>set es. cell_rep (view s) (fst e) (entry_val e) (entry_chain e) \<and> length (entry_chain e) \<le> g"
      using leaf_cells_ok [of "view s" p es f] Suc.prems(2,5,6) TLeaf by force
    then have "cursor_rep (view s) g ?c (filter (\<lambda>e. k \<le> entry_key e) (entries t) @ trees_entries (rest_trees stk))
        (trees_leaves (rest_trees stk))"
      using Suc.prems(7) TLeaf i unfolding cursor_rep_def
      by (intro exI [of _ stk] exI [of _ es] exI [of _ i]) simp
    then show ?thesis using g TLeaf i(1) by auto
  next
    case (TNode p cs r)
    have all: "\<forall>t\<in>set (kids cs r). tree_rep (view s) t \<and> fuel_ok f t"
      using tree_rep_kids [OF Suc.prems(2) [unfolded TNode]] fuel_ok_kids [OF Suc.prems(5) [unfolded TNode]] by blast
    obtain i lo' hi' where r: "(case key_position (in_cells (inode cs r)) k of Some i \<Rightarrow> i | None \<Rightarrow> length (in_cells (inode cs r))) = i"
        "i \<le> length cs" "ordered lo' hi' (kids cs r ! i)" "lo' < int_of_i64 k"
        "filter (\<lambda>e. k \<le> entry_key e) (entries t)
         = filter (\<lambda>e. k \<le> entry_key e) (entries (kids cs r ! i)) @ trees_entries (drop (Suc i) (kids cs r))"
      using seek_route [OF Suc.prems(3) [unfolded TNode] Suc.prems(4)] TNode by metis
    let ?t = "kids cs r ! i" and ?stk = "(cs, r, i) # stk"
    have kt: "tree_rep (view s1) ?t" "fuel_ok f ?t" using all r(2) g(3) by auto
    have stk: "stack_ok (view s1) g ?stk"
      using Suc.prems(6,7) g(3) all r(2) fuel_ok_mono [of f _ g]
      by (auto simp: stack_ok_def frame_rest_def dest: in_set_dropD)
    have lc: "leaf_count ?t + trees_leaves (rest_trees ?stk) \<le> leaf_count t + trees_leaves (rest_trees stk)"
    proof -
      have "kids cs r = take i (kids cs r) @ ?t # drop (Suc i) (kids cs r)" using r(2) by (intro id_take_nth_drop) simp
      then have "trees_leaves (kids cs r) = trees_leaves (take i (kids cs r)) + leaf_count ?t + trees_leaves (drop (Suc i) (kids cs r))"
        by (metis (no_types) add.assoc trees_leaves_simps(2,3))
      then show ?thesis unfolding TNode leaves_kids by (simp add: frame_rest_def)
    qed
    obtain c s' n where x: "cursor_seek_loop S f s1 (root_of ?t) k (map frame_node ?stk) = Ok (c, s')" "inv s'" "view s' = view s1"
        "n < leaf_count ?t + trees_leaves (rest_trees ?stk)"
        "cursor_rep (view s1) g c (filter (\<lambda>e. k \<le> entry_key e) (entries ?t) @ trees_entries (rest_trees ?stk)) n"
      using Suc.IH [OF g(2) kt(1) r(3,4) kt(2) _ stk] Suc.prems(6) by auto
    have loop: "cursor_seek_loop S (Suc f) s (root_of t) k (map frame_node stk)
        = cursor_seek_loop S f s1 (root_of ?t) k (map frame_node ?stk)"
      using g(1) TNode r(1) child_at_kids [OF r(2), of r] by (simp add: Let_def frame_node_def [of "(cs, r, i)"])
    have ent: "filter (\<lambda>e. k \<le> entry_key e) (entries ?t) @ trees_entries (rest_trees ?stk)
        = filter (\<lambda>e. k \<le> entry_key e) (entries t) @ trees_entries (rest_trees stk)"
      using r(5) by (simp add: frame_rest_def)
    show ?thesis
    proof (intro exI conjI)
      show "cursor_seek_loop S (Suc f) s (root_of t) k (map frame_node stk) = Ok (c, s')"
        using loop x(1) by simp
      show "n < leaf_count t + trees_leaves (rest_trees stk)" using x(4) lc by simp
      show "cursor_rep (view s) g c (filter (\<lambda>e. k \<le> entry_key e) (entries t) @ trees_entries (rest_trees stk)) n"
        using x(5) unfolding g(3) ent .
    qed (use x g in simp_all)
  qed
qed

text \<open>\<open>cursor_from\<close> and the loop over \<open>next\<close>: the entries from a key on, in key order.\<close>

lemma cursor_scan_ok:
  assumes "inv s" and "tree_rep (view s) t" and "ordered lo hi t" and "lo < int_of_i64 k"
    and "fuel_ok fuel t" and "leaf_count t \<le> fuel" and "length (entries t) < fuel"
  shows "\<exists>c s1 s'. cursor_seek S fuel s (root_of t) k = Ok (c, s1)
     \<and> cursor_collect S fuel fuel s1 c =
        Ok (map (\<lambda>e. (entry_key e, entry_val e)) (filter (\<lambda>e. k \<le> entry_key e) (entries t)), s')
     \<and> inv s' \<and> view s' = view s"
proof -
  obtain c s1 n where c: "cursor_seek_loop S fuel s (root_of t) k [] = Ok (c, s1)" "inv s1" "view s1 = view s"
      "n < leaf_count t" "cursor_rep (view s) fuel c (filter (\<lambda>e. k \<le> entry_key e) (entries t)) n"
    using cursor_seek_loop_ok [OF assms(1-5) order.refl, of "[]"] by (auto simp: stack_ok_def)
  let ?L = "filter (\<lambda>e. k \<le> entry_key e) (entries t)"
  have "n < fuel" "length ?L < fuel"
    using c(4) assms(6) le_less_trans [OF length_filter_le assms(7)] by simp_all
  then obtain s' where "cursor_collect S fuel fuel s1 c = Ok (map (\<lambda>e. (entry_key e, entry_val e)) ?L, s')"
      "inv s'" "view s' = view s1"
    using cursor_collect_ok [OF c(2), of fuel c ?L n fuel] c(3,5) by auto
  with c show ?thesis by (auto simp: cursor_seek_def)
qed

end

end
