(* ===== verification/WalFrame.thy ===== *)
theory WalFrame
  imports Page
begin

text \<open>
  The frames of the write-ahead log, \<open>squrust-core/src/wal/frame.rs\<close>: the encoder (a
  32-byte header with an FNV-1a checksum, then the page), the decoder with its length and
  checksum tests, the round trip between them, and the detection of a damaged byte.
\<close>

unbundle bit_operations_syntax

section \<open>The code\<close>

definition FRAME_HEADER_SIZE :: nat where "FRAME_HEADER_SIZE = 32"
definition FRAME_SIZE :: nat where "FRAME_SIZE = FRAME_HEADER_SIZE + PAGE_SIZE"

record wal_frame =
  wf_page_id :: page_id
  wf_commit_version :: u64
  wf_db_size_after :: u32
  wf_salt :: u32
  wf_data :: bytes

definition is_commit :: "wal_frame \<Rightarrow> bool" where
  "is_commit f \<longleftrightarrow> wf_db_size_after f \<noteq> 0"

definition fnv_step :: "u64 \<Rightarrow> u8 \<Rightarrow> u64" where
  "fnv_step h b = (h XOR ucast b) * 0x00000100000001b3"

definition frame_checksum :: "bytes \<Rightarrow> bytes \<Rightarrow> u64" where
  "frame_checksum header_prefix data = foldl fnv_step 0xcbf29ce484222325 (header_prefix @ data)"

definition frame_encode :: "wal_frame \<Rightarrow> bytes sres" where
  "frame_encode f =
     obind (copy_at (replicate FRAME_SIZE 0) 0 (u32_be (wf_page_id f))) (\<lambda>buf.
     obind (copy_at buf 4 (u64_be (wf_commit_version f))) (\<lambda>buf.
     obind (copy_at buf 12 (u32_be (wf_db_size_after f))) (\<lambda>buf.
     obind (copy_at buf 16 (u32_be (wf_salt f))) (\<lambda>buf.
     if length (wf_data f) \<noteq> FRAME_SIZE - FRAME_HEADER_SIZE then Panic
     else
       obind (copy_at buf FRAME_HEADER_SIZE (wf_data f)) (\<lambda>buf.
       obind (slice_range buf 0 20) (\<lambda>prefix.
       copy_at buf 20 (u64_be (frame_checksum prefix (wf_data f)))))))))"

definition frame_decode :: "bytes \<Rightarrow> wal_frame sres" where
  "frame_decode buf =
     (if length buf < FRAME_SIZE then Err (CorruptWal (ShortFrame (length buf)))
      else
        let page_id = be_u32 (slice 0 4 buf);
            commit_version = be_u64 (slice 4 8 buf);
            db_size_after = be_u32 (slice 12 4 buf);
            salt = be_u32 (slice 16 4 buf);
            stored_ck = be_u64 (slice 20 8 buf);
            data = slice FRAME_HEADER_SIZE (FRAME_SIZE - FRAME_HEADER_SIZE) buf;
            ck = frame_checksum (slice 0 20 buf) data
        in if ck \<noteq> stored_ck then Err (CorruptWal ChecksumMismatch)
           else Ok \<lparr>wf_page_id = page_id, wf_commit_version = commit_version,
                    wf_db_size_after = db_size_after, wf_salt = salt, wf_data = data\<rparr>)"

section \<open>The layout of a frame\<close>

definition frame_wf :: "wal_frame \<Rightarrow> bool" where
  "frame_wf f \<longleftrightarrow> length (wf_data f) = PAGE_SIZE"

definition frame_prefix :: "wal_frame \<Rightarrow> bytes" where
  "frame_prefix f =
     u32_be (wf_page_id f) @ u64_be (wf_commit_version f) @ u32_be (wf_db_size_after f)
     @ u32_be (wf_salt f)"

definition frame_bytes :: "wal_frame \<Rightarrow> bytes" where
  "frame_bytes f =
     frame_prefix f @ u64_be (frame_checksum (frame_prefix f) (wf_data f)) @ [0, 0, 0, 0] @ wf_data f"

lemma length_frame_prefix [simp]: "length (frame_prefix f) = 20"
  by (simp add: frame_prefix_def)

lemma length_frame_bytes: "frame_wf f \<Longrightarrow> length (frame_bytes f) = FRAME_SIZE"
  by (simp add: frame_bytes_def frame_wf_def FRAME_SIZE_def FRAME_HEADER_SIZE_def)

text \<open>Writes that follow each other fill a zeroed buffer from the left.\<close>

lemma patch_next:
  "length xs = at \<Longrightarrow> length src \<le> n \<Longrightarrow>
   patch at src (xs @ replicate n 0) = (xs @ src) @ replicate (n - length src) 0"
  by (simp add: patch_def)

lemma patch_inner:
  "length xs = at \<Longrightarrow> length src = length ys \<Longrightarrow> patch at src (xs @ ys @ zs) = xs @ src @ zs"
  by (simp add: patch_def)

lemma frame_encode_bytes:
  assumes "frame_wf f"
  shows "frame_encode f = Ok (frame_bytes f)"
proof -
  let ?p = "frame_prefix f" and ?d = "wf_data f"
  have ld: "length ?d = 4096" using assms by (simp add: frame_wf_def PAGE_SIZE_def)
  have s: "FRAME_SIZE = 4128" by (simp add: FRAME_SIZE_def FRAME_HEADER_SIZE_def PAGE_SIZE_def)
  have head: "patch 16 (u32_be (wf_salt f)) (patch 12 (u32_be (wf_db_size_after f))
      (patch 4 (u64_be (wf_commit_version f)) (patch 0 (u32_be (wf_page_id f)) (replicate 4128 0))))
    = ?p @ replicate 4108 0"
    using patch_next [of "[]" 0 "u32_be (wf_page_id f)" 4128]
      patch_next [of "u32_be (wf_page_id f)" 4 "u64_be (wf_commit_version f)" 4124]
      patch_next [of "u32_be (wf_page_id f) @ u64_be (wf_commit_version f)" 12 "u32_be (wf_db_size_after f)" 4116]
      patch_next [of "u32_be (wf_page_id f) @ u64_be (wf_commit_version f) @ u32_be (wf_db_size_after f)" 16
        "u32_be (wf_salt f)" 4112]
    by (simp add: frame_prefix_def)
  have zs: "?p @ replicate 4108 0 = (?p @ replicate 12 0) @ replicate 4096 0"
    by (simp add: replicate_add [symmetric])
  have body: "patch 32 ?d (?p @ replicate 4108 0) = ?p @ replicate 8 0 @ [0, 0, 0, 0] @ ?d"
  proof -
    have "replicate 12 (0 :: u8) = replicate 8 0 @ [0, 0, 0, 0]" by (simp add: numeral_eq_Suc)
    then show ?thesis
      unfolding zs using ld patch_next [of "?p @ replicate 12 0" 32 ?d 4096] by simp
  qed
  have "slice_range (?p @ replicate 8 0 @ [0, 0, 0, 0] @ ?d) 0 20 = (Ok ?p :: bytes sres)"
    by (simp add: slice_range_def)
  then show ?thesis
    using ld head body patch_inner [of ?p 20 _ "replicate 8 0" "[0, 0, 0, 0] @ ?d"]
    by (simp add: frame_encode_def copy_at_def length_patch s FRAME_HEADER_SIZE_def frame_bytes_def)
qed

section \<open>The round trip\<close>

lemma frame_bytes_fields:
  assumes "frame_wf f"
  shows "slice 0 20 (frame_bytes f) = frame_prefix f"
    and "slice 20 8 (frame_bytes f) = u64_be (frame_checksum (frame_prefix f) (wf_data f))"
    and "slice FRAME_HEADER_SIZE (FRAME_SIZE - FRAME_HEADER_SIZE) (frame_bytes f) = wf_data f"
  using assms
  by (simp_all add: frame_bytes_def slice_append_right FRAME_HEADER_SIZE_def FRAME_SIZE_def
      frame_wf_def slice_def)

lemma prefix_fields:
  "be_u32 (slice 0 4 (frame_prefix f)) = wf_page_id f"
  "be_u64 (slice 4 8 (frame_prefix f)) = wf_commit_version f"
  "be_u32 (slice 12 4 (frame_prefix f)) = wf_db_size_after f"
  "be_u32 (slice 16 4 (frame_prefix f)) = wf_salt f"
  by (simp_all add: frame_prefix_def slice_def)

lemma slice_of_prefix: "a + n \<le> 20 \<Longrightarrow> slice a n buf = slice a n (slice 0 20 buf)"
  by (simp add: slice_slice)

lemma frame_decode_bytes:
  assumes "frame_wf f"
  shows "frame_decode (frame_bytes f) = Ok f"
proof -
  note fields = frame_bytes_fields [OF assms]
  have "slice 0 4 (frame_bytes f) = slice 0 4 (frame_prefix f)"
    "slice 4 8 (frame_bytes f) = slice 4 8 (frame_prefix f)"
    "slice 12 4 (frame_bytes f) = slice 12 4 (frame_prefix f)"
    "slice 16 4 (frame_bytes f) = slice 16 4 (frame_prefix f)"
    unfolding fields(1) [symmetric] by (rule slice_of_prefix, simp)+
  then show ?thesis
    using fields length_frame_bytes [OF assms]
    by (simp add: frame_decode_def Let_def prefix_fields)
qed

section \<open>Damaged bytes\<close>

text \<open>The FNV prime is odd, so multiplying by it is a bijection; so is the xor.\<close>

lemma fnv_prime_inverse: "(0x00000100000001b3 :: u64) * 0xce965057aff6957b = 1"
  by (rule unsigned_word_eqI) (simp add: unat_word_ariths)

lemma fnv_prime_cancel:
  fixes x y :: u64
  assumes "x * 0x00000100000001b3 = y * 0x00000100000001b3"
  shows "x = y"
proof -
  from assms have "x * 0x00000100000001b3 * 0xce965057aff6957b = y * 0x00000100000001b3 * 0xce965057aff6957b"
    by (simp only:)
  then show ?thesis by (simp only: mult.assoc fnv_prime_inverse mult_1_right)
qed

lemma xor_cancel_left: "(h :: 'a :: len word) XOR x = h XOR y \<Longrightarrow> x = y"
  by (rule bit_word_eqI) (auto simp: bit_eq_iff bit_simps)

lemma ucast_u8_inj: "(ucast (b :: u8) :: u64) = ucast b' \<Longrightarrow> b = b'"
proof (rule bit_word_eqI)
  fix n
  assume "(ucast b :: u64) = ucast b'" and n: "n < LENGTH(8)"
  then have "bit (ucast b :: u64) n = bit (ucast b' :: u64) n" by (simp only:)
  with n show "bit b n = bit b' n" by (simp add: bit_simps)
qed

lemma fnv_step_inj_hash:
  assumes "fnv_step h b = fnv_step h' b"
  shows "h = h'"
proof -
  have "h XOR ucast b = h' XOR ucast b"
    using assms unfolding fnv_step_def by (rule fnv_prime_cancel)
  then have "ucast b XOR h = ucast b XOR h'" by (simp only: xor.commute)
  then show ?thesis by (rule xor_cancel_left)
qed

lemma fnv_step_inj_byte:
  assumes "fnv_step h b = fnv_step h b'"
  shows "b = b'"
proof -
  have "h XOR ucast b = h XOR ucast b'"
    using assms unfolding fnv_step_def by (rule fnv_prime_cancel)
  then have "(ucast b :: u64) = ucast b'" by (rule xor_cancel_left)
  then show ?thesis by (rule ucast_u8_inj)
qed

lemma foldl_fnv_inj: "foldl fnv_step h bs = foldl fnv_step h' bs \<Longrightarrow> h = h'"
  by (induction bs arbitrary: h h') (auto dest: fnv_step_inj_hash)

lemma fnv_byte_changed:
  assumes "k < length bs" and "b \<noteq> bs ! k"
  shows "foldl fnv_step h (bs[k := b]) \<noteq> foldl fnv_step h bs"
proof
  assume eq: "foldl fnv_step h (bs[k := b]) = foldl fnv_step h bs"
  have "bs[k := b] = take k bs @ b # drop (Suc k) bs" using assms(1) by (rule upd_conv_take_nth_drop)
  moreover have "bs = take k bs @ bs ! k # drop (Suc k) bs" using assms(1) by (rule id_take_nth_drop)
  ultimately have "foldl fnv_step (fnv_step (foldl fnv_step h (take k bs)) b) (drop (Suc k) bs)
    = foldl fnv_step (fnv_step (foldl fnv_step h (take k bs)) (bs ! k)) (drop (Suc k) bs)"
    using eq by (metis foldl_append foldl_Cons)
  then have "b = bs ! k" by (intro fnv_step_inj_byte) (rule foldl_fnv_inj)
  with assms(2) show False ..
qed

lemma slice_update_outside: "k < a \<or> a + n \<le> k \<Longrightarrow> slice a n (xs[k := b]) = slice a n xs"
  by (auto simp: slice_def drop_update_swap take_update_cancel drop_update_cancel not_less)

lemma slice_update_inside:
  "a \<le> k \<Longrightarrow> slice a n (xs[k := b]) = (slice a n xs)[k - a := b]"
  by (simp add: slice_def drop_update_swap take_update_swap)

lemma be_u64_inj: "length xs = 8 \<Longrightarrow> length ys = 8 \<Longrightarrow> be_u64 xs = be_u64 ys \<Longrightarrow> xs = ys"
  by (metis u64_be_inject)

lemma frame_decode_changed:
  assumes wf: "frame_wf f" and k: "k < FRAME_SIZE" and b: "b \<noteq> frame_bytes f ! k"
  shows "frame_decode ((frame_bytes f)[k := b]) =
    (if 28 \<le> k \<and> k < 32 then Ok f else Err (CorruptWal ChecksumMismatch))"
proof -
  let ?buf = "frame_bytes f"
  let ?buf' = "?buf[k := b]" and ?h = "0xcbf29ce484222325 :: u64"
  note fields = frame_bytes_fields [OF wf]
  have s: "FRAME_SIZE = 4128" "FRAME_HEADER_SIZE = 32"
    by (simp_all add: FRAME_SIZE_def FRAME_HEADER_SIZE_def PAGE_SIZE_def)
  have len: "length ?buf = 4128" using length_frame_bytes [OF wf] s by simp
  have mismatch: "frame_decode ?buf' = Err (CorruptWal ChecksumMismatch)"
    if "frame_checksum (slice 0 20 ?buf') (slice 32 4096 ?buf') \<noteq> be_u64 (slice 20 8 ?buf')"
    using that len by (simp add: frame_decode_def s Let_def)
  have at: "slice a n ?buf ! (k - a) = ?buf ! k" if "a \<le> k" "k < a + n" "a + n \<le> 4128" for a n
    using that len slice_eq_iff_nth [of a n ?buf "k - a"] by simp
  consider "k < 20" | "20 \<le> k" "k < 28" | "28 \<le> k" "k < 32" | "32 \<le> k" by linarith
  then show ?thesis
  proof cases
    case 1
    then have "foldl fnv_step ?h ((slice 0 20 ?buf)[k := b] @ wf_data f)
        \<noteq> foldl fnv_step ?h (slice 0 20 ?buf @ wf_data f)"
      using fnv_byte_changed [of k "slice 0 20 ?buf @ wf_data f" b ?h] b at [of 0 20] len
      by (simp add: list_update_append length_slice nth_append)
    with 1 show ?thesis
      using fields by (simp add: mismatch slice_update_outside slice_update_inside frame_checksum_def s)
  next
    case 2
    have "(slice 20 8 ?buf)[k - 20 := b] ! (k - 20) = b"
      using 2 len by (simp add: length_slice)
    then have "(slice 20 8 ?buf)[k - 20 := b] \<noteq> slice 20 8 ?buf"
      using 2 b at [of 20 8] by auto
    then have "be_u64 ((slice 20 8 ?buf)[k - 20 := b]) \<noteq> be_u64 (slice 20 8 ?buf)"
      using be_u64_inj [of "(slice 20 8 ?buf)[k - 20 := b]" "slice 20 8 ?buf"] len
      by (auto simp: length_slice)
    with 2 show ?thesis
      using fields by (simp add: mismatch slice_update_outside slice_update_inside s)
  next
    case 3
    then show ?thesis
      using frame_decode_bytes [OF wf] len
      by (simp add: frame_decode_def Let_def slice_update_outside s)
  next
    case 4
    then have "foldl fnv_step ?h (slice 0 20 ?buf @ (slice 32 4096 ?buf)[k - 32 := b])
        \<noteq> foldl fnv_step ?h (slice 0 20 ?buf @ slice 32 4096 ?buf)"
      using fnv_byte_changed [of "k - 32" "slice 32 4096 ?buf" b "foldl fnv_step ?h (slice 0 20 ?buf)"]
        b at [of 32 4096] k [unfolded s] len
      by (simp add: length_slice)
    with 4 show ?thesis
      using fields by (simp add: mismatch slice_update_outside slice_update_inside frame_checksum_def s)
  qed
qed

text \<open>
  C33. A frame is decoded from its encoding. Changing one byte of the encoded frame is
  reported as a checksum mismatch wherever the byte is, except in the four reserved
  bytes 28 to 31, where the damage is invisible and the frame decodes as before.
\<close>

theorem frame_integrity:
  assumes "frame_wf f" and "frame_encode f = Ok buf"
  shows "length buf = FRAME_SIZE \<and> frame_decode buf = Ok f
    \<and> (\<forall>k b. k < FRAME_SIZE \<and> b \<noteq> buf ! k \<longrightarrow>
         frame_decode (buf[k := b]) =
           (if 28 \<le> k \<and> k < 32 then Ok f else Err (CorruptWal ChecksumMismatch)))"
proof -
  have buf: "buf = frame_bytes f" using assms by (simp add: frame_encode_bytes)
  then show ?thesis
    using assms(1) frame_decode_bytes frame_decode_changed length_frame_bytes by auto
qed

theorem frame_integrity_witness:
  "\<exists>buf. frame_encode \<lparr>wf_page_id = 2, wf_commit_version = 7, wf_db_size_after = 3, wf_salt = 5,
       wf_data = replicate 4096 1\<rparr> = Ok buf
     \<and> frame_decode (buf[16 := buf ! 16 + 1]) = Err (CorruptWal ChecksumMismatch)"
proof -
  let ?f = "\<lparr>wf_page_id = 2, wf_commit_version = 7, wf_db_size_after = 3, wf_salt = 5,
       wf_data = replicate 4096 1\<rparr> :: wal_frame"
  have wf: "frame_wf ?f" by (simp add: frame_wf_def PAGE_SIZE_def)
  then show ?thesis
    using frame_integrity [of ?f "frame_bytes ?f"] frame_encode_bytes [of ?f]
    by (simp add: FRAME_SIZE_def FRAME_HEADER_SIZE_def PAGE_SIZE_def)
qed

end
