(* ===== verification/DatabaseFile.thy ===== *)
theory DatabaseFile
  imports DbHeader BTreeNode
begin

text \<open>
  The main database file, \<open>squrust-core/src/storage/file.rs\<close>. The file is the list of its
  bytes; positioned reads and writes are slices and patches of it, a write past the end
  fills the gap with zeros. Every system call is taken to succeed here (I/O failures are
  modelled where the code's behaviour under them matters, in the theory \<open>Wal\<close>).
\<close>

section \<open>The code\<close>

text \<open>\<open>write_all_at\<close> of the standard library on a file of bytes.\<close>

definition file_write_at :: "bytes \<Rightarrow> bytes \<Rightarrow> nat \<Rightarrow> bytes" where
  "file_write_at file data off =
     patch off data (file @ replicate (off + length data - length file) 0)"

text \<open>\<open>(id as u64 - 1) * PAGE_SIZE as u64\<close>; the subtraction panics on page 0.\<close>

definition file_offset :: "page_id \<Rightarrow> nat sres" where
  "file_offset pid = (if pid = 0 then Panic else Ok ((unat pid - 1) * PAGE_SIZE))"

definition file_page_count :: "bytes \<Rightarrow> u32" where
  "file_page_count file = word_of_nat (length file div PAGE_SIZE)"

definition file_read_page :: "bytes \<Rightarrow> page_id \<Rightarrow> bytes option sres" where
  "file_read_page file pid =
     (if pid = 0 then Ok None
      else
        obind (file_offset pid) (\<lambda>off.
        if off + PAGE_SIZE > length file then Ok None
        else Ok (Some (slice off PAGE_SIZE file))))"

definition file_write_page :: "bytes \<Rightarrow> page_id \<Rightarrow> bytes \<Rightarrow> bytes sres" where
  "file_write_page file pid data =
     obind (file_offset pid) (\<lambda>off. Ok (file_write_at file data off))"

definition file_write_header :: "bytes \<Rightarrow> db_header \<Rightarrow> bytes sres" where
  "file_write_header file h =
     obind (file_read_page file 1) (\<lambda>p.
     let page = (case p of Some d \<Rightarrow> d | None \<Rightarrow> replicate PAGE_SIZE 0) in
     obind (header_write_into h page) (\<lambda>page. file_write_page file 1 page))"

definition file_init :: "bytes \<Rightarrow> db_header \<Rightarrow> bytes sres" where
  "file_init file h =
     (let page = new_page 1 in
      obind (header_write_into h (rp_data page)) (\<lambda>data.
      obind (serialize_into empty_leaf (page\<lparr>rp_data := data\<rparr>)) (\<lambda>page.
      Ok (file_write_at file (rp_data page) 0))))"

text \<open>
  \<open>read_exact_at\<close> of the first page fails on a file shorter than a page; nothing past the
  first page is read.
\<close>

definition file_open :: "bytes \<Rightarrow> (bytes \<times> db_header) sres" where
  "file_open file =
     (if length file = 0 then
        obind (file_init file default_header) (\<lambda>file. Ok (file, default_header))
      else if length file < PAGE_SIZE then Err IoError
      else obind (header_read_from (slice 0 PAGE_SIZE file)) (\<lambda>h. Ok (file, h)))"

section \<open>Pages of a file\<close>

text \<open>The page \<open>pid\<close> of the file, as a partial function.\<close>

definition file_page :: "bytes \<Rightarrow> page_id \<Rightarrow> bytes option" where
  "file_page file pid =
     (if pid = 0 \<or> unat pid * PAGE_SIZE > length file then None
      else Some (slice ((unat pid - 1) * PAGE_SIZE) PAGE_SIZE file))"

lemma unat_page_pos: "pid \<noteq> (0 :: page_id) \<Longrightarrow> 0 < unat pid"
  by (simp add: unat_gt_0)

lemma page_end: "pid \<noteq> (0 :: page_id) \<Longrightarrow> (unat pid - 1) * n + n = unat pid * n"
  using unat_page_pos [of pid] by (simp add: diff_mult_distrib)

lemma file_read_page_eq: "file_read_page file pid = Ok (file_page file pid)"
  using page_end [of pid PAGE_SIZE]
  by (auto simp: file_read_page_def file_page_def file_offset_def)

lemma length_file_page: "file_page file pid = Some d \<Longrightarrow> length d = PAGE_SIZE"
  using page_end [of pid PAGE_SIZE]
  by (auto simp: file_page_def length_slice not_less split: if_splits)

lemma length_file_write_at:
  "length (file_write_at file data off) = max (length file) (off + length data)"
  by (simp add: file_write_at_def length_patch)

lemma file_write_page_ok:
  "pid \<noteq> 0 \<Longrightarrow> file_write_page file pid data = Ok (file_write_at file data ((unat pid - 1) * PAGE_SIZE))"
  by (simp add: file_write_page_def file_offset_def)

lemma page_disjoint:
  assumes "p \<noteq> q" and "p \<noteq> 0" and "q \<noteq> (0 :: page_id)"
  shows "(unat p - 1) * n + n \<le> (unat q - 1) * n \<or> (unat q - 1) * n + n \<le> (unat p - 1) * n"
proof -
  have "unat p \<noteq> unat q" using assms(1) by (simp add: word_unat_eq_iff)
  then have "unat p \<le> unat q - 1 \<or> unat q \<le> unat p - 1" by linarith
  then show ?thesis
    using page_end [OF assms(2), of n] page_end [OF assms(3), of n] mult_le_mono1 by metis
qed

text \<open>Reading a page after a page write.\<close>

lemma file_page_write_same:
  assumes "pid \<noteq> 0" and "length data = PAGE_SIZE"
  shows "file_page (file_write_at file data ((unat pid - 1) * PAGE_SIZE)) pid = Some data"
proof -
  have "\<not> unat pid * PAGE_SIZE > max (length file) ((unat pid - 1) * PAGE_SIZE + PAGE_SIZE)"
    using page_end [OF assms(1), of PAGE_SIZE] by simp
  then show ?thesis
    using assms
    by (simp add: file_page_def length_file_write_at)
      (simp add: file_write_at_def slice_patch_same)
qed

lemma slice_zero_fill:
  "a + n \<le> length xs \<Longrightarrow> slice a n (xs @ ys) = slice a n xs"
  by (simp add: slice_def)

lemma file_page_write_other:
  assumes "pid \<noteq> 0" and "length data = PAGE_SIZE" and "q \<noteq> pid" and "file_page file q = Some d"
  shows "file_page (file_write_at file data ((unat pid - 1) * PAGE_SIZE)) q = Some d"
proof -
  from assms(4) have q: "q \<noteq> 0" "unat q * PAGE_SIZE \<le> length file"
      "d = slice ((unat q - 1) * PAGE_SIZE) PAGE_SIZE file"
    by (auto simp: file_page_def split: if_splits)
  let ?fill = "file @ replicate ((unat pid - 1) * PAGE_SIZE + length data - length file) 0"
  have "slice ((unat q - 1) * PAGE_SIZE) PAGE_SIZE (patch ((unat pid - 1) * PAGE_SIZE) data ?fill)
      = slice ((unat q - 1) * PAGE_SIZE) PAGE_SIZE ?fill"
    using assms page_disjoint [of q pid PAGE_SIZE] q(1) by (intro slice_patch_other) auto
  also have "\<dots> = d"
    using q page_end [of q PAGE_SIZE] by (simp add: slice_zero_fill)
  finally show ?thesis
    using q by (simp add: file_page_def length_file_write_at) (simp add: file_write_at_def)
qed

lemma file_page_count_mono:
  "unat pid * PAGE_SIZE \<le> length file \<Longrightarrow> unat pid * PAGE_SIZE \<le> length (file_write_at file data off)"
  by (simp add: length_file_write_at)

text \<open>A page past the end of the file stays absent or becomes a page of zeros.\<close>

section \<open>Rewriting the header\<close>

text \<open>
  \<open>write_header\<close> changes the header bytes of page 1 and no other page; the b-tree content
  of page 1 is kept.
\<close>

lemma file_write_header_ok:
  assumes "file_page file 1 = Some d"
  shows "\<exists>file'. file_write_header file h = Ok file' \<and> length file' = length file
     \<and> file_page file' 1 = Some (apply_writes (header_writes h) d)
     \<and> (\<forall>p. p \<noteq> 1 \<longrightarrow> file_page file' p = file_page file p)"
proof -
  have len: "length d = PAGE_SIZE" using assms by (rule length_file_page)
  then have h: "HEADER_SIZE \<le> length d" by (simp add: HEADER_SIZE_def PAGE_SIZE_def)
  let ?d = "apply_writes (header_writes h) d"
  let ?f = "file_write_at file ?d ((unat (1 :: page_id) - 1) * PAGE_SIZE)"
  have len': "length ?d = PAGE_SIZE"
    using length_apply_writes [OF header_writes_bounds [OF h]] len by simp
  have lf: "PAGE_SIZE \<le> length file" using assms by (auto simp: file_page_def split: if_splits)
  have lf': "length ?f = length file" using len' lf by (simp add: length_file_write_at)
  have "file_write_header file h = Ok ?f"
    using assms h by (simp add: file_write_header_def file_read_page_eq header_write_into_def
        file_write_page_ok)
  moreover have "file_page ?f 1 = Some ?d" using len' by (intro file_page_write_same) auto
  moreover have "file_page ?f p = file_page file p" if "p \<noteq> 1" for p
  proof (cases "file_page file p")
    case None
    then show ?thesis unfolding file_page_def lf' by (auto split: if_splits)
  next
    case (Some d')
    then show ?thesis using file_page_write_other [OF _ len' that Some] by simp
  qed
  ultimately show ?thesis using lf' by blast
qed

section \<open>Creating a file\<close>

lemma header_read_prefix:
  assumes "HEADER_SIZE \<le> length buf" and "length buf' = length buf"
    and "take HEADER_SIZE buf' = take HEADER_SIZE buf"
  shows "header_read_from buf' = header_read_from buf"
proof -
  have s: "slice a n buf' = slice a n buf" if "a + n \<le> HEADER_SIZE" for a n
    using slice_slice [of a n HEADER_SIZE 0 buf'] slice_slice [of a n HEADER_SIZE 0 buf] that assms(3)
    by (simp add: slice_def)
  show ?thesis
    using assms(2) by (simp add: header_read_from_def get_u32_def s format_defs Let_def)
qed

lemma fresh_file_ok:
  "\<exists>file d. file_open [] = Ok (file, default_header) \<and> length file = PAGE_SIZE
     \<and> file_open file = Ok (file, default_header)
     \<and> file_page file 1 = Some d \<and> parse_node (page_from_bytes 1 d) = Ok empty_leaf
     \<and> node_at 1 (page_body 1 d) empty_leaf"
proof -
  let ?h = default_header
  let ?z = "rp_data (new_page 1)"
  have lz: "length ?z = PAGE_SIZE" "HEADER_SIZE \<le> length ?z"
    by (simp_all add: new_page_def HEADER_SIZE_def PAGE_SIZE_def)
  obtain data where data: "header_write_into ?h ?z = Ok data" "header_read_from data = Ok ?h"
      "length data = PAGE_SIZE"
    using header_roundtrip_core [OF lz(2), of ?h] lz by (auto simp: default_header_def)
  let ?p = "(new_page 1)\<lparr>rp_data := data\<rparr>"
  have "page_wf ?p" "leaf_fits \<lparr>ln_cells = []\<rparr> 1"
    using data by (simp_all add: page_wf_def leaf_fits_def leaf_used_def header_offset_def PAGE_SIZE_def)
  then obtain page where page: "serialize_into empty_leaf ?p = Ok page" "rp_id page = 1"
      "page_wf page" "parse_node page = Ok empty_leaf" "take 100 (rp_data page) = take 100 data"
    using leaf_roundtrip [of ?p "\<lparr>ln_cells = []\<rparr>"] by (auto simp: empty_leaf_def header_offset_def new_page_def)
  let ?d = "rp_data page"
  have ld: "length ?d = PAGE_SIZE" using page(3) by (simp add: page_wf_def)
  have f: "file_write_at [] ?d 0 = ?d" by (simp add: file_write_at_def patch_def)
  have "header_read_from ?d = Ok ?h"
    using header_read_prefix [of data ?d] data page(5) ld lz by (simp add: HEADER_SIZE_def)
  moreover have "slice 0 PAGE_SIZE ?d = ?d" using ld by (simp add: slice_def)
  ultimately have re: "file_open ?d = Ok (?d, ?h)" using ld by (simp add: file_open_def PAGE_SIZE_def)
  have "file_open [] = Ok (?d, ?h)"
    using data(1) page(1) f by (simp add: file_open_def file_init_def Let_def)
  moreover have "file_page ?d 1 = Some ?d" using ld by (simp add: file_page_def slice_def)
  moreover have "parse_node (page_from_bytes 1 ?d) = Ok empty_leaf"
    using page(2,4) ld by (simp add: parse_node_def page_from_bytes_full)
  moreover have "node_at 1 (page_body 1 ?d) empty_leaf"
    using serialize_into_node_at [OF page(1)] \<open>page_wf ?p\<close> \<open>leaf_fits \<lparr>ln_cells = []\<rparr> 1\<close>
    by (simp add: node_fits_def empty_leaf_def node_wf_def new_page_def)
  ultimately show ?thesis using re ld by blast
qed

text \<open>
  Opening an empty file initialises it with exactly one page, from which the default
  header is read back at the next open, and whose b-tree content is an empty leaf.
\<close>

theorem fresh_file_reopens:
  "\<exists>file. file_open [] = Ok (file, default_header) \<and> length file = PAGE_SIZE
     \<and> file_open file = Ok (file, default_header)
     \<and> (\<exists>d. file_page file 1 = Some d \<and> parse_node (page_from_bytes 1 d) = Ok empty_leaf)"
  using fresh_file_ok by blast

end
