(* ===== verification/Wal.thy ===== *)
theory Wal
  imports WalFrame DatabaseFile PageCache "HOL-Library.AList"
begin

text \<open>
  The write-ahead log, \<open>squrust-core/src/wal/mod.rs\<close> and \<open>wal/checkpoint.rs\<close>: the log
  file and its in-memory index, replay at open, the append of a commit, the versioned
  lookup and the checkpoint that folds the log into the database file. The lemmas show
  that a log of commits replays to the index it was written from, and that a torn last
  commit leaves no trace.
\<close>

section \<open>State\<close>

text \<open>The index is a hash map from a page to its versions, oldest first.\<close>

type_synonym wal_index = "(page_id \<times> (u64 \<times> bytes) list) list"

record wal =
  wi_file :: bytes
  wi_write_offset :: nat
  wi_index :: wal_index
  wi_max_version :: u64
  wi_db_size :: u32
  wi_salt :: u32

text \<open>\<open>index.entry(page).or_default().push((version, data))\<close>.\<close>

definition index_push :: "page_id \<Rightarrow> u64 \<times> bytes \<Rightarrow> wal_index \<Rightarrow> wal_index" where
  "index_push pid vd idx =
     AList.update pid ((case map_of idx pid of None \<Rightarrow> [] | Some vs \<Rightarrow> vs) @ [vd]) idx"

definition push_frames :: "u64 \<Rightarrow> wal_frame list \<Rightarrow> wal_index \<Rightarrow> wal_index" where
  "push_frames version fs idx = fold (\<lambda>f. index_push (wf_page_id f) (version, wf_data f)) fs idx"

text \<open>The effect of one complete transaction on the in-memory state.\<close>

definition publish_frames :: "u64 \<Rightarrow> u32 \<Rightarrow> wal_frame list \<Rightarrow> wal \<Rightarrow> wal" where
  "publish_frames version db_size fs w =
     w\<lparr>wi_index := push_frames version fs (wi_index w),
       wi_max_version := max (wi_max_version w) version,
       wi_db_size := db_size\<rparr>"

section \<open>Opening and replay\<close>

function replay_loop :: "bytes \<Rightarrow> nat \<Rightarrow> nat \<Rightarrow> wal_frame list \<Rightarrow> wal \<Rightarrow> nat \<times> wal" where
  "replay_loop file offset last_committed pending w =
     (if offset + FRAME_SIZE \<le> length file then
        (case frame_decode (slice offset FRAME_SIZE file) of
           Ok frame \<Rightarrow>
             let pending = pending @ [frame]; offset = offset + FRAME_SIZE in
             if is_commit frame then
               replay_loop file offset offset []
                 (publish_frames (wf_commit_version frame) (wf_db_size_after frame) pending w)
             else replay_loop file offset last_committed pending w
         | _ \<Rightarrow> (last_committed, w))
      else (last_committed, w))"
  by pat_completeness auto
termination
  by (relation "measure (\<lambda>(file, offset, l, p, w). length file - offset)")
    (auto simp: FRAME_SIZE_def FRAME_HEADER_SIZE_def)

declare replay_loop.simps [simp del]

definition wal_replay :: "wal \<Rightarrow> wal" where
  "wal_replay w =
     (let file = wi_file w; (last_committed, w) = replay_loop file 0 0 [] w in
      w\<lparr>wi_file := (if last_committed \<noteq> length file then take last_committed file else file),
        wi_write_offset := last_committed\<rparr>)"

definition wal_open :: "bytes \<Rightarrow> u32 \<Rightarrow> wal" where
  "wal_open file initial_db_size =
     wal_replay \<lparr>wi_file = file, wi_write_offset = 0, wi_index = [], wi_max_version = 0,
       wi_db_size = initial_db_size, wi_salt = 0x51475253\<rparr>"

section \<open>Commits\<close>

text \<open>Version on every frame, the database size on the last only.\<close>

fun stamp_frames :: "u64 \<Rightarrow> u32 \<Rightarrow> wal_frame list \<Rightarrow> wal_frame list" where
  "stamp_frames version db_size [] = []"
| "stamp_frames version db_size [f] =
     [f\<lparr>wf_commit_version := version, wf_db_size_after := db_size\<rparr>]"
| "stamp_frames version db_size (f # fs) =
     f\<lparr>wf_commit_version := version, wf_db_size_after := 0\<rparr> # stamp_frames version db_size fs"

text \<open>
  What the operating system does during the commit: nothing fails, the write of frame
  \<open>i\<close> fails after \<open>k\<close> of its bytes, or the final sync fails.
\<close>

datatype io_fault = NoFault | WriteFault nat nat | SyncFault

text \<open>The writes of a commit; the file is changed even when they end in an error.\<close>

fun write_frames :: "io_fault \<Rightarrow> bytes \<Rightarrow> nat \<Rightarrow> wal_frame list \<Rightarrow> nat sres \<times> bytes" where
  "write_frames fault file offset [] = (Ok offset, file)"
| "write_frames fault file offset (f # fs) =
     (case frame_encode f of
        Ok bs \<Rightarrow>
          (case fault of
             WriteFault 0 k \<Rightarrow> (Err IoError, file_write_at file (take k bs) offset)
           | WriteFault (Suc i) k \<Rightarrow>
               write_frames (WriteFault i k) (file_write_at file bs offset) (offset + FRAME_SIZE) fs
           | _ \<Rightarrow> write_frames fault (file_write_at file bs offset) (offset + FRAME_SIZE) fs)
      | Err e \<Rightarrow> (Err e, file)
      | Panic \<Rightarrow> (Panic, file)
      | Diverge \<Rightarrow> (Diverge, file))"

definition append_commit ::
    "io_fault \<Rightarrow> wal \<Rightarrow> wal_frame list \<Rightarrow> u64 \<Rightarrow> u32 \<Rightarrow> unit sres \<times> wal" where
  "append_commit fault w frames version db_size =
     (if frames = [] then (Ok (), w)
      else
        let frames = stamp_frames version db_size frames;
            (r, file) = write_frames fault (wi_file w) (wi_write_offset w) frames;
            w = w\<lparr>wi_file := file\<rparr>
        in case r of
             Ok offset \<Rightarrow>
               if fault = SyncFault then (Err IoError, w)
               else (Ok (), publish_frames version db_size frames (w\<lparr>wi_write_offset := offset\<rparr>))
           | Err e \<Rightarrow> (Err e, w)
           | Panic \<Rightarrow> (Panic, w)
           | Diverge \<Rightarrow> (Diverge, w))"

text \<open>The newest version at or below the snapshot.\<close>

definition wal_read_page :: "wal \<Rightarrow> page_id \<Rightarrow> u64 \<Rightarrow> bytes option" where
  "wal_read_page w pid at_version =
     (case map_of (wi_index w) pid of
        None \<Rightarrow> None
      | Some versions \<Rightarrow> map_option snd (find (\<lambda>(v, _). v \<le> at_version) (rev versions)))"

section \<open>Checkpoint\<close>

definition checkpoint_pages :: "wal_index \<Rightarrow> (page_id \<times> bytes) list" where
  "checkpoint_pages idx =
     sort_key fst (List.map_filter (\<lambda>(pid, versions).
       if versions = [] then None else Some (pid, snd (last versions))) idx)"

fun checkpoint_write ::
    "bytes \<Rightarrow> page_cache \<Rightarrow> (page_id \<times> bytes) list \<Rightarrow> (bytes \<times> page_cache) sres" where
  "checkpoint_write file cache [] = Ok (file, cache)"
| "checkpoint_write file cache ((pid, data) # ps) =
     obind (file_write_page file pid data) (\<lambda>file.
     checkpoint_write file (cache_invalidate pid cache) ps)"

definition checkpoint_header :: "wal \<Rightarrow> bytes \<Rightarrow> db_header sres" where
  "checkpoint_header w file =
     obind (file_read_page file 1) (\<lambda>p.
     Ok \<lparr>dh_page_size = word_of_nat PAGE_SIZE,
         dh_db_size_pages = max (file_page_count file) (wi_db_size w),
         dh_change_counter = max (ucast (wi_max_version w)) 1,
         dh_schema_cookie = 1, dh_freelist_trunk = 0, dh_freelist_count = 0,
         dh_user_version = (case p of Some d \<Rightarrow> be_u32 (slice 60 4 d) | None \<Rightarrow> 0)\<rparr>)"

definition wal_checkpoint :: "wal \<Rightarrow> bytes \<Rightarrow> page_cache \<Rightarrow> (wal \<times> bytes \<times> page_cache) sres" where
  "wal_checkpoint w file cache =
     (if wi_index w = [] then Ok (w, file, cache)
      else
        obind (checkpoint_write file cache (checkpoint_pages (wi_index w))) (\<lambda>(file, cache).
        obind (checkpoint_header w file) (\<lambda>header.
        obind (file_write_header file header) (\<lambda>file.
        Ok (w\<lparr>wi_file := [], wi_write_offset := 0, wi_index := []\<rparr>, file, cache)))))"

section \<open>Replaying whole frames\<close>

lemma FRAME_SIZE_pos [simp]: "0 < FRAME_SIZE"
  by (simp add: FRAME_SIZE_def FRAME_HEADER_SIZE_def)

lemma replay_frame:
  assumes "drop offset file = frame_bytes f @ rest" and "frame_wf f"
  shows "replay_loop file offset lc pending w =
    (if is_commit f then
       replay_loop file (offset + FRAME_SIZE) (offset + FRAME_SIZE) []
         (publish_frames (wf_commit_version f) (wf_db_size_after f) (pending @ [f]) w)
     else replay_loop file (offset + FRAME_SIZE) lc (pending @ [f]) w)"
proof -
  have lf: "length (frame_bytes f) = FRAME_SIZE" using assms(2) by (rule length_frame_bytes)
  have "length file - offset = FRAME_SIZE + length rest"
    using arg_cong [OF assms(1), of length] lf by simp
  moreover have "0 < FRAME_SIZE" by simp
  ultimately have "offset + FRAME_SIZE \<le> length file" by linarith
  moreover have "slice offset FRAME_SIZE file = frame_bytes f"
    using assms(1) lf by (simp add: slice_def)
  ultimately show ?thesis
    using frame_decode_bytes [OF assms(2)]
    by (simp add: replay_loop.simps [of "file" offset] Let_def)
qed

lemma drop_frame:
  assumes "drop offset file = frame_bytes f @ rest" and "frame_wf f"
  shows "drop (offset + FRAME_SIZE) file = rest"
proof -
  have "drop (offset + FRAME_SIZE) file = drop FRAME_SIZE (drop offset file)" by (simp add: add.commute)
  then show ?thesis using assms length_frame_bytes [OF assms(2)] by simp
qed

definition frames_bytes :: "wal_frame list \<Rightarrow> bytes" where
  "frames_bytes fs = concat (map frame_bytes fs)"

lemma frames_bytes_simps [simp]:
  "frames_bytes [] = []" "frames_bytes (f # fs) = frame_bytes f @ frames_bytes fs"
  "frames_bytes (fs @ gs) = frames_bytes fs @ frames_bytes gs"
  by (simp_all add: frames_bytes_def)

lemma length_frames_bytes: "list_all frame_wf fs \<Longrightarrow> length (frames_bytes fs) = length fs * FRAME_SIZE"
  by (induction fs) (simp_all add: length_frame_bytes)

text \<open>Frames that are no commit frames stay pending.\<close>

lemma replay_pending:
  "drop offset file = frames_bytes fs @ rest \<Longrightarrow> list_all (\<lambda>f. frame_wf f \<and> \<not> is_commit f) fs \<Longrightarrow>
   replay_loop file offset lc pending w =
     replay_loop file (offset + length fs * FRAME_SIZE) lc (pending @ fs) w
   \<and> drop (offset + length fs * FRAME_SIZE) file = rest"
proof (induction fs arbitrary: offset pending)
  case (Cons f fs)
  then have d: "drop offset file = frame_bytes f @ (frames_bytes fs @ rest)" and f: "frame_wf f" "\<not> is_commit f"
    by auto
  have "replay_loop file (offset + FRAME_SIZE) lc (pending @ [f]) w =
      replay_loop file (offset + FRAME_SIZE + length fs * FRAME_SIZE) lc (pending @ [f] @ fs) w
    \<and> drop (offset + FRAME_SIZE + length fs * FRAME_SIZE) file = rest"
    using Cons.IH [of "offset + FRAME_SIZE" "pending @ [f]"] drop_frame [OF d f(1)] Cons.prems(2) by simp
  then show ?case using replay_frame [OF d f(1)] f(2) by (simp add: add.assoc)
qed simp

section \<open>A log of commits\<close>

text \<open>A commit is its version, the database size and the frames handed to \<open>append_commit\<close>.\<close>

type_synonym commit = "u64 \<times> u32 \<times> wal_frame list"

definition commit_ok :: "commit \<Rightarrow> bool" where
  "commit_ok c = (case c of (v, n, fs) \<Rightarrow> fs \<noteq> [] \<and> n \<noteq> 0 \<and> list_all frame_wf fs)"

definition commit_log :: "commit \<Rightarrow> bytes" where
  "commit_log c = (case c of (v, n, fs) \<Rightarrow> frames_bytes (stamp_frames v n fs))"

definition apply_commit :: "commit \<Rightarrow> wal \<Rightarrow> wal" where
  "apply_commit c w = (case c of (v, n, fs) \<Rightarrow> publish_frames v n fs w)"

definition log_bytes :: "commit list \<Rightarrow> bytes" where
  "log_bytes cs = concat (map commit_log cs)"

lemma log_bytes_simps [simp]:
  "log_bytes [] = []" "log_bytes (c # cs) = commit_log c @ log_bytes cs"
  "log_bytes (cs @ ds) = log_bytes cs @ log_bytes ds"
  by (simp_all add: log_bytes_def)

lemma length_stamp [simp]: "length (stamp_frames v n fs) = length fs"
  by (induction v n fs rule: stamp_frames.induct) auto

lemma stamp_wf: "list_all frame_wf fs \<Longrightarrow> list_all frame_wf (stamp_frames v n fs)"
  by (induction v n fs rule: stamp_frames.induct) (auto simp: frame_wf_def)

lemma stamp_split:
  assumes "fs \<noteq> []" and "list_all frame_wf fs"
  shows "\<exists>gs g. stamp_frames v n fs = gs @ [g] \<and> length gs = length fs - 1
    \<and> list_all (\<lambda>f. frame_wf f \<and> \<not> is_commit f) gs
    \<and> frame_wf g \<and> wf_commit_version g = v \<and> wf_db_size_after g = n"
  using assms
proof (induction v n fs rule: stamp_frames.induct)
  case (2 v n f)
  then show ?case by (auto simp: frame_wf_def)
next
  case (3 v n f f' fs)
  then obtain gs g where g: "stamp_frames v n (f' # fs) = gs @ [g]" "length gs = length fs"
      "list_all (\<lambda>f. frame_wf f \<and> \<not> is_commit f) gs" "frame_wf g"
      "wf_commit_version g = v" "wf_db_size_after g = n"
    by auto
  show ?case
    by (rule exI [of _ "f\<lparr>wf_commit_version := v, wf_db_size_after := 0\<rparr> # gs"], rule exI [of _ g])
      (use 3(3) g in \<open>auto simp: frame_wf_def is_commit_def\<close>)
qed simp

text \<open>Stamping does not touch what the index keeps of a frame.\<close>

lemma push_frames_stamp [simp]: "push_frames v (stamp_frames v' n fs) idx = push_frames v fs idx"
  by (induction v' n fs arbitrary: idx rule: stamp_frames.induct) (auto simp: push_frames_def)

lemma publish_frames_stamp [simp]: "publish_frames v n (stamp_frames v' n' fs) w = publish_frames v n fs w"
  by (simp add: publish_frames_def)

lemma replay_commit:
  assumes "commit_ok c" and "drop offset file = commit_log c @ rest"
  shows "replay_loop file offset lc [] w =
      replay_loop file (offset + length (commit_log c)) (offset + length (commit_log c)) [] (apply_commit c w)
    \<and> drop (offset + length (commit_log c)) file = rest"
proof -
  obtain v n fs where c: "c = (v, n, fs)" by (cases c)
  with assms(1) have fs: "fs \<noteq> []" "list_all frame_wf fs" and n: "n \<noteq> 0" by (auto simp: commit_ok_def)
  obtain gs g where g: "stamp_frames v n fs = gs @ [g]"
      "list_all (\<lambda>f. frame_wf f \<and> \<not> is_commit f) gs" "frame_wf g"
      "wf_commit_version g = v" "wf_db_size_after g = n"
    using stamp_split [OF fs, of v n] by blast
  have d: "drop offset file = frames_bytes gs @ frame_bytes g @ rest"
    using assms(2) c g(1) by (simp add: commit_log_def)
  let ?o = "offset + length gs * FRAME_SIZE"
  have p: "replay_loop file offset lc [] w = replay_loop file ?o lc gs w"
    "drop ?o file = frame_bytes g @ rest"
    using replay_pending [OF d g(2), of lc "[]" w] by simp_all
  have len: "length (commit_log c) = length gs * FRAME_SIZE + FRAME_SIZE"
    using length_frames_bytes [of "gs @ [g]"] g c by (auto simp: commit_log_def list_all_iff)
  have "publish_frames v n (gs @ [g]) w = apply_commit c w"
    using g(1) by (metis apply_commit_def c case_prod_conv publish_frames_stamp)
  then have "replay_loop file ?o lc gs w =
      replay_loop file (?o + FRAME_SIZE) (?o + FRAME_SIZE) [] (apply_commit c w)"
    using replay_frame [OF p(2) g(3)] n g by (simp add: is_commit_def)
  then show ?thesis using p(1) drop_frame [OF p(2) g(3)] len by (simp add: add.assoc)
qed

text \<open>
  A torn tail: whole frames without a commit frame, then bytes that are too few for a
  frame or do not decode.
\<close>

definition torn_tail :: "bytes \<Rightarrow> bool" where
  "torn_tail tail \<longleftrightarrow> (\<exists>fs junk. tail = frames_bytes fs @ junk
     \<and> list_all (\<lambda>f. frame_wf f \<and> \<not> is_commit f) fs
     \<and> (length junk < FRAME_SIZE \<or> (\<forall>f. frame_decode (take FRAME_SIZE junk) \<noteq> Ok f)))"

lemma replay_torn:
  assumes "torn_tail tail" and "drop offset file = tail" and "offset \<le> length file"
  shows "replay_loop file offset lc [] w = (lc, w)"
proof -
  from assms(1) obtain fs junk where t: "tail = frames_bytes fs @ junk"
      "list_all (\<lambda>f. frame_wf f \<and> \<not> is_commit f) fs"
      "length junk < FRAME_SIZE \<or> (\<forall>f. frame_decode (take FRAME_SIZE junk) \<noteq> Ok f)"
    by (auto simp: torn_tail_def)
  let ?o = "offset + length fs * FRAME_SIZE"
  have p: "replay_loop file offset lc [] w = replay_loop file ?o lc fs w" "drop ?o file = junk"
    using replay_pending [of offset "file" fs junk] t assms(2) by simp_all
  have "slice ?o FRAME_SIZE file = take FRAME_SIZE junk" using p(2) by (simp add: slice_def)
  moreover have "length junk < FRAME_SIZE \<Longrightarrow> \<not> ?o + FRAME_SIZE \<le> length file"
    using arg_cong [OF p(2), of length] unfolding length_drop by linarith
  ultimately have "replay_loop file ?o lc fs w = (lc, w)"
    using t(3) by (auto simp: replay_loop.simps [of "file" ?o] Let_def split: outcome.split)
  with p(1) show ?thesis by simp
qed

lemma replay_log:
  assumes "list_all commit_ok cs" and "torn_tail tail" and "drop offset file = log_bytes cs @ tail"
    and "offset \<le> length file"
  shows "replay_loop file offset offset [] w = (offset + length (log_bytes cs), fold apply_commit cs w)"
  using assms
proof (induction cs arbitrary: offset w)
  case Nil
  then show ?case using replay_torn [of tail offset "file" offset w] by simp
next
  case (Cons c cs)
  have d: "drop offset file = commit_log c @ (log_bytes cs @ tail)" using Cons.prems by simp
  let ?o = "offset + length (commit_log c)"
  have r: "replay_loop file offset offset [] w = replay_loop file ?o ?o [] (apply_commit c w)"
    "drop ?o file = log_bytes cs @ tail"
    using replay_commit [OF _ d, of offset w] Cons.prems(1) by simp_all
  have "length (drop offset file) = length (commit_log c) + length (log_bytes cs @ tail)" using d by simp
  then have "?o \<le> length file" using Cons.prems(4) by simp
  then have "replay_loop file ?o ?o [] (apply_commit c w)
      = (?o + length (log_bytes cs), fold apply_commit cs (apply_commit c w))"
    using Cons.IH [OF _ _ r(2)] Cons.prems by simp
  with r(1) show ?case by simp
qed

definition wal_empty :: "u32 \<Rightarrow> wal" where
  "wal_empty n = \<lparr>wi_file = [], wi_write_offset = 0, wi_index = [], wi_max_version = 0,
     wi_db_size = n, wi_salt = 0x51475253\<rparr>"

text \<open>The state after the commits \<open>cs\<close>: their index, over a file of exactly their bytes.\<close>

definition wal_of :: "u32 \<Rightarrow> commit list \<Rightarrow> wal" where
  "wal_of n cs =
     (fold apply_commit cs (wal_empty n))
       \<lparr>wi_file := log_bytes cs, wi_write_offset := length (log_bytes cs)\<rparr>"

lemma publish_frames_file:
  "publish_frames v n fs (w\<lparr>wi_file := file\<rparr>) = (publish_frames v n fs w)\<lparr>wi_file := file\<rparr>"
  "publish_frames v n fs (w\<lparr>wi_write_offset := off\<rparr>) = (publish_frames v n fs w)\<lparr>wi_write_offset := off\<rparr>"
  by (simp_all add: publish_frames_def)

lemma fold_apply_commit_file:
  "fold apply_commit cs (w\<lparr>wi_file := file\<rparr>) = (fold apply_commit cs w)\<lparr>wi_file := file\<rparr>"
  by (induction cs arbitrary: w) (auto simp: apply_commit_def publish_frames_file split: prod.split)

lemma wal_open_log:
  assumes "list_all commit_ok cs" and "torn_tail tail"
  shows "wal_open (log_bytes cs @ tail) n = wal_of n cs"
proof -
  let ?f = "log_bytes cs @ tail"
  have "replay_loop ?f 0 0 [] ((wal_empty n)\<lparr>wi_file := ?f\<rparr>)
      = (length (log_bytes cs), (fold apply_commit cs (wal_empty n))\<lparr>wi_file := ?f\<rparr>)"
    using replay_log [OF assms, of 0 ?f] by (simp add: fold_apply_commit_file)
  then show ?thesis
    by (auto simp: wal_open_def wal_replay_def wal_of_def wal_empty_def Let_def)
qed

lemma torn_tail_Nil [simp]: "torn_tail []"
  unfolding torn_tail_def by (rule exI [of _ "[]"], rule exI [of _ "[]"]) simp

text \<open>A commit that was written in part only is a torn tail.\<close>

lemma torn_tail_prefix:
  assumes "commit_ok c" and "k < length (commit_log c)"
  shows "torn_tail (take k (commit_log c))"
proof -
  obtain v n fs where c: "c = (v, n, fs)" by (cases c)
  with assms(1) have fs: "fs \<noteq> []" "list_all frame_wf fs" by (auto simp: commit_ok_def)
  obtain gs g where g: "stamp_frames v n fs = gs @ [g]" "frame_wf g"
      "list_all (\<lambda>f. frame_wf f \<and> \<not> is_commit f) gs"
    using stamp_split [OF fs, of v n] by blast
  let ?m = "k div FRAME_SIZE"
  have wf: "list_all frame_wf (gs @ [g])" using g by (auto simp: list_all_iff)
  have cl: "commit_log c = frames_bytes (gs @ [g])" using c g(1) by (simp add: commit_log_def)
  then have "k < (length gs + 1) * FRAME_SIZE" using assms(2) length_frames_bytes [OF wf] by simp
  then have "k div FRAME_SIZE < length gs + 1" by (intro less_mult_imp_div_less)
  then have m: "?m \<le> length gs" by simp
  define hs where "hs = take ?m gs"
  define rest where "rest = drop ?m (gs @ [g])"
  have "gs @ [g] = hs @ rest" using m unfolding hs_def rest_def by simp
  then have cl': "commit_log c = frames_bytes hs @ frames_bytes rest" unfolding cl by simp
  have hs: "list_all (\<lambda>f. frame_wf f \<and> \<not> is_commit f) hs"
    using g(3) by (auto simp: hs_def list_all_iff dest: in_set_takeD)
  have "length (frames_bytes hs) = ?m * FRAME_SIZE"
    using hs m length_frames_bytes [of hs] by (simp add: hs_def list_all_iff)
  then have "take k (commit_log c) = frames_bytes hs @ take (k mod FRAME_SIZE) (frames_bytes rest)"
    unfolding cl' by (simp add: minus_div_mult_eq_mod)
  moreover have "length (take (k mod FRAME_SIZE) (frames_bytes rest)) < FRAME_SIZE"
    by (simp add: min.strict_coboundedI2)
  ultimately show ?thesis using hs unfolding torn_tail_def by blast
qed

section \<open>Appending a commit\<close>

lemma file_write_inside:
  "off \<le> length file \<Longrightarrow>
   file_write_at file data off = take off file @ data @ drop (off + length data) file"
  by (simp add: file_write_at_def patch_def)

lemma write_frames_ok:
  "off \<le> length log \<Longrightarrow> list_all frame_wf fs \<Longrightarrow> (\<forall>i k. fault \<noteq> WriteFault i k) \<Longrightarrow>
   write_frames fault log off fs =
     (Ok (off + length fs * FRAME_SIZE),
      take off log @ frames_bytes fs @ drop (off + length fs * FRAME_SIZE) log)"
proof (induction fs arbitrary: off log)
  case (Cons f fs)
  let ?b = "frame_bytes f"
  let ?log = "take off log @ ?b @ drop (off + FRAME_SIZE) log"
  have lf: "length ?b = FRAME_SIZE" using Cons.prems by (simp add: length_frame_bytes)
  have "write_frames fault log off (f # fs) = write_frames fault ?log (off + FRAME_SIZE) fs"
    using Cons.prems lf by (cases fault) (simp_all add: frame_encode_bytes file_write_inside)
  also have "\<dots> = (Ok (off + FRAME_SIZE + length fs * FRAME_SIZE),
      take (off + FRAME_SIZE) ?log @ frames_bytes fs @ drop (off + FRAME_SIZE + length fs * FRAME_SIZE) ?log)"
    using Cons.prems lf by (intro Cons.IH) auto
  also have "take (off + FRAME_SIZE) ?log = take off log @ ?b" using Cons.prems lf by simp
  also have "drop (off + FRAME_SIZE + length fs * FRAME_SIZE) ?log
      = drop (off + FRAME_SIZE + length fs * FRAME_SIZE) log"
    using Cons.prems lf by (simp add: ac_simps)
  finally show ?case by (simp add: add.assoc)
qed simp

text \<open>Without an I/O failure the state after the commit is the state of the longer history.\<close>

lemma append_commit_ok:
  assumes "wi_write_offset w \<le> length (wi_file w)" and "commit_ok (v, n, fs)"
  shows "append_commit NoFault w fs v n =
    (Ok (), (apply_commit (v, n, fs) w)
      \<lparr>wi_file := take (wi_write_offset w) (wi_file w) @ commit_log (v, n, fs)
          @ drop (wi_write_offset w + length (commit_log (v, n, fs))) (wi_file w),
       wi_write_offset := wi_write_offset w + length (commit_log (v, n, fs))\<rparr>)"
proof -
  from assms(2) have fs: "fs \<noteq> []" "list_all frame_wf fs" by (auto simp: commit_ok_def)
  let ?st = "stamp_frames v n fs"
  have "length (commit_log (v, n, fs)) = length fs * FRAME_SIZE"
    using length_frames_bytes [OF stamp_wf [OF fs(2)], of v n] by (simp add: commit_log_def)
  then show ?thesis
    using write_frames_ok [OF assms(1) stamp_wf [OF fs(2)], of NoFault v n] fs(1)
    by (simp add: append_commit_def Let_def commit_log_def apply_commit_def publish_frames_def)
qed

lemma wal_of_snoc:
  "wal_of n0 (cs @ [c]) =
     (apply_commit c (wal_of n0 cs))\<lparr>wi_file := log_bytes (cs @ [c]),
        wi_write_offset := length (log_bytes (cs @ [c]))\<rparr>"
  by (cases c) (simp add: wal_of_def apply_commit_def publish_frames_def)

lemma append_commit_wal_of:
  assumes "commit_ok (v, n, fs)"
  shows "append_commit NoFault (wal_of n0 cs) fs v n = (Ok (), wal_of n0 (cs @ [(v, n, fs)]))"
proof -
  have w: "wi_write_offset (wal_of n0 cs) = length (log_bytes cs)" "wi_file (wal_of n0 cs) = log_bytes cs"
    by (simp_all add: wal_of_def)
  show ?thesis
    unfolding wal_of_snoc using append_commit_ok [of "wal_of n0 cs" v n fs] assms w by simp
qed

text \<open>
  C18. Commits are durable and atomic. A commit appended to the log of the history \<open>cs\<close>
  succeeds and yields the state of \<open>cs\<close> followed by it, which is also what reopening the
  file yields. If the machine stops when only \<open>k\<close> bytes of the commit have reached the
  file, fewer than all of them, reopening yields the state of \<open>cs\<close>: index, newest version
  and database size are those before the commit, and the torn bytes are cut off.
\<close>

theorem commit_durable_atomic:
  assumes "list_all commit_ok cs" and "commit_ok (v, n, fs)"
  shows "append_commit NoFault (wal_of n0 cs) fs v n = (Ok (), wal_of n0 (cs @ [(v, n, fs)]))
    \<and> wal_open (wi_file (wal_of n0 (cs @ [(v, n, fs)]))) n0 = wal_of n0 (cs @ [(v, n, fs)])
    \<and> (\<forall>k < length (commit_log (v, n, fs)).
         wal_open (wi_file (wal_of n0 cs) @ take k (commit_log (v, n, fs))) n0 = wal_of n0 cs)"
proof -
  have f: "wi_file (wal_of n0 ds) = log_bytes ds" for ds by (simp add: wal_of_def)
  show ?thesis
    unfolding f
    using append_commit_wal_of [OF assms(2)] assms
      wal_open_log [of "cs @ [(v, n, fs)]" "[]" n0] wal_open_log [OF assms(1) torn_tail_prefix [OF assms(2)], of _ n0]
    by auto
qed

section \<open>Versioned reads\<close>

text \<open>All versions of a page that a history holds, oldest first.\<close>

definition page_versions :: "commit list \<Rightarrow> page_id \<Rightarrow> (u64 \<times> bytes) list" where
  "page_versions cs pid =
     concat (map (\<lambda>(v, n, fs). map (\<lambda>f. (v, wf_data f)) (filter (\<lambda>f. wf_page_id f = pid) fs)) cs)"

definition index_versions :: "wal_index \<Rightarrow> page_id \<Rightarrow> (u64 \<times> bytes) list" where
  "index_versions idx pid = (case map_of idx pid of None \<Rightarrow> [] | Some vs \<Rightarrow> vs)"

lemma index_versions_push:
  "index_versions (index_push pid vd idx) q = index_versions idx q @ (if q = pid then [vd] else [])"
  by (simp add: index_versions_def index_push_def update_conv')

lemma index_versions_push_frames:
  "index_versions (push_frames v fs idx) q =
     index_versions idx q @ map (\<lambda>f. (v, wf_data f)) (filter (\<lambda>f. wf_page_id f = q) fs)"
  by (induction fs arbitrary: idx) (auto simp: push_frames_def index_versions_push)

lemma index_versions_apply_commit:
  "index_versions (wi_index (apply_commit c w)) q = index_versions (wi_index w) q @ page_versions [c] q"
  by (cases c) (simp add: apply_commit_def publish_frames_def index_versions_push_frames page_versions_def)

lemma index_versions_fold:
  "index_versions (wi_index (fold apply_commit cs w)) q = index_versions (wi_index w) q @ page_versions cs q"
  by (induction cs arbitrary: w) (auto simp: index_versions_apply_commit page_versions_def)

lemma wal_read_page_versions:
  "wal_read_page w pid at =
     map_option snd (find (\<lambda>(v, _). v \<le> at) (rev (index_versions (wi_index w) pid)))"
  by (simp add: wal_read_page_def index_versions_def split: option.split)

lemma wal_read_page_of:
  "wal_read_page (wal_of n0 cs) pid at =
     map_option snd (find (\<lambda>(v, _). v \<le> at) (rev (page_versions cs pid)))"
  by (simp add: wal_read_page_versions wal_of_def index_versions_fold wal_empty_def
      index_versions_def [of "[]"])

lemma page_versions_snoc: "page_versions (cs @ [c]) pid = page_versions cs pid @ page_versions [c] pid"
  by (simp add: page_versions_def)

lemma find_append: "find P (xs @ ys) = (case find P xs of None \<Rightarrow> find P ys | Some x \<Rightarrow> Some x)"
  by (induction xs) auto

lemma wal_read_later:
  assumes "\<forall>c\<in>set later. at < fst c"
  shows "wal_read_page (wal_of n0 (cs @ later)) pid at = wal_read_page (wal_of n0 cs) pid at"
proof -
  have "find (\<lambda>(v, _). v \<le> at) (rev (page_versions later pid)) = None"
    using assms by (auto simp: find_None_iff page_versions_def)
  moreover have "page_versions (cs @ later) pid = page_versions cs pid @ page_versions later pid"
    by (simp add: page_versions_def)
  ultimately show ?thesis by (simp add: wal_read_page_of find_append)
qed

lemma wal_read_snoc:
  assumes "v \<le> at"
  shows "wal_read_page (wal_of n0 (cs @ [(v, n, fs)])) pid at =
    (let gs = filter (\<lambda>f. wf_page_id f = pid) fs in
     if gs = [] then wal_read_page (wal_of n0 cs) pid at else Some (wf_data (last gs)))"
proof -
  have "page_versions (cs @ [(v, n, fs)]) pid
      = page_versions cs pid @ map (\<lambda>f. (v, wf_data f)) (filter (\<lambda>f. wf_page_id f = pid) fs)"
    by (simp add: page_versions_def)
  moreover have "find (\<lambda>(v, _). v \<le> at) (rev (map (\<lambda>f. (v, wf_data f)) gs))
      = (if gs = [] then None else Some (v, wf_data (last gs)))" for gs :: "wal_frame list"
    using assms by (cases gs rule: rev_cases) auto
  ultimately show ?thesis by (simp add: wal_read_page_of find_append Let_def)
qed

text \<open>
  What a snapshot reads from the log. A reader at version \<open>at\<close> is not affected by
  later commits, those whose version is above \<open>at\<close>. A commit at or below \<open>at\<close> shows the
  last frame it has for the page, and pages it has no frame for read as before it.
\<close>

theorem wal_read_snapshot:
  assumes "\<forall>c\<in>set later. at < fst c" and "v \<le> at"
  shows "wal_read_page (wal_of n0 (cs @ later)) pid at = wal_read_page (wal_of n0 cs) pid at
    \<and> wal_read_page (wal_of n0 ((cs @ [(v, n, fs)]) @ later)) pid at =
      (let gs = filter (\<lambda>f. wf_page_id f = pid) fs in
       if gs = [] then wal_read_page (wal_of n0 cs) pid at else Some (wf_data (last gs)))"
  using wal_read_later [OF assms(1)] wal_read_snoc [OF assms(2)] by (simp only:)

section \<open>A failed commit\<close>

text \<open>
  C38. A commit whose final sync fails is reported as an error and is not in the index,
  but its frames stay in the file past the write offset. A later, shorter commit that
  succeeds overwrites only the first of them; if the database is then reopened, the
  remaining frames of the failed transaction are replayed as committed.
\<close>

theorem failed_commit_resurrected:
  assumes "frame_wf f1" and "frame_wf f2" and "frame_wf g" and "n \<noteq> 0" and "m \<noteq> 0"
    and "wf_page_id f2 \<noteq> wf_page_id g"
  shows "\<exists>w1 w2. append_commit SyncFault (wal_of n0 []) [f1, f2] v n = (Err IoError, w1)
    \<and> append_commit NoFault w1 [g] v' m = (Ok (), w2)
    \<and> wal_read_page w2 (wf_page_id f2) v = None
    \<and> wal_read_page (wal_open (wi_file w2) n0) (wf_page_id f2) v = Some (wf_data f2)"
proof -
  let ?st = "stamp_frames v n [f1, f2]"
  let ?f2 = "f2\<lparr>wf_commit_version := v, wf_db_size_after := n\<rparr>"
  have wf: "list_all frame_wf ?st" using assms(1,2) by (simp add: frame_wf_def)
  let ?w1 = "(wal_empty n0)\<lparr>wi_file := frames_bytes ?st\<rparr>"
  have e: "wal_of n0 [] = wal_empty n0" by (simp add: wal_of_def wal_empty_def)
  have c1: "append_commit SyncFault (wal_of n0 []) [f1, f2] v n = (Err IoError, ?w1)"
    using write_frames_ok [OF _ wf, of 0 "[]" SyncFault]
    by (simp add: e append_commit_def Let_def wal_empty_def)
  have ok: "commit_ok (v', m, [g])" "commit_ok (v, n, [f2])"
    using assms by (simp_all add: commit_ok_def)
  have lg: "length (commit_log (v', m, [g])) = FRAME_SIZE"
    using assms(3) by (simp add: commit_log_def length_frame_bytes frame_wf_def)
  have lf: "length (frame_bytes (f1\<lparr>wf_commit_version := v, wf_db_size_after := 0\<rparr>)) = FRAME_SIZE"
    using assms(1) by (simp add: length_frame_bytes frame_wf_def)
  have rest: "drop FRAME_SIZE (frames_bytes ?st) = commit_log (v, n, [f2])"
    using lf by (simp add: commit_log_def)
  let ?w2 = "(apply_commit (v', m, [g]) ?w1)\<lparr>wi_file := commit_log (v', m, [g]) @ commit_log (v, n, [f2]),
       wi_write_offset := FRAME_SIZE\<rparr>"
  have c2: "append_commit NoFault ?w1 [g] v' m = (Ok (), ?w2)"
    using append_commit_ok [of ?w1 v' m "[g]"] ok(1) lg rest by (simp add: wal_empty_def)
  have "index_versions (wi_index ?w2) (wf_page_id f2) = []"
    using assms(6) by (simp add: index_versions_apply_commit page_versions_def wal_empty_def
        index_versions_def [of "[]"])
  then have r1: "wal_read_page ?w2 (wf_page_id f2) v = None" by (simp add: wal_read_page_versions)
  have "wal_open (wi_file ?w2) n0 = wal_of n0 [(v', m, [g]), (v, n, [f2])]"
    using wal_open_log [of "[(v', m, [g]), (v, n, [f2])]" "[]" n0] ok by simp
  then have "wal_read_page (wal_open (wi_file ?w2) n0) (wf_page_id f2) v = Some (wf_data f2)"
    using assms(6) by (simp add: wal_read_page_of page_versions_def)
  with c1 c2 r1 show ?thesis by blast
qed

section \<open>Witnesses\<close>

definition test_frame :: "page_id \<Rightarrow> u8 \<Rightarrow> wal_frame" where
  "test_frame pid b = \<lparr>wf_page_id = pid, wf_commit_version = 0, wf_db_size_after = 0, wf_salt = 0,
     wf_data = replicate PAGE_SIZE b\<rparr>"

lemma test_frame_wf [simp]: "frame_wf (test_frame pid b)" "wf_page_id (test_frame pid b) = pid"
  by (simp_all add: test_frame_def frame_wf_def)

lemma test_commit_ok: "commit_ok (v, 3, [test_frame 2 7, test_frame 3 8])"
  by (simp add: commit_ok_def)

theorem commit_durable_atomic_witness:
  "append_commit NoFault (wal_of 1 []) [test_frame 2 7, test_frame 3 8] 1 3 =
     (Ok (), wal_of 1 [(1, 3, [test_frame 2 7, test_frame 3 8])])
   \<and> wal_open (take 5000 (commit_log (1, 3, [test_frame 2 7, test_frame 3 8]))) 1 = wal_of 1 []"
proof -
  have "length (commit_log (1, 3, [test_frame 2 7, test_frame 3 8])) = 2 * FRAME_SIZE"
    using length_frames_bytes [OF stamp_wf [of "[test_frame 2 7, test_frame 3 8]"], of 1 3]
    by (simp add: commit_log_def)
  then have "5000 < length (commit_log (1, 3, [test_frame 2 7, test_frame 3 8]))"
    by (simp add: FRAME_SIZE_def FRAME_HEADER_SIZE_def PAGE_SIZE_def)
  then show ?thesis
    using commit_durable_atomic [of "[]" 1 3 "[test_frame 2 7, test_frame 3 8]" 1] test_commit_ok
    by (simp add: wal_of_def [of 1 "[]"] wal_empty_def)
qed

theorem wal_read_snapshot_witness:
  "wal_read_page (wal_of 1 ([] @ [(5, 3, [test_frame 2 7])])) 2 4 = wal_read_page (wal_of 1 []) 2 4"
  using wal_read_snapshot [of "[(5, 3, [test_frame 2 7])]" 4 1 1 "[]" 2] by simp

theorem failed_commit_resurrected_witness:
  "\<exists>w1 w2. append_commit SyncFault (wal_of 1 []) [test_frame 2 7, test_frame 3 8] 1 3 = (Err IoError, w1)
    \<and> append_commit NoFault w1 [test_frame 2 9] 1 3 = (Ok (), w2)
    \<and> wal_read_page w2 3 1 = None
    \<and> wal_read_page (wal_open (wi_file w2) 1) 3 1 = Some (replicate PAGE_SIZE 8)"
  using failed_commit_resurrected [of "test_frame 2 7" "test_frame 3 8" "test_frame 2 9" 3 3 1 1 1]
  by (simp add: test_frame_def frame_wf_def)

section \<open>What a checkpoint writes\<close>

text \<open>A well-formed index: no page 0, no empty version list, whole pages.\<close>

definition index_ok :: "wal_index \<Rightarrow> bool" where
  "index_ok idx \<longleftrightarrow> distinct (map fst idx)
     \<and> (\<forall>pid vs. map_of idx pid = Some vs \<longrightarrow>
          pid \<noteq> 0 \<and> vs \<noteq> [] \<and> (\<forall>v d. (v, d) \<in> set vs \<longrightarrow> length d = PAGE_SIZE))"

lemma index_ok_Nil [simp]: "index_ok []"
  by (simp add: index_ok_def)

lemma index_ok_push:
  assumes "index_ok idx" and "pid \<noteq> 0" and "length d = PAGE_SIZE"
  shows "index_ok (index_push pid (v, d) idx)"
  using assms unfolding index_ok_def index_push_def
  by (auto simp: distinct_update update_conv' split: option.splits if_splits)

lemma index_ok_push_frames:
  assumes "index_ok idx" and "list_all (\<lambda>f. frame_wf f \<and> wf_page_id f \<noteq> 0) fs"
  shows "index_ok (push_frames v fs idx)"
  using assms
  by (induction fs arbitrary: idx) (auto simp: push_frames_def frame_wf_def intro!: index_ok_push)

definition latest_version :: "wal_index \<Rightarrow> page_id \<Rightarrow> bytes option" where
  "latest_version idx pid =
     (let vs = index_versions idx pid in if vs = [] then None else Some (snd (last vs)))"

lemma index_versions_map_of:
  "index_ok idx \<Longrightarrow> map_of idx pid = (if index_versions idx pid = [] then None else Some (index_versions idx pid))"
  by (auto simp: index_versions_def index_ok_def split: option.splits)

text \<open>A snapshot at or above every version of a page reads its latest version.\<close>

lemma wal_read_latest:
  assumes "\<forall>(v, d)\<in>set (index_versions (wi_index w) pid). v \<le> at"
  shows "wal_read_page w pid at = latest_version (wi_index w) pid"
proof (cases "index_versions (wi_index w) pid" rule: rev_cases)
  case (snoc vs x)
  obtain v d where "x = (v, d)" by (cases x)
  with snoc assms show ?thesis
    by (simp add: wal_read_page_versions latest_version_def)
qed (simp add: wal_read_page_versions latest_version_def)

lemma set_checkpoint_pages:
  assumes "index_ok idx"
  shows "(pid, d) \<in> set (checkpoint_pages idx) \<longleftrightarrow> latest_version idx pid = Some d"
proof -
  have di: "distinct (map fst idx)" using assms by (simp add: index_ok_def)
  have "(pid, d) \<in> set (checkpoint_pages idx)
      \<longleftrightarrow> (\<exists>vs. (pid, vs) \<in> set idx \<and> vs \<noteq> [] \<and> d = snd (last vs))"
    by (force simp: checkpoint_pages_def map_filter_def split: if_splits)
  also have "\<dots> \<longleftrightarrow> (\<exists>vs. map_of idx pid = Some vs \<and> vs \<noteq> [] \<and> d = snd (last vs))"
    using di by simp
  also have "\<dots> \<longleftrightarrow> latest_version idx pid = Some d"
    using index_versions_map_of [OF assms, of pid]
    by (auto simp: latest_version_def Let_def split: if_splits)
  finally show ?thesis .
qed

lemma distinct_checkpoint_pages:
  assumes "index_ok idx"
  shows "distinct (map fst (checkpoint_pages idx))"
proof -
  let ?g = "\<lambda>(pid, versions). if versions = [] then None else Some (pid, snd (last versions))"
  have "distinct (map fst (List.map_filter ?g xs))" if "distinct (map fst xs)" for xs :: wal_index
    using that
  proof (induction xs)
    case (Cons x xs)
    have "fst ` set (List.map_filter ?g xs) \<subseteq> fst ` set xs" by (force simp: map_filter_def split: if_splits)
    with Cons show ?case by (cases x) (auto simp: map_filter_simps)
  qed (simp add: map_filter_simps)
  then show ?thesis
    using assms by (simp add: checkpoint_pages_def index_ok_def distinct_map)
qed

lemma checkpoint_pages_ok:
  assumes "index_ok idx" and "(pid, d) \<in> set (checkpoint_pages idx)"
  shows "pid \<noteq> 0 \<and> length d = PAGE_SIZE"
proof -
  have "latest_version idx pid = Some d" using assms set_checkpoint_pages by blast
  then obtain vs where "map_of idx pid = Some vs" "vs \<noteq> []" "d = snd (last vs)"
    using index_versions_map_of [OF assms(1), of pid]
    by (auto simp: latest_version_def Let_def split: if_splits)
  then show ?thesis
    using assms(1) last_in_set [of vs] unfolding index_ok_def by (metis prod.collapse)
qed

text \<open>The page writes: written pages hold their data, the others are as before.\<close>

lemma checkpoint_write_ok:
  assumes "distinct (map fst ps)" and "\<forall>(pid, d)\<in>set ps. pid \<noteq> 0 \<and> length d = PAGE_SIZE"
  shows "\<exists>file' cache'. checkpoint_write bs cache ps = Ok (file', cache')
    \<and> (\<forall>(pid, d)\<in>set ps. file_page file' pid = Some d)
    \<and> (\<forall>pid d. pid \<notin> fst ` set ps \<longrightarrow> file_page bs pid = Some d \<longrightarrow> file_page file' pid = Some d)
    \<and> (\<forall>pid. pc_map cache' pid = (if pid \<in> fst ` set ps then None else pc_map cache pid))
    \<and> (cache_inv cache \<longrightarrow> cache_inv cache')"
  using assms
proof (induction ps arbitrary: bs cache)
  case (Cons p ps)
  obtain pid d where p: "p = (pid, d)" by (cases p)
  with Cons.prems have pd: "pid \<noteq> 0" "length d = PAGE_SIZE" "pid \<notin> fst ` set ps" by auto
  let ?bs = "file_write_at bs d ((unat pid - 1) * PAGE_SIZE)"
  obtain file' cache' where r:
      "checkpoint_write ?bs (cache_invalidate pid cache) ps = Ok (file', cache')"
      "\<forall>(pid, d)\<in>set ps. file_page file' pid = Some d"
      "\<And>q e. q \<notin> fst ` set ps \<Longrightarrow> file_page ?bs q = Some e \<Longrightarrow> file_page file' q = Some e"
      "\<And>q. pc_map cache' q = (if q \<in> fst ` set ps then None else pc_map (cache_invalidate pid cache) q)"
      "cache_inv (cache_invalidate pid cache) \<longrightarrow> cache_inv cache'"
    using Cons.IH [of ?bs "cache_invalidate pid cache"] Cons.prems by auto
  have "checkpoint_write bs cache (p # ps) = Ok (file', cache')"
    using r(1) p pd(1) by (simp add: file_write_page_ok)
  moreover have "file_page file' pid = Some d"
    using r(3) [OF pd(3)] file_page_write_same [OF pd(1,2)] by blast
  moreover have "file_page file' q = Some e" if "q \<noteq> pid" "q \<notin> fst ` set ps" "file_page bs q = Some e" for q e
    using r(3) [OF that(2)] file_page_write_other [OF pd(1,2) that(1,3)] by blast
  moreover have "pc_map cache' q = (if q \<in> fst ` set (p # ps) then None else pc_map cache q)" for q
    using r(4) [of q] p by (auto simp: cache_invalidate_map)
  moreover have "cache_inv cache \<longrightarrow> cache_inv cache'"
    using r(5) cache_inv_invalidate by blast
  ultimately show ?case using r(2) p by (intro exI [of _ file'] exI [of _ cache']) auto
qed simp

section \<open>The checkpoint preserves the newest pages\<close>

text \<open>What a reader of the newest version sees of a page.\<close>

definition newest_page :: "wal \<Rightarrow> bytes \<Rightarrow> page_id \<Rightarrow> bytes option" where
  "newest_page w file pid =
     (case latest_version (wi_index w) pid of Some d \<Rightarrow> Some d | None \<Rightarrow> file_page file pid)"

lemma file_write_header_body:
  assumes "file_page bs 1 = Some d1" and "dh_user_version h = be_u32 (slice 60 4 d1)"
  shows "\<exists>bs'. file_write_header bs h = Ok bs'
    \<and> (\<forall>p d. file_page bs p = Some d \<longrightarrow> (\<exists>d'. file_page bs' p = Some d' \<and> page_body p d' = page_body p d))"
proof -
  obtain bs' where bs': "file_write_header bs h = Ok bs'"
      "file_page bs' 1 = Some (apply_writes (header_writes h) d1)"
      "\<And>p. p \<noteq> 1 \<Longrightarrow> file_page bs' p = file_page bs p"
    using file_write_header_ok [OF assms(1)] by blast
  have l: "HEADER_SIZE \<le> length d1" "length (slice 60 4 d1) = 4"
    using length_file_page [OF assms(1)] by (simp_all add: HEADER_SIZE_def PAGE_SIZE_def slice_def)
  have "slice 60 4 (apply_writes (header_writes h) d1) = slice 60 4 d1"
    using header_slices(8) [OF l(1), of h] assms(2) u32_be_inject [OF l(2)] by simp
  then have b: "page_body 1 (apply_writes (header_writes h) d1) = page_body 1 d1"
    using header_write_drop [of d1 h] l(1) by (simp add: page_body_def header_offset_def HEADER_SIZE_def)
  have "\<exists>d'. file_page bs' p = Some d' \<and> page_body p d' = page_body p d"
    if "file_page bs p = Some d" for p d
    using that assms b bs'(2,3) by (cases "p = 1") auto
  with bs'(1) show ?thesis by blast
qed

lemma newest_in_checkpoint:
  assumes "index_ok (wi_index w)"
  shows "pid \<in> fst ` set (checkpoint_pages (wi_index w)) \<longleftrightarrow> latest_version (wi_index w) pid \<noteq> None"
proof
  assume "latest_version (wi_index w) pid \<noteq> None"
  then obtain d where "(pid, d) \<in> set (checkpoint_pages (wi_index w))"
    using set_checkpoint_pages [OF assms, of pid] by auto
  then show "pid \<in> fst ` set (checkpoint_pages (wi_index w))" by (rule rev_image_eqI) simp
qed (use set_checkpoint_pages [OF assms, of pid] in auto)

lemma wal_checkpoint_ok:
  assumes ok: "index_ok (wi_index w)" and ne: "wi_index w \<noteq> []" and p1: "file_page bs 1 \<noteq> None"
  shows "\<exists>bs' cache'. wal_checkpoint w bs cache =
      Ok (w\<lparr>wi_file := [], wi_write_offset := 0, wi_index := []\<rparr>, bs', cache')
    \<and> (\<forall>p d. newest_page w bs p = Some d \<longrightarrow>
         (\<exists>d'. file_page bs' p = Some d' \<and> page_body p d' = page_body p d))
    \<and> (\<forall>p. pc_map cache' p = (if latest_version (wi_index w) p = None then pc_map cache p else None))
    \<and> (cache_inv cache \<longrightarrow> cache_inv cache')"
proof -
  let ?ps = "checkpoint_pages (wi_index w)"
  have "\<forall>(pid, d)\<in>set ?ps. pid \<noteq> 0 \<and> length d = PAGE_SIZE"
    using checkpoint_pages_ok [OF ok] by blast
  then obtain bs1 cache' where r: "checkpoint_write bs cache ?ps = Ok (bs1, cache')"
      "\<forall>(pid, d)\<in>set ?ps. file_page bs1 pid = Some d"
      "\<And>pid d. pid \<notin> fst ` set ?ps \<Longrightarrow> file_page bs pid = Some d \<Longrightarrow> file_page bs1 pid = Some d"
      "\<And>pid. pc_map cache' pid = (if pid \<in> fst ` set ?ps then None else pc_map cache pid)"
      "cache_inv cache \<longrightarrow> cache_inv cache'"
    using checkpoint_write_ok [OF distinct_checkpoint_pages [OF ok], of bs cache] by auto
  have new: "file_page bs1 p = Some d" if "newest_page w bs p = Some d" for p d
  proof (cases "latest_version (wi_index w) p")
    case None
    with that r(3) [of p d] newest_in_checkpoint [OF ok, of p] show ?thesis by (simp add: newest_page_def)
  next
    case (Some e)
    with that r(2) set_checkpoint_pages [OF ok, of p e] show ?thesis by (auto simp: newest_page_def)
  qed
  obtain d1 where d1: "file_page bs1 1 = Some d1"
    using new [of 1] p1 by (cases "newest_page w bs 1") (auto simp: newest_page_def split: option.splits)
  obtain h where h: "checkpoint_header w bs1 = Ok h" "dh_user_version h = be_u32 (slice 60 4 d1)"
    using d1 by (simp add: checkpoint_header_def file_read_page_eq)
  obtain bs2 where bs2: "file_write_header bs1 h = Ok bs2"
      "\<And>p d. file_page bs1 p = Some d \<Longrightarrow> (\<exists>d'. file_page bs2 p = Some d' \<and> page_body p d' = page_body p d)"
    using file_write_header_body [OF d1 h(2)] by blast
  have "wal_checkpoint w bs cache =
      Ok (w\<lparr>wi_file := [], wi_write_offset := 0, wi_index := []\<rparr>, bs2, cache')"
    using ne r(1) h(1) bs2(1) by (simp add: wal_checkpoint_def)
  moreover have "\<exists>d'. file_page bs2 p = Some d' \<and> page_body p d' = page_body p d"
    if "newest_page w bs p = Some d" for p d
    using bs2(2) [OF new [OF that]] .
  moreover have "pc_map cache' p = (if latest_version (wi_index w) p = None then pc_map cache p else None)" for p
    using r(4) [of p] newest_in_checkpoint [OF ok, of p] by simp
  ultimately show ?thesis using r(5) by blast
qed

text \<open>
  C25. A checkpoint folds the log into the database file without losing anything: it succeeds, and for
  every page the content a reader of the newest version saw before (from the log, else
  from the file) is the content of the file afterwards; of page 1's database header this says that
  the user version is kept, the other fields are written anew. No folded page stays in the cache. A log with
  a committed page is emptied: no bytes, the next frame goes to the start, no page in the index; a log
  without one is left as it is. The log keeps its newest version.
\<close>

theorem checkpoint_preserves_newest:
  assumes "index_ok (wi_index w)" and "file_page bs 1 \<noteq> None" and "newest_page w bs p = Some d"
  shows "\<exists>w' bs' cache'. wal_checkpoint w bs cache = Ok (w', bs', cache')
    \<and> w' = (if wi_index w = [] then w else w\<lparr>wi_file := [], wi_write_offset := 0, wi_index := []\<rparr>)
    \<and> wi_index w' = [] \<and> wi_max_version w' = wi_max_version w
    \<and> (\<exists>d'. file_page bs' p = Some d' \<and> page_body p d' = page_body p d)
    \<and> newest_page w' bs' p = file_page bs' p
    \<and> (latest_version (wi_index w) p \<noteq> None \<longrightarrow> pc_map cache' p = None)"
proof (cases "wi_index w = []")
  case True
  with assms(3) show ?thesis
    by (simp add: wal_checkpoint_def newest_page_def latest_version_def index_versions_def)
next
  case False
  have l: "latest_version [] p = None" by (simp add: latest_version_def index_versions_def)
  obtain bs' cache' d' where "wal_checkpoint w bs cache =
      Ok (w\<lparr>wi_file := [], wi_write_offset := 0, wi_index := []\<rparr>, bs', cache')"
    "file_page bs' p = Some d'" "page_body p d' = page_body p d"
    "pc_map cache' p = (if latest_version (wi_index w) p = None then pc_map cache p else None)"
    using wal_checkpoint_ok [OF assms(1) False assms(2), of cache] assms(3) by blast
  with l False show ?thesis by (simp add: newest_page_def)
qed

theorem checkpoint_preserves_newest_witness:
  "\<exists>w' bs' cache'. wal_checkpoint (wal_of 1 [(1, 1, [test_frame 1 7])]) (replicate PAGE_SIZE 0)
      cache_with_default_capacity = Ok (w', bs', cache')
    \<and> wi_file w' = [] \<and> (\<exists>d. file_page bs' 1 = Some d \<and> page_body 1 d = replicate 4000 7)"
proof -
  let ?w = "wal_of 1 [(1, 1, [test_frame 1 7])]"
  have i: "wi_index ?w = [(1, [(1, replicate PAGE_SIZE 7)])]"
    by (simp add: wal_of_def wal_empty_def apply_commit_def publish_frames_def push_frames_def
        index_push_def test_frame_def)
  have "index_ok (wi_index ?w)" unfolding i by (auto simp: index_ok_def split: if_splits)
  moreover have "file_page (replicate PAGE_SIZE 0) 1 \<noteq> None" by (simp add: file_page_def)
  moreover have "newest_page ?w (replicate PAGE_SIZE 0) 1 = Some (replicate PAGE_SIZE 7)"
    by (simp add: newest_page_def i latest_version_def index_versions_def)
  moreover have "page_body 1 (replicate PAGE_SIZE 7) = replicate 4000 7"
    by (simp add: page_body_def slice_def header_offset_def PAGE_SIZE_def replicate_add [symmetric])
  ultimately show ?thesis
    using checkpoint_preserves_newest [of ?w "replicate PAGE_SIZE 0" 1 "replicate PAGE_SIZE 7"
        cache_with_default_capacity] i by auto
qed

end
