(* ===== verification/Mvcc.thy ===== *)
theory Mvcc
  imports Squrust_Prelude
begin

text \<open>
  Version bookkeeping, \<open>squrust-core/src/mvcc/\<close>: the version counters, the snapshots and
  the table of active readers. Each operation is one atomic step; the interleavings of
  the operations of several transactions are the subject of the theory \<open>StorageSteps\<close>.
\<close>

section \<open>The code\<close>

text \<open>\<open>fetch_add(1) + 1\<close> and \<open>current() + 1\<close> panic when the sum does not fit.\<close>

definition checked_succ :: "u64 \<Rightarrow> u64 sres" where
  "checked_succ v = (if v = - 1 then Panic else Ok (v + 1))"

text \<open>The compare-and-exchange loop of \<open>set_at_least\<close>, run without interference.\<close>

definition set_at_least :: "u64 \<Rightarrow> u64 \<Rightarrow> u64" where
  "set_at_least cur v = (if cur < v then v else cur)"

record snapshot =
  sn_version :: u64

definition snapshot_sees :: "snapshot \<Rightarrow> u64 \<Rightarrow> bool" where
  "snapshot_sees s committed_version \<longleftrightarrow> committed_version \<le> sn_version s"

text \<open>\<open>active_readers\<close> is a \<open>BTreeMap\<close>: an association list sorted by version.\<close>

record mvcc =
  mv_committed :: u64
  mv_active_readers :: "(u64 \<times> nat) list"
  mv_tx_ids :: u64

definition mvcc_new :: "u64 \<Rightarrow> mvcc" where
  "mvcc_new v = \<lparr>mv_committed = v, mv_active_readers = [], mv_tx_ids = v\<rparr>"

definition current_version :: "mvcc \<Rightarrow> u64" where
  "current_version m = mv_committed m"

text \<open>\<open>*entry(v).or_insert(0) += 1\<close>.\<close>

fun readers_incr :: "u64 \<Rightarrow> (u64 \<times> nat) list \<Rightarrow> (u64 \<times> nat) list" where
  "readers_incr v [] = [(v, 1)]"
| "readers_incr v ((w, n) # rs) =
     (if v < w then (v, 1) # (w, n) # rs
      else if v = w then (w, n + 1) # rs
      else (w, n) # readers_incr v rs)"

text \<open>Decrement, and remove the entry at zero; an absent version is left alone.\<close>

fun readers_decr :: "u64 \<Rightarrow> (u64 \<times> nat) list \<Rightarrow> (u64 \<times> nat) list" where
  "readers_decr v [] = []"
| "readers_decr v ((w, n) # rs) =
     (if v = w then (if n - 1 = 0 then rs else (w, n - 1) # rs)
      else (w, n) # readers_decr v rs)"

definition mvcc_begin_read :: "mvcc \<Rightarrow> snapshot \<times> mvcc" where
  "mvcc_begin_read m =
     (let v = mv_committed m in
      (\<lparr>sn_version = v\<rparr>, m\<lparr>mv_active_readers := readers_incr v (mv_active_readers m)\<rparr>))"

definition mvcc_end_read :: "snapshot \<Rightarrow> mvcc \<Rightarrow> mvcc" where
  "mvcc_end_read s m = m\<lparr>mv_active_readers := readers_decr (sn_version s) (mv_active_readers m)\<rparr>"

definition mvcc_begin_write :: "mvcc \<Rightarrow> (u64 \<times> mvcc) sres" where
  "mvcc_begin_write m = obind (checked_succ (mv_tx_ids m)) (\<lambda>i. Ok (i, m\<lparr>mv_tx_ids := i\<rparr>))"

definition reserve_commit_version :: "mvcc \<Rightarrow> u64 sres" where
  "reserve_commit_version m = checked_succ (mv_committed m)"

definition publish_commit :: "u64 \<Rightarrow> mvcc \<Rightarrow> mvcc" where
  "publish_commit version m =
     m\<lparr>mv_committed := set_at_least (mv_committed m) version,
       mv_tx_ids := set_at_least (mv_tx_ids m) version\<rparr>"

definition oldest_required_version :: "mvcc \<Rightarrow> u64" where
  "oldest_required_version m =
     (case mv_active_readers m of [] \<Rightarrow> mv_committed m | (v, _) # _ \<Rightarrow> v)"

section \<open>The table of readers\<close>

text \<open>The number of readers the table counts at a version.\<close>

definition reader_count :: "mvcc \<Rightarrow> u64 \<Rightarrow> nat" where
  "reader_count m v = (case map_of (mv_active_readers m) v of None \<Rightarrow> 0 | Some n \<Rightarrow> n)"

text \<open>The table is sorted, counts are positive, and no reader is ahead of the commits.\<close>

definition mvcc_inv :: "mvcc \<Rightarrow> bool" where
  "mvcc_inv m \<longleftrightarrow> sorted_wrt (<) (map fst (mv_active_readers m))
     \<and> (\<forall>(v, n)\<in>set (mv_active_readers m). 0 < n \<and> v \<le> mv_committed m)"

lemma fst_set_readers_incr: "fst ` set (readers_incr v rs) = insert v (fst ` set rs)"
  by (induction v rs rule: readers_incr.induct) auto

lemma sorted_readers_incr:
  "sorted_wrt (<) (map fst rs) \<Longrightarrow> sorted_wrt (<) (map fst (readers_incr v rs))"
proof (induction v rs rule: readers_incr.induct)
  case (2 v w n rs)
  then have w: "\<forall>u\<in>fst ` set rs. w < u" by auto
  consider "v < w" | "v = w" | "w < v" by force
  then show ?case
  proof cases
    case 1
    with w have "\<forall>u\<in>fst ` set rs. v < u" by (meson less_trans)
    with 1 2 show ?thesis by auto
  next
    case 3
    have "\<forall>u\<in>fst ` set (readers_incr v rs). w < u" using w 3 by (simp add: fst_set_readers_incr)
    with 3 2 show ?thesis by auto
  qed (use 2 in auto)
qed simp

lemma map_of_readers_incr:
  "sorted_wrt (<) (map fst rs) \<Longrightarrow>
   map_of (readers_incr v rs) = (map_of rs)(v \<mapsto> (case map_of rs v of None \<Rightarrow> 1 | Some n \<Rightarrow> n + 1))"
proof (induction v rs rule: readers_incr.induct)
  case (2 v w n rs)
  consider "v < w" | "v = w" | "w < v" by force
  then show ?case
  proof cases
    case 1
    with 2 have "\<forall>u\<in>fst ` set rs. v < u" by (auto intro: less_trans)
    then have "v \<notin> fst ` set rs" by auto
    then have "map_of rs v = None" by (simp add: map_of_eq_None_iff)
    with 1 show ?thesis by auto
  next
    case 2
    then show ?thesis by (auto split: option.splits)
  next
    case 3
    have "\<not> v < w" "v \<noteq> w" using 3 by auto
    with 2 show ?thesis by auto
  qed
qed auto

lemma fst_set_readers_decr: "fst ` set (readers_decr v rs) \<subseteq> fst ` set rs"
  by (induction v rs rule: readers_decr.induct) auto

lemma sorted_readers_decr:
  "sorted_wrt (<) (map fst rs) \<Longrightarrow> sorted_wrt (<) (map fst (readers_decr v rs))"
proof (induction v rs rule: readers_decr.induct)
  case (2 v w n rs)
  then have "\<forall>u\<in>fst ` set rs. w < u" by auto
  then have "\<forall>u\<in>fst ` set (readers_decr v rs). w < u" using fst_set_readers_decr [of v rs] by blast
  with 2 show ?case by auto
qed simp

lemma map_of_readers_decr:
  "sorted_wrt (<) (map fst rs) \<Longrightarrow>
   map_of (readers_decr v rs) = (map_of rs)(v :=
     (case map_of rs v of None \<Rightarrow> None | Some n \<Rightarrow> if n \<le> 1 then None else Some (n - 1)))"
proof (induction v rs rule: readers_decr.induct)
  case (2 v w n rs)
  then have "w \<notin> fst ` set rs" by auto
  then have "map_of rs w = None" by (simp add: map_of_eq_None_iff)
  with 2 show ?case by (auto split: option.splits)
qed auto

lemma mvcc_inv_iff:
  "mvcc_inv m \<longleftrightarrow> sorted_wrt (<) (map fst (mv_active_readers m))
     \<and> (\<forall>v n. map_of (mv_active_readers m) v = Some n \<longrightarrow> 0 < n \<and> v \<le> mv_committed m)"
proof -
  have "distinct (map fst (mv_active_readers m))" if "sorted_wrt (<) (map fst (mv_active_readers m))"
    using that strict_sorted_iff by blast
  then show ?thesis unfolding mvcc_inv_def by (auto simp: map_of_eq_Some_iff)
qed

lemma mvcc_inv_new [simp]: "mvcc_inv (mvcc_new v)"
  by (simp add: mvcc_inv_def mvcc_new_def)

lemma mvcc_inv_begin_read: "mvcc_inv m \<Longrightarrow> mvcc_inv (snd (mvcc_begin_read m))"
  by (auto simp: mvcc_inv_iff mvcc_begin_read_def Let_def sorted_readers_incr map_of_readers_incr
      split: option.splits if_splits)

lemma mvcc_inv_end_read: "mvcc_inv m \<Longrightarrow> mvcc_inv (mvcc_end_read s m)"
  by (auto simp: mvcc_inv_iff mvcc_end_read_def sorted_readers_decr map_of_readers_decr
      split: option.splits if_splits)

lemma mvcc_inv_begin_write: "mvcc_inv m \<Longrightarrow> mvcc_begin_write m = Ok (i, m') \<Longrightarrow> mvcc_inv m'"
  by (auto simp: mvcc_begin_write_def mvcc_inv_def obind_eq_Ok)

lemma mvcc_inv_publish: "mvcc_inv m \<Longrightarrow> mvcc_inv (publish_commit v m)"
  by (fastforce simp: mvcc_inv_def publish_commit_def set_at_least_def)

lemma reader_count_begin_read:
  "mvcc_inv m \<Longrightarrow>
   reader_count (snd (mvcc_begin_read m)) v = reader_count m v + (if v = mv_committed m then 1 else 0)"
  by (auto simp: reader_count_def mvcc_begin_read_def Let_def mvcc_inv_def map_of_readers_incr
      split: option.splits)

lemma reader_count_end_read:
  "mvcc_inv m \<Longrightarrow>
   reader_count (mvcc_end_read s m) v = reader_count m v - (if v = sn_version s then 1 else 0)"
  by (auto simp: reader_count_def mvcc_end_read_def mvcc_inv_def map_of_readers_decr
      split: option.splits)

lemma oldest_le_reader:
  assumes "mvcc_inv m" and "0 < reader_count m v"
  shows "oldest_required_version m \<le> v"
proof (cases "mv_active_readers m")
  case Nil
  with assms(2) show ?thesis by (simp add: reader_count_def)
next
  case (Cons r rs)
  obtain n where "map_of (mv_active_readers m) v = Some n"
    using assms(2) by (auto simp: reader_count_def split: option.splits)
  then have "v \<in> fst ` set (mv_active_readers m)"
    by (metis domI dom_map_of_conv_image_fst)
  with Cons assms(1) show ?thesis
    by (cases r) (auto simp: oldest_required_version_def mvcc_inv_def less_imp_le)
qed

lemma oldest_le_committed:
  assumes "mvcc_inv m"
  shows "oldest_required_version m \<le> mv_committed m"
  using assms by (auto simp: oldest_required_version_def mvcc_inv_def split: list.split)

text \<open>
  The version a checkpoint may not pass. While the table of readers is consistent, the
  oldest required version is a lower bound of every counted reader's version and at most
  the committed version; it is the committed version when there is no reader, and it is
  held by a reader when there is one. Starting and ending a read keep the table
  consistent and change the count of that version by one.
\<close>

theorem oldest_required_correct:
  assumes "mvcc_inv m"
  shows "(\<forall>v. 0 < reader_count m v \<longrightarrow> oldest_required_version m \<le> v)
    \<and> oldest_required_version m \<le> mv_committed m
    \<and> (if \<forall>v. reader_count m v = 0 then oldest_required_version m = mv_committed m
       else 0 < reader_count m (oldest_required_version m))
    \<and> mvcc_inv (snd (mvcc_begin_read m)) \<and> mvcc_inv (mvcc_end_read s m)
    \<and> mvcc_end_read (fst (mvcc_begin_read m)) (snd (mvcc_begin_read m)) = m"
proof -
  have head: "if \<forall>v. reader_count m v = 0 then oldest_required_version m = mv_committed m
       else 0 < reader_count m (oldest_required_version m)"
  proof (cases "mv_active_readers m")
    case Nil
    then show ?thesis by (simp add: reader_count_def oldest_required_version_def)
  next
    case (Cons r rs)
    obtain v n where "r = (v, n)" by (cases r)
    with Cons assms have "0 < reader_count m v" "oldest_required_version m = v"
      by (simp_all add: reader_count_def oldest_required_version_def mvcc_inv_def)
    then show ?thesis by auto
  qed
  have "readers_decr v (readers_incr v rs) = rs" if "\<forall>(w, n)\<in>set rs. 0 < n" for v rs
    using that by (induction v rs rule: readers_incr.induct) auto
  then have "mvcc_end_read (fst (mvcc_begin_read m)) (snd (mvcc_begin_read m)) = m"
    using assms by (simp add: mvcc_end_read_def mvcc_begin_read_def Let_def mvcc_inv_def case_prod_beta)
  with head show ?thesis
    using assms oldest_le_reader oldest_le_committed mvcc_inv_begin_read mvcc_inv_end_read by blast
qed

theorem oldest_required_correct_witness:
  "oldest_required_version \<lparr>mv_committed = 6, mv_active_readers = [(5, 1), (6, 2)], mv_tx_ids = 6\<rparr> \<le> 6"
  using oldest_required_correct [of "\<lparr>mv_committed = 6, mv_active_readers = [(5, 1), (6, 2)], mv_tx_ids = 6\<rparr>"]
  by (simp add: mvcc_inv_def)

end
