(* ===== verification/Storage.thy ===== *)
theory Storage
  imports Wal Mvcc BTree
begin

text \<open>
  The storage engine and its transactions, \<open>squrust-core/src/storage/mod.rs\<close>: reads of a
  page at a snapshot through the log, the cache and the file, read transactions that pin
  a version, the write transaction that buffers its pages until commit, and the
  checkpoint. Files are byte lists; the paths and the temporary files of \<open>open_memory\<close>
  are not modelled.
\<close>

section \<open>The engine\<close>

record engine =
  en_file :: bytes
  en_cache :: page_cache
  en_wal :: wal
  en_mvcc :: mvcc
  en_gate :: bool
  en_page_count :: u32
  en_freelist :: "page_id list"

definition engine_open :: "bytes \<Rightarrow> bytes \<Rightarrow> engine sres" where
  "engine_open db_file wal_file =
     obind (file_open db_file) (\<lambda>(file, header).
     let w = wal_open wal_file (dh_db_size_pages header);
         physical = file_page_count file;
         page_count = max (max (max (dh_db_size_pages header) (wi_db_size w)) physical) 1
     in Ok \<lparr>en_file = file, en_cache = cache_with_default_capacity, en_wal = w,
            en_mvcc = mvcc_new (wi_max_version w), en_gate = False,
            en_page_count = page_count, en_freelist = []\<rparr>)"

definition read_page_at :: "engine \<Rightarrow> page_id \<Rightarrow> u64 \<Rightarrow> (raw_page \<times> engine) sres" where
  "read_page_at e pid version =
     (case wal_read_page (en_wal e) pid version of
        Some data \<Rightarrow> Ok (page_from_bytes pid data, e)
      | None \<Rightarrow>
          (case cache_get pid (en_cache e) of
             (Some p, cache) \<Rightarrow> Ok (p, e\<lparr>en_cache := cache\<rparr>)
           | (None, cache) \<Rightarrow>
               obind (file_read_page (en_file e) pid) (\<lambda>d.
               case d of
                 Some data \<Rightarrow>
                   let p = page_from_bytes pid data in
                   Ok (p, e\<lparr>en_cache := cache_insert p cache\<rparr>)
               | None \<Rightarrow> Err (PageOutOfRange pid))))"

text \<open>A lagging reader turns the checkpoint into a no-op.\<close>

definition engine_fold_wal :: "engine \<Rightarrow> engine sres" where
  "engine_fold_wal e =
     obind (wal_checkpoint (en_wal e) (en_file e) (en_cache e)) (\<lambda>(w, file, cache).
     Ok (e\<lparr>en_wal := w, en_file := file, en_cache := cache\<rparr>))"

definition may_checkpoint :: "engine \<Rightarrow> bool" where
  "may_checkpoint e \<longleftrightarrow> \<not> oldest_required_version (en_mvcc e) < current_version (en_mvcc e)"

definition engine_checkpoint :: "engine \<Rightarrow> engine sres" where
  "engine_checkpoint e = (if may_checkpoint e then engine_fold_wal e else Ok e)"

section \<open>Read transactions\<close>

record read_tx =
  rt_snapshot :: snapshot

definition begin_read :: "engine \<Rightarrow> read_tx \<times> engine" where
  "begin_read e =
     (let (s, m) = mvcc_begin_read (en_mvcc e) in (\<lparr>rt_snapshot = s\<rparr>, e\<lparr>en_mvcc := m\<rparr>))"

definition read_tx_get_page :: "read_tx \<Rightarrow> engine \<Rightarrow> page_id \<Rightarrow> (raw_page \<times> engine) sres" where
  "read_tx_get_page tx e pid = read_page_at e pid (sn_version (rt_snapshot tx))"

definition read_tx_drop :: "read_tx \<Rightarrow> engine \<Rightarrow> engine" where
  "read_tx_drop tx e = e\<lparr>en_mvcc := mvcc_end_read (rt_snapshot tx) (en_mvcc e)\<rparr>"

definition read_tx_source :: "read_tx \<Rightarrow> engine page_source" where
  "read_tx_source tx = \<lparr>po_get = read_tx_get_page tx\<rparr>"

section \<open>The write transaction\<close>

text \<open>\<open>pending\<close> is a hash map; its iteration order is a parameter of the commit.\<close>

record write_tx =
  wt_id :: u64
  wt_snapshot :: snapshot
  wt_pending :: "(page_id \<times> raw_page) list"
  wt_local_page_count :: u32
  wt_local_freelist :: "page_id list"
  wt_finished :: bool

text \<open>While another writer holds the gate \<open>acquire\<close> waits.\<close>

definition begin_write :: "engine \<Rightarrow> (write_tx \<times> engine) sres" where
  "begin_write e =
     (if en_gate e then Diverge
      else
        obind (mvcc_begin_write (en_mvcc e)) (\<lambda>(i, m).
        Ok (\<lparr>wt_id = i, wt_snapshot = \<lparr>sn_version = current_version m\<rparr>, wt_pending = [],
             wt_local_page_count = en_page_count e, wt_local_freelist = en_freelist e,
             wt_finished = False\<rparr>,
            e\<lparr>en_gate := True, en_mvcc := m\<rparr>)))"

type_synonym tx_state = "engine \<times> write_tx"

definition tx_get_page :: "tx_state \<Rightarrow> page_id \<Rightarrow> (raw_page \<times> tx_state) sres" where
  "tx_get_page st pid =
     (let (e, tx) = st in
      case map_of (wt_pending tx) pid of
        Some p \<Rightarrow> Ok (p, st)
      | None \<Rightarrow>
          obind (read_page_at e pid (sn_version (wt_snapshot tx))) (\<lambda>(p, e). Ok (p, (e, tx))))"

definition tx_write_page :: "tx_state \<Rightarrow> raw_page \<Rightarrow> tx_state sres" where
  "tx_write_page st page =
     (let (e, tx) = st in
      Ok (e, tx\<lparr>wt_pending := AList.update (rp_id page) page (wt_pending tx)\<rparr>))"

text \<open>\<open>pop\<close> takes the last free page; \<open>*pc += 1\<close> panics on overflow.\<close>

definition tx_alloc_page :: "tx_state \<Rightarrow> (page_id \<times> tx_state) sres" where
  "tx_alloc_page st =
     (let (e, tx) = st in
      if wt_local_freelist tx \<noteq> [] then
        Ok (last (wt_local_freelist tx),
            (e, tx\<lparr>wt_local_freelist := butlast (wt_local_freelist tx)\<rparr>))
      else if wt_local_page_count tx = - 1 then Panic
      else
        let pc = wt_local_page_count tx + 1 in Ok (pc, (e, tx\<lparr>wt_local_page_count := pc\<rparr>)))"

definition tx_free_page :: "tx_state \<Rightarrow> page_id \<Rightarrow> tx_state sres" where
  "tx_free_page st pid =
     (let (e, tx) = st in
      Ok (e, tx\<lparr>wt_pending := AList.delete pid (wt_pending tx),
                wt_local_freelist := wt_local_freelist tx @ [pid]\<rparr>))"

definition tx_ops :: "tx_state page_ops" where
  "tx_ops = \<lparr>po_get = tx_get_page, po_alloc = tx_alloc_page, po_put = tx_write_page,
     po_free = tx_free_page\<rparr>"

definition tx_finish :: "engine \<Rightarrow> write_tx \<Rightarrow> engine \<times> write_tx" where
  "tx_finish e tx =
     (if wt_finished tx then (e, tx)
      else (e\<lparr>en_gate := False\<rparr>, tx\<lparr>wt_finished := True\<rparr>))"

definition tx_rollback :: "engine \<Rightarrow> write_tx \<Rightarrow> engine \<times> write_tx" where
  "tx_rollback e tx = tx_finish e tx"

definition tx_drop :: "engine \<Rightarrow> write_tx \<Rightarrow> engine" where
  "tx_drop e tx = fst (tx_finish e tx)"

definition page_frame :: "u32 \<Rightarrow> u64 \<Rightarrow> raw_page \<Rightarrow> wal_frame" where
  "page_frame salt version page =
     \<lparr>wf_page_id = rp_id page, wf_commit_version = version, wf_db_size_after = 0,
      wf_salt = salt, wf_data = rp_data page\<rparr>"

text \<open>
  \<open>commit\<close>: \<open>values\<close> is the iteration order of the hash map of pending pages. An error of
  the append leaves the version unpublished and the gate held (until the drop).
\<close>

definition tx_commit ::
    "io_fault \<Rightarrow> ((page_id \<times> raw_page) list \<Rightarrow> raw_page list) \<Rightarrow> engine \<Rightarrow> write_tx
     \<Rightarrow> unit sres \<times> engine \<times> write_tx" where
  "tx_commit fault hash_values e tx =
     (case reserve_commit_version (en_mvcc e) of
        Ok version \<Rightarrow>
          let db_size = wt_local_page_count tx;
              pages = hash_values (wt_pending tx);
              (r, e) =
                (if wt_pending tx \<noteq> [] then
                   let frames = map (page_frame (wi_salt (en_wal e)) version) pages;
                       cache = fold (\<lambda>p. cache_invalidate (rp_id p)) pages (en_cache e);
                       (r, w) = append_commit fault (en_wal e) frames version db_size
                   in (r, e\<lparr>en_cache := cache, en_wal := w\<rparr>)
                 else (Ok (), e))
          in (case r of
                Ok _ \<Rightarrow>
                  (Ok (), tx_finish (e\<lparr>en_mvcc := publish_commit version (en_mvcc e),
                                       en_page_count := db_size,
                                       en_freelist := wt_local_freelist tx\<rparr>) tx)
              | _ \<Rightarrow> (r, e, tx))
      | Err err \<Rightarrow> (Err err, e, tx)
      | Panic \<Rightarrow> (Panic, e, tx)
      | Diverge \<Rightarrow> (Diverge, e, tx))"

section \<open>\<open>PRAGMA user_version\<close>\<close>

definition engine_user_version :: "engine \<Rightarrow> (u32 \<times> engine) sres" where
  "engine_user_version e =
     (let (tx, e) = begin_read e in
      obind (read_tx_get_page tx e 1) (\<lambda>(page, e).
      obind (read_u32 (rp_data page) 60) (\<lambda>v. Ok (v, read_tx_drop tx e))))"

definition engine_set_user_version ::
    "((page_id \<times> raw_page) list \<Rightarrow> raw_page list) \<Rightarrow> engine \<Rightarrow> u32 \<Rightarrow> engine sres" where
  "engine_set_user_version hash_values e v =
     obind (begin_write e) (\<lambda>(tx, e).
     obind (tx_get_page (e, tx) 1) (\<lambda>(src, e, tx).
     obind (write_u32 (rp_data src) 60 v) (\<lambda>data.
     obind (tx_write_page (e, tx) \<lparr>rp_id = 1, rp_data = data, rp_dirty = True\<rparr>) (\<lambda>(e, tx).
     let (r, e, tx) = tx_commit NoFault hash_values e tx in
     obind r (\<lambda>_. Ok e)))))"

section \<open>The invariant of the engine\<close>

text \<open>A page of the cache or of a transaction: its id, a full page of data.\<close>

definition page_ok :: "page_id \<Rightarrow> raw_page \<Rightarrow> bool" where
  "page_ok pid page \<longleftrightarrow> rp_id page = pid \<and> page_wf page"

text \<open>
  The cache agrees with the file, up to the header bytes of page 1 other than the user version, which a
  checkpoint rewrites in the file only.
\<close>

definition cache_coherent :: "page_cache \<Rightarrow> bytes \<Rightarrow> bool" where
  "cache_coherent c file \<longleftrightarrow> (\<forall>pid page. pc_map c pid = Some page \<longrightarrow>
     page_ok pid page \<and> (\<exists>d. file_page file pid = Some d \<and> page_body pid (rp_data page) = page_body pid d))"

definition versions_bounded :: "wal_index \<Rightarrow> u64 \<Rightarrow> bool" where
  "versions_bounded idx v \<longleftrightarrow> (\<forall>pid. \<forall>(u, d)\<in>set (index_versions idx pid). u \<le> v)"

text \<open>Free pages are distinct, below the high-water mark, and never page 0 or 1.\<close>

definition alloc_ok :: "page_id list \<Rightarrow> u32 \<Rightarrow> bool" where
  "alloc_ok fl n \<longleftrightarrow> 1 \<le> n \<and> distinct fl \<and> (\<forall>p\<in>set fl. 1 < p \<and> p \<le> n)"

definition engine_inv :: "engine \<Rightarrow> bool" where
  "engine_inv e \<longleftrightarrow>
     file_page (en_file e) 1 \<noteq> None \<and> index_ok (wi_index (en_wal e)) \<and> cache_inv (en_cache e)
     \<and> cache_coherent (en_cache e) (en_file e)
     \<and> versions_bounded (wi_index (en_wal e)) (mv_committed (en_mvcc e))
     \<and> mvcc_inv (en_mvcc e) \<and> alloc_ok (en_freelist e) (en_page_count e)"

text \<open>What a snapshot at version \<open>v\<close> shows of a page.\<close>

definition engine_view :: "engine \<Rightarrow> u64 \<Rightarrow> page_id \<Rightarrow> bytes option" where
  "engine_view e v pid =
     map_option (page_body pid)
       (case wal_read_page (en_wal e) pid v of Some d \<Rightarrow> Some d | None \<Rightarrow> file_page (en_file e) pid)"

lemma engine_inv_cacheD:
  assumes "engine_inv e" and "pc_map (en_cache e) pid = Some page"
  obtains d where "page_ok pid page" "file_page (en_file e) pid = Some d"
    "page_body pid (rp_data page) = page_body pid d"
  using assms unfolding engine_inv_def cache_coherent_def by blast

lemma index_versions_ok:
  assumes "index_ok idx" and "(v, d) \<in> set (index_versions idx pid)"
  shows "length d = PAGE_SIZE" "pid \<noteq> 0"
proof -
  have "map_of idx pid = Some (index_versions idx pid)"
    using assms index_versions_map_of [OF assms(1), of pid] by (auto split: if_splits)
  then show "length d = PAGE_SIZE" "pid \<noteq> 0" using assms unfolding index_ok_def by blast+
qed

lemma cache_get_ok:
  assumes "cache_inv c"
  shows "\<exists>c'. cache_get pid c = (pc_map c pid, c') \<and> pc_map c' = pc_map c \<and> cache_inv c'"
  using cache_inv_get [OF assms, of pid] cache_get_map [of pid c] cache_get_fst [of pid c]
  by (cases "cache_get pid c") auto

lemma find_SomeD: "find P xs = Some x \<Longrightarrow> x \<in> set xs \<and> P x"
  by (induction xs) (auto split: if_splits)

lemma wal_read_in_versions:
  assumes "wal_read_page w pid v = Some d"
  shows "\<exists>u. (u, d) \<in> set (index_versions (wi_index w) pid) \<and> u \<le> v"
proof -
  obtain x where "find (\<lambda>(u, _). u \<le> v) (rev (index_versions (wi_index w) pid)) = Some x" "snd x = d"
    using assms by (auto simp: wal_read_page_versions)
  then show ?thesis using find_SomeD by (cases x) fastforce
qed

text \<open>
  A page read returns what the snapshot shows and changes at most the cache; a page the
  snapshot does not have is out of range.
\<close>

lemma read_page_at_ok:
  assumes inv: "engine_inv e" and view: "engine_view e v pid = Some b"
  shows "\<exists>page c. read_page_at e pid v = Ok (page, e\<lparr>en_cache := c\<rparr>) \<and> page_ok pid page
     \<and> page_body pid (rp_data page) = b \<and> engine_inv (e\<lparr>en_cache := c\<rparr>)"
proof (cases "wal_read_page (en_wal e) pid v")
  case (Some d)
  then obtain u where "(u, d) \<in> set (index_versions (wi_index (en_wal e)) pid)"
    using wal_read_in_versions by blast
  then have "length d = PAGE_SIZE" using inv index_versions_ok by (auto simp: engine_inv_def)
  then show ?thesis
    using Some inv view
    by (intro exI [of _ "page_from_bytes pid d"] exI [of _ "en_cache e"])
      (simp add: read_page_at_def engine_view_def page_ok_def)
next
  case None
  then obtain d where d: "file_page (en_file e) pid = Some d" "b = page_body pid d"
    using view by (auto simp: engine_view_def)
  show ?thesis
  proof (cases "pc_map (en_cache e) pid")
    case (Some page)
    obtain c where c: "cache_get pid (en_cache e) = (Some page, c)" "pc_map c = pc_map (en_cache e)"
        "cache_inv c"
      using cache_get_ok [of "en_cache e" pid] inv Some by (auto simp: engine_inv_def)
    have p: "page_ok pid page" "page_body pid (rp_data page) = b"
      using engine_inv_cacheD [OF inv Some] d by auto
    have "engine_inv (e\<lparr>en_cache := c\<rparr>)"
      using inv c by (simp add: engine_inv_def cache_coherent_def)
    then show ?thesis
      using c p None by (intro exI [of _ page] exI [of _ c]) (simp add: read_page_at_def)
  next
    case miss: None
    let ?p = "page_from_bytes pid d"
    obtain c0 where g: "cache_get pid (en_cache e) = (None, c0)" "pc_map c0 = pc_map (en_cache e)"
        and c0: "cache_inv c0"
      using cache_get_ok [of "en_cache e" pid] inv miss by (auto simp: engine_inv_def)
    let ?c = "cache_insert ?p c0"
    have ld: "length d = PAGE_SIZE" using d(1) by (rule length_file_page)
    have "page_ok q page \<and> (\<exists>d. file_page (en_file e) q = Some d \<and> page_body q (rp_data page) = page_body q d)"
      if "pc_map ?c q = Some page" for q page
    proof -
      have "page = ?p \<and> q = pid \<or> pc_map (en_cache e) q = Some page"
        using cache_insert_entries [OF c0, of ?p] that g(2)
        unfolding map_le_def by (auto dest!: bspec [of _ _ q] split: if_splits)
      then show ?thesis
        using inv d ld unfolding engine_inv_def cache_coherent_def by (auto simp: page_ok_def)
    qed
    then have "engine_inv (e\<lparr>en_cache := ?c\<rparr>)"
      using inv c0 by (simp add: engine_inv_def cache_coherent_def cache_inv_insert)
    then show ?thesis
      using g None d ld
      by (intro exI [of _ ?p] exI [of _ ?c])
        (simp add: read_page_at_def file_read_page_eq Let_def page_ok_def)
  qed
qed

lemma read_page_at_out_of_range:
  assumes inv: "engine_inv e" and view: "engine_view e v pid = None"
  shows "read_page_at e pid v = Err (PageOutOfRange pid)"
proof -
  have n: "wal_read_page (en_wal e) pid v = None" "file_page (en_file e) pid = None"
    using view by (auto simp: engine_view_def split: option.splits)
  then have "pc_map (en_cache e) pid = None"
    using engine_inv_cacheD [OF inv] by (metis not_None_eq)
  then obtain c where "cache_get pid (en_cache e) = (None, c)"
    using cache_get_ok [of "en_cache e" pid] inv by (auto simp: engine_inv_def)
  with n show ?thesis by (simp add: read_page_at_def file_read_page_eq)
qed

lemma engine_view_cache [simp]: "engine_view (e\<lparr>en_cache := c\<rparr>) = engine_view e"
  by (simp add: engine_view_def fun_eq_iff split: option.split)

lemma engine_view_mvcc [simp]:
  "engine_view (e\<lparr>en_mvcc := m\<rparr>) = engine_view e" "engine_view (e\<lparr>en_gate := g\<rparr>) = engine_view e"
  "engine_view (e\<lparr>en_page_count := n\<rparr>) = engine_view e" "engine_view (e\<lparr>en_freelist := fl\<rparr>) = engine_view e"
  by (simp_all add: engine_view_def fun_eq_iff split: option.split)

section \<open>The checkpoint\<close>

lemma wal_read_committed:
  assumes "versions_bounded (wi_index w) v"
  shows "wal_read_page w pid v = latest_version (wi_index w) pid"
  using assms by (intro wal_read_latest) (auto simp: versions_bounded_def)

lemma engine_view_newest:
  assumes "engine_inv e" and "mv_committed (en_mvcc e) \<le> v"
  shows "engine_view e v pid = map_option (page_body pid) (newest_page (en_wal e) (en_file e) pid)"
proof -
  have "versions_bounded (wi_index (en_wal e)) v"
    using assms unfolding engine_inv_def versions_bounded_def by fastforce
  then show ?thesis
    by (simp add: engine_view_def newest_page_def wal_read_committed)
qed

text \<open>
  Folding the log keeps the invariant and what every snapshot at or above the committed
  version shows of every page that exists.
\<close>

lemma engine_fold_wal_ok:
  assumes inv: "engine_inv e"
  shows "\<exists>e'. engine_fold_wal e = Ok e' \<and> engine_inv e'
    \<and> en_mvcc e' = en_mvcc e \<and> en_gate e' = en_gate e
    \<and> en_page_count e' = en_page_count e \<and> en_freelist e' = en_freelist e
    \<and> (\<forall>v pid b. mv_committed (en_mvcc e) \<le> v \<longrightarrow> engine_view e v pid = Some b \<longrightarrow> engine_view e' v pid = Some b)"
proof (cases "wi_index (en_wal e) = []")
  case True
  then have "engine_fold_wal e = Ok e"
    by (cases e) (simp add: engine_fold_wal_def wal_checkpoint_def)
  with inv show ?thesis by blast
next
  case False
  have i: "index_ok (wi_index (en_wal e))" and p1: "file_page (en_file e) 1 \<noteq> None"
    and ci: "cache_inv (en_cache e)" using inv by (auto simp: engine_inv_def)
  let ?w = "(en_wal e)\<lparr>wi_file := [], wi_write_offset := 0, wi_index := []\<rparr>"
  obtain bs c where r: "wal_checkpoint (en_wal e) (en_file e) (en_cache e) = Ok (?w, bs, c)"
      "\<And>p d. newest_page (en_wal e) (en_file e) p = Some d \<Longrightarrow>
         \<exists>d'. file_page bs p = Some d' \<and> page_body p d' = page_body p d"
      "\<And>p. pc_map c p = (if latest_version (wi_index (en_wal e)) p = None then pc_map (en_cache e) p else None)"
      "cache_inv c"
    using wal_checkpoint_ok [OF i False p1, of "en_cache e"] ci by blast
  let ?e = "e\<lparr>en_wal := ?w, en_file := bs, en_cache := c\<rparr>"
  have fold: "engine_fold_wal e = Ok ?e" using r(1) by (simp add: engine_fold_wal_def)
  have old: "\<exists>d'. file_page bs p = Some d' \<and> page_body p d' = page_body p d"
    if "file_page (en_file e) p = Some d" "latest_version (wi_index (en_wal e)) p = None" for p d
    using r(2) [of p d] that by (simp add: newest_page_def)
  have coh: "cache_coherent c bs"
    unfolding cache_coherent_def
  proof (intro allI impI)
    fix p page
    assume "pc_map c p = Some page"
    then have l: "latest_version (wi_index (en_wal e)) p = None" "pc_map (en_cache e) p = Some page"
      using r(3) [of p] by (auto split: if_splits)
    then obtain d where "page_ok p page" "file_page (en_file e) p = Some d"
        "page_body p (rp_data page) = page_body p d"
      using engine_inv_cacheD [OF inv] by metis
    then show "page_ok p page \<and> (\<exists>d. file_page bs p = Some d \<and> page_body p (rp_data page) = page_body p d)"
      using old [of p d] l(1) by metis
  qed
  have "file_page bs 1 \<noteq> None"
  proof -
    obtain d where "newest_page (en_wal e) (en_file e) 1 = Some d"
      using p1 by (cases "latest_version (wi_index (en_wal e)) 1") (auto simp: newest_page_def)
    then show ?thesis using r(2) [of 1 d] by auto
  qed
  then have inv': "engine_inv ?e"
    using inv r(4) coh by (simp add: engine_inv_def versions_bounded_def index_versions_def)
  have "engine_view ?e v p = Some b" if v: "mv_committed (en_mvcc e) \<le> v" and b: "engine_view e v p = Some b" for v p b
  proof -
    obtain d where d: "newest_page (en_wal e) (en_file e) p = Some d" "page_body p d = b"
      using b engine_view_newest [OF inv v, of p] by auto
    have "newest_page ?w bs p = file_page bs p"
      by (simp add: newest_page_def latest_version_def index_versions_def)
    then show ?thesis
      using r(2) [OF d(1)] d(2) engine_view_newest [OF inv', of v p] v by auto
  qed
  with fold inv' show ?thesis by (intro exI [of _ ?e]) simp
qed

section \<open>The write transaction as a page store\<close>

text \<open>
  While the transaction is open the gate keeps other commits out, so its snapshot is the
  committed version.
\<close>

definition tx_inv :: "tx_state \<Rightarrow> bool" where
  "tx_inv st \<longleftrightarrow> (case st of (e, tx) \<Rightarrow>
     engine_inv e \<and> sn_version (wt_snapshot tx) = mv_committed (en_mvcc e)
     \<and> distinct (map fst (wt_pending tx))
     \<and> (\<forall>pid page. map_of (wt_pending tx) pid = Some page \<longrightarrow> page_ok pid page \<and> pid \<noteq> 0)
     \<and> alloc_ok (wt_local_freelist tx) (wt_local_page_count tx))"

definition tx_view :: "tx_state \<Rightarrow> page_id \<Rightarrow> bytes option" where
  "tx_view st pid = (case st of (e, tx) \<Rightarrow>
     (case map_of (wt_pending tx) pid of
        Some page \<Rightarrow> Some (page_body pid (rp_data page))
      | None \<Rightarrow> engine_view e (sn_version (wt_snapshot tx)) pid))"

text \<open>The pages the transaction can still hand out.\<close>

definition tx_avail :: "tx_state \<Rightarrow> page_id set" where
  "tx_avail st = set (wt_local_freelist (snd st)) \<union> {p. wt_local_page_count (snd st) < p}"

lemma word_less_succ: "n \<noteq> - 1 \<Longrightarrow> n < p \<longleftrightarrow> n + 1 \<le> (p :: 'a :: len word)"
proof -
  assume "n \<noteq> - 1"
  then have "1 + n \<noteq> 0" by (metis add.commute eq_neg_iff_add_eq_0)
  then have "unat (n + 1) = Suc (unat n)" using unatSuc [of n] by (simp add: add.commute)
  then show ?thesis by (simp add: word_less_nat_alt word_le_nat_alt Suc_le_eq)
qed

lemma word_gt_one: "p \<noteq> 0 \<Longrightarrow> p \<noteq> 1 \<Longrightarrow> 1 < (p :: u32)"
proof -
  assume "p \<noteq> 0" "p \<noteq> 1"
  then have "unat p \<noteq> 0" "unat p \<noteq> 1" by (simp_all add: word_unat_eq_iff)
  then show ?thesis by (simp add: word_less_nat_alt)
qed

lemma tx_get_page_ok:
  assumes "tx_inv st" and "tx_view st pid = Some b"
  shows "\<exists>page st'. tx_get_page st pid = Ok (page, st') \<and> page_ok pid page
     \<and> page_body pid (rp_data page) = b \<and> tx_inv st'
     \<and> tx_view st' = tx_view st \<and> tx_avail st' = tx_avail st"
proof -
  obtain e tx where st: "st = (e, tx)" by (cases st)
  show ?thesis
  proof (cases "map_of (wt_pending tx) pid")
    case (Some page)
    with assms st show ?thesis
      by (intro exI [of _ page] exI [of _ st]) (auto simp: tx_get_page_def tx_view_def tx_inv_def)
  next
    case None
    then obtain page c where r: "read_page_at e pid (sn_version (wt_snapshot tx)) = Ok (page, e\<lparr>en_cache := c\<rparr>)"
        "page_ok pid page" "page_body pid (rp_data page) = b" "engine_inv (e\<lparr>en_cache := c\<rparr>)"
      using assms st read_page_at_ok [of e "sn_version (wt_snapshot tx)" pid b]
      by (auto simp: tx_view_def tx_inv_def)
    then show ?thesis
      using assms st None
      by (intro exI [of _ page] exI [of _ "(e\<lparr>en_cache := c\<rparr>, tx)"])
        (auto simp: tx_get_page_def tx_view_def tx_inv_def tx_avail_def fun_eq_iff split: option.split)
  qed
qed

lemma tx_alloc_page_ok:
  assumes "tx_inv st" and "tx_avail st \<noteq> {}"
  shows "\<exists>pid st'. tx_alloc_page st = Ok (pid, st') \<and> pid \<in> tx_avail st
     \<and> tx_avail st' = tx_avail st - {pid} \<and> tx_inv st' \<and> tx_view st' = tx_view st"
proof -
  obtain e tx where st: "st = (e, tx)" by (cases st)
  let ?fl = "wt_local_freelist tx" and ?n = "wt_local_page_count tx"
  have al: "alloc_ok ?fl ?n" using assms(1) st by (simp add: tx_inv_def)
  show ?thesis
  proof (cases ?fl rule: rev_cases)
    case Nil
    with assms(2) st obtain p where "?n < p" by (auto simp: tx_avail_def)
    then have n: "?n \<noteq> - 1" using word_order.extremum_strict by auto
    then have lt: "?n < p \<longleftrightarrow> ?n + 1 \<le> p" for p by (rule word_less_succ)
    have mx: "?n < ?n + 1" using lt by blast
    let ?st = "(e, tx\<lparr>wt_local_page_count := ?n + 1\<rparr>)"
    have "tx_alloc_page st = Ok (?n + 1, ?st)" using Nil n st by (simp add: tx_alloc_page_def Let_def)
    moreover have "tx_avail ?st = tx_avail st - {?n + 1}"
      using Nil st lt by (auto simp: tx_avail_def order.order_iff_strict)
    moreover have "alloc_ok ?fl (?n + 1)" using al mx by (auto simp: alloc_ok_def Nil)
    moreover have "?n + 1 \<in> tx_avail st" using mx st by (simp add: tx_avail_def)
    ultimately show ?thesis
      using assms(1) st by (intro exI [of _ "?n + 1"] exI [of _ ?st]) (auto simp: tx_inv_def tx_view_def fun_eq_iff split: option.split)
  next
    case (snoc fl p)
    let ?st = "(e, tx\<lparr>wt_local_freelist := fl\<rparr>)"
    have "tx_alloc_page st = Ok (p, ?st)" using snoc st by (simp add: tx_alloc_page_def)
    moreover have "tx_avail ?st = tx_avail st - {p}"
      using snoc st al by (auto simp: tx_avail_def alloc_ok_def)
    moreover have "alloc_ok fl ?n" using al by (auto simp: alloc_ok_def snoc)
    moreover have "p \<in> tx_avail st" using snoc st by (simp add: tx_avail_def)
    ultimately show ?thesis
      using assms(1) st by (intro exI [of _ p] exI [of _ ?st]) (auto simp: tx_inv_def tx_view_def fun_eq_iff split: option.split)
  qed
qed

lemma tx_write_page_ok:
  assumes "tx_inv st" and "page_wf page" and "rp_id page \<noteq> 0"
  shows "\<exists>st'. tx_write_page st page = Ok st' \<and> tx_inv st' \<and> tx_avail st' = tx_avail st
     \<and> tx_view st' = (tx_view st)(rp_id page \<mapsto> page_body (rp_id page) (rp_data page))"
proof -
  obtain e tx where st: "st = (e, tx)" by (cases st)
  with assms show ?thesis
    by (auto simp: tx_write_page_def tx_inv_def tx_avail_def tx_view_def fun_eq_iff update_conv'
        distinct_update page_ok_def split: option.split)
qed

lemma tx_free_page_ok:
  assumes "tx_inv st" and "pid \<notin> tx_avail st" and "pid \<noteq> 0" and "pid \<noteq> 1"
  shows "\<exists>st'. tx_free_page st pid = Ok st' \<and> tx_inv st' \<and> tx_avail st' = insert pid (tx_avail st)
     \<and> (\<forall>q. q \<noteq> pid \<longrightarrow> tx_view st' q = tx_view st q)"
proof -
  obtain e tx where st: "st = (e, tx)" by (cases st)
  have "1 < pid" using assms(3,4) by (rule word_gt_one)
  then have "alloc_ok (wt_local_freelist tx @ [pid]) (wt_local_page_count tx)"
    using assms st by (auto simp: alloc_ok_def tx_inv_def tx_avail_def not_less)
  then show ?thesis
    using assms(1) st
    by (auto simp: tx_free_page_def tx_inv_def tx_avail_def tx_view_def delete_conv' distinct_delete
        split: option.split if_splits)
qed

section \<open>Beginning and committing a write transaction\<close>

lemma begin_write_ok:
  assumes "engine_inv e" and "begin_write e = Ok (tx, e')"
  shows "tx_inv (e', tx) \<and> en_gate e' \<and> engine_view e' = engine_view e
    \<and> mv_committed (en_mvcc e') = mv_committed (en_mvcc e)
    \<and> tx_view (e', tx) = engine_view e (mv_committed (en_mvcc e))
    \<and> reader_count (en_mvcc e') = reader_count (en_mvcc e)"
  using assms
  by (auto simp: begin_write_def obind_eq_Ok mvcc_begin_write_def tx_inv_def engine_inv_def mvcc_inv_def
      current_version_def tx_view_def fun_eq_iff reader_count_def engine_view_def
      split: if_splits option.split)

text \<open>Whatever the iteration order, the pending pages contain the one of each page id.\<close>

lemma filter_key:
  assumes "distinct (map fst ps)"
  shows "filter (\<lambda>x. fst x = k) ps = (case map_of ps k of None \<Rightarrow> [] | Some v \<Rightarrow> [(k, v)])"
  using assms
proof (induction ps)
  case (Cons x ps)
  obtain l v where x: "x = (l, v)" by (cases x)
  with Cons.prems have "l \<notin> fst ` set ps" by auto
  then have "map_of ps l = None" by (simp add: map_of_eq_None_iff)
  with Cons x show ?case by auto
qed simp

lemma pending_filter:
  assumes d: "distinct (map fst ps)" and "\<forall>pid page. map_of ps pid = Some page \<longrightarrow> rp_id page = pid"
    and "mset pages = mset (map snd ps)"
  shows "filter (\<lambda>page. rp_id page = pid) pages = (case map_of ps pid of None \<Rightarrow> [] | Some page \<Rightarrow> [page])"
proof -
  have "rp_id (snd x) = pid \<longleftrightarrow> fst x = pid" if "x \<in> set ps" for x
    using assms(2) d that by (cases x) auto
  then have "filter (\<lambda>page. rp_id page = pid) (map snd ps) = map snd (filter (\<lambda>x. fst x = pid) ps)"
    by (simp add: filter_map o_def cong: filter_cong)
  also have "\<dots> = (case map_of ps pid of None \<Rightarrow> [] | Some page \<Rightarrow> [page])"
    by (simp add: filter_key [OF d] split: option.split)
  finally have "mset (filter (\<lambda>page. rp_id page = pid) pages)
      = mset (case map_of ps pid of None \<Rightarrow> [] | Some page \<Rightarrow> [page])"
    using assms(3) by (metis mset_filter)
  then show ?thesis
    by (cases "map_of ps pid") (simp_all only: option.simps mset.simps mset_single_iff mset_zero_iff)
qed

text \<open>The iteration of the hash map visits every entry once.\<close>

definition iterates_values :: "((page_id \<times> raw_page) list \<Rightarrow> raw_page list) \<Rightarrow> bool" where
  "iterates_values hv \<longleftrightarrow> (\<forall>ps. mset (hv ps) = mset (map snd ps))"

lemma cache_invalidate_fold:
  "pc_map (fold (\<lambda>p. cache_invalidate (rp_id p)) pages c) pid =
     (if pid \<in> rp_id ` set pages then None else pc_map c pid)"
  by (induction pages arbitrary: c) auto

lemma cache_inv_fold:
  "cache_inv c \<Longrightarrow> cache_inv (fold (\<lambda>p. cache_invalidate (rp_id p)) pages c)"
  by (induction pages arbitrary: c) (auto intro: cache_inv_invalidate)

lemma cache_coherent_sub:
  "cache_coherent c file \<Longrightarrow> \<forall>pid page. pc_map c' pid = Some page \<longrightarrow> pc_map c pid = Some page \<Longrightarrow>
   cache_coherent c' file"
  unfolding cache_coherent_def by blast

text \<open>The frames of a commit, as the log sees them.\<close>

definition commit_frames :: "u32 \<Rightarrow> u64 \<Rightarrow> raw_page list \<Rightarrow> wal_frame list" where
  "commit_frames salt v pages = map (page_frame salt v) pages"

lemma commit_frames_ok:
  assumes "\<forall>page\<in>set pages. page_wf page \<and> rp_id page \<noteq> 0"
  shows "list_all (\<lambda>f. frame_wf f \<and> wf_page_id f \<noteq> 0) (commit_frames salt v pages)"
  using assms by (auto simp: commit_frames_def page_frame_def list_all_iff frame_wf_def page_wf_def)

lemma commit_frames_filter:
  "map (\<lambda>f. (v, wf_data f)) (filter (\<lambda>f. wf_page_id f = pid) (commit_frames salt u pages))
   = map (\<lambda>p. (v, rp_data p)) (filter (\<lambda>p. rp_id p = pid) pages)"
  by (induction pages) (auto simp: commit_frames_def page_frame_def)

lemma wal_read_push:
  assumes "index_versions (wi_index w') pid = index_versions (wi_index w) pid @ new"
  shows "\<forall>(u, d)\<in>set new. v < u \<Longrightarrow> wal_read_page w' pid v = wal_read_page w pid v"
    and "new = [(u, d)] \<Longrightarrow> u \<le> v \<Longrightarrow> wal_read_page w' pid v = Some d"
proof -
  show "wal_read_page w' pid v = wal_read_page w pid v" if "\<forall>(u, d)\<in>set new. v < u"
  proof -
    have "find (\<lambda>(u, _). u \<le> v) (rev new) = None" using that by (auto simp: find_None_iff)
    then show ?thesis by (simp add: wal_read_page_versions assms find_append)
  qed
  show "wal_read_page w' pid v = Some d" if "new = [(u, d)]" "u \<le> v"
    using that by (simp add: wal_read_page_versions assms)
qed

text \<open>
  A commit: snapshots up to the old version are unaffected, the new version shows the
  transaction's view, the gate is open again and the invariant holds.
\<close>

lemma tx_commit_ok:
  assumes inv: "tx_inv (e, tx)" and hv: "iterates_values hv" and fin: "\<not> wt_finished tx"
    and v: "mv_committed (en_mvcc e) \<noteq> - 1"
    and off: "wi_write_offset (en_wal e) \<le> length (wi_file (en_wal e))"
  shows "\<exists>e' tx'. tx_commit NoFault hv e tx = (Ok (), e', tx') \<and> engine_inv e' \<and> \<not> en_gate e'
    \<and> mv_committed (en_mvcc e') = mv_committed (en_mvcc e) + 1
    \<and> reader_count (en_mvcc e') = reader_count (en_mvcc e)
    \<and> (\<forall>u pid. u \<le> mv_committed (en_mvcc e) \<longrightarrow> engine_view e' u pid = engine_view e u pid)
    \<and> engine_view e' (mv_committed (en_mvcc e) + 1) = tx_view (e, tx)
    \<and> en_file e' = en_file e
    \<and> (wt_pending tx = [] \<and> en_wal e' = en_wal e \<or>
       (\<exists>c. commit_ok c \<and> list_all (\<lambda>f. wf_page_id f \<noteq> 0) (snd (snd c)) \<and>
          fst c = mv_committed (en_mvcc e) + 1 \<and> fst (snd c) = wt_local_page_count tx \<and>
          append_commit NoFault (en_wal e) (snd (snd c)) (fst c) (fst (snd c)) = (Ok (), en_wal e')))"
proof -
  let ?v = "mv_committed (en_mvcc e) + 1" and ?n = "wt_local_page_count tx" and ?ps = "wt_pending tx"
  let ?salt = "wi_salt (en_wal e)"
  let ?pages = "hv ?ps"
  let ?fs = "commit_frames ?salt ?v ?pages"
  let ?c = "(?v, ?n, ?fs)"
  have vlt: "mv_committed (en_mvcc e) < ?v" using word_less_succ [OF v, of ?v] by blast
  have res: "reserve_commit_version (en_mvcc e) = Ok ?v"
    using v by (simp add: reserve_commit_version_def checked_succ_def)
  have ei: "engine_inv e" and sn: "sn_version (wt_snapshot tx) = mv_committed (en_mvcc e)"
    and d: "distinct (map fst ?ps)" and pg: "\<And>pid page. map_of ?ps pid = Some page \<Longrightarrow> page_ok pid page \<and> pid \<noteq> 0"
    and al: "alloc_ok (wt_local_freelist tx) ?n"
    using inv by (auto simp: tx_inv_def)
  have ms: "mset ?pages = mset (map snd ?ps)" using hv by (simp add: iterates_values_def)
  have pages: "\<forall>page\<in>set ?pages. page_wf page \<and> rp_id page \<noteq> 0"
  proof
    fix page assume "page \<in> set ?pages"
    then have "page \<in> set (map snd ?ps)" using mset_eq_setD [OF ms] by simp
    then obtain pid where "(pid, page) \<in> set ?ps" by auto
    then show "page_wf page \<and> rp_id page \<noteq> 0" using pg [of pid page] d by (auto simp: page_ok_def)
  qed
  have nn: "?n \<noteq> 0" using al by (auto simp: alloc_ok_def)
  let ?cache = "if ?ps = [] then en_cache e else fold (\<lambda>p. cache_invalidate (rp_id p)) ?pages (en_cache e)"
  have ne: "?pages \<noteq> []" if "?ps \<noteq> []" using that ms by (metis mset_zero_iff_right map_is_Nil_conv)
  have cok: "commit_ok ?c" if "?ps \<noteq> []"
    using commit_frames_ok [OF pages, of ?salt ?v] ne [OF that] nn
    by (simp add: commit_ok_def list_all_iff commit_frames_def)
  obtain w where app: "?ps \<noteq> [] \<Longrightarrow> append_commit NoFault (en_wal e) ?fs ?v ?n = (Ok (), w)"
      and w: "?ps = [] \<Longrightarrow> w = en_wal e"
      and idx: "wi_index w = (if ?ps = [] then wi_index (en_wal e) else push_frames ?v ?fs (wi_index (en_wal e)))"
  proof (cases "?ps = []")
    case False
    then show ?thesis
      using append_commit_ok [OF off cok] that by (simp add: apply_commit_def publish_frames_def)
  qed simp
  let ?m = "publish_commit ?v (en_mvcc e)"
  let ?e = "e\<lparr>en_cache := ?cache, en_wal := w, en_mvcc := ?m, en_page_count := ?n,
      en_freelist := wt_local_freelist tx, en_gate := False\<rparr>"
  let ?new = "\<lambda>pid. case map_of ?ps pid of None \<Rightarrow> [] | Some page \<Rightarrow> [(?v, rp_data page)]"
  have vers: "index_versions (wi_index w) pid = index_versions (wi_index (en_wal e)) pid @ ?new pid" for pid
  proof -
    have "\<forall>pid page. map_of ?ps pid = Some page \<longrightarrow> rp_id page = pid" using pg by (auto simp: page_ok_def)
    then have "filter (\<lambda>p. rp_id p = pid) ?pages = (case map_of ?ps pid of None \<Rightarrow> [] | Some page \<Rightarrow> [page])"
      using pending_filter [OF d _ ms] by blast
    then show ?thesis
      unfolding idx by (simp add: index_versions_push_frames commit_frames_filter split: option.split)
  qed
  have com: "tx_commit NoFault hv e tx = (Ok (), ?e, tx\<lparr>wt_finished := True\<rparr>)"
    using res fin app w
    by (cases "?ps = []") (simp_all add: tx_commit_def Let_def tx_finish_def commit_frames_def)
  have mv: "mv_committed ?m = ?v" using vlt by (simp add: publish_commit_def set_at_least_def)
  have vb: "versions_bounded (wi_index w) ?v"
    using ei vlt vers unfolding engine_inv_def versions_bounded_def
    by (fastforce split: option.splits)
  have io: "index_ok (wi_index w)"
    using ei index_ok_push_frames [OF _ commit_frames_ok [OF pages]] unfolding idx by (auto simp: engine_inv_def)
  have ci: "cache_inv ?cache" using ei cache_inv_fold by (auto simp: engine_inv_def)
  have co: "cache_coherent ?cache (en_file e)"
    using ei by (auto simp: engine_inv_def cache_invalidate_fold elim!: cache_coherent_sub split: if_splits)
  have inv': "engine_inv ?e"
    using ei vb io ci co al mvcc_inv_publish [of "en_mvcc e" ?v] mv by (simp add: engine_inv_def)
  have old: "engine_view ?e u pid = engine_view e u pid" if "u \<le> mv_committed (en_mvcc e)" for u pid
  proof -
    have "\<forall>(x, d)\<in>set (?new pid). u < x" using that vlt by (auto split: option.splits)
    then have "wal_read_page w pid u = wal_read_page (en_wal e) pid u"
      by (rule wal_read_push(1) [OF vers])
    then show ?thesis by (simp add: engine_view_def split: option.split)
  qed
  have new: "engine_view ?e ?v pid = tx_view (e, tx) pid" for pid
  proof (cases "map_of ?ps pid")
    case None
    have "wal_read_page w pid ?v = wal_read_page (en_wal e) pid (mv_committed (en_mvcc e))"
      using None vers [of pid] vb ei wal_read_committed
      by (simp add: engine_inv_def latest_version_def wal_read_committed)
    then show ?thesis using None sn by (simp add: engine_view_def tx_view_def split: option.split)
  next
    case (Some page)
    then have "wal_read_page w pid ?v = Some (rp_data page)"
      using wal_read_push(2) [OF vers, of pid ?v "rp_data page" ?v] by simp
    then show ?thesis using Some by (simp add: engine_view_def tx_view_def)
  qed
  have cnt: "reader_count ?m = reader_count (en_mvcc e)"
    by (simp add: reader_count_def publish_commit_def fun_eq_iff)
  have last: "?ps = [] \<and> en_wal ?e = en_wal e \<or>
       (\<exists>c. commit_ok c \<and> list_all (\<lambda>f. wf_page_id f \<noteq> 0) (snd (snd c)) \<and>
          fst c = ?v \<and> fst (snd c) = ?n \<and>
          append_commit NoFault (en_wal e) (snd (snd c)) (fst c) (fst (snd c)) = (Ok (), en_wal ?e))"
  proof (cases "?ps = []")
    case False
    have "list_all (\<lambda>f. wf_page_id f \<noteq> 0) ?fs"
      using commit_frames_ok [OF pages] by (auto simp: list_all_iff)
    then show ?thesis using cok [OF False] app [OF False] by (intro disjI2 exI [of _ ?c]) simp
  qed (simp add: w)
  show ?thesis
    unfolding com using inv' mv cnt old new last by (intro exI [of _ ?e]) (auto simp: fun_eq_iff)
qed

end
