(* ===== verification/RustString.thy ===== *)
theory RustString
  imports Squrust_Prelude "HOL-Library.Char_ord" "HOL-Library.List_Lexorder" "HOL-Library.Sublist"
begin

text \<open>
  Rust strings for the SQL layer. A \<open>String\<close> is the list of its UTF-8 bytes (a HOL
  \<open>string\<close>), a Rust \<open>char\<close> is its code point. The operations of the standard library
  that the code uses are given here: decoding and encoding, lossy decoding of blobs,
  trimming, searching, replacing, ASCII case, and the decimal parsers and printers of
  integers. The lemmas show that encoding and decoding are inverse on valid text.
\<close>

section \<open>Bytes and code points\<close>

type_synonym uchar = nat

abbreviation cp :: "char \<Rightarrow> uchar" where
  "cp c \<equiv> of_char c"

definition byte :: "nat \<Rightarrow> char" where
  "byte n = char_of n"

lemma of_char_byte [simp]: "n < 256 \<Longrightarrow> (of_char (byte n) :: nat) = n"
  by (simp add: byte_def)

definition str_bytes :: "string \<Rightarrow> bytes" where
  "str_bytes s = map (\<lambda>c. word_of_nat (of_char c)) s"

definition bytes_str :: "bytes \<Rightarrow> string" where
  "bytes_str bs = map (\<lambda>b. char_of (unat b)) bs"

definition utf8_char :: "uchar \<Rightarrow> string" where
  "utf8_char c =
     (if c < 0x80 then [byte c]
      else if c < 0x800 then [byte (0xC0 + c div 64), byte (0x80 + c mod 64)]
      else if c < 0x10000 then
        [byte (0xE0 + c div 4096), byte (0x80 + c div 64 mod 64), byte (0x80 + c mod 64)]
      else
        [byte (0xF0 + c div 262144), byte (0x80 + c div 4096 mod 64),
         byte (0x80 + c div 64 mod 64), byte (0x80 + c mod 64)])"

definition of_chars :: "uchar list \<Rightarrow> string" where
  "of_chars cs = concat (map utf8_char cs)"

text \<open>A \<open>char\<close> is a code point outside the surrogate range.\<close>

definition is_uchar :: "uchar \<Rightarrow> bool" where
  "is_uchar c \<longleftrightarrow> c < 0xD800 \<or> 0xE000 \<le> c \<and> c \<le> 0x10FFFF"

text \<open>
  One step of the decoder of the standard library at the head of a nonempty string:
  whether a code point is complete there, and how many bytes are consumed; an
  ill-formed sequence consumes its longest prefix that could have been continued.
\<close>

definition cont :: "nat \<Rightarrow> bool" where
  "cont b \<longleftrightarrow> 0x80 \<le> b \<and> b < 0xC0"

definition utf8_second :: "nat \<Rightarrow> nat \<Rightarrow> bool" where
  "utf8_second b b1 \<longleftrightarrow> cont b1
     \<and> (b = 0xE0 \<longrightarrow> 0xA0 \<le> b1) \<and> (b = 0xED \<longrightarrow> b1 < 0xA0)
     \<and> (b = 0xF0 \<longrightarrow> 0x90 \<le> b1) \<and> (b = 0xF4 \<longrightarrow> b1 < 0x90)"

definition byte_at :: "string \<Rightarrow> nat \<Rightarrow> nat" where
  "byte_at s i = (if i < length s then of_char (s ! i) else 0)"

definition utf8_step :: "string \<Rightarrow> bool \<times> nat" where
  "utf8_step s =
     (let b = byte_at s 0 in
      if b < 0x80 then (True, 1)
      else if b < 0xC2 \<or> 0xF5 \<le> b then (False, 1)
      else if \<not> utf8_second b (byte_at s 1) then (False, 1)
      else if b < 0xE0 then (True, 2)
      else if \<not> cont (byte_at s 2) then (False, 2)
      else if b < 0xF0 then (True, 3)
      else if \<not> cont (byte_at s 3) then (False, 3)
      else (True, 4))"

definition utf8_value :: "string \<Rightarrow> uchar" where
  "utf8_value s =
     (let b = byte_at s 0 in
      if b < 0x80 then b
      else if b < 0xE0 then (b - 0xC0) * 64 + (byte_at s 1 - 0x80)
      else if b < 0xF0 then (b - 0xE0) * 4096 + (byte_at s 1 - 0x80) * 64 + (byte_at s 2 - 0x80)
      else (b - 0xF0) * 262144 + (byte_at s 1 - 0x80) * 4096 + (byte_at s 2 - 0x80) * 64
        + (byte_at s 3 - 0x80))"

lemma utf8_step_pos: "0 < snd (utf8_step s)"
  by (simp add: utf8_step_def Let_def)

text \<open>
  \<open>from_utf8_lossy\<close> replaces every ill-formed sequence by U+FFFD; \<open>from_utf8\<close> accepts
  exactly the strings that have none, and \<open>chars\<close> decodes those.
\<close>

function utf8_decode :: "string \<Rightarrow> (bool \<times> uchar) list" where
  "utf8_decode s =
     (if s = [] then []
      else let (ok, n) = utf8_step s in
        (ok, if ok then utf8_value s else 0xFFFD) # utf8_decode (drop n s))"
  by pat_completeness auto
termination
  using utf8_step_pos by (relation "measure length") (auto simp: prod_eq_iff diff_less)

declare utf8_decode.simps [simp del]

definition chars :: "string \<Rightarrow> uchar list" where
  "chars s = map snd (utf8_decode s)"

definition utf8_valid :: "string \<Rightarrow> bool" where
  "utf8_valid s \<longleftrightarrow> list_all fst (utf8_decode s)"

definition from_utf8_lossy :: "bytes \<Rightarrow> string" where
  "from_utf8_lossy bs = of_chars (chars (bytes_str bs))"

lemma utf8_decode_Nil [simp]: "utf8_decode [] = []"
  by (simp add: utf8_decode.simps)

lemma str_bytes_simps [simp]:
  "length (str_bytes s) = length s" "length (bytes_str bs) = length bs"
  "bytes_str (str_bytes s) = s" "str_bytes (bytes_str bs) = bs"
proof -
  have "unat (word_of_nat (of_char c) :: u8) = of_char c" for c :: char
    by (simp add: unat_of_nat)
  then show "bytes_str (str_bytes s) = s" by (simp add: str_bytes_def bytes_str_def comp_def)
  have "unat b < 256" for b :: u8 using unat_less_pow [of b] by simp
  then show "str_bytes (bytes_str bs) = bs" by (simp add: str_bytes_def bytes_str_def comp_def)
qed (simp_all add: str_bytes_def bytes_str_def)

subsection \<open>Encoding and decoding are inverse\<close>

lemma is_uchar_cases:
  assumes "is_uchar c"
  obtains "c < 0x80"
  | a b where "c = a * 64 + b" "2 \<le> a" "a < 32" "b < 64"
      "utf8_char c = [byte (0xC0 + a), byte (0x80 + b)]"
  | a b d where "c = a * 4096 + b * 64 + d" "a < 16" "b < 64" "d < 64" "a = 0 \<longrightarrow> 32 \<le> b"
      "a = 13 \<longrightarrow> b < 32" "utf8_char c = [byte (0xE0 + a), byte (0x80 + b), byte (0x80 + d)]"
  | a b d e where "c = a * 262144 + b * 4096 + d * 64 + e" "a \<le> 4" "b < 64" "d < 64" "e < 64"
      "a = 0 \<longrightarrow> 16 \<le> b" "a = 4 \<longrightarrow> b < 16"
      "utf8_char c = [byte (0xF0 + a), byte (0x80 + b), byte (0x80 + d), byte (0x80 + e)]"
proof -
  consider "c < 0x80" | "0x80 \<le> c" "c < 0x800" | "0x800 \<le> c" "c < 0x10000" | "0x10000 \<le> c"
    by linarith
  then show thesis
  proof cases
    case 2
    have "c div 64 < 32" "2 \<le> c div 64" using 2 by linarith+
    then show ?thesis
      by (intro that(2) [of "c div 64" "c mod 64"]) (use 2 in \<open>simp_all add: utf8_char_def\<close>)
  next
    case 3
    let ?x = "c div 64"
    have x: "c div 4096 = ?x div 64" by (simp add: div_mult2_eq [symmetric])
    have c: "?x * 64 + c mod 64 = c" and d: "?x div 64 * 64 + ?x mod 64 = ?x" by simp_all
    have m: "c mod 64 < 64" "?x mod 64 < 64" by simp_all
    show ?thesis
    proof (rule that(3))
      show "c = ?x div 64 * 4096 + ?x mod 64 * 64 + c mod 64" using c d by linarith
      show "?x div 64 < 16" "?x div 64 = 0 \<longrightarrow> 32 \<le> ?x mod 64" using 3 c d m by linarith+
      show "?x div 64 = 13 \<longrightarrow> ?x mod 64 < 32"
        using assms c d m unfolding is_uchar_def by linarith
      show "utf8_char c = [byte (0xE0 + ?x div 64), byte (0x80 + ?x mod 64), byte (0x80 + c mod 64)]"
        using 3 by (simp add: utf8_char_def x)
    qed (use m in simp_all)
  next
    case 4
    let ?x = "c div 64" and ?y = "c div 4096"
    have y: "?y = ?x div 64" and z: "c div 262144 = ?y div 64"
      by (simp_all add: div_mult2_eq [symmetric])
    have c: "?x * 64 + c mod 64 = c" and d: "?y * 64 + ?x mod 64 = ?x"
      and e: "?y div 64 * 64 + ?y mod 64 = ?y" unfolding y by simp_all
    have m: "c mod 64 < 64" "?x mod 64 < 64" "?y mod 64 < 64" by simp_all
    show ?thesis
    proof (rule that(4))
      show "c = ?y div 64 * 262144 + ?y mod 64 * 4096 + ?x mod 64 * 64 + c mod 64"
        using c d e by linarith
      show "?y div 64 = 0 \<longrightarrow> 16 \<le> ?y mod 64" using 4 c d e m by linarith
      show "?y div 64 \<le> 4" "?y div 64 = 4 \<longrightarrow> ?y mod 64 < 16"
        using assms 4 c d e m unfolding is_uchar_def by linarith+
      show "utf8_char c = [byte (0xF0 + ?y div 64), byte (0x80 + ?y mod 64),
          byte (0x80 + ?x mod 64), byte (0x80 + c mod 64)]"
        using 4 by (simp add: utf8_char_def z)
    qed (use m in simp_all)
  qed (use that(1) in simp)
qed

lemma utf8_decode_char:
  assumes "is_uchar c"
  shows "utf8_decode (utf8_char c @ s) = (True, c) # utf8_decode s"
  using assms
proof (cases rule: is_uchar_cases)
  case 1
  then show ?thesis
    by (subst utf8_decode.simps) (simp add: utf8_char_def utf8_step_def utf8_value_def byte_at_def)
next
  case (2 a b)
  then show ?thesis
    by (subst utf8_decode.simps)
      (simp add: utf8_step_def utf8_value_def byte_at_def utf8_second_def cont_def)
next
  case (3 a b d)
  then show ?thesis
    by (subst utf8_decode.simps)
      (simp add: utf8_step_def utf8_value_def byte_at_def utf8_second_def cont_def numeral_2_eq_2)
next
  case (4 a b d e)
  then show ?thesis
    by (subst utf8_decode.simps)
      (simp add: utf8_step_def utf8_value_def byte_at_def utf8_second_def cont_def numeral_2_eq_2
        numeral_3_eq_3)
qed

lemma utf8_decode_of_chars:
  "list_all is_uchar cs \<Longrightarrow> utf8_decode (of_chars cs @ s) = map (Pair True) cs @ utf8_decode s"
  by (induction cs) (simp_all add: of_chars_def utf8_decode_char)

lemma chars_of_chars [simp]: "list_all is_uchar cs \<Longrightarrow> chars (of_chars cs) = cs"
  using utf8_decode_of_chars [of cs "[]"] by (simp add: chars_def comp_def)

lemma utf8_valid_of_chars: "list_all is_uchar cs \<Longrightarrow> utf8_valid (of_chars cs)"
  using utf8_decode_of_chars [of cs "[]"] by (simp add: utf8_valid_def list_all_iff)

lemma div_mod_low: "w < (m :: nat) \<Longrightarrow> (k * m + w) div m = k \<and> (k * m + w) mod m = w"
  by simp

lemma byte_at_Cons [simp]: "byte_at (c # s) 0 = of_char c"
  by (simp add: byte_at_def)

lemma byte_at_pos: "0 < byte_at s i \<Longrightarrow> i < length s \<and> byte (byte_at s i) = s ! i"
  by (auto simp: byte_at_def byte_def split: if_splits)

lemma utf8_step_True:
  assumes "utf8_step s = (True, n)" and "s \<noteq> []"
  shows "is_uchar (utf8_value s) \<and> s = utf8_char (utf8_value s) @ drop n s"
proof -
  let ?b = "byte_at s 0" and ?b1 = "byte_at s 1" and ?b2 = "byte_at s 2" and ?b3 = "byte_at s 3"
  note step = assms(1) [unfolded utf8_step_def Let_def]
  have p: "byte ?b # drop 1 s = s"
    using assms(2) by (cases s) (simp_all add: byte_def)
  have q: "0 < byte_at s i \<Longrightarrow> byte (byte_at s i) # drop (Suc i) s = drop i s" for i
    using byte_at_pos [of s i] Cons_nth_drop_Suc by fastforce
  have head: "0 < ?b1 \<Longrightarrow> s = [byte ?b, byte ?b1] @ drop 2 s"
    "0 < ?b1 \<Longrightarrow> 0 < ?b2 \<Longrightarrow> s = [byte ?b, byte ?b1, byte ?b2] @ drop 3 s"
    "0 < ?b1 \<Longrightarrow> 0 < ?b2 \<Longrightarrow> 0 < ?b3 \<Longrightarrow> s = [byte ?b, byte ?b1, byte ?b2, byte ?b3] @ drop 4 s"
    using p q [of 1] q [of 2] q [of 3] Suc_1 by (simp_all only: append_Cons append_Nil) auto
  consider (a) "?b < 0x80" "n = 1"
    | (b) "0xC2 \<le> ?b" "?b < 0xE0" "utf8_second ?b ?b1" "n = 2"
    | (c) "0xE0 \<le> ?b" "?b < 0xF0" "utf8_second ?b ?b1" "cont ?b2" "n = 3"
    | (d) "0xF0 \<le> ?b" "?b < 0xF5" "utf8_second ?b ?b1" "cont ?b2" "cont ?b3" "n = 4"
    using step by (auto split: if_splits)
  then show ?thesis
  proof cases
    case a
    then have "utf8_value s = ?b" by (simp add: utf8_value_def)
    with a p show ?thesis by (simp add: is_uchar_def utf8_char_def)
  next
    case b
    define x y where "x = ?b - 0xC0" and "y = ?b1 - 0x80"
    have xy: "?b = 0xC0 + x" "?b1 = 0x80 + y" "2 \<le> x" "x < 32" "y < 64"
      using b by (auto simp: x_def y_def utf8_second_def cont_def)
    have v: "utf8_value s = x * 64 + y" using xy by (simp add: utf8_value_def)
    have c': "utf8_char (x * 64 + y) = [byte ?b, byte ?b1]"
      using xy by (simp add: utf8_char_def)
    have "is_uchar (x * 64 + y)" using xy by (simp add: is_uchar_def)
    moreover have "s = [byte ?b, byte ?b1] @ drop 2 s" by (rule head(1)) (use xy in simp_all)
    ultimately show ?thesis unfolding v c' b(4) ..
  next
    case c
    define x y z where "x = ?b - 0xE0" and "y = ?b1 - 0x80" and "z = ?b2 - 0x80"
    have xy: "?b = 0xE0 + x" "?b1 = 0x80 + y" "?b2 = 0x80 + z" "x < 16" "y < 64" "z < 64"
      "x = 0 \<longrightarrow> 32 \<le> y" "x = 13 \<longrightarrow> y < 32"
      using c by (auto simp: x_def y_def z_def utf8_second_def cont_def)
    have v: "utf8_value s = x * 4096 + y * 64 + z" using xy by (simp add: utf8_value_def)
    have "(x * 4096 + y * 64 + z) div 4096 = x" "(x * 4096 + y * 64 + z) div 64 = x * 64 + y"
      "(x * 4096 + y * 64 + z) mod 64 = z"
      using div_mod_low [of "y * 64 + z" 4096 x] div_mod_low [of z 64 "x * 64 + y"] xy
      by (simp_all add: algebra_simps)
    then have c': "utf8_char (x * 4096 + y * 64 + z) = [byte ?b, byte ?b1, byte ?b2]"
      using xy by (auto simp: utf8_char_def)
    have "x < 13 \<or> x = 13 \<or> 13 < x" by linarith
    then have "is_uchar (x * 4096 + y * 64 + z)" using xy unfolding is_uchar_def by linarith
    moreover have "s = [byte ?b, byte ?b1, byte ?b2] @ drop 3 s" by (rule head(2)) (use xy in simp_all)
    ultimately show ?thesis unfolding v c' c(5) ..
  next
    case d
    define x y z w where "x = ?b - 0xF0" and "y = ?b1 - 0x80" and "z = ?b2 - 0x80" and "w = ?b3 - 0x80"
    have xy: "?b = 0xF0 + x" "?b1 = 0x80 + y" "?b2 = 0x80 + z" "?b3 = 0x80 + w"
      "x \<le> 4" "y < 64" "z < 64" "w < 64" "x = 0 \<longrightarrow> 16 \<le> y" "x = 4 \<longrightarrow> y < 16"
      using d by (auto simp: x_def y_def z_def w_def utf8_second_def cont_def)
    let ?v = "x * 262144 + y * 4096 + z * 64 + w"
    have v: "utf8_value s = ?v" using xy by (simp add: utf8_value_def)
    have "?v div 262144 = x" "?v div 4096 mod 64 = y" "?v div 64 mod 64 = z"
      "?v mod 64 = w"
      using div_mod_low [of "y * 4096 + z * 64 + w" 262144 x] div_mod_low [of "z * 64 + w" 4096 "x * 64 + y"]
        div_mod_low [of w 64 "x * 4096 + y * 64 + z"] div_mod_low [of y 64 x]
        div_mod_low [of z 64 "x * 64 + y"] xy
      by (simp_all add: algebra_simps)
    moreover have "0x10000 \<le> ?v" using xy by linarith
    ultimately have c': "utf8_char ?v = [byte ?b, byte ?b1, byte ?b2, byte ?b3]"
      unfolding xy(1-4) by (simp add: utf8_char_def)
    have "is_uchar ?v" using xy unfolding is_uchar_def by linarith
    moreover have "s = [byte ?b, byte ?b1, byte ?b2, byte ?b3] @ drop 4 s" by (rule head(3)) (use xy in simp_all)
    ultimately show ?thesis unfolding v c' d(6) ..
  qed
qed

lemma of_chars_chars:
  "utf8_valid s \<Longrightarrow> of_chars (chars s) = s \<and> list_all is_uchar (chars s)"
proof (induction s rule: utf8_decode.induct)
  case (1 s)
  show ?case
  proof (cases "s = []")
    case False
    obtain ok n where n: "utf8_step s = (ok, n)" by force
    have d: "utf8_decode s = (ok, if ok then utf8_value s else 0xFFFD) # utf8_decode (drop n s)"
      using False n by (subst utf8_decode.simps) simp
    have ok: "ok" and v: "utf8_valid (drop n s)" using "1.prems" by (auto simp: utf8_valid_def d)
    from "1.IH" [OF False n [symmetric] refl v] utf8_step_True n False ok show ?thesis
      by (auto simp: chars_def d of_chars_def)
  qed (simp add: chars_def of_chars_def)
qed

section \<open>Case, whitespace, search\<close>

definition is_ascii :: "string \<Rightarrow> bool" where
  "is_ascii s \<longleftrightarrow> list_all (\<lambda>c. (of_char c :: nat) < 128) s"

lemma utf8_decode_ascii: "is_ascii s \<Longrightarrow> utf8_decode s = map (\<lambda>c. (True, of_char c)) s"
proof (induction s)
  case (Cons c s)
  then show ?case
    by (subst utf8_decode.simps) (simp add: utf8_step_def utf8_value_def is_ascii_def)
qed simp

lemma ascii_chars: "is_ascii s \<Longrightarrow> chars s = map of_char s"
  and ascii_valid: "is_ascii s \<Longrightarrow> utf8_valid s"
  and ascii_of_chars: "is_ascii s \<Longrightarrow> of_chars (map of_char s) = s"
proof -
  assume a: "is_ascii s"
  show "chars s = map of_char s" "utf8_valid s"
    by (simp_all add: chars_def utf8_valid_def utf8_decode_ascii [OF a] comp_def list_all_iff)
  show "of_chars (map of_char s) = s"
    using a by (induction s) (auto simp: of_chars_def utf8_char_def byte_def is_ascii_def)
qed

definition ascii_upper :: "char \<Rightarrow> char" where
  "ascii_upper c = (if CHR ''a'' \<le> c \<and> c \<le> CHR ''z'' then byte (of_char c - 32) else c)"

definition ascii_lower :: "char \<Rightarrow> char" where
  "ascii_lower c = (if CHR ''A'' \<le> c \<and> c \<le> CHR ''Z'' then byte (of_char c + 32) else c)"

definition to_ascii_uppercase :: "string \<Rightarrow> string" where
  "to_ascii_uppercase s = map ascii_upper s"

definition to_ascii_lowercase :: "string \<Rightarrow> string" where
  "to_ascii_lowercase s = map ascii_lower s"

definition eq_ignore_ascii_case :: "string \<Rightarrow> string \<Rightarrow> bool" where
  "eq_ignore_ascii_case s t \<longleftrightarrow> to_ascii_lowercase s = to_ascii_lowercase t"

definition is_digit :: "char \<Rightarrow> bool" where
  "is_digit c \<longleftrightarrow> CHR ''0'' \<le> c \<and> c \<le> CHR ''9''"

text \<open>The Unicode property \<open>White_Space\<close>.\<close>

definition is_space :: "uchar \<Rightarrow> bool" where
  "is_space c \<longleftrightarrow> 9 \<le> c \<and> c \<le> 13 \<or> c = 32 \<or> c = 0x85 \<or> c = 0xA0 \<or> c = 0x1680
     \<or> 0x2000 \<le> c \<and> c \<le> 0x200A \<or> c = 0x2028 \<or> c = 0x2029 \<or> c = 0x202F \<or> c = 0x205F \<or> c = 0x3000"

definition trim_start_matches :: "(uchar \<Rightarrow> bool) \<Rightarrow> string \<Rightarrow> string" where
  "trim_start_matches f s = of_chars (dropWhile f (chars s))"

definition trim_end_matches :: "(uchar \<Rightarrow> bool) \<Rightarrow> string \<Rightarrow> string" where
  "trim_end_matches f s = of_chars (rev (dropWhile f (rev (chars s))))"

definition trim_start :: "string \<Rightarrow> string" where
  "trim_start s = trim_start_matches is_space s"

definition trim :: "string \<Rightarrow> string" where
  "trim s = trim_end_matches is_space (trim_start s)"

definition strip_prefix :: "string \<Rightarrow> string \<Rightarrow> string option" where
  "strip_prefix p s = (if prefix p s then Some (drop (length p) s) else None)"

text \<open>The byte index of the first occurrence.\<close>

fun str_find :: "string \<Rightarrow> string \<Rightarrow> nat option" where
  "str_find [] needle = (if needle = [] then Some 0 else None)"
| "str_find (c # s) needle =
     (if prefix needle (c # s) then Some 0 else map_option Suc (str_find s needle))"

definition str_contains :: "string \<Rightarrow> string \<Rightarrow> bool" where
  "str_contains s needle \<longleftrightarrow> str_find s needle \<noteq> None"

text \<open>\<open>replace\<close> with a nonempty pattern: occurrences from left to right, not overlapping.\<close>

function str_replace :: "string \<Rightarrow> string \<Rightarrow> string \<Rightarrow> string" where
  "str_replace [] f t = []"
| "str_replace (c # s) f t =
     (if f \<noteq> [] \<and> prefix f (c # s) then t @ str_replace (drop (length f) (c # s)) f t
      else c # str_replace s f t)"
  by pat_completeness auto
termination by (relation "measure (\<lambda>(s, f, t). length s)") auto

lemma str_find_bound: "str_find s n = Some i \<Longrightarrow> prefix n (drop i s)"
  by (induction s n arbitrary: i rule: str_find.induct) (auto split: if_splits)

section \<open>Decimal numbers\<close>

definition digit_char :: "int \<Rightarrow> char" where
  "digit_char d = byte (48 + nat d)"

definition digit_val :: "char \<Rightarrow> int" where
  "digit_val c = int (of_char c) - 48"

function show_nat :: "int \<Rightarrow> string" where
  "show_nat n = (if n < 10 then [digit_char n] else show_nat (n div 10) @ [digit_char (n mod 10)])"
  by pat_completeness auto
termination by (relation "measure nat") auto

declare show_nat.simps [simp del]

text \<open>\<open>to_string\<close> of an integer.\<close>

definition show_int :: "int \<Rightarrow> string" where
  "show_int k = (if k < 0 then ''-'' @ show_nat (- k) else show_nat k)"

definition show_i64 :: "i64 \<Rightarrow> string" where
  "show_i64 i = show_int (int_of_i64 i)"

definition digits_val :: "string \<Rightarrow> int" where
  "digits_val s = foldl (\<lambda>n c. n * 10 + digit_val c) 0 s"

text \<open>\<open>parse::<i64>()\<close>: an optional sign, at least one digit, and no overflow.\<close>

definition split_sign :: "string \<Rightarrow> bool \<times> string" where
  "split_sign s =
     (case s of [] \<Rightarrow> (False, [])
      | c # t \<Rightarrow> if c = CHR ''-'' then (True, t) else if c = CHR ''+'' then (False, t) else (False, s))"

definition parse_int :: "string \<Rightarrow> int option" where
  "parse_int s =
     (let (neg, ds) = split_sign s in
      if ds = [] \<or> \<not> list_all is_digit ds then None
      else Some (if neg then - digits_val ds else digits_val ds))"

definition parse_i64 :: "string \<Rightarrow> i64 option" where
  "parse_i64 s =
     (case parse_int s of
        Some k \<Rightarrow> if i64_min \<le> k \<and> k \<le> i64_max then Some (i64_of_int k) else None
      | None \<Rightarrow> None)"

lemma digit_char_props:
  assumes "0 \<le> d" and "d < 10"
  shows "digit_val (digit_char d) = d" "is_digit (digit_char d)"
    "digit_char d \<noteq> CHR ''-''" "digit_char d \<noteq> CHR ''+''"
proof -
  have b: "(of_char (digit_char d) :: nat) = 48 + nat d" using assms by (simp add: digit_char_def)
  then show "digit_val (digit_char d) = d" using assms by (simp add: digit_val_def)
  show "is_digit (digit_char d)" using assms b by (simp add: is_digit_def less_eq_char_def)
  show "digit_char d \<noteq> CHR ''-''" "digit_char d \<noteq> CHR ''+''" using b by auto
qed

lemma show_nat_digits:
  "0 \<le> n \<Longrightarrow> list_all is_digit (show_nat n) \<and> show_nat n \<noteq> [] \<and> digits_val (show_nat n) = n
     \<and> hd (show_nat n) \<noteq> CHR ''-'' \<and> hd (show_nat n) \<noteq> CHR ''+''"
proof (induction n rule: show_nat.induct)
  case (1 n)
  then show ?case
    by (subst (1 2 3 4 5) show_nat.simps) (auto simp: digits_val_def digit_char_props)
qed

lemma parse_show_int: "parse_int (show_int k) = Some k"
proof -
  have "0 \<le> n \<Longrightarrow> split_sign (show_nat n) = (False, show_nat n)" for n
    using show_nat_digits [of n] by (cases "show_nat n") (auto simp: split_sign_def)
  moreover have "split_sign (CHR ''-'' # t) = (True, t)" for t by (simp add: split_sign_def)
  ultimately show ?thesis using show_nat_digits by (auto simp: parse_int_def show_int_def)
qed

lemma parse_show_i64 [simp]: "parse_i64 (show_i64 i) = Some i"
  using int_of_i64_bounds [of i] by (simp add: parse_i64_def show_i64_def parse_show_int)

end
