(* ===== verification/F64.thy ===== *)
theory F64
  imports RustString Complex_Main
begin

text \<open>
  The IEEE 754 binary64 numbers of the SQL layer (Rust \<open>f64\<close>), as bit patterns with
  their arithmetic computed exactly on integers and rounded once, to the nearest even:
  conversions from and to integers (the saturating \<open>as\<close> casts), the four operations and
  the remainder, the rounding functions, the partial order, the correctly rounded decimal
  parser and the printers of \<open>format!\<close>. The functions of the C mathematical library are
  not here. A NaN result is the quiet NaN.
\<close>

section \<open>Bit patterns\<close>

datatype f64 = F64 (f64_bits: u64)

definition f64_neg_sign :: "f64 \<Rightarrow> bool" where
  "f64_neg_sign x \<longleftrightarrow> 2 ^ 63 \<le> uint (f64_bits x)"

text \<open>Exponent and fraction read as one number.\<close>

definition f64_mag :: "f64 \<Rightarrow> int" where
  "f64_mag x = uint (f64_bits x) mod 2 ^ 63"

definition MAG_INF :: int where "MAG_INF = 0x7FF0000000000000"

definition f64_is_nan :: "f64 \<Rightarrow> bool" where
  "f64_is_nan x \<longleftrightarrow> MAG_INF < f64_mag x"

definition f64_is_inf :: "f64 \<Rightarrow> bool" where
  "f64_is_inf x \<longleftrightarrow> f64_mag x = MAG_INF"

definition f64_is_finite :: "f64 \<Rightarrow> bool" where
  "f64_is_finite x \<longleftrightarrow> f64_mag x < MAG_INF"

definition f64_mant :: "f64 \<Rightarrow> int" where
  "f64_mant x = (if f64_mag x < 2 ^ 52 then f64_mag x else f64_mag x mod 2 ^ 52 + 2 ^ 52)"

definition f64_scale :: "f64 \<Rightarrow> int" where
  "f64_scale x = max (f64_mag x div 2 ^ 52) 1 - 1075"

definition f64_make :: "bool \<Rightarrow> int \<Rightarrow> f64" where
  "f64_make neg mag = F64 (word_of_int ((if neg then 2 ^ 63 else 0) + mag))"

definition f64_nan :: f64 where "f64_nan = F64 0x7FF8000000000000"

definition f64_inf :: "bool \<Rightarrow> f64" where "f64_inf neg = f64_make neg MAG_INF"

definition f64_zero :: "bool \<Rightarrow> f64" where "f64_zero neg = f64_make neg 0"

text \<open>The mantissa \<open>q\<close> at exponent \<open>e\<close>; a carry out of the mantissa moves the exponent.\<close>

definition f64_pack :: "bool \<Rightarrow> int \<Rightarrow> int \<Rightarrow> f64" where
  "f64_pack neg q e = f64_make neg (min (q + (e + 1074) * 2 ^ 52) MAG_INF)"

section \<open>Rounding\<close>

function bit_length :: "int \<Rightarrow> int" where
  "bit_length n = (if n \<le> 0 then 0 else bit_length (n div 2) + 1)"
  by pat_completeness auto
termination by (relation "measure nat") auto

declare bit_length.simps [simp del]

definition round_half_even :: "int \<Rightarrow> int \<Rightarrow> int" where
  "round_half_even n d =
     (let q = n div d; r = n mod d in if d < 2 * r \<or> 2 * r = d \<and> odd q then q + 1 else q)"

text \<open>\<open>d * 2 ^ k \<le> n\<close> for an integer \<open>k\<close>.\<close>

definition ratio_ge_pow :: "int \<Rightarrow> int \<Rightarrow> int \<Rightarrow> bool" where
  "ratio_ge_pow n d k \<longleftrightarrow> (if 0 \<le> k then d * 2 ^ nat k \<le> n else d \<le> n * 2 ^ nat (- k))"

definition log2_ratio :: "int \<Rightarrow> int \<Rightarrow> int" where
  "log2_ratio n d =
     (let k = bit_length n - bit_length d in if ratio_ge_pow n d k then k else k - 1)"

definition f64_of_ratio :: "bool \<Rightarrow> int \<Rightarrow> int \<Rightarrow> f64" where
  "f64_of_ratio neg n d =
     (if n = 0 then f64_zero neg
      else
        let e = max (log2_ratio n d - 52) (- 1074);
            q = (if 0 \<le> e then round_half_even n (d * 2 ^ nat e)
                 else round_half_even (n * 2 ^ nat (- e)) d)
        in f64_pack neg q e)"

definition f64_of_dyadic :: "bool \<Rightarrow> int \<Rightarrow> int \<Rightarrow> f64" where
  "f64_of_dyadic neg m e =
     (if 0 \<le> e then f64_of_ratio neg (m * 2 ^ nat e) 1 else f64_of_ratio neg m (2 ^ nat (- e)))"

definition f64_of_int :: "int \<Rightarrow> f64" where
  "f64_of_int k = f64_of_ratio (k < 0) \<bar>k\<bar> 1"

text \<open>\<open>i as f64\<close>.\<close>

definition f64_of_i64 :: "i64 \<Rightarrow> f64" where
  "f64_of_i64 i = f64_of_int (int_of_i64 i)"

text \<open>The decimal literal \<open>n / 10 ^ k\<close>.\<close>

definition f64_dec :: "int \<Rightarrow> nat \<Rightarrow> f64" where
  "f64_dec n k = f64_of_ratio False n (10 ^ k)"

section \<open>Order\<close>

datatype ordering = Less | Equal | Greater

fun ord_reverse :: "ordering \<Rightarrow> ordering" where
  "ord_reverse Less = Greater"
| "ord_reverse Equal = Equal"
| "ord_reverse Greater = Less"

definition ord_of :: "'a::linorder \<Rightarrow> 'a \<Rightarrow> ordering" where
  "ord_of a b = (if a < b then Less else if a = b then Equal else Greater)"

lemma ord_of_simps [simp]:
  "ord_of a a = Equal" "ord_of a b = Equal \<longleftrightarrow> a = b" "ord_of a b = Less \<longleftrightarrow> a < b"
  "ord_of a b = Greater \<longleftrightarrow> b < a" "ord_reverse (ord_of a b) = ord_of b a"
  by (auto simp: ord_of_def)

text \<open>Numbers are ordered as their signed magnitudes; the two zeros are equal.\<close>

definition f64_key :: "f64 \<Rightarrow> int" where
  "f64_key x = (if f64_neg_sign x then - f64_mag x else f64_mag x)"

definition f64_partial_cmp :: "f64 \<Rightarrow> f64 \<Rightarrow> ordering option" where
  "f64_partial_cmp x y =
     (if f64_is_nan x \<or> f64_is_nan y then None else Some (ord_of (f64_key x) (f64_key y)))"

definition f64_eq :: "f64 \<Rightarrow> f64 \<Rightarrow> bool" where
  "f64_eq x y \<longleftrightarrow> f64_partial_cmp x y = Some Equal"

definition f64_lt :: "f64 \<Rightarrow> f64 \<Rightarrow> bool" where
  "f64_lt x y \<longleftrightarrow> f64_partial_cmp x y = Some Less"

definition f64_le :: "f64 \<Rightarrow> f64 \<Rightarrow> bool" where
  "f64_le x y \<longleftrightarrow> f64_lt x y \<or> f64_eq x y"

definition f64_is_zero :: "f64 \<Rightarrow> bool" where
  "f64_is_zero x \<longleftrightarrow> f64_mag x = 0"

section \<open>Arithmetic\<close>

definition f64_neg :: "f64 \<Rightarrow> f64" where
  "f64_neg x = f64_make (\<not> f64_neg_sign x) (f64_mag x)"

definition f64_abs :: "f64 \<Rightarrow> f64" where
  "f64_abs x = f64_make False (f64_mag x)"

definition f64_smant :: "f64 \<Rightarrow> int" where
  "f64_smant x = (if f64_neg_sign x then - f64_mant x else f64_mant x)"

definition f64_add :: "f64 \<Rightarrow> f64 \<Rightarrow> f64" where
  "f64_add x y =
     (if f64_is_nan x \<or> f64_is_nan y then f64_nan
      else if f64_is_inf x then (if f64_is_inf y \<and> f64_neg_sign x \<noteq> f64_neg_sign y then f64_nan else x)
      else if f64_is_inf y then y
      else
        let e = min (f64_scale x) (f64_scale y);
            m = f64_smant x * 2 ^ nat (f64_scale x - e) + f64_smant y * 2 ^ nat (f64_scale y - e)
        in if m = 0 then f64_zero (f64_neg_sign x \<and> f64_neg_sign y)
           else f64_of_dyadic (m < 0) \<bar>m\<bar> e)"

definition f64_sub :: "f64 \<Rightarrow> f64 \<Rightarrow> f64" where
  "f64_sub x y = (if f64_is_nan y then f64_nan else f64_add x (f64_neg y))"

definition f64_mul :: "f64 \<Rightarrow> f64 \<Rightarrow> f64" where
  "f64_mul x y =
     (let neg = (f64_neg_sign x \<noteq> f64_neg_sign y) in
      if f64_is_nan x \<or> f64_is_nan y then f64_nan
      else if f64_is_inf x \<or> f64_is_inf y then
        (if f64_is_zero x \<or> f64_is_zero y then f64_nan else f64_inf neg)
      else f64_of_dyadic neg (f64_mant x * f64_mant y) (f64_scale x + f64_scale y))"

definition f64_div :: "f64 \<Rightarrow> f64 \<Rightarrow> f64" where
  "f64_div x y =
     (let neg = (f64_neg_sign x \<noteq> f64_neg_sign y) in
      if f64_is_nan x \<or> f64_is_nan y then f64_nan
      else if f64_is_inf x then (if f64_is_inf y then f64_nan else f64_inf neg)
      else if f64_is_inf y then f64_zero neg
      else if f64_is_zero y then (if f64_is_zero x then f64_nan else f64_inf neg)
      else
        let e = f64_scale x - f64_scale y in
        if 0 \<le> e then f64_of_ratio neg (f64_mant x * 2 ^ nat e) (f64_mant y)
        else f64_of_ratio neg (f64_mant x) (f64_mant y * 2 ^ nat (- e)))"

text \<open>The exact remainder, with the sign of the dividend.\<close>

definition f64_rem :: "f64 \<Rightarrow> f64 \<Rightarrow> f64" where
  "f64_rem x y =
     (if f64_is_nan x \<or> f64_is_nan y \<or> f64_is_inf x \<or> f64_is_zero y then f64_nan
      else if f64_is_inf y then x
      else
        let e = min (f64_scale x) (f64_scale y);
            m = f64_mant x * 2 ^ nat (f64_scale x - e) mod (f64_mant y * 2 ^ nat (f64_scale y - e))
        in f64_of_dyadic (f64_neg_sign x) m e)"

section \<open>Integer parts and casts\<close>

text \<open>The magnitude of a finite number, rounded down, and whether a fraction remains.\<close>

definition f64_floor_mag :: "f64 \<Rightarrow> int" where
  "f64_floor_mag x =
     (let e = f64_scale x in
      if 0 \<le> e then f64_mant x * 2 ^ nat e else f64_mant x div 2 ^ nat (- e))"

definition f64_has_fract :: "f64 \<Rightarrow> bool" where
  "f64_has_fract x \<longleftrightarrow> f64_scale x < 0 \<and> f64_mant x mod 2 ^ nat (- f64_scale x) \<noteq> 0"

text \<open>At least one half remains.\<close>

definition f64_half_up :: "f64 \<Rightarrow> bool" where
  "f64_half_up x \<longleftrightarrow>
     (let e = f64_scale x in
      e < 0 \<and> 2 ^ nat (- e) \<le> 2 * (f64_mant x mod 2 ^ nat (- e)))"

definition f64_with_mag :: "(f64 \<Rightarrow> int) \<Rightarrow> f64 \<Rightarrow> f64" where
  "f64_with_mag g x = (if f64_is_finite x then f64_of_ratio (f64_neg_sign x) (g x) 1 else x)"

definition f64_trunc :: "f64 \<Rightarrow> f64" where
  "f64_trunc = f64_with_mag f64_floor_mag"

definition f64_floor :: "f64 \<Rightarrow> f64" where
  "f64_floor = f64_with_mag (\<lambda>x. f64_floor_mag x + of_bool (f64_neg_sign x \<and> f64_has_fract x))"

definition f64_ceil :: "f64 \<Rightarrow> f64" where
  "f64_ceil = f64_with_mag (\<lambda>x. f64_floor_mag x + of_bool (\<not> f64_neg_sign x \<and> f64_has_fract x))"

text \<open>\<open>round\<close>: half away from zero.\<close>

definition f64_round :: "f64 \<Rightarrow> f64" where
  "f64_round = f64_with_mag (\<lambda>x. f64_floor_mag x + of_bool (f64_half_up x))"

definition f64_fract :: "f64 \<Rightarrow> f64" where
  "f64_fract x = f64_sub x (f64_trunc x)"

text \<open>\<open>x as T\<close> for an integer type with bounds \<open>lo\<close> and \<open>hi\<close> saturates; NaN gives 0.\<close>

definition f64_to_int :: "int \<Rightarrow> int \<Rightarrow> f64 \<Rightarrow> int" where
  "f64_to_int lo hi x =
     (if f64_is_nan x then 0
      else if f64_is_inf x then (if f64_neg_sign x then lo else hi)
      else
        let m = f64_floor_mag x; k = (if f64_neg_sign x then - m else m)
        in max lo (min hi k))"

definition f64_to_i64 :: "f64 \<Rightarrow> i64" where
  "f64_to_i64 x = i64_of_int (f64_to_int i64_min i64_max x)"

section \<open>Square root\<close>

function isqrt :: "int \<Rightarrow> int" where
  "isqrt n =
     (if n \<le> 0 then 0
      else let r = 2 * isqrt (n div 4) in if (r + 1) * (r + 1) \<le> n then r + 1 else r)"
  by pat_completeness auto
termination by (relation "measure nat") auto

declare isqrt.simps [simp del]

text \<open>
  The mantissa is scaled by an even power of two until its root has at least 55 bits; a
  last bit then records whether the root is exact, and one rounding gives the result.
\<close>

definition f64_sqrt :: "f64 \<Rightarrow> f64" where
  "f64_sqrt x =
     (if f64_is_nan x then f64_nan
      else if f64_is_zero x then x
      else if f64_neg_sign x then f64_nan
      else if f64_is_inf x then x
      else
        let e = f64_scale x;
            s = (if even e then 112 else 113);
            m = f64_mant x * 2 ^ s;
            r = isqrt m
        in f64_of_dyadic False (2 * r + of_bool (r * r \<noteq> m)) ((e - int s) div 2 - 1))"

section \<open>Decimal input\<close>

definition f64_of_decimal :: "bool \<Rightarrow> int \<Rightarrow> int \<Rightarrow> f64" where
  "f64_of_decimal neg m e =
     (if 0 \<le> e then f64_of_ratio neg (m * 10 ^ nat e) 1 else f64_of_ratio neg m (10 ^ nat (- e)))"

text \<open>\<open>digits [. digits] [e [sign] digits]\<close>, at least one digit in the mantissa.\<close>

definition parse_exponent :: "string \<Rightarrow> int option" where
  "parse_exponent s =
     (case s of
        [] \<Rightarrow> Some 0
      | c # t \<Rightarrow> if c = CHR ''e'' \<or> c = CHR ''E'' then parse_int t else None)"

definition parse_decimal :: "string \<Rightarrow> (int \<times> int) option" where
  "parse_decimal s =
     (let ip = takeWhile is_digit s; s = dropWhile is_digit s;
          (fp, s) = (case s of
             c # t \<Rightarrow> if c = CHR ''.'' then (takeWhile is_digit t, dropWhile is_digit t) else ([], s)
           | [] \<Rightarrow> ([], s))
      in if ip = [] \<and> fp = [] then None
         else map_option (\<lambda>e. (digits_val (ip @ fp), e - int (length fp))) (parse_exponent s))"

definition parse_f64 :: "string \<Rightarrow> f64 option" where
  "parse_f64 s =
     (let (neg, s) = split_sign s; low = to_ascii_lowercase s in
      if low = ''inf'' \<or> low = ''infinity'' then Some (f64_inf neg)
      else if low = ''nan'' then Some (if neg then f64_neg f64_nan else f64_nan)
      else map_option (\<lambda>(m, e). f64_of_decimal neg m e) (parse_decimal s))"

section \<open>Decimal output\<close>

text \<open>A finite magnitude as a ratio.\<close>

definition f64_ratio :: "f64 \<Rightarrow> int \<times> int" where
  "f64_ratio x =
     (let e = f64_scale x in
      if 0 \<le> e then (f64_mant x * 2 ^ nat e, 1) else (f64_mant x, 2 ^ nat (- e)))"

text \<open>The decimal exponent of the leading digit of \<open>n / d\<close>.\<close>

function dec_exp_neg :: "int \<Rightarrow> int \<Rightarrow> nat" where
  "dec_exp_neg n d = (if n \<le> 0 \<or> d \<le> n then 0 else Suc (dec_exp_neg (10 * n) d))"
  by pat_completeness auto
termination by (relation "measure (\<lambda>(n, d). nat (d - n))") auto

declare dec_exp_neg.simps [simp del]

definition dec_exp :: "int \<Rightarrow> int \<Rightarrow> int" where
  "dec_exp n d =
     (if d \<le> n then int (length (show_nat (n div d))) - 1 else - int (dec_exp_neg n d))"

text \<open>\<open>n / d / 10 ^ k\<close> as a ratio.\<close>

definition ratio_scale10 :: "int \<Rightarrow> int \<Rightarrow> int \<Rightarrow> int \<times> int" where
  "ratio_scale10 n d k = (if 0 \<le> k then (n, d * 10 ^ nat k) else (n * 10 ^ nat (- k), d))"

text \<open>
  The shortest digits that read back as \<open>x\<close>, the nearest to it among them: with \<open>k\<close>
  digits only the two neighbours of \<open>x\<close> can do.
\<close>

definition shortest_with :: "f64 \<Rightarrow> int \<Rightarrow> int \<Rightarrow> int \<Rightarrow> nat \<Rightarrow> int option" where
  "shortest_with x n d e10 k =
     (let s = e10 - int k + 1; (a, b) = ratio_scale10 n d s; c = a div b;
          down = (f64_of_decimal False c s = x); up = (f64_of_decimal False (c + 1) s = x)
      in if up \<and> (\<not> down \<or> b \<le> 2 * (a mod b)) then Some (c + 1)
         else if down then Some c else None)"

fun shortest_search :: "f64 \<Rightarrow> int \<Rightarrow> int \<Rightarrow> int \<Rightarrow> nat \<Rightarrow> nat \<Rightarrow> string \<times> int" where
  "shortest_search x n d e10 0 k = ([], 0)"
| "shortest_search x n d e10 (Suc fuel) k =
     (case shortest_with x n d e10 k of
        Some c \<Rightarrow> let s = show_nat c in (s, e10 + int (length s) - int k)
      | None \<Rightarrow> shortest_search x n d e10 fuel (k + 1))"

definition strip_zeros :: "string \<Rightarrow> string" where
  "strip_zeros s = rev (dropWhile (\<lambda>c. c = CHR ''0'') (rev s))"

text \<open>Digits and exponent of \<open>{:e}\<close> for a positive finite number: 17 digits always suffice.\<close>

definition f64_shortest :: "f64 \<Rightarrow> string \<times> int" where
  "f64_shortest x =
     (let (n, d) = f64_ratio x; (ds, e) = shortest_search x n d (dec_exp n d) 17 1
      in (strip_zeros ds, e))"

text \<open>\<open>{:.p}\<close> of a nonnegative finite number.\<close>

definition fmt_fixed :: "nat \<Rightarrow> f64 \<Rightarrow> string" where
  "fmt_fixed p x =
     (let (n, d) = f64_ratio x; q = round_half_even (n * 10 ^ p) d; s = show_nat q;
          s = replicate (p + 1 - length s) CHR ''0'' @ s; k = length s - p
      in if p = 0 then s else take k s @ ''.'' @ drop k s)"

text \<open>\<open>{:.pe}\<close> of a nonnegative finite number: mantissa and exponent.\<close>

definition fmt_exp_parts :: "nat \<Rightarrow> f64 \<Rightarrow> string \<times> int" where
  "fmt_exp_parts p x =
     (let (n, d) = f64_ratio x in
      if n = 0 then (if p = 0 then ''0'' else ''0.'' @ replicate p CHR ''0'', 0)
      else
        let e = dec_exp n d; (a, b) = ratio_scale10 n d (e - int p); q = round_half_even a b;
            (q, e) = (if 10 ^ (p + 1) \<le> q then (q div 10, e + 1) else (q, e)); s = show_nat q
        in (if p = 0 then s else take 1 s @ ''.'' @ drop 1 s, e))"

text \<open>\<open>{}\<close>: shortest digits, never an exponent.\<close>

definition f64_display :: "f64 \<Rightarrow> string" where
  "f64_display x =
     (if f64_is_nan x then ''NaN''
      else (if f64_neg_sign x then ''-'' else []) @
        (if f64_is_inf x then ''inf''
         else if f64_is_zero x then ''0''
         else
           let (ds, e) = f64_shortest (f64_abs x) in
           if e < 0 then ''0.'' @ replicate (nat (- e) - 1) CHR ''0'' @ ds
           else if length ds \<le> nat e + 1 then ds @ replicate (nat e + 1 - length ds) CHR ''0''
           else take (nat e + 1) ds @ ''.'' @ drop (nat e + 1) ds))"

end
