(* ===== verification/F64Facts.thy ===== *)
theory F64Facts
  imports F64
begin

text \<open>
  What the floating-point model computes: a rounded ratio is the nearest pattern and keeps
  every value that has one, rounding is monotone, the order of the patterns is the order
  of the values, integers up to \<open>2 ^ 53\<close> convert exactly both ways, and sums, differences
  and products whose value has a pattern are exact.
\<close>


section \<open>Values\<close>

text \<open>The exact value of a finite number.\<close>

definition f64_val :: "f64 \<Rightarrow> real" where
  "f64_val x = of_int (f64_smant x) * 2 powi f64_scale x"

lemma f64_make_fields:
  assumes "0 \<le> mag" and "mag < 2 ^ 63"
  shows "f64_neg_sign (f64_make neg mag) = neg" "f64_mag (f64_make neg mag) = mag"
proof -
  let ?v = "(if neg then 2 ^ 63 else 0) + mag"
  have "?v mod 2 ^ 64 = ?v" using assms by (intro mod_pos_pos_trivial) auto
  then have "uint (word_of_int ?v :: u64) = ?v" by (simp only: uint_word_of_int) simp
  then show "f64_neg_sign (f64_make neg mag) = neg" "f64_mag (f64_make neg mag) = mag"
    using assms by (auto simp: f64_neg_sign_def f64_mag_def f64_make_def)
qed

lemma f64_mag_bounds: "0 \<le> f64_mag x" "f64_mag x < 2 ^ 63"
  by (simp_all add: f64_mag_def)

lemma MAG_INF_eq: "MAG_INF = 2047 * 2 ^ 52"
  by (simp add: MAG_INF_def)

text \<open>A mantissa at an exponent: its fields when it does not overflow.\<close>

definition pack_ok :: "int \<Rightarrow> int \<Rightarrow> bool" where
  "pack_ok q e \<longleftrightarrow> - 1074 \<le> e \<and> 0 \<le> q \<and> q \<le> 2 ^ 53 \<and> (e = - 1074 \<or> 2 ^ 52 \<le> q)"

lemma f64_pack_mag:
  assumes "pack_ok q e"
  shows "f64_mag (f64_pack neg q e) = min (q + (e + 1074) * 2 ^ 52) MAG_INF"
    "f64_neg_sign (f64_pack neg q e) = neg"
proof -
  have "0 \<le> min (q + (e + 1074) * 2 ^ 52) MAG_INF" "min (q + (e + 1074) * 2 ^ 52) MAG_INF < 2 ^ 63"
    using assms by (auto simp: pack_ok_def MAG_INF_def)
  from f64_make_fields [OF this] show "f64_mag (f64_pack neg q e) = min (q + (e + 1074) * 2 ^ 52) MAG_INF"
    "f64_neg_sign (f64_pack neg q e) = neg" by (simp_all add: f64_pack_def)
qed

lemma div_mod_shift: "0 \<le> w \<Longrightarrow> w < m \<Longrightarrow> (w + k * m) div m = k \<and> (w + k * m) mod m = (w :: int)"
  by simp

lemma f64_pack_val:
  assumes ok: "pack_ok q e" and fin: "q + (e + 1074) * 2 ^ 52 < MAG_INF"
  shows "f64_is_finite (f64_pack neg q e)"
    and "f64_val (f64_pack neg q e) = (if neg then - 1 else 1) * of_int q * 2 powi e"
proof -
  let ?x = "f64_pack neg q e"
  have mag: "f64_mag ?x = q + (e + 1074) * 2 ^ 52" and sg: "f64_neg_sign ?x = neg"
    using f64_pack_mag [OF ok] fin by simp_all
  show "f64_is_finite ?x" using mag fin by (simp add: f64_is_finite_def)
  consider (sub) "q < 2 ^ 52" "e = - 1074" | (norm) "2 ^ 52 \<le> q" "q < 2 ^ 53" | (carry) "q = 2 ^ 53"
    using ok by (fastforce simp: pack_ok_def)
  then have "of_int (f64_mant ?x) * (2 :: real) powi f64_scale ?x = of_int q * 2 powi e"
  proof cases
    case sub
    then show ?thesis using ok mag by (simp add: f64_mant_def f64_scale_def pack_ok_def)
  next
    case norm
    then have "f64_mag ?x = (q - 2 ^ 52) + (e + 1075) * 2 ^ 52" using mag by simp
    moreover from this have "2 ^ 52 \<le> f64_mag ?x" using norm ok by (simp add: pack_ok_def)
    ultimately have "f64_mag ?x div 2 ^ 52 = e + 1075" "f64_mag ?x mod 2 ^ 52 = q - 2 ^ 52"
      "2 ^ 52 \<le> f64_mag ?x"
      using div_mod_shift [of "q - 2 ^ 52" "2 ^ 52" "e + 1075"] norm by simp_all
    then have "f64_mant ?x = q" "f64_scale ?x = e"
      using ok by (simp_all add: f64_mant_def f64_scale_def pack_ok_def)
    then show ?thesis by simp
  next
    case carry
    then have "f64_mag ?x = (e + 1076) * 2 ^ 52" using mag by simp
    then have "f64_mag ?x div 2 ^ 52 = e + 1076" "f64_mag ?x mod 2 ^ 52 = 0" "2 ^ 52 \<le> f64_mag ?x"
      using ok by (auto simp: pack_ok_def)
    then have "f64_mant ?x = 2 ^ 52" "f64_scale ?x = e + 1"
      using ok by (simp_all add: f64_mant_def f64_scale_def pack_ok_def)
    then show ?thesis using carry by (simp add: power_int_add)
  qed
  then show "f64_val ?x = (if neg then - 1 else 1) * of_int q * 2 powi e"
    using sg by (cases neg) (simp_all add: f64_val_def f64_smant_def)
qed

section \<open>Rounding\<close>

lemma bit_length_bounds:
  "0 < n \<Longrightarrow> (2 :: real) powi (bit_length n - 1) \<le> of_int n \<and> of_int n < (2 :: real) powi bit_length n
     \<and> 0 < bit_length n"
proof (induction n rule: bit_length.induct)
  case (1 n)
  show ?case
  proof (cases "n div 2 = 0")
    case True
    then have "n = 1" using 1 by linarith
    moreover have "bit_length 1 = 1" by (simp add: bit_length.simps)
    ultimately show ?thesis by simp
  next
    case False
    let ?b = "bit_length (n div 2)"
    have pos: "0 < n div 2" using False 1 by linarith
    with 1 have ih: "(2 :: real) powi (?b - 1) \<le> of_int (n div 2)" "of_int (n div 2) < (2 :: real) powi ?b"
      "0 < ?b" by auto
    have b: "bit_length n = ?b + 1" using 1(2) by (subst bit_length.simps) simp
    have p: "(2 :: real) powi ?b = 2 ^ nat ?b" "(2 :: real) powi (?b - 1) = 2 ^ (nat ?b - 1)"
      using ih(3) by (simp_all add: power_int_def nat_diff_distrib)
    have "(2 :: int) ^ (nat ?b - 1) \<le> n div 2" "n div 2 < 2 ^ nat ?b"
      using ih unfolding p by (metis of_int_le_iff of_int_numeral of_int_power)
        (metis ih(2) p(1) of_int_less_iff of_int_numeral of_int_power)
    moreover have "(2 :: int) ^ nat ?b = 2 * 2 ^ (nat ?b - 1)"
      using ih(3) by (cases "nat ?b") auto
    moreover have "nat (?b + 1) = Suc (nat ?b)" using ih(3) by simp
    moreover have "2 * (n div 2) \<le> n" "n < 2 * (n div 2) + 2" by linarith+
    ultimately have "(2 :: int) ^ nat ?b \<le> n" "n < 2 ^ nat (?b + 1)"
      by (simp_all only: power_Suc)
    then have "(2 :: real) ^ nat ?b \<le> of_int n" "of_int n < (2 :: real) ^ nat (?b + 1)"
      by (metis of_int_le_iff of_int_numeral of_int_power)
        (metis \<open>n < 2 ^ nat (?b + 1)\<close> of_int_less_iff of_int_numeral of_int_power)
    then show ?thesis using ih(3) by (simp add: b power_int_def)
  qed
qed

lemma ratio_ge_pow_iff:
  assumes "0 < d"
  shows "ratio_ge_pow n d k \<longleftrightarrow> (2 :: real) powi k \<le> of_int n / of_int d"
proof -
  have d: "(0 :: real) < of_int d" using assms by simp
  show ?thesis
  proof (cases "0 \<le> k")
    case True
    have "d * 2 ^ nat k \<le> n \<longleftrightarrow> of_int (d * 2 ^ nat k) \<le> (of_int n :: real)" by (simp only: of_int_le_iff)
    with True d show ?thesis
      by (simp add: ratio_ge_pow_def power_int_def pos_le_divide_eq mult.commute)
  next
    case False
    have "d \<le> n * 2 ^ nat (- k) \<longleftrightarrow> of_int d \<le> (of_int (n * 2 ^ nat (- k)) :: real)"
      by (simp only: of_int_le_iff)
    with False d show ?thesis
      by (simp add: ratio_ge_pow_def power_int_def pos_le_divide_eq field_simps)
  qed
qed

lemma powi_mono: "i \<le> j \<Longrightarrow> (2 :: real) powi i \<le> 2 powi j"
  by (rule power_int_increasing) simp_all

lemma powi_less_iff: "(2 :: real) powi i < 2 powi j \<longleftrightarrow> i < j"
  by (meson not_less power_int_strict_increasing powi_mono one_less_numeral_iff semiring_norm(76))

lemma log2_ratio_bounds:
  assumes "0 < n" and "0 < d"
  shows "(2 :: real) powi log2_ratio n d \<le> of_int n / of_int d"
    and "of_int n / of_int d < (2 :: real) powi (log2_ratio n d + 1)"
proof -
  let ?k = "bit_length n - bit_length d" and ?r = "of_int n / of_int d :: real"
  have n: "(2 :: real) powi (bit_length n - 1) \<le> of_int n" "of_int n < (2 :: real) powi bit_length n"
    and d: "(2 :: real) powi (bit_length d - 1) \<le> of_int d" "of_int d < (2 :: real) powi bit_length d"
    using bit_length_bounds assms by auto
  have dp: "(0 :: real) < of_int d" using assms by simp
  have "2 powi (?k - 1) * of_int d \<le> (2 :: real) powi (?k - 1) * 2 powi bit_length d"
    using d(2) by (intro mult_left_mono) auto
  also have "\<dots> = 2 powi (bit_length n - 1)" by (simp flip: power_int_add)
  finally have lo: "2 powi (?k - 1) \<le> ?r" using n(1) dp by (simp add: pos_le_divide_eq)
  have "(2 :: real) powi bit_length n = 2 powi (?k + 1) * 2 powi (bit_length d - 1)"
    by (simp flip: power_int_add)
  also have "\<dots> \<le> 2 powi (?k + 1) * of_int d" using d(1) by (intro mult_left_mono) auto
  finally have hi: "?r < 2 powi (?k + 1)" using n(2) dp by (simp add: pos_divide_less_eq)
  show "2 powi log2_ratio n d \<le> ?r" "?r < 2 powi (log2_ratio n d + 1)"
    using lo hi by (auto simp: log2_ratio_def Let_def ratio_ge_pow_iff [OF assms(2)] not_le)
qed

lemma log2_ratio_mono:
  assumes "0 < n" "0 < d" "0 < n'" "0 < d'" and "of_int n / of_int d \<le> (of_int n' / of_int d' :: real)"
  shows "log2_ratio n d \<le> log2_ratio n' d'"
proof -
  have "(2 :: real) powi log2_ratio n d < 2 powi (log2_ratio n' d' + 1)"
    using log2_ratio_bounds [OF assms(1,2)] log2_ratio_bounds [OF assms(3,4)] assms(5) by linarith
  then show ?thesis by (simp add: powi_less_iff)
qed

lemma round_half_even_bounds:
  assumes "0 < d"
  shows "\<bar>of_int (round_half_even n d) - of_int n / of_int d\<bar> \<le> (1 / 2 :: real)"
    and "\<bar>of_int (round_half_even n d) - of_int n / of_int d\<bar> = (1 / 2 :: real) \<Longrightarrow> even (round_half_even n d)"
proof -
  define q r where "q = n div d" and "r = n mod d"
  have n: "n = q * d + r" "0 \<le> r" "r < d" using assms by (simp_all add: q_def r_def)
  have dp: "(0 :: real) < of_int d" using assms by simp
  have f: "of_int n / of_int d = (of_int q + of_int r / of_int d :: real)"
    using dp by (simp add: n(1) add_divide_distrib)
  define t :: real where "t = of_int r / of_int d"
  have t: "0 \<le> t" "t < 1" using n dp by (simp_all add: t_def)
  have up: "d < 2 * r \<longleftrightarrow> 1 / 2 < t" and tie: "2 * r = d \<longleftrightarrow> t = 1 / 2"
  proof -
    have "1 / 2 < t \<longleftrightarrow> of_int d < (of_int (2 * r) :: real)"
      using dp by (simp add: t_def field_simps)
    then show "d < 2 * r \<longleftrightarrow> 1 / 2 < t" by (simp only: of_int_less_iff)
    have "t = 1 / 2 \<longleftrightarrow> of_int (2 * r) = (of_int d :: real)"
      using dp by (auto simp: t_def field_simps)
    then show "2 * r = d \<longleftrightarrow> t = 1 / 2" by (simp only: of_int_eq_iff)
  qed
  have e: "round_half_even n d = (if 1 / 2 < t \<or> t = 1 / 2 \<and> odd q then q + 1 else q)"
    by (simp add: round_half_even_def Let_def q_def [symmetric] r_def [symmetric] up tie)
  show "\<bar>of_int (round_half_even n d) - of_int n / of_int d\<bar> \<le> (1 / 2 :: real)"
    unfolding e f t_def [symmetric] using t by (auto simp: abs_le_iff)
  show "even (round_half_even n d)"
    if "\<bar>of_int (round_half_even n d) - of_int n / of_int d\<bar> = (1 / 2 :: real)"
    using that t unfolding e f t_def [symmetric] by (auto split: if_splits)
qed

lemma round_half_even_mono:
  assumes "0 < d" and "0 < d'" and "of_int n / of_int d \<le> (of_int n' / of_int d' :: real)"
  shows "round_half_even n d \<le> round_half_even n' d'"
proof (rule ccontr)
  let ?q = "round_half_even n d" and ?q' = "round_half_even n' d'"
  assume "\<not> ?q \<le> ?q'"
  then have q: "?q' + 1 \<le> ?q" by simp
  then have "of_int ?q' + 1 \<le> (of_int ?q :: real)" by linarith
  then have "\<bar>of_int ?q - of_int n / of_int d\<bar> = (1 / 2 :: real)"
    "\<bar>of_int ?q' - of_int n' / of_int d'\<bar> = (1 / 2 :: real)" "of_int ?q = (of_int ?q' + 1 :: real)"
    using round_half_even_bounds(1) [OF assms(1), of n] round_half_even_bounds(1) [OF assms(2), of n']
      assms(3) by linarith+
  moreover from this(3) have "?q = ?q' + 1" by linarith
  ultimately have "even ?q" "even ?q'" "?q = ?q' + 1"
    using round_half_even_bounds(2) [OF assms(1)] round_half_even_bounds(2) [OF assms(2)] by blast+
  then show False by simp
qed

lemma round_half_even_exact: "0 < d \<Longrightarrow> round_half_even (q * d) d = q"
  by (simp add: round_half_even_def)


text \<open>The exponent and the mantissa that a ratio is rounded to.\<close>

definition ratio_exp :: "int \<Rightarrow> int \<Rightarrow> int" where
  "ratio_exp n d = max (log2_ratio n d - 52) (- 1074)"

definition ratio_mant :: "int \<Rightarrow> int \<Rightarrow> int" where
  "ratio_mant n d =
     (let e = ratio_exp n d in
      if 0 \<le> e then round_half_even n (d * 2 ^ nat e) else round_half_even (n * 2 ^ nat (- e)) d)"

lemma f64_of_ratio_pack:
  "n \<noteq> 0 \<Longrightarrow> f64_of_ratio neg n d = f64_pack neg (ratio_mant n d) (ratio_exp n d)"
  by (simp add: f64_of_ratio_def ratio_exp_def ratio_mant_def Let_def)

text \<open>The scaled ratio whose rounding is the mantissa.\<close>

lemma ratio_mant_scaled:
  assumes "0 < d"
  obtains a b where "0 < b" "ratio_mant n d = round_half_even a b"
    "of_int a / of_int b = (of_int n / of_int d / 2 powi ratio_exp n d :: real)"
proof (cases "0 \<le> ratio_exp n d")
  case True
  with assms show thesis
    by (intro that [of "d * 2 ^ nat (ratio_exp n d)" n])
      (simp_all add: ratio_mant_def Let_def power_int_def)
next
  case False
  with assms show thesis
    by (intro that [of d "n * 2 ^ nat (- ratio_exp n d)"])
      (simp_all add: ratio_mant_def Let_def power_int_def field_simps)
qed

lemma round_half_even_between:
  assumes "0 < b" and "of_int l \<le> (of_int a / of_int b :: real)" and "of_int a / of_int b \<le> (of_int u :: real)"
  shows "l \<le> round_half_even a b" and "round_half_even a b \<le> u"
  using round_half_even_mono [OF _ assms(1), of 1 l a] round_half_even_mono [OF assms(1), of 1 a u]
    round_half_even_exact [of 1] assms by simp_all

lemma ratio_pack_ok:
  assumes "0 < n" and "0 < d"
  shows "pack_ok (ratio_mant n d) (ratio_exp n d)"
proof -
  let ?e = "ratio_exp n d" and ?r = "of_int n / of_int d :: real"
  obtain a b where ab: "0 < b" "ratio_mant n d = round_half_even a b" "of_int a / of_int b = ?r / 2 powi ?e"
    using ratio_mant_scaled [OF assms(2), of n] by metis
  note lg = log2_ratio_bounds [OF assms]
  have "?r < 2 powi (?e + 53)"
  proof -
    have "log2_ratio n d + 1 \<le> ?e + 53" by (simp add: ratio_exp_def)
    from powi_mono [OF this] lg(2) show ?thesis by linarith
  qed
  then have hi: "of_int a / of_int b \<le> (of_int (2 ^ 53) :: real)"
    unfolding ab(3) by (subst pos_divide_le_eq) (simp_all add: power_int_add mult.commute)
  have "0 \<le> ?r / 2 powi ?e" using assms by (intro divide_nonneg_nonneg) auto
  then have lo: "of_int 0 \<le> (of_int a / of_int b :: real)" by (simp only: ab(3) of_int_0)
  have lo52: "of_int (2 ^ 52) \<le> (of_int a / of_int b :: real)" if "?e \<noteq> - 1074"
  proof -
    have "log2_ratio n d = ?e + 52" using that by (auto simp: ratio_exp_def max_def split: if_splits)
    then show ?thesis
      using lg(1) unfolding ab(3) by (subst pos_le_divide_eq) (simp_all add: power_int_add mult.commute)
  qed
  have "- 1074 \<le> ?e" by (simp add: ratio_exp_def)
  with round_half_even_between [OF ab(1) lo hi] round_half_even_between(1) [OF ab(1) lo52 hi]
  show ?thesis unfolding pack_ok_def ab(2) by blast
qed

text \<open>Representable ratios are not changed by the rounding.\<close>

lemma ratio_mant_exact:
  assumes n: "0 < n" and d: "0 < d" and r: "of_int n / of_int d = (of_int q * 2 powi e :: real)"
    and q: "q < 2 ^ 53" and e: "- 1074 \<le> e"
  shows "of_int (ratio_mant n d) * 2 powi ratio_exp n d = (of_int n / of_int d :: real)"
proof -
  let ?e = "ratio_exp n d"
  obtain a b where ab: "0 < b" "ratio_mant n d = round_half_even a b"
    "of_int a / of_int b = (of_int n / of_int d :: real) / 2 powi ?e"
    using ratio_mant_scaled [OF d, of n] by metis
  have le: "?e \<le> e"
  proof (cases "?e = - 1074")
    case False
    then have l: "log2_ratio n d = ?e + 52" by (auto simp: ratio_exp_def max_def split: if_splits)
    have "(of_int q :: real) < 2 ^ 53" using q by (metis of_int_less_iff of_int_numeral of_int_power)
    then have "(of_int q * 2 powi e :: real) < 2 powi (53 + e)" by (simp add: power_int_add)
    then have "(2 :: real) powi (?e + 52) < 2 powi (53 + e)"
      using log2_ratio_bounds(1) [OF n d] l r by simp
    then show ?thesis by (simp add: powi_less_iff)
  qed (use e in simp)
  define k where "k = nat (e - ?e)"
  have p: "(2 :: real) powi e = 2 ^ k * 2 powi ?e"
    using le by (simp add: k_def power_int_add [symmetric] flip: power_int_of_nat)
  have "of_int a / of_int b = (of_int (q * 2 ^ k) :: real)" unfolding ab(3) r p by simp
  then have "(of_int a :: real) = of_int (q * 2 ^ k * b)" using ab(1) by (simp add: field_simps)
  then have "a = q * 2 ^ k * b" by (simp only: of_int_eq_iff)
  then have "ratio_mant n d = q * 2 ^ k" using ab(1,2) round_half_even_exact by simp
  then show ?thesis unfolding r p by simp
qed

text \<open>The numbers that have a finite bit pattern.\<close>

definition representable :: "real \<Rightarrow> bool" where
  "representable r \<longleftrightarrow>
     (\<exists>q e. \<bar>q\<bar> < 2 ^ 53 \<and> - 1074 \<le> e \<and> e \<le> 971 \<and> r = of_int q * 2 powi e)"

lemma representable_int: "\<bar>k\<bar> \<le> 2 ^ 53 \<Longrightarrow> representable (of_int k)"
  unfolding representable_def
proof (cases "\<bar>k\<bar> = 2 ^ 53")
  case True
  then show "\<exists>q e. \<bar>q\<bar> < 2 ^ 53 \<and> - 1074 \<le> e \<and> e \<le> 971 \<and> real_of_int k = of_int q * 2 powi e"
    by (intro exI [of _ "sgn k"] exI [of _ 53]) (auto simp: sgn_if abs_if split: if_splits)
next
  case False
  assume "\<bar>k\<bar> \<le> 2 ^ 53"
  with False show "\<exists>q e. \<bar>q\<bar> < 2 ^ 53 \<and> - 1074 \<le> e \<and> e \<le> 971 \<and> real_of_int k = of_int q * 2 powi e"
    by (intro exI [of _ k] exI [of _ 0]) auto
qed

lemma representable_minus: "representable (- r) \<longleftrightarrow> representable r"
proof -
  have "representable r \<Longrightarrow> representable (- r)" for r
  proof -
    assume "representable r"
    then obtain q e where "\<bar>q\<bar> < 2 ^ 53" "- 1074 \<le> e" "e \<le> 971" "r = of_int q * 2 powi e"
      by (auto simp: representable_def)
    then show "representable (- r)"
      unfolding representable_def by (intro exI [of _ "- q"] exI [of _ e]) simp
  qed
  from this [of r] this [of "- r"] show ?thesis by auto
qed

lemma f64_of_ratio_finite:
  assumes n: "0 < n" and d: "0 < d" and r: "of_int n / of_int d = (of_int q * 2 powi e :: real)"
    and q: "q < 2 ^ 53" and e: "e \<le> 971"
  shows "ratio_mant n d + (ratio_exp n d + 1074) * 2 ^ 52 < MAG_INF"
proof -
  note ok = ratio_pack_ok [OF n d]
  have q0: "(of_int q :: real) \<le> of_int (2 ^ 53 - 1)" using q by (simp only: of_int_le_iff)
  have "(2 :: real) powi e \<le> 2 powi 971" using powi_mono [OF e] .
  then have le: "of_int n / of_int d \<le> (of_int (2 ^ 53 - 1) * 2 powi 971 :: real)"
    unfolding r using q0 by (intro mult_mono) auto
  also have "\<dots> < 2 powi 53 * 2 powi 971" by (intro mult_strict_right_mono) auto
  also have "\<dots> = 2 powi (53 + 971)" by (rule power_int_add [symmetric]) simp
  finally have "(2 :: real) powi log2_ratio n d < 2 powi (53 + 971)"
    using log2_ratio_bounds(1) [OF n d] by (rule order.strict_trans1 [rotated])
  then have "log2_ratio n d < 53 + 971" by (simp only: powi_less_iff)
  then consider "ratio_exp n d \<le> 970" | "ratio_exp n d = 971" by (fastforce simp: ratio_exp_def)
  then show ?thesis
  proof cases
    case 1
    then show ?thesis using ok by (simp add: pack_ok_def MAG_INF_def)
  next
    case 2
    obtain a b where ab: "0 < b" "ratio_mant n d = round_half_even a b"
      "of_int a / of_int b = (of_int n / of_int d :: real) / 2 powi ratio_exp n d"
      using ratio_mant_scaled [OF d, of n] by metis
    have "of_int a / of_int b \<le> (of_int (2 ^ 53 - 1) :: real)"
      unfolding ab(3) 2 using le by (subst pos_divide_le_eq) simp_all
    moreover have "0 \<le> (of_int n / of_int d :: real) / 2 powi ratio_exp n d"
      using n d by (intro divide_nonneg_nonneg) auto
    then have "of_int 0 \<le> (of_int a / of_int b :: real)" by (simp only: ab(3) of_int_0)
    ultimately have "ratio_mant n d \<le> 2 ^ 53 - 1"
      unfolding ab(2) using round_half_even_between(2) [OF ab(1)] by blast
    then show ?thesis using 2 by (simp add: MAG_INF_def)
  qed
qed

lemma f64_of_ratio_exact:
  assumes "0 \<le> n" and "0 < d" and "representable (of_int n / of_int d)"
  shows "f64_is_finite (f64_of_ratio neg n d)"
    and "f64_val (f64_of_ratio neg n d) = (if neg then - 1 else 1) * (of_int n / of_int d)"
    and "f64_neg_sign (f64_of_ratio neg n d) = neg"
proof -
  let ?x = "f64_of_ratio neg n d"
  have "f64_is_finite ?x \<and> f64_val ?x = (if neg then - 1 else 1) * (of_int n / of_int d) \<and> f64_neg_sign ?x = neg"
  proof (cases "n = 0")
    case True
    have "f64_is_finite (f64_zero neg)" "f64_val (f64_zero neg) = 0" "f64_neg_sign (f64_zero neg) = neg"
      by (simp_all add: f64_is_finite_def f64_zero_def f64_make_fields MAG_INF_def f64_val_def
          f64_smant_def f64_mant_def)
    with True show ?thesis by (simp add: f64_of_ratio_def)
  next
    case False
    with assms(1) have n: "0 < n" by simp
    obtain q e where q: "\<bar>q\<bar> < 2 ^ 53" "- 1074 \<le> e" "e \<le> 971" "of_int n / of_int d = (of_int q * 2 powi e :: real)"
      using assms(3) by (auto simp: representable_def)
    have "q < 2 ^ 53" using q(1) by simp
    from f64_pack_val [OF ratio_pack_ok [OF n assms(2)] f64_of_ratio_finite [OF n assms(2) q(4) this q(3)]]
      ratio_mant_exact [OF n assms(2) q(4) this q(2)] f64_pack_mag(2) [OF ratio_pack_ok [OF n assms(2)]]
    show ?thesis using False by (simp add: f64_of_ratio_pack mult.assoc)
  qed
  then show "f64_is_finite ?x" "f64_val ?x = (if neg then - 1 else 1) * (of_int n / of_int d)"
    "f64_neg_sign ?x = neg" by blast+
qed

text \<open>Rounding is monotone.\<close>

lemma ratio_pack_mono:
  assumes "0 < n" "0 < d" "0 < n'" "0 < d'" and le: "of_int n / of_int d \<le> (of_int n' / of_int d' :: real)"
  shows "ratio_mant n d + (ratio_exp n d + 1074) * 2 ^ 52 \<le> ratio_mant n' d' + (ratio_exp n' d' + 1074) * 2 ^ 52"
proof -
  note ok = ratio_pack_ok [OF assms(1,2)] and ok' = ratio_pack_ok [OF assms(3,4)]
  have "ratio_exp n d \<le> ratio_exp n' d'"
    using log2_ratio_mono [OF assms] by (simp add: ratio_exp_def)
  then consider "ratio_exp n d = ratio_exp n' d'" | "ratio_exp n d + 1 \<le> ratio_exp n' d'" by linarith
  then show ?thesis
  proof cases
    case 1
    obtain a b where ab: "0 < b" "ratio_mant n d = round_half_even a b"
      "of_int a / of_int b = (of_int n / of_int d :: real) / 2 powi ratio_exp n d"
      using ratio_mant_scaled [OF assms(2), of n] by metis
    obtain a' b' where ab': "0 < b'" "ratio_mant n' d' = round_half_even a' b'"
      "of_int a' / of_int b' = (of_int n' / of_int d' :: real) / 2 powi ratio_exp n' d'"
      using ratio_mant_scaled [OF assms(4), of n'] by metis
    have "of_int a / of_int b \<le> (of_int a' / of_int b' :: real)"
      unfolding ab(3) ab'(3) 1 using le by (intro divide_right_mono) auto
    then have "ratio_mant n d \<le> ratio_mant n' d'"
      using round_half_even_mono [OF ab(1) ab'(1)] ab(2) ab'(2) by simp
    then show ?thesis using 1 by simp
  next
    case 2
    then show ?thesis using ok ok' by (auto simp: pack_ok_def)
  qed
qed


section \<open>The order is the order of the values\<close>

lemma powi_pos [simp]: "\<not> (2 :: real) powi i \<le> 0" "\<not> (2 :: real) powi i < 0"
  by (simp_all add: not_le not_less)

lemma f64_mant_bounds: "0 \<le> f64_mant x" "f64_mant x < 2 ^ 53"
  using f64_mag_bounds [of x] by (auto simp: f64_mant_def) 

lemma f64_scale_ge: "- 1074 \<le> f64_scale x"
  by (simp add: f64_scale_def)

lemma f64_scale_le: "f64_is_finite x \<Longrightarrow> f64_scale x \<le> 971"
  by (auto simp: f64_is_finite_def f64_scale_def MAG_INF_def)

lemma f64_val_abs: "\<bar>f64_val x\<bar> = of_int (f64_mant x) * 2 powi f64_scale x"
  using f64_mant_bounds [of x] by (simp add: f64_val_def f64_smant_def abs_mult)

lemma representable_val: "f64_is_finite x \<Longrightarrow> representable (f64_val x)"
  unfolding representable_def f64_val_def using f64_mant_bounds [of x] f64_scale_ge f64_scale_le
  by (intro exI [of _ "f64_smant x"] exI [of _ "f64_scale x"]) (auto simp: f64_smant_def)

lemma f64_val_less:
  assumes "f64_mag x < f64_mag y"
  shows "\<bar>f64_val x\<bar> < \<bar>f64_val y\<bar>"
proof -
  let ?P = "4503599627370496 :: int"
  let ?E = "f64_mag x div ?P" and ?F = "f64_mag y div ?P"
  have m: "f64_mag x = ?E * ?P + f64_mag x mod ?P" "f64_mag y = ?F * ?P + f64_mag y mod ?P"
    by simp_all
  have r: "0 \<le> f64_mag x mod ?P" "f64_mag x mod ?P < ?P"
    "0 \<le> f64_mag y mod ?P" "f64_mag y mod ?P < ?P" by simp_all
  have E: "0 \<le> ?E" "?E \<le> ?F" using f64_mag_bounds [of x] assms by (auto simp: zdiv_mono1)
  consider (same) "f64_scale x = f64_scale y" | (less) "f64_scale x + 1 \<le> f64_scale y" "1 \<le> ?F"
    using E by (fastforce simp: f64_scale_def)
  then show ?thesis
  proof cases
    case same
    have "f64_mant x < f64_mant y"
    proof (cases "?E = ?F")
      case True
      then have "f64_mag x mod ?P < f64_mag y mod ?P" using m assms by linarith
      then show ?thesis using assms r(1,3) True by (auto simp: f64_mant_def)
    next
      case False
      then have "?E = 0" "?F = 1" using same E by (auto simp: f64_scale_def)
      then have "f64_mag x < ?P" "?P \<le> f64_mag y" using m r by linarith+
      then show ?thesis by (simp add: f64_mant_def add_strict_increasing2)
    qed
    then show ?thesis unfolding f64_val_abs same by (intro mult_strict_right_mono) auto
  next
    case less
    then have "?P \<le> f64_mag y" using m r by linarith
    then have my: "2 ^ 52 \<le> f64_mant y" by (simp add: f64_mant_def)
    have "of_int (f64_mant x) * 2 powi f64_scale x < (2 ^ 53 :: real) * 2 powi f64_scale x"
      using f64_mant_bounds(2) [of x] by (intro mult_strict_right_mono) auto
    also have "\<dots> = 2 ^ 52 * 2 powi (f64_scale x + 1)" by (simp add: power_int_add)
    also have "\<dots> \<le> (2 ^ 52 :: real) * 2 powi f64_scale y" using powi_mono [OF less(1)] by simp
    also have "\<dots> \<le> of_int (f64_mant y) * 2 powi f64_scale y"
      using my by (intro mult_right_mono) auto
    finally show ?thesis unfolding f64_val_abs .
  qed
qed

lemma f64_val_zero_iff: "f64_val x = 0 \<longleftrightarrow> f64_mag x = 0"
proof -
  have "f64_mant x = 0 \<longleftrightarrow> f64_mag x = 0"
    by (auto simp: f64_mant_def add_nonneg_eq_0_iff)
  then show ?thesis by (simp add: f64_val_def f64_smant_def)
qed

lemma f64_key_less_iff:
  "f64_key x < f64_key y \<longleftrightarrow> f64_val x < f64_val y" (is ?less)
  and f64_key_eq_iff: "f64_key x = f64_key y \<longleftrightarrow> f64_val x = f64_val y" (is ?eq)
proof -
  have key: "\<bar>f64_key x\<bar> = f64_mag x" for x using f64_mag_bounds [of x] by (simp add: f64_key_def)
  have sgn: "sgn (f64_key x) = (if f64_mag x = 0 then 0 else if f64_neg_sign x then - 1 else 1)" for x
    using f64_mag_bounds [of x] by (simp add: f64_key_def)
  have vs: "f64_val x \<le> 0 \<longleftrightarrow> f64_key x \<le> 0" "0 \<le> f64_val x \<longleftrightarrow> 0 \<le> f64_key x" for x
  proof -
    have m: "0 \<le> f64_mant x" "f64_mant x = 0 \<longleftrightarrow> f64_mag x = 0"
      using f64_mant_bounds [of x] by (auto simp: f64_mant_def add_nonneg_eq_0_iff)
    show "f64_val x \<le> 0 \<longleftrightarrow> f64_key x \<le> 0"
      using m f64_mag_bounds [of x] by (auto simp: f64_val_def f64_smant_def f64_key_def mult_le_0_iff zero_le_mult_iff)
    show "0 \<le> f64_val x \<longleftrightarrow> 0 \<le> f64_key x"
      using m f64_mag_bounds [of x] by (auto simp: f64_val_def f64_smant_def f64_key_def mult_le_0_iff zero_le_mult_iff)
  qed
  have ab: "\<bar>f64_key x\<bar> < \<bar>f64_key y\<bar> \<longleftrightarrow> \<bar>f64_val x\<bar> < \<bar>f64_val y\<bar>" for x y
  proof -
    have "\<bar>f64_val x\<bar> = \<bar>f64_val y\<bar>" if "f64_mag x = f64_mag y"
      using that by (simp add: f64_val_abs f64_mant_def f64_scale_def)
    then show ?thesis unfolding key using f64_val_less [of x y] f64_val_less [of y x] by linarith
  qed
  show ?less using vs [of x] vs [of y] ab [of x y] ab [of y x] by linarith
  have "f64_key y < f64_key x \<longleftrightarrow> f64_val y < f64_val x"
    using vs [of x] vs [of y] ab [of x y] ab [of y x] by linarith
  with \<open>?less\<close> show ?eq by linarith
qed

lemma f64_finite_not_nan: "f64_is_finite x \<Longrightarrow> \<not> f64_is_nan x \<and> \<not> f64_is_inf x"
  by (simp add: f64_is_finite_def f64_is_nan_def f64_is_inf_def)

lemma f64_partial_cmp_val:
  assumes "f64_is_finite x" and "f64_is_finite y"
  shows "f64_partial_cmp x y = Some (ord_of (f64_val x) (f64_val y))"
  using assms f64_finite_not_nan
  by (simp add: f64_partial_cmp_def ord_of_def f64_key_less_iff f64_key_eq_iff)

section \<open>Integers\<close>

lemma f64_of_int_exact:
  assumes "\<bar>k\<bar> \<le> 2 ^ 53"
  shows "f64_is_finite (f64_of_int k)" and "f64_val (f64_of_int k) = of_int k"
    and "f64_neg_sign (f64_of_int k) = (k < 0)"
  using f64_of_ratio_exact [of "\<bar>k\<bar>" 1 "k < 0"] representable_int [of "\<bar>k\<bar>"] assms
  by (auto simp: f64_of_int_def)

lemma f64_key_of_int_mono:
  assumes "a \<le> b"
  shows "f64_key (f64_of_int a) \<le> f64_key (f64_of_int b)"
proof -
  have mag: "f64_mag (f64_of_int k) = (if k = 0 then 0 else
      min (ratio_mant \<bar>k\<bar> 1 + (ratio_exp \<bar>k\<bar> 1 + 1074) * 2 ^ 52) MAG_INF)"
    and sg: "f64_neg_sign (f64_of_int k) = (k < 0)" for k
    using f64_pack_mag [OF ratio_pack_ok [of "\<bar>k\<bar>" 1], of "k < 0"] f64_make_fields [of 0 False]
    by (cases "k = 0"; simp add: f64_of_int_def f64_of_ratio_pack f64_of_ratio_def [of _ 0] f64_zero_def)+
  have mono: "f64_mag (f64_of_int k) \<le> f64_mag (f64_of_int l)" if "\<bar>k\<bar> \<le> \<bar>l\<bar>" for k l
  proof (cases "k = 0")
    case True
    then have "f64_mag (f64_of_int k) = 0" using mag [of 0] by simp
    then show ?thesis using f64_mag_bounds(1) by simp
  next
    case False
    with that have l: "l \<noteq> 0" "0 < \<bar>k\<bar>" "0 < \<bar>l\<bar>" by auto
    have "ratio_mant \<bar>k\<bar> 1 + (ratio_exp \<bar>k\<bar> 1 + 1074) * 2 ^ 52
        \<le> ratio_mant \<bar>l\<bar> 1 + (ratio_exp \<bar>l\<bar> 1 + 1074) * 2 ^ 52"
      using ratio_pack_mono [of "\<bar>k\<bar>" 1 "\<bar>l\<bar>" 1] l that by simp
    then show ?thesis unfolding mag using False l(1) by (simp only: if_False) (rule min.mono [OF _ order.refl])
  qed
  consider "a < 0" "b < 0" | "a < 0" "0 \<le> b" | "0 \<le> a" "0 \<le> b" using assms by linarith
  then show ?thesis
  proof cases
    case 1
    then show ?thesis using mono [of b a] assms by (simp add: f64_key_def sg)
  next
    case 2
    then show ?thesis using f64_mag_bounds [of "f64_of_int a"] f64_mag_bounds [of "f64_of_int b"]
      by (simp add: f64_key_def sg)
  next
    case 3
    then show ?thesis using mono [of a b] assms by (simp add: f64_key_def sg)
  qed
qed

lemma f64_of_int_not_nan: "\<not> f64_is_nan (f64_of_int k)"
proof (cases "k = 0")
  case True
  then show ?thesis
    by (simp add: f64_of_int_def f64_of_ratio_def f64_zero_def f64_is_nan_def f64_make_fields MAG_INF_def)
next
  case False
  with f64_pack_mag(1) [OF ratio_pack_ok [of "\<bar>k\<bar>" 1], of "k < 0"] show ?thesis
    by (simp add: f64_of_int_def f64_of_ratio_pack f64_is_nan_def)
qed

text \<open>The magnitude of a finite number whose value is an integer.\<close>

lemma f64_integral:
  assumes "f64_val x = of_int k"
  shows "f64_floor_mag x = \<bar>k\<bar>" and "\<not> f64_has_fract x"
proof -
  have v: "(of_int (f64_mant x) :: real) * 2 powi f64_scale x = of_int \<bar>k\<bar>"
    using f64_val_abs [of x] assms by simp
  show "f64_floor_mag x = \<bar>k\<bar>"
  proof (cases "0 \<le> f64_scale x")
    case True
    then have "of_int (f64_mant x * 2 ^ nat (f64_scale x)) = (of_int \<bar>k\<bar> :: real)"
      using v by (simp add: power_int_def)
    then show ?thesis using True by (simp only: of_int_eq_iff f64_floor_mag_def Let_def if_True)
  next
    case False
    then have "(of_int (f64_mant x) :: real) = of_int (\<bar>k\<bar> * 2 ^ nat (- f64_scale x))"
      using v by (simp add: power_int_def field_simps)
    then have "f64_mant x = \<bar>k\<bar> * 2 ^ nat (- f64_scale x)" by (simp only: of_int_eq_iff)
    then show ?thesis using False by (simp add: f64_floor_mag_def)
  qed
  show "\<not> f64_has_fract x"
  proof
    assume h: "f64_has_fract x"
    then have "(of_int (f64_mant x) :: real) = of_int (\<bar>k\<bar> * 2 ^ nat (- f64_scale x))"
      using v by (simp add: power_int_def field_simps f64_has_fract_def)
    then have "f64_mant x = \<bar>k\<bar> * 2 ^ nat (- f64_scale x)" by (simp only: of_int_eq_iff)
    then show False using h by (simp add: f64_has_fract_def)
  qed
qed

lemma f64_val_sign: "f64_val x \<noteq> 0 \<Longrightarrow> f64_neg_sign x \<longleftrightarrow> f64_val x < 0"
  using f64_mant_bounds [of x] by (auto simp: f64_val_def f64_smant_def mult_less_0_iff zero_less_mult_iff)

lemma f64_to_int_integral:
  assumes "f64_is_finite x" and "f64_val x = of_int k"
  shows "f64_to_int lo hi x = max lo (min hi k)"
proof -
  have "(if f64_neg_sign x then - f64_floor_mag x else f64_floor_mag x) = k"
    unfolding f64_integral(1) [OF assms(2)] using f64_val_sign [of x] assms(2) by (cases "k = 0") auto
  then show ?thesis using f64_finite_not_nan [OF assms(1)] by (simp add: f64_to_int_def Let_def)
qed

lemma f64_to_i64_integral:
  assumes "f64_is_finite x" and "f64_val x = of_int k" and "i64_min \<le> k" and "k \<le> i64_max"
  shows "f64_to_i64 x = i64_of_int k"
  using f64_to_int_integral [OF assms(1,2)] assms(3,4) by (simp add: f64_to_i64_def)

section \<open>Exact operations\<close>

lemma f64_of_dyadic_ratio:
  obtains n d where "f64_of_dyadic neg m e = f64_of_ratio neg n d" "0 < d" "0 \<le> m \<longrightarrow> 0 \<le> n"
    "of_int n / of_int d = (of_int m * 2 powi e :: real)"
proof (cases "0 \<le> e")
  case True
  then show ?thesis by (intro that [of "m * 2 ^ nat e" 1]) (simp_all add: f64_of_dyadic_def power_int_def)
next
  case False
  then show ?thesis by (intro that [of m "2 ^ nat (- e)"]) (simp_all add: f64_of_dyadic_def power_int_def field_simps)
qed

lemma f64_of_dyadic_exact:
  assumes "0 \<le> m" and "representable (of_int m * 2 powi e)"
  shows "f64_is_finite (f64_of_dyadic neg m e)"
    and "f64_val (f64_of_dyadic neg m e) = (if neg then - 1 else 1) * (of_int m * 2 powi e)"
proof -
  obtain n d where nd: "f64_of_dyadic neg m e = f64_of_ratio neg n d" "0 < d" "0 \<le> n"
    "of_int n / of_int d = (of_int m * 2 powi e :: real)"
    using f64_of_dyadic_ratio [of neg m e] assms(1) by metis
  from f64_of_ratio_exact [of n d neg] nd assms(2)
  show "f64_is_finite (f64_of_dyadic neg m e)"
    "f64_val (f64_of_dyadic neg m e) = (if neg then - 1 else 1) * (of_int m * 2 powi e)" by simp_all
qed

lemma f64_zero_val: "f64_is_finite (f64_zero neg)" "f64_val (f64_zero neg) = 0"
  by (simp_all add: f64_is_finite_def f64_zero_def f64_make_fields MAG_INF_def f64_val_def
      f64_smant_def f64_mant_def)

lemma f64_neg_val:
  assumes "f64_is_finite x"
  shows "f64_is_finite (f64_neg x)" and "f64_val (f64_neg x) = - f64_val x"
proof -
  have f: "f64_mag (f64_neg x) = f64_mag x" "f64_neg_sign (f64_neg x) = (\<not> f64_neg_sign x)"
    by (simp_all only: f64_neg_def f64_make_fields [OF f64_mag_bounds])
  show "f64_is_finite (f64_neg x)" using assms by (simp add: f64_is_finite_def f)
  have "f64_mant (f64_neg x) = f64_mant x" "f64_scale (f64_neg x) = f64_scale x"
    by (simp_all only: f64_mant_def f64_scale_def f)
  then show "f64_val (f64_neg x) = - f64_val x" by (simp add: f64_val_def f64_smant_def f)
qed

lemma f64_add_exact:
  assumes "f64_is_finite x" and "f64_is_finite y" and "representable (f64_val x + f64_val y)"
  shows "f64_is_finite (f64_add x y)" and "f64_val (f64_add x y) = f64_val x + f64_val y"
proof -
  define e where "e = min (f64_scale x) (f64_scale y)"
  define m where "m = f64_smant x * 2 ^ nat (f64_scale x - e) + f64_smant y * 2 ^ nat (f64_scale y - e)"
  have p: "(2 :: real) ^ nat (i - e) * 2 powi e = 2 powi i" if "e \<le> i" for i
    using that by (simp flip: power_int_of_nat power_int_add)
  have le: "e \<le> f64_scale x" "e \<le> f64_scale y" by (simp_all add: e_def)
  have "of_int m * 2 powi e = (of_int (f64_smant x) * (2 ^ nat (f64_scale x - e) * 2 powi e)
      + of_int (f64_smant y) * (2 ^ nat (f64_scale y - e) * 2 powi e) :: real)"
    by (simp add: distrib_right m_def)
  also have "\<dots> = f64_val x + f64_val y" by (simp only: p le f64_val_def)
  finally have v: "of_int m * 2 powi e = f64_val x + f64_val y" .
  have a: "f64_add x y = (if m = 0 then f64_zero (f64_neg_sign x \<and> f64_neg_sign y)
      else f64_of_dyadic (m < 0) \<bar>m\<bar> e)"
    using f64_finite_not_nan assms(1,2) by (simp add: f64_add_def Let_def m_def e_def)
  have "representable (of_int \<bar>m\<bar> * 2 powi e)"
    using assms(3) v [symmetric] representable_minus [of "of_int m * 2 powi e"]
    by (cases "0 \<le> m") simp_all
  from f64_of_dyadic_exact [OF _ this, of "m < 0"] v
  show "f64_is_finite (f64_add x y)" "f64_val (f64_add x y) = f64_val x + f64_val y"
    unfolding a using f64_zero_val by (auto simp: abs_if)
qed

lemma f64_sub_exact:
  assumes "f64_is_finite x" and "f64_is_finite y" and "representable (f64_val x - f64_val y)"
  shows "f64_is_finite (f64_sub x y)" and "f64_val (f64_sub x y) = f64_val x - f64_val y"
  using f64_add_exact [of x "f64_neg y"] f64_neg_val [OF assms(2)] assms f64_finite_not_nan [OF assms(2)]
  by (simp_all add: f64_sub_def)

lemma f64_mul_exact:
  assumes "f64_is_finite x" and "f64_is_finite y" and "representable (f64_val x * f64_val y)"
  shows "f64_is_finite (f64_mul x y)" and "f64_val (f64_mul x y) = f64_val x * f64_val y"
proof -
  let ?neg = "f64_neg_sign x \<noteq> f64_neg_sign y" and ?m = "f64_mant x * f64_mant y"
  let ?e = "f64_scale x + f64_scale y"
  have a: "f64_mul x y = f64_of_dyadic ?neg ?m ?e"
    using f64_finite_not_nan assms(1,2) by (simp add: f64_mul_def Let_def)
  have v: "(if ?neg then - 1 else 1) * (of_int ?m * 2 powi ?e) = f64_val x * f64_val y"
    by (simp add: f64_val_def f64_smant_def power_int_add)
  then have "representable (of_int ?m * 2 powi ?e)"
    using assms(3) representable_minus [of "of_int ?m * 2 powi ?e"] by (cases ?neg) simp_all
  with f64_of_dyadic_exact [of ?m ?e ?neg] f64_mant_bounds v
  show "f64_is_finite (f64_mul x y)" "f64_val (f64_mul x y) = f64_val x * f64_val y"
    unfolding a by simp_all
qed

text \<open>An integral value has no fraction, for the code's test \<open>fract() == 0.0\<close>.\<close>

lemma f64_trunc_integral:
  assumes "f64_is_finite x" and "f64_val x = of_int k"
  shows "f64_is_finite (f64_trunc x)" and "f64_val (f64_trunc x) = of_int k"
proof -
  have t: "f64_trunc x = f64_of_ratio (f64_neg_sign x) \<bar>k\<bar> 1"
    using assms f64_integral(1) by (simp add: f64_trunc_def f64_with_mag_def)
  have "representable (of_int \<bar>k\<bar>)"
    using representable_val [OF assms(1)] representable_minus [of "of_int k"] assms(2)
    by (cases "0 \<le> k") simp_all
  then have "representable (of_int \<bar>k\<bar> / of_int 1)" by simp
  from f64_of_ratio_exact [OF _ _ this, of "f64_neg_sign x"]
  show "f64_is_finite (f64_trunc x)" "f64_val (f64_trunc x) = of_int k"
    unfolding t using f64_val_sign [of x] assms(2) by (auto simp: abs_if)
qed

lemma f64_fract_integral:
  assumes "f64_is_finite x" and "f64_val x = of_int k"
  shows "f64_is_zero (f64_fract x)"
proof -
  note t = f64_trunc_integral [OF assms]
  have "representable 0" using representable_int [of 0] by simp
  then have "f64_val (f64_fract x) = 0"
    using f64_sub_exact [OF assms(1) t(1)] t(2) assms(2) by (simp add: f64_fract_def)
  then show ?thesis by (simp add: f64_val_zero_iff f64_is_zero_def)
qed

section \<open>Fractions\<close>

text \<open>The integer part of a finite number, and its fraction, are exact.\<close>

lemma f64_floor_mag_val:
  "of_int (f64_floor_mag x) \<le> \<bar>f64_val x\<bar>" "\<bar>f64_val x\<bar> < of_int (f64_floor_mag x) + 1"
  "0 \<le> f64_floor_mag x"
proof -
  note m = f64_mant_bounds [of x]
  have "of_int (f64_floor_mag x) \<le> \<bar>f64_val x\<bar> \<and> \<bar>f64_val x\<bar> < of_int (f64_floor_mag x) + 1 \<and> 0 \<le> f64_floor_mag x"
  proof (cases "0 \<le> f64_scale x")
    case True
    with m show ?thesis by (simp add: f64_val_abs f64_floor_mag_def power_int_def)
  next
    case False
    define d :: int where "d = 2 ^ nat (- f64_scale x)"
    have d: "0 < d" by (simp add: d_def)
    have v: "\<bar>f64_val x\<bar> = of_int (f64_mant x) / of_int d"
      using False by (simp add: f64_val_abs power_int_def d_def field_simps)
    have "f64_mant x = f64_mant x div d * d + f64_mant x mod d" by simp
    then have "real_of_int (f64_mant x) = of_int (f64_mant x div d) * of_int d + of_int (f64_mant x mod d)"
      by (metis of_int_add of_int_mult)
    then have "\<bar>f64_val x\<bar> = of_int (f64_mant x div d) + of_int (f64_mant x mod d) / of_int d"
      unfolding v using d by (simp add: add_divide_distrib)
    moreover have "0 \<le> real_of_int (f64_mant x mod d) / of_int d" "real_of_int (f64_mant x mod d) / of_int d < 1"
      using d by simp_all
    ultimately have "real_of_int (f64_mant x div d) \<le> \<bar>f64_val x\<bar>" "\<bar>f64_val x\<bar> < real_of_int (f64_mant x div d) + 1"
      by linarith+
    moreover have "f64_floor_mag x = f64_mant x div d" using False by (simp add: f64_floor_mag_def d_def)
    ultimately show ?thesis using m(1) d by (simp add: pos_imp_zdiv_nonneg_iff)
  qed
  then show "of_int (f64_floor_mag x) \<le> \<bar>f64_val x\<bar>" "\<bar>f64_val x\<bar> < of_int (f64_floor_mag x) + 1"
    "0 \<le> f64_floor_mag x" by blast+
qed

lemma representable_floor:
  assumes "f64_is_finite x"
  shows "representable (of_int (f64_floor_mag x))"
proof (cases "0 \<le> f64_scale x")
  case True
  then have "of_int (f64_floor_mag x) = \<bar>f64_val x\<bar>"
    by (simp add: f64_val_abs f64_floor_mag_def power_int_def)
  with representable_val [OF assms] representable_minus [of "f64_val x"] show ?thesis
    by (auto simp: abs_if split: if_splits)
next
  case False
  have "f64_floor_mag x \<le> f64_mant x"
  proof -
    have "f64_mant x div 2 ^ nat (- f64_scale x) \<le> f64_mant x div 1"
      using f64_mant_bounds [of x] by (intro zdiv_mono2) auto
    then show ?thesis using False by (simp add: f64_floor_mag_def)
  qed
  with f64_mant_bounds [of x] f64_floor_mag_val(3) [of x] show ?thesis
    by (intro representable_int) simp
qed

lemma f64_trunc_val:
  assumes "f64_is_finite x"
  shows "f64_is_finite (f64_trunc x)"
    and "f64_val (f64_trunc x) = (if f64_neg_sign x then - 1 else 1) * of_int (f64_floor_mag x)"
  using f64_of_ratio_exact [of "f64_floor_mag x" 1 "f64_neg_sign x"] representable_floor [OF assms]
    f64_floor_mag_val(3) assms
  by (simp_all add: f64_trunc_def f64_with_mag_def)


lemma f64_fract_val:
  assumes "f64_is_finite x"
  shows "f64_val (f64_fract x) = f64_val x - f64_val (f64_trunc x)"
proof -
  let ?j = "nat (- f64_scale x)" and ?t = "f64_val (f64_trunc x)"
  have "representable (f64_val x - ?t)"
  proof (cases "0 \<le> f64_scale x")
    case True
    then have "of_int (f64_floor_mag x) = \<bar>f64_val x\<bar>"
      by (simp add: f64_val_abs f64_floor_mag_def power_int_def)
    then have "?t = f64_val x"
      using f64_val_sign [of x] f64_trunc_val(2) [OF assms] by (auto simp: abs_if split: if_splits)
    then show ?thesis using representable_int [of 0] by simp
  next
    case False
    have fl: "f64_floor_mag x = f64_mant x div 2 ^ ?j" using False by (simp add: f64_floor_mag_def)
    have "f64_mant x = f64_mant x div 2 ^ ?j * 2 ^ ?j + f64_mant x mod 2 ^ ?j"
      by (rule div_mult_mod_eq [symmetric])
    then have m: "real_of_int (f64_mant x) = of_int (f64_floor_mag x) * 2 ^ ?j + of_int (f64_mant x mod 2 ^ ?j)"
      unfolding fl by (metis of_int_add of_int_mult of_int_numeral of_int_power)
    have p: "(2 :: real) ^ ?j * 2 powi f64_scale x = 1"
      using False by (simp add: power_int_def power_one_over)
    have "\<bar>f64_val x\<bar> = of_int (f64_floor_mag x) * (2 ^ ?j * 2 powi f64_scale x)
        + of_int (f64_mant x mod 2 ^ ?j) * 2 powi f64_scale x"
      unfolding f64_val_abs m by (simp add: algebra_simps)
    then have r: "\<bar>f64_val x\<bar> - of_int (f64_floor_mag x) = of_int (f64_mant x mod 2 ^ ?j) * 2 powi f64_scale x"
      by (simp only: p)
    have "f64_mant x mod 2 ^ ?j \<le> f64_mant x" using f64_mant_bounds [of x] by (simp add: zmod_le_nonneg_dividend)
    then have q: "\<bar>f64_mant x mod 2 ^ ?j\<bar> < 2 ^ 53" using f64_mant_bounds [of x] by simp
    have "representable (\<bar>f64_val x\<bar> - of_int (f64_floor_mag x))"
      unfolding r representable_def using q f64_scale_ge [of x] f64_scale_le [OF assms] by blast
    moreover have "f64_val x - ?t = \<bar>f64_val x\<bar> - of_int (f64_floor_mag x)
        \<or> f64_val x - ?t = - (\<bar>f64_val x\<bar> - of_int (f64_floor_mag x))"
      using f64_val_sign [of x] f64_trunc_val(2) [OF assms] f64_floor_mag_val [of x]
      by (cases "f64_val x = 0") (auto simp: abs_if)
    ultimately show ?thesis using representable_minus by metis
  qed
  then show ?thesis
    using f64_sub_exact(2) [OF assms f64_trunc_val(1) [OF assms]] by (simp add: f64_fract_def)
qed

lemma f64_fract_zero:
  assumes "f64_is_finite x"
  shows "f64_is_zero (f64_fract x) \<longleftrightarrow> (\<exists>k. f64_val x = of_int k)"
proof
  assume "f64_is_zero (f64_fract x)"
  then have "f64_val x = f64_val (f64_trunc x)"
    using f64_fract_val [OF assms] f64_val_zero_iff [of "f64_fract x"] by (simp add: f64_is_zero_def)
  also have "\<dots> = of_int (if f64_neg_sign x then - f64_floor_mag x else f64_floor_mag x)"
    using f64_trunc_val(2) [OF assms] by simp
  finally show "\<exists>k. f64_val x = of_int k" ..
next
  assume "\<exists>k. f64_val x = of_int k"
  then show "f64_is_zero (f64_fract x)" using f64_fract_integral [OF assms] by blast
qed


lemma i64_limits_val:
  "f64_is_finite (f64_of_int i64_min)" "f64_val (f64_of_int i64_min) = - (2 ^ 63)"
  "f64_is_finite (f64_of_int i64_max)" "f64_val (f64_of_int i64_max) = 2 ^ 63"
proof -
  have c: "f64_of_int i64_min = f64_of_ratio True (2 ^ 63) 1" "f64_of_int i64_max = f64_of_ratio False (2 ^ 63) 1"
    by code_simp+
  have "representable (2 ^ 63)"
    unfolding representable_def by (intro exI [of _ 1] exI [of _ 63]) simp
  then have r: "representable (of_int (2 ^ 63) / of_int 1)" by simp
  show "f64_is_finite (f64_of_int i64_min)" "f64_val (f64_of_int i64_min) = - (2 ^ 63)"
    "f64_is_finite (f64_of_int i64_max)" "f64_val (f64_of_int i64_max) = 2 ^ 63"
    unfolding c using f64_of_ratio_exact [OF _ _ r] by simp_all
qed

lemma f64_le_val: "f64_is_finite x \<Longrightarrow> f64_is_finite y \<Longrightarrow> f64_le x y \<longleftrightarrow> f64_val x \<le> f64_val y"
  by (auto simp: f64_le_def f64_lt_def f64_eq_def f64_partial_cmp_val)

section \<open>Quotients\<close>

text \<open>A finite number that no number with a bit pattern is nearer to \<open>q\<close> than.\<close>

definition f64_nearest :: "f64 \<Rightarrow> real \<Rightarrow> bool" where
  "f64_nearest x q \<longleftrightarrow> f64_is_finite x \<and> (\<forall>r. representable r \<longrightarrow> \<bar>f64_val x - q\<bar> \<le> \<bar>r - q\<bar>)"

lemma nearest_int: "\<bar>of_int m - y\<bar> \<le> (1 / 2 :: real) \<Longrightarrow> \<bar>of_int m - y\<bar> \<le> \<bar>of_int k - y\<bar>"
proof (cases "k = m")
  case False
  assume a: "\<bar>of_int m - y\<bar> \<le> 1 / 2"
  have "1 \<le> \<bar>k - m\<bar>" using False by linarith
  then have "1 \<le> \<bar>of_int k - of_int m :: real\<bar>" by linarith
  with a show ?thesis by linarith
qed simp

lemma ratio_nearest:
  assumes "0 < n" and "0 < d" and "representable r"
  shows "\<bar>of_int (ratio_mant n d) * 2 powi ratio_exp n d - of_int n / of_int d\<bar> \<le> \<bar>r - of_int n / of_int d\<bar>"
proof -
  let ?m = "ratio_mant n d" and ?e = "ratio_exp n d" and ?x = "of_int n / of_int d :: real"
  define y where "y = ?x / 2 powi ?e"
  have x: "?x = y * 2 powi ?e" by (simp add: y_def)
  have scale: "\<bar>a * 2 powi ?e - ?x\<bar> = \<bar>a - y\<bar> * 2 powi ?e" for a
    unfolding x by (simp add: abs_mult flip: left_diff_distrib)
  have m: "\<bar>of_int ?m - y\<bar> \<le> 1 / 2"
    using ratio_mant_scaled [OF assms(2), of n] round_half_even_bounds(1) unfolding y_def by metis
  obtain q e' where q: "\<bar>q\<bar> < 2 ^ 53" "- 1074 \<le> e'" "r = of_int q * 2 powi e'"
    using assms(3) by (auto simp: representable_def)
  show ?thesis
  proof (cases "?e \<le> e'")
    case True
    define k where "k = q * 2 ^ nat (e' - ?e)"
    have "(2 :: real) powi e' = 2 ^ nat (e' - ?e) * 2 powi ?e"
      using True by (simp add: power_int_add [symmetric] flip: power_int_of_nat)
    then have r: "r = of_int k * 2 powi ?e" by (simp add: q(3) k_def)
    show ?thesis unfolding r scale using nearest_int [OF m, of k] by (simp add: mult_right_mono)
  next
    case False
    then have "?e \<noteq> - 1074" using q(2) by simp
    then have "log2_ratio n d = ?e + 52" by (auto simp: ratio_exp_def max_def split: if_splits)
    then have lo: "(2 :: real) powi (?e + 52) \<le> ?x" using log2_ratio_bounds(1) [OF assms(1,2)] by simp
    have "(of_int q :: real) < 2 ^ 53" using q(1) by (metis abs_less_iff of_int_less_iff of_int_numeral of_int_power)
    then have "r < 2 powi (53 + e')" by (simp add: q(3) power_int_add)
    also have "\<dots> \<le> 2 powi (?e + 52)" by (rule powi_mono) (use False in simp)
    finally have r: "r < of_int (2 ^ 52) * 2 powi ?e" by (simp add: power_int_add mult.commute)
    have "\<bar>of_int ?m * 2 powi ?e - ?x\<bar> \<le> \<bar>of_int (2 ^ 52) * 2 powi ?e - ?x\<bar>"
      unfolding scale using nearest_int [OF m, of "2 ^ 52"] by (intro mult_right_mono) simp_all
    also have "\<dots> \<le> \<bar>r - ?x\<bar>" using r lo by (simp add: power_int_add mult.commute)
    finally show ?thesis .
  qed
qed

lemma f64_of_ratio_nearest:
  assumes "0 \<le> n" and "0 < d" and "of_int n / of_int d \<le> (2 ^ 53 :: real)"
  shows "f64_nearest (f64_of_ratio neg n d) ((if neg then - 1 else 1) * (of_int n / of_int d))"
proof (cases "n = 0")
  case True
  have "representable (of_int 0 / of_int d)" using representable_int [of 0] by simp
  from f64_of_ratio_exact [OF _ assms(2) this, of neg] True show ?thesis by (simp add: f64_nearest_def)
next
  case False
  with assms(1) have n: "0 < n" by simp
  have "ratio_mant (2 ^ 53) 1 + (ratio_exp (2 ^ 53) 1 + 1074) * 2 ^ 52 < MAG_INF"
    by (rule f64_of_ratio_finite [of _ _ 1 53]) simp_all
  moreover have "ratio_mant n d + (ratio_exp n d + 1074) * 2 ^ 52
      \<le> ratio_mant (2 ^ 53) 1 + (ratio_exp (2 ^ 53) 1 + 1074) * 2 ^ 52"
    by (rule ratio_pack_mono) (use n assms in simp_all)
  ultimately have "ratio_mant n d + (ratio_exp n d + 1074) * 2 ^ 52 < MAG_INF" by linarith
  from f64_pack_val [OF ratio_pack_ok [OF n assms(2)] this, of neg] have v: "f64_is_finite (f64_of_ratio neg n d)"
    "f64_val (f64_of_ratio neg n d) = (if neg then - 1 else 1) * (of_int (ratio_mant n d) * 2 powi ratio_exp n d)"
    using False by (simp_all add: f64_of_ratio_pack mult.assoc)
  have "\<bar>f64_val (f64_of_ratio neg n d) - (if neg then - 1 else 1) * (of_int n / of_int d)\<bar>
      \<le> \<bar>r - (if neg then - 1 else 1) * (of_int n / of_int d)\<bar>" if "representable r" for r
    using ratio_nearest [OF n assms(2) that] ratio_nearest [OF n assms(2), of "- r"] that
    unfolding v(2) representable_minus by (auto simp: abs_minus_commute)
  with v(1) show ?thesis by (simp add: f64_nearest_def)
qed

text \<open>Division rounds to the nearest number.\<close>

lemma f64_div_nearest:
  assumes "f64_is_finite x" and "f64_is_finite y" and "f64_val y \<noteq> 0" and "\<bar>f64_val x / f64_val y\<bar> \<le> 2 ^ 53"
  shows "f64_nearest (f64_div x y) (f64_val x / f64_val y)"
proof -
  let ?neg = "f64_neg_sign x \<noteq> f64_neg_sign y" and ?e = "f64_scale x - f64_scale y"
  have "f64_mant y \<noteq> 0"
  proof
    assume "f64_mant y = 0"
    then have "f64_val y = 0" by (simp add: f64_val_def f64_smant_def)
    with assms(3) show False by simp
  qed
  then have y: "0 < f64_mant y" using f64_mant_bounds(1) [of y] by linarith
  define n d where "n = (if 0 \<le> ?e then f64_mant x * 2 ^ nat ?e else f64_mant x)"
    and "d = (if 0 \<le> ?e then f64_mant y else f64_mant y * 2 ^ nat (- ?e))"
  have nd: "0 \<le> n" "0 < d" using y f64_mant_bounds(1) [of x] by (simp_all add: n_def d_def)
  have div: "f64_div x y = f64_of_ratio ?neg n d"
    using assms(1-3) f64_finite_not_nan by (simp add: f64_div_def Let_def n_def d_def f64_is_zero_def f64_val_zero_iff)
  have "of_int n / of_int d = (of_int (f64_mant x) / of_int (f64_mant y)) * (2 :: real) powi ?e"
    by (simp add: n_def d_def power_int_def field_simps)
  then have v: "(if ?neg then - 1 else 1) * (of_int n / of_int d) = f64_val x / f64_val y"
    using y by (simp add: f64_val_def f64_smant_def power_int_diff)
  have "\<bar>of_int n / of_int d :: real\<bar> \<le> 2 ^ 53" using assms(4) unfolding v [symmetric] by (simp split: if_splits)
  then have "of_int n / of_int d \<le> (2 ^ 53 :: real)" by (rule order.trans [OF abs_ge_self])
  from f64_of_ratio_nearest [OF nd this, of ?neg] show ?thesis unfolding div v .
qed

end
