(* ===== verification/SqlValue.thy ===== *)
theory SqlValue
  imports F64Facts "HOL-Library.Product_Lexorder"
begin

text \<open>
  SQL values, \<open>squrust-sql/src/types.rs\<close>: the dynamic types, truth, the numeric views, column
  affinity, the text rendering of reals, comparison and the ordering of \<open>ORDER BY\<close>. A JSON
  document (the crate \<open>serde_json\<close>) is a type parameter; its printer and parser, and
  the Unicode case tables and the mathematical library of the platform, are fields of a
  record the definitions take as an argument.
\<close>

section \<open>Errors and the platform\<close>

datatype sql_error =
  ParseError string | SchemaError string | TypeError string | ConstraintError string
  | StorageFailure storage_error | NotFoundError string | AmbiguousError string
  | UnsupportedError string

type_synonym 'a qres = "('a, sql_error) outcome"

record 'j platform =
  pf_json_string :: "'j \<Rightarrow> string"
  pf_json_parse :: "string \<Rightarrow> string + 'j"
  pf_json_of_string :: "string \<Rightarrow> 'j"
  pf_lowercase :: "string \<Rightarrow> string"
  pf_uppercase :: "string \<Rightarrow> string"
  pf_math1 :: "string \<Rightarrow> f64 \<Rightarrow> f64"
  pf_math2 :: "string \<Rightarrow> f64 \<Rightarrow> f64 \<Rightarrow> f64"

text \<open>\<open>to_lowercase\<close> and \<open>to_uppercase\<close>; only text that is not ASCII needs the tables.\<close>

definition to_lowercase :: "'j platform \<Rightarrow> string \<Rightarrow> string" where
  "to_lowercase pf s = (if is_ascii s then to_ascii_lowercase s else pf_lowercase pf s)"

definition to_uppercase :: "'j platform \<Rightarrow> string \<Rightarrow> string" where
  "to_uppercase pf s = (if is_ascii s then to_ascii_uppercase s else pf_uppercase pf s)"

section \<open>Types and values\<close>

datatype sql_type = TyNull | TyInteger | TyReal | TyText | TyBlob | TyBoolean | TyJson

definition affinity_from_decl :: "string \<Rightarrow> sql_type" where
  "affinity_from_decl decl =
     (let d = to_ascii_uppercase decl in
      if str_contains d ''INT'' then TyInteger
      else if str_contains d ''CHAR'' \<or> str_contains d ''CLOB'' \<or> str_contains d ''TEXT'' then TyText
      else if str_contains d ''BLOB'' \<or> d = [] then TyBlob
      else if str_contains d ''REAL'' \<or> str_contains d ''FLOA'' \<or> str_contains d ''DOUB'' then TyReal
      else if str_contains d ''BOOL'' then TyBoolean
      else if str_contains d ''JSON'' then TyJson
      else TyInteger)"

datatype 'j sql_value =
  VNull | VInteger i64 | VReal f64 | VText string | VBlob bytes | VBoolean bool | VJson 'j

fun sql_type_of :: "'j sql_value \<Rightarrow> sql_type" where
  "sql_type_of VNull = TyNull"
| "sql_type_of (VInteger _) = TyInteger"
| "sql_type_of (VReal _) = TyReal"
| "sql_type_of (VText _) = TyText"
| "sql_type_of (VBlob _) = TyBlob"
| "sql_type_of (VBoolean _) = TyBoolean"
| "sql_type_of (VJson _) = TyJson"

fun is_null :: "'j sql_value \<Rightarrow> bool" where
  "is_null VNull = True"
| "is_null _ = False"

text \<open>\<open>r != 0.0\<close> holds of a NaN.\<close>

definition f64_nonzero :: "f64 \<Rightarrow> bool" where
  "f64_nonzero r \<longleftrightarrow> \<not> f64_eq r (f64_zero False)"

fun is_truthy :: "'j sql_value \<Rightarrow> bool" where
  "is_truthy VNull = False"
| "is_truthy (VBoolean b) = b"
| "is_truthy (VInteger i) = (int_of_i64 i \<noteq> 0)"
| "is_truthy (VReal r) = f64_nonzero r"
| "is_truthy (VText t) = (t \<noteq> [] \<and> (case parse_f64 t of Some n \<Rightarrow> f64_nonzero n | None \<Rightarrow> False))"
| "is_truthy (VBlob b) = (b \<noteq> [])"
| "is_truthy (VJson _) = True"

definition f64_of_bool :: "bool \<Rightarrow> f64" where
  "f64_of_bool b = f64_of_int (of_bool b)"

fun as_f64 :: "'j sql_value \<Rightarrow> f64 option" where
  "as_f64 (VInteger i) = Some (f64_of_i64 i)"
| "as_f64 (VReal r) = Some r"
| "as_f64 (VBoolean b) = Some (f64_of_bool b)"
| "as_f64 (VText t) = parse_f64 t"
| "as_f64 _ = None"

fun as_i64 :: "'j sql_value \<Rightarrow> i64 option" where
  "as_i64 (VInteger i) = Some i"
| "as_i64 (VReal r) = Some (f64_to_i64 r)"
| "as_i64 (VBoolean b) = Some (i64_of_int (of_bool b))"
| "as_i64 (VText t) = parse_i64 t"
| "as_i64 _ = None"

section \<open>Rendering\<close>

definition format_real_exp :: "string \<Rightarrow> int \<Rightarrow> string" where
  "format_real_exp digits e =
     (let first = take 1 digits; rest = drop 1 digits;
          frac = (if rest = [] then ''0'' else rest); a = show_nat \<bar>e\<bar>
      in first @ ''.'' @ frac @ ''e'' @ (if e < 0 then ''-'' else ''+'')
         @ (if length a < 2 then ''0'' else []) @ a)"

definition format_real_fixed :: "string \<Rightarrow> int \<Rightarrow> string" where
  "format_real_fixed digits e =
     (let ndigits = int (length digits) in
      if 0 \<le> e then
        let int_len = e + 1 in
        if ndigits \<le> int_len then digits @ replicate (nat (int_len - ndigits)) CHR ''0'' @ ''.0''
        else take (nat int_len) digits @ ''.'' @ drop (nat int_len) digits
      else ''0.'' @ replicate (nat (- e - 1)) CHR ''0'' @ digits)"

definition format_real :: "f64 \<Rightarrow> string" where
  "format_real r =
     (if f64_is_zero r then ''0.0''
      else if \<not> f64_is_finite r then
        (if f64_is_nan r then [] else if f64_neg_sign r then ''-Inf'' else ''Inf'')
      else
        let (digits, e) = f64_shortest (f64_abs r);
            body = (if e < - 4 \<or> 16 < e then format_real_exp digits e else format_real_fixed digits e)
        in if f64_neg_sign r then ''-'' @ body else body)"

fun to_display_string :: "'j platform \<Rightarrow> 'j sql_value \<Rightarrow> string" where
  "to_display_string pf VNull = []"
| "to_display_string pf (VInteger i) = show_i64 i"
| "to_display_string pf (VReal r) = format_real r"
| "to_display_string pf (VText t) = t"
| "to_display_string pf (VBoolean b) = (if b then ''1'' else ''0'')"
| "to_display_string pf (VBlob b) = from_utf8_lossy b"
| "to_display_string pf (VJson j) = pf_json_string pf j"

section \<open>Affinity\<close>

text \<open>\<open>i64::MIN as f64 ..= i64::MAX as f64\<close>: the upper end rounds to \<open>2 ^ 63\<close>.\<close>

definition in_i64_range :: "f64 \<Rightarrow> bool" where
  "in_i64_range r \<longleftrightarrow> f64_le (f64_of_int i64_min) r \<and> f64_le r (f64_of_int i64_max)"

definition real_to_value :: "bool \<Rightarrow> f64 \<Rightarrow> 'j sql_value" where
  "real_to_value integer_pref r =
     (if integer_pref \<and> f64_is_finite r \<and> f64_is_zero (f64_fract r) \<and> in_i64_range r
      then VInteger (f64_to_i64 r) else VReal r)"

definition as_int_if :: "bool \<Rightarrow> i64 \<Rightarrow> 'j sql_value" where
  "as_int_if integer_pref i = (if integer_pref then VInteger i else VReal (f64_of_i64 i))"

fun apply_numeric :: "'j sql_value \<Rightarrow> bool \<Rightarrow> 'j sql_value" where
  "apply_numeric (VInteger i) p = as_int_if p i"
| "apply_numeric (VBoolean b) p = as_int_if p (i64_of_int (of_bool b))"
| "apply_numeric (VReal r) p = real_to_value p r"
| "apply_numeric (VText t) p =
     (let s = trim t in
      case parse_i64 s of
        Some i \<Rightarrow> as_int_if p i
      | None \<Rightarrow> (case parse_f64 s of Some r \<Rightarrow> real_to_value p r | None \<Rightarrow> VText t))"
| "apply_numeric v p = v"

fun to_text :: "'j platform \<Rightarrow> 'j sql_value \<Rightarrow> 'j sql_value" where
  "to_text pf (VText t) = VText t"
| "to_text pf (VBlob b) = VBlob b"
| "to_text pf v = VText (to_display_string pf v)"

fun to_json :: "'j platform \<Rightarrow> 'j sql_value \<Rightarrow> 'j sql_value qres" where
  "to_json pf (VJson j) = Ok (VJson j)"
| "to_json pf (VText t) =
     (case pf_json_parse pf t of
        Inr j \<Rightarrow> Ok (VJson j)
      | Inl e \<Rightarrow> Err (TypeError (''invalid JSON: '' @ e)))"
| "to_json pf v = Ok (VJson (pf_json_of_string pf (to_display_string pf v)))"

definition coerce_to :: "'j platform \<Rightarrow> 'j sql_value \<Rightarrow> sql_type \<Rightarrow> 'j sql_value qres" where
  "coerce_to pf v target =
     (if is_null v then Ok VNull
      else case target of
        TyBlob \<Rightarrow> Ok v
      | TyNull \<Rightarrow> Ok v
      | TyInteger \<Rightarrow> Ok (apply_numeric v True)
      | TyReal \<Rightarrow> Ok (apply_numeric v False)
      | TyBoolean \<Rightarrow> Ok (VBoolean (is_truthy v))
      | TyText \<Rightarrow> Ok (to_text pf v)
      | TyJson \<Rightarrow> to_json pf v)"

section \<open>Comparison\<close>

fun numeric_only :: "'j sql_value \<Rightarrow> f64 option" where
  "numeric_only (VInteger i) = Some (f64_of_i64 i)"
| "numeric_only (VReal r) = Some r"
| "numeric_only (VBoolean b) = Some (f64_of_bool b)"
| "numeric_only _ = None"

fun class_rank :: "'j sql_value \<Rightarrow> nat" where
  "class_rank VNull = 0"
| "class_rank (VInteger _) = 1"
| "class_rank (VReal _) = 1"
| "class_rank (VBoolean _) = 1"
| "class_rank (VText _) = 2"
| "class_rank (VJson _) = 2"
| "class_rank (VBlob _) = 3"

fun compare_class :: "'j sql_value \<Rightarrow> 'j sql_value \<Rightarrow> ordering" where
  "compare_class (VText a) (VText b) = ord_of a b"
| "compare_class (VBlob a) (VBlob b) = ord_of a b"
| "compare_class a b = ord_of (class_rank a) (class_rank b)"

definition value_compare :: "'j sql_value \<Rightarrow> 'j sql_value \<Rightarrow> ordering option" where
  "value_compare v w =
     (if is_null v \<and> is_null w then Some Equal
      else if is_null v \<or> is_null w then None
      else case (numeric_only v, numeric_only w) of
        (Some a, Some b) \<Rightarrow> f64_partial_cmp a b
      | _ \<Rightarrow> Some (compare_class v w))"

text \<open>The \<open>==\<close> of values.\<close>

definition value_eq :: "'j sql_value \<Rightarrow> 'j sql_value \<Rightarrow> bool" where
  "value_eq v w \<longleftrightarrow> value_compare v w = Some Equal"

definition order_key :: "'j sql_value \<Rightarrow> 'j sql_value \<Rightarrow> ordering" where
  "order_key v w =
     (if is_null v \<and> is_null w then Equal
      else if is_null v then Less
      else if is_null w then Greater
      else case value_compare v w of Some ord \<Rightarrow> ord | None \<Rightarrow> Equal)"

section \<open>The ordering is a total preorder\<close>

text \<open>Values other than NaN and JSON are ordered by a key: the class, then the content.\<close>

fun orderable :: "'j sql_value \<Rightarrow> bool" where
  "orderable (VReal r) = (\<not> f64_is_nan r)"
| "orderable (VJson _) = False"
| "orderable _ = True"

fun value_key :: "'j sql_value \<Rightarrow> nat \<times> int \<times> string \<times> bytes" where
  "value_key VNull = (0, 0, [], [])"
| "value_key (VInteger i) = (1, f64_key (f64_of_i64 i), [], [])"
| "value_key (VReal r) = (1, f64_key r, [], [])"
| "value_key (VBoolean b) = (1, f64_key (f64_of_bool b), [], [])"
| "value_key (VText t) = (2, 0, t, [])"
| "value_key (VBlob b) = (3, 0, [], b)"
| "value_key (VJson _) = (2, 0, [], [])"

lemma ord_of_pair: "ord_of (a, b) (c, d) = (if a = c then ord_of b d else ord_of a c)"
  by (auto simp: ord_of_def)

lemma f64_not_nan [simp]: "\<not> f64_is_nan (f64_of_i64 i)" "\<not> f64_is_nan (f64_of_bool b)"
  by (simp_all add: f64_of_i64_def f64_of_bool_def f64_of_int_not_nan)

lemma value_compare_key:
  assumes "orderable v" and "orderable w" and "\<not> is_null v" and "\<not> is_null w"
  shows "value_compare v w = Some (ord_of (value_key v) (value_key w))"
  using assms
  by (cases v; cases w) (simp_all add: value_compare_def f64_partial_cmp_def ord_of_pair ord_of_def)

lemma order_key_key:
  assumes "orderable v" and "orderable w"
  shows "order_key v w = ord_of (value_key v) (value_key w)"
proof (cases "is_null v \<or> is_null w")
  case True
  then show ?thesis
    by (cases v; cases w) (simp_all add: order_key_def ord_of_pair ord_of_def)
next
  case False
  with value_compare_key [OF assms] show ?thesis by (simp add: order_key_def)
qed

lemma value_eq_key:
  assumes "orderable v" and "orderable w" 
  shows "value_eq v w \<longleftrightarrow> value_key v = value_key w"
proof (cases "is_null v \<or> is_null w")
  case True
  then show ?thesis by (cases v; cases w) (simp_all add: value_eq_def value_compare_def)
next
  case False
  with value_compare_key [OF assms] show ?thesis by (simp add: value_eq_def)
qed

text \<open>
  C31. \<open>order_key\<close> sorts values by a total preorder as long as no NaN and no JSON document is
  among them: every value equals itself, swapping the arguments reverses the answer, and
  "not greater" is transitive.
\<close>

theorem order_key_total_preorder:
  assumes "orderable u" and "orderable v" and "orderable w"
  shows "order_key u u = Equal \<and> order_key v u = ord_reverse (order_key u v)
    \<and> (order_key u v \<noteq> Greater \<and> order_key v w \<noteq> Greater \<longrightarrow> order_key u w \<noteq> Greater)"
  using assms by (auto simp: order_key_key)

theorem order_key_total_preorder_witness:
  "order_key (VText ''a'') (VReal (f64_dec 15 1) :: unit sql_value) = Greater
    \<and> order_key (VNull :: unit sql_value) (VText ''a'') \<noteq> Greater"
proof -
  have "orderable (VReal (f64_dec 15 1) :: unit sql_value)" by code_simp
  moreover have "order_key (VReal (f64_dec 15 1) :: unit sql_value) (VText ''a'') = Less"
    "order_key (VNull :: unit sql_value) (VReal (f64_dec 15 1)) = Less" by code_simp+
  ultimately show ?thesis
    using order_key_total_preorder [of "VReal (f64_dec 15 1) :: unit sql_value" "VText ''a''" VNull]
      order_key_total_preorder [of "VNull :: unit sql_value" "VReal (f64_dec 15 1)" "VText ''a''"] by simp
qed

text \<open>
  The ordering is not transitive once JSON documents or NaNs take part: a JSON document
  equals every text, and a NaN equals every number.
\<close>

theorem order_key_intransitive:
  "order_key (VText ''b'') (VJson j) = Equal \<and> order_key (VJson j) (VText ''a'') = Equal
    \<and> order_key (VText ''b'') (VText ''a'' :: 'j sql_value) = Greater
    \<and> order_key (VInteger (i64_of_int 2)) (VReal f64_nan) = Equal
    \<and> order_key (VReal f64_nan) (VInteger (i64_of_int 1)) = Equal
    \<and> order_key (VInteger (i64_of_int 2)) (VInteger (i64_of_int 1) :: 'j sql_value) = Greater"
proof -
  have "f64_is_nan f64_nan" by code_simp
  moreover have "value_compare (VInteger (i64_of_int 2)) (VInteger (i64_of_int 1) :: 'j sql_value) = Some Greater"
  proof -
    have "ord_of (f64_key (f64_of_i64 (i64_of_int 2))) (f64_key (f64_of_i64 (i64_of_int 1))) = Greater"
      by code_simp
    then show ?thesis by (subst value_compare_key) (simp_all add: ord_of_pair)
  qed
  moreover have "ord_of ''b'' ''a'' = Greater" by code_simp
  ultimately show ?thesis
    by (simp add: order_key_def value_compare_def f64_partial_cmp_def ord_of_def)
qed

section \<open>Integers are compared as reals\<close>

lemma compare_integers_key:
  "value_compare (VInteger a) (VInteger b) =
     Some (ord_of (f64_key (f64_of_i64 a)) (f64_key (f64_of_i64 b)))"
  by (subst value_compare_key) (simp_all add: ord_of_pair)

text \<open>
  Integers are compared after conversion to \<open>f64\<close>. Up to \<open>2 ^ 53\<close> in magnitude the answer
  is that of the integer order; beyond it the order is never reversed, but two different
  integers may compare equal.
\<close>

theorem compare_integers:
  assumes "int_of_i64 a < int_of_i64 b"
  shows "value_compare (VInteger a) (VInteger b :: 'j sql_value) \<in> {Some Less, Some Equal}
    \<and> (\<bar>int_of_i64 a\<bar> \<le> 2 ^ 53 \<and> \<bar>int_of_i64 b\<bar> \<le> 2 ^ 53 \<longrightarrow>
        value_compare (VInteger a) (VInteger b :: 'j sql_value) = Some Less)"
proof -
  have "f64_key (f64_of_i64 a) \<le> f64_key (f64_of_i64 b)"
    using f64_key_of_int_mono assms by (simp add: f64_of_i64_def)
  moreover have "f64_key (f64_of_i64 a) < f64_key (f64_of_i64 b)"
    if "\<bar>int_of_i64 a\<bar> \<le> 2 ^ 53" "\<bar>int_of_i64 b\<bar> \<le> 2 ^ 53"
    using f64_of_int_exact(2) [OF that(1)] f64_of_int_exact(2) [OF that(2)] assms
    by (simp add: f64_key_less_iff f64_of_i64_def)
  ultimately show ?thesis by (auto simp: compare_integers_key ord_of_def)
qed

theorem compare_integers_witness:
  "value_compare (VInteger (i64_of_int (- 5))) (VInteger (i64_of_int 7) :: unit sql_value) = Some Less"
  using compare_integers [of "i64_of_int (- 5)" "i64_of_int 7", where 'j = unit]
  by (simp add: int_of_i64_of_int i64_min_def i64_max_def)

text \<open>
  Two distinct integers that the code considers equal, in \<open>=\<close>, in \<open>IN\<close>, in \<open>DISTINCT\<close>, in
  a \<open>UNIQUE\<close> check and as grouping keys.
\<close>

theorem distinct_integers_equal:
  "i64_of_int (2 ^ 53) \<noteq> i64_of_int (2 ^ 53 + 1)
    \<and> value_eq (VInteger (i64_of_int (2 ^ 53))) (VInteger (i64_of_int (2 ^ 53 + 1)) :: 'j sql_value)"
proof -
  have "int_of_i64 (i64_of_int (2 ^ 53)) \<noteq> int_of_i64 (i64_of_int (2 ^ 53 + 1))"
    by (simp add: int_of_i64_of_int i64_min_def i64_max_def)
  moreover have "f64_of_i64 (i64_of_int (2 ^ 53)) = f64_of_i64 (i64_of_int (2 ^ 53 + 1))"
    by code_simp
  ultimately show ?thesis by (auto simp: value_eq_def compare_integers_key)
qed

section \<open>Affinity\<close>

lemma apply_numeric_idem: "apply_numeric (apply_numeric v p) p = apply_numeric v p"
  by (cases v) (auto simp: as_int_if_def real_to_value_def Let_def split: option.splits)

fun storage_ok :: "sql_type \<Rightarrow> 'j sql_value \<Rightarrow> bool" where
  "storage_ok TyInteger v = (case v of VBoolean _ \<Rightarrow> False | _ \<Rightarrow> True)"
| "storage_ok TyReal v = (case v of VBoolean _ \<Rightarrow> False | VInteger _ \<Rightarrow> False | _ \<Rightarrow> True)"
| "storage_ok TyText v = (case v of VNull \<Rightarrow> True | VText _ \<Rightarrow> True | VBlob _ \<Rightarrow> True | _ \<Rightarrow> False)"
| "storage_ok TyBoolean v = (case v of VNull \<Rightarrow> True | VBoolean _ \<Rightarrow> True | _ \<Rightarrow> False)"
| "storage_ok TyJson v = (case v of VNull \<Rightarrow> True | VJson _ \<Rightarrow> True | _ \<Rightarrow> False)"
| "storage_ok _ v = True"

lemma apply_numeric_storage:
  "storage_ok TyInteger (apply_numeric v True)" "storage_ok TyReal (apply_numeric v False)"
  by (cases v; auto simp: as_int_if_def real_to_value_def Let_def split: option.splits)+

lemma is_null_iff: "is_null v \<longleftrightarrow> v = VNull"
  by (cases v) simp_all

lemma is_null_apply_numeric: "is_null (apply_numeric v p) \<longleftrightarrow> is_null v"
  by (cases v) (auto simp: as_int_if_def real_to_value_def Let_def split: option.splits)

text \<open>
  C32. Column affinity gives every stored value a storage class its column allows, never turns
  a value into NULL or NULL into a value, and changes nothing when it is applied again (as
  an \<open>UPDATE\<close> that copies a column does).
\<close>

theorem coerce_idempotent:
  assumes "coerce_to pf v t = Ok v'"
  shows "coerce_to pf v' t = Ok v' \<and> storage_ok t v' \<and> (is_null v' \<longleftrightarrow> is_null v)"
proof (cases "is_null v")
  case True
  with assms have "v' = VNull" by (simp add: coerce_to_def)
  with True show ?thesis by (cases t) (auto simp: coerce_to_def)
next
  case False
  show ?thesis
  proof (cases t)
    case TyInteger
    with assms False show ?thesis
      using apply_numeric_storage [of v]
      by (auto simp: coerce_to_def apply_numeric_idem is_null_apply_numeric)
  next
    case TyReal
    with assms False show ?thesis
      using apply_numeric_storage [of v]
      by (auto simp: coerce_to_def apply_numeric_idem is_null_apply_numeric)
  next
    case TyJson
    with assms False show ?thesis
      by (cases v) (auto simp: coerce_to_def split: sum.splits)
  next
    case TyText
    with assms False show ?thesis by (cases v) (auto simp: coerce_to_def)
  qed (use assms False in \<open>auto simp: coerce_to_def\<close>)
qed

definition test_platform :: "unit platform" where
  "test_platform = \<lparr>pf_json_string = (\<lambda>_. ''null''), pf_json_parse = (\<lambda>_. Inl ''error''),
     pf_json_of_string = (\<lambda>_. ()), pf_lowercase = (\<lambda>s. s), pf_uppercase = (\<lambda>s. s),
     pf_math1 = (\<lambda>_ x. x), pf_math2 = (\<lambda>_ x _. x)\<rparr>"

text \<open>
  INTEGER affinity and reals: a real that is stored as an integer has exactly that
  integer as its value, with one exception, the real \<open>2 ^ 63\<close>, which the range test lets
  through and the cast saturates to \<open>2 ^ 63 - 1\<close>; a real that has a fraction or is out of
  the range stays the real it is.
\<close>

theorem integer_affinity_of_real:
  assumes "f64_is_finite r" and "coerce_to pf (VReal r) TyInteger = Ok v"
  shows "(\<exists>i. v = VInteger i \<and> f64_val r = of_int (int_of_i64 i))
    \<or> (v = VInteger (i64_of_int i64_max) \<and> f64_val r = 2 ^ 63)
    \<or> (v = VReal r \<and> ((\<nexists>k. f64_val r = of_int k) \<or> f64_val r < - (2 ^ 63) \<or> 2 ^ 63 < f64_val r))"
proof (cases "f64_is_zero (f64_fract r) \<and> in_i64_range r")
  case False
  with assms have "v = VReal r" by (auto simp: coerce_to_def real_to_value_def)
  moreover have "(\<nexists>k. f64_val r = of_int k) \<or> f64_val r < - (2 ^ 63) \<or> 2 ^ 63 < f64_val r"
    using False f64_fract_zero [OF assms(1)]
    by (auto simp: in_i64_range_def f64_le_val assms(1) i64_limits_val)
  ultimately show ?thesis by blast
next
  case True
  with assms have v: "v = VInteger (f64_to_i64 r)" by (auto simp: coerce_to_def real_to_value_def)
  obtain k where k: "f64_val r = of_int k" using True f64_fract_zero [OF assms(1)] by blast
  have "- (2 ^ 63) \<le> f64_val r" "f64_val r \<le> 2 ^ 63"
    using True by (auto simp: in_i64_range_def f64_le_val assms(1) i64_limits_val)
  then have lo: "i64_min \<le> k" and hi: "k \<le> 2 ^ 63"
    unfolding k by (simp_all add: i64_min_def)
  show ?thesis
  proof (cases "k = 2 ^ 63")
    case True
    then have "f64_to_i64 r = i64_of_int i64_max"
      using f64_to_int_integral [OF assms(1) k] lo by (simp add: f64_to_i64_def i64_max_def i64_min_def)
    with v k True show ?thesis by simp
  next
    case False
    then have "k \<le> i64_max" using hi by (simp add: i64_max_def)
    with v k f64_to_i64_integral [OF assms(1) k lo] int_of_i64_of_int [OF lo] show ?thesis by auto
  qed
qed

theorem integer_affinity_of_real_witness:
  "coerce_to test_platform (VReal (f64_dec 9223372036854775808 0)) TyInteger = Ok (VInteger (i64_of_int i64_max))
    \<and> f64_val (f64_dec 9223372036854775808 0) = 2 ^ 63"
proof -
  let ?r = "f64_dec 9223372036854775808 0"
  have c: "coerce_to test_platform (VReal ?r) TyInteger = Ok (VInteger (i64_of_int i64_max))" by code_simp
  have f: "f64_is_finite ?r" by code_simp
  have "?r = f64_of_int i64_max" by code_simp
  then have "f64_val ?r = 2 ^ 63" by (simp add: i64_limits_val)
  moreover have "of_int (int_of_i64 i) \<noteq> (2 ^ 63 :: real)" for i
  proof
    assume "of_int (int_of_i64 i) = (2 ^ 63 :: real)"
    then have "int_of_i64 i = 2 ^ 63" by (metis of_int_eq_iff of_int_numeral of_int_power)
    then show False using int_of_i64_bounds [of i] by (simp add: i64_max_def)
  qed
  ultimately show ?thesis using integer_affinity_of_real [OF f c] c by auto
qed

lemma trim_ascii:
  assumes "list_all (\<lambda>c. 32 < (of_char c :: nat) \<and> (of_char c :: nat) < 128) s"
  shows "trim s = s"
proof -
  have a: "is_ascii s" using assms by (auto simp: is_ascii_def list_all_iff)
  have sp: "\<forall>c\<in>set (map of_char s). \<not> is_space c"
    using assms by (auto simp: list_all_iff is_space_def)
  have dw: "dropWhile is_space xs = xs" if "\<forall>c\<in>set xs. \<not> is_space c" for xs
    using that by (cases xs) auto
  have "dropWhile is_space (map of_char s) = map of_char s"
    "dropWhile is_space (rev (map of_char s)) = rev (map of_char s)"
    using dw [of "map of_char s"] dw [of "rev (map of_char s)"] sp by simp_all
  then show ?thesis using ascii_chars [OF a] ascii_of_chars [OF a]
    by (simp add: trim_def trim_start_def trim_start_matches_def trim_end_matches_def)
qed

theorem coerce_idempotent_witness:
  "coerce_to test_platform (VText ''42'') TyInteger = Ok (VInteger (i64_of_int 42))
    \<and> coerce_to test_platform (VInteger (i64_of_int 42)) TyInteger = Ok (VInteger (i64_of_int 42))"
proof -
  have "trim ''42'' = ''42''" by (rule trim_ascii) simp
  moreover have "parse_i64 ''42'' = Some (i64_of_int 42)" by code_simp
  ultimately have c: "coerce_to test_platform (VText ''42'') TyInteger = Ok (VInteger (i64_of_int 42))"
    by (simp add: coerce_to_def as_int_if_def)
  with coerce_idempotent [OF c] show ?thesis by simp
qed

text \<open>
  An integer stored in a TEXT column and moved back to an INTEGER column is itself.
\<close>

theorem integer_text_roundtrip:
  "obind (coerce_to pf (VInteger i) TyText) (\<lambda>v. coerce_to pf v TyInteger) = Ok (VInteger i)"
proof -
  have "list_all (\<lambda>c. 32 < (of_char c :: nat) \<and> (of_char c :: nat) < 128) (show_i64 i)"
  proof -
    have "is_digit c \<Longrightarrow> 32 < (of_char c :: nat) \<and> (of_char c :: nat) < 128" for c
      by (auto simp: is_digit_def less_eq_char_def)
    moreover have "0 \<le> n \<Longrightarrow> c \<in> set (show_nat n) \<Longrightarrow> is_digit c" for n c
      using show_nat_digits [of n] by (auto simp: list_all_iff)
    ultimately have "0 \<le> n \<Longrightarrow> c \<in> set (show_nat n) \<Longrightarrow> 32 < (of_char c :: nat) \<and> (of_char c :: nat) < 128" for n c
      by blast
    from this [of "\<bar>int_of_i64 i\<bar>"] show ?thesis
      by (cases "int_of_i64 i < 0") (auto simp: show_i64_def show_int_def list_all_iff)
  qed
  from trim_ascii [OF this] show ?thesis by (simp add: coerce_to_def as_int_if_def)
qed

end
