(* ===== verification/RowCodec.thy ===== *)
theory RowCodec
  imports SqlValue Varint
begin

text \<open>
  Rows and the SQLite record format, \<open>squrust-sql/src/row.rs\<close>: the serial types, the encoder
  with its self-referential header length, and the decoder with its bounds checks. The
  lemmas show that a row decodes from its encoding, that the header-length loop ends, and
  that the decoder neither panics nor loops on any input.
\<close>

section \<open>The code\<close>

record 'j row =
  row_id :: i64
  row_values :: "'j sql_value list"

text \<open>The serial type, and the bytes pushed to the body.\<close>

definition encode_int :: "i64 \<Rightarrow> u64 \<times> bytes" where
  "encode_int i =
     (let k = int_of_i64 i; w = i64_bits i in
      if k = 0 then (8, [])
      else if k = 1 then (9, [])
      else if - 128 \<le> k \<and> k \<le> 127 then (1, [ucast w])
      else if - 32768 \<le> k \<and> k \<le> 32767 then (2, u16_be (ucast w))
      else if - (2 ^ 23) \<le> k \<and> k < 2 ^ 23 then (3, slice 5 3 (u64_be w))
      else if - (2 ^ 31) \<le> k \<and> k \<le> 2 ^ 31 - 1 then (4, u32_be (ucast w))
      else if - (2 ^ 47) \<le> k \<and> k < 2 ^ 47 then (5, slice 2 6 (u64_be w))
      else (6, u64_be w))"

definition len_serial :: "nat \<Rightarrow> u64 \<Rightarrow> u64" where
  "len_serial n base = word_of_nat n * 2 + base"

fun encode_value :: "'j platform \<Rightarrow> 'j sql_value \<Rightarrow> u64 \<times> bytes" where
  "encode_value pf VNull = (0, [])"
| "encode_value pf (VInteger i) = encode_int i"
| "encode_value pf (VBoolean b) = encode_int (i64_of_int (of_bool b))"
| "encode_value pf (VReal r) = (7, u64_be (f64_bits r))"
| "encode_value pf (VText s) = (len_serial (length s) 13, str_bytes s)"
| "encode_value pf (VJson j) =
     (let s = pf_json_string pf j in (len_serial (length s) 13, str_bytes s))"
| "encode_value pf (VBlob b) = (len_serial (length b) 12, b)"

text \<open>The loop that solves \<open>header_len = serial_bytes + varint_len header_len\<close>.\<close>

fun header_loop :: "nat \<Rightarrow> nat \<Rightarrow> nat \<Rightarrow> (nat, 'e) outcome" where
  "header_loop 0 serial_bytes header_len = Diverge"
| "header_loop (Suc fuel) serial_bytes header_len =
     (let candidate = serial_bytes + varint_len (word_of_nat header_len) in
      if candidate = header_len then Ok header_len else header_loop fuel serial_bytes candidate)"

definition HEADER_FUEL :: nat where "HEADER_FUEL = 10"

definition row_encode :: "'j platform \<Rightarrow> 'j row \<Rightarrow> (bytes, 'e) outcome" where
  "row_encode pf r =
     (let parts = map (encode_value pf) (row_values r);
          serials = map fst parts; body = concat (map snd parts);
          serial_bytes = sum_list (map varint_len serials)
      in obind (header_loop HEADER_FUEL serial_bytes (serial_bytes + 1)) (\<lambda>header_len.
         let out = fst (varint_write [] (word_of_nat header_len));
             out = fold (\<lambda>s out. fst (varint_write out s)) serials out
         in Ok (out @ body)))"

definition need :: "bytes \<Rightarrow> nat \<Rightarrow> unit qres" where
  "need data n = (if length data < n then Err (TypeError ''truncated record body'') else Ok ())"

definition read_int :: "bytes \<Rightarrow> nat \<Rightarrow> i64 qres" where
  "read_int data n =
     obind (need data n) (\<lambda>_.
     obind (index_at data 0) (\<lambda>b0.
     let v = (if b0 AND 0x80 \<noteq> 0 then - 1 else 0) in
     Ok (I64 (foldl (\<lambda>v b. push_bit 8 v OR ucast b) v (take n data)))))"

definition decode_value :: "u64 \<Rightarrow> bytes \<Rightarrow> ('j sql_value \<times> nat) qres" where
  "decode_value serial data =
     (if serial = 0 then Ok (VNull, 0)
      else if serial = 1 then omap (\<lambda>i. (VInteger i, 1)) (read_int data 1)
      else if serial = 2 then omap (\<lambda>i. (VInteger i, 2)) (read_int data 2)
      else if serial = 3 then omap (\<lambda>i. (VInteger i, 3)) (read_int data 3)
      else if serial = 4 then omap (\<lambda>i. (VInteger i, 4)) (read_int data 4)
      else if serial = 5 then omap (\<lambda>i. (VInteger i, 6)) (read_int data 6)
      else if serial = 6 then omap (\<lambda>i. (VInteger i, 8)) (read_int data 8)
      else if serial = 7 then
        (if length data < 8 then Err (TypeError ''truncated real'')
         else Ok (VReal (F64 (be_u64 (take 8 data))), 8))
      else if serial = 8 then Ok (VInteger (i64_of_int 0), 0)
      else if serial = 9 then Ok (VInteger (i64_of_int 1), 0)
      else if 12 \<le> serial \<and> serial mod 2 = 0 then
        let n = unat ((serial - 12) div 2) in
        obind (need data n) (\<lambda>_. Ok (VBlob (take n data), n))
      else if 13 \<le> serial then
        let n = unat ((serial - 13) div 2) in
        obind (need data n) (\<lambda>_.
        let s = bytes_str (take n data) in
        if utf8_valid s then Ok (VText s, n) else Err (TypeError ''invalid UTF-8 text''))
      else Err (TypeError (''reserved serial type '' @ show_nat (uint serial))))"

function decode_serials :: "bytes \<Rightarrow> nat \<Rightarrow> nat \<Rightarrow> u64 list qres" where
  "decode_serials data pos header_end =
     (if pos < header_end then
        obind (slice_from data pos) (\<lambda>rest.
        case varint_read rest of
          None \<Rightarrow> Err (TypeError ''bad serial type'')
        | Some (s, n) \<Rightarrow> omap (\<lambda>ss. s # ss) (decode_serials data (pos + n) header_end))
      else Ok [])"
  by pat_completeness auto
termination
  by (relation "measure (\<lambda>(data, pos, header_end). header_end - pos)")
    (use varint_read_consumed(1) in fastforce)+

declare decode_serials.simps [simp del]

fun decode_values :: "bytes \<Rightarrow> u64 list \<Rightarrow> nat \<Rightarrow> 'j sql_value list qres" where
  "decode_values data [] body = Ok []"
| "decode_values data (s # ss) body =
     obind (slice_from data body) (\<lambda>rest.
     obind (decode_value s rest) (\<lambda>(v, used).
     omap (\<lambda>vs. v # vs) (decode_values data ss (body + used))))"

definition row_decode :: "i64 \<Rightarrow> bytes \<Rightarrow> 'j row qres" where
  "row_decode rid data =
     (case varint_read data of
        None \<Rightarrow> Err (TypeError ''bad record header'')
      | Some (header_len, pos) \<Rightarrow>
          let header_end = unat header_len in
          obind (decode_serials data pos header_end) (\<lambda>serials.
          omap (\<lambda>vs. \<lparr>row_id = rid, row_values = vs\<rparr>) (decode_values data serials header_end)))"

section \<open>The decoder is total\<close>

definition safe :: "('a, 'e) outcome \<Rightarrow> bool" where
  "safe m \<longleftrightarrow> m \<noteq> Panic \<and> m \<noteq> Diverge"

lemma safe_simps [simp]: "safe (Ok x)" "safe (Err e)" "\<not> safe Panic" "\<not> safe Diverge"
  "safe (omap f m) \<longleftrightarrow> safe m"
  by (cases m; simp add: safe_def)+

lemma safe_obind: "safe m \<Longrightarrow> (\<And>x. m = Ok x \<Longrightarrow> safe (f x)) \<Longrightarrow> safe (obind m f)"
  by (cases m) auto

lemma need_safe [simp]: "safe (need data n)"
  by (simp add: need_def)

lemma need_Ok: "need data n = Ok u \<longleftrightarrow> n \<le> length data"
  by (auto simp: need_def)

lemma read_int_safe: "0 < n \<Longrightarrow> safe (read_int data n)"
  unfolding read_int_def by (intro safe_obind) (auto simp: need_Ok index_at_def)

lemma decode_value_safe: "safe (decode_value s data :: ('j sql_value \<times> nat) qres)"
  unfolding decode_value_def
  by (auto simp: read_int_safe Let_def need_Ok intro!: safe_obind)

lemma read_int_used: "read_int data n = Ok i \<Longrightarrow> n \<le> length data"
  by (auto simp: read_int_def outcome_simps need_Ok)

lemma omap_Ok: "omap f m = Ok y \<longleftrightarrow> (\<exists>x. m = Ok x \<and> y = f x)"
  by (cases m) auto

lemma decode_value_used: "decode_value s data = Ok (v :: 'j sql_value, n) \<Longrightarrow> n \<le> length data"
  unfolding decode_value_def
  by (auto simp: Let_def omap_Ok outcome_simps need_Ok read_int_used split: if_splits)

lemma decode_values_safe:
  "body \<le> length data \<Longrightarrow> safe (decode_values data ss body :: 'j sql_value list qres)"
proof (induction ss arbitrary: body)
  case (Cons s ss)
  have "safe (obind (decode_value s (drop body data)) (\<lambda>(v, used).
      omap (\<lambda>vs. v # vs) (decode_values data ss (body + used))) :: 'j sql_value list qres)"
  proof (rule safe_obind)
    fix x :: "'j sql_value \<times> nat"
    assume "decode_value s (drop body data) = Ok x"
    then have "snd x \<le> length data - body"
      using decode_value_used [of s "drop body data" "fst x" "snd x"] by simp
    with Cons show "safe (case x of (v, used) \<Rightarrow> omap (\<lambda>vs. v # vs) (decode_values data ss (body + used)))"
      by (cases x) simp
  qed (rule decode_value_safe)
  with Cons.prems show ?case by (simp add: slice_from_def)
qed simp

lemma decode_serials_safe:
  "pos \<le> length data \<Longrightarrow> safe (decode_serials data pos header_end)
     \<and> (\<forall>ss. decode_serials data pos header_end = Ok ss \<longrightarrow> ss \<noteq> [] \<longrightarrow> header_end \<le> length data)"
proof (induction data pos header_end rule: decode_serials.induct)
  case (1 data pos header_end)
  show ?case
  proof (cases "pos < header_end")
    case True
    show ?thesis
    proof (cases "varint_read (drop pos data)")
      case None
      with True 1(2) show ?thesis by (subst (1 2) decode_serials.simps) (simp add: slice_from_def)
    next
      case (Some sn)
      obtain s n where sn: "sn = (s, n)" by force
      have n: "1 \<le> n" "n \<le> length data - pos"
        using varint_read_consumed [of "drop pos data" s n] Some sn by auto
      have sf: "slice_from data pos = (Ok (drop pos data) :: bytes qres)"
        using 1(2) by (simp add: slice_from_def)
      have u: "decode_serials data pos header_end = omap (\<lambda>ss. s # ss) (decode_serials data (pos + n) header_end)"
        using True Some sn sf by (subst decode_serials.simps) simp
      from 1(1) [OF True sf Some sn [symmetric]] n 1(2) have ih: "safe (decode_serials data (pos + n) header_end)"
        "\<forall>ss. decode_serials data (pos + n) header_end = Ok ss \<longrightarrow> ss \<noteq> [] \<longrightarrow> header_end \<le> length data"
        by auto
      have "header_end \<le> length data" if "decode_serials data (pos + n) header_end = Ok []"
      proof (rule ccontr)
        assume "\<not> header_end \<le> length data"
        then have "pos + n < header_end" using n 1(2) by simp
        with that show False
          by (subst (asm) decode_serials.simps) (auto simp: outcome_simps omap_Ok split: option.splits)
      qed
      with ih show ?thesis unfolding u by (auto simp: omap_Ok)
    qed
  next
    case False
    then show ?thesis by (subst (1 2) decode_serials.simps) simp
  qed
qed

text \<open>
  C27. Decoding a record, from whatever bytes, returns a row or an error: no slice is out of
  range, nothing overflows and every loop ends.
\<close>

theorem row_decode_total:
  "(\<exists>r :: 'j row. row_decode rid data = Ok r) \<or> (\<exists>e. (row_decode rid data :: 'j row qres) = Err e)"
proof -
  have "safe (row_decode rid data :: 'j row qres)"
  proof (cases "varint_read data")
    case (Some hp)
    obtain h p where hp: "hp = (h, p)" by force
    have p: "p \<le> length data" using varint_read_consumed [of data h p] Some hp by simp
    note ds = decode_serials_safe [OF p, of "unat h"]
    have "safe (obind (decode_serials data p (unat h)) (\<lambda>ss.
        omap (\<lambda>vs. \<lparr>row_id = rid, row_values = vs\<rparr>) (decode_values data ss (unat h))) :: 'j row qres)"
    proof (rule safe_obind)
      fix ss
      assume "decode_serials data p (unat h) = Ok ss"
      with ds show "safe (omap (\<lambda>vs. \<lparr>row_id = rid, row_values = vs\<rparr>)
          (decode_values data ss (unat h)) :: 'j row qres)"
        by (cases "ss = []") (auto simp: decode_values_safe)
    qed (use ds in simp)
    then show ?thesis using Some hp by (simp add: row_decode_def Let_def)
  qed (simp add: row_decode_def)
  then show ?thesis by (cases "row_decode rid data :: 'j row qres") (auto simp: safe_def)
qed


section \<open>A row decodes from its encoding\<close>

text \<open>What is stored of a value: booleans as integers, JSON as text.\<close>

fun stored_value :: "'j platform \<Rightarrow> 'j sql_value \<Rightarrow> 'j sql_value" where
  "stored_value pf (VBoolean b) = VInteger (i64_of_int (of_bool b))"
| "stored_value pf (VJson j) = VText (pf_json_string pf j)"
| "stored_value pf v = v"

text \<open>Texts are valid UTF-8, and a body fits the address space with room to spare.\<close>

fun storable :: "'j platform \<Rightarrow> 'j sql_value \<Rightarrow> bool" where
  "storable pf (VText s) = (utf8_valid s \<and> length s < 2 ^ 62)"
| "storable pf (VJson j) = (utf8_valid (pf_json_string pf j) \<and> length (pf_json_string pf j) < 2 ^ 62)"
| "storable pf (VBlob b) = (length b < 2 ^ 62)"
| "storable pf _ = True"

lemma push_bit_or: "push_bit 8 (v :: u64) OR ucast (b :: u8) = v * 256 + ucast b"
proof -
  have "push_bit 8 v AND ucast b = 0"
    by (rule bit_eqI) (auto simp: bit_simps dest: bit_imp_le_length)
  from disjunctive_add_eq_or [OF this, symmetric] show ?thesis by (simp add: push_bit_eq_mult)
qed

lemma ucast_u8_int: "(ucast (b :: u8) :: u64) = word_of_int (int (unat b))"
  unfolding ucast_eq by (simp only: uint_nat)

lemma foldl_bytes:
  "foldl (\<lambda>v b. push_bit 8 v OR ucast b) (word_of_int x) bs
    = (word_of_int (x * 256 ^ length bs + int (of_be bs)) :: u64)"
proof (induction bs rule: rev_induct)
  case (snoc b bs)
  let ?X = "x * 256 ^ length bs + int (of_be bs)"
  have "x * 256 ^ length (bs @ [b]) + int (of_be (bs @ [b])) = ?X * 256 + int (unat b)"
    by (simp add: algebra_simps)
  moreover have "(word_of_int (?X * 256 + int (unat b)) :: u64) = word_of_int ?X * 256 + ucast b"
    unfolding ucast_u8_int by (simp only: of_int_add of_int_mult of_int_numeral)
  ultimately show ?case by (simp only: foldl_append foldl.simps snoc) (simp only: push_bit_or)
qed simp

lemma drop_to_be: "drop m (to_be (m + n) x) = to_be n x"
  by (induction n arbitrary: x) simp_all

lemma to_be_mod: "to_be n (x mod 256 ^ n) = to_be n x"
proof -
  have "of_be (to_be n x) = x mod 256 ^ n" by (rule of_be_to_be)
  then show ?thesis using to_be_of_be [of "to_be n x" n] by simp
qed

lemma of_be_Cons: "of_be (b # bs) = unat b * 256 ^ length bs + of_be bs"
proof (induction bs rule: rev_induct)
  case Nil
  show ?case using of_be_snoc [of "[]" b] by simp
next
  case (snoc c bs)
  then show ?case by (simp flip: append_Cons add: algebra_simps)
qed

lemma sign_byte: "(b :: u8) AND 0x80 \<noteq> 0 \<longleftrightarrow> 128 \<le> unat b"
proof -
  have "unat b < 256" using unat_less_pow [of b] by simp
  then have "unat b div 128 = 0 \<or> unat b div 128 = 1" by linarith
  moreover have "unat b div 128 = 0 \<longleftrightarrow> unat b < 128" by auto
  moreover have "bit b 7 \<longleftrightarrow> bit (unat b) 7" by (simp add: bit_unsigned_iff)
  moreover have "bit (unat b) 7 \<longleftrightarrow> odd (unat b div 128)" by (simp add: bit_iff_odd)
  ultimately show ?thesis using high8_zero_iff [of b] by auto
qed


lemma read_int_to_be:
  assumes n: "0 < n" and lo: "- (2 ^ (8 * n - 1)) \<le> k" and hi: "k < 2 ^ (8 * n - 1)"
    and x: "int x mod 256 ^ n = k mod 256 ^ n"
  shows "read_int (to_be n x @ rest) n = Ok (i64_of_int k)"
proof -
  obtain b bs where bs: "to_be n x = b # bs" using n by (cases "to_be n x") (use length_to_be [of n x] in auto)
  have len: "length bs = n - 1" using bs length_to_be [of n x] by simp
  have p: "(256 :: int) ^ n = 2 * 2 ^ (8 * n - 1)" "(256 :: int) ^ n = 256 * 256 ^ (n - 1)"
    "(2 :: int) ^ (8 * n - 1) = 128 * 256 ^ (n - 1)"
  proof -
    have "(256 :: int) ^ n = 2 ^ (8 * n)" by (simp add: power_mult)
    also have "8 * n = Suc (8 * n - 1)" using n by simp
    finally show one: "(256 :: int) ^ n = 2 * 2 ^ (8 * n - 1)" by (metis power_Suc)
    show two: "(256 :: int) ^ n = 256 * 256 ^ (n - 1)" using n by (cases n) simp_all
    from one two show "(2 :: int) ^ (8 * n - 1) = 128 * 256 ^ (n - 1)" by simp
  qed
  have v: "int (of_be (b # bs)) = k mod 256 ^ n"
    using of_be_to_be [of n x] x by (simp add: bs [symmetric] zmod_int)
  have m: "k mod 256 ^ n = (if k < 0 then k + 256 ^ n else k)"
  proof (cases "k < 0")
    case True
    have "(k + 256 ^ n) mod 256 ^ n = k + 256 ^ n" using True lo p(1) by (intro mod_pos_pos_trivial) linarith+
    with True show ?thesis by simp
  qed (use hi p(1) in simp)
  have "of_be bs < 256 ^ (n - 1)" using of_be_bound [of bs] len by simp
  then have r: "0 \<le> int (of_be bs)" "int (of_be bs) < 256 ^ (n - 1)"
    by (simp, metis of_nat_less_iff of_nat_numeral of_nat_power)
  have v': "int (of_be (b # bs)) = int (unat b) * 256 ^ (n - 1) + int (of_be bs)"
    by (simp add: of_be_Cons len)
  have "128 \<le> unat b \<longleftrightarrow> k < 0"
  proof (cases "128 \<le> unat b")
    case True
    then have "128 \<le> int (unat b)" by linarith
    then have "128 * 256 ^ (n - 1) \<le> int (unat b) * 256 ^ (n - 1)" by (intro mult_right_mono) auto
    then have "2 ^ (8 * n - 1) \<le> k mod 256 ^ n" using v v' r p(3) by linarith
    then show ?thesis using True hi m by (auto split: if_splits)
  next
    case False
    then have "int (unat b) + 1 \<le> 128" by linarith
    then have "(int (unat b) + 1) * 256 ^ (n - 1) \<le> 128 * 256 ^ (n - 1)" by (intro mult_right_mono) auto
    then have "int (unat b) * 256 ^ (n - 1) + 256 ^ (n - 1) \<le> 128 * 256 ^ (n - 1)"
      by (simp only: distrib_right mult_1)
    then have "k mod 256 ^ n < 2 ^ (8 * n - 1)" using v v' r p(3) by linarith
    then show ?thesis using False m lo p(1) by (auto split: if_splits)
  qed
  then have "(if b AND 0x80 \<noteq> 0 then - 1 else 0 :: u64) = word_of_int (if k < 0 then - 1 else 0)"
    by (simp add: sign_byte)
  moreover have "(if k < 0 then - 1 else 0) * 256 ^ n + int (of_be (b # bs)) = k" using v m by simp
  ultimately have "foldl (\<lambda>v b. push_bit 8 v OR ucast b) (if b AND 0x80 \<noteq> 0 then - 1 else 0) (b # bs)
      = (word_of_int k :: u64)"
    using foldl_bytes [of "if k < 0 then - 1 else 0" "b # bs"] len n by simp
  moreover have "take n (to_be n x @ rest) = b # bs" "\<not> length (to_be n x @ rest) < n" by (simp_all add: bs [symmetric])
  ultimately show ?thesis
    by (simp add: read_int_def need_def index_at_def i64_of_int_def bs)
qed

lemma unat_ucast_mod: "unat (ucast (w :: u64) :: 'a::len word) = unat w mod 2 ^ LENGTH('a)"
  by (simp add: unsigned_ucast_eq unsigned_take_bit_eq take_bit_eq_mod)

text \<open>The bytes of an integer are the low bytes of its bit pattern.\<close>

lemma encode_int_bytes:
  "\<exists>n serial. encode_int i = (serial, if n = 0 then [] else to_be n (unat (i64_bits i)))
     \<and> (serial, n) \<in> {(8, 0), (9, 0), (1, 1), (2, 2), (3, 3), (4, 4), (5, 6), (6, 8)}
     \<and> (serial = 8 \<longrightarrow> int_of_i64 i = 0) \<and> (serial = 9 \<longrightarrow> int_of_i64 i = 1)
     \<and> (n \<noteq> 0 \<longrightarrow> - (2 ^ (8 * n - 1)) \<le> int_of_i64 i \<and> int_of_i64 i < 2 ^ (8 * n - 1))"
proof -
  let ?w = "i64_bits i" and ?k = "int_of_i64 i"
  have b: "[ucast ?w] = to_be 1 (unat ?w)" by simp
  have b2: "u16_be (ucast ?w) = to_be 2 (unat ?w)" "u32_be (ucast ?w) = to_be 4 (unat ?w)"
    using to_be_mod [of 2 "unat ?w"] to_be_mod [of 4 "unat ?w"]
    by (simp_all add: u16_be_def u32_be_def unat_ucast_mod)
  have b3: "slice 5 3 (u64_be ?w) = to_be 3 (unat ?w)" "slice 2 6 (u64_be ?w) = to_be 6 (unat ?w)"
    "u64_be ?w = to_be 8 (unat ?w)"
    using drop_to_be [of 5 3 "unat ?w"] drop_to_be [of 2 6 "unat ?w"] by (simp_all add: slice_def u64_be_def)
  consider "?k = 0" | "?k = 1" | "?k \<noteq> 0" "?k \<noteq> 1" "- 128 \<le> ?k" "?k \<le> 127"
    | "\<not> (- 128 \<le> ?k \<and> ?k \<le> 127)" "- 32768 \<le> ?k" "?k \<le> 32767"
    | "\<not> (- 32768 \<le> ?k \<and> ?k \<le> 32767)" "- (2 ^ 23) \<le> ?k" "?k < 2 ^ 23"
    | "\<not> (- (2 ^ 23) \<le> ?k \<and> ?k < 2 ^ 23)" "- (2 ^ 31) \<le> ?k" "?k \<le> 2 ^ 31 - 1"
    | "\<not> (- (2 ^ 31) \<le> ?k \<and> ?k \<le> 2 ^ 31 - 1)" "- (2 ^ 47) \<le> ?k" "?k < 2 ^ 47"
    | "\<not> (- (2 ^ 47) \<le> ?k \<and> ?k < 2 ^ 47)" by blast
  then show ?thesis
  proof cases
    case 1
    then show ?thesis by (intro exI [of _ 0] exI [of _ 8]) (simp add: encode_int_def)
  next
    case 2
    then show ?thesis by (intro exI [of _ 0] exI [of _ 9]) (simp add: encode_int_def)
  next
    case 3
    then show ?thesis by (intro exI [of _ 1] exI [of _ 1]) (simp add: encode_int_def)
  next
    case 4
    then show ?thesis by (intro exI [of _ 2] exI [of _ 2]) (auto simp: encode_int_def b2)
  next
    case 5
    then have "encode_int i = (3, to_be 3 (unat ?w))"
      unfolding b3(1) [symmetric] by (auto simp: encode_int_def Let_def)
    with 5 show ?thesis by (intro exI [of _ 3] exI [of _ 3]) simp
  next
    case 6
    then have "encode_int i = (4, to_be 4 (unat ?w))" by (auto simp: encode_int_def b2 Let_def)
    with 6 show ?thesis by (intro exI [of _ 4] exI [of _ 4]) simp
  next
    case 7
    then have "encode_int i = (5, to_be 6 (unat ?w))"
      unfolding b3(2) [symmetric] by (auto simp: encode_int_def Let_def)
    with 7 show ?thesis by (intro exI [of _ 6] exI [of _ 5]) simp
  next
    case 8
    then have "encode_int i = (6, to_be 8 (unat ?w))" by (auto simp: encode_int_def b3 Let_def)
    with int_of_i64_bounds [of i] show ?thesis
      by (intro exI [of _ 8] exI [of _ 6]) (simp add: i64_min_def i64_max_def)
  qed
qed

lemma i64_bits_mod: "int (unat (i64_bits i)) mod 256 ^ n = int_of_i64 i mod 256 ^ n" if "n \<le> 8"
proof -
  have "int (unat (i64_bits i)) = int_of_i64 i mod 2 ^ 64"
    unfolding uint_nat [symmetric] int_of_i64_def uint_sint take_bit_eq_mod by simp
  moreover have "(256 :: int) ^ n dvd 2 ^ 64"
  proof -
    have "(256 :: int) ^ n = 2 ^ (8 * n)" by (simp add: power_mult)
    then show ?thesis using le_imp_power_dvd [of "8 * n" 64 "2 :: int"] that by simp
  qed
  ultimately show ?thesis by (simp add: mod_mod_cancel)
qed

lemma decode_encode_int:
  assumes "encode_int i = (serial, bs)"
  shows "decode_value serial (bs @ rest) = Ok (VInteger i, length bs)"
proof -
  obtain n where e: "bs = (if n = 0 then [] else to_be n (unat (i64_bits i)))"
    and sn: "(serial, n) \<in> {(8, 0), (9, 0), (1, 1), (2, 2), (3, 3), (4, 4), (5, 6), (6, 8)}"
    and k: "serial = 8 \<longrightarrow> int_of_i64 i = 0" "serial = 9 \<longrightarrow> int_of_i64 i = 1"
    "n \<noteq> 0 \<longrightarrow> - (2 ^ (8 * n - 1)) \<le> int_of_i64 i \<and> int_of_i64 i < 2 ^ (8 * n - 1)"
    using encode_int_bytes [of i] assms by auto
  have i: "i = i64_of_int 0" if "int_of_i64 i = 0"
    using that int_of_i64_of_int [of 0] by (metis i64_of_int_of_i64)
  have i1: "i = i64_of_int 1" if "int_of_i64 i = 1"
    using that by (metis i64_of_int_of_i64)
  have r: "read_int (bs @ rest) n = Ok i" if "n \<noteq> 0" "n \<le> 8"
    using read_int_to_be [of n "int_of_i64 i" "unat (i64_bits i)" rest] k(3) that i64_bits_mod [of n i] e
    by auto
  from sn consider "serial = 8" "n = 0" | "serial = 9" "n = 0" | "serial = 1" "n = 1" | "serial = 2" "n = 2"
    | "serial = 3" "n = 3" | "serial = 4" "n = 4" | "serial = 5" "n = 6" | "serial = 6" "n = 8"
    by blast
  then show ?thesis
    using r e k(1,2) i i1 by cases (simp_all add: decode_value_def)
qed

lemma len_serial_facts:
  assumes "n < 2 ^ 62"
  shows "unat (len_serial n 12) = 2 * n + 12" "unat (len_serial n 13) = 2 * n + 13"
    "unat (len_serial n 12 - 12) = 2 * n" "unat (len_serial n 13 - 13) = 2 * n"
proof -
  have u: "unat (word_of_nat m :: u64) = m" if "m < 2 ^ 64" for m
    using unat_of_nat_small [of m, where 'a = 64] that by simp
  have e: "len_serial n 12 = word_of_nat (2 * n + 12)" "len_serial n 13 = word_of_nat (2 * n + 13)"
    "len_serial n 12 - 12 = word_of_nat (2 * n)" "len_serial n 13 - 13 = word_of_nat (2 * n)"
    by (simp_all add: len_serial_def mult.commute)
  show "unat (len_serial n 12) = 2 * n + 12" "unat (len_serial n 13) = 2 * n + 13"
    unfolding e(1,2) using assms by (intro u; simp)+
  show "unat (len_serial n 12 - 12) = 2 * n" "unat (len_serial n 13 - 13) = 2 * n"
    unfolding e(3,4) using assms by (intro u; simp)+
qed

lemma len_serial_decode:
  assumes "n < 2 ^ 62"
  shows "12 \<le> len_serial n 12" "len_serial n 12 mod 2 = 0" "unat ((len_serial n 12 - 12) div 2) = n"
    "13 \<le> len_serial n 13" "len_serial n 13 mod 2 \<noteq> 0" "unat ((len_serial n 13 - 13) div 2) = n"
proof -
  note u = len_serial_facts [OF assms]
  show "unat ((len_serial n 12 - 12) div 2) = n" "unat ((len_serial n 13 - 13) div 2) = n"
    using u(3,4) by (simp_all add: unat_div)
  show "12 \<le> len_serial n 12" "13 \<le> len_serial n 13" using u by (simp_all add: word_le_nat_alt)
  have "unat (len_serial n 12 mod 2) = 0" "unat (len_serial n 13 mod 2) = 1"
    using u(1,2) by (simp_all add: unat_mod)
  then show "len_serial n 12 mod 2 = 0" "len_serial n 13 mod 2 \<noteq> 0"
    by (simp_all only: word_unat_eq_iff) simp_all
qed


lemma decode_encode_value:
  assumes "encode_value pf v = (serial, bs)" and "storable pf v"
  shows "decode_value serial (bs @ rest) = Ok (stored_value pf v, length bs)"
proof -
  have str: "decode_value (len_serial (length s) 13) (str_bytes s @ rest) = Ok (VText s :: 'a sql_value, length s)"
    if "utf8_valid s" "length s < 2 ^ 62" for s
  proof -
    note l = len_serial_decode [OF that(2)] len_serial_facts [OF that(2)]
    have c: "len_serial (length s) 13 \<noteq> k" if "k < 10" for k
      using l(8) that by (auto simp: word_less_nat_alt)
    have "decode_value (len_serial (length s) 13) (str_bytes s @ rest) =
        (let n = unat ((len_serial (length s) 13 - 13) div 2) in
        obind (need (str_bytes s @ rest) n) (\<lambda>_.
        let t = bytes_str (take n (str_bytes s @ rest)) in
        if utf8_valid t then Ok (VText t :: 'a sql_value, n) else Err (TypeError ''invalid UTF-8 text'')))"
      using l(4,5) c [of 0] c [of 1] c [of 2] c [of 3] c [of 4] c [of 5] c [of 6] c [of 7] c [of 8] c [of 9]
      by (simp add: decode_value_def)
    then show ?thesis using that(1) by (simp add: l(6) need_def)
  qed
  have blob: "decode_value (len_serial (length b) 12) (b @ rest) = Ok (VBlob b :: 'a sql_value, length b)"
    if "length b < 2 ^ 62" for b
  proof -
    note l = len_serial_decode [OF that] len_serial_facts [OF that]
    have c: "len_serial (length b) 12 \<noteq> k" if "k < 10" for k
      using l(7) that by (auto simp: word_less_nat_alt)
    have "decode_value (len_serial (length b) 12) (b @ rest) =
        (let n = unat ((len_serial (length b) 12 - 12) div 2) in
        obind (need (b @ rest) n) (\<lambda>_. Ok (VBlob (take n (b @ rest)) :: 'a sql_value, n)))"
      using l(1,2) c [of 0] c [of 1] c [of 2] c [of 3] c [of 4] c [of 5] c [of 6] c [of 7] c [of 8] c [of 9]
      by (simp add: decode_value_def)
    then show ?thesis by (simp add: l(3) need_def)
  qed
  have l8: "length (u64_be w) = 8" for w by simp
  show ?thesis
  proof (cases v)
    case (VReal r)
    then show ?thesis
      using assms l8 by (auto simp: decode_value_def simp del: length_be)
  qed (use assms decode_encode_int str blob in \<open>auto simp: Let_def decode_value_def [of 0]\<close>)
qed

lemma varint_len_mono_nat:
  assumes "m \<le> n" and "n < 2 ^ 64"
  shows "varint_len (word_of_nat m) \<le> varint_len (word_of_nat n)"
proof -
  have "(word_of_nat m :: u64) \<le> word_of_nat n"
    using assms by (simp add: word_le_nat_alt unat_of_nat)
  then show ?thesis by (auto simp: varint_len_def)
qed

text \<open>The header-length loop: the candidate grows until it is its own answer.\<close>

lemma header_loop_ends:
  assumes "1 \<le> m" and "m \<le> varint_len (word_of_nat (sb + m))" and "sb + 9 < 2 ^ 64" and "10 \<le> fuel + m"
  shows "\<exists>h. header_loop fuel sb (sb + m) = Ok h \<and> h = sb + varint_len (word_of_nat h)"
  using assms
proof (induction fuel arbitrary: m)
  case 0
  then show ?case using varint_len_range(2) [of "word_of_nat (sb + m)"] by simp
next
  case (Suc fuel)
  define m' where "m' = varint_len (word_of_nat (sb + m))"
  have m': "m \<le> m'" "m' \<le> 9" using Suc.prems(2) varint_len_range(2) by (simp_all add: m'_def)
  show ?case
  proof (cases "m' = m")
    case True
    then show ?thesis by (simp add: m'_def)
  next
    case False
    have "m' \<le> varint_len (word_of_nat (sb + m'))"
      unfolding m'_def using m' Suc.prems(3) by (intro varint_len_mono_nat) (simp_all add: m'_def)
    with Suc.IH [of m'] m' False Suc.prems show ?thesis
      by (simp add: m'_def [symmetric] Let_def del: of_nat_add)
  qed
qed

lemma varint_fold:
  "fold (\<lambda>s out. fst (varint_write out s)) ss out = out @ concat (map varint_bytes ss)"
proof (induction ss arbitrary: out)
  case (Cons s ss)
  have "fst (varint_write out s) = out @ varint_bytes s" by (subst varint_write_append) simp
  then show ?case by (simp add: Cons)
qed simp

lemma decode_serials_bytes:
  "decode_serials (pre @ concat (map varint_bytes ss) @ body) (length pre)
     (length pre + sum_list (map varint_len ss)) = Ok ss"
proof (induction ss arbitrary: pre)
  case Nil
  then show ?case by (subst decode_serials.simps) simp
next
  case (Cons s ss)
  have "0 < varint_len s" using varint_len_range(1) [of s] by simp
  moreover have "length (pre @ varint_bytes s) = length pre + varint_len s" by simp
  ultimately show ?case
    using Cons [of "pre @ varint_bytes s"]
    by (subst decode_serials.simps) (simp add: slice_from_def add.assoc)
qed

lemma decode_values_bytes:
  assumes "\<forall>v\<in>set vs. storable pf v"
  shows "decode_values (pre @ concat (map (\<lambda>v. snd (encode_value pf v)) vs))
     (map (\<lambda>v. fst (encode_value pf v)) vs) (length pre) = Ok (map (stored_value pf) vs)"
  using assms
proof (induction vs arbitrary: pre)
  case (Cons v vs)
  obtain s bs where e: "encode_value pf v = (s, bs)" by force
  show ?case
    using Cons.IH [of "pre @ bs"] Cons.prems decode_encode_value [OF e]
    by (simp add: e slice_from_def)
qed simp

lemma row_encode_decode:
  assumes "\<forall>v\<in>set (row_values r). storable pf v" and "length (row_values r) < 2 ^ 32"
  shows "\<exists>data. row_encode pf r = (Ok data :: bytes qres) \<and>
    (\<forall>rid. row_decode rid data = Ok \<lparr>row_id = rid, row_values = map (stored_value pf) (row_values r)\<rparr>)"
proof -
  define ss where "ss = map (\<lambda>v. fst (encode_value pf v)) (row_values r)"
  define body where "body = concat (map (\<lambda>v. snd (encode_value pf v)) (row_values r))"
  define sb where "sb = sum_list (map varint_len ss)"
  have "sb \<le> 9 * length ss"
    unfolding sb_def using varint_len_range(2) by (induction ss) (auto intro: add_mono)
  then have sb: "sb + 9 < 2 ^ 64" using assms(2) by (simp add: ss_def)
  obtain h where h: "header_loop HEADER_FUEL sb (sb + 1) = (Ok h :: (nat, sql_error) outcome)"
    "h = sb + varint_len (word_of_nat h)"
    using header_loop_ends [of 1 sb HEADER_FUEL] varint_len_range(1) sb by (auto simp: HEADER_FUEL_def)
  define pre where "pre = varint_bytes (word_of_nat h :: u64)"
  define data where "data = pre @ concat (map varint_bytes ss) @ body"
  have parts: "map fst (map (encode_value pf) (row_values r)) = ss"
    "concat (map snd (map (encode_value pf) (row_values r))) = body"
    by (simp_all add: ss_def body_def comp_def)
  have e: "row_encode pf r = (Ok data :: bytes qres)"
    unfolding row_encode_def Let_def parts sb_def [symmetric]
    by (simp only: h(1) obind.simps varint_fold data_def pre_def append_assoc)
  have hu: "unat (word_of_nat h :: u64) = h"
    using h(2) sb varint_len_range(2) [of "word_of_nat h"] by (simp add: unat_of_nat)
  have hl: "length pre + sb = h" using h(2) by (simp add: pre_def)
  have "varint_read data = Some (word_of_nat h, length pre)" by (simp add: data_def pre_def)
  moreover have "decode_serials data (length pre) h = Ok ss"
    using decode_serials_bytes [of pre ss body] by (simp add: data_def hl flip: sb_def)
  moreover have "decode_values data ss h = Ok (map (stored_value pf) (row_values r))"
  proof -
    have "length (pre @ concat (map varint_bytes ss)) = h"
      using hl by (simp add: sb_def length_concat comp_def)
    then show ?thesis
      using decode_values_bytes [OF assms(1), of "pre @ concat (map varint_bytes ss)"]
      by (simp add: data_def ss_def body_def)
  qed
  ultimately show ?thesis by (simp add: e row_decode_def hu)
qed

text \<open>
  C19. A row read back from its record has the values that were stored, in order: integers of
  every width, the bits of reals, valid texts, blobs and nulls as they were, booleans as
  the integers 0 and 1, JSON as its text. The encoder's header loop always ends.
\<close>

theorem row_roundtrip:
  assumes "\<forall>v\<in>set (row_values r). storable pf v" and "length (row_values r) < 2 ^ 32"
  shows "obind (row_encode pf r) (row_decode rid) =
    Ok \<lparr>row_id = rid, row_values = map (stored_value pf) (row_values r)\<rparr>"
  using row_encode_decode [OF assms] by fastforce

theorem row_roundtrip_witness:
  "obind (row_encode test_platform \<lparr>row_id = i64_of_int 7, row_values =
       [VInteger (i64_of_int (- 1000)), VNull, VText ''hello'', VBoolean True, VReal (f64_dec 35 1)]\<rparr>)
     (row_decode (i64_of_int 7)) =
   Ok (\<lparr>row_id = i64_of_int 7, row_values =
       [VInteger (i64_of_int (- 1000)), VNull, VText ''hello'', VInteger (i64_of_int 1), VReal (f64_dec 35 1)]\<rparr> :: unit row)"
proof -
  have "utf8_valid ''hello''" by (rule ascii_valid) (simp add: is_ascii_def)
  then show ?thesis
    using row_roundtrip [of "\<lparr>row_id = i64_of_int 7, row_values =
       [VInteger (i64_of_int (- 1000)), VNull, VText ''hello'', VBoolean True, VReal (f64_dec 35 1)]\<rparr>"
       test_platform "i64_of_int 7"] by simp
qed

end
