(* ===== verification/SqlWorld.thy ===== *)
theory SqlWorld
  imports SqlValue
begin

text \<open>
  The part of the outside world that expressions depend on: the system clock and the
  process-wide random number generator. Evaluation threads it, and stops at the first
  error or panic.
\<close>

text \<open>
  \<open>clock t\<close> is the \<open>t\<close>-th reading of the clock, in nanoseconds since the Unix epoch, or
  \<open>None\<close> when it stands before the epoch; \<open>ticks\<close> counts the readings made.
\<close>

record world =
  w_clock :: "nat \<Rightarrow> nat option"
  w_ticks :: nat
  w_rng :: u64

type_synonym 'a ev = "world \<Rightarrow> ('a \<times> world) qres"

definition ev_return :: "'a \<Rightarrow> 'a ev" where
  "ev_return x = (\<lambda>w. Ok (x, w))"

definition ev_bind :: "'a ev \<Rightarrow> ('a \<Rightarrow> 'b ev) \<Rightarrow> 'b ev" where
  "ev_bind m f = (\<lambda>w. obind (m w) (\<lambda>(x, w). f x w))"

definition ev_lift :: "'a qres \<Rightarrow> 'a ev" where
  "ev_lift r = (\<lambda>w. omap (\<lambda>x. (x, w)) r)"

definition ev_fail :: "sql_error \<Rightarrow> 'a ev" where
  "ev_fail e = (\<lambda>w. Err e)"

definition read_clock :: "nat option ev" where
  "read_clock = (\<lambda>w. Ok (w_clock w (w_ticks w), w\<lparr>w_ticks := Suc (w_ticks w)\<rparr>))"

named_theorems ev_simps \<open>evaluation of the world-threading monad\<close>

lemma ev_apply [ev_simps]:
  "ev_return x w = Ok (x, w)"
  "ev_lift r w = omap (\<lambda>x. (x, w)) r"
  "ev_fail e w = Err e"
  "ev_bind m f w = obind (m w) (\<lambda>(x, w). f x w)"
  by (simp_all add: ev_return_def ev_lift_def ev_fail_def ev_bind_def)

lemma ev_bind_cong [fundef_cong]:
  assumes "m = m'" and "\<And>x. f x = g x"
  shows "ev_bind m f = ev_bind m' g"
  using assms by (metis ext)

lemma ev_monad_laws [simp]:
  "ev_bind (ev_return x) f = f x"
  "ev_bind m ev_return = m"
  "ev_bind (ev_bind m f) g = ev_bind m (\<lambda>x. ev_bind (f x) g)"
  "ev_bind (ev_lift (Ok x)) f = f x"
  "ev_bind (ev_fail e) f = ev_fail e"
  "ev_bind (ev_lift (Err e)) f = ev_fail e"
proof -
  show "ev_bind m ev_return = m"
  proof
    fix w
    show "ev_bind m ev_return w = m w"
      by (cases "m w") (auto simp: ev_bind_def ev_return_def)
  qed
  show "ev_bind (ev_bind m f) g = ev_bind m (\<lambda>x. ev_bind (f x) g)"
  proof
    fix w
    show "ev_bind (ev_bind m f) g w = ev_bind m (\<lambda>x. ev_bind (f x) g) w"
      by (cases "m w") (auto simp: ev_bind_def)
  qed
qed (simp_all add: ev_bind_def ev_return_def ev_lift_def ev_fail_def)

text \<open>A computation that neither reads nor changes the world.\<close>

definition pure_ev :: "'a ev \<Rightarrow> 'a qres \<Rightarrow> bool" where
  "pure_ev m r \<longleftrightarrow> m = ev_lift r"

lemma pure_ev_intros:
  "pure_ev (ev_return x) (Ok x)"
  "pure_ev (ev_lift r) r"
  "pure_ev (ev_fail e) (Err e)"
  by (simp_all add: pure_ev_def ev_return_def ev_lift_def ev_fail_def)

lemma pure_ev_bind:
  assumes "pure_ev m r" and "\<And>x. r = Ok x \<Longrightarrow> pure_ev (f x) (g x)"
  shows "pure_ev (ev_bind m f) (obind r g)"
  using assms by (cases r) (auto simp: pure_ev_def ev_bind_def ev_lift_def)

text \<open>\<open>collect::<Result<Vec<_>>>\<close> over a list: the first error wins.\<close>

fun ev_map :: "('a \<Rightarrow> 'b ev) \<Rightarrow> 'a list \<Rightarrow> 'b list ev" where
  "ev_map f [] = ev_return []"
| "ev_map f (x # xs) = ev_bind (f x) (\<lambda>y. ev_bind (ev_map f xs) (\<lambda>ys. ev_return (y # ys)))"

text \<open>A checked \<open>i64\<close> result: overflow panics.\<close>

definition ck_i64 :: "int \<Rightarrow> (int, 'e) outcome" where
  "ck_i64 k = (if i64_min \<le> k \<and> k \<le> i64_max then Ok k else Panic)"

definition u64_max :: int where "u64_max = 2 ^ 64 - 1"

definition ck_usize :: "int \<Rightarrow> (int, 'e) outcome" where
  "ck_usize k = (if 0 \<le> k \<and> k \<le> u64_max then Ok k else Panic)"

text \<open>Rust's \<open>/\<close> and \<open>%\<close> on integers truncate toward zero.\<close>

definition rust_div :: "int \<Rightarrow> int \<Rightarrow> int" where
  "rust_div a b = sgn a * sgn b * (\<bar>a\<bar> div \<bar>b\<bar>)"

definition rust_rem :: "int \<Rightarrow> int \<Rightarrow> int" where
  "rust_rem a b = sgn a * (\<bar>a\<bar> mod \<bar>b\<bar>)"

lemma rust_div_rem: "rust_div a b * b + rust_rem a b = a"
proof -
  let ?q = "\<bar>a\<bar> div \<bar>b\<bar>"
  have "rust_div a b * b = sgn a * (?q * \<bar>b\<bar>)" by (simp add: rust_div_def sgn_if abs_if)
  then have "rust_div a b * b + rust_rem a b = sgn a * (?q * \<bar>b\<bar> + \<bar>a\<bar> mod \<bar>b\<bar>)"
    by (simp only: rust_rem_def distrib_left)
  also have "\<dots> = a" by (simp only: div_mult_mod_eq) (simp add: sgn_if abs_if)
  finally show ?thesis .
qed

lemma rust_div_nonneg [simp]: "0 \<le> a \<Longrightarrow> 0 < b \<Longrightarrow> rust_div a b = a div b"
  "0 \<le> a \<Longrightarrow> 0 < b \<Longrightarrow> rust_rem a b = a mod b"
  by (simp_all add: rust_div_def rust_rem_def sgn_if)

end
