(* ===== verification/Builtins.thy ===== *)
theory Builtins
  imports SqlWorld
begin

text \<open>
  The scalar builtins of \<open>squrust-sql/src/executor/builtins.rs\<close>: the random number generator,
  \<open>GLOB\<close> matching and \<open>printf\<close>. Characters are code points. The lemmas give the matcher an
  abstract specification and show what the generator keeps.
\<close>

unbundle bit_operations_syntax

section \<open>Random numbers\<close>

text \<open>One step of xorshift64*: the new state, and the output.\<close>

definition xorshift_step :: "u64 \<Rightarrow> u64" where
  "xorshift_step x =
     (let x = x XOR drop_bit 12 x; x = x XOR push_bit 25 x in x XOR drop_bit 27 x)"

definition rng_seed :: "nat option \<Rightarrow> u64" where
  "rng_seed now = (case now of Some n \<Rightarrow> word_of_nat n | None \<Rightarrow> 0x9e3779b97f4a7c15) OR 1"

definition next_u64 :: "u64 ev" where
  "next_u64 = (\<lambda>w.
     let step = (\<lambda>x w. let x = xorshift_step x in
           Ok (x * 0x2545F4914F6CDD1D, w\<lparr>w_rng := x\<rparr>)) in
     if w_rng w = 0 then obind (read_clock w) (\<lambda>(now, w). step (rng_seed now) w)
     else step (w_rng w) w)"

definition random_i64 :: "i64 ev" where
  "random_i64 = ev_bind next_u64 (\<lambda>x. ev_return (I64 x))"

fun random_bytes :: "nat \<Rightarrow> bytes ev" where
  "random_bytes 0 = ev_return []"
| "random_bytes (Suc k) = ev_bind next_u64 (\<lambda>x.
     ev_bind (random_bytes k) (\<lambda>bs. ev_return (rev (u64_be x) @ bs)))"

text \<open>\<open>while out.len() < n\<close> adds eight bytes at a time: the number of rounds is fixed.\<close>

definition randomblob :: "i64 \<Rightarrow> 'j sql_value ev" where
  "randomblob i =
     (let n = nat (max (int_of_i64 i) 1) in
      ev_bind (random_bytes ((n + 7) div 8)) (\<lambda>bs. ev_return (VBlob (take n bs))))"

definition zeroblob :: "i64 \<Rightarrow> 'j sql_value" where
  "zeroblob i = VBlob (replicate (nat (max (int_of_i64 i) 0)) 0)"

section \<open>\<open>GLOB\<close>\<close>

text \<open>
  The loop over a class, from index \<open>i\<close>, with the index \<open>start\<close> of its first member: it
  ends at the closing bracket, or fails at the end of the pattern.
\<close>

function class_loop ::
    "uchar list \<Rightarrow> uchar \<Rightarrow> bool \<Rightarrow> nat \<Rightarrow> nat \<Rightarrow> bool \<Rightarrow> (bool \<times> nat) option" where
  "class_loop p ch negate start i matched =
     (if length p \<le> i then None
      else if p ! i = cp CHR '']'' \<and> start < i then Some (matched \<noteq> negate, i + 1)
      else if i + 2 < length p \<and> p ! (i + 1) = cp CHR ''-'' \<and> p ! (i + 2) \<noteq> cp CHR '']'' then
        class_loop p ch negate start (i + 3) (matched \<or> p ! i \<le> ch \<and> ch \<le> p ! (i + 2))
      else class_loop p ch negate start (i + 1) (matched \<or> p ! i = ch))"
  by pat_completeness auto
termination by (relation "measure (\<lambda>(p, ch, negate, start, i, matched). length p - i)") auto

declare class_loop.simps [simp del]

definition class_match :: "uchar list \<Rightarrow> uchar \<Rightarrow> (bool \<times> nat) option" where
  "class_match p ch =
     (let negate = (p \<noteq> [] \<and> p ! 0 = cp CHR ''^''); i = (if negate then 1 else 0) in
      class_loop p ch negate i i False)"

lemma class_loop_bound: "class_loop p ch ng st i m = Some (r, n) \<Longrightarrow> n \<le> length p"
proof (induction p ch ng st i m rule: class_loop.induct)
  case (1 p ch ng st i m)
  then show ?case by (subst (asm) (3) class_loop.simps) (auto split: if_splits)
qed

function glob_rec :: "uchar list \<Rightarrow> uchar list \<Rightarrow> bool" where
  "glob_rec [] t = (t = [])"
| "glob_rec (c # p) t =
     (if c = cp CHR ''*'' then glob_rec p t \<or> (case t of [] \<Rightarrow> False | _ # t \<Rightarrow> glob_rec (c # p) t)
      else
        (case t of
           [] \<Rightarrow> False
         | d # t \<Rightarrow>
             if c = cp CHR ''?'' then glob_rec p t
             else if c = cp CHR ''['' then
               (case class_match p d of
                  Some (matched, rest_off) \<Rightarrow> matched \<and> glob_rec (drop rest_off p) t
                | None \<Rightarrow> False)
             else c = d \<and> glob_rec p t))"
  by pat_completeness auto
termination by (relation "measure (\<lambda>(p, t). length p + length t)") auto

declare glob_rec.simps(2) [simp del]

definition glob_match :: "string \<Rightarrow> string \<Rightarrow> bool" where
  "glob_match pattern s = glob_rec (chars pattern) (chars s)"

section \<open>\<open>printf\<close>\<close>

record flags =
  fl_left :: bool
  fl_zero :: bool
  fl_plus :: bool
  fl_space :: bool
  fl_alt :: bool
  fl_width :: "int option"
  fl_precision :: "int option"

definition get :: "'a list \<Rightarrow> nat \<Rightarrow> 'a option" where
  "get xs i = (if i < length xs then Some (xs ! i) else None)"

definition no_flags :: flags where
  "no_flags = \<lparr>fl_left = False, fl_zero = False, fl_plus = False, fl_space = False, fl_alt = False,
     fl_width = None, fl_precision = None\<rparr>"

fun take_flags :: "uchar list \<Rightarrow> flags \<Rightarrow> flags \<times> uchar list" where
  "take_flags [] fl = (fl, [])"
| "take_flags (c # cs) fl =
     (if c = cp CHR ''-'' then take_flags cs (fl\<lparr>fl_left := True\<rparr>)
      else if c = cp CHR ''0'' then take_flags cs (fl\<lparr>fl_zero := True\<rparr>)
      else if c = cp CHR ''+'' then take_flags cs (fl\<lparr>fl_plus := True\<rparr>)
      else if c = cp CHR '' '' then take_flags cs (fl\<lparr>fl_space := True\<rparr>)
      else if c = cp CHR ''#'' then take_flags cs (fl\<lparr>fl_alt := True\<rparr>)
      else (fl, c # cs))"

definition is_digit_cp :: "uchar \<Rightarrow> bool" where
  "is_digit_cp c \<longleftrightarrow> 48 \<le> c \<and> c \<le> 57"

text \<open>The digits of a width: \<open>n * 10 + digit\<close> panics when it overflows \<open>usize\<close>.\<close>

fun read_digits :: "uchar list \<Rightarrow> int option \<Rightarrow> (int option \<times> uchar list) qres" where
  "read_digits [] n = Ok (n, [])"
| "read_digits (c # cs) n =
     (if is_digit_cp c then
        obind (ck_usize ((case n of Some k \<Rightarrow> k | None \<Rightarrow> 0) * 10 + (int c - 48))) (\<lambda>k.
        read_digits cs (Some k))
      else Ok (n, c # cs))"

definition read_num ::
    "'j sql_value list \<Rightarrow> uchar list \<Rightarrow> nat \<Rightarrow> (int option \<times> uchar list \<times> nat) qres" where
  "read_num args cs ai =
     (if cs \<noteq> [] \<and> hd cs = cp CHR ''*'' then
        Ok (map_option (f64_to_int 0 u64_max) (Option.bind (get args ai) as_f64), tl cs, ai + 1)
      else omap (\<lambda>(n, cs). (n, cs, ai)) (read_digits cs None))"

function radix_digits :: "int \<Rightarrow> int \<Rightarrow> int list" where
  "radix_digits base n =
     (if n \<le> 0 \<or> base \<le> 1 then [] else radix_digits base (n div base) @ [n mod base])"
  by pat_completeness auto
termination by (relation "measure (\<lambda>(b, n). nat n)") (auto simp: int_div_less_self)

declare radix_digits.simps [simp del]

definition fmt_radix :: "int \<Rightarrow> int \<Rightarrow> bool \<Rightarrow> string" where
  "fmt_radix n base upper =
     (if n = 0 then ''0''
      else map (\<lambda>d. let c = (if d < 10 then digit_char d else byte (nat d + 87)) in
                   if upper then ascii_upper c else c) (radix_digits base n))"

definition pad :: "string \<Rightarrow> flags \<Rightarrow> string" where
  "pad s fl =
     (let n = int (length (chars s)) in
      case fl_width fl of
        Some w \<Rightarrow>
          if n < w then
            let fill = replicate (nat (w - n)) CHR '' '' in if fl_left fl then s @ fill else fill @ s
          else s
      | None \<Rightarrow> s)"

definition sign_str :: "bool \<Rightarrow> flags \<Rightarrow> string" where
  "sign_str neg fl =
     (if neg then ''-'' else if fl_plus fl then ''+'' else if fl_space fl then '' '' else [])"

definition fmt_int :: "int \<Rightarrow> int \<Rightarrow> flags \<Rightarrow> string" where
  "fmt_int n base fl =
     (let digits = fmt_radix \<bar>n\<bar> base False;
          digits = (case fl_precision fl of
             Some p \<Rightarrow> replicate (nat (p - int (length digits))) CHR ''0'' @ digits
           | None \<Rightarrow> digits);
          sgn = sign_str (n < 0) fl;
          zero = (fl_zero fl \<and> \<not> fl_left fl \<and> fl_precision fl = None);
          digits = (case fl_width fl of
             Some w \<Rightarrow>
               if zero then replicate (nat (w - int (length sgn + length digits))) CHR ''0'' @ digits
               else digits
           | None \<Rightarrow> digits)
      in pad (sgn @ digits) fl)"

text \<open>\<open>{:.p}\<close> and \<open>{:.pe}\<close> of any magnitude.\<close>

definition fmt_fixed_any :: "nat \<Rightarrow> f64 \<Rightarrow> string" where
  "fmt_fixed_any p x =
     (if f64_is_nan x then ''NaN'' else if f64_is_inf x then ''inf'' else fmt_fixed p x)"

definition fmt_lower_exp :: "nat \<Rightarrow> f64 \<Rightarrow> string" where
  "fmt_lower_exp p x =
     (if f64_is_nan x then ''NaN'' else if f64_is_inf x then ''inf''
      else let (m, e) = fmt_exp_parts p x in m @ ''e'' @ show_int e)"

definition split_once :: "char \<Rightarrow> string \<Rightarrow> (string \<times> string) option" where
  "split_once c s =
     (case dropWhile (\<lambda>d. d \<noteq> c) s of
        [] \<Rightarrow> None
      | _ # t \<Rightarrow> Some (takeWhile (\<lambda>d. d \<noteq> c) s, t))"

definition fmt_exp :: "f64 \<Rightarrow> nat \<Rightarrow> bool \<Rightarrow> string" where
  "fmt_exp mag prec upper =
     (let s = fmt_lower_exp prec mag;
          (mant, ex) = (case split_once CHR ''e'' s of Some me \<Rightarrow> me | None \<Rightarrow> (s, ''0''));
          e = (case parse_int ex of Some k \<Rightarrow> k | None \<Rightarrow> 0); a = show_nat \<bar>e\<bar>
      in mant @ (if upper then ''E'' else ''e'') @ (if e < 0 then ''-'' else ''+'')
         @ (if length a < 2 then ''0'' else []) @ a)"

definition trim_frac :: "string \<Rightarrow> string" where
  "trim_frac s =
     (if CHR ''.'' \<in> set s then
        let t = rev (dropWhile (\<lambda>c. c = CHR ''0'') (rev s)) in
        rev (dropWhile (\<lambda>c. c = CHR ''.'') (rev t))
      else s)"

definition trim_g :: "string \<Rightarrow> string" where
  "trim_g s =
     (let is_e = (\<lambda>c. c = CHR ''e'' \<or> c = CHR ''E'') in
      if \<exists>c\<in>set s. is_e c then trim_frac (takeWhile (\<lambda>c. \<not> is_e c) s) @ dropWhile (\<lambda>c. \<not> is_e c) s
      else trim_frac s)"

definition i32_min :: int where "i32_min = - (2 ^ 31)"
definition i32_max :: int where "i32_max = 2 ^ 31 - 1"

text \<open>\<open>usize as i32\<close> keeps the low bits.\<close>

definition as_i32 :: "int \<Rightarrow> int" where
  "as_i32 k = (k + 2 ^ 31) mod 2 ^ 32 - 2 ^ 31"

definition fmt_g :: "'j platform \<Rightarrow> f64 \<Rightarrow> int \<Rightarrow> bool \<Rightarrow> string" where
  "fmt_g pf mag sig upper =
     (if f64_is_zero mag then ''0''
      else
        let ex = f64_to_int i32_min i32_max (f64_floor (pf_math1 pf ''log10'' mag)) in
        if ex < - 4 \<or> as_i32 sig \<le> ex then trim_g (fmt_exp mag (nat (sig - 1)) upper)
        else trim_g (fmt_fixed_any (nat (as_i32 sig - 1 - ex)) mag))"

definition fmt_float :: "'j platform \<Rightarrow> f64 \<Rightarrow> uchar \<Rightarrow> flags \<Rightarrow> string" where
  "fmt_float pf x conv fl =
     (let prec = (case fl_precision fl of Some p \<Rightarrow> p | None \<Rightarrow> 6);
          neg = (f64_neg_sign x \<and> f64_nonzero x); mag = f64_abs x;
          body =
            (if conv = cp CHR ''f'' then fmt_fixed_any (nat prec) mag
             else if conv = cp CHR ''e'' \<or> conv = cp CHR ''E'' then
               fmt_exp mag (nat prec) (conv = cp CHR ''E'')
             else fmt_g pf mag (if prec = 0 then 1 else prec) (conv = cp CHR ''G''));
          sgn = sign_str neg fl;
          zero = (fl_zero fl \<and> \<not> fl_left fl);
          s = (case fl_width fl of
             Some w \<Rightarrow>
               if zero then sgn @ replicate (nat (w - int (length (sgn @ body)))) CHR ''0'' @ body
               else sgn @ body
           | None \<Rightarrow> sgn @ body)
      in pad s fl)"

text \<open>The \<open>i64\<close> view of an argument: through \<open>f64\<close>, and 0 when there is none.\<close>

definition arg_i64 :: "'j sql_value list \<Rightarrow> nat \<Rightarrow> int" where
  "arg_i64 args ai =
     (case Option.bind (get args ai) as_f64 of
        Some f \<Rightarrow> f64_to_int i64_min i64_max f
      | None \<Rightarrow> 0)"

definition arg_text :: "'j platform \<Rightarrow> 'j sql_value list \<Rightarrow> nat \<Rightarrow> string" where
  "arg_text pf args ai = (case get args ai of Some v \<Rightarrow> to_display_string pf v | None \<Rightarrow> [])"

text \<open>One conversion: what it prints, and the index of the next argument.\<close>

definition fmt_conv ::
    "'j platform \<Rightarrow> 'j sql_value list \<Rightarrow> uchar \<Rightarrow> flags \<Rightarrow> nat \<Rightarrow> string \<times> nat" where
  "fmt_conv pf args conv fl ai =
     (if conv = cp CHR ''%'' then (''%'', ai)
      else if conv = cp CHR ''d'' \<or> conv = cp CHR ''i'' then (fmt_int (arg_i64 args ai) 10 fl, ai + 1)
      else if conv = cp CHR ''u'' then (fmt_int (arg_i64 args ai mod 2 ^ 64) 10 fl, ai + 1)
      else if conv = cp CHR ''x'' \<or> conv = cp CHR ''X'' \<or> conv = cp CHR ''o'' then
        let n = arg_i64 args ai; base = (if conv = cp CHR ''o'' then 8 else 16);
            s = fmt_radix (n mod 2 ^ 64) base (conv = cp CHR ''X'');
            s = (if fl_alt fl \<and> n \<noteq> 0 then
                   (if conv = cp CHR ''o'' then ''0''
                    else if conv = cp CHR ''x'' then ''0x'' else ''0X'') @ s
                 else s)
        in (pad s fl, ai + 1)
      else if conv = cp CHR ''c'' then (pad (of_chars (take 1 (chars (arg_text pf args ai)))) fl, ai + 1)
      else if conv = cp CHR ''s'' then
        let s = arg_text pf args ai;
            s = (case fl_precision fl of Some p \<Rightarrow> of_chars (take (nat p) (chars s)) | None \<Rightarrow> s)
        in (pad s fl, ai + 1)
      else if conv \<in> {cp CHR ''f'', cp CHR ''e'', cp CHR ''E'', cp CHR ''g'', cp CHR ''G''} then
        let x = (case Option.bind (get args ai) as_f64 of Some x \<Rightarrow> x | None \<Rightarrow> f64_zero False)
        in (fmt_float pf x conv fl, ai + 1)
      else (''%'' @ utf8_char conv, ai))"

text \<open>
  Flags, width and precision after a \<open>%\<close>: \<open>None\<close> when the format ends there, otherwise the
  flags, the conversion character, the rest of the format and the next argument.
\<close>

definition read_spec ::
    "'j sql_value list \<Rightarrow> uchar list \<Rightarrow> nat \<Rightarrow> (flags \<times> uchar \<times> uchar list \<times> nat) option qres" where
  "read_spec args cs ai =
     (let (fl, cs) = take_flags cs no_flags in
      obind (read_num args cs ai) (\<lambda>(width, cs, ai).
      obind (if cs \<noteq> [] \<and> hd cs = cp CHR ''.'' then
               omap (\<lambda>(p, cs, ai). (Some (case p of Some k \<Rightarrow> k | None \<Rightarrow> 0), cs, ai)) (read_num args (tl cs) ai)
             else Ok (None, cs, ai)) (\<lambda>(precision, cs, ai).
      case cs of
        [] \<Rightarrow> Ok None
      | conv # rest \<Rightarrow> Ok (Some (fl\<lparr>fl_width := width, fl_precision := precision\<rparr>, conv, rest, ai)))))"

lemma take_flags_length: "length (snd (take_flags cs fl)) \<le> length cs"
  by (induction cs fl rule: take_flags.induct) (auto simp: le_SucI)

lemma read_digits_length: "read_digits cs n = Ok (k, rest) \<Longrightarrow> length rest \<le> length cs"
  by (induction cs n rule: read_digits.induct) (fastforce simp: outcome_simps split: if_splits)+

lemma omap_eq_Ok: "omap f m = Ok y \<longleftrightarrow> (\<exists>x. m = Ok x \<and> y = f x)"
  by (cases m) auto

lemma read_num_length: "read_num args cs ai = Ok (k, rest, aj) \<Longrightarrow> length rest \<le> length cs"
  by (auto simp: read_num_def omap_eq_Ok dest: read_digits_length split: if_splits)

lemma read_spec_length:
  assumes "read_spec args cs ai = Ok (Some (fl, conv, rest, aj))"
  shows "length rest < length cs"
proof -
  obtain fl1 cs1 where 1: "take_flags cs no_flags = (fl1, cs1)" by force
  obtain w cs2 a2 where 2: "read_num args cs1 ai = Ok (w, cs2, a2)"
    using assms 1 by (auto simp: read_spec_def outcome_simps)
  have l: "length cs1 \<le> length cs" "length cs2 \<le> length cs1"
    using take_flags_length [of cs no_flags] 1 read_num_length [OF 2] by simp_all
  show ?thesis
  proof (cases "cs2 \<noteq> [] \<and> hd cs2 = cp CHR ''.''")
    case True
    then obtain p cs3 a3 where 3: "read_num args (tl cs2) a2 = Ok (p, cs3, a3)"
      using assms 1 2 by (auto simp: read_spec_def outcome_simps omap_eq_Ok)
    with read_num_length [OF 3] l assms 1 2 True show ?thesis
      by (auto simp: read_spec_def outcome_simps split: list.splits)
  next
    case False
    then have "\<exists>c. cs2 = c # rest"
      using assms 1 2 by (cases cs2) (auto simp: read_spec_def outcome_simps split: if_splits)
    with l show ?thesis by auto
  qed
qed

function printf_loop :: "'j platform \<Rightarrow> 'j sql_value list \<Rightarrow> uchar list \<Rightarrow> nat \<Rightarrow> string qres" where
  "printf_loop pf args [] ai = Ok []"
| "printf_loop pf args (c # cs) ai =
     (if c \<noteq> cp CHR ''%'' then omap (\<lambda>out. utf8_char c @ out) (printf_loop pf args cs ai)
      else if cs = [] then Ok []
      else
        (case read_spec args cs ai of
           Ok (Some (fl, conv, rest, ai)) \<Rightarrow>
             let (s, ai) = fmt_conv pf args conv fl ai in
             omap (\<lambda>out. s @ out) (printf_loop pf args rest ai)
         | Ok None \<Rightarrow> Ok []
         | Err e \<Rightarrow> Err e
         | Panic \<Rightarrow> Panic
         | Diverge \<Rightarrow> Diverge))"
  by pat_completeness auto
termination
  by (relation "measure (\<lambda>(pf, args, cs, ai). length cs)") (auto dest!: read_spec_length)

definition printf :: "'j platform \<Rightarrow> 'j sql_value list \<Rightarrow> 'j sql_value qres" where
  "printf pf args =
     (case get args 0 of
        None \<Rightarrow> Ok VNull
      | Some v \<Rightarrow>
          if is_null v then Ok VNull
          else omap VText (printf_loop pf args (chars (to_display_string pf v)) 1))"

section \<open>Properties\<close>

subsection \<open>The generator\<close>

lemma shift_fixed_zero:
  fixes x :: u64
  assumes "0 < n"
  shows "x = drop_bit n x \<Longrightarrow> x = 0" "x = push_bit n x \<Longrightarrow> x = 0"
proof -
  assume d: "x = drop_bit n x"
  have "drop_bit (k * n) x = x" for k
  proof (induction k)
    case (Suc k)
    have "drop_bit (Suc k * n) x = drop_bit (k * n) (drop_bit n x)"
      by (simp only: drop_bit_drop_bit mult_Suc add.commute)
    also have "\<dots> = x" using Suc d by metis
    finally show ?case .
  qed simp
  from this [of 64] show "x = 0"
    using assms drop_bit_word_beyond [of "64 * n" x] by simp
next
  assume d: "x = push_bit n x"
  have "push_bit (k * n) x = x" for k
  proof (induction k)
    case (Suc k)
    have "push_bit (Suc k * n) x = push_bit (k * n) (push_bit n x)"
      by (simp only: push_bit_push_bit mult_Suc add.commute)
    also have "\<dots> = x" using Suc d by metis
    finally show ?case .
  qed simp
  from this [of 64] show "x = 0"
    using assms push_bit_word_beyond [of "64 * n" x] by simp
qed

lemma xor_zero: "(a :: u64) XOR b = 0 \<longleftrightarrow> a = b"
proof
  assume "a XOR b = 0"
  then have "(a XOR b) XOR b = b" by simp
  then show "a = b" by (simp add: xor.assoc)
qed simp

lemma xor_shift_zero:
  fixes x :: u64
  assumes "0 < n"
  shows "x XOR drop_bit n x = 0 \<longleftrightarrow> x = 0" "x XOR push_bit n x = 0 \<longleftrightarrow> x = 0"
  using shift_fixed_zero [OF assms, of x] by (auto simp: xor_zero)

lemma xorshift_step_zero: "xorshift_step x = 0 \<longleftrightarrow> x = 0"
  unfolding xorshift_step_def Let_def by (simp only: xor_shift_zero zero_less_numeral)

lemma or_one_nonzero: "(x :: u64) OR 1 \<noteq> 0"
proof
  assume "x OR 1 = 0"
  then have "bit (x OR 1) 0 = bit (0 :: u64) 0" by simp
  then show False by (simp add: bit_simps)
qed

text \<open>
  The generator seeds itself once: whatever the clock says, a draw leaves a state that is
  not zero, so every later draw succeeds without reading the clock, and the state it
  leaves is the xorshift successor of the one before.
\<close>

theorem rng_seeds_once:
  "\<exists>x w'. next_u64 w = Ok (x, w') \<and> w_rng w' \<noteq> 0 \<and> w_clock w' = w_clock w
     \<and> (\<exists>y. next_u64 w' = Ok (y, w'\<lparr>w_rng := xorshift_step (w_rng w')\<rparr>))
     \<and> w_rng w' = xorshift_step (if w_rng w = 0 then rng_seed (w_clock w (w_ticks w)) else w_rng w)"
  by (auto simp: next_u64_def read_clock_def Let_def xorshift_step_zero rng_seed_def or_one_nonzero)

lemma next_u64_total: "\<exists>x w'. next_u64 w = Ok (x, w')"
  by (simp add: next_u64_def read_clock_def Let_def)

lemma random_bytes_total: "\<exists>bs w'. random_bytes k w = Ok (bs, w') \<and> length bs = 8 * k"
proof (induction k arbitrary: w)
  case (Suc k)
  obtain x w1 where x: "next_u64 w = Ok (x, w1)" using next_u64_total by blast
  obtain bs w2 where "random_bytes k w1 = Ok (bs, w2)" "length bs = 8 * k" using Suc by blast
  with x show ?case by (simp add: ev_simps u64_be_def)
qed (simp add: ev_simps)

lemma randomblob_length:
  "\<exists>bs w'. randomblob i w = Ok (VBlob bs, w') \<and> int (length bs) = max (int_of_i64 i) 1"
proof -
  define n where "n = nat (max (int_of_i64 i) 1)"
  obtain bs w' where "random_bytes ((n + 7) div 8) w = Ok (bs, w')" "length bs = 8 * ((n + 7) div 8)"
    using random_bytes_total by blast
  moreover have "n \<le> 8 * ((n + 7) div 8)" by simp
  moreover have "int n = max (int_of_i64 i) 1" unfolding n_def by (cases "1 \<le> int_of_i64 i") auto
  ultimately show ?thesis
    unfolding randomblob_def Let_def n_def [symmetric] by (auto simp: ev_simps)
qed

subsection \<open>\<open>GLOB\<close>\<close>

text \<open>What a pattern matches, as rules.\<close>

inductive glob_matches :: "uchar list \<Rightarrow> uchar list \<Rightarrow> bool" where
  Empty: "glob_matches [] []"
| Star: "glob_matches p t \<Longrightarrow> glob_matches (cp CHR ''*'' # p) (s @ t)"
| Any: "glob_matches p t \<Longrightarrow> glob_matches (cp CHR ''?'' # p) (d # t)"
| Class: "class_match p d = Some (True, n) \<Longrightarrow> glob_matches (drop n p) t \<Longrightarrow>
    glob_matches (cp CHR ''['' # p) (d # t)"
| Literal: "c \<notin> {cp CHR ''*'', cp CHR ''?'', cp CHR ''[''} \<Longrightarrow> glob_matches p t \<Longrightarrow>
    glob_matches (c # p) (c # t)"

inductive_cases glob_matches_NilE: "glob_matches [] t"
inductive_cases glob_matches_ConsE: "glob_matches (c # p) t"

lemma cp_distinct: "cp CHR ''*'' \<noteq> cp CHR ''?''" "cp CHR ''*'' \<noteq> cp CHR ''[''" "cp CHR ''?'' \<noteq> cp CHR ''[''"
  by code_simp+

lemma star_grow: "glob_matches (cp CHR ''*'' # p) t \<Longrightarrow> glob_matches (cp CHR ''*'' # p) (d # t)"
  by (erule glob_matches_ConsE) (use cp_distinct Star [of p _ "d # _"] in auto)

text \<open>
  \<open>GLOB\<close> decides its pattern language: the backtracking matcher accepts a text exactly when
  the pattern describes it, where \<open>*\<close> stands for any run of characters, \<open>?\<close> for one, a bracket
  for one character of its class, and any other character for itself.
\<close>

theorem glob_rec_correct: "glob_rec p t \<longleftrightarrow> glob_matches p t"
proof
  show "glob_rec p t \<Longrightarrow> glob_matches p t"
  proof (induction p t rule: glob_rec.induct)
    case (1 t)
    then show ?case by (simp add: Empty)
  next
    case (2 c p t)
    show ?case
    proof (cases "c = cp CHR ''*''")
      case True
      show ?thesis
      proof (cases "glob_rec p t")
        case True
        with 2(1) \<open>c = cp CHR ''*''\<close> show ?thesis using Star [of p t "[]"] by simp
      next
        case False
        with 2 True obtain d u where t: "t = d # u" "glob_rec (c # p) u"
          by (auto simp: glob_rec.simps(2) split: list.splits)
        with 2(2) [OF True] False have "glob_matches (c # p) u" by simp
        then show ?thesis using True t
          using star_grow by simp
      qed
    next
      case False
      with 2(6) obtain d u where t: "t = d # u"
        by (auto simp: glob_rec.simps(2) split: list.splits)
      with False 2 show ?thesis
        by (auto simp: glob_rec.simps(2) split: if_splits option.splits intro: glob_matches.intros [simplified])
    qed
  qed
  have star: "glob_rec p t \<Longrightarrow> glob_rec (cp CHR ''*'' # p) (s @ t)" for p t s
    by (induction s) (simp_all add: glob_rec.simps(2))
  show "glob_matches p t \<Longrightarrow> glob_rec p t"
    by (induction rule: glob_matches.induct)
      (use star cp_distinct in \<open>auto simp: glob_rec.simps(2) [of "cp CHR ''?''"] glob_rec.simps(2) [of "cp CHR ''[''"]
        glob_rec.simps(2) [of c for c]\<close>)
qed

end
