(* ===== verification/DateTime.thy ===== *)
theory DateTime
  imports Builtins
begin

text \<open>
  The date and time functions, \<open>squrust-sql/src/executor/datetime.rs\<close>: instants as Julian
  days in milliseconds with lazily computed calendar fields, the parsers of time strings
  and modifiers, and the six SQL functions. Additions that the code leaves unchecked panic
  in the model when they overflow an \<open>i64\<close>.
\<close>

section \<open>Instants\<close>

definition UNIX_EPOCH_MS :: int where "UNIX_EPOCH_MS = 210866760000000"
definition MAX_IJD :: int where "MAX_IJD = 464269060800000"
definition MAX_RAW_JD :: f64 where "MAX_RAW_JD = f64_dec 53734845 1"

record date_time =
  dt_ijd :: int
  dt_y :: int
  dt_m :: int
  dt_d :: int
  dt_h :: int
  dt_min :: int
  dt_s :: f64
  dt_raw_s :: "f64 option"
  dt_valid_jd :: bool
  dt_valid_ymd :: bool
  dt_valid_hms :: bool
  dt_use_subsec :: bool
  dt_error :: bool

definition dt_blank :: date_time where
  "dt_blank = \<lparr>dt_ijd = 0, dt_y = 0, dt_m = 0, dt_d = 0, dt_h = 0, dt_min = 0, dt_s = f64_zero False,
     dt_raw_s = None, dt_valid_jd = False, dt_valid_ymd = False, dt_valid_hms = False,
     dt_use_subsec = False, dt_error = False\<rparr>"

text \<open>\<open>as i64\<close> of a number, as an integer.\<close>

definition f64_int :: "f64 \<Rightarrow> int" where
  "f64_int x = f64_to_int i64_min i64_max x"

text \<open>The day number of a calendar date, at midnight, in milliseconds.\<close>

definition date_ijd :: "int \<Rightarrow> int \<Rightarrow> int \<Rightarrow> int" where
  "date_ijd y m d =
     (let (y, m) = (if m \<le> 2 then (y - 1, m + 12) else (y, m));
          a = rust_div (y + 4800) 100;
          b = 38 - a + rust_div a 4;
          x1 = rust_div (36525 * (y + 4716)) 100;
          x2 = rust_div (306001 * (m + 1)) 10000
      in f64_int (f64_mul (f64_sub (f64_of_int (x1 + x2 + d + b)) (f64_dec 15245 1)) (f64_of_int 86400000)))"

definition time_ms :: "int \<Rightarrow> int \<Rightarrow> f64 \<Rightarrow> int" where
  "time_ms h mi s =
     h * 3600000 + mi * 60000 + f64_int (f64_add (f64_mul s (f64_of_int 1000)) (f64_dec 5 1))"

definition compute_jd :: "date_time \<Rightarrow> date_time" where
  "compute_jd p =
     (if dt_valid_jd p then p
      else
        let (y, m, d) = (if dt_valid_ymd p then (dt_y p, dt_m p, dt_d p) else (2000, 1, 1)) in
        if y < - 4713 \<or> 9999 < y \<or> dt_raw_s p \<noteq> None then p\<lparr>dt_error := True\<rparr>
        else
          let ijd = date_ijd y m d;
              ijd = (if dt_valid_hms p then ijd + time_ms (dt_h p) (dt_min p) (dt_s p) else ijd)
          in p\<lparr>dt_ijd := ijd, dt_valid_jd := True\<rparr>)"

text \<open>Year, month and day of the day number \<open>z\<close>.\<close>

definition ymd_of_day :: "int \<Rightarrow> int \<times> int \<times> int" where
  "ymd_of_day z =
     (let alpha = f64_int (f64_div (f64_add (f64_of_int z) (f64_dec 3204475 2)) (f64_dec 3652425 2)) - 52;
          a = z + 1 + alpha - rust_div (alpha + 100) 4 + 25;
          b = a + 1524;
          c = f64_int (f64_div (f64_sub (f64_of_int b) (f64_dec 1221 1)) (f64_dec 36525 2));
          dd = rust_div (36525 * (c mod 32768)) 100;
          e = f64_int (f64_div (f64_of_int (b - dd)) (f64_dec 306001 4));
          x1 = f64_int (f64_mul (f64_dec 306001 4) (f64_of_int e));
          d = b - dd - x1;
          m = (if e < 14 then e - 1 else e - 13);
          y = (if 2 < m then c - 4716 else c - 4715)
      in (y, m, d))"

definition compute_ymd :: "date_time \<Rightarrow> date_time qres" where
  "compute_ymd p =
     (if dt_valid_ymd p then Ok p
      else if \<not> dt_valid_jd p then
        Ok (p\<lparr>dt_y := 2000, dt_m := 1, dt_d := 1, dt_valid_ymd := True\<rparr>)
      else
        obind (ck_i64 (dt_ijd p + 43200000)) (\<lambda>t.
        let (y, m, d) = ymd_of_day (rust_div t 86400000) in
        Ok (p\<lparr>dt_y := y, dt_m := m, dt_d := d, dt_valid_ymd := True\<rparr>)))"

definition compute_hms :: "date_time \<Rightarrow> date_time qres" where
  "compute_hms p =
     (if dt_valid_hms p then Ok p
      else
        let p = compute_jd p in
        obind (ck_i64 (dt_ijd p + 43200000)) (\<lambda>t.
        let day_ms = t mod 86400000; day_min = day_ms div 60000 in
        Ok (p\<lparr>dt_s := f64_div (f64_of_int (day_ms mod 60000)) (f64_of_int 1000),
              dt_min := day_min mod 60, dt_h := day_min div 60,
              dt_raw_s := None, dt_valid_hms := True\<rparr>)))"

definition compute_ymd_hms :: "date_time \<Rightarrow> date_time qres" where
  "compute_ymd_hms p = obind (compute_ymd p) compute_hms"

definition clear_derived :: "date_time \<Rightarrow> date_time" where
  "clear_derived p = p\<lparr>dt_valid_ymd := False, dt_valid_hms := False\<rparr>"

definition days_after_sunday :: "date_time \<Rightarrow> int" where
  "days_after_sunday p = rust_rem (rust_div (dt_ijd p + 129600000) 86400000) 7"

definition days_after_monday :: "date_time \<Rightarrow> int" where
  "days_after_monday p = rust_rem (rust_div (dt_ijd p + 43200000) 86400000) 7"

definition iso_thursday :: "date_time \<Rightarrow> date_time qres" where
  "iso_thursday p =
     compute_ymd (p\<lparr>dt_ijd := dt_ijd p + (3 - days_after_monday p) * 86400000, dt_valid_ymd := False\<rparr>)"

definition days_after_jan01 :: "date_time \<Rightarrow> int" where
  "days_after_jan01 p =
     (let jan01 = compute_jd (p\<lparr>dt_valid_jd := False, dt_m := 1, dt_d := 1\<rparr>) in
      rust_div (dt_ijd p - dt_ijd jan01 + 43200000) 86400000)"

text \<open>\<open>(lo..hi).contains(&r)\<close>.\<close>

definition f64_in :: "f64 \<Rightarrow> f64 \<Rightarrow> f64 \<Rightarrow> bool" where
  "f64_in lo hi r \<longleftrightarrow> f64_le lo r \<and> f64_lt r hi"

definition set_raw_number :: "f64 \<Rightarrow> date_time \<Rightarrow> date_time" where
  "set_raw_number r p =
     (let p = p\<lparr>dt_raw_s := Some r\<rparr> in
      if f64_in (f64_zero False) MAX_RAW_JD r then
        p\<lparr>dt_ijd := f64_int (f64_add (f64_mul r (f64_of_int 86400000)) (f64_dec 5 1)), dt_valid_jd := True\<rparr>
      else p)"

definition set_to_current :: "date_time \<Rightarrow> date_time ev" where
  "set_to_current p =
     ev_bind read_clock (\<lambda>now.
     let ms = (case now of Some n \<Rightarrow> sint (word_of_int (int (n div 1000000)) :: 64 word) | None \<Rightarrow> 0) in
     ev_bind (ev_lift (ck_i64 (ms + UNIX_EPOCH_MS))) (\<lambda>ijd.
     ev_return (p\<lparr>dt_ijd := ijd, dt_valid_jd := True\<rparr>)))"

section \<open>Time strings\<close>

text \<open>Two ASCII digits at an index.\<close>

definition two_digits :: "string \<Rightarrow> nat \<Rightarrow> int option" where
  "two_digits z i =
     (if i + 1 < length z \<and> is_digit (z ! i) \<and> is_digit (z ! (i + 1))
      then Some (digit_val (z ! i) * 10 + digit_val (z ! (i + 1))) else None)"

definition byte_is :: "string \<Rightarrow> nat \<Rightarrow> char \<Rightarrow> bool" where
  "byte_is z i c \<longleftrightarrow> i < length z \<and> z ! i = c"

text \<open>The fraction of a second: digits, capped at 0.999.\<close>

definition parse_fraction :: "string \<Rightarrow> f64" where
  "parse_fraction ds =
     (let (frac, scale) = foldl (\<lambda>(frac, scale) c.
            (f64_add (f64_mul frac (f64_of_int 10)) (f64_of_int (digit_val c)), f64_mul scale (f64_of_int 10)))
          (f64_zero False, f64_of_int 1) ds;
          frac = f64_div frac scale
      in if f64_lt (f64_dec 999 3) frac then f64_dec 999 3 else frac)"

definition parse_hh_mm_ss :: "string \<Rightarrow> (int \<times> int \<times> f64 \<times> string) option" where
  "parse_hh_mm_ss z =
     (case (two_digits z 0, two_digits z 3) of
        (Some h, Some m) \<Rightarrow>
          if \<not> byte_is z 2 CHR '':'' then None
          else
            let rest = drop 5 z in
            (case strip_prefix '':'' rest of
               None \<Rightarrow> Some (h, m, f64_zero False, rest)
             | Some after \<Rightarrow>
                 (case two_digits after 0 of
                    None \<Rightarrow> None
                  | Some sec \<Rightarrow>
                      let rest = drop 2 after;
                          ds = (case strip_prefix ''.'' rest of Some dot \<Rightarrow> takeWhile is_digit dot | None \<Rightarrow> []);
                          (frac, rest) = (if ds \<noteq> [] then (parse_fraction ds, drop (1 + length ds) rest)
                                          else (f64_zero False, rest))
                      in Some (h, m, f64_add (f64_of_int sec) frac, rest)))
      | _ \<Rightarrow> None)"

definition parse_yyyy_mm_dd :: "string \<Rightarrow> date_time \<Rightarrow> bool \<times> date_time" where
  "parse_yyyy_mm_dd z p =
     (let (neg, body) = (case strip_prefix ''-'' z of Some rest \<Rightarrow> (True, rest) | None \<Rightarrow> (False, z)) in
      if length body < 10 then (False, p)
      else case (two_digits body 0, two_digits body 2, two_digits body 5, two_digits body 8) of
        (Some y1, Some y2, Some m, Some d) \<Rightarrow>
          if \<not> (byte_is body 4 CHR ''-'' \<and> byte_is body 7 CHR ''-'') then (False, p)
          else if \<not> (1 \<le> m \<and> m \<le> 12) \<or> \<not> (1 \<le> d \<and> d \<le> 31) then (False, p)
          else
            let y = y1 * 100 + y2;
                tail = dropWhile (\<lambda>c. c = CHR '' '' \<or> c = CHR ''T'') (drop 10 body);
                ymd = (\<lambda>p. p\<lparr>dt_valid_jd := False, dt_valid_ymd := True, dt_y := (if neg then - y else y),
                            dt_m := m, dt_d := d\<rparr>)
            in if tail = [] then (True, ymd (p\<lparr>dt_valid_hms := False\<rparr>))
               else (case parse_hh_mm_ss tail of
                 Some (h, mi, s, rest) \<Rightarrow>
                   if dropWhile (\<lambda>c. c = CHR ''Z'') rest \<noteq> [] then (False, p)
                   else (True, ymd (p\<lparr>dt_valid_hms := True, dt_h := h, dt_min := mi, dt_s := s\<rparr>))
               | None \<Rightarrow> (False, p))
      | _ \<Rightarrow> (False, p))"

definition parse_date_or_time :: "string \<Rightarrow> date_time \<Rightarrow> (bool \<times> date_time) ev" where
  "parse_date_or_time z p =
     (let z = trim z; (ok, q) = parse_yyyy_mm_dd z p in
      if ok then ev_return (True, q)
      else
        let other =
          (if eq_ignore_ascii_case z ''now'' then
             ev_bind (set_to_current p) (\<lambda>p. ev_return (True, p))
           else
             (case parse_f64 z of
                Some r \<Rightarrow> ev_return (True, set_raw_number r p)
              | None \<Rightarrow>
                  if eq_ignore_ascii_case z ''subsec'' \<or> eq_ignore_ascii_case z ''subsecond'' then
                    ev_bind (set_to_current (p\<lparr>dt_use_subsec := True\<rparr>)) (\<lambda>p. ev_return (True, p))
                  else ev_return (False, p)))
        in (case parse_hh_mm_ss z of
              Some (h, m, s, rest) \<Rightarrow>
                if dropWhile (\<lambda>c. c = CHR ''Z'') rest = [] then
                  ev_return (True, p\<lparr>dt_valid_jd := False, dt_valid_hms := True, dt_h := h, dt_min := m, dt_s := s\<rparr>)
                else other
            | None \<Rightarrow> other))"

section \<open>Modifiers\<close>

definition XFORM :: "(string \<times> f64 \<times> f64) list" where
  "XFORM =
     [(''second'', f64_of_int 464270000000000, f64_of_int 1),
      (''minute'', f64_of_int 7737900000000, f64_of_int 60),
      (''hour'', f64_of_int 128970000000, f64_of_int 3600),
      (''day'', f64_of_int 5373485, f64_of_int 86400),
      (''month'', f64_of_int 176546, f64_of_int 2592000),
      (''year'', f64_of_int 14713, f64_of_int 31536000)]"

fun position :: "('a \<Rightarrow> bool) \<Rightarrow> 'a list \<Rightarrow> nat option" where
  "position f [] = None"
| "position f (x # xs) = (if f x then Some 0 else map_option Suc (position f xs))"

definition add_ijd :: "int \<Rightarrow> date_time \<Rightarrow> date_time qres" where
  "add_ijd k p = obind (ck_i64 (dt_ijd p + k)) (\<lambda>ijd. Ok (p\<lparr>dt_ijd := ijd\<rparr>))"

text \<open>\<open>(+|-)HH:MM[:SS[.FFF]]\<close>.\<close>

definition time_offset :: "string \<Rightarrow> bool \<Rightarrow> date_time \<Rightarrow> (bool \<times> date_time) qres" where
  "time_offset z neg p =
     (let after_sign = dropWhile (\<lambda>c. c = CHR ''+'' \<or> c = CHR ''-'') z in
      case parse_hh_mm_ss after_sign of
        None \<Rightarrow> Ok (False, p)
      | Some (h, m, s, rest) \<Rightarrow>
          if rest \<noteq> [] then Ok (False, p)
          else
            let delta = time_ms h m s; delta = (if neg then - delta else delta) in
            omap (\<lambda>p. (True, p)) (add_ijd delta (clear_derived (compute_jd p))))"

definition add_months :: "int \<Rightarrow> date_time \<Rightarrow> date_time" where
  "add_months k p =
     (let m = dt_m p + k; x = (if 0 < m then rust_div (m - 1) 12 else rust_div (m - 12) 12) in
      p\<lparr>dt_y := dt_y p + x, dt_m := m - x * 12, dt_valid_jd := False\<rparr>)"

text \<open>\<open>N unit\<close>: months and years move the calendar fields, the fraction is added as time.\<close>

definition add_units :: "nat \<Rightarrow> f64 \<Rightarrow> f64 \<Rightarrow> date_time \<Rightarrow> (bool \<times> date_time) qres" where
  "add_units idx r rxform p =
     (let rounder = (if f64_lt r (f64_zero False) then f64_neg (f64_dec 5 1) else f64_dec 5 1) in
      obind (if idx = 4 then omap (\<lambda>p. (add_months (f64_int r) p, f64_sub r (f64_trunc r))) (compute_ymd_hms p)
             else if idx = 5 then
               omap (\<lambda>p. (p\<lparr>dt_y := dt_y p + f64_int r, dt_valid_jd := False\<rparr>, f64_sub r (f64_trunc r)))
                 (compute_ymd_hms p)
             else Ok (p, r)) (\<lambda>(p, r).
      omap (\<lambda>p. (True, clear_derived p))
        (add_ijd (f64_int (f64_add (f64_mul (f64_mul r (f64_of_int 1000)) rxform) rounder)) (compute_jd p))))"

definition parse_numeric_modifier :: "string \<Rightarrow> date_time \<Rightarrow> (bool \<times> date_time) qres" where
  "parse_numeric_modifier z p =
     (let neg = prefix ''-'' z;
          num_str = take 1 z @ takeWhile (\<lambda>c. is_digit c \<or> c = CHR ''.'') (drop 1 z);
          tail = drop (length num_str) z
      in if prefix '':'' tail then time_offset z neg p
         else case parse_f64 num_str of
           None \<Rightarrow> Ok (False, p)
         | Some r \<Rightarrow>
             let unit = trim tail in
             if unit = [] then Ok (False, p)
             else
               let unit = (if 3 \<le> length unit \<and> last unit = CHR ''s'' then butlast unit else unit) in
               (case position (\<lambda>(name, _, _). name = unit) XFORM of
                  None \<Rightarrow> Ok (False, p)
                | Some idx \<Rightarrow>
                    let (_, limit, rxform) = XFORM ! idx in
                    if \<not> (f64_lt (f64_neg limit) r \<and> f64_lt r limit) then Ok (False, p)
                    else add_units idx r rxform p))"

definition weekday_modifier :: "string \<Rightarrow> date_time \<Rightarrow> (bool \<times> date_time) qres" where
  "weekday_modifier rest p =
     (case parse_f64 (trim rest) of
        None \<Rightarrow> Ok (False, p)
      | Some rf \<Rightarrow>
          if f64_in (f64_zero False) (f64_of_int 7) rf \<and> f64_is_zero (f64_fract rf) then
            let n = f64_int rf in
            obind (compute_ymd_hms p) (\<lambda>p.
            let p = compute_jd (p\<lparr>dt_valid_jd := False\<rparr>) in
            obind (ck_i64 (dt_ijd p + 129600000)) (\<lambda>t.
            let zw = rust_rem (rust_div t 86400000) 7; zw = (if n < zw then zw - 7 else zw) in
            omap (\<lambda>p. (True, clear_derived p)) (add_ijd ((n - zw) * 86400000) p)))
          else Ok (False, p))"

definition start_of_modifier :: "string \<Rightarrow> date_time \<Rightarrow> (bool \<times> date_time) qres" where
  "start_of_modifier unit p =
     (if \<not> dt_valid_jd p \<and> \<not> dt_valid_ymd p \<and> \<not> dt_valid_hms p then Ok (False, p)
      else
        obind (compute_ymd p) (\<lambda>p.
        let p = p\<lparr>dt_valid_hms := True, dt_h := 0, dt_min := 0, dt_s := f64_zero False,
                  dt_raw_s := None, dt_valid_jd := False\<rparr> in
        Ok (if unit = ''month'' then (True, p\<lparr>dt_d := 1\<rparr>)
            else if unit = ''year'' then (True, p\<lparr>dt_m := 1, dt_d := 1\<rparr>)
            else (unit = ''day'', p))))"

definition unixepoch_modifier :: "date_time \<Rightarrow> bool \<times> date_time" where
  "unixepoch_modifier p =
     (case dt_raw_s p of
        None \<Rightarrow> (False, p)
      | Some r \<Rightarrow>
          let v = f64_add (f64_mul r (f64_of_int 1000)) (f64_of_int UNIX_EPOCH_MS) in
          if f64_in (f64_zero False) (f64_of_int MAX_IJD) v then
            (True, (clear_derived p)\<lparr>dt_ijd := f64_int (f64_add v (f64_dec 5 1)), dt_valid_jd := True,
                                    dt_raw_s := None\<rparr>)
          else (False, p))"

text \<open>The last test indexes the first byte of the modifier: an empty one panics.\<close>

definition parse_modifier :: "string \<Rightarrow> date_time \<Rightarrow> nat \<Rightarrow> (bool \<times> date_time) qres" where
  "parse_modifier z p idx =
     (let lower = to_ascii_lowercase (trim z) in
      if lower = ''julianday'' then
        Ok (if 1 < idx then (False, p)
            else if dt_valid_jd p \<and> dt_raw_s p \<noteq> None then (True, p\<lparr>dt_raw_s := None\<rparr>)
            else (False, p))
      else if lower = ''unixepoch'' then Ok (if 1 < idx then (False, p) else unixepoch_modifier p)
      else if lower = ''utc'' \<or> lower = ''localtime'' then Ok (True, p)
      else if lower = ''subsec'' \<or> lower = ''subsecond'' then Ok (True, p\<lparr>dt_use_subsec := True\<rparr>)
      else case strip_prefix ''weekday '' lower of
        Some rest \<Rightarrow> weekday_modifier rest p
      | None \<Rightarrow>
          (case strip_prefix ''start of '' lower of
             Some unit \<Rightarrow> start_of_modifier unit p
           | None \<Rightarrow>
               obind (index_at lower 0) (\<lambda>first.
               if first = CHR ''+'' \<or> first = CHR ''-'' \<or> is_digit first
               then parse_numeric_modifier (trim z) p else Ok (False, p))))"

fun apply_modifiers :: "'j platform \<Rightarrow> 'j sql_value list \<Rightarrow> nat \<Rightarrow> date_time \<Rightarrow> date_time option qres" where
  "apply_modifiers pf [] i p = Ok (Some p)"
| "apply_modifiers pf (m # ms) i p =
     (if is_null m then Ok None
      else
        obind (parse_modifier (to_display_string pf m) p (i + 1)) (\<lambda>(ok, p).
        if ok then apply_modifiers pf ms (i + 1) p else Ok None))"

definition dt_finish :: "bool \<Rightarrow> date_time \<Rightarrow> date_time option" where
  "dt_finish no_modifiers p =
     (let p = compute_jd p in
      if dt_error p \<or> dt_ijd p < 0 \<or> MAX_IJD < dt_ijd p then None
      else if no_modifiers \<and> dt_valid_ymd p \<and> 28 < dt_d p then Some (p\<lparr>dt_valid_ymd := False\<rparr>)
      else Some p)"

definition dt_build :: "'j platform \<Rightarrow> 'j sql_value \<Rightarrow> 'j sql_value list \<Rightarrow> date_time option ev" where
  "dt_build pf first modifiers =
     (let finish = (\<lambda>p. ev_bind (ev_lift (apply_modifiers pf modifiers 0 p)) (\<lambda>r.
            ev_return (Option.bind r (dt_finish (modifiers = [])))))
      in case first of
        VNull \<Rightarrow> ev_return None
      | VInteger i \<Rightarrow> finish (set_raw_number (f64_of_i64 i) dt_blank)
      | VReal r \<Rightarrow> finish (set_raw_number r dt_blank)
      | v \<Rightarrow> ev_bind (parse_date_or_time (to_display_string pf v) dt_blank) (\<lambda>(ok, p).
          if ok then finish p else ev_return None))"


section \<open>Rendering\<close>

text \<open>\<open>{:0w}\<close> keeps the sign in front of the zeros; \<open>{:w}\<close> pads with spaces.\<close>

definition fmt_zeros :: "nat \<Rightarrow> int \<Rightarrow> string" where
  "fmt_zeros w k =
     (let a = show_nat \<bar>k\<bar> in
      if k < 0 then ''-'' @ replicate (w - 1 - length a) CHR ''0'' @ a
      else replicate (w - length a) CHR ''0'' @ a)"

definition fmt_spaces :: "nat \<Rightarrow> int \<Rightarrow> string" where
  "fmt_spaces w k = (let a = show_int k in replicate (w - length a) CHR '' '' @ a)"

definition fmt_ymd :: "date_time \<Rightarrow> string" where
  "fmt_ymd p = fmt_zeros 4 (dt_y p) @ ''-'' @ fmt_zeros 2 (dt_m p) @ ''-'' @ fmt_zeros 2 (dt_d p)"

definition fmt_hm :: "date_time \<Rightarrow> string" where
  "fmt_hm p = fmt_zeros 2 (dt_h p) @ '':'' @ fmt_zeros 2 (dt_min p)"

text \<open>Seconds, with milliseconds when asked for.\<close>

definition fmt_seconds :: "date_time \<Rightarrow> string" where
  "fmt_seconds p =
     (if dt_use_subsec p then
        let s = f64_int (f64_add (f64_mul (f64_of_int 1000) (dt_s p)) (f64_dec 5 1)) in
        fmt_zeros 2 (rust_div s 1000) @ ''.'' @ fmt_zeros 3 (rust_rem s 1000)
      else fmt_zeros 2 (f64_int (dt_s p)))"

definition dt_current :: "date_time ev" where
  "dt_current = set_to_current dt_blank"

text \<open>The instant the arguments describe: the current time when there are none.\<close>

definition dt_of_args :: "'j platform \<Rightarrow> 'j sql_value list \<Rightarrow> date_time option ev" where
  "dt_of_args pf args =
     (case args of
        f # m \<Rightarrow> dt_build pf f m
      | [] \<Rightarrow> ev_bind dt_current (\<lambda>p. ev_return (Some p)))"

definition dt_apply ::
    "'j platform \<Rightarrow> 'j sql_value list \<Rightarrow> (date_time \<Rightarrow> 'j sql_value qres) \<Rightarrow> 'j sql_value ev" where
  "dt_apply pf args f =
     ev_bind (dt_of_args pf args) (\<lambda>r.
     case r of None \<Rightarrow> ev_return VNull | Some p \<Rightarrow> ev_lift (f p))"

definition sql_date :: "'j platform \<Rightarrow> 'j sql_value list \<Rightarrow> 'j sql_value ev" where
  "sql_date pf args = dt_apply pf args (\<lambda>p. omap (\<lambda>p. VText (fmt_ymd p)) (compute_ymd p))"

definition sql_time :: "'j platform \<Rightarrow> 'j sql_value list \<Rightarrow> 'j sql_value ev" where
  "sql_time pf args =
     dt_apply pf args (\<lambda>p. omap (\<lambda>p. VText (fmt_hm p @ '':'' @ fmt_seconds p)) (compute_hms p))"

definition sql_datetime :: "'j platform \<Rightarrow> 'j sql_value list \<Rightarrow> 'j sql_value ev" where
  "sql_datetime pf args =
     dt_apply pf args (\<lambda>p.
       omap (\<lambda>p. VText (fmt_ymd p @ '' '' @ fmt_hm p @ '':'' @ fmt_seconds p)) (compute_ymd_hms p))"

definition jd_days :: "date_time \<Rightarrow> f64" where
  "jd_days p = f64_div (f64_of_int (dt_ijd p)) (f64_of_int 86400000)"

definition sql_julianday :: "'j platform \<Rightarrow> 'j sql_value list \<Rightarrow> 'j sql_value ev" where
  "sql_julianday pf args = dt_apply pf args (\<lambda>p. Ok (VReal (jd_days (compute_jd p))))"

definition unix_real :: "date_time \<Rightarrow> f64" where
  "unix_real p = f64_div (f64_of_int (dt_ijd p - UNIX_EPOCH_MS)) (f64_of_int 1000)"

definition unix_int :: "date_time \<Rightarrow> int" where
  "unix_int p = rust_div (dt_ijd p) 1000 - rust_div UNIX_EPOCH_MS 1000"

definition sql_unixepoch :: "'j platform \<Rightarrow> 'j sql_value list \<Rightarrow> 'j sql_value ev" where
  "sql_unixepoch pf args =
     dt_apply pf args (\<lambda>p.
       let p = compute_jd p in
       Ok (if dt_use_subsec p then VReal (unix_real p) else VInteger (i64_of_int (unix_int p))))"

section \<open>\<open>strftime\<close>\<close>

definition format_g :: "'j platform \<Rightarrow> f64 \<Rightarrow> nat \<Rightarrow> string" where
  "format_g pf v sig =
     (if f64_is_zero v then ''0''
      else
        let ex = f64_to_int i32_min i32_max (f64_floor (pf_math1 pf ''log10'' (f64_abs v))) in
        if ex < - 4 \<or> int sig \<le> ex then
          let (m, e) = fmt_exp_parts (sig - 1) v in trim_frac m @ ''e'' @ show_int e
        else trim_frac (fmt_fixed_any (nat (int sig - 1 - ex)) v))"

text \<open>\<open>{:06.3}\<close> of the seconds, which are not negative.\<close>

definition fmt_frac_seconds :: "f64 \<Rightarrow> string" where
  "fmt_frac_seconds s =
     (let s = (if f64_lt (f64_dec 59999 3) s then f64_dec 59999 3 else s); a = fmt_fixed 3 s in
      replicate (6 - length a) CHR ''0'' @ a)"

definition hour12 :: "int \<Rightarrow> int" where
  "hour12 h = (let h = (if 12 < h then h - 12 else h) in if h = 0 then 12 else h)"

text \<open>One conversion, or \<open>None\<close> when the letter is unknown.\<close>

definition strftime_conv :: "'j platform \<Rightarrow> uchar \<Rightarrow> date_time \<Rightarrow> string option qres" where
  "strftime_conv pf c p =
     (let is = (\<lambda>ch. c = cp ch); two = fmt_zeros 2; out = (\<lambda>s. Ok (Some s)) in
      if is CHR ''d'' then out (two (dt_d p))
      else if is CHR ''e'' then out (fmt_spaces 2 (dt_d p))
      else if is CHR ''f'' then out (fmt_frac_seconds (dt_s p))
      else if is CHR ''F'' then out (fmt_ymd p)
      else if is CHR ''G'' then obind (iso_thursday p) (\<lambda>q. out (fmt_zeros 4 (dt_y q)))
      else if is CHR ''g'' then obind (iso_thursday p) (\<lambda>q. out (two (rust_rem (dt_y q) 100)))
      else if is CHR ''V'' then
        obind (iso_thursday p) (\<lambda>q. out (two (rust_div (days_after_jan01 q) 7 + 1)))
      else if is CHR ''H'' then out (two (dt_h p))
      else if is CHR ''k'' then out (fmt_spaces 2 (dt_h p))
      else if is CHR ''I'' then out (two (hour12 (dt_h p)))
      else if is CHR ''l'' then out (fmt_spaces 2 (hour12 (dt_h p)))
      else if is CHR ''j'' then out (fmt_zeros 3 (days_after_jan01 p + 1))
      else if is CHR ''J'' then out (format_g pf (jd_days p) 16)
      else if is CHR ''m'' then out (two (dt_m p))
      else if is CHR ''M'' then out (two (dt_min p))
      else if is CHR ''p'' then out (if 12 \<le> dt_h p then ''PM'' else ''AM'')
      else if is CHR ''P'' then out (if 12 \<le> dt_h p then ''pm'' else ''am'')
      else if is CHR ''R'' then out (fmt_hm p)
      else if is CHR ''s'' then
        out (if dt_use_subsec p then fmt_fixed 3 (unix_real p) else show_int (unix_int p))
      else if is CHR ''S'' then out (two (f64_int (dt_s p)))
      else if is CHR ''T'' then out (fmt_hm p @ '':'' @ two (f64_int (dt_s p)))
      else if is CHR ''u'' then
        out (show_int (let wd = days_after_sunday p in if wd = 0 then 7 else wd))
      else if is CHR ''w'' then out (show_int (days_after_sunday p))
      else if is CHR ''U'' then
        out (two (rust_div (days_after_jan01 p - days_after_sunday p + 7) 7))
      else if is CHR ''W'' then
        out (two (rust_div (days_after_jan01 p - days_after_monday p + 7) 7))
      else if is CHR ''Y'' then out (fmt_zeros 4 (dt_y p))
      else if is CHR ''%'' then out ''%''
      else Ok None)"

fun format_strftime :: "'j platform \<Rightarrow> uchar list \<Rightarrow> date_time \<Rightarrow> string option qres" where
  "format_strftime pf (c # d # cs) p =
     (if c \<noteq> cp CHR ''%'' then omap (map_option (\<lambda>out. utf8_char c @ out)) (format_strftime pf (d # cs) p)
      else obind (strftime_conv pf d p) (\<lambda>r.
        case r of
          None \<Rightarrow> Ok None
        | Some s \<Rightarrow> omap (map_option (\<lambda>out. s @ out)) (format_strftime pf cs p)))"
| "format_strftime pf [c] p = Ok (Some (if c \<noteq> cp CHR ''%'' then utf8_char c else []))"
| "format_strftime pf [] p = Ok (Some [])"

definition strftime :: "'j platform \<Rightarrow> 'j sql_value list \<Rightarrow> 'j sql_value ev" where
  "strftime pf args =
     (case args of
        [] \<Rightarrow> ev_return VNull
      | fmt # rest \<Rightarrow>
          if is_null fmt then ev_return VNull
          else dt_apply pf rest (\<lambda>p.
            obind (compute_ymd_hms p) (\<lambda>p.
            omap (\<lambda>r. case r of Some out \<Rightarrow> VText out | None \<Rightarrow> VNull)
              (format_strftime pf (chars (to_display_string pf fmt)) p))))"

section \<open>Properties\<close>

lemma show_nat_two: "10 \<le> k \<Longrightarrow> k < 100 \<Longrightarrow> show_nat k = [digit_char (k div 10), digit_char (k mod 10)]"
  by (subst show_nat.simps, subst show_nat.simps) auto

lemma show_nat_one: "k < 10 \<Longrightarrow> show_nat k = [digit_char k]"
  by (subst show_nat.simps) simp

lemma show_nat_step: "10 \<le> k \<Longrightarrow> show_nat k = show_nat (k div 10) @ [digit_char (k mod 10)]"
  by (subst show_nat.simps) simp

lemma digit_char_0: "digit_char 0 = CHR ''0''"
  by code_simp

lemma fmt_zeros_two:
  assumes "0 \<le> k" "k < 100"
  shows "fmt_zeros 2 k = [digit_char (k div 10), digit_char (k mod 10)]"
  using assms by (cases "k < 10") (simp_all add: fmt_zeros_def Let_def show_nat_one show_nat_two digit_char_0)

lemma fmt_zeros_four:
  assumes "0 \<le> k" "k < 10000"
  shows "fmt_zeros 4 k = [digit_char (k div 1000), digit_char (k div 100 mod 10),
           digit_char (k div 10 mod 10), digit_char (k mod 10)]"
proof -
  have d: "k div 10 div 10 = k div 100" "k div 100 div 10 = k div 1000"
    by (simp_all add: div_mult2_eq [symmetric] zdiv_zmult2_eq [symmetric])
  consider "k < 10" | "10 \<le> k" "k < 100" | "100 \<le> k" "k < 1000" | "1000 \<le> k" by linarith
  then show ?thesis
  proof cases
    case 3
    then have "show_nat k = [digit_char (k div 100), digit_char (k div 10 mod 10), digit_char (k mod 10)]"
      using d by (simp add: show_nat_step show_nat_one)
    with 3 show ?thesis by (simp add: fmt_zeros_def Let_def digit_char_0)
  next
    case 4
    then have "show_nat k = [digit_char (k div 1000), digit_char (k div 100 mod 10),
        digit_char (k div 10 mod 10), digit_char (k mod 10)]"
      using d assms by (simp add: show_nat_step show_nat_one)
    with 4 show ?thesis by (simp add: fmt_zeros_def Let_def)
  qed (use assms in \<open>simp_all add: fmt_zeros_def Let_def show_nat_one show_nat_two digit_char_0 numeral_eq_Suc\<close>)
qed

lemma two_digits_at:
  assumes "z = xs @ digit_char a # digit_char b # ys" "length xs = i" "0 \<le> a" "a < 10" "0 \<le> b" "b < 10"
  shows "two_digits z i = Some (a * 10 + b)"
  using assms digit_char_props [of a] digit_char_props [of b] by (auto simp: two_digits_def nth_append)

lemma digit_char_neq:
  assumes "0 \<le> d" "d < 10"
  shows "digit_char d \<noteq> CHR '' ''" "digit_char d \<noteq> CHR ''T''" "digit_char d \<noteq> CHR ''Z''"
    "digit_char d \<noteq> CHR '':''" "digit_char d \<noteq> CHR ''.''"
proof -
  have "(of_char (digit_char d) :: nat) = 48 + nat d" using assms by (simp add: digit_char_def)
  then show "digit_char d \<noteq> CHR '' ''" "digit_char d \<noteq> CHR ''T''" "digit_char d \<noteq> CHR ''Z''"
    "digit_char d \<noteq> CHR '':''" "digit_char d \<noteq> CHR ''.''" using assms by auto
qed

lemma parse_time_text:
  assumes "0 \<le> h" "h < 100" "0 \<le> mi" "mi < 100" "0 \<le> s" "s < 100"
  shows "parse_hh_mm_ss (fmt_zeros 2 h @ '':'' @ fmt_zeros 2 mi @ '':'' @ fmt_zeros 2 s)
    = Some (h, mi, f64_add (f64_of_int s) (f64_zero False), [])"
proof -
  let ?z = "fmt_zeros 2 h @ '':'' @ fmt_zeros 2 mi @ '':'' @ fmt_zeros 2 s"
  have z: "?z = digit_char (h div 10) # digit_char (h mod 10) # CHR '':'' # digit_char (mi div 10)
      # digit_char (mi mod 10) # CHR '':'' # digit_char (s div 10) # digit_char (s mod 10) # []"
    using assms by (simp add: fmt_zeros_two)
  have "two_digits ?z 0 = Some h"
    by (subst two_digits_at [of _ "[]" "h div 10" "h mod 10"]) (use assms z in auto)
  moreover have "two_digits ?z 3 = Some mi"
    by (subst two_digits_at [of _ "take 3 ?z" "mi div 10" "mi mod 10"]) (use assms z in auto)
  moreover have "two_digits [digit_char (s div 10), digit_char (s mod 10)] 0 = Some s"
    by (subst two_digits_at [of _ "[]" "s div 10" "s mod 10"]) (use assms in auto)
  ultimately show ?thesis
    unfolding z by (simp add: parse_hh_mm_ss_def byte_is_def strip_prefix_def Let_def)
qed

lemma parse_datetime_text:
  assumes "0 \<le> dt_y q" "dt_y q \<le> 9999" "1 \<le> dt_m q" "dt_m q \<le> 12" "1 \<le> dt_d q" "dt_d q \<le> 31"
    and "0 \<le> dt_h q" "dt_h q < 100" "0 \<le> dt_min q" "dt_min q < 100"
    and "\<not> dt_use_subsec q" "0 \<le> f64_int (dt_s q)" "f64_int (dt_s q) < 100"
  shows "parse_yyyy_mm_dd (fmt_ymd q @ '' '' @ fmt_hm q @ '':'' @ fmt_seconds q) p =
    (True, p\<lparr>dt_valid_jd := False, dt_valid_ymd := True, dt_valid_hms := True,
       dt_y := dt_y q, dt_m := dt_m q, dt_d := dt_d q, dt_h := dt_h q, dt_min := dt_min q,
       dt_s := f64_add (f64_of_int (f64_int (dt_s q))) (f64_zero False)\<rparr>)"
proof -
  let ?y = "dt_y q" let ?m = "dt_m q" let ?d = "dt_d q"
  define t where "t = fmt_hm q @ '':'' @ fmt_seconds q"
  have t: "parse_hh_mm_ss t = Some (dt_h q, dt_min q, f64_add (f64_of_int (f64_int (dt_s q))) (f64_zero False), [])"
    using assms parse_time_text by (simp add: t_def fmt_hm_def fmt_seconds_def)
  have th: "dropWhile (\<lambda>c. c = CHR '' '' \<or> c = CHR ''T'') t = t" "t \<noteq> []"
    using assms digit_char_neq [of "dt_h q div 10"] by (simp_all add: t_def fmt_hm_def fmt_zeros_two)
  let ?z = "fmt_ymd q @ '' '' @ t"
  have z: "?z = digit_char (?y div 1000) # digit_char (?y div 100 mod 10) # digit_char (?y div 10 mod 10)
     # digit_char (?y mod 10) # CHR ''-'' # digit_char (?m div 10) # digit_char (?m mod 10) # CHR ''-''
     # digit_char (?d div 10) # digit_char (?d mod 10) # CHR '' '' # t"
    using assms by (simp add: fmt_ymd_def fmt_zeros_two fmt_zeros_four)
  have "two_digits ?z 0 = Some (?y div 100)"
    by (subst two_digits_at [of _ "[]" "?y div 1000" "?y div 100 mod 10"])
      (use assms z in \<open>auto simp: zdiv_zmult2_eq [of 10 _ 100, simplified]\<close>)
  moreover have "two_digits ?z 2 = Some (?y mod 100)"
    by (subst two_digits_at [of _ "take 2 ?z" "?y div 10 mod 10" "?y mod 10"])
      (use assms z in \<open>auto simp: mod_mult2_eq [of _ 10 10, simplified] zmod_zmult2_eq [of 10 _ 10, simplified]\<close>)
  moreover have "two_digits ?z 5 = Some ?m"
    by (subst two_digits_at [of _ "take 5 ?z" "?m div 10" "?m mod 10"]) (use assms z in auto)
  moreover have "two_digits ?z 8 = Some ?d"
    by (subst two_digits_at [of _ "take 8 ?z" "?d div 10" "?d mod 10"]) (use assms z in auto)
  moreover have "digit_char (?y div 1000) \<noteq> CHR ''-''" using assms by (intro digit_char_props) auto
  then have "strip_prefix ''-'' ?z = None" using z by (auto simp: strip_prefix_def)
  moreover have "byte_is ?z 4 CHR ''-''" "byte_is ?z 7 CHR ''-''" "drop 10 ?z = CHR '' '' # t" "10 \<le> length ?z"
    using z by (simp_all add: byte_is_def)
  ultimately show ?thesis
    using assms t th by (simp add: parse_yyyy_mm_dd_def t_def [symmetric] Let_def del: append_Cons)
qed

text \<open>
  C36. Reading back a printed date and time gives the same fields: when the arguments of \<open>datetime()\<close> describe
  an instant whose year has four digits (0 to 9999), whose month and day are those of a calendar and whose
  hour, minute and whole seconds have two digits, and fractional seconds are not asked for, the function returns
  a text that parses to exactly the year, month, day, hour and minute of the instant and to its whole seconds.
\<close>

theorem datetime_text_roundtrip:
  assumes "dt_of_args pf args w = Ok (Some p, w')" and "compute_ymd_hms p = Ok q"
    and "0 \<le> dt_y q" "dt_y q \<le> 9999" "1 \<le> dt_m q" "dt_m q \<le> 12" "1 \<le> dt_d q" "dt_d q \<le> 31"
    and "0 \<le> dt_h q" "dt_h q < 100" "0 \<le> dt_min q" "dt_min q < 100"
    and "\<not> dt_use_subsec q" "0 \<le> f64_int (dt_s q)" "f64_int (dt_s q) < 100"
  shows "\<exists>z. sql_datetime pf args w = Ok (VText z, w') \<and> parse_yyyy_mm_dd z r =
    (True, r\<lparr>dt_valid_jd := False, dt_valid_ymd := True, dt_valid_hms := True,
       dt_y := dt_y q, dt_m := dt_m q, dt_d := dt_d q, dt_h := dt_h q, dt_min := dt_min q,
       dt_s := f64_add (f64_of_int (f64_int (dt_s q))) (f64_zero False)\<rparr>)"
proof -
  have "sql_datetime pf args w = Ok (VText (fmt_ymd q @ '' '' @ fmt_hm q @ '':'' @ fmt_seconds q), w')"
    using assms(1,2) by (simp add: sql_datetime_def dt_apply_def ev_simps)
  with parse_datetime_text [OF assms(3-15), of r] show ?thesis by blast
qed

definition dt_demo :: date_time where
  "dt_demo = dt_blank\<lparr>dt_valid_ymd := True, dt_valid_hms := True, dt_y := 2024, dt_m := 2, dt_d := 28,
     dt_h := 10, dt_min := 20, dt_s := f64_of_int 30\<rparr>"

lemma dt_demo_parse: "parse_yyyy_mm_dd ''2024-02-28T10:20:30'' dt_blank = (True, dt_demo)"
  unfolding dt_demo_def by code_simp

lemma dt_demo_jd: "compute_jd dt_demo = dt_demo\<lparr>dt_ijd := 212575875630000, dt_valid_jd := True\<rparr>"
  unfolding dt_demo_def by code_simp

theorem datetime_text_roundtrip_witness:
  "\<exists>z w. sql_datetime test_platform [VText ''2024-02-28T10:20:30'' :: unit sql_value] \<lparr>w_clock = (\<lambda>_. None), w_ticks = 0, w_rng = 1\<rparr> = Ok (VText z, w)
    \<and> snd (parse_yyyy_mm_dd z dt_blank) = dt_blank\<lparr>dt_valid_ymd := True, dt_valid_hms := True,
         dt_y := 2024, dt_m := 2, dt_d := 28, dt_h := 10, dt_min := 20,
         dt_s := f64_add (f64_of_int 30) (f64_zero False)\<rparr>"
proof -
  let ?w = "\<lparr>w_clock = (\<lambda>_. None), w_ticks = 0, w_rng = 1\<rparr>"
  let ?p = "dt_demo\<lparr>dt_ijd := 212575875630000, dt_valid_jd := True\<rparr>"
  have t: "trim ''2024-02-28T10:20:30'' = ''2024-02-28T10:20:30''" by (simp add: trim_ascii)
  have fin: "dt_finish True dt_demo = Some ?p"
    by (simp add: dt_finish_def dt_demo_jd) (simp add: dt_demo_def dt_blank_def MAX_IJD_def)
  have args: "dt_of_args test_platform [VText ''2024-02-28T10:20:30'' :: unit sql_value] ?w = Ok (Some ?p, ?w)"
    using t dt_demo_parse fin by (simp add: dt_of_args_def dt_build_def parse_date_or_time_def ev_simps)
  have q: "compute_ymd_hms ?p = Ok ?p" by (simp add: compute_ymd_hms_def compute_ymd_def compute_hms_def dt_demo_def)
  have s: "f64_int (f64_of_int 30) = 30"
    using f64_to_int_integral [OF f64_of_int_exact(1,2), of 30 i64_min i64_max] by (simp add: f64_int_def i64_min_def i64_max_def)
  from datetime_text_roundtrip [OF args q, of dt_blank] s show ?thesis
    by (auto simp: dt_demo_def dt_blank_def)
qed

text \<open>
  An empty modifier crashes: whenever the time string is understood, the date functions
  panic on a modifier that is empty after trimming, because the code looks at its first byte
  without checking that there is one.
\<close>

theorem empty_modifier_panics:
  assumes "parse_date_or_time (to_display_string pf v) dt_blank w = Ok ((True, p), w')"
    and "\<exists>s. v = VText s" and "trim z = []"
  shows "sql_date pf (v # VText z # ms) w = Panic \<and> sql_datetime pf (v # VText z # ms) w = Panic
    \<and> strftime pf (VText fmt # v # VText z # ms) w = Panic"
proof -
  have "parse_modifier z p i = Panic" for i
    using assms by (simp add: parse_modifier_def Let_def strip_prefix_def index_at_def to_ascii_lowercase_def)
  then have "dt_apply pf (v # VText z # ms) f w = Panic" for f :: "date_time \<Rightarrow> 'a sql_value qres"
    using assms by (auto simp: dt_apply_def dt_of_args_def dt_build_def ev_simps Let_def)
  then show ?thesis by (simp add: sql_date_def sql_datetime_def strftime_def)
qed

theorem empty_modifier_panics_witness:
  "sql_date test_platform [VText ''2000-01-01'', VText ''''] \<lparr>w_clock = (\<lambda>_. None), w_ticks = 0, w_rng = 1\<rparr>
     = Panic"
proof -
  let ?w = "\<lparr>w_clock = (\<lambda>_. None), w_ticks = 0, w_rng = 1\<rparr>"
  have "fst (parse_yyyy_mm_dd ''2000-01-01'' dt_blank)" by code_simp
  then obtain q where q: "parse_yyyy_mm_dd ''2000-01-01'' dt_blank = (True, q)"
    by (cases "parse_yyyy_mm_dd ''2000-01-01'' dt_blank") auto
  have t: "trim ''2000-01-01'' = ''2000-01-01''" "trim [] = []"
    by (simp_all add: trim_ascii)
  show ?thesis
    using empty_modifier_panics [of test_platform "VText ''2000-01-01''" ?w q ?w "[]" "[]" "[]"] q t
    by (simp add: parse_date_or_time_def ev_simps)
qed

end
