(* ===== verification/Eval.thy ===== *)
theory Eval
  imports DateTime
begin

text \<open>
  Resolved expressions, \<open>squrust-sql/src/planner/expr.rs\<close>, and their evaluation against a row,
  \<open>squrust-sql/src/executor/eval.rs\<close>: the three-valued operators, arithmetic through \<open>f64\<close>,
  casts, \<open>LIKE\<close>, and the scalar functions. The syntax trees of subqueries, which evaluation
  rejects, are the type parameter \<open>'q\<close>. An operation whose overflow Rust reports (the
  negation, division or remainder of the least integer) panics.
\<close>

section \<open>Expressions\<close>

datatype bin_op = OpEq | OpNotEq | OpLt | OpLtEq | OpGt | OpGtEq | OpAnd | OpOr
  | OpAdd | OpSub | OpMul | OpDiv | OpMod | OpConcat

datatype un_op = OpNot | OpNeg

datatype ('j, 'q) expr =
    ELiteral "'j sql_value"
  | EColumn nat
  | ERowId
  | EParam nat
  | EBinary bin_op "('j, 'q) expr" "('j, 'q) expr"
  | EUnary un_op "('j, 'q) expr"
  | EIsNull "('j, 'q) expr" bool
  | ELike "('j, 'q) expr" "('j, 'q) expr" bool
  | EInList "('j, 'q) expr" "('j, 'q) expr list" bool
  | EFunction string "('j, 'q) expr list"
  | ECast "('j, 'q) expr" sql_type
  | ECase "('j, 'q) expr option" "(('j, 'q) expr \<times> ('j, 'q) expr) list" "('j, 'q) expr option"
  | EScalarSubquery 'q
  | EExists 'q bool
  | EInSubquery "('j, 'q) expr" 'q bool

section \<open>Operators\<close>

definition truth :: "'j sql_value \<Rightarrow> bool option" where
  "truth v = (if is_null v then None else Some (is_truthy v))"

definition eval_and :: "'j sql_value \<Rightarrow> 'j sql_value \<Rightarrow> 'j sql_value" where
  "eval_and l r =
     (if truth l = Some False \<or> truth r = Some False then VBoolean False
      else if truth l = Some True \<and> truth r = Some True then VBoolean True else VNull)"

definition eval_or :: "'j sql_value \<Rightarrow> 'j sql_value \<Rightarrow> 'j sql_value" where
  "eval_or l r =
     (if truth l = Some True \<or> truth r = Some True then VBoolean True
      else if truth l = Some False \<and> truth r = Some False then VBoolean False else VNull)"

definition cmp_holds :: "bin_op \<Rightarrow> ordering \<Rightarrow> bool" where
  "cmp_holds op c =
     (case op of OpEq \<Rightarrow> c = Equal | OpNotEq \<Rightarrow> c \<noteq> Equal | OpLt \<Rightarrow> c = Less
      | OpLtEq \<Rightarrow> c \<noteq> Greater | OpGt \<Rightarrow> c = Greater | _ \<Rightarrow> c \<noteq> Less)"

definition eval_cmp :: "bin_op \<Rightarrow> 'j sql_value \<Rightarrow> 'j sql_value \<Rightarrow> 'j sql_value qres" where
  "eval_cmp op l r =
     (if is_null l \<or> is_null r then Ok VNull
      else obind (ok_or (value_compare l r) (TypeError ''incomparable values'')) (\<lambda>c.
        Ok (VBoolean (cmp_holds op c))))"

fun is_integer :: "'j sql_value \<Rightarrow> bool" where
  "is_integer (VInteger _) = True"
| "is_integer _ = False"

definition real_or_int :: "bool \<Rightarrow> f64 \<Rightarrow> 'j sql_value" where
  "real_or_int both_int res =
     (if both_int \<and> f64_is_zero (f64_fract res) then VInteger (f64_to_i64 res) else VReal res)"

text \<open>Arithmetic: both operands through \<open>f64\<close>, integer division on their \<open>i64\<close> casts.\<close>

definition eval_arith :: "bin_op \<Rightarrow> 'j sql_value \<Rightarrow> 'j sql_value \<Rightarrow> 'j sql_value qres" where
  "eval_arith op l r =
     (if is_null l \<or> is_null r then Ok VNull
      else
        let both_int = (is_integer l \<and> is_integer r) in
        obind (ok_or (as_f64 l) (TypeError ''non-numeric operand'')) (\<lambda>x.
        obind (ok_or (as_f64 r) (TypeError ''non-numeric operand'')) (\<lambda>y.
        let a = int_of_i64 (f64_to_i64 x); b = int_of_i64 (f64_to_i64 y) in
        case op of
          OpAdd \<Rightarrow> Ok (real_or_int both_int (f64_add x y))
        | OpSub \<Rightarrow> Ok (real_or_int both_int (f64_sub x y))
        | OpMul \<Rightarrow> Ok (real_or_int both_int (f64_mul x y))
        | OpDiv \<Rightarrow>
            if f64_is_zero y then Ok VNull
            else if both_int then omap (\<lambda>k. VInteger (i64_of_int k)) (ck_i64 (rust_div a b))
            else Ok (VReal (f64_div x y))
        | _ \<Rightarrow>
            if f64_is_zero y then Ok VNull
            else if both_int then
              (if a = i64_min \<and> b = - 1 then Panic else Ok (VInteger (i64_of_int (rust_rem a b))))
            else Ok (VReal (f64_rem x y)))))"

definition eval_concat :: "'j platform \<Rightarrow> 'j sql_value \<Rightarrow> 'j sql_value \<Rightarrow> 'j sql_value" where
  "eval_concat pf l r =
     (if is_null l \<or> is_null r then VNull
      else VText (to_display_string pf l @ to_display_string pf r))"

definition eval_binary :: "'j platform \<Rightarrow> bin_op \<Rightarrow> 'j sql_value \<Rightarrow> 'j sql_value \<Rightarrow> 'j sql_value qres" where
  "eval_binary pf op l r =
     (case op of
        OpAnd \<Rightarrow> Ok (eval_and l r)
      | OpOr \<Rightarrow> Ok (eval_or l r)
      | OpConcat \<Rightarrow> Ok (eval_concat pf l r)
      | OpAdd \<Rightarrow> eval_arith op l r | OpSub \<Rightarrow> eval_arith op l r | OpMul \<Rightarrow> eval_arith op l r
      | OpDiv \<Rightarrow> eval_arith op l r | OpMod \<Rightarrow> eval_arith op l r
      | _ \<Rightarrow> eval_cmp op l r)"

definition eval_neg :: "'j sql_value \<Rightarrow> 'j sql_value qres" where
  "eval_neg v =
     (case v of
        VInteger i \<Rightarrow> omap (\<lambda>k. VInteger (i64_of_int k)) (ck_i64 (- int_of_i64 i))
      | VReal r \<Rightarrow> Ok (VReal (f64_neg r))
      | VNull \<Rightarrow> Ok VNull
      | other \<Rightarrow> Ok (VReal (f64_neg (case as_f64 other of Some x \<Rightarrow> x | None \<Rightarrow> f64_zero False))))"

definition eval_unary :: "un_op \<Rightarrow> 'j sql_value \<Rightarrow> 'j sql_value qres" where
  "eval_unary op v =
     (case op of
        OpNeg \<Rightarrow> eval_neg v
      | OpNot \<Rightarrow> Ok (if is_null v then VNull else VBoolean (\<not> is_truthy v)))"

section \<open>\<open>CAST\<close>\<close>

text \<open>The longest prefix that reads as a number.\<close>

definition take_sign :: "string \<Rightarrow> string \<times> string" where
  "take_sign s = (case s of c # t \<Rightarrow> if c = CHR ''+'' \<or> c = CHR ''-'' then ([c], t) else ([], s) | [] \<Rightarrow> ([], []))"

definition take_digits :: "string \<Rightarrow> string \<times> string" where
  "take_digits s = (takeWhile is_digit s, dropWhile is_digit s)"

definition number_prefix :: "string \<Rightarrow> string option" where
  "number_prefix s =
     (let (sg, s) = take_sign s; (ip, s) = take_digits s;
          (dot, fp, s) = (case s of c # t \<Rightarrow>
              if c = CHR ''.'' then let (fp, u) = take_digits t in ([c], fp, u) else ([], [], s)
            | [] \<Rightarrow> ([], [], []));
          saw_digit = (ip \<noteq> [] \<or> fp \<noteq> []);
          ex = (case s of c # t \<Rightarrow>
              if saw_digit \<and> (c = CHR ''e'' \<or> c = CHR ''E'') then
                let (esg, t) = take_sign t; (ds, _) = take_digits t in
                if ds \<noteq> [] then c # esg @ ds else []
              else []
            | [] \<Rightarrow> [])
      in if saw_digit then Some (sg @ ip @ dot @ fp @ ex) else None)"

definition leading_number :: "string \<Rightarrow> f64 option" where
  "leading_number s = Option.bind (number_prefix (trim_start s)) parse_f64"

definition cast_int :: "f64 option \<Rightarrow> 'j sql_value" where
  "cast_int x = VInteger (case x of Some f \<Rightarrow> f64_to_i64 f | None \<Rightarrow> i64_of_int 0)"

definition cast_real :: "f64 option \<Rightarrow> 'j sql_value" where
  "cast_real x = VReal (case x of Some f \<Rightarrow> f | None \<Rightarrow> f64_zero False)"

definition cast :: "'j platform \<Rightarrow> 'j sql_value \<Rightarrow> sql_type \<Rightarrow> 'j sql_value" where
  "cast pf v ty =
     (if is_null v then VNull
      else case ty of
        TyInteger \<Rightarrow>
          (case v of
             VInteger i \<Rightarrow> VInteger i
           | VBoolean b \<Rightarrow> VInteger (i64_of_int (of_bool b))
           | VText t \<Rightarrow> cast_int (leading_number t)
           | _ \<Rightarrow> cast_int (as_f64 v))
      | TyReal \<Rightarrow> (case v of VText t \<Rightarrow> cast_real (leading_number t) | _ \<Rightarrow> cast_real (as_f64 v))
      | TyText \<Rightarrow> (case v of VText t \<Rightarrow> VText t | _ \<Rightarrow> VText (to_display_string pf v))
      | TyBoolean \<Rightarrow> VBoolean (is_truthy v)
      | _ \<Rightarrow> v)"

section \<open>\<open>LIKE\<close>\<close>

function like_rec :: "uchar list \<Rightarrow> uchar list \<Rightarrow> bool" where
  "like_rec [] t = (t = [])"
| "like_rec (c # p) t =
     (if c = cp CHR ''%'' then like_rec p t \<or> (case t of [] \<Rightarrow> False | _ # t \<Rightarrow> like_rec (c # p) t)
      else (case t of
          [] \<Rightarrow> False
        | d # t \<Rightarrow> if c = cp CHR ''_'' then like_rec p t else d = c \<and> like_rec p t))"
  by pat_completeness auto
termination by (relation "measure (\<lambda>(p, t). length p + length t)") auto

declare like_rec.simps(2) [simp del]

definition like_match :: "'j platform \<Rightarrow> string \<Rightarrow> string \<Rightarrow> bool" where
  "like_match pf pattern s = like_rec (chars (to_lowercase pf pattern)) (chars (to_lowercase pf s))"

section \<open>Scalar functions\<close>

abbreviation arg_f64 :: "'j sql_value list \<Rightarrow> nat \<Rightarrow> f64 option" where
  "arg_f64 args i \<equiv> Option.bind (get args i) as_f64"

abbreviation arg_int :: "'j sql_value list \<Rightarrow> nat \<Rightarrow> i64 option" where
  "arg_int args i \<equiv> Option.bind (get args i) as_i64"

definition real_or_null :: "f64 \<Rightarrow> 'j sql_value" where
  "real_or_null r = (if f64_is_nan r then VNull else VReal r)"

definition math1 :: "'j sql_value list \<Rightarrow> (f64 \<Rightarrow> f64) \<Rightarrow> 'j sql_value" where
  "math1 args f = (case arg_f64 args 0 of Some x \<Rightarrow> real_or_null (f x) | None \<Rightarrow> VNull)"

definition math2 :: "'j sql_value list \<Rightarrow> (f64 \<Rightarrow> f64 \<Rightarrow> f64) \<Rightarrow> 'j sql_value" where
  "math2 args f =
     (case (arg_f64 args 0, arg_f64 args 1) of
        (Some a, Some b) \<Rightarrow> real_or_null (f a b) | _ \<Rightarrow> VNull)"

definition MATH1 :: "string list" where
  "MATH1 = [''LN'', ''LOG10'', ''LOG2'', ''EXP'', ''SIN'', ''COS'', ''TAN'', ''ASIN'', ''ACOS'', ''ATAN'',
            ''RADIANS'', ''DEGREES'']"

text \<open>The functions of \<open>f64\<close> that the platform provides, by their names in lower case.\<close>

definition fn_math :: "'j platform \<Rightarrow> string \<Rightarrow> 'j sql_value list \<Rightarrow> 'j sql_value option" where
  "fn_math pf name args =
     (if name = ''SQRT'' then Some (math1 args f64_sqrt)
      else if name = ''CEIL'' \<or> name = ''CEILING'' then Some (math1 args f64_ceil)
      else if name = ''FLOOR'' then Some (math1 args f64_floor)
      else if name = ''TRUNC'' then Some (math1 args f64_trunc)
      else if name \<in> set MATH1 then Some (math1 args (pf_math1 pf (to_ascii_lowercase name)))
      else if name = ''PI'' then Some (VReal (F64 0x400921FB54442D18))
      else if name = ''POW'' \<or> name = ''POWER'' then Some (math2 args (pf_math2 pf ''powf''))
      else if name = ''ATAN2'' then Some (math2 args (pf_math2 pf ''atan2''))
      else if name = ''MOD'' then
        Some (case (arg_f64 args 0, arg_f64 args 1) of
           (Some x, Some y) \<Rightarrow> if f64_is_zero y then VNull else VReal (f64_rem x y) | _ \<Rightarrow> VNull)
      else if name = ''LOG'' then
        Some (if length args = 1 then math1 args (pf_math1 pf ''log10'')
              else case (arg_f64 args 0, arg_f64 args 1) of
                (Some b, Some x) \<Rightarrow> VReal (f64_div (pf_math1 pf ''ln'' x) (pf_math1 pf ''ln'' b))
              | _ \<Rightarrow> VNull)
      else None)"

definition best_of :: "bool \<Rightarrow> 'j sql_value \<Rightarrow> 'j sql_value \<Rightarrow> 'j sql_value" where
  "best_of want_min v best =
     (let take = (case value_compare v best of
          Some Less \<Rightarrow> want_min | Some Greater \<Rightarrow> \<not> want_min | _ \<Rightarrow> False)
      in if take then v else best)"

definition min_max :: "bool \<Rightarrow> 'j sql_value list \<Rightarrow> 'j sql_value" where
  "min_max want_min args =
     (if list_ex is_null args then VNull else fold (best_of want_min) (tl args) (hd args))"

definition fn_abs :: "'j sql_value list \<Rightarrow> 'j sql_value" where
  "fn_abs args =
     (case arg_f64 args 0 of
        Some f \<Rightarrow> if list_all is_integer args then VInteger (f64_to_i64 (f64_abs f)) else VReal (f64_abs f)
      | None \<Rightarrow> VNull)"

definition fn_round :: "'j platform \<Rightarrow> 'j sql_value list \<Rightarrow> 'j sql_value" where
  "fn_round pf args =
     (case arg_f64 args 0 of
        Some f \<Rightarrow>
          let digits = (case arg_int args 1 of Some i \<Rightarrow> int_of_i64 i | None \<Rightarrow> 0);
              factor = pf_math2 pf ''powi'' (f64_of_int 10) (f64_of_int (as_i32 digits))
          in VReal (f64_div (f64_round (f64_mul f factor)) factor)
      | None \<Rightarrow> VNull)"

definition fn_sign :: "'j sql_value list \<Rightarrow> 'j sql_value" where
  "fn_sign args =
     (case arg_f64 args 0 of
        Some f \<Rightarrow> VInteger (i64_of_int (of_bool (f64_lt (f64_zero False) f) - of_bool (f64_lt f (f64_zero False))))
      | None \<Rightarrow> VNull)"

definition coalesce :: "'j sql_value list \<Rightarrow> 'j sql_value" where
  "coalesce args = (case find (\<lambda>v. \<not> is_null v) args of Some v \<Rightarrow> v | None \<Rightarrow> VNull)"

definition arg_or_null :: "'j sql_value list \<Rightarrow> nat \<Rightarrow> 'j sql_value" where
  "arg_or_null args i = (case get args i of Some v \<Rightarrow> v | None \<Rightarrow> VNull)"

definition nullif :: "'j sql_value list \<Rightarrow> 'j sql_value" where
  "nullif args =
     (let a = arg_or_null args 0; b = arg_or_null args 1 in
      if \<not> is_null a \<and> value_eq a b then VNull else a)"

definition typeof_name :: "'j sql_value \<Rightarrow> string" where
  "typeof_name v =
     (case v of VNull \<Rightarrow> ''null'' | VInteger _ \<Rightarrow> ''integer'' | VBoolean _ \<Rightarrow> ''integer''
      | VReal _ \<Rightarrow> ''real'' | VText _ \<Rightarrow> ''text'' | VJson _ \<Rightarrow> ''text'' | VBlob _ \<Rightarrow> ''blob'')"

definition fn_value :: "'j platform \<Rightarrow> string \<Rightarrow> 'j sql_value list \<Rightarrow> 'j sql_value option" where
  "fn_value pf name args =
     (if name = ''ABS'' then Some (fn_abs args)
      else if (name = ''MIN'' \<or> name = ''MAX'') \<and> args \<noteq> [] then Some (min_max (name = ''MIN'') args)
      else if name = ''ROUND'' then Some (fn_round pf args)
      else if name = ''SIGN'' then Some (fn_sign args)
      else if name = ''COALESCE'' then Some (coalesce args)
      else if name = ''IFNULL'' then
        Some (let a = arg_or_null args 0 in if is_null a then arg_or_null args 1 else a)
      else if name = ''NULLIF'' then Some (nullif args)
      else if name = ''TYPEOF'' then Some (VText (typeof_name (arg_or_null args 0)))
      else fn_math pf name args)"

subsection \<open>Text functions\<close>

definition fn_length :: "'j platform \<Rightarrow> 'j sql_value \<Rightarrow> 'j sql_value" where
  "fn_length pf v =
     (case v of
        VNull \<Rightarrow> VNull
      | VBlob b \<Rightarrow> VInteger (i64_of_int (int (length b)))
      | v \<Rightarrow> VInteger (i64_of_int (int (length (chars (to_display_string pf v))))))"

text \<open>Text functions of one argument: NULL in, NULL out.\<close>

definition on_text :: "'j platform \<Rightarrow> 'j sql_value list \<Rightarrow> (string \<Rightarrow> 'j sql_value) \<Rightarrow> 'j sql_value" where
  "on_text pf args f =
     (let v = arg_or_null args 0 in if is_null v then VNull else f (to_display_string pf v))"

definition int_value :: "int \<Rightarrow> 'j sql_value" where
  "int_value k = VInteger (i64_of_int k)"

text \<open>
  \<open>substr(X, Y [, Z])\<close>: \<open>Y\<close> counts from 1, or from the end when it is negative; a negative \<open>Z\<close>
  takes the characters before the start.
\<close>

definition substr_start :: "int \<Rightarrow> int \<Rightarrow> int" where
  "substr_start n start =
     (let start = (if start < 0 then start + (n + 1) else start);
          start = (if start < 1 then 1 else start)
      in min (max (start - 1) 0) n)"

definition substr :: "'j platform \<Rightarrow> 'j sql_value list \<Rightarrow> 'j sql_value qres" where
  "substr pf args =
     (let v = arg_or_null args 0 in
      if is_null v then Ok VNull
      else
        let cs = chars (to_display_string pf v);
            i = nat (substr_start (int (length cs))
                  (case arg_int args 1 of Some i \<Rightarrow> int_of_i64 i | None \<Rightarrow> 1))
        in case get args 2 of
             None \<Rightarrow> Ok (VText (of_chars (drop i cs)))
           | Some z \<Rightarrow>
               if is_null z then Ok VNull
               else
                 let len = (case as_i64 z of Some k \<Rightarrow> int_of_i64 k | None \<Rightarrow> 0) in
                 if len < 0 then
                   omap (\<lambda>k. let begin = i - nat k in VText (of_chars (take (i - begin) (drop begin cs))))
                     (ck_i64 (- len))
                 else Ok (VText (of_chars (take (nat len) (drop i cs)))))"

definition trim_fn :: "'j platform \<Rightarrow> 'j sql_value list \<Rightarrow> bool \<Rightarrow> bool \<Rightarrow> 'j sql_value" where
  "trim_fn pf args left right =
     on_text pf args (\<lambda>s.
       let v = arg_or_null args 1;
           cutset = (if is_null v then [cp CHR '' ''] else chars (to_display_string pf v));
           s = (if left then trim_start_matches (\<lambda>c. c \<in> set cutset) s else s)
       in VText (if right then trim_end_matches (\<lambda>c. c \<in> set cutset) s else s))"

definition fn_replace :: "'j platform \<Rightarrow> 'j sql_value list \<Rightarrow> 'j sql_value" where
  "fn_replace pf args =
     (if length args < 3 \<or> list_ex is_null (take 3 args) then VNull
      else
        let s = to_display_string pf (args ! 0); f = to_display_string pf (args ! 1);
            t = to_display_string pf (args ! 2)
        in VText (if f = [] then s else str_replace s f t))"

definition fn_instr :: "'j platform \<Rightarrow> 'j sql_value list \<Rightarrow> 'j sql_value" where
  "fn_instr pf args =
     (if length args < 2 \<or> is_null (args ! 0) \<or> is_null (args ! 1) then VNull
      else
        let hay = to_display_string pf (args ! 0) in
        case str_find hay (to_display_string pf (args ! 1)) of
          Some b \<Rightarrow> int_value (int (length (chars (take b hay))) + 1)
        | None \<Rightarrow> int_value 0)"

definition hex_digit :: "nat \<Rightarrow> char" where
  "hex_digit d = byte (if d < 10 then 48 + d else 55 + d)"

definition hex_bytes :: "bytes \<Rightarrow> string" where
  "hex_bytes bs = concat (map (\<lambda>b. [hex_digit (unat b div 16), hex_digit (unat b mod 16)]) bs)"

definition fn_hex :: "'j platform \<Rightarrow> 'j sql_value \<Rightarrow> 'j sql_value" where
  "fn_hex pf v =
     (case v of
        VNull \<Rightarrow> VNull
      | VBlob b \<Rightarrow> VText (hex_bytes b)
      | v \<Rightarrow> VText (hex_bytes (str_bytes (to_display_string pf v))))"

definition fn_char :: "'j sql_value list \<Rightarrow> 'j sql_value" where
  "fn_char args =
     VText (of_chars (filter is_uchar
       (map (\<lambda>i. nat (int_of_i64 i mod 2 ^ 32)) (List.map_filter as_i64 args))))"

definition quote :: "'j platform \<Rightarrow> 'j sql_value \<Rightarrow> string" where
  "quote pf v =
     (case v of
        VNull \<Rightarrow> ''NULL''
      | VInteger i \<Rightarrow> show_i64 i
      | VBoolean b \<Rightarrow> show_int (of_bool b)
      | VReal r \<Rightarrow> f64_display r
      | v \<Rightarrow> [CHR 39] @ str_replace (to_display_string pf v) [CHR 39] [CHR 39, CHR 39] @ [CHR 39])"

definition fn_glob :: "'j platform \<Rightarrow> 'j sql_value list \<Rightarrow> 'j sql_value" where
  "fn_glob pf args =
     (let p = arg_or_null args 0; s = arg_or_null args 1 in
      if is_null p \<or> is_null s then VNull
      else VBoolean (glob_match (to_display_string pf p) (to_display_string pf s)))"

definition fn_text :: "'j platform \<Rightarrow> string \<Rightarrow> 'j sql_value list \<Rightarrow> 'j sql_value option" where
  "fn_text pf name args =
     (if name = ''LENGTH'' then Some (fn_length pf (arg_or_null args 0))
      else if name = ''UPPER'' then Some (on_text pf args (\<lambda>s. VText (to_uppercase pf s)))
      else if name = ''LOWER'' then Some (on_text pf args (\<lambda>s. VText (to_lowercase pf s)))
      else if name = ''GLOB'' then Some (fn_glob pf args)
      else if name = ''REPLACE'' then Some (fn_replace pf args)
      else if name = ''TRIM'' then Some (trim_fn pf args True True)
      else if name = ''LTRIM'' then Some (trim_fn pf args True False)
      else if name = ''RTRIM'' then Some (trim_fn pf args False True)
      else if name = ''INSTR'' then Some (fn_instr pf args)
      else if name = ''HEX'' then Some (fn_hex pf (arg_or_null args 0))
      else if name = ''CHAR'' then Some (fn_char args)
      else if name = ''UNICODE'' then
        Some (on_text pf args (\<lambda>s. case chars s of c # _ \<Rightarrow> int_value (int c) | [] \<Rightarrow> VNull))
      else if name = ''QUOTE'' then Some (VText (quote pf (arg_or_null args 0)))
      else if name = ''ZEROBLOB'' then
        Some (case arg_int args 0 of Some n \<Rightarrow> zeroblob n | None \<Rightarrow> VNull)
      else fn_value pf name args)"

text \<open>The functions that may panic, or read the clock or the random numbers.\<close>

definition fn_effect :: "'j platform \<Rightarrow> string \<Rightarrow> 'j sql_value list \<Rightarrow> 'j sql_value ev option" where
  "fn_effect pf name args =
     (if name = ''PRINTF'' \<or> name = ''FORMAT'' then Some (ev_lift (printf pf args))
      else if name = ''SUBSTR'' \<or> name = ''SUBSTRING'' then Some (ev_lift (substr pf args))
      else if name = ''RANDOM'' then Some (ev_bind random_i64 (\<lambda>i. ev_return (VInteger i)))
      else if name = ''RANDOMBLOB'' then
        Some (case arg_int args 0 of Some n \<Rightarrow> randomblob n | None \<Rightarrow> ev_return VNull)
      else if name = ''DATE'' then Some (sql_date pf args)
      else if name = ''TIME'' then Some (sql_time pf args)
      else if name = ''DATETIME'' then Some (sql_datetime pf args)
      else if name = ''JULIANDAY'' then Some (sql_julianday pf args)
      else if name = ''UNIXEPOCH'' then Some (sql_unixepoch pf args)
      else if name = ''STRFTIME'' then Some (strftime pf args)
      else None)"

definition eval_function :: "'j platform \<Rightarrow> string \<Rightarrow> 'j sql_value list \<Rightarrow> 'j sql_value ev" where
  "eval_function pf name args =
     (let upper = to_ascii_uppercase name in
      case fn_effect pf upper args of
        Some m \<Rightarrow> m
      | None \<Rightarrow>
          (case fn_text pf upper args of
             Some v \<Rightarrow> ev_return v
           | None \<Rightarrow> ev_fail (UnsupportedError (''function '' @ upper @ ''()''))))"

section \<open>Evaluation\<close>

text \<open>What an expression is evaluated against.\<close>

record 'j env =
  env_values :: "'j sql_value list"
  env_row_id :: i64
  env_params :: "'j sql_value list"

function eval :: "'j platform \<Rightarrow> 'j env \<Rightarrow> ('j, 'q) expr \<Rightarrow> 'j sql_value ev"
and eval_args :: "'j platform \<Rightarrow> 'j env \<Rightarrow> ('j, 'q) expr list \<Rightarrow> 'j sql_value list ev"
and eval_in :: "'j platform \<Rightarrow> 'j env \<Rightarrow> 'j sql_value \<Rightarrow> ('j, 'q) expr list \<Rightarrow> bool ev"
and eval_whens :: "'j platform \<Rightarrow> 'j env \<Rightarrow> 'j sql_value option \<Rightarrow> (('j, 'q) expr \<times> ('j, 'q) expr) list \<Rightarrow>
    ('j, 'q) expr option \<Rightarrow> 'j sql_value ev" where
  "eval pf en (ELiteral v) = ev_return v"
| "eval pf en (EColumn i) =
     ev_lift (ok_or (get (env_values en) i)
       (TypeError (''column index '' @ show_nat (int i) @ '' out of range'')))"
| "eval pf en ERowId = ev_return (VInteger (env_row_id en))"
| "eval pf en (EParam i) =
     ev_lift (ok_or (get (env_params en) i) (TypeError (''missing bind parameter $'' @ show_nat (int i + 1))))"
| "eval pf en (EUnary op e) = ev_bind (eval pf en e) (\<lambda>v. ev_lift (eval_unary op v))"
| "eval pf en (EBinary op l r) =
     ev_bind (eval pf en l) (\<lambda>l. ev_bind (eval pf en r) (\<lambda>r. ev_lift (eval_binary pf op l r)))"
| "eval pf en (EIsNull e negated) =
     ev_bind (eval pf en e) (\<lambda>v. ev_return (VBoolean (is_null v \<noteq> negated)))"
| "eval pf en (ELike e pattern negated) =
     ev_bind (eval pf en e) (\<lambda>v. ev_bind (eval pf en pattern) (\<lambda>p.
     ev_return (if is_null v \<or> is_null p then VNull
       else VBoolean (like_match pf (to_display_string pf p) (to_display_string pf v) \<noteq> negated))))"
| "eval pf en (EInList e items negated) =
     ev_bind (eval pf en e) (\<lambda>v.
     if is_null v then ev_return VNull
     else ev_bind (eval_in pf en v items) (\<lambda>found. ev_return (VBoolean (found \<noteq> negated))))"
| "eval pf en (EFunction name args) = ev_bind (eval_args pf en args) (eval_function pf name)"
| "eval pf en (ECast e ty) = ev_bind (eval pf en e) (\<lambda>v. ev_return (cast pf v ty))"
| "eval pf en (ECase operand whens els) =
     (case operand of
        None \<Rightarrow> eval_whens pf en None whens els
      | Some e \<Rightarrow> ev_bind (eval pf en e) (\<lambda>v. eval_whens pf en (Some v) whens els))"
| "eval pf en (EScalarSubquery q) = ev_fail (UnsupportedError ''correlated subqueries are not supported'')"
| "eval pf en (EExists q negated) = ev_fail (UnsupportedError ''correlated subqueries are not supported'')"
| "eval pf en (EInSubquery e q negated) =
     ev_fail (UnsupportedError ''correlated subqueries are not supported'')"
| "eval_args pf en [] = ev_return []"
| "eval_args pf en (e # es) =
     ev_bind (eval pf en e) (\<lambda>v. ev_bind (eval_args pf en es) (\<lambda>vs. ev_return (v # vs)))"
| "eval_in pf en v [] = ev_return False"
| "eval_in pf en v (e # es) =
     ev_bind (eval pf en e) (\<lambda>iv.
     if value_compare v iv = Some Equal then ev_return True else eval_in pf en v es)"
| "eval_whens pf en operand [] els = (case els of Some e \<Rightarrow> eval pf en e | None \<Rightarrow> ev_return VNull)"
| "eval_whens pf en operand ((c, r) # whens) els =
     ev_bind (eval pf en c) (\<lambda>cv.
     if (case operand of Some ov \<Rightarrow> value_compare ov cv = Some Equal | None \<Rightarrow> is_truthy cv)
     then eval pf en r else eval_whens pf en operand whens els)"
  by pat_completeness auto
termination
  by (relation "measure (case_sum
       (case_sum (\<lambda>(pf, en, e). size e) (\<lambda>(pf, en, es). size_list size es))
       (case_sum (\<lambda>(pf, en, v, es). size_list size es)
         (\<lambda>(pf, en, v, ws, els). size_list (size_prod size size) ws + size_option size els)))") auto

section \<open>Properties\<close>

subsection \<open>Three-valued logic\<close>

text \<open>Kleene's connectives on truth values, \<open>None\<close> being unknown.\<close>

fun kleene_not :: "bool option \<Rightarrow> bool option" where
  "kleene_not None = None"
| "kleene_not (Some b) = Some (\<not> b)"

fun kleene_and :: "bool option \<Rightarrow> bool option \<Rightarrow> bool option" where
  "kleene_and (Some a) (Some b) = Some (a \<and> b)"
| "kleene_and (Some False) None = Some False"
| "kleene_and None (Some False) = Some False"
| "kleene_and _ _ = None"

definition kleene_or :: "bool option \<Rightarrow> bool option \<Rightarrow> bool option" where
  "kleene_or a b = kleene_not (kleene_and (kleene_not a) (kleene_not b))"

lemma truth_simps [simp]: "truth VNull = None" "truth (VBoolean b) = Some b"
  by (simp_all add: truth_def)

lemma truth_and: "truth (eval_and l r) = kleene_and (truth l) (truth r)"
  by (cases "truth l"; cases "truth r") (auto simp: eval_and_def)

lemma truth_or: "truth (eval_or l r) = kleene_or (truth l) (truth r)"
  by (cases "truth l"; cases "truth r") (auto simp: eval_or_def kleene_or_def)

lemma truth_not: "eval_unary OpNot v = Ok u \<Longrightarrow> truth u = kleene_not (truth v)"
  by (auto simp: eval_unary_def truth_def)

text \<open>
  C28. The logical operators are Kleene's: \<open>AND\<close>, \<open>OR\<close> and \<open>NOT\<close> never fail, whatever their
  operands are, and the truth value of the result is the three-valued connective of the
  truth values of the operands, NULL being the unknown one.
\<close>

theorem logic_is_kleene:
  "(\<exists>u. eval_binary pf OpAnd l r = Ok u \<and> truth u = kleene_and (truth l) (truth r))
   \<and> (\<exists>u. eval_binary pf OpOr l r = Ok u \<and> truth u = kleene_or (truth l) (truth r))
   \<and> (\<exists>u. eval_unary OpNot l = Ok u \<and> truth u = kleene_not (truth l))"
proof (intro conjI)
  show "\<exists>u. eval_unary OpNot l = Ok u \<and> truth u = kleene_not (truth l)"
    using truth_not [of l] by (simp add: eval_unary_def)
qed (simp_all add: eval_binary_def truth_and truth_or)

subsection \<open>Integer arithmetic\<close>

lemma small_i64:
  assumes "\<bar>k\<bar> \<le> 2 ^ 53"
  shows "i64_min \<le> k" "k \<le> i64_max" "int_of_i64 (i64_of_int k) = k"
proof -
  show r: "i64_min \<le> k" "k \<le> i64_max" using assms by (auto simp: i64_min_def i64_max_def)
  from int_of_i64_of_int [OF r] show "int_of_i64 (i64_of_int k) = k" .
qed

lemma f64_of_small_i64:
  assumes "\<bar>int_of_i64 a\<bar> \<le> 2 ^ 53"
  shows "f64_is_finite (f64_of_i64 a)" "f64_val (f64_of_i64 a) = of_int (int_of_i64 a)"
    "f64_to_i64 (f64_of_i64 a) = a" "f64_is_zero (f64_of_i64 a) \<longleftrightarrow> int_of_i64 a = 0"
proof -
  note e = f64_of_int_exact [OF assms]
  show "f64_is_finite (f64_of_i64 a)" and v: "f64_val (f64_of_i64 a) = of_int (int_of_i64 a)"
    using e by (simp_all add: f64_of_i64_def)
  show "f64_to_i64 (f64_of_i64 a) = a"
    using f64_to_i64_integral [OF e(1,2) small_i64(1,2) [OF assms]] i64_of_int_of_i64
    by (simp add: f64_of_i64_def)
  show "f64_is_zero (f64_of_i64 a) \<longleftrightarrow> int_of_i64 a = 0"
    using f64_val_zero_iff [of "f64_of_i64 a"] v by (simp add: f64_is_zero_def)
qed

lemma real_or_int_exact:
  assumes "f64_is_finite x" and "f64_val x = of_int k" and "\<bar>k\<bar> \<le> 2 ^ 53"
  shows "real_or_int True x = VInteger (i64_of_int k)"
  using f64_fract_integral [OF assms(1,2)] f64_to_i64_integral [OF assms(1,2) small_i64(1,2) [OF assms(3)]]
  by (simp add: real_or_int_def)

text \<open>The integer that each arithmetic operator stands for.\<close>

fun int_op :: "bin_op \<Rightarrow> int \<Rightarrow> int \<Rightarrow> int" where
  "int_op OpAdd a b = a + b"
| "int_op OpSub a b = a - b"
| "int_op OpMul a b = a * b"
| "int_op OpDiv a b = rust_div a b"
| "int_op _ a b = rust_rem a b"

abbreviation arith_ops :: "bin_op set" where
  "arith_ops \<equiv> {OpAdd, OpSub, OpMul, OpDiv, OpMod}"

text \<open>
  C29. Arithmetic on integers is exact as long as the operands and the result stay within
  \<open>2 ^ 53\<close> in magnitude: sums, differences, products, truncated quotients and remainders
  are the integers they should be; a zero divisor gives NULL.
\<close>

theorem integer_arithmetic_exact:
  assumes "op \<in> arith_ops" and "\<bar>int_of_i64 a\<bar> \<le> 2 ^ 53" and "\<bar>int_of_i64 b\<bar> \<le> 2 ^ 53"
    and "\<bar>int_op op (int_of_i64 a) (int_of_i64 b)\<bar> \<le> 2 ^ 53"
  shows "eval_binary pf op (VInteger a) (VInteger b) =
    Ok (if op \<in> {OpDiv, OpMod} \<and> int_of_i64 b = 0 then VNull
        else VInteger (i64_of_int (int_op op (int_of_i64 a) (int_of_i64 b))))"
proof -
  note x = f64_of_small_i64 [OF assms(2)] and y = f64_of_small_i64 [OF assms(3)]
  let ?x = "f64_of_i64 a" and ?y = "f64_of_i64 b"
  let ?k = "int_op op (int_of_i64 a) (int_of_i64 b)"
  have rep: "representable (of_int ?k)" by (rule representable_int [OF assms(4)])
  consider "op = OpAdd" | "op = OpSub" | "op = OpMul" | "op = OpDiv" | "op = OpMod" using assms(1) by auto
  then show ?thesis
  proof cases
    case 1
    then have "real_or_int True (f64_add ?x ?y) = VInteger (i64_of_int ?k)"
      using f64_add_exact [OF x(1) y(1)] rep x y assms(4) by (intro real_or_int_exact) auto
    with 1 show ?thesis by (simp add: eval_binary_def eval_arith_def)
  next
    case 2
    then have "real_or_int True (f64_sub ?x ?y) = VInteger (i64_of_int ?k)"
      using f64_sub_exact [OF x(1) y(1)] rep x y assms(4) by (intro real_or_int_exact) auto
    with 2 show ?thesis by (simp add: eval_binary_def eval_arith_def)
  next
    case 3
    then have "real_or_int True (f64_mul ?x ?y) = VInteger (i64_of_int ?k)"
      using f64_mul_exact [OF x(1) y(1)] rep x y assms(4) by (intro real_or_int_exact) auto
    with 3 show ?thesis by (simp add: eval_binary_def eval_arith_def)
  next
    case 4
    then show ?thesis
      using x y small_i64 [OF assms(4)] by (simp add: eval_binary_def eval_arith_def ck_i64_def)
  next
    case 5
    then show ?thesis
      using x y assms(2) by (auto simp: eval_binary_def eval_arith_def Let_def i64_min_def)
  qed
qed

theorem integer_arithmetic_exact_witness:
  "eval_binary test_platform OpDiv (VInteger (i64_of_int (- 7))) (VInteger (i64_of_int 2))
     = Ok (VInteger (i64_of_int (- 3)))"
proof -
  have "int_of_i64 (i64_of_int (- 7)) = - 7" "int_of_i64 (i64_of_int 2) = 2"
    by (simp_all add: small_i64)
  moreover have "rust_div (- 7) 2 = - 3" by code_simp
  ultimately show ?thesis
    using integer_arithmetic_exact [of OpDiv "i64_of_int (- 7)" "i64_of_int 2" test_platform] by simp
qed

lemma big_sum_rounds:
  "f64_of_i64 (i64_of_int 9007199254740993) = f64_of_int 9007199254740992"
  "f64_of_i64 (i64_of_int 0) = f64_of_int 0"
  "f64_is_zero (f64_fract (f64_of_int 9007199254740992))"
  "f64_to_i64 (f64_of_int 9007199254740992) = i64_of_int 9007199254740992"
  "f64_add (f64_of_int 9007199254740992) (f64_of_int 0) = f64_of_int 9007199254740992"
  by code_simp+

lemma limit_conversions:
  "f64_of_i64 (i64_of_int i64_max) = f64_of_int 9223372036854775808"
  "f64_of_i64 (i64_of_int i64_min) = f64_of_int (- 9223372036854775808)"
  "f64_of_i64 (i64_of_int 1) = f64_of_int 1"
  "f64_of_i64 (i64_of_int (- 1)) = f64_of_int (- 1)"
  "f64_to_i64 (f64_of_int (- 9223372036854775808)) = i64_of_int i64_min"
  "f64_to_i64 (f64_of_int (- 1)) = i64_of_int (- 1)"
  "f64_is_zero (f64_of_int (- 1)) = False"
  "f64_add (f64_of_int 9223372036854775808) (f64_of_int 1) = f64_of_int 9223372036854775808"
  "f64_is_zero (f64_fract (f64_of_int 9223372036854775808))"
  "f64_to_i64 (f64_of_int 9223372036854775808) = i64_of_int i64_max"
  by code_simp+

text \<open>
  Beyond \<open>2 ^ 53\<close> integer arithmetic is not integer arithmetic: adding 0 changes
  \<open>2 ^ 53 + 1\<close>, adding 1 to the largest integer leaves it as it is, and three operations
  on the least integer panic: its negation, and its quotient and remainder by \<open>-1\<close>.
\<close>

theorem integer_arithmetic_limits:
  "eval_binary pf OpAdd (VInteger (i64_of_int 9007199254740993)) (VInteger (i64_of_int 0))
       = Ok (VInteger (i64_of_int 9007199254740992))
   \<and> eval_binary pf OpAdd (VInteger (i64_of_int i64_max)) (VInteger (i64_of_int 1))
       = Ok (VInteger (i64_of_int i64_max))
   \<and> eval_unary OpNeg (VInteger (i64_of_int i64_min)) = Panic
   \<and> eval_binary pf OpDiv (VInteger (i64_of_int i64_min)) (VInteger (i64_of_int (- 1))) = Panic
   \<and> eval_binary pf OpMod (VInteger (i64_of_int i64_min)) (VInteger (i64_of_int (- 1))) = Panic"
proof -
  have i: "int_of_i64 (i64_of_int i64_min) = i64_min" "int_of_i64 (i64_of_int (- 1)) = - 1"
    by (simp_all add: int_of_i64_of_int i64_min_def i64_max_def)
  have "rust_div i64_min (- 1) = 9223372036854775808" by code_simp
  then have c: "(ck_i64 (rust_div i64_min (- 1)) :: int qres) = Panic" "(ck_i64 (- i64_min) :: int qres) = Panic"
    by (simp_all add: ck_i64_def i64_max_def i64_min_def)
  show ?thesis
    by (simp add: eval_binary_def eval_arith_def Let_def real_or_int_def eval_unary_def eval_neg_def
        big_sum_rounds limit_conversions i c del: i64_max_def i64_min_def)
qed

subsection \<open>\<open>LIKE\<close>\<close>

text \<open>What a pattern matches, as rules.\<close>

inductive like_matches :: "uchar list \<Rightarrow> uchar list \<Rightarrow> bool" where
  "like_matches [] []"
| run: "like_matches p t \<Longrightarrow> like_matches (cp CHR ''%'' # p) (s @ t)"
| "like_matches p t \<Longrightarrow> like_matches (cp CHR ''_'' # p) (d # t)"
| "c \<notin> {cp CHR ''%'', cp CHR ''_''} \<Longrightarrow> like_matches p t \<Longrightarrow> like_matches (c # p) (c # t)"

inductive_cases like_matches_ConsE: "like_matches (c # p) t"

lemma like_star_grow: "like_matches (cp CHR ''%'' # p) t \<Longrightarrow> like_matches (cp CHR ''%'' # p) (d # t)"
  by (erule like_matches_ConsE) (use run [of p _ "d # _"] in auto)

lemma like_rec_sound: "like_rec p t \<Longrightarrow> like_matches p t"
proof (induction p t rule: like_rec.induct)
  case (1 t)
  then show ?case by (simp add: like_matches.intros)
next
  case (2 c p t)
  show ?case
  proof (cases "c = cp CHR ''%'' \<and> \<not> like_rec p t")
    case True
    with 2(5) obtain d u where t: "t = d # u" "like_rec (c # p) u"
      by (auto simp: like_rec.simps(2) split: list.splits)
    with 2(2) True have "like_matches (c # p) u" by simp
    with True t like_star_grow show ?thesis by simp
  next
    case False
    with 2 show ?thesis
      using run [of p t "[]"]
      by (auto simp: like_rec.simps(2) split: if_splits list.splits intro: like_matches.intros [simplified])
  qed
qed

lemma like_rec_complete: "like_matches p t \<Longrightarrow> like_rec p t"
proof (induction rule: like_matches.induct)
  case (run p t s)
  show ?case by (induction s) (use run.IH in \<open>simp_all add: like_rec.simps(2)\<close>)
qed (auto simp: like_rec.simps(2) [of c for c])

lemma is_ascii_lowercase: "is_ascii s \<Longrightarrow> is_ascii (to_ascii_lowercase s)"
proof -
  have "(of_char (ascii_lower c) :: nat) < 128" if "(of_char c :: nat) < 128" for c
    using that by (auto simp: ascii_lower_def less_eq_char_def)
  then show "is_ascii s \<Longrightarrow> is_ascii (to_ascii_lowercase s)"
    by (auto simp: is_ascii_def to_ascii_lowercase_def list_all_iff)
qed

text \<open>
  C30. \<open>LIKE\<close> decides its pattern language, without regard to case: it accepts exactly what the pattern in lower
  case describes of the text in lower case, where \<open>%\<close> stands for any run of characters, \<open>_\<close> for one, and any other
  for itself. Lower case is that of Unicode, whose tables are a parameter; when pattern and text are ASCII, it is
  that of the ASCII letters.
\<close>

theorem like_match_correct:
  "(like_match pf p s \<longleftrightarrow> like_matches (chars (to_lowercase pf p)) (chars (to_lowercase pf s)))
   \<and> (is_ascii p \<and> is_ascii s \<longrightarrow> (like_match pf p s \<longleftrightarrow>
        like_matches (map of_char (to_ascii_lowercase p)) (map of_char (to_ascii_lowercase s))))"
proof -
  have l: "like_match pf p s \<longleftrightarrow> like_matches (chars (to_lowercase pf p)) (chars (to_lowercase pf s))"
    using like_rec_sound like_rec_complete by (auto simp: like_match_def)
  have "chars (to_lowercase pf t) = map of_char (to_ascii_lowercase t)" if "is_ascii t" for t
    using that is_ascii_lowercase [of t] by (simp add: to_lowercase_def ascii_chars)
  with l show ?thesis by auto
qed

theorem like_match_correct_witness:
  "like_match test_platform ''H%'' ''hello''"
proof -
  have "like_matches (map of_char (to_ascii_lowercase ''H%'')) (map of_char (to_ascii_lowercase ''hello''))"
    by (rule like_rec_sound) code_simp
  moreover have "is_ascii ''H%''" "is_ascii ''hello''" by (simp_all add: is_ascii_def)
  ultimately show ?thesis using like_match_correct [of test_platform "''H%''" "''hello''"] by blast
qed

end
