(* ===== verification/Plan.thy ===== *)
theory Plan
  imports Eval Page
begin

text \<open>
  Logical plans, \<open>squrust-sql/src/planner/mod.rs\<close>: the operators that a query is translated to,
  with their resolved expressions, and the columns each one produces.
\<close>

record column_info =
  ci_name :: string
  ci_table :: "string option"
  ci_decl_type :: "string option"

datatype agg_func = AgCount | AgCountStar | AgSum | AgAvg | AgMin | AgMax | AgGroupConcat

datatype ('j, 'q) agg_expr = AggExpr
  (agg_fn: agg_func)
  (agg_arg: "('j, 'q) expr option")
  (agg_distinct: bool)
  (agg_sep: "('j, 'q) expr option")

datatype ('j, 'q) output_col = OutExpr "('j, 'q) expr" | OutAgg nat

datatype ('j, 'q) sort_key = SortKey (sk_expr: "('j, 'q) expr") (sk_asc: bool)

datatype set_op_kind = SetUnion | SetIntersect | SetExcept

datatype ('j, 'q) plan =
    PDual
  | PScan string page_id "column_info list" "nat option" "'j sql_value list"
  | PFilter "('j, 'q) plan" "('j, 'q) expr"
  | PProject "('j, 'q) plan" "('j, 'q) expr list" "column_info list"
  | PJoin "('j, 'q) plan" "('j, 'q) plan" "('j, 'q) expr option" bool "column_info list"
  | PAggregate "('j, 'q) plan" "('j, 'q) expr list" "('j, 'q) agg_expr list" "('j, 'q) output_col list"
      "column_info list" nat "('j, 'q) expr option"
  | PSort "('j, 'q) plan" "('j, 'q) sort_key list"
  | PLimit "('j, 'q) plan" "nat option" nat
  | PDistinct "('j, 'q) plan"
  | PSetOp set_op_kind bool "('j, 'q) plan" "('j, 'q) plan" "column_info list"

primrec plan_columns :: "('j, 'q) plan \<Rightarrow> column_info list" where
  "plan_columns PDual = []"
| "plan_columns (PScan table page columns alias defaults) = columns"
| "plan_columns (PFilter input predicate) = plan_columns input"
| "plan_columns (PProject input exprs columns) = columns"
| "plan_columns (PJoin left right predicate outer columns) = columns"
| "plan_columns (PAggregate input group_by aggs output columns base_len having) = columns"
| "plan_columns (PSort input keys) = plan_columns input"
| "plan_columns (PLimit input limit offset) = plan_columns input"
| "plan_columns (PDistinct input) = plan_columns input"
| "plan_columns (PSetOp kind all left right columns) = columns"

end
