(* ===== verification/Optimizer.thy ===== *)
theory Optimizer
  imports Plan
begin

text \<open>
  Constant folding, \<open>squrust-sql/src/planner/optimizer.rs\<close>, and its soundness: a folded
  expression evaluates as the expression it replaces, unless \<open>NOT\<close> meets a literal NULL.
\<close>

section \<open>The code\<close>

text \<open>\<open>None\<close> when the operator or its operands are left to the evaluator.\<close>

definition eval_const_binary :: "bin_op \<Rightarrow> 'j sql_value \<Rightarrow> 'j sql_value \<Rightarrow> 'j sql_value option" where
  "eval_const_binary op a b =
     (if op \<in> {OpAdd, OpSub, OpMul} then
        (case (as_f64 a, as_f64 b) of
           (Some x, Some y) \<Rightarrow>
             let r = (case op of OpAdd \<Rightarrow> f64_add x y | OpSub \<Rightarrow> f64_sub x y | _ \<Rightarrow> f64_mul x y) in
             Some (if is_integer a \<and> is_integer b \<and> f64_is_zero (f64_fract r)
                   then VInteger (f64_to_i64 r) else VReal r)
         | _ \<Rightarrow> None)
      else None)"

definition eval_const_unary :: "un_op \<Rightarrow> 'j sql_value \<Rightarrow> 'j sql_value option qres" where
  "eval_const_unary op v =
     (case op of
        OpNeg \<Rightarrow>
          (case v of
             VInteger i \<Rightarrow> omap (\<lambda>k. Some (VInteger (i64_of_int k))) (ck_i64 (- int_of_i64 i))
           | VReal r \<Rightarrow> Ok (Some (VReal (f64_neg r)))
           | _ \<Rightarrow> Ok None)
      | OpNot \<Rightarrow> Ok (Some (VBoolean (\<not> is_truthy v))))"

definition fold_binary :: "bin_op \<Rightarrow> ('j, 'q) expr \<Rightarrow> ('j, 'q) expr \<Rightarrow> ('j, 'q) expr" where
  "fold_binary op l r =
     (case (l, r) of
        (ELiteral a, ELiteral b) \<Rightarrow>
          (case eval_const_binary op a b of Some v \<Rightarrow> ELiteral v | None \<Rightarrow> EBinary op l r)
      | _ \<Rightarrow> EBinary op l r)"

definition fold_unary :: "un_op \<Rightarrow> ('j, 'q) expr \<Rightarrow> ('j, 'q) expr qres" where
  "fold_unary op e =
     (case e of
        ELiteral v \<Rightarrow> omap (\<lambda>f. case f of Some u \<Rightarrow> ELiteral u | None \<Rightarrow> EUnary op e) (eval_const_unary op v)
      | _ \<Rightarrow> Ok (EUnary op e))"

fun fold_expr :: "('j, 'q) expr \<Rightarrow> ('j, 'q) expr qres" where
  "fold_expr (EBinary op l r) =
     obind (fold_expr l) (\<lambda>l. obind (fold_expr r) (\<lambda>r. Ok (fold_binary op l r)))"
| "fold_expr (EUnary op e) = obind (fold_expr e) (fold_unary op)"
| "fold_expr e = Ok e"

text \<open>\<open>map\<close> over vectors and options with a function that may panic.\<close>

fun omapM :: "('a \<Rightarrow> 'b qres) \<Rightarrow> 'a list \<Rightarrow> 'b list qres" where
  "omapM f [] = Ok []"
| "omapM f (x # xs) = obind (f x) (\<lambda>y. omap (\<lambda>ys. y # ys) (omapM f xs))"

definition omap_opt :: "('a \<Rightarrow> 'b qres) \<Rightarrow> 'a option \<Rightarrow> 'b option qres" where
  "omap_opt f x = (case x of None \<Rightarrow> Ok None | Some y \<Rightarrow> omap Some (f y))"

definition fold_output :: "('j, 'q) output_col \<Rightarrow> ('j, 'q) output_col qres" where
  "fold_output c = (case c of OutExpr e \<Rightarrow> omap OutExpr (fold_expr e) | OutAgg i \<Rightarrow> Ok (OutAgg i))"

primrec fold_plan :: "('j, 'q) plan \<Rightarrow> ('j, 'q) plan qres" where
  "fold_plan PDual = Ok PDual"
| "fold_plan (PScan table page columns alias defaults) = Ok (PScan table page columns alias defaults)"
| "fold_plan (PFilter input predicate) =
     obind (fold_plan input) (\<lambda>input. omap (PFilter input) (fold_expr predicate))"
| "fold_plan (PProject input exprs columns) =
     obind (fold_plan input) (\<lambda>input. omap (\<lambda>exprs. PProject input exprs columns) (omapM fold_expr exprs))"
| "fold_plan (PJoin left right predicate outer columns) =
     obind (fold_plan left) (\<lambda>left. obind (fold_plan right) (\<lambda>right.
     omap (\<lambda>predicate. PJoin left right predicate outer columns) (omap_opt fold_expr predicate)))"
| "fold_plan (PAggregate input group_by aggs output columns base_len having) =
     obind (fold_plan input) (\<lambda>input. obind (omapM fold_expr group_by) (\<lambda>group_by.
     obind (omapM fold_output output) (\<lambda>output.
     omap (\<lambda>having. PAggregate input group_by aggs output columns base_len having)
       (omap_opt fold_expr having))))"
| "fold_plan (PSort input keys) =
     obind (fold_plan input) (\<lambda>input.
     omap (PSort input) (omapM (\<lambda>k. omap (\<lambda>e. SortKey e (sk_asc k)) (fold_expr (sk_expr k))) keys))"
| "fold_plan (PLimit input limit offset) =
     omap (\<lambda>input. PLimit input limit offset) (fold_plan input)"
| "fold_plan (PDistinct input) = omap PDistinct (fold_plan input)"
| "fold_plan (PSetOp kind all left right columns) = Ok (PSetOp kind all left right columns)"

definition optimize :: "('j, 'q) plan \<Rightarrow> ('j, 'q) plan qres" where
  "optimize p = fold_plan p"

section \<open>Soundness\<close>

text \<open>\<open>NOT\<close> is applied nowhere to an operand that folds to a literal NULL.\<close>

fun not_safe :: "('j, 'q) expr \<Rightarrow> bool" where
  "not_safe (EBinary op l r) \<longleftrightarrow> not_safe l \<and> not_safe r"
| "not_safe (EUnary op e) \<longleftrightarrow> not_safe e \<and> (op = OpNot \<longrightarrow> fold_expr e \<noteq> Ok (ELiteral VNull))"
| "not_safe e \<longleftrightarrow> True"

lemma ev_lift_Ok [simp]: "ev_lift (Ok x) = ev_return x"
  by (simp add: ev_lift_def ev_return_def)

lemma eval_const_binary_sound:
  assumes "eval_const_binary op a b = Some v"
  shows "eval_binary pf op a b = Ok v"
proof -
  from assms have op: "op = OpAdd \<or> op = OpSub \<or> op = OpMul"
    by (auto simp: eval_const_binary_def split: if_splits)
  then obtain x y where xy: "as_f64 a = Some x" "as_f64 b = Some y"
    using assms by (auto simp: eval_const_binary_def split: option.splits)
  then have "\<not> is_null a" "\<not> is_null b" by (cases a; cases b; simp)+
  with op xy assms show ?thesis
    by (elim disjE) (simp_all add: eval_const_binary_def eval_binary_def eval_arith_def real_or_int_def Let_def)
qed

lemma eval_const_unary_sound:
  assumes "eval_const_unary op v = Ok (Some u)" and "op = OpNot \<longrightarrow> v \<noteq> VNull"
  shows "eval_unary op v = Ok u"
  using assms
  by (cases v; cases op) (auto simp: eval_const_unary_def eval_unary_def eval_neg_def omap_eq_Ok)

lemma fold_binary_sound:
  "eval pf en (fold_binary op l r) = eval pf en (EBinary op l r)"
  by (auto simp: fold_binary_def dest!: eval_const_binary_sound [of _ _ _ _ pf]
      split: expr.splits option.splits)

lemma fold_unary_sound:
  assumes "fold_unary op e = Ok e'" and "op = OpNot \<longrightarrow> e \<noteq> ELiteral VNull"
  shows "eval pf en e' = eval pf en (EUnary op e)"
proof (cases "\<exists>v. e = ELiteral v")
  case True
  then obtain v where v: "e = ELiteral v" by blast
  with assms obtain f where f: "eval_const_unary op v = Ok f"
      "e' = (case f of Some u \<Rightarrow> ELiteral u | None \<Rightarrow> EUnary op e)"
    by (auto simp: fold_unary_def omap_eq_Ok)
  show ?thesis
  proof (cases f)
    case (Some u)
    with f v assms eval_const_unary_sound [of op v u] show ?thesis
      by auto
  qed (use f in simp)
next
  case False
  with assms(1) have "e' = EUnary op e" by (cases e) (simp_all add: fold_unary_def)
  then show ?thesis by simp
qed

lemma fold_expr_sound:
  fixes e e' :: "('j, 'q) expr"
  assumes "fold_expr e = Ok e'" and "not_safe e"
  shows "eval pf en e' = eval pf en e"
  using assms
proof (induction e arbitrary: e' rule: fold_expr.induct)
  case (1 op l r)
  then obtain l' r' where "fold_expr l = Ok l'" "fold_expr r = Ok r'" "e' = fold_binary op l' r'"
    by (auto simp: obind_eq_Ok)
  with 1 show ?case by (simp add: fold_binary_sound)
next
  case (2 op e)
  then obtain e1 where "fold_expr e = Ok e1" "fold_unary op e1 = Ok e'" by (auto simp: obind_eq_Ok)
  with 2 fold_unary_sound [of op e1 e' pf en] show ?case by auto
qed auto

text \<open>
  Constant folding is sound: as long as no \<open>NOT\<close> is applied to an operand that folds to a
  literal NULL, the folded expression evaluates, on every row, with every parameter and in
  every state of the world, to the very value, error or panic of the original, and leaves
  the same world.
\<close>

theorem fold_sound:
  fixes e e' :: "('j, 'q) expr"
  assumes "fold_expr e = Ok e'" and "not_safe e"
  shows "eval pf en e' = eval pf en e"
  using assms by (rule fold_expr_sound)

theorem fold_sound_witness:
  "eval test_platform \<lparr>env_values = [], env_row_id = i64_of_int 0, env_params = []\<rparr>
      (EUnary OpNot (ELiteral (VBoolean False)) :: (unit, unit) expr)
    = ev_return (VBoolean True)"
  using fold_sound [of "EUnary OpNot (ELiteral (VBoolean False)) :: (unit, unit) expr" "ELiteral (VBoolean True)"
      test_platform "\<lparr>env_values = [], env_row_id = i64_of_int 0, env_params = []\<rparr>"]
  by (simp add: fold_unary_def eval_const_unary_def)

end
