(* ===== verification/Exec.thy ===== *)
theory Exec
  imports Optimizer BTree RowCodec
begin

text \<open>
  The pull executors of \<open>squrust-sql/src/executor\<close>: \<open>filter.rs\<close>, \<open>projection.rs\<close>, \<open>distinct.rs\<close>,
  \<open>limit.rs\<close>, \<open>sort.rs\<close>, \<open>setop.rs\<close>, \<open>join.rs\<close>, \<open>aggregate.rs\<close>, \<open>scan.rs\<close> and \<open>mod.rs\<close>. An
  executor is a tree of the operators' states, \<open>exec_next\<close> is the method \<open>next\<close>, and
  \<open>build\<close> makes the tree of a plan. A call threads the state of the page source and the world;
  after an error no caller asks an executor for more, so the error carries no state.
\<close>

section \<open>Stateful computations\<close>

type_synonym ('a, 't) sm = "'t \<Rightarrow> ('a \<times> 't) qres"

definition sm_return :: "'a \<Rightarrow> ('a, 't) sm" where
  "sm_return x = (\<lambda>t. Ok (x, t))"

definition sm_bind :: "('a, 't) sm \<Rightarrow> ('a \<Rightarrow> ('b, 't) sm) \<Rightarrow> ('b, 't) sm" where
  "sm_bind m f = (\<lambda>t. obind (m t) (\<lambda>(x, t). f x t))"

text \<open>An evaluation inside an execution, and an operation of the page source.\<close>

definition sm_ev :: "'a ev \<Rightarrow> ('a, 's \<times> world) sm" where
  "sm_ev m = (\<lambda>(s, w). omap (\<lambda>(x, w). (x, (s, w))) (m w))"

fun from_storage :: "'a sres \<Rightarrow> 'a qres" where
  "from_storage (Ok x) = Ok x"
| "from_storage (Err e) = Err (StorageFailure e)"
| "from_storage Panic = Panic"
| "from_storage Diverge = Diverge"

definition sm_storage :: "('s \<Rightarrow> ('a \<times> 's) sres) \<Rightarrow> ('a, 's \<times> world) sm" where
  "sm_storage m = (\<lambda>(s, w). omap (\<lambda>(x, s). (x, (s, w))) (from_storage (m s)))"

section \<open>Rows as sets and sequences\<close>

text \<open>Equality of rows for \<open>DISTINCT\<close> and the set operations: two NULLs are equal.\<close>

definition value_same :: "'j sql_value \<Rightarrow> 'j sql_value \<Rightarrow> bool" where
  "value_same x y =
     (if is_null x \<and> is_null y then True else if \<not> is_null x \<and> \<not> is_null y then value_eq x y else False)"

definition rows_eq :: "'j sql_value list \<Rightarrow> 'j sql_value list \<Rightarrow> bool" where
  "rows_eq a b \<longleftrightarrow> list_all2 value_same a b"

definition seen_in :: "'j sql_value list list \<Rightarrow> 'j row \<Rightarrow> bool" where
  "seen_in seen r \<longleftrightarrow> list_ex (\<lambda>prev. rows_eq prev (row_values r)) seen"

fun dedup :: "'j sql_value list list \<Rightarrow> 'j row list \<Rightarrow> 'j row list" where
  "dedup seen [] = []"
| "dedup seen (r # rs) =
     (if seen_in seen r then dedup seen rs else r # dedup (seen @ [row_values r]) rs)"

text \<open>
  \<open>sort_by\<close> is stable. For a comparator that is not a total preorder Rust promises no
  particular order and may panic; the model then is one of the possible results.
\<close>

fun insert_by :: "('a \<Rightarrow> 'a \<Rightarrow> ordering) \<Rightarrow> 'a \<Rightarrow> 'a list \<Rightarrow> 'a list" where
  "insert_by c x [] = [x]"
| "insert_by c x (y # ys) = (if c x y = Greater then y # insert_by c x ys else x # y # ys)"

fun sort_by :: "('a \<Rightarrow> 'a \<Rightarrow> ordering) \<Rightarrow> 'a list \<Rightarrow> 'a list" where
  "sort_by c [] = []"
| "sort_by c (x # xs) = insert_by c x (sort_by c xs)"

fun cmp_values :: "'j sql_value list \<Rightarrow> 'j sql_value list \<Rightarrow> ordering" where
  "cmp_values (x # xs) (y # ys) =
     (let o1 = order_key x y in if o1 \<noteq> Equal then o1 else cmp_values xs ys)"
| "cmp_values xs ys = ord_of (length xs) (length ys)"

definition sort_set_rows :: "'j row list \<Rightarrow> 'j row list" where
  "sort_set_rows = sort_by (\<lambda>a b. cmp_values (row_values a) (row_values b))"

text \<open>\<open>SetOpExec::compute\<close> on the collected inputs.\<close>

definition set_op_rows :: "set_op_kind \<Rightarrow> bool \<Rightarrow> 'j row list \<Rightarrow> 'j row list \<Rightarrow> 'j row list" where
  "set_op_rows kind all lrows rrows =
     (case kind of
        SetUnion \<Rightarrow> if all then lrows @ rrows else sort_set_rows (dedup [] (lrows @ rrows))
      | SetIntersect \<Rightarrow> sort_set_rows (dedup [] (filter (seen_in (map row_values rrows)) lrows))
      | SetExcept \<Rightarrow> sort_set_rows (dedup [] (filter (\<lambda>r. \<not> seen_in (map row_values rrows) r) lrows)))"

section \<open>Sorting\<close>

definition row_env :: "'j sql_value list \<Rightarrow> 'j row \<Rightarrow> 'j env" where
  "row_env params r = \<lparr>env_values = row_values r, env_row_id = row_id r, env_params = params\<rparr>"

fun sort_cmp :: "('j, 'q) sort_key list \<Rightarrow> 'j sql_value list \<Rightarrow> 'j sql_value list \<Rightarrow> ordering" where
  "sort_cmp (k # ks) (x # xs) (y # ys) =
     (let c = order_key x y; c = (if sk_asc k then c else ord_reverse c) in
      if c \<noteq> Equal then c else sort_cmp ks xs ys)"
| "sort_cmp _ _ _ = Equal"

fun key_rows :: "'j platform \<Rightarrow> 'j sql_value list \<Rightarrow> ('j, 'q) sort_key list \<Rightarrow> 'j row list \<Rightarrow>
    ('j sql_value list \<times> 'j row) list ev" where
  "key_rows pf params keys [] = ev_return []"
| "key_rows pf params keys (r # rs) =
     ev_bind (eval_args pf (row_env params r) (map sk_expr keys)) (\<lambda>key.
     ev_bind (key_rows pf params keys rs) (\<lambda>keyed. ev_return ((key, r) # keyed)))"

definition sort_rows :: "'j platform \<Rightarrow> 'j sql_value list \<Rightarrow> ('j, 'q) sort_key list \<Rightarrow> 'j row list \<Rightarrow> 'j row list ev" where
  "sort_rows pf params keys rows =
     ev_bind (key_rows pf params keys rows) (\<lambda>keyed.
     ev_return (map snd (sort_by (\<lambda>a b. sort_cmp keys (fst a) (fst b)) keyed)))"

section \<open>Aggregation\<close>

record 'j acc =
  ac_count :: int
  ac_sum :: f64
  ac_sum_seen :: bool
  ac_extreme :: "'j sql_value option"
  ac_distinct :: "'j sql_value list"
  ac_gc :: string
  ac_gc_seen :: bool

definition acc_default :: "'j acc" where
  "acc_default = \<lparr>ac_count = 0, ac_sum = f64_zero False, ac_sum_seen = False, ac_extreme = None,
     ac_distinct = [], ac_gc = [], ac_gc_seen = False\<rparr>"

definition acc_extreme :: "ordering \<Rightarrow> 'j sql_value \<Rightarrow> 'j acc \<Rightarrow> 'j acc" where
  "acc_extreme dir v a =
     (case ac_extreme a of
        None \<Rightarrow> a\<lparr>ac_extreme := Some v\<rparr>
      | Some e \<Rightarrow> if value_compare v e = Some dir then a\<lparr>ac_extreme := Some v\<rparr> else a)"

text \<open>The update by a value that is not NULL and, for \<open>DISTINCT\<close>, has not been seen.\<close>

definition acc_add :: "'j platform \<Rightarrow> agg_func \<Rightarrow> 'j sql_value \<Rightarrow> string option \<Rightarrow> 'j acc \<Rightarrow> 'j acc" where
  "acc_add pf f v sep a =
     (case f of
        AgCountStar \<Rightarrow> a\<lparr>ac_count := ac_count a + 1\<rparr>
      | AgCount \<Rightarrow> a\<lparr>ac_count := ac_count a + 1\<rparr>
      | AgMin \<Rightarrow> acc_extreme Less v a
      | AgMax \<Rightarrow> acc_extreme Greater v a
      | AgGroupConcat \<Rightarrow>
          a\<lparr>ac_gc := (if ac_gc_seen a then ac_gc a @ (case sep of Some t \<Rightarrow> t | None \<Rightarrow> '','') else ac_gc a)
               @ to_display_string pf v, ac_gc_seen := True\<rparr>
      | _ \<Rightarrow>
          (case as_f64 v of
             Some n \<Rightarrow> a\<lparr>ac_sum := f64_add (ac_sum a) n, ac_sum_seen := True, ac_count := ac_count a + 1\<rparr>
           | None \<Rightarrow> a))"

definition acc_update :: "'j platform \<Rightarrow> ('j, 'q) agg_expr \<Rightarrow> 'j sql_value \<Rightarrow> string option \<Rightarrow> 'j acc \<Rightarrow> 'j acc" where
  "acc_update pf agg v sep a =
     (if agg_fn agg = AgCountStar then a\<lparr>ac_count := ac_count a + 1\<rparr>
      else if is_null v then a
      else if agg_distinct agg then
        (if list_ex (\<lambda>d. value_eq d v) (ac_distinct a) then a
         else acc_add pf (agg_fn agg) v sep (a\<lparr>ac_distinct := ac_distinct a @ [v]\<rparr>))
      else acc_add pf (agg_fn agg) v sep a)"

definition acc_finalize :: "agg_func \<Rightarrow> 'j acc \<Rightarrow> 'j sql_value" where
  "acc_finalize f a =
     (case f of
        AgCount \<Rightarrow> VInteger (i64_of_int (ac_count a))
      | AgCountStar \<Rightarrow> VInteger (i64_of_int (ac_count a))
      | AgSum \<Rightarrow>
          if ac_sum_seen a then
            (if f64_is_zero (f64_fract (ac_sum a)) then VInteger (f64_to_i64 (ac_sum a)) else VReal (ac_sum a))
          else VNull
      | AgAvg \<Rightarrow> if 0 < ac_count a then VReal (f64_div (ac_sum a) (f64_of_int (ac_count a))) else VNull
      | AgGroupConcat \<Rightarrow> if ac_gc_seen a then VText (ac_gc a) else VNull
      | _ \<Rightarrow> (case ac_extreme a of Some v \<Rightarrow> v | None \<Rightarrow> VNull))"

record 'j agg_group =
  gr_key :: "'j sql_value list"
  gr_accs :: "'j acc list"
  gr_rep :: "'j row"
  gr_has_rep :: bool

definition group_new :: "'j sql_value list \<Rightarrow> nat \<Rightarrow> 'j row \<Rightarrow> 'j agg_group" where
  "group_new key n rep =
     \<lparr>gr_key = key, gr_accs = replicate n acc_default, gr_rep = rep,
      gr_has_rep = (row_values rep \<noteq> [] \<or> row_id rep \<noteq> i64_of_int 0)\<rparr>"

definition keys_eq :: "'j sql_value list \<Rightarrow> 'j sql_value list \<Rightarrow> bool" where
  "keys_eq a b \<longleftrightarrow> list_all2 value_eq a b"

definition eval_opt :: "'j platform \<Rightarrow> 'j env \<Rightarrow> ('j, 'q) expr option \<Rightarrow> 'j sql_value ev" where
  "eval_opt pf en e = (case e of Some e \<Rightarrow> eval pf en e | None \<Rightarrow> ev_return VNull)"

definition eval_sep :: "'j platform \<Rightarrow> 'j env \<Rightarrow> ('j, 'q) agg_expr \<Rightarrow> string option ev" where
  "eval_sep pf en agg =
     (if agg_fn agg = AgGroupConcat then
        (case agg_sep agg of
           Some e \<Rightarrow> ev_bind (eval pf en e) (\<lambda>v. ev_return (Some (to_display_string pf v)))
         | None \<Rightarrow> ev_return (Some '',''))
      else ev_return None)"

fun update_accs :: "'j platform \<Rightarrow> 'j env \<Rightarrow> ('j, 'q) agg_expr list \<Rightarrow> 'j acc list \<Rightarrow> 'j acc list ev" where
  "update_accs pf en (agg # aggs) (a # accs) =
     ev_bind (eval_opt pf en (agg_arg agg)) (\<lambda>v.
     ev_bind (eval_sep pf en agg) (\<lambda>sep.
     ev_bind (update_accs pf en aggs accs) (\<lambda>accs. ev_return (acc_update pf agg v sep a # accs))))"
| "update_accs pf en aggs accs = ev_return accs"

definition add_to_groups :: "'j platform \<Rightarrow> 'j sql_value list \<Rightarrow> ('j, 'q) expr list \<Rightarrow> ('j, 'q) agg_expr list \<Rightarrow>
    'j row \<Rightarrow> 'j agg_group list \<Rightarrow> 'j agg_group list ev" where
  "add_to_groups pf params group_by aggs r groups =
     ev_bind (eval_args pf (row_env params r) group_by) (\<lambda>key.
     let (idx, groups) = (case position (\<lambda>g. keys_eq (gr_key g) key) groups of
           Some i \<Rightarrow> (i, groups)
         | None \<Rightarrow> (length groups, groups @ [group_new key (length aggs) r]));
         g = groups ! idx
     in ev_bind (update_accs pf (row_env params r) aggs (gr_accs g)) (\<lambda>accs.
        ev_return (groups[idx := g\<lparr>gr_accs := accs\<rparr>])))"

fun make_groups :: "'j platform \<Rightarrow> 'j sql_value list \<Rightarrow> ('j, 'q) expr list \<Rightarrow> ('j, 'q) agg_expr list \<Rightarrow>
    'j row list \<Rightarrow> 'j agg_group list \<Rightarrow> 'j agg_group list ev" where
  "make_groups pf params group_by aggs [] groups = ev_return groups"
| "make_groups pf params group_by aggs (r # rs) groups =
     ev_bind (add_to_groups pf params group_by aggs r groups) (make_groups pf params group_by aggs rs)"

definition row_default :: "'j row" where
  "row_default = \<lparr>row_id = i64_of_int 0, row_values = []\<rparr>"

definition cmp_keys :: "'j sql_value list \<Rightarrow> 'j sql_value list \<Rightarrow> ordering" where
  "cmp_keys a b = cmp_values a b"

text \<open>Without \<open>GROUP BY\<close> an empty input has one group; otherwise groups are ordered by key.\<close>

definition order_groups :: "bool \<Rightarrow> nat \<Rightarrow> 'j agg_group list \<Rightarrow> 'j agg_group list" where
  "order_groups no_group_by n_aggs groups =
     (if no_group_by \<and> groups = [] then [group_new [] n_aggs row_default]
      else sort_by (\<lambda>a b. cmp_keys (gr_key a) (gr_key b)) groups)"

definition resize :: "nat \<Rightarrow> 'j sql_value list \<Rightarrow> 'j sql_value list" where
  "resize n vs = take n vs @ replicate (n - length vs) VNull"

definition group_passes :: "'j platform \<Rightarrow> 'j sql_value list \<Rightarrow> nat \<Rightarrow> ('j, 'q) expr option \<Rightarrow> 'j sql_value list \<Rightarrow>
    'j row \<Rightarrow> bool ev" where
  "group_passes pf params base_len having finalized rep =
     (case having of
        None \<Rightarrow> ev_return True
      | Some h \<Rightarrow>
          ev_bind (eval pf (row_env params (rep\<lparr>row_values := resize base_len (row_values rep) @ finalized\<rparr>)) h)
            (\<lambda>v. ev_return (is_truthy v)))"

fun group_output :: "'j platform \<Rightarrow> 'j sql_value list \<Rightarrow> 'j sql_value list \<Rightarrow> 'j agg_group \<Rightarrow> ('j, 'q) output_col list \<Rightarrow>
    'j sql_value list ev" where
  "group_output pf params finalized g [] = ev_return []"
| "group_output pf params finalized g (c # cs) =
     ev_bind (case c of
          OutAgg i \<Rightarrow> ev_lift (index_at finalized i)
        | OutExpr e \<Rightarrow> if gr_has_rep g then eval pf (row_env params (gr_rep g)) e else ev_return VNull) (\<lambda>v.
     ev_bind (group_output pf params finalized g cs) (\<lambda>vs. ev_return (v # vs)))"

fun emit_groups :: "'j platform \<Rightarrow> 'j sql_value list \<Rightarrow> ('j, 'q) agg_expr list \<Rightarrow> ('j, 'q) output_col list \<Rightarrow> nat \<Rightarrow>
    ('j, 'q) expr option \<Rightarrow> 'j agg_group list \<Rightarrow> 'j row list ev" where
  "emit_groups pf params aggs output base_len having [] = ev_return []"
| "emit_groups pf params aggs output base_len having (g # gs) =
     (let finalized = map (\<lambda>(agg, a). acc_finalize (agg_fn agg) a) (zip aggs (gr_accs g)) in
      ev_bind (group_passes pf params base_len having finalized (gr_rep g)) (\<lambda>keep.
      ev_bind (if keep then
                 ev_bind (group_output pf params finalized g output) (\<lambda>vs.
                 ev_return [\<lparr>row_id = i64_of_int 0, row_values = vs\<rparr>])
               else ev_return []) (\<lambda>row.
      ev_bind (emit_groups pf params aggs output base_len having gs) (\<lambda>rest. ev_return (row @ rest)))))"

definition agg_rows :: "'j platform \<Rightarrow> 'j sql_value list \<Rightarrow> ('j, 'q) expr list \<Rightarrow> ('j, 'q) agg_expr list \<Rightarrow>
    ('j, 'q) output_col list \<Rightarrow> nat \<Rightarrow> ('j, 'q) expr option \<Rightarrow> 'j row list \<Rightarrow> 'j row list ev" where
  "agg_rows pf params group_by aggs output base_len having rows =
     ev_bind (make_groups pf params group_by aggs rows []) (\<lambda>groups.
     emit_groups pf params aggs output base_len having (order_groups (group_by = []) (length aggs) groups))"

section \<open>Operators\<close>

datatype ('j, 'q) exec =
    XDual bool
  | XRows "column_info list" "'j row list"
  | XScan page_id "column_info list" "nat option" "'j sql_value list" i64 bool
  | XFilter "('j, 'q) exec" "('j, 'q) expr"
  | XProject "('j, 'q) exec" "('j, 'q) expr list" "column_info list"
  | XDistinct "('j, 'q) exec" "'j sql_value list list"
  | XLimit "('j, 'q) exec" "nat option" nat nat nat
  | XSort "('j, 'q) exec" "('j, 'q) sort_key list" "'j row list option"
  | XSetOp "('j, 'q) exec" "('j, 'q) exec" set_op_kind bool "column_info list" "'j row list option"
  | XJoin "('j, 'q) exec" "('j, 'q) exec" "'j row list option" "('j, 'q) expr option" bool "column_info list"
      nat "('j row \<times> nat \<times> bool) option"
  | XAgg "('j, 'q) exec" "('j, 'q) expr list" "('j, 'q) agg_expr list" "('j, 'q) output_col list"
      "column_info list" nat "('j, 'q) expr option" "'j row list option"

text \<open>
  \<open>XLimit input limit offset skipped emitted\<close>; \<open>XSort\<close>, \<open>XSetOp\<close> and \<open>XAgg\<close> end with the rows
  still to give once they are computed; \<open>XJoin left right right_rows predicate left_outer columns
  right_ncols current\<close> has the current left row, the index of the next right row and
  whether the left row matched.
\<close>

primrec exec_columns :: "('j, 'q) exec \<Rightarrow> column_info list" where
  "exec_columns (XDual done) = []"
| "exec_columns (XRows columns rows) = columns"
| "exec_columns (XScan page columns alias defaults key done) = columns"
| "exec_columns (XFilter input p) = exec_columns input"
| "exec_columns (XProject input exprs columns) = columns"
| "exec_columns (XDistinct input seen) = exec_columns input"
| "exec_columns (XLimit input limit offset skipped emitted) = exec_columns input"
| "exec_columns (XSort input keys produced) = exec_columns input"
| "exec_columns (XSetOp l r kind all columns produced) = columns"
| "exec_columns (XJoin l r rows p outer columns n cur) = columns"
| "exec_columns (XAgg input group_by aggs output columns base_len having produced) = columns"

primrec build :: "('j, 'q) plan \<Rightarrow> ('j, 'q) exec" where
  "build PDual = XDual False"
| "build (PScan table page columns alias defaults) =
     XScan page columns alias defaults (i64_of_int i64_min) False"
| "build (PFilter input predicate) = XFilter (build input) predicate"
| "build (PProject input exprs columns) = XProject (build input) exprs columns"
| "build (PJoin left right predicate outer columns) =
     XJoin (build left) (build right) None predicate outer columns (length (exec_columns (build right))) None"
| "build (PAggregate input group_by aggs output columns base_len having) =
     XAgg (build input) group_by aggs output columns base_len having None"
| "build (PSort input keys) = XSort (build input) keys None"
| "build (PLimit input limit offset) = XLimit (build input) limit offset 0 0"
| "build (PDistinct input) = XDistinct (build input) []"
| "build (PSetOp kind all left right columns) = XSetOp (build left) (build right) kind all columns None"

text \<open>What an execution reads from: the page source, the platform and the bound parameters.\<close>

record ('j, 's) exec_ctx =
  xc_source :: "'s page_source"
  xc_fuel :: nat
  xc_pf :: "'j platform"
  xc_params :: "'j sql_value list"

type_synonym ('j, 'q, 's) step = "('j row option \<times> ('j, 'q) exec, 's \<times> world) sm"

text \<open>\<open>collect_all\<close>, with \<open>n\<close> calls of \<open>next\<close> at most.\<close>

fun collect_with :: "(('j, 'q) exec \<Rightarrow> ('j, 'q, 's) step) \<Rightarrow> nat \<Rightarrow> ('j, 'q) exec \<Rightarrow>
    ('j row list, 's \<times> world) sm" where
  "collect_with nxt 0 e = (\<lambda>t. Diverge)"
| "collect_with nxt (Suc n) e =
     sm_bind (nxt e) (\<lambda>(r, e).
     case r of
       None \<Rightarrow> sm_return []
     | Some row \<Rightarrow> sm_bind (collect_with nxt n e) (\<lambda>rows. sm_return (row # rows)))"

text \<open>
  A decoded record padded with the defaults of the columns added after it was written, with
  the row id in the column that aliases it.
\<close>

definition scan_row :: "column_info list \<Rightarrow> nat option \<Rightarrow> 'j sql_value list \<Rightarrow> i64 \<Rightarrow> bytes \<Rightarrow> 'j row qres" where
  "scan_row columns alias defaults key data =
     obind (row_decode key data) (\<lambda>r.
     let vs = row_values r in
     obind (if length vs < length columns
            then omap (\<lambda>tl. vs @ tl) (slice_from defaults (length vs)) else Ok vs) (\<lambda>vs.
     Ok (r\<lparr>row_values := (case alias of Some a \<Rightarrow> vs[a := VInteger key] | None \<Rightarrow> vs)\<rparr>)))"

text \<open>Each call seeks again: the first entry whose key is not below \<open>key\<close>.\<close>

definition scan_fetch :: "('j, 's) exec_ctx \<Rightarrow> page_id \<Rightarrow> i64 \<Rightarrow> 's \<Rightarrow> ((i64 \<times> bytes) option \<times> 's) sres" where
  "scan_fetch X page key s =
     obind (cursor_seek (xc_source X) (xc_fuel X) s page key) (\<lambda>(c, s).
     obind (cursor_next (xc_source X) (xc_fuel X) (xc_fuel X) s c) (\<lambda>(r, c, s). Ok (r, s)))"

definition scan_next :: "('j, 's) exec_ctx \<Rightarrow> page_id \<Rightarrow> column_info list \<Rightarrow> nat option \<Rightarrow> 'j sql_value list \<Rightarrow>
    i64 \<Rightarrow> bool \<Rightarrow> ('j, 'q, 's) step" where
  "scan_next X page columns alias defaults next_key done =
     (if done then sm_return (None, XScan page columns alias defaults next_key done)
      else
        sm_bind (sm_storage (scan_fetch X page next_key)) (\<lambda>r.
        case r of
          None \<Rightarrow> sm_return (None, XScan page columns alias defaults next_key True)
        | Some (key, data) \<Rightarrow>
            sm_bind (\<lambda>t. omap (\<lambda>row. (row, t)) (scan_row columns alias defaults key data)) (\<lambda>row.
            sm_return (Some row,
              if int_of_i64 key < i64_max
              then XScan page columns alias defaults (i64_of_int (int_of_i64 key + 1)) False
              else XScan page columns alias defaults next_key True))))"

definition filter_next :: "('j, 's) exec_ctx \<Rightarrow> (('j, 'q) exec \<Rightarrow> ('j, 'q, 's) step) \<Rightarrow>
    ('j, 'q) exec \<Rightarrow> ('j, 'q) expr \<Rightarrow> ('j, 'q, 's) step" where
  "filter_next X nxt input p =
     sm_bind (nxt input) (\<lambda>(r, input).
     case r of
       None \<Rightarrow> sm_return (None, XFilter input p)
     | Some row \<Rightarrow>
         sm_bind (sm_ev (eval (xc_pf X) (row_env (xc_params X) row) p)) (\<lambda>v.
         if is_truthy v then sm_return (Some row, XFilter input p) else nxt (XFilter input p)))"

definition project_next :: "('j, 's) exec_ctx \<Rightarrow> (('j, 'q) exec \<Rightarrow> ('j, 'q, 's) step) \<Rightarrow>
    ('j, 'q) exec \<Rightarrow> ('j, 'q) expr list \<Rightarrow> column_info list \<Rightarrow> ('j, 'q, 's) step" where
  "project_next X nxt input exprs columns =
     sm_bind (nxt input) (\<lambda>(r, input).
     case r of
       None \<Rightarrow> sm_return (None, XProject input exprs columns)
     | Some row \<Rightarrow>
         sm_bind (sm_ev (eval_args (xc_pf X) (row_env (xc_params X) row) exprs)) (\<lambda>vs.
         sm_return (Some (row\<lparr>row_values := vs\<rparr>), XProject input exprs columns)))"

definition distinct_next :: "(('j, 'q) exec \<Rightarrow> ('j, 'q, 's) step) \<Rightarrow>
    ('j, 'q) exec \<Rightarrow> 'j sql_value list list \<Rightarrow> ('j, 'q, 's) step" where
  "distinct_next nxt input seen =
     sm_bind (nxt input) (\<lambda>(r, input).
     case r of
       None \<Rightarrow> sm_return (None, XDistinct input seen)
     | Some row \<Rightarrow>
         if seen_in seen row then nxt (XDistinct input seen)
         else sm_return (Some row, XDistinct input (seen @ [row_values row])))"

definition limit_next :: "(('j, 'q) exec \<Rightarrow> ('j, 'q, 's) step) \<Rightarrow>
    ('j, 'q) exec \<Rightarrow> nat option \<Rightarrow> nat \<Rightarrow> nat \<Rightarrow> nat \<Rightarrow> ('j, 'q, 's) step" where
  "limit_next nxt input limit offset skipped emitted =
     (if skipped < offset then
        sm_bind (nxt input) (\<lambda>(r, input).
        case r of
          None \<Rightarrow> sm_return (None, XLimit input limit offset skipped emitted)
        | Some _ \<Rightarrow> nxt (XLimit input limit offset (skipped + 1) emitted))
      else if (case limit of Some l \<Rightarrow> l \<le> emitted | None \<Rightarrow> False) then
        sm_return (None, XLimit input limit offset skipped emitted)
      else
        sm_bind (nxt input) (\<lambda>(r, input).
        case r of
          None \<Rightarrow> sm_return (None, XLimit input limit offset skipped emitted)
        | Some row \<Rightarrow> sm_return (Some row, XLimit input limit offset skipped (emitted + 1))))"

text \<open>The next of the rows an operator has computed.\<close>

definition give :: "'j row list \<Rightarrow> ('j row list \<Rightarrow> ('j, 'q) exec) \<Rightarrow> ('j, 'q, 's) step" where
  "give rows mk =
     (case rows of [] \<Rightarrow> sm_return (None, mk []) | r # rs \<Rightarrow> sm_return (Some r, mk rs))"

definition join_row :: "'j row \<Rightarrow> 'j sql_value list \<Rightarrow> 'j row" where
  "join_row l vs = l\<lparr>row_values := row_values l @ vs\<rparr>"

text \<open>The inner loop of the join: the next right row that matches, from an index on.\<close>

fun join_scan :: "'j platform \<Rightarrow> 'j sql_value list \<Rightarrow> ('j, 'q) expr option \<Rightarrow> 'j row \<Rightarrow> 'j row list \<Rightarrow> nat \<Rightarrow>
    ('j row \<times> nat) option ev" where
  "join_scan pf params p l [] i = ev_return None"
| "join_scan pf params p l (r # rs) i =
     (let row = join_row l (row_values r) in
      ev_bind (case p of
          None \<Rightarrow> ev_return True
        | Some p \<Rightarrow> ev_bind (eval pf (row_env params row) p) (\<lambda>v. ev_return (is_truthy v))) (\<lambda>keep.
      if keep then ev_return (Some (row, i + 1)) else join_scan pf params p l rs (i + 1)))"

definition join_current :: "('j, 's) exec_ctx \<Rightarrow> (('j, 'q) exec \<Rightarrow> ('j, 'q, 's) step) \<Rightarrow>
    ('j, 'q) exec \<Rightarrow> ('j, 'q) exec \<Rightarrow> 'j row list \<Rightarrow> ('j, 'q) expr option \<Rightarrow> bool \<Rightarrow> column_info list \<Rightarrow> nat \<Rightarrow>
    'j row \<Rightarrow> nat \<Rightarrow> bool \<Rightarrow> ('j, 'q, 's) step" where
  "join_current X nxt left right rows p outer columns ncols l i matched =
     sm_bind (sm_ev (join_scan (xc_pf X) (xc_params X) p l (drop i rows) i)) (\<lambda>m.
     case m of
       Some (row, i) \<Rightarrow> sm_return (Some row, XJoin left right (Some rows) p outer columns ncols (Some (l, i, True)))
     | None \<Rightarrow>
         let e = XJoin left right (Some rows) p outer columns ncols None in
         if outer \<and> \<not> matched then sm_return (Some (join_row l (replicate ncols VNull)), e)
         else nxt e)"

definition join_next :: "('j, 's) exec_ctx \<Rightarrow> nat \<Rightarrow> (('j, 'q) exec \<Rightarrow> ('j, 'q, 's) step) \<Rightarrow>
    ('j, 'q) exec \<Rightarrow> ('j, 'q) exec \<Rightarrow> 'j row list option \<Rightarrow> ('j, 'q) expr option \<Rightarrow> bool \<Rightarrow> column_info list \<Rightarrow> nat \<Rightarrow>
    ('j row \<times> nat \<times> bool) option \<Rightarrow> ('j, 'q, 's) step" where
  "join_next X n nxt left right right_rows p outer columns ncols cur =
     sm_bind (case right_rows of Some rows \<Rightarrow> sm_return rows | None \<Rightarrow> collect_with nxt n right) (\<lambda>rows.
     case cur of
       Some (l, i, matched) \<Rightarrow> join_current X nxt left right rows p outer columns ncols l i matched
     | None \<Rightarrow>
         sm_bind (nxt left) (\<lambda>(r, left).
         case r of
           None \<Rightarrow> sm_return (None, XJoin left right (Some rows) p outer columns ncols None)
         | Some l \<Rightarrow> join_current X nxt left right rows p outer columns ncols l 0 False))"

text \<open>One call of \<open>next\<close>, given the calls with less fuel.\<close>

definition exec_step :: "('j, 's) exec_ctx \<Rightarrow> nat \<Rightarrow> (('j, 'q) exec \<Rightarrow> ('j, 'q, 's) step) \<Rightarrow>
    ('j, 'q) exec \<Rightarrow> ('j, 'q, 's) step" where
  "exec_step X n nxt e =
     (case e of
        XDual done \<Rightarrow>
          if done then sm_return (None, XDual True)
          else sm_return (Some \<lparr>row_id = i64_of_int 0, row_values = []\<rparr>, XDual True)
      | XRows columns rows \<Rightarrow> give rows (XRows columns)
      | XScan page columns alias defaults next_key done \<Rightarrow>
          scan_next X page columns alias defaults next_key done
      | XFilter input p \<Rightarrow> filter_next X nxt input p
      | XProject input exprs columns \<Rightarrow> project_next X nxt input exprs columns
      | XDistinct input seen \<Rightarrow> distinct_next nxt input seen
      | XLimit input limit offset skipped emitted \<Rightarrow> limit_next nxt input limit offset skipped emitted
      | XSort input keys produced \<Rightarrow>
          sm_bind (case produced of
              Some rows \<Rightarrow> sm_return rows
            | None \<Rightarrow> sm_bind (collect_with nxt n input) (\<lambda>rows.
                sm_ev (sort_rows (xc_pf X) (xc_params X) keys rows))) (\<lambda>rows.
          give rows (\<lambda>rest. XSort input keys (Some rest)))
      | XSetOp left right kind all columns produced \<Rightarrow>
          sm_bind (case produced of
              Some rows \<Rightarrow> sm_return rows
            | None \<Rightarrow> sm_bind (collect_with nxt n left) (\<lambda>lrows. sm_bind (collect_with nxt n right) (\<lambda>rrows.
                sm_return (set_op_rows kind all lrows rrows)))) (\<lambda>rows.
          give rows (\<lambda>rest. XSetOp left right kind all columns (Some rest)))
      | XJoin left right right_rows p outer columns ncols cur \<Rightarrow>
          join_next X n nxt left right right_rows p outer columns ncols cur
      | XAgg input group_by aggs output columns base_len having produced \<Rightarrow>
          sm_bind (case produced of
              Some rows \<Rightarrow> sm_return rows
            | None \<Rightarrow> sm_bind (collect_with nxt n input) (\<lambda>rows.
                sm_ev (agg_rows (xc_pf X) (xc_params X) group_by aggs output base_len having rows))) (\<lambda>rows.
          give rows (\<lambda>rest. XAgg input group_by aggs output columns base_len having (Some rest))))"

primrec exec_next :: "('j, 's) exec_ctx \<Rightarrow> nat \<Rightarrow> ('j, 'q) exec \<Rightarrow> ('j, 'q, 's) step" where
  "exec_next X 0 = (\<lambda>e t. Diverge)"
| "exec_next X (Suc n) = exec_step X n (exec_next X n)"

definition collect_all :: "('j, 's) exec_ctx \<Rightarrow> nat \<Rightarrow> ('j, 'q) exec \<Rightarrow> ('j row list, 's \<times> world) sm" where
  "collect_all X n e = collect_with (exec_next X n) n e"

text \<open>An executor over fixed rows, as \<open>PRAGMA\<close> uses it.\<close>

definition rows_exec :: "column_info list \<Rightarrow> 'j sql_value list list \<Rightarrow> ('j, 'q) exec" where
  "rows_exec columns rows = XRows columns (map (\<lambda>vs. \<lparr>row_id = i64_of_int 0, row_values = vs\<rparr>) rows)"

section \<open>Expressions that do not depend on the world\<close>

definition WORLD_FNS :: "string list" where
  "WORLD_FNS = [''RANDOM'', ''RANDOMBLOB'', ''DATE'', ''TIME'', ''DATETIME'', ''JULIANDAY'', ''UNIXEPOCH'', ''STRFTIME'']"

primrec pure_expr :: "('j, 'q) expr \<Rightarrow> bool" where
  "pure_expr (ELiteral v) \<longleftrightarrow> True"
| "pure_expr (EColumn i) \<longleftrightarrow> True"
| "pure_expr ERowId \<longleftrightarrow> True"
| "pure_expr (EParam i) \<longleftrightarrow> True"
| "pure_expr (EBinary op l r) \<longleftrightarrow> pure_expr l \<and> pure_expr r"
| "pure_expr (EUnary op e) \<longleftrightarrow> pure_expr e"
| "pure_expr (EIsNull e negated) \<longleftrightarrow> pure_expr e"
| "pure_expr (ELike e p negated) \<longleftrightarrow> pure_expr e \<and> pure_expr p"
| "pure_expr (EInList e items negated) \<longleftrightarrow> pure_expr e \<and> list_all (\<lambda>b. b) (map pure_expr items)"
| "pure_expr (EFunction name args) \<longleftrightarrow>
     to_ascii_uppercase name \<notin> set WORLD_FNS \<and> list_all (\<lambda>b. b) (map pure_expr args)"
| "pure_expr (ECast e ty) \<longleftrightarrow> pure_expr e"
| "pure_expr (ECase operand whens els) \<longleftrightarrow>
     pred_option (\<lambda>b. b) (map_option pure_expr operand)
     \<and> list_all (\<lambda>(a, b). a \<and> b) (map (map_prod pure_expr pure_expr) whens)
     \<and> pred_option (\<lambda>b. b) (map_option pure_expr els)"
| "pure_expr (EScalarSubquery q) \<longleftrightarrow> True"
| "pure_expr (EExists q negated) \<longleftrightarrow> True"
| "pure_expr (EInSubquery e q negated) \<longleftrightarrow> True"

definition is_pure :: "'a ev \<Rightarrow> bool" where
  "is_pure m \<longleftrightarrow> (\<exists>r. m = ev_lift r)"

named_theorems pure_intros \<open>computations that do not touch the world\<close>

lemma ev_return_lift: "ev_return x = ev_lift (Ok x)"
  and ev_fail_lift: "ev_fail e = ev_lift (Err e)"
  by (simp_all add: ev_fail_def ev_lift_def ev_return_def)

lemma is_pure_basic [pure_intros]: "is_pure (ev_return x)" "is_pure (ev_lift r)" "is_pure (ev_fail e)"
  unfolding is_pure_def ev_return_lift ev_fail_lift by blast+

lemma is_pure_bind [pure_intros]:
  assumes "is_pure m" and "\<And>x. is_pure (f x)"
  shows "is_pure (ev_bind m f)"
proof -
  obtain r where r: "m = ev_lift r" using assms(1) by (auto simp: is_pure_def)
  show ?thesis
  proof (cases r)
    case (Ok x)
    with r assms(2) [of x] show ?thesis by simp
  qed (use r in \<open>auto simp: is_pure_def ev_bind_def ev_lift_def intro: exI [of _ Panic] exI [of _ Diverge]
      exI [of _ "Err e" for e]\<close>)
qed

lemma is_pure_if [pure_intros]: "(c \<Longrightarrow> is_pure a) \<Longrightarrow> (\<not> c \<Longrightarrow> is_pure b) \<Longrightarrow> is_pure (if c then a else b)"
  by simp

lemma is_pure_option [pure_intros]:
  "is_pure a \<Longrightarrow> (\<And>x. y = Some x \<Longrightarrow> is_pure (f x)) \<Longrightarrow> is_pure (case y of None \<Rightarrow> a | Some x \<Rightarrow> f x)"
  by (cases y) auto

lemma eval_function_pure:
  "to_ascii_uppercase name \<notin> set WORLD_FNS \<Longrightarrow> is_pure (eval_function pf name args)"
  by (auto simp: eval_function_def fn_effect_def WORLD_FNS_def Let_def intro!: pure_intros split: option.split)

lemma eval_is_pure:
  fixes e :: "('j, 'q) expr" and es es' :: "('j, 'q) expr list" and ws :: "(('j, 'q) expr \<times> ('j, 'q) expr) list"
  shows eval_pure: "pure_expr e \<Longrightarrow> is_pure (eval pf en e)"
  and eval_args_pure: "list_all (\<lambda>b. b) (map pure_expr es) \<Longrightarrow> is_pure (eval_args pf' en' es)"
  and eval_in_pure: "list_all (\<lambda>b. b) (map pure_expr es') \<Longrightarrow> is_pure (eval_in pf1 en1 v es')"
  and eval_whens_pure: "list_all (\<lambda>(a, b). a \<and> b) (map (map_prod pure_expr pure_expr) ws) \<Longrightarrow>
     pred_option (\<lambda>b. b) (map_option pure_expr els) \<Longrightarrow> is_pure (eval_whens pf2 en2 operand ws els)"
proof (induction pf en e and pf' en' es and pf1 en1 v es' and pf2 en2 operand ws els
    rule: eval_eval_args_eval_in_eval_whens.induct)
  case (12 pf en operand whens els)
  then show ?case by (cases operand) (auto intro!: pure_intros)
next
  case (20 pf en operand els)
  then show ?case by (cases els) (auto intro!: pure_intros)
qed (auto intro!: pure_intros eval_function_pure)

end
