(* ===== verification/ExecSpec.thy ===== *)
theory ExecSpec
  imports Exec
begin

text \<open>
  What a plan means, without executors: \<open>plan_rows\<close> gives the list of its rows by relational
  algebra on lists. Which plans do not depend on the world, and the soundness of the
  optimizer for whole plans.
\<close>

section \<open>What a plan denotes\<close>

definition default_world :: world where
  "default_world = \<lparr>w_clock = (\<lambda>_. None), w_ticks = 0, w_rng = 0\<rparr>"

definition run_pure :: "'a ev \<Rightarrow> 'a qres" where
  "run_pure m = omap fst (m default_world)"

text \<open>The rows for which a test answers true, unless a test fails.\<close>

fun keep_rows :: "('a \<Rightarrow> bool qres) \<Rightarrow> 'a list \<Rightarrow> 'a list qres" where
  "keep_rows f [] = Ok []"
| "keep_rows f (r # rs) = obind (f r) (\<lambda>k. omap (\<lambda>rs. if k then r # rs else rs) (keep_rows f rs))"

definition pred_holds :: "'j platform \<Rightarrow> 'j sql_value list \<Rightarrow> ('j, 'q) expr \<Rightarrow> 'j row \<Rightarrow> bool qres" where
  "pred_holds pf params p r = omap is_truthy (run_pure (eval pf (row_env params r) p))"

definition opt_holds :: "'j platform \<Rightarrow> 'j sql_value list \<Rightarrow> ('j, 'q) expr option \<Rightarrow> 'j row \<Rightarrow> bool qres" where
  "opt_holds pf params p r = (case p of None \<Rightarrow> Ok True | Some p \<Rightarrow> pred_holds pf params p r)"

definition project_row :: "'j platform \<Rightarrow> 'j sql_value list \<Rightarrow> ('j, 'q) expr list \<Rightarrow> 'j row \<Rightarrow> 'j row qres" where
  "project_row pf params exprs r =
     omap (\<lambda>vs. r\<lparr>row_values := vs\<rparr>) (run_pure (eval_args pf (row_env params r) exprs))"

definition matches :: "'j platform \<Rightarrow> 'j sql_value list \<Rightarrow> ('j, 'q) expr option \<Rightarrow> 'j row \<Rightarrow> 'j row list \<Rightarrow> 'j row list qres" where
  "matches pf params p l rights = keep_rows (opt_holds pf params p) (map (\<lambda>r. join_row l (row_values r)) rights)"

fun join_rows :: "'j platform \<Rightarrow> 'j sql_value list \<Rightarrow> ('j, 'q) expr option \<Rightarrow> bool \<Rightarrow> nat \<Rightarrow> 'j row list \<Rightarrow>
    'j row list \<Rightarrow> 'j row list qres" where
  "join_rows pf params p outer n [] rights = Ok []"
| "join_rows pf params p outer n (l # ls) rights =
     obind (matches pf params p l rights) (\<lambda>ms.
     omap (\<lambda>rest. (if outer \<and> ms = [] then [join_row l (replicate n VNull)] else ms) @ rest)
       (join_rows pf params p outer n ls rights))"

definition limit_rows :: "nat option \<Rightarrow> nat \<Rightarrow> 'a list \<Rightarrow> 'a list" where
  "limit_rows limit offset rows =
     (case limit of None \<Rightarrow> drop offset rows | Some l \<Rightarrow> take l (drop offset rows))"

text \<open>
  The rows of a plan over the tables \<open>T\<close>, each the list of the keys and records of one
  b-tree in key order: relational algebra on lists.
\<close>

primrec plan_rows :: "'j platform \<Rightarrow> 'j sql_value list \<Rightarrow> (page_id \<Rightarrow> (i64 \<times> bytes) list) \<Rightarrow>
    ('j, 'q) plan \<Rightarrow> 'j row list qres" where
  "plan_rows pf params T PDual = Ok [\<lparr>row_id = i64_of_int 0, row_values = []\<rparr>]"
| "plan_rows pf params T (PScan table page columns alias defaults) =
     omapM (\<lambda>(key, data). scan_row columns alias defaults key data) (T page)"
| "plan_rows pf params T (PFilter input p) =
     obind (plan_rows pf params T input) (keep_rows (pred_holds pf params p))"
| "plan_rows pf params T (PProject input exprs columns) =
     obind (plan_rows pf params T input) (omapM (project_row pf params exprs))"
| "plan_rows pf params T (PJoin left right p outer columns) =
     obind (plan_rows pf params T left) (\<lambda>ls. obind (plan_rows pf params T right) (\<lambda>rs.
     join_rows pf params p outer (length (plan_columns right)) ls rs))"
| "plan_rows pf params T (PAggregate input group_by aggs output columns base_len having) =
     obind (plan_rows pf params T input) (\<lambda>rows.
     run_pure (agg_rows pf params group_by aggs output base_len having rows))"
| "plan_rows pf params T (PSort input keys) =
     obind (plan_rows pf params T input) (\<lambda>rows. run_pure (sort_rows pf params keys rows))"
| "plan_rows pf params T (PLimit input limit offset) =
     omap (limit_rows limit offset) (plan_rows pf params T input)"
| "plan_rows pf params T (PDistinct input) = omap (dedup []) (plan_rows pf params T input)"
| "plan_rows pf params T (PSetOp kind all left right columns) =
     obind (plan_rows pf params T left) (\<lambda>ls. omap (set_op_rows kind all ls) (plan_rows pf params T right))"

definition pure_agg :: "('j, 'q) agg_expr \<Rightarrow> bool" where
  "pure_agg a \<longleftrightarrow> pred_option pure_expr (agg_arg a) \<and> pred_option pure_expr (agg_sep a)"

definition pure_output :: "('j, 'q) output_col \<Rightarrow> bool" where
  "pure_output c \<longleftrightarrow> (case c of OutExpr e \<Rightarrow> pure_expr e | OutAgg i \<Rightarrow> True)"

primrec pure_plan :: "('j, 'q) plan \<Rightarrow> bool" where
  "pure_plan PDual \<longleftrightarrow> True"
| "pure_plan (PScan table page columns alias defaults) \<longleftrightarrow> True"
| "pure_plan (PFilter input p) \<longleftrightarrow> pure_plan input \<and> pure_expr p"
| "pure_plan (PProject input exprs columns) \<longleftrightarrow> pure_plan input \<and> list_all pure_expr exprs"
| "pure_plan (PJoin left right p outer columns) \<longleftrightarrow>
     pure_plan left \<and> pure_plan right \<and> pred_option pure_expr p"
| "pure_plan (PAggregate input group_by aggs output columns base_len having) \<longleftrightarrow>
     pure_plan input \<and> list_all pure_expr group_by \<and> list_all pure_agg aggs \<and> list_all pure_output output
     \<and> pred_option pure_expr having"
| "pure_plan (PSort input keys) \<longleftrightarrow> pure_plan input \<and> list_all (\<lambda>k. pure_expr (sk_expr k)) keys"
| "pure_plan (PLimit input limit offset) \<longleftrightarrow> pure_plan input"
| "pure_plan (PDistinct input) \<longleftrightarrow> pure_plan input"
| "pure_plan (PSetOp kind all left right columns) \<longleftrightarrow> pure_plan left \<and> pure_plan right"

primrec scan_pages :: "('j, 'q) plan \<Rightarrow> page_id set" where
  "scan_pages PDual = {}"
| "scan_pages (PScan table page columns alias defaults) = {page}"
| "scan_pages (PFilter input p) = scan_pages input"
| "scan_pages (PProject input exprs columns) = scan_pages input"
| "scan_pages (PJoin left right p outer columns) = scan_pages left \<union> scan_pages right"
| "scan_pages (PAggregate input group_by aggs output columns base_len having) = scan_pages input"
| "scan_pages (PSort input keys) = scan_pages input"
| "scan_pages (PLimit input limit offset) = scan_pages input"
| "scan_pages (PDistinct input) = scan_pages input"
| "scan_pages (PSetOp kind all left right columns) = scan_pages left \<union> scan_pages right"

section \<open>Purity of the row operations\<close>

lemma is_pure_run: "is_pure m \<Longrightarrow> m = ev_lift (run_pure m)"
proof -
  assume "is_pure m"
  then obtain r where r: "m = ev_lift r" by (auto simp: is_pure_def)
  have "run_pure (ev_lift r) = r" by (cases r) (simp_all add: run_pure_def ev_lift_def)
  with r show ?thesis by simp
qed

lemma args_pure: "list_all pure_expr es \<Longrightarrow> is_pure (eval_args pf en es)"
  by (rule eval_args_pure) (simp add: list_all_iff)

lemma key_rows_pure: "list_all (\<lambda>k. pure_expr (sk_expr k)) keys \<Longrightarrow> is_pure (key_rows pf params keys rows)"
  by (induction rows) (auto intro!: pure_intros args_pure simp: list_all_iff)

lemma sort_rows_pure: "list_all (\<lambda>k. pure_expr (sk_expr k)) keys \<Longrightarrow> is_pure (sort_rows pf params keys rows)"
  by (auto simp: sort_rows_def intro!: pure_intros key_rows_pure)

lemma eval_opt_pure: "pred_option pure_expr e \<Longrightarrow> is_pure (eval_opt pf en e)"
  by (cases e) (auto simp: eval_opt_def intro: pure_intros eval_pure)

lemma eval_sep_pure: "pred_option pure_expr (agg_sep a) \<Longrightarrow> is_pure (eval_sep pf en a)"
  by (cases "agg_sep a") (auto simp: eval_sep_def intro!: pure_intros eval_pure)

lemma update_accs_pure: "list_all pure_agg aggs \<Longrightarrow> is_pure (update_accs pf en aggs accs)"
  by (induction pf en aggs accs rule: update_accs.induct)
    (auto simp: pure_agg_def intro!: pure_intros eval_opt_pure eval_sep_pure)

lemma add_to_groups_pure:
  "list_all pure_expr group_by \<Longrightarrow> list_all pure_agg aggs \<Longrightarrow> is_pure (add_to_groups pf params group_by aggs r gs)"
  by (auto simp: add_to_groups_def Let_def split: prod.split intro!: pure_intros args_pure update_accs_pure)

lemma make_groups_pure:
  "list_all pure_expr group_by \<Longrightarrow> list_all pure_agg aggs \<Longrightarrow> is_pure (make_groups pf params group_by aggs rs gs)"
  by (induction rs arbitrary: gs) (auto intro!: pure_intros add_to_groups_pure)

lemma group_output_pure: "list_all pure_output cols \<Longrightarrow> is_pure (group_output pf params fin g cols)"
  by (induction cols)
    (auto simp: pure_output_def intro!: pure_intros eval_pure split: output_col.splits)

lemma emit_groups_pure:
  assumes "list_all pure_output output" and "pred_option pure_expr having"
  shows "is_pure (emit_groups pf params aggs output base_len having gs)"
proof (induction gs)
  case (Cons g gs)
  have "is_pure (group_passes pf params base_len having fin rep)" for fin rep
    using assms(2) by (cases having) (auto simp: group_passes_def intro!: pure_intros eval_pure)
  with Cons assms(1) show ?case
    by (auto simp: Let_def intro!: pure_intros group_output_pure)
qed (simp add: pure_intros)

lemma agg_rows_pure:
  assumes "list_all pure_expr group_by" "list_all pure_agg aggs" "list_all pure_output output"
    "pred_option pure_expr having"
  shows "is_pure (agg_rows pf params group_by aggs output base_len having rows)"
  using assms by (auto simp: agg_rows_def intro!: pure_intros make_groups_pure emit_groups_pure)

section \<open>The optimizer on plans\<close>

primrec plan_safe :: "('j, 'q) plan \<Rightarrow> bool" where
  "plan_safe PDual \<longleftrightarrow> True"
| "plan_safe (PScan table page columns alias defaults) \<longleftrightarrow> True"
| "plan_safe (PFilter input p) \<longleftrightarrow> plan_safe input \<and> not_safe p"
| "plan_safe (PProject input exprs columns) \<longleftrightarrow> plan_safe input \<and> list_all not_safe exprs"
| "plan_safe (PJoin left right p outer columns) \<longleftrightarrow> plan_safe left \<and> plan_safe right \<and> pred_option not_safe p"
| "plan_safe (PAggregate input group_by aggs output columns base_len having) \<longleftrightarrow>
     plan_safe input \<and> list_all not_safe group_by
     \<and> list_all (\<lambda>c. case c of OutExpr e \<Rightarrow> not_safe e | OutAgg i \<Rightarrow> True) output \<and> pred_option not_safe having"
| "plan_safe (PSort input keys) \<longleftrightarrow> plan_safe input \<and> list_all (\<lambda>k. not_safe (sk_expr k)) keys"
| "plan_safe (PLimit input limit offset) \<longleftrightarrow> plan_safe input"
| "plan_safe (PDistinct input) \<longleftrightarrow> plan_safe input"
| "plan_safe (PSetOp kind all left right columns) \<longleftrightarrow> True"

text \<open>Two lists of expressions that evaluate alike.\<close>

definition same_expr :: "'j platform \<Rightarrow> ('j, 'q) expr \<Rightarrow> ('j, 'q) expr \<Rightarrow> bool" where
  "same_expr pf a b \<longleftrightarrow> (\<forall>en. eval pf en a = eval pf en b)"

lemma same_args: "list_all2 (same_expr pf) es bs \<Longrightarrow> eval_args pf en es = eval_args pf en bs"
  by (induction rule: list_all2_induct) (simp_all add: same_expr_def)

lemma omapM_all2:
  "omapM f xs = Ok ys \<Longrightarrow> (\<And>x y. x \<in> set xs \<Longrightarrow> f x = Ok y \<Longrightarrow> R y x) \<Longrightarrow> list_all2 R ys xs"
  by (induction xs arbitrary: ys) (auto simp: obind_eq_Ok omap_eq_Ok)

lemma fold_list_same:
  assumes "omapM fold_expr es = Ok es'" and "list_all not_safe es"
  shows "list_all2 (same_expr pf) es' es"
  using assms(2) by (intro omapM_all2 [OF assms(1)]) (auto simp: same_expr_def list_all_iff intro: fold_expr_sound)

lemma fold_opt_same:
  assumes "omap_opt fold_expr e = Ok e'" and "pred_option not_safe e"
  shows "rel_option (same_expr pf) e' e"
  using assms by (cases e) (auto simp: omap_opt_def omap_eq_Ok same_expr_def intro: fold_expr_sound)

lemma key_rows_same:
  "list_all2 (\<lambda>k k'. same_expr pf (sk_expr k) (sk_expr k')) ks ks' \<Longrightarrow>
    key_rows pf params ks rows = key_rows pf params ks' rows"
  using same_args [of pf "map sk_expr ks" "map sk_expr ks'"]
  by (induction rows) (simp_all add: list_all2_map1 list_all2_map2)

lemma sort_cmp_same: "map sk_asc ks = map sk_asc ks' \<Longrightarrow> sort_cmp ks xs ys = sort_cmp ks' xs ys"
proof (induction ks xs ys arbitrary: ks' rule: sort_cmp.induct)
  case (1 k ks x xs y ys)
  then show ?case by (cases ks') (auto simp: Let_def)
qed auto

definition same_key :: "'j platform \<Rightarrow> ('j, 'q) sort_key \<Rightarrow> ('j, 'q) sort_key \<Rightarrow> bool" where
  "same_key pf a b \<longleftrightarrow> sk_asc a = sk_asc b \<and> same_expr pf (sk_expr a) (sk_expr b)"

lemma sort_rows_same:
  assumes "list_all2 (same_key pf) ks ks'"
  shows "sort_rows pf params ks rows = sort_rows pf params ks' rows"
proof -
  have "map sk_asc ks = map sk_asc ks'" "list_all2 (\<lambda>k k'. same_expr pf (sk_expr k) (sk_expr k')) ks ks'"
    using assms by (induction rule: list_all2_induct) (auto simp: same_key_def)
  from this(2) sort_cmp_same [OF this(1)] show ?thesis
    by (simp add: sort_rows_def key_rows_same)
qed

definition same_output :: "'j platform \<Rightarrow> ('j, 'q) output_col \<Rightarrow> ('j, 'q) output_col \<Rightarrow> bool" where
  "same_output pf a b \<longleftrightarrow> (case (a, b) of (OutExpr e, OutExpr e') \<Rightarrow> same_expr pf e e' | _ \<Rightarrow> a = b)"

lemma group_output_same:
  "list_all2 (same_output pf) cs cs' \<Longrightarrow> group_output pf params fin g cs = group_output pf params fin g cs'"
  by (induction rule: list_all2_induct) (auto simp: same_output_def same_expr_def split: output_col.splits)

lemma agg_rows_same:
  assumes "list_all2 (same_expr pf) gs gs'" and "list_all2 (same_output pf) cs cs'"
    and "rel_option (same_expr pf) h h'"
  shows "agg_rows pf params gs aggs cs n h rows = agg_rows pf params gs' aggs cs' n h' rows"
proof -
  have "add_to_groups pf params gs aggs r gr = add_to_groups pf params gs' aggs r gr" for r gr
    by (simp add: add_to_groups_def same_args [OF assms(1)])
  then have 1: "make_groups pf params gs aggs rows = make_groups pf params gs' aggs rows"
    by (induction rows) (rule ext, simp)+
  have "group_passes pf params n h fin rep = group_passes pf params n h' fin rep" for fin rep
    using assms(3) by (auto simp: group_passes_def same_expr_def elim: option.rel_cases)
  then have 2: "emit_groups pf params aggs cs n h gr = emit_groups pf params aggs cs' n h' gr" for gr
    by (induction gr) (simp_all add: group_output_same [OF assms(2)] Let_def cong: if_cong)
  have "gs = [] \<longleftrightarrow> gs' = []" using assms(1) by auto
  with 1 2 show ?thesis by (simp add: agg_rows_def)
qed

lemma pred_holds_same: "same_expr pf e e' \<Longrightarrow> pred_holds pf params e = pred_holds pf params e'"
  by (rule ext) (simp add: pred_holds_def same_expr_def)

lemma project_row_same: "list_all2 (same_expr pf) es es' \<Longrightarrow> project_row pf params es = project_row pf params es'"
  by (rule ext) (simp add: project_row_def same_args)

lemma join_rows_same:
  assumes "rel_option (same_expr pf) e e'"
  shows "join_rows pf params e outer n ls rs = join_rows pf params e' outer n ls rs"
proof -
  have "opt_holds pf params e = opt_holds pf params e'"
    using assms by (auto simp: opt_holds_def fun_eq_iff pred_holds_same elim: option.rel_cases)
  then show ?thesis by (induction ls) (simp_all add: matches_def)
qed

lemma fold_output_same:
  assumes "omapM fold_output cs = Ok cs'"
    and "list_all (\<lambda>c. case c of OutExpr e \<Rightarrow> not_safe e | OutAgg i \<Rightarrow> True) cs"
  shows "list_all2 (same_output pf) cs' cs"
proof (rule omapM_all2 [OF assms(1)])
  fix c c' assume "c \<in> set cs" and f: "fold_output c = Ok c'"
  then have "case c of OutExpr e \<Rightarrow> not_safe e | OutAgg i \<Rightarrow> True" using assms(2) by (simp add: list_all_iff)
  with f show "same_output pf c' c"
    by (cases c) (auto simp: fold_output_def same_output_def same_expr_def omap_eq_Ok intro: fold_expr_sound)
qed

lemma fold_keys_same:
  assumes "omapM (\<lambda>k. omap (\<lambda>e. SortKey e (sk_asc k)) (fold_expr (sk_expr k))) ks = Ok ks'"
    and "list_all (\<lambda>k. not_safe (sk_expr k)) ks"
  shows "list_all2 (same_key pf) ks' ks"
  by (rule omapM_all2 [OF assms(1)])
    (use assms(2) in \<open>auto simp: same_key_def same_expr_def omap_eq_Ok list_all_iff intro: fold_expr_sound\<close>)

lemma fold_plan_columns: "fold_plan p = Ok p' \<Longrightarrow> plan_columns p' = plan_columns p"
  by (induction p arbitrary: p') (auto simp: obind_eq_Ok omap_eq_Ok)

lemma fold_plan_sound:
  "fold_plan p = Ok p' \<Longrightarrow> plan_safe p \<Longrightarrow> plan_rows pf params T p' = plan_rows pf params T p"
proof (induction p arbitrary: p')
  case (PFilter p e)
  from PFilter.prems obtain q e' where q: "fold_plan p = Ok q" "fold_expr e = Ok e'" "p' = PFilter q e'"
    by (auto simp: obind_eq_Ok omap_eq_Ok)
  have "same_expr pf e' e" using fold_expr_sound [OF q(2)] PFilter.prems(2) by (simp add: same_expr_def)
  from pred_holds_same [OF this, of params] PFilter.IH [OF q(1)] PFilter.prems(2) q(3) show ?case by simp
next
  case (PProject p es cs)
  from PProject.prems obtain q es' where q: "fold_plan p = Ok q" "omapM fold_expr es = Ok es'" "p' = PProject q es' cs"
    by (auto simp: obind_eq_Ok omap_eq_Ok)
  have "project_row pf params es' = project_row pf params es"
    by (rule project_row_same [OF fold_list_same [OF q(2)]]) (use PProject.prems(2) in simp)
  with PProject.IH [OF q(1)] PProject.prems(2) q(3) show ?case by simp
next
  case (PJoin l r e outer cs)
  from PJoin.prems obtain l' r' e' where q: "fold_plan l = Ok l'" "fold_plan r = Ok r'"
    "omap_opt fold_expr e = Ok e'" "p' = PJoin l' r' e' outer cs"
    by (auto simp: obind_eq_Ok omap_eq_Ok)
  have "join_rows pf params e' outer n ls rs = join_rows pf params e outer n ls rs" for n ls rs
    by (rule join_rows_same [OF fold_opt_same [OF q(3)]]) (use PJoin.prems(2) in simp)
  with PJoin.IH(1) [OF q(1)] PJoin.IH(2) [OF q(2)] PJoin.prems(2) q(4) fold_plan_columns [OF q(2)]
  show ?case by simp
next
  case (PAggregate p gs ags outs cs n h)
  from PAggregate.prems obtain q gs' outs' h' where q: "fold_plan p = Ok q" "omapM fold_expr gs = Ok gs'"
    "omapM fold_output outs = Ok outs'" "omap_opt fold_expr h = Ok h'" "p' = PAggregate q gs' ags outs' cs n h'"
    by (auto simp: obind_eq_Ok omap_eq_Ok)
  have "agg_rows pf params gs' ags outs' n h' rows = agg_rows pf params gs ags outs n h rows" for rows
    by (rule agg_rows_same [OF fold_list_same [OF q(2)] fold_output_same [OF q(3)] fold_opt_same [OF q(4)]])
      (use PAggregate.prems(2) in simp_all)
  with PAggregate.IH [OF q(1)] PAggregate.prems(2) q(5) show ?case by simp
next
  case (PSort p ks)
  from PSort.prems obtain q ks' where q: "fold_plan p = Ok q"
    "omapM (\<lambda>k. omap (\<lambda>e. SortKey e (sk_asc k)) (fold_expr (sk_expr k))) ks = Ok ks'" "p' = PSort q ks'"
    by (auto simp: obind_eq_Ok omap_eq_Ok)
  have "sort_rows pf params ks' rows = sort_rows pf params ks rows" for rows
    by (rule sort_rows_same [OF fold_keys_same [OF q(2)]]) (use PSort.prems(2) in simp)
  with PSort.IH [OF q(1)] PSort.prems(2) q(3) show ?case by simp
qed (auto simp: obind_eq_Ok omap_eq_Ok)

end
