(* ===== verification/ExecRun.thy ===== *)
theory ExecRun
  imports ExecSpec
begin

text \<open>
  The executors refine \<open>plan_rows\<close>. The locale \<open>table_reader\<close> states what they need of the
  tables; inside it, \<open>runs e rows\<close> says that executor \<open>e\<close> gives exactly \<open>rows\<close>, in every good
  state of the page source and with every large enough fuel, and there is a rule for each operator.
\<close>

section \<open>Executors that give a list of rows\<close>

text \<open>
  What the executors need of the tables: a seek finds the first entry from a key on. \<open>I\<close> is
  what the page source keeps true of its state.
\<close>

locale table_reader =
  fixes X :: "('j, 's) exec_ctx" and I :: "'s \<Rightarrow> bool"
    and T :: "page_id \<Rightarrow> (i64 \<times> bytes) list" and pages :: "page_id set"
  assumes sorted_tables: "I s \<Longrightarrow> p \<in> pages \<Longrightarrow> sorted_wrt (<) (map fst (T p))"
    and seek_law: "I s \<Longrightarrow> p \<in> pages \<Longrightarrow>
      \<exists>s'. I s' \<and> scan_fetch X p k s = Ok (find (\<lambda>e. k \<le> fst e) (T p), s')"

lemma sm_simps [ev_simps]:
  "sm_return x t = Ok (x, t)"
  "sm_bind k f t = obind (k t) (\<lambda>(x, t). f x t)"
  "sm_ev m (s, w) = omap (\<lambda>(x, w). (x, (s, w))) (m w)"
  "sm_storage g (s, w) = omap (\<lambda>(x, s). (x, (s, w))) (from_storage (g s))"
  by (simp_all add: sm_return_def sm_bind_def sm_ev_def sm_storage_def)

lemma sm_ev_pure:
  assumes "is_pure m" and "run_pure m = Ok x"
  shows "sm_ev m (s, w) = Ok (x, (s, w))"
proof -
  have "m = ev_lift (Ok x)" using is_pure_run [OF assms(1)] assms(2) by simp
  then show ?thesis by (simp add: ev_simps ev_lift_def)
qed

context table_reader begin

text \<open>With enough fuel, \<open>next\<close> answers \<open>r\<close>, and the world is untouched.\<close>

definition answers :: "('j, 'q) exec \<Rightarrow> 's \<Rightarrow> world \<Rightarrow> 'j row option \<Rightarrow> ('j, 'q) exec \<Rightarrow> 's \<Rightarrow> bool" where
  "answers e s w r e' s' \<longleftrightarrow> eventually (\<lambda>n. exec_next X n e (s, w) = Ok ((r, e'), (s', w))) sequentially"

text \<open>In every good state \<open>next\<close> answers \<open>r\<close> and leaves a good state and a \<open>P\<close> executor.\<close>

definition nexts :: "('j, 'q) exec \<Rightarrow> 'j row option \<Rightarrow> (('j, 'q) exec \<Rightarrow> bool) \<Rightarrow> bool" where
  "nexts e r P \<longleftrightarrow> (\<forall>s w. I s \<longrightarrow> (\<exists>e' s'. I s' \<and> P e' \<and> answers e s w r e' s'))"

text \<open>An executor that gives exactly these rows.\<close>

fun runs :: "('j, 'q) exec \<Rightarrow> 'j row list \<Rightarrow> bool" where
  "runs e [] \<longleftrightarrow> nexts e None (\<lambda>_. True)"
| "runs e (r # rs) \<longleftrightarrow> nexts e (Some r) (\<lambda>e'. runs e' rs)"

lemma answers_step:
  assumes "eventually (\<lambda>n. exec_step X n (exec_next X n) e (s, w) = Ok ((r, e'), (s', w))) sequentially"
  shows "answers e s w r e' s'"
proof -
  have "eventually (\<lambda>n. exec_next X (Suc n) e (s, w) = Ok ((r, e'), (s', w))) sequentially"
    using assms by simp
  then show ?thesis
    unfolding answers_def
    using eventually_sequentially_Suc [of "\<lambda>n. exec_next X n e (s, w) = Ok ((r, e'), (s', w))"] by blast
qed

lemma nextsI:
  assumes "\<And>s w. I s \<Longrightarrow> \<exists>e' s'. I s' \<and> P e' \<and>
    eventually (\<lambda>n. exec_step X n (exec_next X n) e (s, w) = Ok ((r, e'), (s', w))) sequentially"
  shows "nexts e r P"
  unfolding nexts_def using assms answers_step by blast

text \<open>An executor that, in one step, goes on as another.\<close>

lemma nexts_via:
  assumes "\<And>s w. I s \<Longrightarrow> \<exists>e' s'. I s' \<and> nexts e' r P
      \<and> eventually (\<lambda>n. exec_step X n (exec_next X n) e (s, w) = exec_next X n e' (s', w)) sequentially"
  shows "nexts e r P"
proof (rule nextsI)
  fix s w assume s: "I s"
  from assms [OF s, of w] obtain e1 s1 where 1: "I s1" "nexts e1 r P"
    "eventually (\<lambda>n. exec_step X n (exec_next X n) e (s, w) = exec_next X n e1 (s1, w)) sequentially" by blast
  then obtain e' s' where 2: "I s'" "P e'"
    "eventually (\<lambda>n. exec_next X n e1 (s1, w) = Ok ((r, e'), (s', w))) sequentially"
    unfolding nexts_def answers_def by blast
  from 1(3) 2(3) have "eventually (\<lambda>n. exec_step X n (exec_next X n) e (s, w) = Ok ((r, e'), (s', w))) sequentially"
    by eventually_elim simp
  with 2 show "\<exists>e' s'. I s' \<and> P e' \<and>
    eventually (\<lambda>n. exec_step X n (exec_next X n) e (s, w) = Ok ((r, e'), (s', w))) sequentially" by blast
qed

lemma runs_via:
  assumes "\<And>s w. I s \<Longrightarrow> \<exists>e' s'. I s' \<and> runs e' rs
      \<and> eventually (\<lambda>n. exec_step X n (exec_next X n) e (s, w) = exec_next X n e' (s', w)) sequentially"
  shows "runs e rs"
  using assms by (cases rs) (auto intro!: nexts_via)

lemma runs_NilE:
  assumes "runs e []" and "I s"
  obtains e' s' where "I s'" "answers e s w None e' s'"
  using assms unfolding runs.simps nexts_def by blast

lemma runs_ConsE:
  assumes "runs e (r # rs)" and "I s"
  obtains e' s' where "I s'" "runs e' rs" "answers e s w (Some r) e' s'"
  using assms unfolding runs.simps nexts_def by blast

lemma collect_runs:
  assumes "runs e rs" and "I s"
  shows "\<exists>s'. I s' \<and>
    eventually (\<lambda>n. \<forall>k>length rs. collect_with (exec_next X n) k e (s, w) = Ok (rs, (s', w))) sequentially"
  using assms
proof (induction rs arbitrary: e s)
  case Nil
  then obtain e' s' where e: "I s'" "answers e s w None e' s'" by (rule runs_NilE)
  have step: "collect_with (exec_next X n) k e (s, w) = Ok ([], (s', w))"
    if "exec_next X n e (s, w) = Ok ((None, e'), (s', w))" "0 < k" for n k
    using that by (cases k) (auto simp: ev_simps)
  from e(2) have "eventually (\<lambda>n. \<forall>k>0. collect_with (exec_next X n) k e (s, w) = Ok ([], (s', w))) sequentially"
    unfolding answers_def by eventually_elim (blast intro: step)
  with e(1) show ?case by auto
next
  case (Cons r rs)
  from Cons.prems obtain e1 s1 where 1: "I s1" "runs e1 rs" "answers e s w (Some r) e1 s1"
    by (rule runs_ConsE)
  from Cons.IH [OF 1(2,1)] obtain s' where 2: "I s'"
    "eventually (\<lambda>n. \<forall>k>length rs. collect_with (exec_next X n) k e1 (s1, w) = Ok (rs, (s', w))) sequentially"
    by blast
  have step: "collect_with (exec_next X n) k e (s, w) = Ok (r # rs, (s', w))"
    if "exec_next X n e (s, w) = Ok ((Some r, e1), (s1, w))" "length (r # rs) < k"
      "\<forall>k>length rs. collect_with (exec_next X n) k e1 (s1, w) = Ok (rs, (s', w))" for n k
    using that by (cases k) (auto simp: ev_simps)
  from 1(3) 2(2) have "eventually (\<lambda>n. \<forall>k>length (r # rs).
      collect_with (exec_next X n) k e (s, w) = Ok (r # rs, (s', w))) sequentially"
    unfolding answers_def by eventually_elim (blast intro: step)
  with 2(1) show ?case by blast
qed

lemma collect_runs_diag:
  assumes "runs e rs" and "I s"
  obtains s' where "I s'"
    "eventually (\<lambda>n. collect_with (exec_next X n) n e (s, w) = Ok (rs, (s', w))) sequentially"
proof -
  obtain s' where s': "I s'"
    "eventually (\<lambda>n. \<forall>k>length rs. collect_with (exec_next X n) k e (s, w) = Ok (rs, (s', w))) sequentially"
    using collect_runs [OF assms] by blast
  have g: "eventually (\<lambda>n. length rs < n) sequentially" by (rule eventually_gt_at_top)
  from g s'(2) have "eventually (\<lambda>n. collect_with (exec_next X n) n e (s, w) = Ok (rs, (s', w))) sequentially"
    by eventually_elim blast
  with s'(1) that show ?thesis by blast
qed

end

lemma keep_rows_Cons:
  "keep_rows f (r # rs) = Ok out \<longleftrightarrow>
     (\<exists>k out'. f r = Ok k \<and> keep_rows f rs = Ok out' \<and> out = (if k then r # out' else out'))"
  by (auto simp: obind_eq_Ok omap_eq_Ok)

lemma omapM_Cons: "omapM f (x # xs) = Ok ys \<longleftrightarrow> (\<exists>y zs. f x = Ok y \<and> omapM f xs = Ok zs \<and> ys = y # zs)"
  by (auto simp: obind_eq_Ok omap_eq_Ok)

lemma pred_holds_ev:
  assumes "pure_expr p" and "pred_holds pf params p r = Ok k"
  shows "\<exists>v. sm_ev (eval pf (row_env params r) p) (s, w) = Ok (v, (s, w)) \<and> is_truthy v = k"
proof -
  obtain v where v: "run_pure (eval pf (row_env params r) p) = Ok v" "is_truthy v = k"
    using assms(2) by (auto simp: pred_holds_def omap_eq_Ok)
  show ?thesis
    using sm_ev_pure [OF eval_pure [OF assms(1)] v(1), of s w] v(2) by (intro exI [of _ v]) simp
qed

context table_reader begin

lemma runs_given:
  assumes "\<And>rs n s w. exec_step X n (exec_next X n) (mk rs) (s, w) = give rs mk (s, w)"
  shows "runs (mk rows) rows"
proof (induction rows)
  case Nil
  show ?case unfolding runs.simps
    by (rule nextsI) (auto simp: assms give_def ev_simps intro!: eventuallyI)
next
  case (Cons r rs)
  then show ?case unfolding runs.simps
    by (intro nextsI) (auto simp: assms give_def ev_simps intro!: eventuallyI)
qed

text \<open>An operator that computes all its rows at the first call.\<close>

lemma runs_materialized:
  assumes step: "\<And>n s w. exec_step X n (exec_next X n) e (s, w) = sm_bind (M n) (\<lambda>rows. give rows mk) (s, w)"
    and M: "\<And>s w. I s \<Longrightarrow> \<exists>s'. I s' \<and> eventually (\<lambda>n. M n (s, w) = Ok (rows, (s', w))) sequentially"
    and mk: "\<And>rs n s w. exec_step X n (exec_next X n) (mk rs) (s, w) = give rs mk (s, w)"
  shows "runs e rows"
proof -
  have give: "\<exists>s'. I s' \<and> eventually (\<lambda>n. exec_step X n (exec_next X n) e (s, w) = give rows mk (s', w)) sequentially"
    if "I s" for s w
  proof -
    from M [OF that, of w] obtain s' where s': "I s'"
      "eventually (\<lambda>n. M n (s, w) = Ok (rows, (s', w))) sequentially" by blast
    from s'(2) have "eventually (\<lambda>n. exec_step X n (exec_next X n) e (s, w) = give rows mk (s', w)) sequentially"
      by eventually_elim (simp add: step ev_simps)
    with s'(1) show ?thesis by blast
  qed
  have given: "runs (mk rs) rs" for rs by (rule runs_given) (rule mk)
  show ?thesis
  proof (cases rows)
    case Nil
    show ?thesis unfolding Nil runs.simps
    proof (rule nextsI)
      fix s w assume "I s"
      from give [OF this, of w] show "\<exists>e' s'. I s' \<and> True \<and>
        eventually (\<lambda>n. exec_step X n (exec_next X n) e (s, w) = Ok ((None, e'), (s', w))) sequentially"
        unfolding Nil give_def sm_return_def by auto
    qed
  next
    case (Cons r rs)
    show ?thesis unfolding Cons runs.simps
    proof (rule nextsI)
      fix s w assume "I s"
      from give [OF this, of w] given [of rs] show "\<exists>e' s'. I s' \<and> runs e' rs \<and>
        eventually (\<lambda>n. exec_step X n (exec_next X n) e (s, w) = Ok ((Some r, e'), (s', w))) sequentially"
        unfolding Cons give_def sm_return_def list.case by blast
    qed
  qed
qed

lemma runs_dual: "runs (XDual False) [\<lparr>row_id = i64_of_int 0, row_values = []\<rparr>]"
proof -
  have "nexts (XDual True) None (\<lambda>_. True)"
    by (rule nextsI) (auto simp: exec_step_def ev_simps intro!: eventuallyI)
  then show ?thesis unfolding runs.simps
    by (intro nextsI) (auto simp: exec_step_def ev_simps intro!: eventuallyI)
qed

text \<open>
  Operators over one input: the input is exhausted, the operator gives a row for a row of the
  input, or it passes over a row.
\<close>

lemma runs_input_None:
  assumes "runs inp []"
    and "\<And>n inp' s s' w. exec_next X n inp (s, w) = Ok ((None, inp'), (s', w)) \<Longrightarrow>
      exec_step X n (exec_next X n) e (s, w) = Ok ((None, F inp'), (s', w))"
  shows "runs e []"
  unfolding runs.simps
proof (rule nextsI)
  fix s w assume "I s"
  from runs_NilE [OF assms(1) this, of w] obtain inp' s' where 1: "I s'" "answers inp s w None inp' s'" .
  from 1(2) have "eventually (\<lambda>n. exec_step X n (exec_next X n) e (s, w) = Ok ((None, F inp'), (s', w))) sequentially"
    unfolding answers_def by eventually_elim (rule assms(2))
  with 1(1) show "\<exists>e' s'. I s' \<and> True \<and>
    eventually (\<lambda>n. exec_step X n (exec_next X n) e (s, w) = Ok ((None, e'), (s', w))) sequentially" by blast
qed

lemma runs_input_emit:
  assumes "runs inp (r # rs)"
    and "\<And>n inp' s s' w. exec_next X n inp (s, w) = Ok ((Some r, inp'), (s', w)) \<Longrightarrow>
      exec_step X n (exec_next X n) e (s, w) = Ok ((Some r', F inp'), (s', w))"
    and "\<And>inp'. runs inp' rs \<Longrightarrow> runs (F inp') out"
  shows "runs e (r' # out)"
  unfolding runs.simps
proof (rule nextsI)
  fix s w assume "I s"
  from runs_ConsE [OF assms(1) this, of w] obtain inp' s' where
    1: "I s'" "runs inp' rs" "answers inp s w (Some r) inp' s'" .
  from 1(3) have "eventually (\<lambda>n. exec_step X n (exec_next X n) e (s, w) = Ok ((Some r', F inp'), (s', w))) sequentially"
    unfolding answers_def by eventually_elim (rule assms(2))
  with 1(1) assms(3) [OF 1(2)] show "\<exists>e' s'. I s' \<and> runs e' out \<and>
    eventually (\<lambda>n. exec_step X n (exec_next X n) e (s, w) = Ok ((Some r', e'), (s', w))) sequentially" by blast
qed

lemma runs_input_skip:
  assumes "runs inp (r # rs)"
    and "\<And>n inp' s s' w. exec_next X n inp (s, w) = Ok ((Some r, inp'), (s', w)) \<Longrightarrow>
      exec_step X n (exec_next X n) e (s, w) = exec_next X n (F inp') (s', w)"
    and "\<And>inp'. runs inp' rs \<Longrightarrow> runs (F inp') out"
  shows "runs e out"
proof (rule runs_via)
  fix s w assume "I s"
  from runs_ConsE [OF assms(1) this, of w] obtain inp' s' where
    1: "I s'" "runs inp' rs" "answers inp s w (Some r) inp' s'" .
  from 1(3) have "eventually (\<lambda>n. exec_step X n (exec_next X n) e (s, w) = exec_next X n (F inp') (s', w)) sequentially"
    unfolding answers_def by eventually_elim (rule assms(2))
  with 1(1) assms(3) [OF 1(2)] show "\<exists>e' s'. I s' \<and> runs e' out \<and>
    eventually (\<lambda>n. exec_step X n (exec_next X n) e (s, w) = exec_next X n e' (s', w)) sequentially" by blast
qed

lemmas step_simps = exec_step_def sm_simps(1,2) outcome_simps

lemma runs_filter:
  assumes "runs e rs" and "pure_expr p" and "keep_rows (pred_holds (xc_pf X) (xc_params X) p) rs = Ok out"
  shows "runs (XFilter e p) out"
  using assms(1,3)
proof (induction rs arbitrary: e out)
  case Nil
  then have "runs (XFilter e p) []"
    by (rule_tac runs_input_None [of e _ "\<lambda>e. XFilter e p"]) (simp_all add: step_simps filter_next_def)
  with Nil(2) show ?case by simp
next
  case (Cons r rs)
  from Cons.prems(2) obtain k out' where k: "pred_holds (xc_pf X) (xc_params X) p r = Ok k"
    "keep_rows (pred_holds (xc_pf X) (xc_params X) p) rs = Ok out'" "out = (if k then r # out' else out')"
    unfolding keep_rows_Cons by blast
  have ev: "\<exists>v. sm_ev (eval (xc_pf X) (row_env (xc_params X) r) p) (s, w) = Ok (v, (s, w)) \<and> is_truthy v = k" for s w
    by (rule pred_holds_ev [OF assms(2) k(1)])
  show ?case
  proof (cases k)
    case True
    have "runs (XFilter e p) (r # out')"
    proof (rule runs_input_emit [OF Cons.prems(1), of _ _ "\<lambda>e. XFilter e p"])
      fix n e' s s' w assume "exec_next X n e (s, w) = Ok ((Some r, e'), (s', w))"
      with ev [of s' w] True show "exec_step X n (exec_next X n) (XFilter e p) (s, w)
        = Ok ((Some r, XFilter e' p), (s', w))" by (auto simp: step_simps filter_next_def)
    qed (rule Cons.IH [OF _ k(2)])
    with True k(3) show ?thesis by simp
  next
    case False
    have "runs (XFilter e p) out'"
    proof (rule runs_input_skip [OF Cons.prems(1), of _ "\<lambda>e. XFilter e p"])
      fix n e' s s' w assume "exec_next X n e (s, w) = Ok ((Some r, e'), (s', w))"
      with ev [of s' w] False show "exec_step X n (exec_next X n) (XFilter e p) (s, w)
        = exec_next X n (XFilter e' p) (s', w)" by (auto simp: step_simps filter_next_def)
    qed (rule Cons.IH [OF _ k(2)])
    with False k(3) show ?thesis by simp
  qed
qed

end

lemma project_row_ev:
  assumes "list_all pure_expr exprs" and "project_row pf params exprs r = Ok r'"
  shows "\<exists>vs. sm_ev (eval_args pf (row_env params r) exprs) (s, w) = Ok (vs, (s, w)) \<and> r' = r\<lparr>row_values := vs\<rparr>"
proof -
  obtain vs where v: "run_pure (eval_args pf (row_env params r) exprs) = Ok vs" "r' = r\<lparr>row_values := vs\<rparr>"
    using assms(2) by (auto simp: project_row_def omap_eq_Ok)
  show ?thesis
    using sm_ev_pure [OF args_pure [OF assms(1)] v(1), of s w] v(2) by (intro exI [of _ vs]) simp
qed

context table_reader begin

lemma runs_project:
  assumes "runs e rs" and "list_all pure_expr exprs"
    and "omapM (project_row (xc_pf X) (xc_params X) exprs) rs = Ok out"
  shows "runs (XProject e exprs columns) out"
  using assms(1,3)
proof (induction rs arbitrary: e out)
  case Nil
  then have "runs (XProject e exprs columns) []"
    by (rule_tac runs_input_None [of e _ "\<lambda>e. XProject e exprs columns"])
      (simp_all add: step_simps project_next_def)
  with Nil(2) show ?case by simp
next
  case (Cons r rs)
  from Cons.prems(2) obtain r' out' where k: "project_row (xc_pf X) (xc_params X) exprs r = Ok r'"
    "omapM (project_row (xc_pf X) (xc_params X) exprs) rs = Ok out'" "out = r' # out'"
    unfolding omapM_Cons by blast
  have "runs (XProject e exprs columns) (r' # out')"
  proof (rule runs_input_emit [OF Cons.prems(1), of _ _ "\<lambda>e. XProject e exprs columns"])
    fix n e' s s' w assume "exec_next X n e (s, w) = Ok ((Some r, e'), (s', w))"
    with project_row_ev [OF assms(2) k(1), of s' w]
    show "exec_step X n (exec_next X n) (XProject e exprs columns) (s, w)
      = Ok ((Some r', XProject e' exprs columns), (s', w))" by (auto simp: step_simps project_next_def)
  qed (rule Cons.IH [OF _ k(2)])
  with k(3) show ?case by simp
qed

lemma runs_distinct:
  assumes "runs e rs"
  shows "runs (XDistinct e seen) (dedup seen rs)"
  using assms
proof (induction rs arbitrary: e seen)
  case Nil
  then show ?case unfolding dedup.simps
    by (rule runs_input_None [of e _ "\<lambda>e. XDistinct e seen"]) (simp add: step_simps distinct_next_def)
next
  case (Cons r rs)
  show ?case
  proof (cases "seen_in seen r")
    case True
    have "runs (XDistinct e seen) (dedup seen rs)"
      by (rule runs_input_skip [OF Cons.prems, of _ "\<lambda>e. XDistinct e seen"])
        (use True in \<open>simp add: step_simps distinct_next_def\<close>, rule Cons.IH)
    with True show ?thesis by simp
  next
    case False
    have "runs (XDistinct e seen) (r # dedup (seen @ [row_values r]) rs)"
      by (rule runs_input_emit [OF Cons.prems, of _ _ "\<lambda>e. XDistinct e (seen @ [row_values r])"])
        (use False in \<open>simp add: step_simps distinct_next_def\<close>, rule Cons.IH)
    with False show ?thesis by simp
  qed
qed

lemma runs_stopped:
  assumes "\<And>n s w. exec_step X n (exec_next X n) e (s, w) = Ok ((None, e), (s, w))"
  shows "runs e []"
  unfolding runs.simps by (rule nextsI) (auto simp: assms intro!: eventuallyI)

lemma runs_limit_emit:
  assumes "runs e rs" and "offset \<le> skipped"
  shows "runs (XLimit e limit offset skipped emitted)
    (case limit of None \<Rightarrow> rs | Some l \<Rightarrow> take (l - emitted) rs)"
  using assms(1)
proof (induction rs arbitrary: e emitted)
  case Nil
  then have "runs (XLimit e limit offset skipped emitted) []"
  proof (cases "case limit of Some l \<Rightarrow> l \<le> emitted | None \<Rightarrow> False")
    case True
    then show ?thesis using assms(2) by (intro runs_stopped) (simp add: step_simps limit_next_def)
  next
    case False
    show ?thesis
      by (rule runs_input_None [OF Nil, of _ "\<lambda>e. XLimit e limit offset skipped emitted"])
        (use False assms(2) in \<open>simp add: step_simps limit_next_def\<close>)
  qed
  then show ?case by (cases limit) simp_all
next
  case (Cons r rs)
  show ?case
  proof (cases "case limit of Some l \<Rightarrow> l \<le> emitted | None \<Rightarrow> False")
    case True
    then have "runs (XLimit e limit offset skipped emitted) []"
      using assms(2) by (intro runs_stopped) (simp add: step_simps limit_next_def)
    with True show ?thesis by (cases limit) simp_all
  next
    case False
    let ?rest = "case limit of None \<Rightarrow> rs | Some l \<Rightarrow> take (l - Suc emitted) rs"
    have "runs (XLimit e limit offset skipped emitted) (r # ?rest)"
      by (rule runs_input_emit [OF Cons.prems, of _ _ "\<lambda>e. XLimit e limit offset skipped (Suc emitted)"])
        (use False assms(2) in \<open>simp add: step_simps limit_next_def\<close>, rule Cons.IH)
    with False show ?thesis by (cases limit) (auto simp: take_Cons' Suc_diff_Suc)
  qed
qed

lemma runs_limit_skip:
  assumes "runs e rs" and "skipped \<le> offset"
  shows "runs (XLimit e limit offset skipped 0) (limit_rows limit (offset - skipped) rs)"
  using assms
proof (induction rs arbitrary: e skipped)
  case Nil
  show ?case
  proof (cases "skipped < offset")
    case True
    have "runs (XLimit e limit offset skipped 0) []"
      by (rule runs_input_None [OF Nil(1), of _ "\<lambda>e. XLimit e limit offset skipped 0"])
        (use True in \<open>simp add: step_simps limit_next_def\<close>)
    then show ?thesis by (cases limit) (simp_all add: limit_rows_def)
  next
    case False
    with Nil runs_limit_emit [of e "[]" offset skipped limit 0] show ?thesis
      by (cases limit) (simp_all add: limit_rows_def)
  qed
next
  case (Cons r rs)
  show ?case
  proof (cases "skipped < offset")
    case True
    have "runs (XLimit e limit offset skipped 0) (limit_rows limit (offset - Suc skipped) rs)"
      by (rule runs_input_skip [OF Cons.prems(1), of _ "\<lambda>e. XLimit e limit offset (Suc skipped) 0"])
        (use True in \<open>simp add: step_simps limit_next_def\<close>, rule Cons.IH, use True in simp_all)
    moreover have "offset - skipped = Suc (offset - Suc skipped)" using True by simp
    ultimately show ?thesis by (cases limit) (simp_all add: limit_rows_def)
  next
    case False
    with Cons.prems runs_limit_emit [of e "r # rs" offset skipped limit 0] show ?thesis
      by (cases limit) (simp_all add: limit_rows_def)
  qed
qed

lemma collect_ev:
  assumes "runs e rs" and "is_pure (f rs)" and "run_pure (f rs) = Ok out" and "I s"
  shows "\<exists>s'. I s' \<and> eventually (\<lambda>n. sm_bind (collect_with (exec_next X n) n e) (\<lambda>rows. sm_ev (f rows)) (s, w)
    = Ok (out, (s', w))) sequentially"
proof -
  obtain s' where s': "I s'" "eventually (\<lambda>n. collect_with (exec_next X n) n e (s, w) = Ok (rs, (s', w))) sequentially"
    by (rule collect_runs_diag [OF assms(1,4)])
  from s'(2) have "eventually (\<lambda>n. sm_bind (collect_with (exec_next X n) n e) (\<lambda>rows. sm_ev (f rows)) (s, w)
    = Ok (out, (s', w))) sequentially"
    by eventually_elim (simp add: sm_simps(2) outcome_simps sm_ev_pure [OF assms(2,3)])
  with s'(1) show ?thesis by blast
qed

lemma runs_sort:
  assumes "runs e rs" and "list_all (\<lambda>k. pure_expr (sk_expr k)) keys"
    and "run_pure (sort_rows (xc_pf X) (xc_params X) keys rs) = Ok out"
  shows "runs (XSort e keys None) out"
proof (rule runs_materialized [where mk = "\<lambda>rest. XSort e keys (Some rest)"])
  fix n s w
  show "exec_step X n (exec_next X n) (XSort e keys None) (s, w) =
    sm_bind (sm_bind (collect_with (exec_next X n) n e) (\<lambda>rows. sm_ev (sort_rows (xc_pf X) (xc_params X) keys rows)))
      (\<lambda>rows. give rows (\<lambda>rest. XSort e keys (Some rest))) (s, w)"
    by (simp add: exec_step_def)
qed (use collect_ev [where f = "sort_rows (xc_pf X) (xc_params X) keys", OF assms(1) sort_rows_pure [OF assms(2)] assms(3)] in \<open>auto simp: step_simps\<close>)

lemma runs_agg:
  assumes "runs e rs" and "list_all pure_expr group_by" "list_all pure_agg aggs" "list_all pure_output cols"
    "pred_option pure_expr having"
    and "run_pure (agg_rows (xc_pf X) (xc_params X) group_by aggs cols base_len having rs) = Ok out"
  shows "runs (XAgg e group_by aggs cols columns base_len having None) out"
proof (rule runs_materialized [where mk = "\<lambda>rest. XAgg e group_by aggs cols columns base_len having (Some rest)"])
  fix n s w
  show "exec_step X n (exec_next X n) (XAgg e group_by aggs cols columns base_len having None) (s, w) =
    sm_bind (sm_bind (collect_with (exec_next X n) n e) (\<lambda>rows.
        sm_ev (agg_rows (xc_pf X) (xc_params X) group_by aggs cols base_len having rows)))
      (\<lambda>rows. give rows (\<lambda>rest. XAgg e group_by aggs cols columns base_len having (Some rest))) (s, w)"
    by (simp add: exec_step_def)
qed (use collect_ev [where f = "agg_rows (xc_pf X) (xc_params X) group_by aggs cols base_len having",
      OF assms(1) agg_rows_pure [OF assms(2-5)] assms(6)] in \<open>auto simp: step_simps\<close>)

lemma collect_two:
  assumes "runs l ls" and "runs r rs" and "I s"
  shows "\<exists>s'. I s' \<and> eventually (\<lambda>n. sm_bind (collect_with (exec_next X n) n l) (\<lambda>lrows.
    sm_bind (collect_with (exec_next X n) n r) (\<lambda>rrows. sm_return (f lrows rrows))) (s, w)
      = Ok (f ls rs, (s', w))) sequentially"
proof -
  obtain s1 where s1: "I s1" "eventually (\<lambda>n. collect_with (exec_next X n) n l (s, w) = Ok (ls, (s1, w))) sequentially"
    by (rule collect_runs_diag [OF assms(1,3)])
  obtain s2 where s2: "I s2" "eventually (\<lambda>n. collect_with (exec_next X n) n r (s1, w) = Ok (rs, (s2, w))) sequentially"
    by (rule collect_runs_diag [OF assms(2) s1(1)])
  from s1(2) s2(2) have "eventually (\<lambda>n. sm_bind (collect_with (exec_next X n) n l) (\<lambda>lrows.
    sm_bind (collect_with (exec_next X n) n r) (\<lambda>rrows. sm_return (f lrows rrows))) (s, w)
      = Ok (f ls rs, (s2, w))) sequentially"
    by eventually_elim (simp add: sm_simps(1,2) outcome_simps)
  with s2(1) show ?thesis by blast
qed

lemma runs_setop:
  assumes "runs l ls" and "runs r rs"
  shows "runs (XSetOp l r kind all columns None) (set_op_rows kind all ls rs)"
proof (rule runs_materialized [where mk = "\<lambda>rest. XSetOp l r kind all columns (Some rest)"])
  fix n s w
  show "exec_step X n (exec_next X n) (XSetOp l r kind all columns None) (s, w) =
    sm_bind (sm_bind (collect_with (exec_next X n) n l) (\<lambda>lrows.
        sm_bind (collect_with (exec_next X n) n r) (\<lambda>rrows. sm_return (set_op_rows kind all lrows rrows))))
      (\<lambda>rows. give rows (\<lambda>rest. XSetOp l r kind all columns (Some rest))) (s, w)"
    by (simp add: exec_step_def)
qed (use collect_two [OF assms, of _ "set_op_rows kind all"] in \<open>auto simp: step_simps\<close>)

end

lemma opt_keep:
  assumes "pred_option pure_expr p" and "opt_holds pf params p row = Ok k"
  shows "(case p of None \<Rightarrow> ev_return True
    | Some p \<Rightarrow> ev_bind (eval pf (row_env params row) p) (\<lambda>v. ev_return (is_truthy v))) = ev_return k"
proof (cases p)
  case (Some e)
  with assms obtain v where v: "run_pure (eval pf (row_env params row) e) = Ok v" "is_truthy v = k"
    by (auto simp: opt_holds_def pred_holds_def omap_eq_Ok)
  from Some assms(1) have "eval pf (row_env params row) e = ev_return v"
    using is_pure_run [OF eval_pure, of e pf "row_env params row"] v(1) by simp
  with Some v(2) show ?thesis by simp
qed (use assms(2) in \<open>simp add: opt_holds_def\<close>)

abbreviation join_with :: "'j row \<Rightarrow> 'j row list \<Rightarrow> 'j row list" where
  "join_with l \<equiv> map (\<lambda>r. join_row l (row_values r))"

lemma join_scan_spec:
  assumes "pred_option pure_expr p" and "keep_rows (opt_holds pf params p) (join_with l rs) = Ok ms"
  shows "case ms of
      [] \<Rightarrow> join_scan pf params p l rs i = ev_return None
    | m # ms' \<Rightarrow> (\<exists>j. join_scan pf params p l rs i = ev_return (Some (m, i + j))
        \<and> keep_rows (opt_holds pf params p) (join_with l (drop j rs)) = Ok ms')"
  using assms(2)
proof (induction rs arbitrary: i ms)
  case (Cons r rs)
  let ?row = "join_row l (row_values r)"
  from Cons.prems obtain k ms1 where k: "opt_holds pf params p ?row = Ok k"
    "keep_rows (opt_holds pf params p) (join_with l rs) = Ok ms1" "ms = (if k then ?row # ms1 else ms1)"
    unfolding list.map keep_rows_Cons by blast
  have step: "join_scan pf params p l (r # rs) i =
      (if k then ev_return (Some (?row, i + 1)) else join_scan pf params p l rs (i + 1))"
    by (simp only: join_scan.simps Let_def opt_keep [OF assms(1) k(1)] ev_monad_laws(1))
  show ?case
  proof (cases k)
    case True
    with k step show ?thesis by (auto intro!: exI [of _ 1])
  next
    case False
    show ?thesis
    proof (cases ms)
      case Nil
      with Cons.IH [OF k(2), of "i + 1"] k(3) False step show ?thesis by simp
    next
      case (Cons m ms')
      with k(3) False Cons.IH [OF k(2), of "i + 1"] obtain j where
        "join_scan pf params p l rs (i + 1) = ev_return (Some (m, i + 1 + j))"
        "keep_rows (opt_holds pf params p) (join_with l (drop j rs)) = Ok ms'" by auto
      with Cons False step show ?thesis by (auto intro!: exI [of _ "Suc j"])
    qed
  qed
qed simp

lemma sm_ev_return: "sm_ev (ev_return x) = sm_return x"
  by (auto simp: sm_ev_def ev_return_def sm_return_def)

context table_reader begin

text \<open>An executor whose step is the step of another, perhaps after a change of the source.\<close>

lemma nexts_as:
  assumes "\<And>s w. I s \<Longrightarrow> \<exists>e' s'. I s' \<and> nexts e' r P
    \<and> eventually (\<lambda>n. exec_step X n (exec_next X n) e (s, w) = exec_step X n (exec_next X n) e' (s', w)) sequentially"
  shows "nexts e r P"
proof (rule nextsI)
  fix s w assume s: "I s"
  from assms [OF s, of w] obtain e1 s1 where 1: "I s1" "nexts e1 r P"
    "eventually (\<lambda>n. exec_step X n (exec_next X n) e (s, w) = exec_step X n (exec_next X n) e1 (s1, w)) sequentially"
    by blast
  then obtain e' s' where 2: "I s'" "P e'"
    "eventually (\<lambda>n. exec_next X n e1 (s1, w) = Ok ((r, e'), (s', w))) sequentially"
    unfolding nexts_def answers_def by blast
  have e: "eventually (\<lambda>n. exec_next X (Suc n) e1 (s1, w) = Ok ((r, e'), (s', w))) sequentially"
    using 2(3) eventually_sequentially_Suc [of "\<lambda>n. exec_next X n e1 (s1, w) = Ok ((r, e'), (s', w))"] by blast
  from 1(3) e have "eventually (\<lambda>n. exec_step X n (exec_next X n) e (s, w) = Ok ((r, e'), (s', w))) sequentially"
    by eventually_elim simp
  with 2 show "\<exists>e' s'. I s' \<and> P e' \<and>
    eventually (\<lambda>n. exec_step X n (exec_next X n) e (s, w) = Ok ((r, e'), (s', w))) sequentially" by blast
qed

lemma runs_as:
  assumes "\<And>s w. I s \<Longrightarrow> \<exists>e' s'. I s' \<and> runs e' rs
    \<and> eventually (\<lambda>n. exec_step X n (exec_next X n) e (s, w) = exec_step X n (exec_next X n) e' (s', w)) sequentially"
  shows "runs e rs"
proof (cases rs)
  case Nil
  show ?thesis unfolding Nil runs.simps
    by (rule nexts_as) (use assms in \<open>simp add: Nil\<close>)
next
  case (Cons r rs')
  show ?thesis unfolding Cons runs.simps
    by (rule nexts_as) (use assms in \<open>simp add: Cons\<close>)
qed

lemma runs_input_as:
  assumes "runs inp (r # rs)"
    and "\<And>n inp' s s' w. exec_next X n inp (s, w) = Ok ((Some r, inp'), (s', w)) \<Longrightarrow>
      exec_step X n (exec_next X n) e (s, w) = exec_step X n (exec_next X n) (F inp') (s', w)"
    and "\<And>inp'. runs inp' rs \<Longrightarrow> runs (F inp') out"
  shows "runs e out"
proof (rule runs_as)
  fix s w assume "I s"
  from runs_ConsE [OF assms(1) this, of w] obtain inp' s' where
    1: "I s'" "runs inp' rs" "answers inp s w (Some r) inp' s'" .
  from 1(3) have "eventually (\<lambda>n. exec_step X n (exec_next X n) e (s, w)
      = exec_step X n (exec_next X n) (F inp') (s', w)) sequentially"
    unfolding answers_def by eventually_elim (rule assms(2))
  with 1(1) assms(3) [OF 1(2)] show "\<exists>e' s'. I s' \<and> runs e' out \<and>
    eventually (\<lambda>n. exec_step X n (exec_next X n) e (s, w) = exec_step X n (exec_next X n) e' (s', w)) sequentially"
    by blast
qed

lemma runs_emit_now:
  assumes "\<And>n s w. exec_step X n (exec_next X n) e (s, w) = Ok ((Some r, e'), (s, w))" and "runs e' out"
  shows "runs e (r # out)"
  unfolding runs.simps by (rule nextsI) (use assms in \<open>auto intro!: eventuallyI\<close>)

lemma runs_goto:
  assumes "\<And>n s w. exec_step X n (exec_next X n) e (s, w) = exec_next X n e' (s, w)" and "runs e' out"
  shows "runs e out"
  by (rule runs_via) (use assms in \<open>auto intro!: eventuallyI\<close>)

lemma runs_join_current:
  assumes "pred_option pure_expr p" and "runs (XJoin left right (Some rows) p outer columns n None) rest"
    and "keep_rows (opt_holds (xc_pf X) (xc_params X) p) (join_with l (drop i rows)) = Ok ms"
  shows "runs (XJoin left right (Some rows) p outer columns n (Some (l, i, matched)))
    ((if outer \<and> \<not> matched \<and> ms = [] then [join_row l (replicate n VNull)] else ms) @ rest)"
  using assms(3)
proof (induction ms arbitrary: i matched)
  case Nil
  let ?e = "XJoin left right (Some rows) p outer columns n (Some (l, i, matched))"
  have "join_scan (xc_pf X) (xc_params X) p l (drop i rows) i = ev_return None"
    using join_scan_spec [OF assms(1) Nil, of i] by simp
  then have step: "exec_step X n' (exec_next X n') ?e (s, w) =
      (if outer \<and> \<not> matched
       then Ok ((Some (join_row l (replicate n VNull)), XJoin left right (Some rows) p outer columns n None), (s, w))
       else exec_next X n' (XJoin left right (Some rows) p outer columns n None) (s, w))" for n' s w
    by (simp add: exec_step_def join_next_def join_current_def Let_def sm_ev_return sm_simps(1,2) outcome_simps)
  show ?case
  proof (cases "outer \<and> \<not> matched")
    case True
    have "runs ?e (join_row l (replicate n VNull) # rest)"
      by (rule runs_emit_now [OF _ assms(2)]) (use True step in auto)
    with True show ?thesis by simp
  next
    case False
    have "runs ?e rest" by (rule runs_goto [OF _ assms(2)]) (use False step in auto)
    moreover have "(if outer \<and> \<not> matched \<and> [] = ([] :: 'j row list) then [join_row l (replicate n VNull)] else []) @ rest = rest"
      using False by auto
    ultimately show ?thesis by (simp only:)
  qed
next
  case (Cons m ms)
  let ?e = "XJoin left right (Some rows) p outer columns n (Some (l, i, matched))"
  from join_scan_spec [OF assms(1) Cons.prems, of i] obtain j where
    j: "join_scan (xc_pf X) (xc_params X) p l (drop i rows) i = ev_return (Some (m, i + j))"
      "keep_rows (opt_holds (xc_pf X) (xc_params X) p) (join_with l (drop (i + j) rows)) = Ok ms"
    by (auto simp: add.commute)
  have "runs ?e (m # ms @ rest)"
  proof (rule runs_emit_now)
    show "exec_step X n' (exec_next X n') ?e (s, w) =
        Ok ((Some m, XJoin left right (Some rows) p outer columns n (Some (l, i + j, True))), (s, w))" for n' s w
      by (simp add: exec_step_def join_next_def join_current_def sm_ev_return j(1) sm_simps(1,2) outcome_simps)
    show "runs (XJoin left right (Some rows) p outer columns n (Some (l, i + j, True))) (ms @ rest)"
      using Cons.IH [OF j(2), of True] by simp
  qed
  then show ?case by simp
qed

lemma runs_join_ready:
  fixes left right :: "('j, 'q) exec"
  assumes "runs left ls" and "pred_option pure_expr p"
    and "join_rows (xc_pf X) (xc_params X) p outer n ls rows = Ok out"
  shows "runs (XJoin left right (Some rows) p outer columns n None) out"
  using assms(1,3)
proof (induction ls arbitrary: left out)
  case Nil
  have "runs (XJoin left right (Some rows) p outer columns n None) []"
    by (rule runs_input_None [OF Nil(1), of _ "\<lambda>left. XJoin left right (Some rows) p outer columns n None"])
      (simp add: step_simps join_next_def)
  with Nil(2) show ?case by simp
next
  case (Cons l ls)
  from Cons.prems(2) obtain ms rest where k:
    "matches (xc_pf X) (xc_params X) p l rows = Ok ms"
    "join_rows (xc_pf X) (xc_params X) p outer n ls rows = Ok rest"
    "out = (if outer \<and> ms = [] then [join_row l (replicate n VNull)] else ms) @ rest"
    by (auto simp: obind_eq_Ok omap_eq_Ok)
  show ?case
  proof (rule runs_input_as [OF Cons.prems(1),
        of _ "\<lambda>left. XJoin left right (Some rows) p outer columns n (Some (l, 0, False))"])
    fix n' e' s s' w assume "exec_next X n' left (s, w) = Ok ((Some l, e'), (s', w))"
    then show "exec_step X n' (exec_next X n') (XJoin left right (Some rows) p outer columns n None) (s, w)
      = exec_step X n' (exec_next X n') (XJoin e' right (Some rows) p outer columns n (Some (l, 0, False))) (s', w)"
      by (simp add: step_simps join_next_def)
  next
    fix left' :: "('j, 'q) exec" assume "runs left' ls"
    from runs_join_current [OF assms(2) Cons.IH [OF this k(2)], of l 0 ms False] k(1,3)
    show "runs (XJoin left' right (Some rows) p outer columns n (Some (l, 0, False))) out"
      by (simp add: matches_def)
  qed
qed

lemma runs_join:
  assumes "runs left ls" and "runs right rows" and "pred_option pure_expr p"
    and "join_rows (xc_pf X) (xc_params X) p outer n ls rows = Ok out"
  shows "runs (XJoin left right None p outer columns n None) out"
proof (rule runs_as)
  fix s w assume s: "I s"
  obtain s' where s': "I s'"
    "eventually (\<lambda>n. collect_with (exec_next X n) n right (s, w) = Ok (rows, (s', w))) sequentially"
    by (rule collect_runs_diag [OF assms(2) s])
  from s'(2) have "eventually (\<lambda>k. exec_step X k (exec_next X k) (XJoin left right None p outer columns n None) (s, w)
      = exec_step X k (exec_next X k) (XJoin left right (Some rows) p outer columns n None) (s', w)) sequentially"
    by eventually_elim (simp add: step_simps join_next_def)
  with s'(1) runs_join_ready [OF assms(1,3,4)] show "\<exists>e' s'. I s' \<and> runs e' out
    \<and> eventually (\<lambda>k. exec_step X k (exec_next X k) (XJoin left right None p outer columns n None) (s, w)
      = exec_step X k (exec_next X k) e' (s', w)) sequentially" by blast
qed

end

lemma find_split:
  "find P xs = (case filter P xs of [] \<Rightarrow> None | x # _ \<Rightarrow> Some x)"
  by (induction xs) auto

text \<open>In a sorted table the entries from the successor of a key on are those after its entry.\<close>

lemma sorted_filter_head:
  fixes L :: "('k :: linorder \<times> 'v) list"
  assumes "sorted_wrt (<) (map fst L)" and "filter (\<lambda>e. k \<le> fst e) L = e # es"
  shows "filter (\<lambda>e'. fst e < fst e') L = es"
  using assms
proof (induction L)
  case (Cons a L)
  show ?case
  proof (cases "k \<le> fst a")
    case True
    with Cons.prems have a: "a = e" "filter (\<lambda>e. k \<le> fst e) L = es" by auto
    have "\<forall>x\<in>set L. fst a < fst x" using Cons.prems(1) by auto
    then have "\<forall>x\<in>set L. k \<le> fst x" using order.trans [OF True less_imp_le] by blast
    with \<open>\<forall>x\<in>set L. fst a < fst x\<close> have "filter (\<lambda>e'. fst a < fst e') L = L" "filter (\<lambda>e. k \<le> fst e) L = L"
      unfolding filter_id_conv by blast+
    with a show ?thesis by simp
  next
    case False
    with Cons.prems have "filter (\<lambda>e. k \<le> fst e) L = e # es" by simp
    moreover from this have "e \<in> set (filter (\<lambda>e. k \<le> fst e) L)" by simp
    then have "\<not> fst e < fst a" using False by auto
    ultimately show ?thesis using Cons.IH Cons.prems(1) by simp
  qed
qed simp

lemma i64_succ_le:
  assumes "int_of_i64 a < i64_max"
  shows "i64_of_int (int_of_i64 a + 1) \<le> b \<longleftrightarrow> a < b"
  using assms int_of_i64_bounds(1) [of a]
  by (simp add: less_eq_i64_def less_i64_def int_of_i64_of_int add1_zle_eq)

context table_reader begin

lemma runs_scan:
  assumes "page \<in> pages"
    and "omapM (\<lambda>(key, data). scan_row columns alias defaults key data) (filter (\<lambda>e. k \<le> fst e) (T page)) = Ok rows"
  shows "runs (XScan page columns alias defaults k False :: ('j, 'q) exec) rows"
  using assms(2)
proof (induction "filter (\<lambda>e. k \<le> fst e) (T page)" arbitrary: k rows)
  case Nil
  then have f: "find (\<lambda>e. k \<le> fst e) (T page) = None" "rows = []" by (simp_all add: find_split)
  show ?case unfolding f(2) runs.simps
  proof (rule nextsI)
    fix s w assume "I s"
    from seek_law [OF this assms(1), of k] f(1) obtain s' where
      "I s'" "scan_fetch X page k s = Ok (None, s')" by auto
    then show "\<exists>e' s'. I s' \<and> True \<and> eventually (\<lambda>n. exec_step X n (exec_next X n)
        (XScan page columns alias defaults k False) (s, w) = Ok ((None, e'), (s', w))) sequentially"
      by (intro exI conjI) (auto simp: exec_step_def scan_next_def sm_simps outcome_simps)
  qed
next
  case (Cons e es)
  obtain key data where e: "e = (key, data)" by (cases e)
  have f: "find (\<lambda>e. k \<le> fst e) (T page) = Some (key, data)"
    by (simp add: find_split Cons.hyps(2) [symmetric] e)
  from Cons.prems obtain row rows' where r: "scan_row columns alias defaults key data = Ok row"
      "omapM (\<lambda>(key, data). scan_row columns alias defaults key data) es = Ok rows'" "rows = row # rows'"
    unfolding Cons.hyps(2) [symmetric] omapM_Cons by (auto simp: e)
  let ?e' = "if int_of_i64 key < i64_max then XScan page columns alias defaults (i64_of_int (int_of_i64 key + 1)) False
     else XScan page columns alias defaults k True :: ('j, 'q) exec"
  have es: "filter (\<lambda>e'. key < fst e') (T page) = es" if "I s" for s
    using sorted_filter_head [OF sorted_tables [OF that assms(1)] Cons.hyps(2) [symmetric]] by (simp add: e)
  have next': "runs ?e' rows'" if s: "I s" for s
  proof (cases "int_of_i64 key < i64_max")
    case True
    then have "filter (\<lambda>e. i64_of_int (int_of_i64 key + 1) \<le> fst e) (T page) = es"
      unfolding es [OF s, symmetric] by (simp add: i64_succ_le)
    with Cons.hyps(1) [of "i64_of_int (int_of_i64 key + 1)" rows'] r(2) True show ?thesis by (simp del: omapM.simps)
  next
    case False
    then have "key < k \<longleftrightarrow> False" for k :: i64
      using int_of_i64_bounds(2) [of k] by (simp add: less_i64_def)
    then have "rows' = []" using es [OF s] r(2) by simp
    with False show ?thesis by (simp only: if_False) (rule runs_stopped, simp add: exec_step_def scan_next_def sm_simps)
  qed
  show ?case unfolding r(3) runs.simps
  proof (rule nextsI)
    fix s w assume s: "I s"
    from seek_law [OF s assms(1), of k] f obtain s' where
      s': "I s'" "scan_fetch X page k s = Ok (Some (key, data), s')" by auto
    have "exec_step X n (exec_next X n) (XScan page columns alias defaults k False) (s, w)
        = Ok ((Some row, ?e'), (s', w))" for n
      using s'(2) r(1) by (simp add: exec_step_def scan_next_def sm_simps outcome_simps)
    then have "eventually (\<lambda>n. exec_step X n (exec_next X n) (XScan page columns alias defaults k False) (s, w)
        = Ok ((Some row, ?e'), (s', w))) sequentially" by (rule always_eventually [OF allI])
    with s'(1) next' [OF s] show "\<exists>(e' :: ('j, 'q) exec) s'. I s' \<and> runs e' rows' \<and> eventually (\<lambda>n. exec_step X n (exec_next X n)
        (XScan page columns alias defaults k False) (s, w) = Ok ((Some row, e'), (s', w))) sequentially"
      by (intro exI [of _ ?e'] exI [of _ s'] conjI)
  qed
qed

end

lemma exec_columns_build: "exec_columns (build p) = plan_columns p"
  by (induction p) simp_all

context table_reader begin

text \<open>The executor of a plan gives the rows of the plan.\<close>

lemma runs_build:
  assumes "plan_rows (xc_pf X) (xc_params X) T p = Ok rows" and "pure_plan p" and "scan_pages p \<subseteq> pages"
  shows "runs (build p) rows"
  using assms
proof (induction p arbitrary: rows)
  case PDual
  then show ?case using runs_dual by simp
next
  case (PScan table page columns al defaults)
  have "filter (\<lambda>e. i64_of_int i64_min \<le> fst e) (T page) = T page"
    using int_of_i64_bounds(1) by (simp add: filter_id_conv less_eq_i64_def int_of_i64_of_int i64_min_def i64_max_def)
  with PScan show ?case by (simp only: build.simps) (rule runs_scan, simp_all)
next
  case (PFilter p e)
  then show ?case by (auto simp: obind_eq_Ok intro: runs_filter)
next
  case (PProject p es cs)
  then show ?case by (auto simp: obind_eq_Ok intro: runs_project)
next
  case (PJoin l r e outer cs)
  then show ?case by (auto simp: obind_eq_Ok exec_columns_build intro: runs_join)
next
  case (PAggregate p gs ags outs cs n h)
  then show ?case by (auto simp: obind_eq_Ok intro: runs_agg)
next
  case (PSort p ks)
  then show ?case by (auto simp: obind_eq_Ok intro: runs_sort)
next
  case (PLimit p l off)
  then show ?case using runs_limit_skip [of "build p" _ 0 off l] by (auto simp: omap_eq_Ok)
next
  case (PDistinct p)
  then show ?case by (auto simp: omap_eq_Ok intro: runs_distinct)
next
  case (PSetOp k all l r cs)
  then show ?case by (auto simp: obind_eq_Ok omap_eq_Ok intro: runs_setop)
qed

lemma query_refines:
  assumes "plan_rows (xc_pf X) (xc_params X) T p = Ok rows" and "pure_plan p" and "scan_pages p \<subseteq> pages"
    and "I s"
  obtains s' n0 where "I s'" "\<And>n. n0 \<le> n \<Longrightarrow> collect_all X n (build p) (s, w) = Ok (rows, (s', w))"
  using collect_runs_diag [OF runs_build [OF assms(1-3)] assms(4), of w]
  unfolding collect_all_def eventually_sequentially by blast

end

end
