(* ===== verification/ExecFacts.thy ===== *)
theory ExecFacts
  imports ExecSpec "HOL-Library.Sublist"
begin

text \<open>
  What the operators compute: sorting is sorted, stable and a permutation; \<open>DISTINCT\<close> and the
  set operations are operations on the sets of rows; aggregates are sums, counts and extremes.
\<close>

section \<open>Sorting\<close>

text \<open>A comparator that is a total preorder on a set.\<close>

definition cmp_ok :: "('a \<Rightarrow> 'a \<Rightarrow> ordering) \<Rightarrow> 'a set \<Rightarrow> bool" where
  "cmp_ok c S \<longleftrightarrow> (\<forall>x\<in>S. \<forall>y\<in>S. c y x = ord_reverse (c x y))
     \<and> (\<forall>x\<in>S. \<forall>y\<in>S. \<forall>z\<in>S. c x y \<noteq> Greater \<longrightarrow> c y z \<noteq> Greater \<longrightarrow> c x z \<noteq> Greater)"

lemma cmp_okD:
  assumes "cmp_ok c S"
  shows "x \<in> S \<Longrightarrow> y \<in> S \<Longrightarrow> c y x = ord_reverse (c x y)"
    and "x \<in> S \<Longrightarrow> y \<in> S \<Longrightarrow> z \<in> S \<Longrightarrow> c x y \<noteq> Greater \<Longrightarrow> c y z \<noteq> Greater \<Longrightarrow> c x z \<noteq> Greater"
  using assms unfolding cmp_ok_def by blast+

lemma cmp_ok_mono: "cmp_ok c S \<Longrightarrow> S' \<subseteq> S \<Longrightarrow> cmp_ok c S'"
  unfolding cmp_ok_def by blast

lemma mset_insert_by [simp]: "mset (insert_by c x ys) = add_mset x (mset ys)"
  by (induction ys) auto

lemma mset_sort_by [simp]: "mset (sort_by c xs) = mset xs"
  by (induction xs) auto

lemma set_insert_by [simp]: "set (insert_by c x ys) = insert x (set ys)"
  by (induction ys) auto

lemma set_sort_by [simp]: "set (sort_by c xs) = set xs"
  using mset_eq_setD [OF mset_sort_by] .

lemma reverse_Greater [simp]: "ord_reverse o1 = Greater \<longleftrightarrow> o1 = Less" "ord_reverse o1 = Less \<longleftrightarrow> o1 = Greater"
  "ord_reverse o1 = Equal \<longleftrightarrow> o1 = Equal" "ord_reverse (ord_reverse o1) = o1"
  by (cases o1; simp)+

abbreviation sorted_cmp :: "('a \<Rightarrow> 'a \<Rightarrow> ordering) \<Rightarrow> 'a list \<Rightarrow> bool" where
  "sorted_cmp c \<equiv> sorted_wrt (\<lambda>a b. c a b \<noteq> Greater)"

lemma sorted_insert_by:
  "cmp_ok c (insert x (set ys)) \<Longrightarrow> sorted_cmp c ys \<Longrightarrow> sorted_cmp c (insert_by c x ys)"
proof (induction ys)
  case (Cons y ys)
  show ?case
  proof (cases "c x y = Greater")
    case True
    have "c y x \<noteq> Greater" using True cmp_okD(1) [OF Cons.prems(1), of x y] by simp
    moreover have "sorted_cmp c (insert_by c x ys)"
      using Cons.IH cmp_ok_mono [OF Cons.prems(1)] Cons.prems(2) by (simp add: subset_insertI2 insert_mono)
    ultimately show ?thesis using True Cons.prems(2) by simp
  next
    case False
    have "c x z \<noteq> Greater" if "z \<in> set ys" for z
      by (rule cmp_okD(2) [OF Cons.prems(1), of x y z]) (use False that Cons.prems(2) in auto)
    with False Cons.prems(2) show ?thesis by simp
  qed
qed simp

lemma sorted_sort_by: "cmp_ok c (set xs) \<Longrightarrow> sorted_cmp c (sort_by c xs)"
proof (induction xs)
  case (Cons x xs)
  have "cmp_ok c (set xs)" by (rule cmp_ok_mono [OF Cons.prems]) auto
  with Cons show ?case by (simp add: sorted_insert_by)
qed simp

text \<open>Stability: elements that compare equal to \<open>k\<close> keep their order.\<close>

lemma filter_insert_by:
  assumes "cmp_ok c S" and "k \<in> S" and "x \<in> S" and "set ys \<subseteq> S"
  shows "filter (\<lambda>a. c k a = Equal) (insert_by c x ys) = filter (\<lambda>a. c k a = Equal) (x # ys)"
  using assms(4)
proof (induction ys)
  case (Cons y ys)
  have y: "y \<in> S" using Cons.prems by simp
  have "\<not> (c k x = Equal \<and> c k y = Equal)" if "c x y = Greater"
  proof
    assume "c k x = Equal \<and> c k y = Equal"
    then have "c x k \<noteq> Greater" "c k y \<noteq> Greater" using cmp_okD(1) [OF assms(1,2,3)] by auto
    then show False using cmp_okD(2) [OF assms(1,3,2) y] that by blast
  qed
  with Cons show ?case by auto
qed simp

lemma filter_sort_by:
  assumes "cmp_ok c S" and "k \<in> S" and "set xs \<subseteq> S"
  shows "filter (\<lambda>a. c k a = Equal) (sort_by c xs) = filter (\<lambda>a. c k a = Equal) xs"
  using assms(3)
proof (induction xs)
  case (Cons x xs)
  then have "filter (\<lambda>a. c k a = Equal) (insert_by c x (sort_by c xs)) = filter (\<lambda>a. c k a = Equal) (x # sort_by c xs)"
    by (intro filter_insert_by [OF assms(1,2)]) auto
  with Cons show ?case by simp
qed simp

section \<open>The keys of \<open>ORDER BY\<close>\<close>

lemma eval_args_length: "eval_args pf en es w = Ok (vs, w') \<Longrightarrow> length vs = length es"
  by (induction es arbitrary: vs w w') (auto simp: ev_return_def ev_bind_def obind_eq_Ok)

lemma key_rows_lengths:
  "key_rows pf params keys rows w = Ok (keyed, w') \<Longrightarrow> (\<forall>(k, r)\<in>set keyed. length k = length keys) \<and> map snd keyed = rows"
  by (induction rows arbitrary: keyed w w')
    (fastforce simp: ev_return_def ev_bind_def obind_eq_Ok dest: eval_args_length)+

lemma sort_cmp_reverse:
  assumes "list_all orderable a" and "list_all orderable b"
  shows "sort_cmp ks b a = ord_reverse (sort_cmp ks a b)"
  using assms
proof (induction ks a b rule: sort_cmp.induct)
  case (1 k ks x xs y ys)
  have "order_key y x = ord_reverse (order_key x y)" using 1(2,3) by (simp add: order_key_key)
  with 1 show ?case by (auto simp: Let_def)
qed (auto simp: neq_Nil_conv)

lemma sort_cmp_trans:
  assumes "length a = length ks" "length b = length ks" "length d = length ks"
    and "list_all orderable a" "list_all orderable b" "list_all orderable d"
    and "sort_cmp ks a b \<noteq> Greater" "sort_cmp ks b d \<noteq> Greater"
  shows "sort_cmp ks a d \<noteq> Greater"
  using assms
proof (induction ks arbitrary: a b d)
  case (Cons k ks)
  obtain x xs y ys z zs where l: "a = x # xs" "b = y # ys" "d = z # zs"
    using Cons.prems(1-3) by (auto simp: length_Suc_conv)
  have o: "order_key x y = ord_of (value_key x) (value_key y)" "order_key y z = ord_of (value_key y) (value_key z)"
    "order_key x z = ord_of (value_key x) (value_key z)"
    using Cons.prems(4-6) l by (simp_all add: order_key_key)
  have IH: "sort_cmp ks xs zs \<noteq> Greater" if "sort_cmp ks xs ys \<noteq> Greater" "sort_cmp ks ys zs \<noteq> Greater"
    using Cons.IH [of xs ys zs] Cons.prems l that by simp
  show ?case
    using Cons.prems(7,8) IH l o
    by (cases "sk_asc k") (auto simp: Let_def split: if_splits)
qed simp

text \<open>
  C23. \<open>ORDER BY\<close> sorts. When the keys evaluate without an error and contain no NaN and no JSON
  document, the sorted rows are the input rows, each as often as in the input; they ascend in
  the order of the keys, with each key's direction; and rows whose keys compare equal stay in their order.
\<close>

theorem order_by_correct:
  assumes "run_pure (key_rows pf params keys rows) = Ok keyed" and "list_all (\<lambda>(k, r). list_all orderable k) keyed"
  shows "\<exists>s. run_pure (sort_rows pf params keys rows) = Ok (map snd s) \<and> map snd keyed = rows
    \<and> mset s = mset keyed \<and> sorted_wrt (\<lambda>a b. sort_cmp keys (fst a) (fst b) \<noteq> Greater) s
    \<and> (\<forall>k\<in>set keyed. filter (\<lambda>a. sort_cmp keys (fst k) (fst a) = Equal) s
        = filter (\<lambda>a. sort_cmp keys (fst k) (fst a) = Equal) keyed)"
proof -
  let ?c = "\<lambda>a b :: 'a sql_value list \<times> 'a row. sort_cmp keys (fst a) (fst b)"
  obtain w' where w': "key_rows pf params keys rows default_world = Ok (keyed, w')"
    using assms(1) by (auto simp: run_pure_def omap_eq_Ok)
  have len: "\<And>x. x \<in> set keyed \<Longrightarrow> length (fst x) = length keys" "map snd keyed = rows"
    using key_rows_lengths [OF w'] by auto
  have ord: "\<And>x. x \<in> set keyed \<Longrightarrow> list_all orderable (fst x)" using assms(2) by (auto simp: list_all_iff)
  have ok: "cmp_ok ?c (set keyed)"
    unfolding cmp_ok_def using sort_cmp_reverse [OF ord ord] sort_cmp_trans [OF len(1) len(1) len(1) ord ord ord] by blast
  have "run_pure (sort_rows pf params keys rows) = Ok (map snd (sort_by ?c keyed))"
    using w' by (simp add: run_pure_def sort_rows_def ev_bind_def ev_return_def)
  then show ?thesis
    using sorted_sort_by [OF ok] filter_sort_by [OF ok _ subset_refl] len(2)
    by (intro exI [of _ "sort_by ?c keyed"]) auto
qed

theorem order_by_correct_witness:
  "\<exists>s. run_pure (sort_rows test_platform [] [SortKey (EColumn 0) False :: (unit, unit) sort_key]
       [\<lparr>row_id = i64_of_int 1, row_values = [VText ''a'']\<rparr>, \<lparr>row_id = i64_of_int 2, row_values = [VText ''b'']\<rparr>])
     = Ok (map snd s) \<and> length s = 2
     \<and> sorted_wrt (\<lambda>a b. sort_cmp [SortKey (EColumn 0) False :: (unit, unit) sort_key] (fst a) (fst b) \<noteq> Greater) s"
proof -
  let ?r = "\<lambda>i t. \<lparr>row_id = i64_of_int i, row_values = [VText t]\<rparr> :: unit row"
  let ?k = "[SortKey (EColumn 0) False :: (unit, unit) sort_key]"
  let ?keyed = "[([VText ''a''], ?r 1 ''a''), ([VText ''b''], ?r 2 ''b'')]"
  have k: "run_pure (key_rows test_platform [] ?k [?r 1 ''a'', ?r 2 ''b'']) = Ok ?keyed"
    by (simp add: run_pure_def ev_return_def ev_bind_def row_env_def ev_lift_def get_def ok_or_def)
  have "list_all (\<lambda>(k, r). list_all orderable k) ?keyed" by simp
  from order_by_correct [OF k this] obtain s where
    "run_pure (sort_rows test_platform [] ?k [?r 1 ''a'', ?r 2 ''b'']) = Ok (map snd s)"
    "mset s = mset ?keyed" "sorted_wrt (\<lambda>a b. sort_cmp ?k (fst a) (fst b) \<noteq> Greater) s" by blast
  moreover from this(2) have "length s = 2" using mset_eq_length by fastforce
  ultimately show ?thesis by blast
qed

section \<open>Duplicate rows\<close>

text \<open>Rows without NaN and JSON are equal for \<open>DISTINCT\<close> when the keys of their values are.\<close>

definition orderable_row :: "'j row \<Rightarrow> bool" where
  "orderable_row r \<longleftrightarrow> list_all orderable (row_values r)"

definition row_key :: "'j row \<Rightarrow> (nat \<times> int \<times> string \<times> bytes) list" where
  "row_key r = map value_key (row_values r)"

lemma value_same_key: "orderable v \<Longrightarrow> orderable w \<Longrightarrow> value_same v w \<longleftrightarrow> value_key v = value_key w"
  using value_eq_key [of v w] by (cases v; cases w) (simp_all add: value_same_def)

lemma rows_eq_key:
  "list_all orderable a \<Longrightarrow> list_all orderable b \<Longrightarrow> rows_eq a b \<longleftrightarrow> map value_key a = map value_key b"
  unfolding rows_eq_def
proof (induction a arbitrary: b)
  case (Cons x a)
  then show ?case by (cases b) (auto simp: value_same_key)
qed auto

lemma seen_in_key:
  assumes "list_all (list_all orderable) seen" and "orderable_row r"
  shows "seen_in seen r \<longleftrightarrow> row_key r \<in> set (map (map value_key) seen)"
proof -
  have "rows_eq a (row_values r) \<longleftrightarrow> map value_key a = row_key r" if "a \<in> set seen" for a
    unfolding row_key_def by (rule rows_eq_key) (use assms that in \<open>auto simp: list_all_iff orderable_row_def\<close>)
  then show ?thesis unfolding seen_in_def list_ex_iff set_map image_iff by metis
qed

lemma dedup_keys:
  assumes "list_all orderable_row rs" and "list_all (list_all orderable) seen"
  shows "set (map row_key (dedup seen rs)) = set (map row_key rs) - set (map (map value_key) seen)
    \<and> distinct (map row_key (dedup seen rs)) \<and> subseq (dedup seen rs) rs"
  using assms
proof (induction rs arbitrary: seen)
  case (Cons r rs)
  have r: "orderable_row r" "list_all (list_all orderable) (seen @ [row_values r])"
    using Cons.prems by (auto simp: orderable_row_def)
  show ?case
  proof (cases "seen_in seen r")
    case True
    with Cons.IH [of seen] Cons.prems seen_in_key [OF Cons.prems(2) r(1)] show ?thesis by auto
  next
    case False
    with Cons.IH [OF _ r(2)] Cons.prems seen_in_key [OF Cons.prems(2) r(1)] show ?thesis
      by (auto simp: row_key_def)
  qed
qed simp

text \<open>The rows kept are those whose key is not among the seen ones and not that of an earlier row.\<close>

lemma dedup_firsts:
  assumes "list_all orderable_row rs" and "list_all (list_all orderable) seen"
  shows "dedup seen rs = nths rs {i. row_key (rs ! i) \<notin> set (map (map value_key) seen)
    \<and> (\<forall>j<i. row_key (rs ! j) \<noteq> row_key (rs ! i))}"
  using assms
proof (induction rs arbitrary: seen)
  case (Cons r rs)
  have r: "orderable_row r" "list_all (list_all orderable) (seen @ [row_values r])"
    using Cons.prems by (auto simp: orderable_row_def)
  show ?case
  proof (cases "seen_in seen r")
    case True
    then have "row_key r \<in> set (map (map value_key) seen)" using seen_in_key [OF Cons.prems(2) r(1)] by blast
    then show ?thesis using Cons.IH [of seen] Cons.prems True
      by (auto simp: nths_Cons All_less_Suc2 intro!: arg_cong [of _ _ "nths rs"])
  next
    case False
    then have "row_key r \<notin> set (map (map value_key) seen)" using seen_in_key [OF Cons.prems(2) r(1)] by blast
    then show ?thesis using Cons.IH [OF _ r(2)] Cons.prems False
      by (auto simp: nths_Cons All_less_Suc2 row_key_def [of r] intro!: arg_cong [of _ _ "nths rs"])
  qed
qed simp

text \<open>
  C24. \<open>DISTINCT\<close> over rows without NaN and JSON keeps, of all rows that are equal, the first, and keeps their
  order: the result is the list of exactly those rows that no earlier row equals. So it is a subsequence of the
  rows, has no two equal rows, and has a row equal to each of the input.
\<close>

theorem distinct_correct:
  assumes "list_all orderable_row rs"
  shows "dedup [] rs = nths rs {i. \<forall>j<i. row_key (rs ! j) \<noteq> row_key (rs ! i)}
    \<and> subseq (dedup [] rs) rs \<and> distinct (map row_key (dedup [] rs))
    \<and> set (map row_key (dedup [] rs)) = set (map row_key rs)"
  using dedup_keys [OF assms, of "[]"] dedup_firsts [OF assms, of "[]"] by simp

theorem distinct_correct_witness:
  "subseq (dedup [] [\<lparr>row_id = i64_of_int 1, row_values = [VNull :: unit sql_value]\<rparr>,
       \<lparr>row_id = i64_of_int 2, row_values = [VNull]\<rparr>])
     [\<lparr>row_id = i64_of_int 1, row_values = [VNull]\<rparr>, \<lparr>row_id = i64_of_int 2, row_values = [VNull]\<rparr>]
   \<and> dedup [] [\<lparr>row_id = i64_of_int 1, row_values = [VNull :: unit sql_value]\<rparr>,
       \<lparr>row_id = i64_of_int 2, row_values = [VNull]\<rparr>] = [\<lparr>row_id = i64_of_int 1, row_values = [VNull]\<rparr>]"
proof -
  let ?rs = "[\<lparr>row_id = i64_of_int 1, row_values = [VNull :: unit sql_value]\<rparr>, \<lparr>row_id = i64_of_int 2, row_values = [VNull]\<rparr>]"
  have "list_all orderable_row ?rs" by (simp add: orderable_row_def)
  from distinct_correct [OF this] have "subseq (dedup [] ?rs) ?rs" by blast
  then show ?thesis by (simp add: seen_in_def rows_eq_def value_same_def)
qed

section \<open>Set operations\<close>

lemma ord_of_Cons: "ord_of (x # xs) (y # ys) = (if x = y then ord_of xs ys else ord_of x y)"
  by (auto simp: ord_of_def)

lemma cmp_values_key:
  "list_all orderable a \<Longrightarrow> list_all orderable b \<Longrightarrow> cmp_values a b = ord_of (map value_key a) (map value_key b)"
proof (induction a arbitrary: b)
  case Nil
  then show ?case by (cases b) (simp_all add: ord_of_def)
next
  case (Cons x xs)
  then show ?case by (cases b) (auto simp: ord_of_Cons order_key_key Let_def, simp add: ord_of_def)
qed

lemma sort_set_rows_keys:
  assumes "list_all orderable_row rs" and "distinct (map row_key rs)"
  shows "sorted_wrt (<) (map row_key (sort_set_rows rs)) \<and> set (sort_set_rows rs) = set rs"
proof -
  let ?c = "\<lambda>a b :: 'a row. cmp_values (row_values a) (row_values b)"
  have c: "?c a b = ord_of (row_key a) (row_key b)" if "a \<in> set rs" "b \<in> set rs" for a b
    using assms(1) that by (simp add: list_all_iff orderable_row_def row_key_def cmp_values_key)
  have ok: "cmp_ok ?c (set rs)" unfolding cmp_ok_def by (auto simp: c)
  have "sorted_wrt (\<lambda>a b. ?c a b \<noteq> Greater) (sort_set_rows rs)"
    unfolding sort_set_rows_def by (rule sorted_sort_by [OF ok])
  then have "sorted_wrt (\<lambda>a b. row_key a \<le> row_key b) (sort_set_rows rs)"
    by (rule sorted_wrt_mono_rel [rotated]) (simp add: c sort_set_rows_def not_less)
  then have "sorted (map row_key (sort_set_rows rs))" by (simp add: sorted_wrt_map)
  moreover have "distinct (map row_key (sort_set_rows rs))"
  proof -
    have "mset (map row_key (sort_set_rows rs)) = mset (map row_key rs)"
      unfolding mset_map sort_set_rows_def by simp
    then show ?thesis using assms(2) mset_eq_imp_distinct_iff by blast
  qed
  ultimately show ?thesis by (simp add: strict_sorted_iff sort_set_rows_def)
qed

text \<open>The rows of a set operation other than \<open>UNION ALL\<close>: strictly ascending, with these keys.\<close>

definition is_set_of :: "'j row list \<Rightarrow> (nat \<times> int \<times> string \<times> bytes) list set \<Rightarrow> bool" where
  "is_set_of rs K \<longleftrightarrow> sorted_wrt (<) (map row_key rs) \<and> set (map row_key rs) = K"

lemma sort_dedup:
  assumes "list_all orderable_row rs"
  shows "is_set_of (sort_set_rows (dedup [] rs)) (row_key ` set rs)"
proof -
  note d = dedup_keys [OF assms, of "[]"]
  have "set (dedup seen rs) \<subseteq> set rs" for seen
    by (induction seen rs rule: dedup.induct) auto
  then have "list_all orderable_row (dedup [] rs)" using assms unfolding list_all_iff by blast
  from sort_set_rows_keys [OF this] d show ?thesis by (simp add: is_set_of_def)
qed

text \<open>
  C22. For rows without NaN and JSON: \<open>UNION ALL\<close> appends; \<open>UNION\<close>, \<open>INTERSECT\<close> and \<open>EXCEPT\<close>, with or
  without \<open>ALL\<close> for the last two, give the union, the intersection and the difference of the two sets of rows,
  each row once, in ascending order.
\<close>

theorem set_op_correct:
  assumes "list_all orderable_row ls" and "list_all orderable_row rs"
  shows "set_op_rows SetUnion True ls rs = ls @ rs
    \<and> is_set_of (set_op_rows SetUnion False ls rs) (row_key ` set ls \<union> row_key ` set rs)
    \<and> is_set_of (set_op_rows SetIntersect all ls rs) (row_key ` set ls \<inter> row_key ` set rs)
    \<and> is_set_of (set_op_rows SetExcept all ls rs) (row_key ` set ls - row_key ` set rs)"
proof -
  have seen: "seen_in (map row_values rs) r \<longleftrightarrow> row_key r \<in> row_key ` set rs" if "r \<in> set ls" for r
    using seen_in_key [of "map row_values rs" r] assms that
    by (simp add: list_all_iff orderable_row_def row_key_def image_image)
  have f: "list_all orderable_row (filter P ls)" for P using assms(1) by (auto simp: list_all_iff)
  have "row_key ` set (filter (seen_in (map row_values rs)) ls) = row_key ` set ls \<inter> row_key ` set rs"
    "row_key ` set (filter (\<lambda>r. \<not> seen_in (map row_values rs) r) ls) = row_key ` set ls - row_key ` set rs"
    using seen by auto
  with sort_dedup [OF f, of "seen_in (map row_values rs)"]
    sort_dedup [OF f, of "\<lambda>r. \<not> seen_in (map row_values rs) r"] sort_dedup [of "ls @ rs"] assms
  show ?thesis by (simp add: set_op_rows_def image_Un)
qed

theorem set_op_correct_witness:
  "set_op_rows SetExcept False [\<lparr>row_id = i64_of_int 1, row_values = [VText ''b'']\<rparr>,
       \<lparr>row_id = i64_of_int 2, row_values = [VText ''a'']\<rparr>]
     [\<lparr>row_id = i64_of_int 9, row_values = [VText ''b'' :: unit sql_value]\<rparr>]
     = [\<lparr>row_id = i64_of_int 2, row_values = [VText ''a'']\<rparr>]
   \<and> is_set_of (set_op_rows SetExcept False [\<lparr>row_id = i64_of_int 1, row_values = [VText ''b'']\<rparr>,
       \<lparr>row_id = i64_of_int 2, row_values = [VText ''a'']\<rparr>]
     [\<lparr>row_id = i64_of_int 9, row_values = [VText ''b'' :: unit sql_value]\<rparr>]) {[(2, 0, ''a'', [])]}"
  using set_op_correct [of "[\<lparr>row_id = i64_of_int 1, row_values = [VText ''b'']\<rparr>,
       \<lparr>row_id = i64_of_int 2, row_values = [VText ''a'']\<rparr>]"
      "[\<lparr>row_id = i64_of_int 9, row_values = [VText ''b'' :: unit sql_value]\<rparr>]" False]
  by (simp add: set_op_rows_def orderable_row_def row_key_def seen_in_def rows_eq_def value_same_def
      value_eq_key sort_set_rows_def)

section \<open>Aggregates\<close>

text \<open>The accumulator after a list of values.\<close>

definition acc_run :: "'j platform \<Rightarrow> ('j, 'q) agg_expr \<Rightarrow> 'j sql_value list \<Rightarrow> 'j acc" where
  "acc_run pf agg vs = fold (\<lambda>v. acc_update pf agg v None) vs acc_default"

definition int_values :: "i64 option list \<Rightarrow> 'j sql_value list" where
  "int_values xs = map (\<lambda>x. case x of None \<Rightarrow> VNull | Some i \<Rightarrow> VInteger i) xs"

definition int_sum :: "i64 option list \<Rightarrow> int" where
  "int_sum xs = sum_list (map (\<lambda>x. case x of None \<Rightarrow> 0 | Some i \<Rightarrow> int_of_i64 i) xs)"

definition somes :: "i64 option list \<Rightarrow> nat" where
  "somes xs = length (filter (\<lambda>x. x \<noteq> None) xs)"

lemma acc_run_snoc: "acc_run pf agg (vs @ [v]) = acc_update pf agg v None (acc_run pf agg vs)"
  by (simp add: acc_run_def)

lemma sum_run:
  assumes "agg_fn agg = AgSum \<or> agg_fn agg = AgAvg" and "\<not> agg_distinct agg"
    and "\<And>i. Some i \<in> set xs \<Longrightarrow> \<bar>int_of_i64 i\<bar> \<le> 2 ^ 53"
    and "\<And>n. \<bar>int_sum (take n xs)\<bar> \<le> 2 ^ 53"
  shows "f64_is_finite (ac_sum (acc_run pf agg (int_values xs)))
    \<and> f64_val (ac_sum (acc_run pf agg (int_values xs))) = of_int (int_sum xs)
    \<and> ac_count (acc_run pf agg (int_values xs)) = int (somes xs)
    \<and> (ac_sum_seen (acc_run pf agg (int_values xs)) \<longleftrightarrow> 0 < somes xs)"
  using assms(3,4)
proof (induction xs rule: rev_induct)
  case Nil
  show ?case using f64_zero_val [of False] by (simp add: acc_run_def int_values_def acc_default_def int_sum_def somes_def)
next
  case (snoc x xs)
  let ?a = "acc_run pf agg (int_values xs)"
  have "\<bar>int_sum (take n xs)\<bar> \<le> 2 ^ 53" for n
    using snoc.prems(2) [of "min n (length xs)"] by (simp add: min_def split: if_splits)
  then have IH: "f64_is_finite (ac_sum ?a)" "f64_val (ac_sum ?a) = of_int (int_sum xs)"
    "ac_count ?a = int (somes xs)" "ac_sum_seen ?a \<longleftrightarrow> 0 < somes xs"
    using snoc.IH snoc.prems(1) by auto
  have step: "acc_run pf agg (int_values (xs @ [x]))
      = acc_update pf agg (case x of None \<Rightarrow> VNull | Some i \<Rightarrow> VInteger i) None ?a"
    by (simp add: int_values_def acc_run_snoc)
  have nc: "agg_fn agg \<noteq> AgCountStar" using assms(1) by auto
  show ?case
  proof (cases x)
    case None
    have "acc_run pf agg (int_values (xs @ [x])) = ?a" using nc step unfolding None by (simp add: acc_update_def)
    moreover have "int_sum (xs @ [x]) = int_sum xs" "somes (xs @ [x]) = somes xs"
      by (simp_all add: None int_sum_def somes_def)
    ultimately show ?thesis using IH by simp
  next
    case (Some i)
    have i: "\<bar>int_of_i64 i\<bar> \<le> 2 ^ 53" using snoc.prems(1) [of i] Some by simp
    have s: "int_sum (xs @ [x]) = int_sum xs + int_of_i64 i" using Some by (simp add: int_sum_def)
    have rep: "representable (of_int (int_sum xs + int_of_i64 i))"
      using snoc.prems(2) [of "length (xs @ [x])"] s by (intro representable_int) simp
    note f = f64_of_small_i64 [OF i]
    have "f64_is_finite (f64_add (ac_sum ?a) (f64_of_i64 i))"
      "f64_val (f64_add (ac_sum ?a) (f64_of_i64 i)) = of_int (int_sum xs + int_of_i64 i)"
      using f64_add_exact [OF IH(1) f(1)] rep IH(2) f(2) by simp_all
    moreover have "acc_run pf agg (int_values (xs @ [x]))
        = ?a\<lparr>ac_sum := f64_add (ac_sum ?a) (f64_of_i64 i), ac_sum_seen := True, ac_count := ac_count ?a + 1\<rparr>"
      using assms(1,2) step unfolding Some by (auto simp: acc_update_def acc_add_def)
    moreover have "somes (xs @ [x]) = Suc (somes xs)" by (simp add: Some somes_def)
    ultimately show ?thesis using IH(3) s by simp
  qed
qed

lemma count_run:
  assumes "agg_fn agg = AgCount" and "\<not> agg_distinct agg"
  shows "ac_count (acc_run pf agg vs) = int (length (filter (\<lambda>v. \<not> is_null v) vs))"
  by (induction vs rule: rev_induct) (use assms in \<open>simp_all add: acc_run_def acc_default_def acc_update_def acc_add_def\<close>)

lemma count_star_run:
  "agg_fn agg = AgCountStar \<Longrightarrow> ac_count (acc_run pf agg vs) = int (length vs)"
  by (induction vs rule: rev_induct) (simp_all add: acc_run_def acc_default_def acc_update_def)

lemma extreme_run:
  assumes "agg_fn agg = AgMin \<and> dir = Less \<or> agg_fn agg = AgMax \<and> dir = Greater" and "\<not> agg_distinct agg"
    and "list_all orderable vs"
  shows "case ac_extreme (acc_run pf agg vs) of
      None \<Rightarrow> list_all is_null vs
    | Some m \<Rightarrow> m \<in> set vs \<and> \<not> is_null m
        \<and> (\<forall>v\<in>set vs. is_null v \<or> ord_of (value_key v) (value_key m) \<noteq> dir)"
  using assms(3)
proof (induction vs rule: rev_induct)
  case Nil
  show ?case by (simp add: acc_run_def acc_default_def)
next
  case (snoc v vs)
  let ?a = "acc_run pf agg vs"
  have o: "orderable v" "list_all orderable vs" using snoc.prems by simp_all
  have nc: "agg_fn agg \<noteq> AgCountStar" using assms(1) by auto
  show ?case
  proof (cases "is_null v")
    case True
    then have "acc_run pf agg (vs @ [v]) = ?a" using nc by (simp add: acc_run_snoc acc_update_def)
    with snoc.IH [OF o(2)] True show ?thesis by (auto split: option.splits)
  next
    case False
    have step: "acc_run pf agg (vs @ [v]) = acc_extreme dir v ?a"
      using assms(1,2) False by (auto simp: acc_run_snoc acc_update_def acc_add_def)
    show ?thesis
    proof (cases "ac_extreme ?a")
      case None
      with snoc.IH [OF o(2)] False show ?thesis
        using assms(1) by (auto simp: step acc_extreme_def list_all_iff)
    next
      case (Some m)
      with snoc.IH [OF o(2)] have m: "m \<in> set vs" "\<not> is_null m"
        "\<And>u. u \<in> set vs \<Longrightarrow> is_null u \<or> ord_of (value_key u) (value_key m) \<noteq> dir" by auto
      have "orderable m" using m(1) o(2) by (auto simp: list_all_iff)
      then have c: "value_compare v m = Some (ord_of (value_key v) (value_key m))"
        using value_compare_key o(1) m(2) False by blast
      show ?thesis
      proof (cases "ord_of (value_key v) (value_key m) = dir")
        case True
        have "is_null u \<or> ord_of (value_key u) (value_key v) \<noteq> dir" if "u \<in> set vs" for u
          using m(3) [OF that] True assms(1) by auto
        moreover have "ord_of (value_key v) (value_key v) \<noteq> dir" using assms(1) by auto
        ultimately show ?thesis using True Some c False by (auto simp: step acc_extreme_def)
      qed (use m Some c in \<open>auto simp: step acc_extreme_def\<close>)
    qed
  qed
qed

lemma avg_run:
  assumes "agg_fn agg = AgAvg" and "\<not> agg_distinct agg"
    and "\<And>i. Some i \<in> set xs \<Longrightarrow> \<bar>int_of_i64 i\<bar> \<le> 2 ^ 53"
    and "\<And>n. \<bar>int_sum (take n xs)\<bar> \<le> 2 ^ 53" and "int (somes xs) \<le> 2 ^ 53"
  shows "let m = acc_finalize AgAvg (acc_run pf agg (int_values xs)) in
    if somes xs = 0 then m = VNull
    else \<exists>x. m = VReal x \<and> f64_nearest x (of_int (int_sum xs) / of_nat (somes xs))"
proof -
  let ?a = "acc_run pf agg (int_values xs)" and ?n = "f64_of_int (int (somes xs))"
  have a: "f64_is_finite (ac_sum ?a)" "f64_val (ac_sum ?a) = of_int (int_sum xs)" "ac_count ?a = int (somes xs)"
    using sum_run [of agg xs pf] assms(1-4) by auto
  have n: "f64_is_finite ?n" "f64_val ?n = of_nat (somes xs)" using f64_of_int_exact [of "int (somes xs)"] assms(5) by simp_all
  have "f64_nearest (f64_div (ac_sum ?a) ?n) (of_int (int_sum xs) / of_nat (somes xs))" if "somes xs \<noteq> 0"
  proof -
    have s: "\<bar>of_int (int_sum xs) :: real\<bar> \<le> 2 ^ 53"
      using assms(4) [of "length xs"] by (simp flip: of_int_abs)
    have "1 \<le> (of_nat (somes xs) :: real)" using that by simp
    then have "\<bar>of_int (int_sum xs)\<bar> / of_nat (somes xs) \<le> \<bar>of_int (int_sum xs) :: real\<bar> / 1"
      by (intro divide_left_mono) simp_all
    with s have "\<bar>of_int (int_sum xs) / of_nat (somes xs)\<bar> \<le> (2 ^ 53 :: real)" by simp
    from f64_div_nearest [OF a(1) n(1), unfolded a(2) n(2), OF _ this] that show ?thesis by simp
  qed
  then show ?thesis using a(3) by (simp add: acc_finalize_def Let_def)
qed

text \<open>
  C21. Aggregates skip NULLs. Over integers whose partial sums, and number, stay within \<open>2 ^ 53\<close>, \<open>SUM\<close> is the exact
  sum and \<open>AVG\<close> the floating point number nearest to the sum divided by the number of values, or both are NULL when
  every value is NULL; \<open>COUNT\<close> is the number of values that are not NULL and \<open>COUNT( * )\<close> the number of rows; \<open>MIN\<close>
  and \<open>MAX\<close> over values without NaN and JSON are one of the values, with no other value below or above it,
  or NULL when every value is NULL.
\<close>

theorem aggregates_correct:
  fixes pf :: "'j platform" and vs :: "'j sql_value list" and e :: "('j, 'q) expr option"
  assumes "\<And>i. Some i \<in> set xs \<Longrightarrow> \<bar>int_of_i64 i\<bar> \<le> 2 ^ 53" and "\<And>n. \<bar>int_sum (take n xs)\<bar> \<le> 2 ^ 53"
    and "int (somes xs) \<le> 2 ^ 53" and "list_all orderable vs"
  shows "acc_finalize AgSum (acc_run pf (AggExpr AgSum e False None) (int_values xs))
      = (if somes xs = 0 then VNull else VInteger (i64_of_int (int_sum xs)))
    \<and> (let m = acc_finalize AgAvg (acc_run pf (AggExpr AgAvg e False None) (int_values xs)) in
        if somes xs = 0 then m = VNull
        else \<exists>x. m = VReal x \<and> f64_nearest x (of_int (int_sum xs) / of_nat (somes xs)))
    \<and> acc_finalize AgCount (acc_run pf (AggExpr AgCount e False None) vs)
      = VInteger (i64_of_int (int (length (filter (\<lambda>v. \<not> is_null v) vs))))
    \<and> acc_finalize AgCountStar (acc_run pf (AggExpr AgCountStar e False None) vs) = VInteger (i64_of_int (int (length vs)))
    \<and> (\<forall>(f, dir)\<in>{(AgMin, Less), (AgMax, Greater)}.
        let m = acc_finalize f (acc_run pf (AggExpr f e False None) vs) in
        if list_all is_null vs then m = VNull
        else m \<in> set vs \<and> (\<forall>v\<in>set vs. is_null v \<or> ord_of (value_key v) (value_key m) \<noteq> dir))"
proof (intro conjI)
  let ?a = "acc_run pf (AggExpr AgSum e False None) (int_values xs)"
  have f: "f64_is_finite (ac_sum ?a)" "f64_val (ac_sum ?a) = of_int (int_sum xs)" "ac_sum_seen ?a \<longleftrightarrow> 0 < somes xs"
    using sum_run [of "AggExpr AgSum e False None" xs pf] assms(1,2) by auto
  have "\<bar>int_sum xs\<bar> \<le> 2 ^ 53" using assms(2) [of "length xs"] by simp
  from real_or_int_exact [OF f(1,2) this]
  have "(if f64_is_zero (f64_fract (ac_sum ?a)) then VInteger (f64_to_i64 (ac_sum ?a)) else VReal (ac_sum ?a))
      = (VInteger (i64_of_int (int_sum xs)) :: 'j sql_value)"
    by (simp add: real_or_int_def split: if_splits)
  with f(3) show "acc_finalize AgSum ?a = (if somes xs = 0 then VNull else VInteger (i64_of_int (int_sum xs)))"
    by (simp add: acc_finalize_def)
next
  show "let m = acc_finalize AgAvg (acc_run pf (AggExpr AgAvg e False None) (int_values xs)) in
        if somes xs = 0 then m = VNull
        else \<exists>x. m = VReal x \<and> f64_nearest x (of_int (int_sum xs) / of_nat (somes xs))"
    using avg_run [of "AggExpr AgAvg e False None" xs pf] assms(1-3) by simp
next
  have "m = VNull" if "list_all is_null vs" "m \<in> set vs" for m
    using that by (cases m) (auto simp: list_all_iff)
  then show "\<forall>(f, dir)\<in>{(AgMin, Less), (AgMax, Greater)}.
        let m = acc_finalize f (acc_run pf (AggExpr f e False None) vs) in
        if list_all is_null vs then m = VNull
        else m \<in> set vs \<and> (\<forall>v\<in>set vs. is_null v \<or> ord_of (value_key v) (value_key m) \<noteq> dir)"
    using extreme_run [of "AggExpr AgMin e False None" Less vs pf]
      extreme_run [of "AggExpr AgMax e False None" Greater vs pf] assms(4)
    by (auto simp: acc_finalize_def Let_def split: option.splits)
qed (simp_all add: acc_finalize_def count_run count_star_run)

theorem aggregates_correct_witness:
  "acc_finalize AgSum (acc_run test_platform (AggExpr AgSum None False None :: (unit, unit) agg_expr)
     (int_values [Some (i64_of_int 3), None, Some (i64_of_int (-1))])) = VInteger (i64_of_int 2)
   \<and> (\<exists>x. acc_finalize AgAvg (acc_run test_platform (AggExpr AgAvg None False None :: (unit, unit) agg_expr)
     (int_values [Some (i64_of_int 3), None, Some (i64_of_int (-1))])) = VReal x \<and> f64_nearest x 1)"
proof -
  let ?xs = "[Some (i64_of_int 3), None, Some (i64_of_int (-1))]"
  have k: "int_of_i64 (i64_of_int 3) = 3" "int_of_i64 (i64_of_int (-1)) = -1"
    by (simp_all add: int_of_i64_of_int i64_min_def i64_max_def)
  have "\<bar>int_of_i64 i\<bar> \<le> 2 ^ 53" if "Some i \<in> set ?xs" for i using that k by auto
  moreover have "\<bar>int_sum (take n ?xs)\<bar> \<le> 2 ^ 53" for n
    by (cases n; cases "n - 1"; cases "n - 2") (auto simp: int_sum_def k take_Cons split: nat.split)
  ultimately show ?thesis
    using aggregates_correct [of ?xs "[]" test_platform "None :: (unit, unit) expr option"]
    by (simp add: int_sum_def somes_def k)
qed

lemma big_real:
  "f64_to_i64 (f64_add (f64_zero False) (f64_of_int (10 ^ 19))) = i64_of_int i64_max"
  "f64_is_zero (f64_fract (f64_add (f64_zero False) (f64_of_int (10 ^ 19))))"
proof -
  let ?x = "f64_add (f64_zero False) (f64_of_int (10 ^ 19))"
  have "representable (of_int (10 ^ 19))"
    unfolding representable_def by (rule exI [of _ "5 ^ 19"], rule exI [of _ 19]) simp
  then have x: "f64_is_finite ?x" "f64_val ?x = of_int (10 ^ 19)"
    using f64_of_ratio_exact [of "10 ^ 19" 1 False] f64_add_exact [of "f64_zero False" "f64_of_int (10 ^ 19)"]
      f64_zero_val [of False] by (simp_all add: f64_of_int_def)
  show "f64_is_zero (f64_fract ?x)" using x by (rule f64_fract_integral)
  show "f64_to_i64 ?x = i64_of_int i64_max"
    using f64_to_int_integral [OF x, of i64_min i64_max] by (simp add: f64_to_i64_def i64_min_def i64_max_def)
qed

text \<open>
  \<open>SUM\<close> of reals whose total has no fraction is an integer, and a total beyond the
  integers is cut off without an error: the sum of the one real \<open>10 ^ 19\<close> is the largest integer.
\<close>

theorem sum_saturates:
  "acc_finalize AgSum (acc_run pf (AggExpr AgSum e False None) [VReal (f64_of_int (10 ^ 19))])
    = VInteger (i64_of_int i64_max)"
  using big_real by (simp add: acc_run_def acc_default_def acc_update_def acc_add_def acc_finalize_def)

text \<open>
  Beside an aggregate, a constant is lost when there is no row to take it from: over an
  empty input, and in a \<open>SELECT\<close> without \<open>FROM\<close> whose one row has no columns, the output
  column of the literal \<open>v\<close> is NULL, although the literal alone gives \<open>v\<close>.
\<close>

theorem constant_beside_aggregate_lost:
  "plan_rows pf params T (PAggregate PDual [] [AggExpr AgCountStar None False None]
      [OutExpr (ELiteral v), OutAgg 0] columns 0 None)
    = Ok [\<lparr>row_id = i64_of_int 0, row_values = [VNull, VInteger (i64_of_int 1)]\<rparr>]
   \<and> plan_rows pf params T (PProject PDual [ELiteral v] columns)
    = Ok [\<lparr>row_id = i64_of_int 0, row_values = [v]\<rparr>]"
proof -
  have "keys_eq [] []" by (simp add: keys_eq_def)
  then show ?thesis
    by (simp add: run_pure_def agg_rows_def add_to_groups_def eval_opt_def eval_sep_def position.simps order_groups_def
        group_new_def acc_default_def acc_update_def group_passes_def acc_finalize_def index_at_def
        project_row_def Let_def ev_return_def ev_bind_def ev_lift_def)
qed

end
