(* ===== verification/BTreeWrite.thy ===== *)
theory BTreeWrite
  imports BTreeRead
begin

text \<open>
  The writing side of the b-tree, for every page store that honours the contract: what
  \<open>insert\<close> and \<open>delete\<close> of \<open>squrust-core/src/btree/mod.rs\<close> do to the tree that a root page stands
  for. A call changes only pages of its tree and pages the store had free, keeps the root
  page, and leaves a tree whose entries are the old ones with one inserted, replaced or
  removed. The cells must be small: with larger ones a split can fail.
\<close>

text \<open>Reading leaves the free pages as they are.\<close>

sublocale page_store \<subseteq> keep: page_reader S "\<lambda>s. inv s \<and> avail s = A" view for A
proof
  fix s p b assume "inv s \<and> avail s = A" and "view s p = Some b"
  with get_law [of s p b] get_avail show "\<exists>page s'. po_get S s p = Ok (page, s') \<and> rp_id page = p \<and> page_wf page
      \<and> page_body p (rp_data page) = b \<and> (inv s' \<and> avail s' = A) \<and> view s' = view s"
    by blast
qed

section \<open>Forests\<close>

definition fpages :: "btree list \<Rightarrow> page_id list" where
  "fpages ts = concat (map pages ts)"

lemma fpages_simps [simp]:
  "fpages [] = []" "fpages (t # ts) = pages t @ fpages ts" "fpages (ts @ us) = fpages ts @ fpages us"
  by (simp_all add: fpages_def)

lemma pages_kids: "pages (TNode p cs r) = p # fpages (kids cs r)"
  by (induction cs) auto

lemma fpages_mem: "t \<in> set ts \<Longrightarrow> set (pages t) \<subseteq> set (fpages ts)"
  by (auto simp: fpages_def)

definition forest_ok :: "(page_id \<Rightarrow> bytes option) \<Rightarrow> page_id set \<Rightarrow> btree list \<Rightarrow> bool" where
  "forest_ok vw av ts \<longleftrightarrow> (\<forall>t\<in>set ts. tree_rep vw t) \<and> distinct (fpages ts) \<and> set (fpages ts) \<inter> av = {}"

lemma forest_rep_cong:
  assumes "\<forall>t\<in>set ts. tree_rep vw t" and "\<And>q. q \<in> set (fpages ts) \<Longrightarrow> vw' q = vw q"
  shows "\<forall>t\<in>set ts. tree_rep vw' t"
proof
  fix t assume t: "t \<in> set ts"
  then have "tree_rep vw' t = tree_rep vw t" using assms(2) fpages_mem [OF t] by (intro tree_rep_cong) auto
  with t assms(1) show "tree_rep vw' t" by simp
qed

text \<open>The one or two trees an insertion leaves, by its result.\<close>

definition split_trees :: "split_info option \<Rightarrow> int \<Rightarrow> int \<Rightarrow> btree list \<Rightarrow> bool" where
  "split_trees r lo hi ts \<longleftrightarrow>
     (case r of
        None \<Rightarrow> \<exists>t. ts = [t] \<and> ordered lo hi t
      | Some sp \<Rightarrow> let k = int_of_i64 (sp_sep_key sp) in
          \<exists>t u. ts = [t, u] \<and> ordered lo k t \<and> ordered k hi u \<and> lo \<le> k \<and> k \<le> hi \<and> root_of u = sp_right_page sp)"

text \<open>
  \<open>stored vw av P lo hi p es n r ts\<close>: the trees \<open>ts\<close> with root page \<open>p\<close> hold the entries
  \<open>es\<close> between \<open>lo\<close> and \<open>hi\<close> on pages of \<open>P\<close>, within height \<open>n\<close>.
\<close>

definition stored ::
    "(page_id \<Rightarrow> bytes option) \<Rightarrow> page_id set \<Rightarrow> page_id set \<Rightarrow> int \<Rightarrow> int \<Rightarrow> page_id \<Rightarrow> entry list \<Rightarrow> nat
     \<Rightarrow> split_info option \<Rightarrow> btree list \<Rightarrow> bool" where
  "stored vw av P lo hi p es n r ts \<longleftrightarrow>
     forest_ok vw av ts \<and> split_trees r lo hi ts \<and> ts \<noteq> [] \<and> root_of (hd ts) = p
     \<and> trees_entries ts = es \<and> (\<forall>t\<in>set ts. height t \<le> n)
     \<and> set (fpages ts) \<subseteq> P \<and> 1 \<notin> set (tl (fpages ts))"

abbreviation split_cost :: "split_info option \<Rightarrow> nat" where
  "split_cost r \<equiv> (if r = None then 0 else 1)"

section \<open>Storing a leaf\<close>

lemma leaf_used_cells:
  "leaf_used \<lparr>ln_cells = cs\<rparr> p = header_offset p + 8 + length cs * 2 + cells_size cs"
  by (simp add: leaf_used_def cells_size_def)

abbreviation chains :: "entry list \<Rightarrow> page_id list" where
  "chains es \<equiv> concat (map entry_chain es)"

abbreviation cells_rep :: "(page_id \<Rightarrow> bytes option) \<Rightarrow> entry list \<Rightarrow> bool" where
  "cells_rep vw es \<equiv> \<forall>e\<in>set es. cell_rep vw (fst e) (entry_val e) (entry_chain e) \<and> encoded_len (fst e) \<le> SMALL_CELL"

lemma cells_rep_cong:
  assumes "cells_rep vw es" and "\<And>q. q \<in> set (chains es) \<Longrightarrow> vw' q = vw q"
  shows "cells_rep vw' es"
proof
  fix e assume e: "e \<in> set es"
  then have "cell_rep vw' (fst e) (entry_val e) (entry_chain e) = cell_rep vw (fst e) (entry_val e) (entry_chain e)"
    using assms(2) by (intro cell_rep_cong) auto
  with e assms(1) show "cell_rep vw' (fst e) (entry_val e) (entry_chain e) \<and> encoded_len (fst e) \<le> SMALL_CELL" by simp
qed

lemma cells_wf: "cells_rep vw es \<Longrightarrow> node_wf (NLeaf \<lparr>ln_cells = map fst es\<rparr>)"
  by (auto simp: node_wf_def list_all_iff cell_rep_def)

lemma split_leaf_entries:
  assumes "cells_rep vw es" and "sorted_wrt (<) (map entry_key es)"
    and "leaf_used \<lparr>ln_cells = map fst es\<rparr> p \<le> PAGE_SIZE + SMALL_CELL + 2"
    and "\<not> leaf_fits \<lparr>ln_cells = map fst es\<rparr> p" and "q \<noteq> 1"
  shows "\<exists>es1 es2 sep. split_leaf \<lparr>ln_cells = map fst es\<rparr> =
        Ok (\<lparr>ln_cells = map fst es1\<rparr>, \<lparr>ln_cells = map fst es2\<rparr>, sep)
     \<and> es = es1 @ es2 \<and> leaf_fits \<lparr>ln_cells = map fst es1\<rparr> p \<and> leaf_fits \<lparr>ln_cells = map fst es2\<rparr> q
     \<and> (\<exists>e\<in>set es1. sep = entry_key e) \<and> (\<forall>e\<in>set es1. entry_key e \<le> sep) \<and> (\<forall>e\<in>set es2. sep < entry_key e)"
proof -
  let ?leaf = "\<lparr>ln_cells = map fst es\<rparr>"
  obtain l r sep where lr: "split_leaf ?leaf = Ok (l, r, sep)" "leaf_fits l p" "leaf_fits r q"
    using split_leaf_fits [of ?leaf p q] assms by auto
  then have two: "2 \<le> length (ln_cells ?leaf)" by (auto simp: split_leaf_def Let_def split: if_splits)
  obtain ls rs where p: "split_leaf ?leaf = Ok (\<lparr>ln_cells = ls\<rparr>, \<lparr>ln_cells = rs\<rparr>, lc_rowid (last ls))"
      "ln_cells ?leaf = ls @ rs" "ls \<noteq> []" "rs \<noteq> []"
    using two by (rule split_leaf_parts)
  define es1 where "es1 = take (length ls) es"
  define es2 where "es2 = drop (length ls) es"
  have es: "es = es1 @ es2" by (simp add: es1_def es2_def)
  have m: "map fst es1 = ls" "map fst es2 = rs"
    using p(2) by (simp_all add: es1_def es2_def take_map [symmetric] drop_map [symmetric])
  then have ne: "es1 \<noteq> []" using p(3) by auto
  then obtain xs x where x: "es1 = xs @ [x]" by (metis rev_exhaust)
  have sep: "sep = entry_key x" using lr(1) p(1) m(1) x by auto
  have "sorted_wrt (<) (map entry_key xs @ entry_key x # map entry_key es2)"
    using assms(2) unfolding es x by simp
  then have "\<forall>e\<in>set es1. entry_key e \<le> sep" "\<forall>e\<in>set es2. sep < entry_key e"
    using sep x by (auto simp: sorted_wrt_append)
  moreover have "l = \<lparr>ln_cells = map fst es1\<rparr>" "r = \<lparr>ln_cells = map fst es2\<rparr>" using lr(1) p(1) m by auto
  ultimately show ?thesis using lr es sep x by (intro exI [of _ es1] exI [of _ es2] exI [of _ sep]) auto
qed

context page_store begin

lemma store_leaf_ok:
  assumes "inv s" and p: "p \<noteq> 0" and rep: "cells_rep (view s) es"
    and srt: "sorted_wrt (<) (map entry_key es)" and bnd: "in_bounds lo hi es"
    and used: "leaf_used \<lparr>ln_cells = map fst es\<rparr> p \<le> PAGE_SIZE + SMALL_CELL + 2"
    and dist: "distinct (p # chains es)" and disj: "set (p # chains es) \<inter> avail s = {}"
    and av: "avail s \<noteq> {}"
  shows "\<exists>r s' ts. store_leaf S s p \<lparr>ln_cells = map fst es\<rparr> = Ok (r, s') \<and> inv s'
     \<and> stored (view s') (avail s') (set (p # chains es) \<union> avail s) lo hi p es 0 r ts
     \<and> avail s' \<subseteq> avail s \<and> card (avail s) \<le> card (avail s') + split_cost r
     \<and> (\<forall>q. q \<noteq> p \<longrightarrow> q \<notin> avail s \<longrightarrow> view s' q = view s q)"
proof -
  let ?leaf = "\<lparr>ln_cells = map fst es\<rparr>"
  have one: "1 \<notin> set (chains es)" using rep cell_rep_chain_nz by fastforce
  show ?thesis
  proof (cases "leaf_fits ?leaf p")
    case True
    then obtain s' b where w: "write_node S s p (NLeaf ?leaf) = Ok s'" "node_at p b (NLeaf ?leaf)" "inv s'"
        "avail s' = avail s" "view s' = (view s)(p \<mapsto> b)"
      using write_node_ok [OF assms(1) p, of "NLeaf ?leaf"] cells_wf [OF rep] by (auto simp: node_fits_def)
    have "cells_rep (view s') es" by (rule cells_rep_cong [OF rep]) (use w(5) dist in auto)
    then have "tree_rep (view s') (TLeaf p es)" using p True w(2,5) by simp
    then have "stored (view s') (avail s') (set (p # chains es) \<union> avail s) lo hi p es 0 None [TLeaf p es]"
      using dist disj srt bnd w(4) one
      by (simp add: stored_def forest_ok_def split_trees_def) blast
    moreover have "store_leaf S s p ?leaf = Ok (None, s')" using True w(1) by (simp add: store_leaf_def)
    ultimately show ?thesis using w by (intro exI [of _ None] exI [of _ s'] exI [of _ "[TLeaf p es]"]) auto
  next
    case False
    obtain rp s1 where a: "po_alloc S s = Ok (rp, s1)" "rp \<in> avail s" "inv s1" "view s1 = view s"
        "avail s1 = avail s - {rp}"
      using alloc_law [OF assms(1) av] by blast
    have rp: "rp \<noteq> 0" "rp \<noteq> 1" using avail_valid [OF assms(1) a(2)] by auto
    have rpo: "rp \<noteq> p" "rp \<notin> set (chains es)" using disj a(2) by auto
    obtain es1 es2 sep where sp: "split_leaf ?leaf = Ok (\<lparr>ln_cells = map fst es1\<rparr>, \<lparr>ln_cells = map fst es2\<rparr>, sep)"
        "es = es1 @ es2" "leaf_fits \<lparr>ln_cells = map fst es1\<rparr> p" "leaf_fits \<lparr>ln_cells = map fst es2\<rparr> rp"
        "\<exists>e\<in>set es1. sep = entry_key e" "\<forall>e\<in>set es1. entry_key e \<le> sep" "\<forall>e\<in>set es2. sep < entry_key e"
      using split_leaf_entries [OF rep srt used False rp(2)] by blast
    have r12: "cells_rep (view s) es1" "cells_rep (view s) es2" using rep sp(2) by auto
    obtain s2 b1 where w1: "write_node S s1 p (NLeaf \<lparr>ln_cells = map fst es1\<rparr>) = Ok s2"
        "node_at p b1 (NLeaf \<lparr>ln_cells = map fst es1\<rparr>)" "inv s2" "avail s2 = avail s1" "view s2 = (view s)(p \<mapsto> b1)"
      using write_node_ok [OF a(3) p, of "NLeaf \<lparr>ln_cells = map fst es1\<rparr>"] cells_wf [OF r12(1)] sp(3) a(4)
      by (auto simp: node_fits_def)
    obtain s' b2 where w2: "write_node S s2 rp (NLeaf \<lparr>ln_cells = map fst es2\<rparr>) = Ok s'"
        "node_at rp b2 (NLeaf \<lparr>ln_cells = map fst es2\<rparr>)" "inv s'" "avail s' = avail s - {rp}"
        "view s' = (view s)(p \<mapsto> b1, rp \<mapsto> b2)"
      using write_node_ok [OF w1(3) rp(1), of "NLeaf \<lparr>ln_cells = map fst es2\<rparr>"] cells_wf [OF r12(2)] sp(4) w1(4,5) a(5)
      by (auto simp: node_fits_def)
    let ?r = "Some \<lparr>sp_sep_key = sep, sp_right_page = rp\<rparr>" and ?ts = "[TLeaf p es1, TLeaf rp es2]"
    have "cells_rep (view s') es" by (rule cells_rep_cong [OF rep]) (use w2(5) dist rpo in auto)
    then have reps: "tree_rep (view s') (TLeaf p es1)" "tree_rep (view s') (TLeaf rp es2)"
      using p rp rpo sp(2-4) w1(2) w2(2,5) by auto
    have "ordered lo (int_of_i64 sep) (TLeaf p es1)"
      using srt bnd sp(2,6) by (simp add: sorted_wrt_append less_eq_i64_def)
    moreover have "ordered (int_of_i64 sep) hi (TLeaf rp es2)"
      using srt bnd sp(2,7) by (simp add: sorted_wrt_append less_i64_def)
    moreover obtain x where "x \<in> set es" "sep = entry_key x" using sp(2,5) by auto
    then have "lo \<le> int_of_i64 sep" "int_of_i64 sep \<le> hi" using bnd less_imp_le by blast+
    ultimately have split: "split_trees ?r lo hi ?ts" by (simp add: split_trees_def Let_def)
    have ch: "chains es = chains es1 @ chains es2" using sp(2) by simp
    have "forest_ok (view s') (avail s') ?ts"
      using reps dist disj rpo w2(4) unfolding forest_ok_def ch by auto
    moreover have "set (fpages ?ts) \<subseteq> set (p # chains es) \<union> avail s" unfolding ch using a(2) by auto
    moreover have "1 \<notin> set (tl (fpages ?ts))" using one rp unfolding ch by simp
    ultimately have st: "stored (view s') (avail s') (set (p # chains es) \<union> avail s) lo hi p es 0 ?r ?ts"
      using split sp(2) by (simp add: stored_def)
    show ?thesis
    proof (intro exI conjI)
      show "store_leaf S s p ?leaf = Ok (?r, s')"
        using False sp(1) a(1) w1(1) w2(1) by (simp add: store_leaf_def)
      show "card (avail s) \<le> card (avail s') + split_cost ?r"
        using w2(4) a(2) by (simp add: card_Diff_singleton)
      show "\<forall>q. q \<noteq> p \<longrightarrow> q \<notin> avail s \<longrightarrow> view s' q = view s q" using w2(5) a(2) by auto
      show "avail s' \<subseteq> avail s" using w2(4) by simp
    qed (rule w2(3), rule st)
  qed
qed

end

section \<open>Storing an interior node\<close>

lemma kids_append [simp]: "kids (as @ c # bs) r = map fst as @ fst c # kids bs r"
  by (simp add: kids_def)

lemma fpages_kids_append: "fpages (kids (as @ c # bs) r) = fpages (map fst as) @ pages (fst c) @ fpages (kids bs r)"
  by simp

lemma tree_rep_node:
  "tree_rep vw (TNode p cs r) \<longleftrightarrow>
     p \<noteq> 0 \<and> (\<exists>b. vw p = Some b \<and> node_at p b (NInterior (inode cs r)))
     \<and> interior_fits (inode cs r) p \<and> (\<forall>t\<in>set (kids cs r). tree_rep vw t)"
  by (auto simp: kids_def)

lemma height_kids: "height (TNode p cs r) \<le> Suc n \<longleftrightarrow> (\<forall>t\<in>set (kids cs r). height t \<le> n)"
  by (auto simp: height_TNode_le kids_def)

lemma split_interior_kids:
  assumes "\<not> interior_fits (inode cs r) p" and "interior_used (inode cs r) p \<le> PAGE_SIZE + 15" and "q \<noteq> 1"
  obtains as t k bs where "cs = as @ (t, k) # bs"
    "split_interior (inode cs r) = Ok (inode as t, inode bs r, k)"
    "interior_fits (inode as t) p" "interior_fits (inode bs r) q"
proof -
  obtain l n k where s: "split_interior (inode cs r) = Ok (l, n, k)"
      "in_cells (inode cs r) = in_cells l @ (in_right_child l, k) # in_cells n"
      "in_right_child n = in_right_child (inode cs r)" "interior_fits l p" "interior_fits n q"
    using split_interior_fits [OF assms] by blast
  from s(2) obtain as c bs where c: "cs = as @ c # bs"
      "in_cells l = map (\<lambda>c. (root_of (fst c), snd c)) as" "in_right_child l = root_of (fst c)" "snd c = k"
      "in_cells n = map (\<lambda>c. (root_of (fst c), snd c)) bs"
    by (auto simp: inode_def map_eq_append_conv map_eq_Cons_conv)
  have "l = inode as (fst c)" "n = inode bs r" using c s(3) by (auto simp: inode_def)
  then show thesis using that [of as "fst c" k bs] c s by (cases c) auto
qed

lemma ordered_split:
  assumes "ordered lo hi (TNode p (as @ (t, k) # bs) r)"
  shows "ordered lo (int_of_i64 k) (TNode p as t)" "ordered (int_of_i64 k) hi (TNode q bs r)"
    "lo \<le> int_of_i64 k" "int_of_i64 k \<le> hi"
  using assms kids_ordered_bound [of lo as] kids_ordered_bound [of "int_of_i64 k" bs] by auto

lemma stored_one:
  assumes "tree_rep vw t" and "ordered lo hi t" and "distinct (pages t)" and "set (pages t) \<inter> av = {}"
    and "set (pages t) \<subseteq> P" and "1 \<notin> set (tl (pages t))" and "height t \<le> n"
  shows "stored vw av P lo hi (root_of t) (entries t) n None [t]"
  using assms by (simp add: stored_def forest_ok_def split_trees_def)

lemma stored_two:
  assumes "tree_rep vw t" and "tree_rep vw u" and "ordered lo (int_of_i64 k) t" and "ordered (int_of_i64 k) hi u"
    and "lo \<le> int_of_i64 k" and "int_of_i64 k \<le> hi" and "distinct (pages t @ pages u)"
    and "set (pages t @ pages u) \<inter> av = {}" and "set (pages t @ pages u) \<subseteq> P"
    and "1 \<notin> set (tl (pages t))" and "1 \<notin> set (pages u)" and "height t \<le> n" and "height u \<le> n"
  shows "stored vw av P lo hi (root_of t) (entries t @ entries u) n
    (Some \<lparr>sp_sep_key = k, sp_right_page = root_of u\<rparr>) [t, u]"
proof -
  have "tl (pages t @ pages u) = tl (pages t) @ pages u" by (subst (1 2) pages_root [of t]) simp
  then show ?thesis using assms by (auto simp: stored_def forest_ok_def split_trees_def Let_def)
qed

context page_store begin

lemma store_interior_ok:
  assumes "inv s" and p: "p \<noteq> 0" and rep: "\<forall>t\<in>set (kids cs r). tree_rep (view s) t"
    and ord: "ordered lo hi (TNode p cs r)" and used: "interior_used (inode cs r) p \<le> PAGE_SIZE + 15"
    and dist: "distinct (p # fpages (kids cs r))" and disj: "set (p # fpages (kids cs r)) \<inter> avail s = {}"
    and one: "1 \<notin> set (fpages (kids cs r))" and hgt: "\<forall>t\<in>set (kids cs r). height t \<le> n"
    and av: "avail s \<noteq> {}"
  shows "\<exists>res s' ts. store_interior S s p (inode cs r) = Ok (res, s') \<and> inv s'
     \<and> stored (view s') (avail s') (set (p # fpages (kids cs r)) \<union> avail s) lo hi p (trees_entries (kids cs r)) (Suc n) res ts
     \<and> avail s' \<subseteq> avail s \<and> card (avail s) \<le> card (avail s') + split_cost res
     \<and> (\<forall>q. q \<noteq> p \<longrightarrow> q \<notin> avail s \<longrightarrow> view s' q = view s q)"
proof (cases "interior_fits (inode cs r) p")
  case True
  obtain s' b where w: "write_node S s p (NInterior (inode cs r)) = Ok s'" "node_at p b (NInterior (inode cs r))"
      "inv s'" "avail s' = avail s" "view s' = (view s)(p \<mapsto> b)"
    using write_node_ok [OF assms(1) p, of "NInterior (inode cs r)"] True by (auto simp: node_fits_def node_wf_def)
  have "\<forall>t\<in>set (kids cs r). tree_rep (view s') t"
    by (rule forest_rep_cong [OF rep]) (use w(5) dist in auto)
  then have "tree_rep (view s') (TNode p cs r)" using p True w(2,5) unfolding tree_rep_node by simp
  from stored_one [OF this ord, of "avail s'" "set (p # fpages (kids cs r)) \<union> avail s" "Suc n"]
  have "stored (view s') (avail s') (set (p # fpages (kids cs r)) \<union> avail s) lo hi p (trees_entries (kids cs r)) (Suc n) None
      [TNode p cs r]"
    using dist disj one hgt w(4) height_kids unfolding pages_kids entries_kids by auto
  moreover have "store_interior S s p (inode cs r) = Ok (None, s')" using True w(1) by (simp add: store_interior_def)
  ultimately show ?thesis using w by (intro exI [of _ None] exI [of _ s'] exI [of _ "[TNode p cs r]"]) auto
next
  case False
  obtain rp s1 where a: "po_alloc S s = Ok (rp, s1)" "rp \<in> avail s" "inv s1" "view s1 = view s"
      "avail s1 = avail s - {rp}"
    using alloc_law [OF assms(1) av] by blast
  have rp: "rp \<noteq> 0" "rp \<noteq> 1" using avail_valid [OF assms(1) a(2)] by auto
  obtain as t k bs where sp: "cs = as @ (t, k) # bs" "split_interior (inode cs r) = Ok (inode as t, inode bs r, k)"
      "interior_fits (inode as t) p" "interior_fits (inode bs r) rp"
    using split_interior_kids [OF False used rp(2)] by blast
  let ?L = "TNode p as t" and ?R = "TNode rp bs r"
  have rpo: "rp \<noteq> p" "rp \<notin> set (fpages (kids cs r))" using disj a(2) by auto
  have k: "kids cs r = kids as t @ kids bs r" using sp(1) by (simp add: kids_def)
  obtain s2 b1 where w1: "write_node S s1 p (NInterior (inode as t)) = Ok s2"
      "node_at p b1 (NInterior (inode as t))" "inv s2" "avail s2 = avail s1" "view s2 = (view s)(p \<mapsto> b1)"
    using write_node_ok [OF a(3) p, of "NInterior (inode as t)"] sp(3) a(4) by (auto simp: node_fits_def node_wf_def)
  obtain s' b2 where w2: "write_node S s2 rp (NInterior (inode bs r)) = Ok s'"
      "node_at rp b2 (NInterior (inode bs r))" "inv s'" "avail s' = avail s - {rp}" "view s' = (view s)(p \<mapsto> b1, rp \<mapsto> b2)"
    using write_node_ok [OF w1(3) rp(1), of "NInterior (inode bs r)"] sp(4) w1(4,5) a(5) by (auto simp: node_fits_def node_wf_def)
  have "\<forall>t\<in>set (kids cs r). tree_rep (view s') t"
    by (rule forest_rep_cong [OF rep]) (use w2(5) dist rpo in auto)
  then have reps: "tree_rep (view s') ?L" "tree_rep (view s') ?R"
    using p rp rpo sp(3,4) w1(2) w2(2,5) unfolding tree_rep_node k by auto
  have h: "height ?L \<le> Suc n" "height ?R \<le> Suc n" using hgt unfolding height_kids k by auto
  let ?r = "Some \<lparr>sp_sep_key = k, sp_right_page = rp\<rparr>"
  have "stored (view s') (avail s') (set (p # fpages (kids cs r)) \<union> avail s) lo hi (root_of ?L) (entries ?L @ entries ?R) (Suc n)
      (Some \<lparr>sp_sep_key = k, sp_right_page = root_of ?R\<rparr>) [?L, ?R]"
  proof (rule stored_two [OF reps])
    show "distinct (pages ?L @ pages ?R)" using dist rpo unfolding pages_kids k by auto
    show "set (pages ?L @ pages ?R) \<inter> avail s' = {}" using disj w2(4) unfolding pages_kids k by auto
    show "set (pages ?L @ pages ?R) \<subseteq> set (p # fpages (kids cs r)) \<union> avail s"
      using a(2) unfolding pages_kids k by auto
    show "1 \<notin> set (tl (pages ?L))" "1 \<notin> set (pages ?R)" using one rp unfolding pages_kids k by auto
  qed (use ordered_split [OF ord [unfolded sp(1)]] h in auto)
  then have st: "stored (view s') (avail s') (set (p # fpages (kids cs r)) \<union> avail s) lo hi p (trees_entries (kids cs r)) (Suc n)
      ?r [?L, ?R]"
    unfolding entries_kids k by simp
  show ?thesis
  proof (intro exI conjI)
    show "store_interior S s p (inode cs r) = Ok (?r, s')"
      using False sp(2) a(1) w1(1) w2(1) by (simp add: store_interior_def)
    show "card (avail s) \<le> card (avail s') + split_cost ?r"
      using w2(4) a(2) by (simp add: card_Diff_singleton)
    show "\<forall>q. q \<noteq> p \<longrightarrow> q \<notin> avail s \<longrightarrow> view s' q = view s q" using w2(5) a(2) by auto
    show "avail s' \<subseteq> avail s" using w2(4) by simp
  qed (rule w2(3), rule st)
qed

end

section \<open>Inserting a cell\<close>

text \<open>The cells of a leaf with one entry inserted or replaced, and the chain that is released.\<close>

lemma filter_sorted_split:
  assumes "\<forall>x\<in>set xs. entry_key x < k" and "\<forall>x\<in>set ys. k < entry_key x"
  shows "filter (\<lambda>x. entry_key x < k) (xs @ ys) = xs" "filter (\<lambda>x. k < entry_key x) (xs @ ys) = ys"
  using assms by (auto simp: filter_id_conv filter_empty_conv dest: less_asym)

lemma leaf_place_entries:
  assumes "sorted_wrt (<) (map entry_key es)" and "leaf_place \<lparr>ln_cells = map fst es\<rparr> (fst e) = (leaf', freed)"
  obtains (new) xs ys where "es = xs @ ys" "ins_entry e es = xs @ e # ys" "leaf' = \<lparr>ln_cells = map fst (ins_entry e es)\<rparr>" "freed = 0"
  | (old) xs old ys where "es = xs @ old # ys" "ins_entry e es = xs @ e # ys" "leaf' = \<lparr>ln_cells = map fst (ins_entry e es)\<rparr>"
      "freed = lc_overflow (fst old)"
  using assms(1)
proof (cases rule: leaf_search_cases [where k = "entry_key e"])
  case (found i)
  let ?xs = "take i es" and ?ys = "drop (Suc i) es"
  have es: "es = ?xs @ es ! i # ?ys" by (rule id_take_nth_drop [OF found(2)])
  have "sorted_wrt (<) (map entry_key ?xs @ entry_key e # map entry_key ?ys)"
    using assms(1) found(3) by (subst (asm) es) simp
  then have lt: "\<forall>x\<in>set ?xs. entry_key x < entry_key e" and gt: "\<forall>x\<in>set ?ys. entry_key e < entry_key x"
    by (auto simp: sorted_wrt_append)
  have "filter (\<lambda>x. entry_key x < entry_key e) es = ?xs" "filter (\<lambda>x. entry_key e < entry_key x) es = ?ys"
    using filter_sorted_split [OF lt gt] found(3) by (subst es; simp)+
  then have ins: "ins_entry e es = ?xs @ e # ?ys" by (simp add: ins_entry_def)
  have "(map fst es)[i := fst e] = map fst (?xs @ e # ?ys)"
    using found(2) by (simp add: upd_conv_take_nth_drop take_map drop_map)
  then show thesis using old [OF es ins] assms(2) found(1,2) ins by (simp add: leaf_place_def)
next
  case (absent i)
  let ?xs = "take i es" and ?ys = "drop i es"
  have "filter (\<lambda>x. entry_key x < entry_key e) (?xs @ ?ys) = ?xs" "filter (\<lambda>x. entry_key e < entry_key x) (?xs @ ?ys) = ?ys"
    using filter_sorted_split [OF absent(3,4)] by blast+
  then have ins: "ins_entry e es = ?xs @ e # ?ys" by (simp add: ins_entry_def)
  then show thesis using new [of ?xs ?ys] assms(2) absent(1) by (simp add: leaf_place_def vec_insert_def take_map drop_map)
qed

lemma ins_sorted:
  assumes "sorted_wrt (<) (map entry_key es)"
  shows "sorted_wrt (<) (map entry_key (ins_entry e es))"
proof -
  have "sorted_wrt (<) (map entry_key (filter P es))" for P
    using assms by (simp add: sorted_wrt_map sorted_wrt_filter)
  then show ?thesis by (fastforce simp: ins_entry_def sorted_wrt_append)
qed

lemma set_ins: "set (ins_entry e es) \<subseteq> insert e (set es)"
  by (auto simp: ins_entry_def)

lemma stored_cong:
  assumes "stored vw av P lo hi p es n r ts" and "\<And>q. q \<in> set (fpages ts) \<Longrightarrow> vw' q = vw q"
    and "set (fpages ts) \<inter> av' = {}" and "set (fpages ts) \<subseteq> P'"
  shows "stored vw' av' P' lo hi p es n r ts"
  using assms forest_rep_cong [of ts vw vw'] by (simp add: stored_def forest_ok_def)

text \<open>The node around the child that took the cell.\<close>

lemma inode_used_Suc:
  "interior_used (inode (as @ (t1, sep) # (t2, k) # bs) r) p \<le> interior_used (inode (as @ (t, k) # bs) r') p + 15"
  "interior_used (inode (cs @ [(t1, sep)]) r) p \<le> interior_used (inode cs r') p + 15"
  using cell_len_bounds(2) [of sep] by (simp_all add: interior_used_eq inode_def)

lemma place_split_cell:
  assumes "root_of t1 = root_of t" and "root_of t2 = sp_right_page sp"
  shows "place_split (inode (as @ (t, k) # bs) r) (Some (length as)) (root_of t) sp
    = inode (as @ (t1, sp_sep_key sp) # (t2, k) # bs) r"
  using assms list_update_length [of "map (\<lambda>c. (root_of (fst c), snd c)) as"]
  by (simp add: place_split_def inode_def vec_insert_def nth_append Let_def)

lemma place_split_right:
  assumes "root_of t1 = root_of r" and "root_of t2 = sp_right_page sp"
  shows "place_split (inode cs r) None (root_of r) sp = inode (cs @ [(t1, sp_sep_key sp)]) t2"
  using assms by (simp add: place_split_def inode_def)

definition grafted ::
    "(btree \<times> i64) list \<Rightarrow> btree \<Rightarrow> i64 \<Rightarrow> page_id \<Rightarrow> split_info option \<Rightarrow> (btree \<times> i64) list \<Rightarrow> btree \<Rightarrow> bool" where
  "grafted cs r rowid p res cs' r' \<longleftrightarrow>
     (let nd = inode cs r; pos = key_position (in_cells nd) rowid in
      case res of
        None \<Rightarrow> inode cs' r' = nd
      | Some sp \<Rightarrow> place_split nd pos (child_for nd rowid) sp = inode cs' r'
          \<and> interior_used (inode cs' r') p \<le> interior_used nd p + 15)"

lemma kids_entries_eq: "trees_entries (kids bs r) = kids_entries bs @ entries r"
  by (simp add: kids_def trees_entries_def o_def)

lemma kids_route_L:
  assumes "kids_ordered lo as" and "\<forall>c\<in>set as. snd c < rowid" and "lo < int_of_i64 rowid"
  shows "\<forall>e\<in>set (trees_entries (map fst as)). entry_key e < rowid"
  using left_of_route [OF assms] by (auto simp: trees_entries_def)

lemma graft:
  assumes "ordered lo hi (TNode p cs r)" and "lo < int_of_i64 rowid" and "int_of_i64 rowid \<le> hi"
  obtains L t R lo' hi' where "kids cs r = L @ t # R" "ordered lo' hi' t" "lo' < int_of_i64 rowid" "int_of_i64 rowid \<le> hi'"
    "child_for (inode cs r) rowid = root_of t"
    "\<forall>e\<in>set (trees_entries L). entry_key e < rowid" "\<forall>e\<in>set (trees_entries R). rowid < entry_key e"
    "\<And>res ts. split_trees res lo' hi' ts \<Longrightarrow> root_of (hd ts) = root_of t \<Longrightarrow>
       \<exists>cs' r'. kids cs' r' = L @ ts @ R \<and> ordered lo hi (TNode p cs' r') \<and> grafted cs r rowid p res cs' r'"
proof (cases rule: route_cases [of cs rowid r])
  case (cell as t k bs)
  have o: "kids_ordered lo as" "bound lo as \<le> int_of_i64 k" "ordered (bound lo as) (int_of_i64 k) t" "kids_ordered (int_of_i64 k) bs"
      "ordered (bound (int_of_i64 k) bs) hi r" "bound (int_of_i64 k) bs \<le> hi"
    using assms(1) cell(1) by auto
  show thesis
  proof (rule that [of "map fst as" t "kids bs r" "bound lo as" "int_of_i64 k"])
    show "kids cs r = map fst as @ t # kids bs r" using cell(1) by simp
    show "\<forall>e\<in>set (trees_entries (map fst as)). entry_key e < rowid"
      by (rule kids_route_L [OF o(1) cell(2) assms(2)])
    show "\<forall>e\<in>set (trees_entries (kids bs r)). rowid < entry_key e"
      unfolding kids_entries_eq by (rule right_of_route [OF o(4,5) cell(3)])
    fix res ts assume s: "split_trees res (bound lo as) (int_of_i64 k) ts" "root_of (hd ts) = root_of t"
    show "\<exists>cs' r'. kids cs' r' = map fst as @ ts @ kids bs r \<and> ordered lo hi (TNode p cs' r')
        \<and> grafted cs r rowid p res cs' r'"
    proof (cases res)
      case None
      then obtain t1 where t1: "ts = [t1]" "ordered (bound lo as) (int_of_i64 k) t1" using s by (auto simp: split_trees_def)
      then show ?thesis using None s(2) o cell(1)
        by (intro exI [of _ "as @ (t1, k) # bs"] exI [of _ r]) (simp add: grafted_def inode_def)
    next
      case (Some sp)
      then obtain t1 t2 where t: "ts = [t1, t2]" "ordered (bound lo as) (int_of_i64 (sp_sep_key sp)) t1"
          "ordered (int_of_i64 (sp_sep_key sp)) (int_of_i64 k) t2" "bound lo as \<le> int_of_i64 (sp_sep_key sp)"
          "int_of_i64 (sp_sep_key sp) \<le> int_of_i64 k" "root_of t2 = sp_right_page sp"
        using s by (auto simp: split_trees_def Let_def)
      have "place_split (inode cs r) (Some (length as)) (root_of t) sp = inode (as @ (t1, sp_sep_key sp) # (t2, k) # bs) r"
        unfolding cell(1) by (rule place_split_cell) (use s(2) t in simp_all)
      then show ?thesis using Some t o cell(1,4,5) inode_used_Suc(1) [of as t1 "sp_sep_key sp" t2 k bs r p t r]
        by (intro exI [of _ "as @ (t1, sp_sep_key sp) # (t2, k) # bs"] exI [of _ r]) (simp add: grafted_def Let_def)
    qed
  qed (use o cell(2,3,5) bound_less [OF cell(2) assms(2)] in \<open>simp_all add: less_eq_i64_def\<close>)
next
  case right
  have o: "kids_ordered lo cs" "ordered (bound lo cs) hi r" "bound lo cs \<le> hi" using assms(1) by auto
  show thesis
  proof (rule that [of "map fst cs" r "[]" "bound lo cs" hi])
    show "kids cs r = map fst cs @ [r]" by (simp add: kids_def)
    show "\<forall>e\<in>set (trees_entries (map fst cs)). entry_key e < rowid"
      by (rule kids_route_L [OF o(1) right(1) assms(2)])
    fix res ts assume s: "split_trees res (bound lo cs) hi ts" "root_of (hd ts) = root_of r"
    show "\<exists>cs' r'. kids cs' r' = map fst cs @ ts @ [] \<and> ordered lo hi (TNode p cs' r') \<and> grafted cs r rowid p res cs' r'"
    proof (cases res)
      case None
      then obtain t1 where t1: "ts = [t1]" "ordered (bound lo cs) hi t1" using s by (auto simp: split_trees_def)
      then show ?thesis using None s(2) o
        by (intro exI [of _ cs] exI [of _ t1]) (simp add: grafted_def inode_def kids_def)
    next
      case (Some sp)
      then obtain t1 t2 where t: "ts = [t1, t2]" "ordered (bound lo cs) (int_of_i64 (sp_sep_key sp)) t1"
          "ordered (int_of_i64 (sp_sep_key sp)) hi t2" "bound lo cs \<le> int_of_i64 (sp_sep_key sp)"
          "int_of_i64 (sp_sep_key sp) \<le> hi" "root_of t2 = sp_right_page sp"
        using s by (auto simp: split_trees_def Let_def)
      have "place_split (inode cs r) None (root_of r) sp = inode (cs @ [(t1, sp_sep_key sp)]) t2"
        by (rule place_split_right) (use s(2) t in simp_all)
      then show ?thesis using Some t o right(2,3) inode_used_Suc(2) [of cs t1 "sp_sep_key sp" t2 p r]
        by (intro exI [of _ "cs @ [(t1, sp_sep_key sp)]"] exI [of _ t2]) (simp add: grafted_def Let_def kids_def)
    qed
  qed (use o right(1,3) bound_less [OF right(1) assms(2)] assms(3) in simp_all)
qed

lemma stored_hd_pages: "stored vw av P lo hi p es n r ts \<Longrightarrow> p \<noteq> 1 \<Longrightarrow> 1 \<notin> set (fpages ts)"
proof -
  assume s: "stored vw av P lo hi p es n r ts" and p: "p \<noteq> 1"
  then obtain t us where "ts = t # us" "root_of t = p" by (cases ts) (auto simp: stored_def)
  then have "fpages ts = p # tl (fpages ts)" by (cases t) simp_all
  then show ?thesis using s p by (metis set_ConsD stored_def)
qed

lemma route_child:
  "(case key_position (in_cells (inode cs r)) k of None \<Rightarrow> in_right_child (inode cs r)
    | Some i \<Rightarrow> fst (in_cells (inode cs r) ! i)) = child_for (inode cs r) k"
proof (cases rule: route_cases [of cs k r])
  case (cell as t k' bs)
  then show ?thesis by (simp add: inode_def nth_append)
next
  case right
  then show ?thesis by (simp add: inode_def)
qed

lemma distinct_chain: "distinct (chains es) \<Longrightarrow> e \<in> set es \<Longrightarrow> distinct (entry_chain e)"
  by (induction es) auto

context page_store begin

lemma insert_leaf_ok:
  assumes "inv s" and rep: "tree_rep (view s) (TLeaf p es)" and ord: "ordered lo hi (TLeaf p es)"
    and dist: "distinct (p # chains es)" and disj: "set (p # chains es) \<inter> avail s = {}"
    and new: "cell_rep (view s) (fst e) (entry_val e) (entry_chain e)" "encoded_len (fst e) \<le> SMALL_CELL"
      "distinct (entry_chain e)" "set (entry_chain e) \<inter> (set (p # chains es) \<union> avail s) = {}"
    and key: "lo < int_of_i64 (entry_key e)" "int_of_i64 (entry_key e) \<le> hi"
    and av: "avail s \<noteq> {}" and fuel: "\<forall>e\<in>set es. length (entry_chain e) \<le> f"
    and place: "leaf_place \<lparr>ln_cells = map fst es\<rparr> (fst e) = (leaf', freed)"
  shows "\<exists>res s' s'' ts. store_leaf S s p leaf' = Ok (res, s')
     \<and> (if freed \<noteq> 0 then free_overflow_chain S f s' freed = Ok s'' else s'' = s') \<and> inv s''
     \<and> stored (view s'') (avail s'') (set (p # chains es) \<union> set (entry_chain e) \<union> avail s) lo hi p (ins_entry e es) 0 res ts
     \<and> avail s'' \<subseteq> avail s \<union> set (p # chains es) \<and> card (avail s) \<le> card (avail s'') + split_cost res
     \<and> (\<forall>q. q \<notin> set (p # chains es) \<longrightarrow> q \<notin> avail s \<longrightarrow> view s'' q = view s q)"
proof -
  let ?es = "ins_entry e es"
  have p: "p \<noteq> 0" and fits: "leaf_fits \<lparr>ln_cells = map fst es\<rparr> p" and cells: "cells_rep (view s) es"
    using rep by simp_all
  have srt: "sorted_wrt (<) (map entry_key es)" using ord by simp
  have parts: "\<exists>xs olds ys. es = xs @ olds @ ys \<and> ?es = xs @ e # ys \<and> leaf' = \<lparr>ln_cells = map fst ?es\<rparr>
      \<and> (freed = 0 \<and> chains olds = [] \<or> (\<exists>old. olds = [old] \<and> freed = lc_overflow (fst old)))"
    (is "\<exists>xs olds ys. ?P xs olds ys")
  proof (rule leaf_place_entries [OF srt place])
    fix xs ys assume "es = xs @ ys" "?es = xs @ e # ys" "leaf' = \<lparr>ln_cells = map fst ?es\<rparr>" "freed = 0"
    then have "?P xs [] ys" by simp
    then show ?thesis by blast
  next
    fix xs old ys assume "es = xs @ old # ys" "?es = xs @ e # ys" "leaf' = \<lparr>ln_cells = map fst ?es\<rparr>"
      "freed = lc_overflow (fst old)"
    then have "?P xs [old] ys" by simp
    then show ?thesis by blast
  qed
  then obtain xs olds ys where es: "es = xs @ olds @ ys" "?es = xs @ e # ys" "leaf' = \<lparr>ln_cells = map fst ?es\<rparr>"
      "freed = 0 \<and> chains olds = [] \<or> (\<exists>old. olds = [old] \<and> freed = lc_overflow (fst old))" by blast
  have rep': "cells_rep (view s) ?es" using cells new(1,2) set_ins [of e es] by blast
  have bnd: "in_bounds lo hi ?es" using ord key set_ins [of e es] by auto
  have used: "leaf_used \<lparr>ln_cells = map fst ?es\<rparr> p \<le> PAGE_SIZE + SMALL_CELL + 2"
    using fits new(2) unfolding es(2) leaf_fits_def leaf_used_cells unfolding es(1) by simp
  have ch: "distinct (p # chains ?es)" "set (p # chains ?es) \<inter> avail s = {}" "set (chains olds) \<inter> set (p # chains ?es) = {}"
    "set (chains olds) \<subseteq> set (chains es)" "set (chains ?es) \<subseteq> set (chains es) \<union> set (entry_chain e)"
    using dist disj new(3,4) unfolding es(2) unfolding es(1) by auto
  obtain res s' ts where st: "store_leaf S s p \<lparr>ln_cells = map fst ?es\<rparr> = Ok (res, s')" "inv s'"
      "stored (view s') (avail s') (set (p # chains ?es) \<union> avail s) lo hi p ?es 0 res ts"
      "avail s' \<subseteq> avail s" "card (avail s) \<le> card (avail s') + split_cost res"
      "\<And>q. q \<noteq> p \<Longrightarrow> q \<notin> avail s \<Longrightarrow> view s' q = view s q"
    using store_leaf_ok [OF assms(1) p rep' ins_sorted [OF srt] bnd used ch(1,2) av] by blast
  have pg: "set (fpages ts) \<subseteq> set (p # chains ?es) \<union> avail s" "set (fpages ts) \<inter> avail s' = {}"
    using st(3) by (simp_all add: stored_def forest_ok_def)
  have P: "set (fpages ts) \<subseteq> set (p # chains es) \<union> set (entry_chain e) \<union> avail s" using pg(1) ch(5) by auto
  show ?thesis
  proof (cases "freed = 0")
    case True
    have "stored (view s') (avail s') (set (p # chains es) \<union> set (entry_chain e) \<union> avail s) lo hi p ?es 0 res ts"
      by (rule stored_cong [OF st(3) _ pg(2) P]) simp
    then show ?thesis using True st es(3) by (intro exI [of _ res] exI [of _ s'] exI [of _ s'] exI [of _ ts]) auto
  next
    case False
    then obtain old where old: "olds = [old]" "freed = lc_overflow (fst old)" using es(4) by auto
    let ?ps = "entry_chain old"
    have mem: "old \<in> set es" using es(1) old(1) by simp
    have ps: "set ?ps \<inter> set (p # chains ?es) = {}" "set ?ps \<subseteq> set (chains es)" "set ?ps \<inter> avail s = {}"
      using ch(3,4) old(1) disj by auto
    have same: "view s' q = view s q" if "q \<in> set ?ps" for q using that st(6) [of q] ps dist by auto
    have "cell_rep (view s) (fst old) (entry_val old) ?ps" using cells mem by blast
    then have "chain_rep (view s') freed ?ps (drop (length (lc_inline (fst old))) (entry_val old))"
      using False old(2) chain_rep_cong [of ?ps "view s'" "view s", OF same] by (simp add: cell_rep_def)
    moreover have "distinct ?ps" using distinct_chain [of es old] dist mem by simp
    moreover have "set ?ps \<inter> avail s' = {}" using ps(3) st(4) by auto
    ultimately obtain s'' where s'': "free_overflow_chain S f s' freed = Ok s''" "inv s''"
        "avail s'' = avail s' \<union> set ?ps" "\<And>q. q \<notin> set ?ps \<Longrightarrow> view s'' q = view s' q"
      using free_chain_ok [OF st(2)] fuel mem by blast
    have dj: "set (fpages ts) \<inter> set ?ps = {}" using pg(1) ps(1,3) by auto
    have "stored (view s'') (avail s'') (set (p # chains es) \<union> set (entry_chain e) \<union> avail s) lo hi p ?es 0 res ts"
      by (rule stored_cong [OF st(3) _ _ P]) (use s''(3,4) dj pg(2) in auto)
    moreover have "card (avail s') \<le> card (avail s'')" using s''(3) by (intro card_mono) auto
    moreover have "avail s'' \<subseteq> avail s \<union> set (p # chains es)" using s''(3) st(4) ps(2) by auto
    moreover have "view s'' q = view s q" if "q \<notin> set (p # chains es)" "q \<notin> avail s" for q
      using that s''(4) [of q] st(6) [of q] ps(2) by auto
    ultimately show ?thesis using False st(1,5) s''(1,2) es(3)
      by (intro exI [of _ res] exI [of _ s'] exI [of _ s''] exI [of _ ts]) auto
  qed
qed

lemma insert_rec_ok:
  assumes "inv s" and "tree_rep (view s) t" and "ordered lo hi t" and "distinct (pages t)" and "set (pages t) \<inter> avail s = {}"
    and "1 \<notin> set (tl (pages t))" and "fuel_ok fuel t"
    and "cell_rep (view s) (fst e) (entry_val e) (entry_chain e)" and "encoded_len (fst e) \<le> SMALL_CELL"
    and "distinct (entry_chain e)" and "set (entry_chain e) \<inter> (set (pages t) \<union> avail s) = {}"
    and "lo < int_of_i64 (entry_key e)" and "int_of_i64 (entry_key e) \<le> hi" and "height t < card (avail s)"
  shows "\<exists>res s' ts. insert_rec S fuel s (root_of t) (fst e) = Ok (res, s') \<and> inv s'
     \<and> stored (view s') (avail s') (set (pages t) \<union> set (entry_chain e) \<union> avail s) lo hi (root_of t)
          (ins_entry e (entries t)) (height t) res ts
     \<and> avail s' \<subseteq> avail s \<union> set (pages t) \<and> card (avail s) \<le> card (avail s') + (if res = None then height t else Suc (height t))
     \<and> (\<forall>q. q \<notin> set (pages t) \<longrightarrow> q \<notin> avail s \<longrightarrow> view s' q = view s q)"
  using assms
proof (induction fuel arbitrary: t s lo hi)
  case 0
  then show ?case by (simp add: fuel_ok_def)
next
  case (Suc f)
  obtain b where b: "view s (root_of t) = Some b" "node_at (root_of t) b (node_of t)"
    using tree_rep_root [OF Suc.prems(2)] by blast
  obtain s1 where g: "get_node S s (root_of t) = Ok (node_of t, s1)" "inv s1" "view s1 = view s" "avail s1 = avail s"
    using get_node_store [OF Suc.prems(1) b] by blast
  show ?case
  proof (cases t)
    case (TLeaf p es)
    obtain leaf' freed where pl: "leaf_place \<lparr>ln_cells = map fst es\<rparr> (fst e) = (leaf', freed)" by fastforce
    have fu: "\<forall>e\<in>set es. length (entry_chain e) \<le> f" using fuel_ok_leaf Suc.prems(7) TLeaf by blast
    have av: "avail s1 \<noteq> {}" using Suc.prems(14) g(4) by auto
    obtain res s' s'' ts where r: "store_leaf S s1 p leaf' = Ok (res, s')"
        "if freed \<noteq> 0 then free_overflow_chain S f s' freed = Ok s'' else s'' = s'" "inv s''"
        "stored (view s'') (avail s'') (set (p # chains es) \<union> set (entry_chain e) \<union> avail s1) lo hi p (ins_entry e es) 0 res ts"
        "avail s'' \<subseteq> avail s1 \<union> set (p # chains es)" "card (avail s1) \<le> card (avail s'') + split_cost res"
        "\<forall>q. q \<notin> set (p # chains es) \<longrightarrow> q \<notin> avail s1 \<longrightarrow> view s'' q = view s1 q"
      using insert_leaf_ok [OF g(2), of p es lo hi e f leaf' freed] Suc.prems TLeaf g(3,4) pl fu av by auto
    have "insert_rec S (Suc f) s (root_of t) (fst e) = Ok (res, s'')"
      using g(1) TLeaf pl r(1,2) by (auto split: if_splits)
    then show ?thesis using r g(3,4) TLeaf by (intro exI [of _ res] exI [of _ s''] exI [of _ ts]) (auto split: if_splits)
  next
    case (TNode p cs r)
    obtain L c R lo' hi' where gr: "kids cs r = L @ c # R" "ordered lo' hi' c" "lo' < int_of_i64 (entry_key e)"
        "int_of_i64 (entry_key e) \<le> hi'" "child_for (inode cs r) (entry_key e) = root_of c"
        "\<forall>x\<in>set (trees_entries L). entry_key x < entry_key e" "\<forall>x\<in>set (trees_entries R). entry_key e < entry_key x"
        "\<And>res ts. split_trees res lo' hi' ts \<Longrightarrow> root_of (hd ts) = root_of c \<Longrightarrow>
           \<exists>cs' r'. kids cs' r' = L @ ts @ R \<and> ordered lo hi (TNode p cs' r') \<and> grafted cs r (entry_key e) p res cs' r'"
      using graft [OF Suc.prems(3) [unfolded TNode] Suc.prems(12,13)] by metis
    have pgs: "pages t = p # fpages L @ pages c @ fpages R" unfolding TNode pages_kids gr(1) by simp
    have trep: "p \<noteq> 0" "interior_fits (inode cs r) p" "\<forall>t\<in>set (L @ c # R). tree_rep (view s) t"
      using Suc.prems(2) unfolding TNode tree_rep_node gr(1) by auto
    have hk: "\<forall>u\<in>set (L @ c # R). height u \<le> height t - 1" "0 < height t"
      using height_kids [of p cs r "height t - 1"] TNode unfolding gr(1) by (auto simp: height.simps(2))
    have hc: "height c < height t" using hk by force
    have c: "tree_rep (view s1) c" "distinct (pages c)" "set (pages c) \<inter> avail s1 = {}" "1 \<notin> set (pages c)" "fuel_ok f c"
      using trep(3) Suc.prems(4-6) [unfolded pgs] fuel_ok_kids [OF Suc.prems(7) [unfolded TNode], of c] gr(1)
      unfolding g(3,4) by auto
    have nt: "1 \<notin> set (tl (pages c))" using c(4) by (metis list.set_sel(2) tl_Nil)
    have e: "cell_rep (view s1) (fst e) (entry_val e) (entry_chain e)"
      "set (entry_chain e) \<inter> (set (pages c) \<union> avail s1) = {}" "height c < card (avail s1)"
      using Suc.prems(8) Suc.prems(11) [unfolded pgs] Suc.prems(14) hc unfolding g(3,4) by auto
    obtain res s2 ts where r: "insert_rec S f s1 (root_of c) (fst e) = Ok (res, s2)" "inv s2"
        "stored (view s2) (avail s2) (set (pages c) \<union> set (entry_chain e) \<union> avail s1) lo' hi' (root_of c)
           (ins_entry e (entries c)) (height c) res ts"
        "avail s2 \<subseteq> avail s1 \<union> set (pages c)"
        "card (avail s1) \<le> card (avail s2) + (if res = None then height c else Suc (height c))"
        "\<And>q. q \<notin> set (pages c) \<Longrightarrow> q \<notin> avail s1 \<Longrightarrow> view s2 q = view s1 q"
      using Suc.IH [OF g(2) c(1) gr(2) c(2,3) nt c(5) e(1) Suc.prems(9,10) e(2) gr(3,4) e(3)] by blast
    then have so: "forest_ok (view s2) (avail s2) ts" "split_trees res lo' hi' ts" "root_of (hd ts) = root_of c"
        "trees_entries ts = ins_entry e (entries c)" "\<forall>u\<in>set ts. height u \<le> height c"
        "set (fpages ts) \<subseteq> set (pages c) \<union> set (entry_chain e) \<union> avail s"
      by (simp_all add: stored_def g(4))
    have c1: "root_of c \<noteq> 1" using c(4) by (subst (asm) pages_root) auto
    have one: "1 \<notin> set (fpages ts)" by (rule stored_hd_pages [OF r(3) c1])
    obtain cs' r' where n: "kids cs' r' = L @ ts @ R" "ordered lo hi (TNode p cs' r')" "grafted cs r (entry_key e) p res cs' r'"
      using gr(8) [OF so(2,3)] by blast
    have reps: "\<forall>u\<in>set (kids cs' r'). tree_rep (view s2) u"
    proof -
      have "\<forall>u\<in>set (L @ R). tree_rep (view s2) u"
      proof (rule forest_rep_cong [of _ "view s"])
        show "\<forall>u\<in>set (L @ R). tree_rep (view s) u" using trep(3) by auto
        show "view s2 q = view s q" if "q \<in> set (fpages (L @ R))" for q
          using that r(6) [of q] Suc.prems(4,5) [unfolded pgs] unfolding g(3,4) by auto
      qed
      then show ?thesis using so(1) unfolding n(1) forest_ok_def by auto
    qed
    have dist: "distinct (p # fpages (kids cs' r'))" and disj: "set (p # fpages (kids cs' r')) \<inter> avail s2 = {}"
      using Suc.prems(4,5,11) [unfolded pgs] so(1,6) r(4) [unfolded g(4)] unfolding n(1) forest_ok_def by auto
    have sub: "set (p # fpages (kids cs' r')) \<subseteq> set (pages t) \<union> set (entry_chain e) \<union> avail s"
      using so(6) unfolding n(1) pgs by auto
    have no1: "1 \<notin> set (fpages (kids cs' r'))" using one Suc.prems(6) [unfolded pgs] unfolding n(1) by auto
    have hgt: "\<forall>u\<in>set (kids cs' r'). height u \<le> height t - 1" using hk so(5) hc unfolding n(1) by force
    have ents: "trees_entries (kids cs' r') = ins_entry e (entries t)"
    proof -
      have "entries t = trees_entries L @ entries c @ trees_entries R" unfolding TNode entries_kids gr(1) by simp
      then show ?thesis using ins_middle [OF gr(6,7), of "entries c"] so(4) unfolding n(1) by simp
    qed
    have same: "view s2 q = view s q" if "q \<notin> set (pages t)" "q \<notin> avail s" for q
      using that r(6) [of q] unfolding g(3,4) pgs by auto
    have step: "insert_rec S (Suc f) s (root_of t) (fst e) =
        (case res of None \<Rightarrow> Ok (None, s2)
         | Some sp \<Rightarrow> store_interior S s2 p (inode cs' r'))"
      using g(1) r(1) n(3) gr(5) TNode
      by (auto simp: grafted_def Let_def route_child split: option.splits)
    have hS: "Suc (height t - 1) = height t" using hk(2) by simp
    show ?thesis
    proof (cases res)
      case None
      have nd: "inode cs' r' = inode cs r" using n(3) None by (simp add: grafted_def Let_def)
      have "view s2 p = view s p"
        using r(6) [of p] Suc.prems(4,5) [unfolded pgs] unfolding g(3,4) by auto
      then have "tree_rep (view s2) (TNode p cs' r')"
        using b reps trep(1,2) TNode unfolding tree_rep_node nd by auto
      from stored_one [OF this n(2), of "avail s2" "set (pages t) \<union> set (entry_chain e) \<union> avail s" "height t"]
      have "stored (view s2) (avail s2) (set (pages t) \<union> set (entry_chain e) \<union> avail s) lo hi (root_of t)
          (ins_entry e (entries t)) (height t) None [TNode p cs' r']"
        using dist disj sub no1 hgt height_kids [of p cs' r' "height t - 1"] ents TNode
        unfolding pages_kids entries_kids hS by simp
      moreover have "avail s2 \<subseteq> avail s \<union> set (pages t)" using r(4) unfolding g(4) pgs by auto
      ultimately show ?thesis using step None r(2,5) hc same g(4)
        by (intro exI [of _ None] exI [of _ s2] exI [of _ "[TNode p cs' r']"]) auto
    next
      case (Some sp)
      have used: "interior_used (inode cs' r') p \<le> PAGE_SIZE + 15"
        using n(3) Some trep(2) by (simp add: grafted_def Let_def interior_fits_def)
      have av: "avail s2 \<noteq> {}" using r(5) Some Suc.prems(14) hc unfolding g(4) by auto
      obtain res' s' ts' where w: "store_interior S s2 p (inode cs' r') = Ok (res', s')" "inv s'"
          "stored (view s') (avail s') (set (p # fpages (kids cs' r')) \<union> avail s2) lo hi p (trees_entries (kids cs' r'))
             (Suc (height t - 1)) res' ts'"
          "avail s' \<subseteq> avail s2" "card (avail s2) \<le> card (avail s') + split_cost res'"
          "\<And>q. q \<noteq> p \<Longrightarrow> q \<notin> avail s2 \<Longrightarrow> view s' q = view s2 q"
        using store_interior_ok [OF r(2) trep(1) reps n(2) used dist disj no1 hgt av] by blast
      have av2: "avail s2 \<subseteq> avail s \<union> set (pages t)" using r(4) unfolding g(4) pgs by auto
      have pg: "set (fpages ts') \<subseteq> set (p # fpages (kids cs' r')) \<union> avail s2" "set (fpages ts') \<inter> avail s' = {}"
        using w(3) by (simp_all add: stored_def forest_ok_def)
      have "set (fpages ts') \<subseteq> set (pages t) \<union> set (entry_chain e) \<union> avail s" using pg(1) sub av2 by blast
      then have st: "stored (view s') (avail s') (set (pages t) \<union> set (entry_chain e) \<union> avail s) lo hi p
          (trees_entries (kids cs' r')) (Suc (height t - 1)) res' ts'"
        by (intro stored_cong [OF w(3) _ pg(2)]) simp_all
      have "view s' q = view s q" if "q \<notin> set (pages t)" "q \<notin> avail s" for q
        using that w(6) [of q] same [of q] av2 unfolding pgs by auto
      moreover have "card (avail s) \<le> card (avail s') + (if res' = None then height t else Suc (height t))"
        using r(5) Some w(5) hc unfolding g(4) by (cases res') simp_all
      moreover have "insert_rec S (Suc f) s (root_of t) (fst e) = Ok (res', s')" using step Some w(1) by simp
      ultimately show ?thesis using st w(2,4) av2 TNode unfolding ents hS
        by (intro exI [of _ res'] exI [of _ s'] exI [of _ ts']) auto
    qed
  qed
qed

end

section \<open>Growing the root\<close>

lemma tree_rep_set_root:
  assumes "tree_rep vw t" and "vw' q = Some b" and "node_at q b (node_of t)" and "q \<noteq> 0" and "q \<noteq> 1"
    and "\<And>x. x \<in> set (tl (pages t)) \<Longrightarrow> vw' x = vw x"
  shows "tree_rep vw' (set_root q t)"
proof (cases t)
  case (TLeaf p es)
  have c: "cells_rep vw' es"
    by (rule cells_rep_cong [where vw = vw]) (use assms(1,6) TLeaf in auto)
  have "leaf_fits \<lparr>ln_cells = map fst es\<rparr> q"
    using assms(1,5) TLeaf by (auto simp: leaf_fits_def leaf_used_def header_offset_def)
  then show ?thesis using c assms TLeaf by auto
next
  case (TNode p cs r)
  have "\<forall>t\<in>set (kids cs r). tree_rep vw' t"
  proof (rule forest_rep_cong [of _ vw])
    show "\<forall>t\<in>set (kids cs r). tree_rep vw t" using assms(1) unfolding TNode tree_rep_node by blast
    show "vw' q = vw q" if "q \<in> set (fpages (kids cs r))" for q
      using that assms(6) [of q] unfolding TNode pages_kids by simp
  qed
  moreover have "interior_fits (inode cs r) q"
    using assms(1,5) TNode by (auto simp: interior_fits_def interior_used_def header_offset_def)
  moreover have "set_root q t = TNode q cs r" "node_at q b (NInterior (inode cs r))" using assms(3) TNode by simp_all
  ultimately show ?thesis using assms(2,4) tree_rep_node [of vw' q cs r] by auto
qed

lemma node_fits_moved:
  assumes "tree_rep vw t" and "q \<noteq> 1"
  shows "node_fits (node_of t) q" "node_wf (node_of t)"
proof -
  show "node_fits (node_of t) q"
    using assms by (cases t) (auto simp: node_fits_def leaf_fits_def leaf_used_def interior_fits_def interior_used_def header_offset_def)
  show "node_wf (node_of t)"
  proof (cases t)
    case (TLeaf p es)
    then show ?thesis using assms(1) cells_wf [where vw = vw and es = es] by auto
  qed (simp add: node_wf_def)
qed

lemma interior_fits_one: "interior_fits (inode [(t, k)] u) p"
  using cell_len_bounds(2) [of k] by (simp add: interior_fits_def interior_used_eq inode_def header_offset_def PAGE_SIZE_def)

context page_store begin

lemma grow_root_ok:
  assumes "inv s" and st: "stored (view s) (avail s) P lo hi p es n (Some sp) ts" and av: "avail s \<noteq> {}"
  shows "\<exists>s' t'. grow_root S s p sp = Ok s' \<and> inv s' \<and> tree_ok (view s') (avail s') lo hi t' \<and> root_of t' = p
    \<and> entries t' = es \<and> height t' \<le> Suc n \<and> set (pages t') \<subseteq> P \<union> avail s \<and> avail s' \<subseteq> avail s
    \<and> (\<forall>q. q \<noteq> p \<longrightarrow> q \<notin> avail s \<longrightarrow> view s' q = view s q)"
proof -
  let ?k = "sp_sep_key sp"
  obtain t u where t: "ts = [t, u]" "root_of t = p" "root_of u = sp_right_page sp" "tree_rep (view s) t" "tree_rep (view s) u"
      "ordered lo (int_of_i64 ?k) t" "ordered (int_of_i64 ?k) hi u" "lo \<le> int_of_i64 ?k" "int_of_i64 ?k \<le> hi"
      "entries t @ entries u = es" "height t \<le> n" "height u \<le> n" "distinct (pages t @ pages u)"
      "set (pages t @ pages u) \<inter> avail s = {}" "set (pages t @ pages u) \<subseteq> P" "1 \<notin> set (tl (pages t @ pages u))"
    using st by (auto simp: stored_def forest_ok_def split_trees_def Let_def)
  have pg: "pages t = p # tl (pages t)" using pages_root [of t] t(2) by simp
  obtain b where b: "view s p = Some b" "node_at p b (node_of t)" "p \<noteq> 0" using tree_rep_root [OF t(4)] t(2) by auto
  obtain s1 where g: "get_node S s p = Ok (node_of t, s1)" "inv s1" "view s1 = view s" "avail s1 = avail s"
    using get_node_store [OF assms(1) b(1,2)] by blast
  obtain lp s2 where a: "po_alloc S s1 = Ok (lp, s2)" "lp \<in> avail s" "inv s2" "view s2 = view s" "avail s2 = avail s - {lp}"
    using alloc_law [OF g(2)] av g(3,4) by auto
  have lp: "lp \<noteq> 0" "lp \<noteq> 1" using avail_valid [OF assms(1) a(2)] by auto
  have lpn: "lp \<notin> set (pages t @ pages u)" using a(2) t(14) by auto
  have pt: "p \<in> set (pages t)" by (subst pg) simp
  with lpn have lpp: "lp \<noteq> p" by auto
  obtain s3 b1 where w1: "write_node S s2 lp (node_of t) = Ok s3" "node_at lp b1 (node_of t)" "inv s3"
      "avail s3 = avail s - {lp}" "view s3 = (view s)(lp \<mapsto> b1)"
    using write_node_ok [OF a(3) lp(1) node_fits_moved [OF t(4) lp(2)]] a(4,5) by auto
  let ?cs = "[(set_root lp t, ?k)]"
  let ?t' = "TNode p ?cs u"
  have nd: "inode ?cs u = \<lparr>in_cells = [(lp, ?k)], in_right_child = sp_right_page sp\<rparr>" using t(3) by (simp add: inode_def)
  obtain s' b2 where w2: "write_node S s3 p (NInterior (inode ?cs u)) = Ok s'" "node_at p b2 (NInterior (inode ?cs u))" "inv s'"
      "avail s' = avail s - {lp}" "view s' = (view s)(lp \<mapsto> b1, p \<mapsto> b2)"
    using write_node_ok [OF w1(3) b(3), of "NInterior (inode ?cs u)"] interior_fits_one w1(4,5)
    by (auto simp: node_fits_def node_wf_def)
  have pu1: "p \<notin> set (pages u)" using t(13) pt by auto
  have "distinct (p # tl (pages t))" using t(13) pg by simp
  then have pu: "p \<notin> set (pages u)" "p \<notin> set (tl (pages t))" using pu1 by simp_all
  have "tree_rep (view s') (set_root lp t)"
  proof (rule tree_rep_set_root [OF t(4) _ w1(2) lp])
    show "view s' lp = Some b1" using w2(5) lpp by simp
    show "view s' x = view s x" if "x \<in> set (tl (pages t))" for x
      using that w2(5) pu(2) lpn pg by (metis Un_iff fun_upd_apply list.set_intros(2) set_append)
  qed
  moreover have "tree_rep (view s') u"
  proof (subst tree_rep_cong [of u "view s'" "view s"])
    show "view s' x = view s x" if "x \<in> set (pages u)" for x using that w2(5) pu(1) lpn by auto
  qed (rule t(5))
  ultimately have rep: "tree_rep (view s') ?t'"
    using b(3) w2(2,5) interior_fits_one unfolding tree_rep_node by auto
  have pgs: "pages ?t' = p # lp # tl (pages t) @ pages u" by simp
  have ok: "tree_ok (view s') (avail s') lo hi ?t'"
    unfolding tree_ok_def
  proof (intro conjI)
    show "tree_rep (view s') ?t'" by (rule rep)
    show "ordered lo hi ?t'" using t(6-9) by simp
    show "distinct (pages ?t')" using t(13) pu lpn lpp unfolding pgs by (subst (asm) (1 2) pg) auto
    show "set (pages ?t') \<inter> avail s' = {}" using t(14) w2(4) unfolding pgs by (subst (asm) pg) auto
    show "1 \<notin> set (tl (pages ?t'))" using t(16) lp(2) unfolding pgs by (subst (asm) pg) simp
  qed
  have "grow_root S s p sp = Ok s'"
    using g(1) a(1) w1(1) w2(1) unfolding nd by (simp add: grow_root_def)
  moreover have "set (pages ?t') \<subseteq> P \<union> avail s" using t(15) a(2) unfolding pgs by (subst (asm) pg) auto
  moreover have "height ?t' \<le> Suc n" using t(11,12) by (simp add: height_TNode_le)
  moreover have "\<forall>q. q \<noteq> p \<longrightarrow> q \<notin> avail s \<longrightarrow> view s' q = view s q" using w2(5) a(2) by auto
  ultimately show ?thesis using ok w2(3,4) t(10)
    by (intro exI [of _ s'] exI [of _ ?t']) auto
qed

end

section \<open>Insertion\<close>

text \<open>Records whose cells have at most \<open>SMALL_CELL\<close> bytes: all up to 490 bytes, and some longer ones.\<close>

definition small_record :: "bytes \<Rightarrow> bool" where
  "small_record record \<longleftrightarrow> length record < 2 ^ 64 \<and> inline_len_for (word_of_nat (length record)) \<le> 490"

lemma small_record_short: "length record \<le> 490 \<Longrightarrow> small_record record"
  by (simp add: small_record_def inline_len_for_def Let_def unat_of_nat USABLE_def PAGE_SIZE_def)

lemma small_cell:
  assumes "length (lc_inline c) \<le> 490"
  shows "encoded_len c \<le> SMALL_CELL"
  using assms varint_len_range(2) [of "lc_payload_len c"] varint_len_range(2) [of "zigzag (lc_rowid c)"]
  by (simp add: encoded_len_def SMALL_CELL_def)

lemma stored_single: "stored vw av P lo hi p es n None ts \<Longrightarrow>
  \<exists>t. tree_ok vw av lo hi t \<and> root_of t = p \<and> entries t = es \<and> height t \<le> n \<and> set (pages t) \<subseteq> P"
  by (auto simp: stored_def forest_ok_def split_trees_def tree_ok_def)

text \<open>Pages an insertion may take: the overflow chain, one for each level and one for a new root.\<close>

definition insert_pages :: "btree \<Rightarrow> bytes \<Rightarrow> nat" where
  "insert_pages t record = overflow_pages record + height t + 2"

context page_store begin

lemma btree_insert_ok:
  assumes "inv s" and t: "tree_ok (view s) (avail s) lo hi t" and "fuel_ok fuel t"
    and key: "lo < int_of_i64 k" "int_of_i64 k \<le> hi" and small: "small_record record"
    and room: "insert_pages t record \<le> card (avail s)"
  shows "\<exists>s' t' e. btree_insert S fuel (root_of t) s k record = Ok s' \<and> inv s' \<and> tree_ok (view s') (avail s') lo hi t'
    \<and> root_of t' = root_of t \<and> height t' \<le> Suc (height t)
    \<and> entries t' = ins_entry e (entries t) \<and> entry_key e = k \<and> entry_val e = record \<and> length (entry_chain e) = overflow_pages record
    \<and> set (pages t') \<subseteq> set (pages t) \<union> avail s \<and> avail s' \<subseteq> avail s \<union> set (pages t)
    \<and> (\<forall>q. q \<notin> set (pages t) \<longrightarrow> q \<notin> avail s \<longrightarrow> view s' q = view s q)"
proof -
  have tk: "tree_rep (view s) t" "ordered lo hi t" "distinct (pages t)" "set (pages t) \<inter> avail s = {}" "1 \<notin> set (tl (pages t))"
    using t by (simp_all add: tree_ok_def)
  have len: "length record < 2 ^ 64" using small by (simp add: small_record_def)
  have ov: "overflow_pages record \<le> card (avail s)" using room by (simp add: insert_pages_def)
  obtain c ids s1 where c: "make_cell S s k record = Ok (c, s1)" "inv s1" "lc_rowid c = k" "cell_rep (view s1) c record ids"
      "distinct ids" "length ids = overflow_pages record" "length (lc_inline c) = inline_len_for (word_of_nat (length record))"
      "set ids \<subseteq> avail s" "avail s1 = avail s - set ids" "\<And>q. q \<notin> set ids \<Longrightarrow> view s1 q = view s q"
    using make_cell_ok [OF assms(1) len ov, of k] by blast
  let ?e = "(c, record, ids)"
  have enc: "encoded_len c \<le> SMALL_CELL" using small_cell c(7) small by (simp add: small_record_def)
  have "card (avail s1) = card (avail s) - length ids"
    using c(5,8,9) by (simp add: card_Diff_subset distinct_card)
  then have room1: "Suc (height t) < card (avail s1)" using room c(6) by (simp add: insert_pages_def)
  have dj: "set ids \<inter> set (pages t) = {}" using c(8) tk(4) by auto
  have rep1: "tree_rep (view s1) t"
    using tk(1) tree_rep_cong [of t "view s1" "view s", OF c(10)] dj by auto
  have "\<exists>res s' ts. insert_rec S fuel s1 (root_of t) (fst ?e) = Ok (res, s') \<and> inv s'
     \<and> stored (view s') (avail s') (set (pages t) \<union> set (entry_chain ?e) \<union> avail s1) lo hi (root_of t)
          (ins_entry ?e (entries t)) (height t) res ts
     \<and> avail s' \<subseteq> avail s1 \<union> set (pages t)
     \<and> card (avail s1) \<le> card (avail s') + (if res = None then height t else Suc (height t))
     \<and> (\<forall>q. q \<notin> set (pages t) \<longrightarrow> q \<notin> avail s1 \<longrightarrow> view s' q = view s1 q)"
  proof (rule insert_rec_ok [OF c(2) rep1 tk(2,3) _ tk(5) assms(3)])
    show "set (pages t) \<inter> avail s1 = {}" using tk(4) c(9) by auto
    show "set (entry_chain ?e) \<inter> (set (pages t) \<union> avail s1) = {}" using dj c(9) by auto
  qed (use c(3-5) enc key room1 in simp_all)
  then obtain res s2 ts where r: "insert_rec S fuel s1 (root_of t) c = Ok (res, s2)" "inv s2"
      "stored (view s2) (avail s2) (set (pages t) \<union> set ids \<union> avail s1) lo hi (root_of t) (ins_entry ?e (entries t)) (height t) res ts"
      "avail s2 \<subseteq> avail s1 \<union> set (pages t)"
      "card (avail s1) \<le> card (avail s2) + (if res = None then height t else Suc (height t))"
      "\<And>q. q \<notin> set (pages t) \<Longrightarrow> q \<notin> avail s1 \<Longrightarrow> view s2 q = view s1 q"
    by auto
  have av2: "avail s2 \<subseteq> avail s \<union> set (pages t)" using r(4) c(9) by auto
  have P: "set (pages t) \<union> set ids \<union> avail s1 \<subseteq> set (pages t) \<union> avail s" using c(8,9) by auto
  have same: "view s2 q = view s q" if "q \<notin> set (pages t)" "q \<notin> avail s" for q
    using that r(6) [of q] c(8-10) by auto
  have ins: "btree_insert S fuel (root_of t) s k record =
      (case res of None \<Rightarrow> Ok s2 | Some sp \<Rightarrow> grow_root S s2 (root_of t) sp)"
    using c(1) r(1) by (simp add: btree_insert_def)
  show ?thesis
  proof (cases res)
    case None
    obtain t' where t': "tree_ok (view s2) (avail s2) lo hi t'" "root_of t' = root_of t" "entries t' = ins_entry ?e (entries t)"
        "height t' \<le> height t" "set (pages t') \<subseteq> set (pages t) \<union> set ids \<union> avail s1"
      using stored_single [OF r(3) [unfolded None]] by blast
    then show ?thesis using ins None r(2) c(3,6) av2 P same
      by (intro exI [of _ s2] exI [of _ t'] exI [of _ ?e]) auto
  next
    case (Some sp)
    have "avail s2 \<noteq> {}" using r(5) room1 Some by auto
    then obtain s' t' where t': "grow_root S s2 (root_of t) sp = Ok s'" "inv s'" "tree_ok (view s') (avail s') lo hi t'"
        "root_of t' = root_of t" "entries t' = ins_entry ?e (entries t)" "height t' \<le> Suc (height t)"
        "set (pages t') \<subseteq> set (pages t) \<union> set ids \<union> avail s1 \<union> avail s2" "avail s' \<subseteq> avail s2"
        "\<And>q. q \<noteq> root_of t \<Longrightarrow> q \<notin> avail s2 \<Longrightarrow> view s' q = view s2 q"
      using grow_root_ok [OF r(2) r(3) [unfolded Some]] by blast
    have "root_of t \<in> set (pages t)" by (cases t) simp_all
    then have "view s' q = view s q" if "q \<notin> set (pages t)" "q \<notin> avail s" for q
      using that t'(9) [of q] same [of q] av2 by auto
    then show ?thesis using ins Some t' c(3,6) av2 P
      by (intro exI [of _ s'] exI [of _ t'] exI [of _ ?e]) auto
  qed
qed

end

section \<open>Deletion\<close>

lemma del_sorted:
  assumes "sorted_wrt (<) (map entry_key (xs @ old # ys))"
  shows "del_entry (entry_key old) (xs @ old # ys) = xs @ ys"
proof -
  have "\<forall>x\<in>set xs. entry_key x < entry_key old" "\<forall>x\<in>set ys. entry_key old < entry_key x"
    using assms by (auto simp: sorted_wrt_append)
  then have "filter (\<lambda>x. entry_key x \<noteq> entry_key old) xs = xs" "filter (\<lambda>x. entry_key x \<noteq> entry_key old) ys = ys"
    by (auto simp: filter_id_conv)
  then show ?thesis by (simp add: del_entry_def)
qed

lemma sorted_del: "sorted_wrt (<) (map entry_key es) \<Longrightarrow> sorted_wrt (<) (map entry_key (del_entry k es))"
  by (simp add: del_entry_def sorted_wrt_map sorted_wrt_filter)

lemma del_absent: "lookup es k = None \<Longrightarrow> del_entry k es = es"
  by (auto simp: lookup_def del_entry_def map_of_eq_None_iff filter_id_conv image_image)

text \<open>The overflow pages of the entry with a key.\<close>

definition key_chain :: "i64 \<Rightarrow> entry list \<Rightarrow> page_id list" where
  "key_chain k es = chains (filter (\<lambda>e. entry_key e = k) es)"

lemma key_chain_absent:
  assumes "lookup es k = None"
  shows "key_chain k es = []"
proof -
  have "filter (\<lambda>e. entry_key e = k) es = []"
    using assms by (force simp: lookup_def map_of_eq_None_iff image_image filter_empty_conv)
  then show ?thesis by (simp add: key_chain_def)
qed

lemma key_chain_nth:
  assumes "sorted_wrt (<) (map entry_key es)" and "i < length es" and "entry_key (es ! i) = k"
  shows "key_chain k es = entry_chain (es ! i)"
proof -
  have es: "es = take i es @ es ! i # drop (Suc i) es" by (rule id_take_nth_drop [OF assms(2)])
  have "sorted_wrt (<) (map entry_key (take i es @ es ! i # drop (Suc i) es))" using assms(1) es by simp
  then have "\<forall>e\<in>set (take i es) \<union> set (drop (Suc i) es). entry_key e \<noteq> k"
    using assms(3) by (auto simp: sorted_wrt_append)
  then have "filter (\<lambda>e. entry_key e = k) (take i es @ es ! i # drop (Suc i) es) = [es ! i]"
    using assms(3) by (auto simp: filter_empty_conv)
  then show ?thesis using es by (simp add: key_chain_def)
qed

lemma key_chain_middle:
  assumes "\<forall>x\<in>set A. entry_key x < k" and "\<forall>x\<in>set B. k < entry_key x"
  shows "key_chain k (A @ es @ B) = key_chain k es"
proof -
  have "filter (\<lambda>e. entry_key e = k) A = []" "filter (\<lambda>e. entry_key e = k) B = []"
    using assms by (auto simp: filter_empty_conv)
  then show ?thesis by (simp add: key_chain_def)
qed

lemma chains_pages: "set (chains (entries t)) \<subseteq> set (pages t)"
proof (induction t rule: entries.induct)
  case (2 p cs r)
  have "set (entry_chain e) \<subseteq> set (pages (fst c))" if "c \<in> set cs" "e \<in> set (entries (fst c))" for c e
    using 2(1) [OF that(1)] that(2) by auto
  then show ?case using 2(2) by fastforce
qed auto

lemma key_chain_pages: "set (key_chain k (entries t)) \<subseteq> set (pages t)"
proof -
  have "set (key_chain k (entries t)) \<subseteq> set (chains (entries t))" by (auto simp: key_chain_def)
  then show ?thesis using chains_pages by blast
qed

context page_store begin

text \<open>What a deletion leaves: the entry gone, its chain free, the shape of the tree unchanged.\<close>

lemma delete_leaf_ok:
  assumes "inv s" and t: "tree_ok (view s) (avail s) lo hi (TLeaf p es)" and fu: "\<forall>e\<in>set es. length (entry_chain e) \<le> f"
    and i: "i < length es" "entry_key (es ! i) = k"
  shows "\<exists>s' s''. write_node S s p (NLeaf \<lparr>ln_cells = vec_remove i (map fst es)\<rparr>) = Ok s'
     \<and> (if lc_overflow (fst (es ! i)) \<noteq> 0 then free_overflow_chain S f s' (lc_overflow (fst (es ! i))) = Ok s'' else s'' = s')
     \<and> inv s'' \<and> tree_ok (view s'') (avail s'') lo hi (TLeaf p (del_entry k es))
     \<and> avail s'' = avail s \<union> set (entry_chain (es ! i))
     \<and> (\<forall>q. q \<notin> set (pages (TLeaf p es)) \<longrightarrow> view s'' q = view s q)"
proof -
  define xs where "xs = take i es"
  define ys where "ys = drop (Suc i) es"
  let ?old = "es ! i"
  have es: "es = xs @ ?old # ys" unfolding xs_def ys_def by (rule id_take_nth_drop [OF i(1)])
  have tk: "tree_rep (view s) (TLeaf p es)" "sorted_wrt (<) (map entry_key es)" "in_bounds lo hi es"
      "distinct (p # chains es)" "set (p # chains es) \<inter> avail s = {}" "1 \<notin> set (chains es)"
    using t by (simp_all add: tree_ok_def)
  have p: "p \<noteq> 0" and fits: "leaf_fits \<lparr>ln_cells = map fst es\<rparr> p" and cells: "cells_rep (view s) es"
    using tk(1) by simp_all
  have del: "del_entry k es = xs @ ys" using del_sorted [of xs ?old ys] tk(2) i(2) es by simp
  have rm: "vec_remove i (map fst es) = map fst (xs @ ys)"
    by (simp add: vec_remove_def xs_def ys_def take_map drop_map)
  have "set es = set (xs @ ?old # ys)" by (rule arg_cong [OF es])
  then have sub: "set (xs @ ys) \<subseteq> set es" by auto
  have ch: "set (chains (xs @ ys)) \<union> set (entry_chain ?old) = set (chains es)"
    using arg_cong [OF es, of "\<lambda>es. set (chains es)"] by auto
  have chd: "distinct (p # chains (xs @ ys))" "set (entry_chain ?old) \<inter> set (p # chains (xs @ ys)) = {}"
    using tk(4) arg_cong [OF es, of "\<lambda>es. distinct (p # chains es)"] by auto
  have used: "leaf_fits \<lparr>ln_cells = map fst (xs @ ys)\<rparr> p"
    using fits arg_cong [OF es, of "\<lambda>es. leaf_used \<lparr>ln_cells = map fst es\<rparr> p"]
    unfolding leaf_fits_def leaf_used_cells by simp
  have cells': "cells_rep (view s) (xs @ ys)" using cells sub by blast
  obtain s' b where w: "write_node S s p (NLeaf \<lparr>ln_cells = map fst (xs @ ys)\<rparr>) = Ok s'"
      "node_at p b (NLeaf \<lparr>ln_cells = map fst (xs @ ys)\<rparr>)" "inv s'" "avail s' = avail s" "view s' = (view s)(p \<mapsto> b)"
    using write_node_ok [OF assms(1) p, of "NLeaf \<lparr>ln_cells = map fst (xs @ ys)\<rparr>"] used cells_wf [OF cells']
    by (auto simp: node_fits_def)
  have ok: "tree_ok vw av lo hi (TLeaf p (xs @ ys))"
    if "vw p = Some b" "\<And>q. q \<in> set (chains (xs @ ys)) \<Longrightarrow> vw q = view s q" "set (p # chains (xs @ ys)) \<inter> av = {}" for vw av
  proof -
    have "cells_rep vw (xs @ ys)" by (rule cells_rep_cong [OF cells']) (use that(2) in auto)
    moreover have "in_bounds lo hi (xs @ ys)" using tk(3) sub by blast
    moreover have "sorted_wrt (<) (map entry_key (xs @ ys))" using sorted_del [OF tk(2), of k] del by simp
    ultimately show ?thesis using that p used w(2) chd(1) tk(6) ch by (auto simp: tree_ok_def)
  qed
  have pc: "p \<notin> set (chains (xs @ ys))" using chd(1) by simp
  have "set (p # chains (xs @ ys)) \<subseteq> set (p # chains es)" using ch unfolding list.set by blast
  then have dj: "set (p # chains (xs @ ys)) \<inter> avail s = {}" using tk(5) by blast
  show ?thesis
  proof (cases "lc_overflow (fst ?old) = 0")
    case True
    have "tree_ok (view s') (avail s') lo hi (TLeaf p (xs @ ys))"
    proof (rule ok)
      show "set (p # chains (xs @ ys)) \<inter> avail s' = {}" unfolding w(4) by (rule dj)
      show "view s' q = view s q" if "q \<in> set (chains (xs @ ys))" for q using that w(5) pc by auto
    qed (simp add: w(5))
    moreover have "entry_chain ?old = []" using cells i(1) True by (auto simp: cell_rep_def)
    ultimately show ?thesis using True w del rm by (intro exI [of _ s'] exI [of _ s']) auto
  next
    case False
    let ?ps = "entry_chain ?old"
    have mem: "?old \<in> set es" using i(1) by simp
    have same: "view s' q = view s q" if "q \<in> set ?ps" for q using that w(5) chd(2) by auto
    have "cell_rep (view s) (fst ?old) (entry_val ?old) ?ps" using cells mem by blast
    then have c: "chain_rep (view s') (lc_overflow (fst ?old)) ?ps (drop (length (lc_inline (fst ?old))) (entry_val ?old))"
      using False chain_rep_cong [of ?ps "view s'" "view s", OF same] by (simp add: cell_rep_def)
    have d: "distinct ?ps" using distinct_chain [of es ?old] tk(4) mem by simp
    have a: "set ?ps \<inter> avail s' = {}" using tk(5) ch w(4) by auto
    obtain s'' where s'': "free_overflow_chain S f s' (lc_overflow (fst ?old)) = Ok s''" "inv s''"
        "avail s'' = avail s' \<union> set ?ps" "\<And>q. q \<notin> set ?ps \<Longrightarrow> view s'' q = view s' q"
      using free_chain_ok [OF w(3) c _ d a] fu mem by blast
    have "tree_ok (view s'') (avail s'') lo hi (TLeaf p (xs @ ys))"
    proof (rule ok)
      show "set (p # chains (xs @ ys)) \<inter> avail s'' = {}" unfolding s''(3) w(4) using dj chd(2) by blast
      have nps: "q \<notin> set ?ps" if "q \<in> set (p # chains (xs @ ys))" for q using that chd(2) by blast
      show "view s'' q = view s q" if "q \<in> set (chains (xs @ ys))" for q
        using that s''(4) [OF nps, of q] w(5) pc by auto
      show "view s'' p = Some b" using s''(4) [OF nps, of p] w(5) by simp
    qed
    moreover have "view s'' q = view s q" if "q \<notin> set (pages (TLeaf p es))" for q
      using that s''(4) [of q] w(5) ch by auto
    ultimately show ?thesis using False w(1,4) s''(1-3) del rm
      by (intro exI [of _ s'] exI [of _ s'']) auto
  qed
qed

lemma delete_rec_ok:
  assumes "inv s" and "tree_ok (view s) (avail s) lo hi t" and "fuel_ok fuel t" and "lo < int_of_i64 k" and "int_of_i64 k \<le> hi"
  shows "\<exists>s' t'. delete_rec S fuel s (root_of t) k = Ok (lookup (entries t) k \<noteq> None, s') \<and> inv s'
     \<and> tree_ok (view s') (avail s') lo hi t' \<and> root_of t' = root_of t \<and> entries t' = del_entry k (entries t)
     \<and> height t' \<le> height t \<and> set (pages t') \<subseteq> set (pages t)
     \<and> avail s' = avail s \<union> set (key_chain k (entries t))
     \<and> (\<forall>q. q \<notin> set (pages t) \<longrightarrow> view s' q = view s q)"
  using assms
proof (induction fuel arbitrary: t s lo hi)
  case 0
  then show ?case by (simp add: fuel_ok_def)
next
  case (Suc f)
  have tk: "tree_rep (view s) t" "ordered lo hi t" "distinct (pages t)" "set (pages t) \<inter> avail s = {}" "1 \<notin> set (tl (pages t))"
    using Suc.prems(2) by (simp_all add: tree_ok_def)
  obtain b where b: "view s (root_of t) = Some b" "node_at (root_of t) b (node_of t)"
    using tree_rep_root [OF tk(1)] by blast
  obtain s1 where g: "get_node S s (root_of t) = Ok (node_of t, s1)" "inv s1" "view s1 = view s" "avail s1 = avail s"
    using get_node_store [OF Suc.prems(1) b] by blast
  show ?case
  proof (cases t)
    case (TLeaf p es)
    have fu: "\<forall>e\<in>set es. length (entry_chain e) \<le> f" using fuel_ok_leaf Suc.prems(3) TLeaf by blast
    have srt: "sorted_wrt (<) (map entry_key es)" using tk(2) TLeaf by simp
    then show ?thesis
    proof (cases rule: leaf_search_cases [where k = k])
      case (found i)
      have "tree_ok (view s1) (avail s1) lo hi (TLeaf p es)" using Suc.prems(2) TLeaf g(3,4) by simp
      from delete_leaf_ok [OF g(2) this fu found(2,3)] obtain s' s'' where d:
          "write_node S s1 p (NLeaf \<lparr>ln_cells = vec_remove i (map fst es)\<rparr>) = Ok s'"
          "if lc_overflow (fst (es ! i)) \<noteq> 0 then free_overflow_chain S f s' (lc_overflow (fst (es ! i))) = Ok s'' else s'' = s'"
          "inv s''" "tree_ok (view s'') (avail s'') lo hi (TLeaf p (del_entry k es))"
          "avail s'' = avail s \<union> set (entry_chain (es ! i))"
          "\<forall>q. q \<notin> set (pages (TLeaf p es)) \<longrightarrow> view s'' q = view s q"
        unfolding g(3,4) by blast
      have "delete_rec S (Suc f) s (root_of t) k = Ok (True, s'')"
        using g(1) found(1,2) TLeaf d(1,2) by (auto simp: index_at_def split: if_splits)
      moreover have "set (pages (TLeaf p (del_entry k es))) \<subseteq> set (pages t)" using TLeaf by (auto simp: del_entry_def)
      moreover have "key_chain k es = entry_chain (es ! i)"
        using key_chain_nth [OF srt found(2,3)] .
      ultimately show ?thesis using d(3-6) found(4) TLeaf
        by (intro exI [of _ s''] exI [of _ "TLeaf p (del_entry k es)"]) auto
    next
      case (absent i)
      then show ?thesis using g TLeaf Suc.prems(2) del_absent [of es k] key_chain_absent [of es k]
        by (intro exI [of _ s1] exI [of _ t]) auto
    qed
  next
    case (TNode p cs r)
    obtain L c R lo' hi' where gr: "kids cs r = L @ c # R" "ordered lo' hi' c" "lo' < int_of_i64 k" "int_of_i64 k \<le> hi'"
        "child_for (inode cs r) k = root_of c"
        "\<forall>x\<in>set (trees_entries L). entry_key x < k" "\<forall>x\<in>set (trees_entries R). k < entry_key x"
        "\<And>res ts. split_trees res lo' hi' ts \<Longrightarrow> root_of (hd ts) = root_of c \<Longrightarrow>
           \<exists>cs' r'. kids cs' r' = L @ ts @ R \<and> ordered lo hi (TNode p cs' r') \<and> grafted cs r k p res cs' r'"
      using graft [OF tk(2) [unfolded TNode] Suc.prems(4,5)] by metis
    have pgs: "pages t = p # fpages L @ pages c @ fpages R" unfolding TNode pages_kids gr(1) by simp
    have trep: "p \<noteq> 0" "interior_fits (inode cs r) p" "\<forall>t\<in>set (L @ c # R). tree_rep (view s) t"
      using tk(1) unfolding TNode tree_rep_node gr(1) by auto
    have ht: "0 < height t" using TNode by (simp add: height.simps(2))
    then have hk: "\<forall>u\<in>set (L @ c # R). height u \<le> height t - 1"
      using height_kids [of p cs r "height t - 1"] TNode unfolding gr(1) by simp
    have c1: "1 \<notin> set (pages c)" using tk(5) unfolding pgs by simp
    have "set (tl (pages c)) \<subseteq> set (pages c)" by (cases c) auto
    then have "tree_ok (view s1) (avail s1) lo' hi' c"
      using trep(3) tk(3,4) [unfolded pgs] c1 gr(2) unfolding tree_ok_def g(3,4) by auto
    moreover have "fuel_ok f c" using fuel_ok_kids [OF Suc.prems(3) [unfolded TNode], of c] gr(1) by simp
    ultimately obtain s2 c' where d: "delete_rec S f s1 (root_of c) k = Ok (lookup (entries c) k \<noteq> None, s2)" "inv s2"
        "tree_ok (view s2) (avail s2) lo' hi' c'" "root_of c' = root_of c" "entries c' = del_entry k (entries c)"
        "height c' \<le> height c" "set (pages c') \<subseteq> set (pages c)" "avail s2 = avail s \<union> set (key_chain k (entries c))"
        "\<And>q. q \<notin> set (pages c) \<Longrightarrow> view s2 q = view s q"
      using Suc.IH [OF g(2) _ _ gr(3,4)] unfolding g(3,4) by blast
    have "split_trees None lo' hi' [c']" using d(3) by (simp add: split_trees_def tree_ok_def)
    then obtain cs' r' where n: "kids cs' r' = L @ [c'] @ R" "ordered lo hi (TNode p cs' r')" "grafted cs r k p None cs' r'"
      using gr(8) d(4) by force
    have nd: "inode cs' r' = inode cs r" using n(3) by (simp add: grafted_def Let_def)
    have LR: "\<forall>u\<in>set (L @ R). tree_rep (view s2) u"
    proof (rule forest_rep_cong [of _ "view s"])
      show "\<forall>u\<in>set (L @ R). tree_rep (view s) u" using trep(3) by auto
      show "view s2 q = view s q" if "q \<in> set (fpages (L @ R))" for q
        using that d(9) [of q] tk(3) [unfolded pgs] by auto
    qed
    have "view s2 p = view s p" using d(9) [of p] tk(3) [unfolded pgs] by auto
    then have rep: "tree_rep (view s2) (TNode p cs' r')"
      using b trep(1,2) LR d(3) TNode unfolding tree_rep_node nd n(1) tree_ok_def by auto
    have av: "avail s2 \<subseteq> avail s \<union> set (pages c)" using d(8) key_chain_pages [of k c] by auto
    have pg': "pages (TNode p cs' r') = p # fpages L @ pages c' @ fpages R" unfolding pages_kids n(1) by simp
    have ok: "tree_ok (view s2) (avail s2) lo hi (TNode p cs' r')"
      unfolding tree_ok_def
    proof (intro conjI)
      show "distinct (pages (TNode p cs' r'))" using tk(3) [unfolded pgs] d(3,7) unfolding pg' tree_ok_def by auto
      show "set (pages (TNode p cs' r')) \<inter> avail s2 = {}"
        using tk(3,4) [unfolded pgs] d(3) av unfolding pg' tree_ok_def by auto
      show "1 \<notin> set (tl (pages (TNode p cs' r')))" using tk(5) [unfolded pgs] c1 d(7) unfolding pg' by auto
    qed (rule rep, rule n(2))
    have e: "entries t = trees_entries L @ entries c @ trees_entries R" "entries (TNode p cs' r') = trees_entries L @ entries c' @ trees_entries R"
      unfolding TNode entries_kids gr(1) n(1) by simp_all
    have ents: "entries (TNode p cs' r') = del_entry k (entries t)" "lookup (entries t) k = lookup (entries c) k"
      unfolding e d(5) using del_middle [OF gr(6,7)] lookup_middle [OF gr(6,7)] by simp_all
    have "height (TNode p cs' r') \<le> Suc (height t - 1)"
      using hk d(6) unfolding height_kids n(1) by force
    moreover have "delete_rec S (Suc f) s (root_of t) k = Ok (lookup (entries t) k \<noteq> None, s2)"
      using g(1) d(1) gr(5) TNode unfolding ents(2) by simp
    moreover have "key_chain k (entries t) = key_chain k (entries c)"
      unfolding e(1) by (rule key_chain_middle [OF gr(6,7)])
    ultimately show ?thesis using d(2,7-9) ok ents(1) ht TNode unfolding pgs
      by (intro exI [of _ s2] exI [of _ "TNode p cs' r'"]) (auto simp: pg' simp del: pages.simps)
  qed
qed

end

end
