(* ===== verification/TxStore.thy ===== *)
theory TxStore
  imports Storage BTreeWrite ExecRun
begin

text \<open>
  The transactions of the storage engine as the page sources of the b-tree and of the
  executors: a read transaction is a \<open>page_reader\<close>, a write transaction a \<open>page_store\<close>, and
  the trees either of them shows are tables in the sense of \<open>table_reader\<close>. With these
  interpretations the facts proved in the locales hold for the engine, and a query run on a
  transaction returns the rows its plan denotes.
\<close>

section \<open>Transactions are page stores\<close>

interpretation read_tx: page_reader "read_tx_source tx" engine_inv
    "\<lambda>e. engine_view e (sn_version (rt_snapshot tx))" for tx
proof
  fix e p b
  assume "engine_inv e" and "engine_view e (sn_version (rt_snapshot tx)) p = Some b"
  from read_page_at_ok [OF this] show "\<exists>page s'. po_get (read_tx_source tx) e p = Ok (page, s') \<and> rp_id page = p
      \<and> page_wf page \<and> page_body p (rp_data page) = b \<and> engine_inv s'
      \<and> engine_view s' (sn_version (rt_snapshot tx)) = engine_view e (sn_version (rt_snapshot tx))"
    by (auto simp: read_tx_source_def read_tx_get_page_def page_ok_def)
qed

lemma tx_get_avail: "tx_get_page st p = Ok (page, st') \<Longrightarrow> tx_avail st' = tx_avail st"
  by (auto simp: tx_get_page_def tx_avail_def obind_eq_Ok split: prod.splits option.splits)

lemma tx_avail_valid: "tx_inv st \<Longrightarrow> p \<in> tx_avail st \<Longrightarrow> p \<noteq> 0 \<and> p \<noteq> 1"
proof -
  assume a: "tx_inv st" "p \<in> tx_avail st"
  have "1 < unat p"
    using a by (cases st) (auto simp: tx_inv_def tx_avail_def alloc_ok_def word_less_nat_alt word_le_nat_alt)
  then show ?thesis by auto
qed

interpretation write_tx: page_store tx_ops tx_inv tx_view tx_avail
proof
  fix st p b assume "tx_inv st" and "tx_view st p = Some b"
  from tx_get_page_ok [OF this] show "\<exists>page s'. po_get tx_ops st p = Ok (page, s') \<and> rp_id page = p
      \<and> page_wf page \<and> page_body p (rp_data page) = b \<and> tx_inv s' \<and> tx_view s' = tx_view st"
    by (auto simp: tx_ops_def page_ok_def)
next
  fix st p page s' assume "po_get tx_ops st p = Ok (page, s')"
  then show "tx_avail s' = tx_avail st" by (simp add: tx_ops_def tx_get_avail)
next
  fix st assume "tx_inv st" and "tx_avail st \<noteq> {}"
  from tx_alloc_page_ok [OF this] show "\<exists>p s'. po_alloc tx_ops st = Ok (p, s') \<and> p \<in> tx_avail st \<and> tx_inv s'
      \<and> tx_view s' = tx_view st \<and> tx_avail s' = tx_avail st - {p}"
    by (auto simp: tx_ops_def)
next
  fix st and page :: raw_page assume "tx_inv st" and "page_wf page" and "rp_id page \<noteq> 0"
  from tx_write_page_ok [OF this] show "\<exists>s'. po_put tx_ops st page = Ok s' \<and> tx_inv s' \<and> tx_avail s' = tx_avail st
      \<and> tx_view s' = (tx_view st)(rp_id page \<mapsto> page_body (rp_id page) (rp_data page))"
    by (auto simp: tx_ops_def)
next
  fix st p assume "tx_inv st" and "p \<notin> tx_avail st" and "p \<noteq> 0" and "p \<noteq> 1"
  from tx_free_page_ok [OF this] show "\<exists>s'. po_free tx_ops st p = Ok s' \<and> tx_inv s'
      \<and> tx_avail s' = insert p (tx_avail st) \<and> (\<forall>q. q \<noteq> p \<longrightarrow> tx_view s' q = tx_view st q)"
    by (auto simp: tx_ops_def)
next
  fix st p assume "tx_inv st" and "p \<in> tx_avail st"
  then show "p \<noteq> 0 \<and> p \<noteq> 1" by (rule tx_avail_valid)
qed

section \<open>Trees are tables\<close>

definition tree_good :: "(page_id \<Rightarrow> bytes option) \<Rightarrow> nat \<Rightarrow> btree \<Rightarrow> bool" where
  "tree_good vw fuel t \<longleftrightarrow>
     tree_rep vw t \<and> ordered (i64_min - 1) i64_max t \<and> fuel_ok fuel t \<and> leaf_count t \<le> fuel"

definition table_rows :: "btree \<Rightarrow> (i64 \<times> bytes) list" where
  "table_rows t = map (\<lambda>e. (entry_key e, entry_val e)) (entries t)"

lemma table_rows_sorted: "tree_good vw fuel t \<Longrightarrow> sorted_wrt (<) (map fst (table_rows t))"
  using ordered_entries by (auto simp: tree_good_def table_rows_def o_def)

lemma find_table_rows:
  "find (\<lambda>e. k \<le> fst e) (table_rows t) =
     (case filter (\<lambda>e. k \<le> entry_key e) (entries t) of [] \<Rightarrow> None | e # _ \<Rightarrow> Some (entry_key e, entry_val e))"
  unfolding table_rows_def find_split filter_map o_def fst_conv
  by (cases "filter (\<lambda>e. k \<le> entry_key e) (entries t)") simp_all

lemma scan_fetch_ok:
  assumes "page_reader (xc_source X) ok view" and "ok s" and "tree_good (view s) (xc_fuel X) t"
  shows "\<exists>s'. ok s' \<and> view s' = view s \<and>
    scan_fetch X (root_of t) k s = Ok (find (\<lambda>e. k \<le> fst e) (table_rows t), s')"
proof -
  let ?L = "filter (\<lambda>e. k \<le> entry_key e) (entries t)"
  have t: "tree_rep (view s) t" "ordered (i64_min - 1) i64_max t" "fuel_ok (xc_fuel X) t"
    "leaf_count t \<le> xc_fuel X"
    using assms(3) by (auto simp: tree_good_def)
  have "i64_min - 1 < int_of_i64 k" using int_of_i64_bounds(1) [of k] by simp
  from page_reader.cursor_seek_loop_ok [OF assms(1,2) t(1,2) this t(3) order.refl, of "[]"]
  obtain c s1 n where c: "cursor_seek_loop (xc_source X) (xc_fuel X) s (root_of t) k [] = Ok (c, s1)" "ok s1"
    "view s1 = view s" "n < leaf_count t" "cursor_rep (view s1) (xc_fuel X) c ?L n"
    by (auto simp: stack_ok_def)
  have "n < xc_fuel X" using c(4) t(4) by simp
  from page_reader.cursor_next_ok [OF assms(1) c(2,5) this] c(1,3)
  show ?thesis
    by (cases ?L) (auto simp: scan_fetch_def cursor_seek_def find_table_rows)
qed

text \<open>The tables a transaction shows, by their root pages.\<close>

definition trees_good :: "(page_id \<Rightarrow> bytes option) \<Rightarrow> nat \<Rightarrow> (page_id \<Rightarrow> btree option) \<Rightarrow> bool" where
  "trees_good vw fuel trees \<longleftrightarrow> (\<forall>p t. trees p = Some t \<longrightarrow> root_of t = p \<and> tree_good vw fuel t)"

definition tables_of :: "(page_id \<Rightarrow> btree option) \<Rightarrow> page_id \<Rightarrow> (i64 \<times> bytes) list" where
  "tables_of trees p = (case trees p of None \<Rightarrow> [] | Some t \<Rightarrow> table_rows t)"

definition reads_tables ::
    "('s \<Rightarrow> bool) \<Rightarrow> ('s \<Rightarrow> page_id \<Rightarrow> bytes option) \<Rightarrow> nat \<Rightarrow> (page_id \<Rightarrow> btree option)
     \<Rightarrow> (page_id \<Rightarrow> bytes option) \<Rightarrow> 's \<Rightarrow> bool" where
  "reads_tables ok view fuel trees vw s \<longleftrightarrow> ok s \<and> view s = vw \<and> trees_good vw fuel trees"

lemma table_reader_of_page_reader:
  assumes "page_reader (xc_source X) ok view"
  shows "table_reader X (reads_tables ok view (xc_fuel X) trees vw) (tables_of trees) (dom trees)"
proof
  fix s p assume "reads_tables ok view (xc_fuel X) trees vw s" and "p \<in> dom trees"
  then obtain t where "trees p = Some t" "tree_good vw (xc_fuel X) t"
    by (auto simp: reads_tables_def trees_good_def)
  then show "sorted_wrt (<) (map fst (tables_of trees p))" by (simp add: tables_of_def table_rows_sorted)
next
  fix s p k assume r: "reads_tables ok view (xc_fuel X) trees vw s" and "p \<in> dom trees"
  then obtain t where t: "trees p = Some t" "root_of t = p" "tree_good (view s) (xc_fuel X) t"
    by (auto simp: reads_tables_def trees_good_def)
  have "ok s" using r by (simp add: reads_tables_def)
  from scan_fetch_ok [OF assms this t(3), of k] r t show "\<exists>s'. reads_tables ok view (xc_fuel X) trees vw s'
      \<and> scan_fetch X p k s = Ok (find (\<lambda>e. k \<le> fst e) (tables_of trees p), s')"
    by (auto simp: reads_tables_def tables_of_def)
qed

text \<open>A \<open>SELECT\<close> outside a transaction reads through a read transaction, inside one through it.\<close>

definition read_ctx :: "read_tx \<Rightarrow> nat \<Rightarrow> 'j platform \<Rightarrow> 'j sql_value list \<Rightarrow> ('j, engine) exec_ctx" where
  "read_ctx tx fuel pf params =
     \<lparr>xc_source = read_tx_source tx, xc_fuel = fuel, xc_pf = pf, xc_params = params\<rparr>"

definition write_ctx :: "nat \<Rightarrow> 'j platform \<Rightarrow> 'j sql_value list \<Rightarrow> ('j, tx_state) exec_ctx" where
  "write_ctx fuel pf params =
     \<lparr>xc_source = \<lparr>po_get = tx_get_page\<rparr>, xc_fuel = fuel, xc_pf = pf, xc_params = params\<rparr>"

interpretation read_tables: table_reader "read_ctx tx fuel pf params"
    "reads_tables engine_inv (\<lambda>e. engine_view e (sn_version (rt_snapshot tx))) fuel trees vw"
    "tables_of trees" "dom trees" for tx fuel pf params trees vw
proof -
  have "page_reader (xc_source (read_ctx tx fuel pf params)) engine_inv
      (\<lambda>e. engine_view e (sn_version (rt_snapshot tx)))"
    using read_tx.page_reader_axioms by (simp add: read_ctx_def)
  from table_reader_of_page_reader [OF this, of trees vw]
  show "table_reader (read_ctx tx fuel pf params)
     (reads_tables engine_inv (\<lambda>e. engine_view e (sn_version (rt_snapshot tx))) fuel trees vw)
     (tables_of trees) (dom trees)" by (simp add: read_ctx_def)
qed

interpretation write_tables: table_reader "write_ctx fuel pf params"
    "reads_tables tx_inv tx_view fuel trees vw" "tables_of trees" "dom trees" for fuel pf params trees vw
proof -
  have "page_reader (xc_source (write_ctx fuel pf params)) tx_inv tx_view"
  proof
    fix st p b assume "tx_inv st" and "tx_view st p = Some b"
    from tx_get_page_ok [OF this] show "\<exists>page s'. po_get (xc_source (write_ctx fuel pf params)) st p = Ok (page, s')
        \<and> rp_id page = p \<and> page_wf page \<and> page_body p (rp_data page) = b \<and> tx_inv s' \<and> tx_view s' = tx_view st"
      by (auto simp: write_ctx_def page_ok_def)
  qed
  from table_reader_of_page_reader [OF this, of trees vw]
  show "table_reader (write_ctx fuel pf params) (reads_tables tx_inv tx_view fuel trees vw)
     (tables_of trees) (dom trees)" by (simp add: write_ctx_def)
qed

end
