(* ===== verification/StorageSteps.thy ===== *)
theory StorageSteps
  imports Storage
begin

text \<open>
  The engine and its transactions as a state machine: any number of read transactions, the
  write transaction behind the gate, commits that succeed or fail on an I/O error, and
  checkpoints, interleaved in any order. The invariant of every reachable state, and what
  it gives: snapshots that never move, one writer at a time, commits that are seen whole or
  not at all. A step is one method call of \<open>squrust-core/src/storage/mod.rs\<close>; the races
  inside a call are not modelled.
\<close>

section \<open>The state machine\<close>

record sys =
  sy_engine :: engine
  sy_readers :: "read_tx list"
  sy_writers :: "write_tx list"

text \<open>
  What a caller of a write transaction observes: it writes whole pages other than page 0
  and frees only pages it holds. \<open>hv\<close> is the iteration order of the hash map of pages, \<open>F\<close>
  the I/O faults that can happen during a commit.
\<close>

inductive tx_op :: "tx_state \<Rightarrow> tx_state \<Rightarrow> bool" where
  get: "tx_get_page st p = Ok (page, st') \<Longrightarrow> tx_op st st'"
| alloc: "tx_alloc_page st = Ok (p, st') \<Longrightarrow> tx_op st st'"
| put: "tx_write_page st page = Ok st' \<Longrightarrow> page_wf page \<Longrightarrow> rp_id page \<noteq> 0 \<Longrightarrow> tx_op st st'"
| free: "tx_free_page st p = Ok st' \<Longrightarrow> p \<notin> tx_avail st \<Longrightarrow> p \<noteq> 0 \<Longrightarrow> p \<noteq> 1 \<Longrightarrow> tx_op st st'"

inductive sys_step :: "((page_id \<times> raw_page) list \<Rightarrow> raw_page list) \<Rightarrow> io_fault set \<Rightarrow> sys \<Rightarrow> sys \<Rightarrow> bool"
  for hv F where
  open_read: "begin_read e = (tx, e') \<Longrightarrow> sys_step hv F \<lparr>sy_engine = e, sy_readers = rs, sy_writers = ws\<rparr>
     \<lparr>sy_engine = e', sy_readers = tx # rs, sy_writers = ws\<rparr>"
| read_page: "tx \<in> set rs \<Longrightarrow> read_tx_get_page tx e p = Ok (page, e') \<Longrightarrow>
     sys_step hv F \<lparr>sy_engine = e, sy_readers = rs, sy_writers = ws\<rparr>
     \<lparr>sy_engine = e', sy_readers = rs, sy_writers = ws\<rparr>"
| close_read: "tx \<in> set rs \<Longrightarrow> sys_step hv F \<lparr>sy_engine = e, sy_readers = rs, sy_writers = ws\<rparr>
     \<lparr>sy_engine = read_tx_drop tx e, sy_readers = remove1 tx rs, sy_writers = ws\<rparr>"
| open_write: "begin_write e = Ok (tx, e') \<Longrightarrow> sys_step hv F \<lparr>sy_engine = e, sy_readers = rs, sy_writers = ws\<rparr>
     \<lparr>sy_engine = e', sy_readers = rs, sy_writers = tx # ws\<rparr>"
| operate: "tx_op (e, tx) (e', tx') \<Longrightarrow> sys_step hv F \<lparr>sy_engine = e, sy_readers = rs, sy_writers = ws1 @ tx # ws2\<rparr>
     \<lparr>sy_engine = e', sy_readers = rs, sy_writers = ws1 @ tx' # ws2\<rparr>"
| commit: "tx_commit NoFault hv e tx = (Ok (), e', tx') \<Longrightarrow>
     sys_step hv F \<lparr>sy_engine = e, sy_readers = rs, sy_writers = ws1 @ tx # ws2\<rparr>
     \<lparr>sy_engine = tx_drop e' tx', sy_readers = rs, sy_writers = ws1 @ ws2\<rparr>"
| commit_fails: "fault \<in> F \<Longrightarrow> tx_commit fault hv e tx = (Err err, e', tx') \<Longrightarrow>
     sys_step hv F \<lparr>sy_engine = e, sy_readers = rs, sy_writers = ws1 @ tx # ws2\<rparr>
     \<lparr>sy_engine = tx_drop e' tx', sy_readers = rs, sy_writers = ws1 @ ws2\<rparr>"
| rollback: "sys_step hv F \<lparr>sy_engine = e, sy_readers = rs, sy_writers = ws1 @ tx # ws2\<rparr>
     \<lparr>sy_engine = tx_drop e tx, sy_readers = rs, sy_writers = ws1 @ ws2\<rparr>"
| checkpoint: "engine_checkpoint e = Ok e' \<Longrightarrow> sys_step hv F \<lparr>sy_engine = e, sy_readers = rs, sy_writers = ws\<rparr>
     \<lparr>sy_engine = e', sy_readers = rs, sy_writers = ws\<rparr>"

inductive_cases tx_opE: "tx_op st st'"
inductive_cases sys_stepE: "sys_step hv F s s'"

text \<open>The states reached from an engine that has just been opened.\<close>

inductive reachable ::
    "((page_id \<times> raw_page) list \<Rightarrow> raw_page list) \<Rightarrow> io_fault set \<Rightarrow> engine \<Rightarrow> sys \<Rightarrow> bool" for hv F e where
  start: "reachable hv F e \<lparr>sy_engine = e, sy_readers = [], sy_writers = []\<rparr>"
| more: "reachable hv F e s \<Longrightarrow> sys_step hv F s s' \<Longrightarrow> reachable hv F e s'"

definition rt_version :: "read_tx \<Rightarrow> u64" where
  "rt_version tx = sn_version (rt_snapshot tx)"

text \<open>
  The invariant: the engine's, its count of readers is the number of open readers, and the
  gate is held exactly by the one open write transaction.
\<close>

definition log_ok :: "engine \<Rightarrow> bool" where
  "log_ok e \<longleftrightarrow> wi_write_offset (en_wal e) \<le> length (wi_file (en_wal e))"

text \<open>
  The files hold the committed state: the database file has a header, and the log is the
  bytes of the commits that the index was built from.
\<close>

definition durable :: "engine \<Rightarrow> bool" where
  "durable e \<longleftrightarrow> (\<exists>h. file_open (en_file e) = Ok (en_file e, h)) \<and>
     (\<exists>cs. list_all commit_ok cs \<and> wi_file (en_wal e) = log_bytes cs
       \<and> wi_write_offset (en_wal e) = length (log_bytes cs) \<and> wi_index (en_wal e) = wi_index (wal_of 1 cs))"

definition started :: "engine \<Rightarrow> bool" where
  "started e \<longleftrightarrow> engine_inv e \<and> log_ok e \<and> durable e \<and> \<not> en_gate e \<and> (\<forall>v. reader_count (en_mvcc e) v = 0)"

definition readers_ok :: "engine \<Rightarrow> read_tx list \<Rightarrow> bool" where
  "readers_ok e rs \<longleftrightarrow> (\<forall>v. reader_count (en_mvcc e) v = count_list (map rt_version rs) v)"

fun writers_ok :: "engine \<Rightarrow> write_tx list \<Rightarrow> bool" where
  "writers_ok e [] \<longleftrightarrow> \<not> en_gate e"
| "writers_ok e [tx] \<longleftrightarrow> en_gate e \<and> tx_inv (e, tx) \<and> \<not> wt_finished tx"
| "writers_ok e (tx # tx' # ws) \<longleftrightarrow> False"

definition sys_inv :: "sys \<Rightarrow> bool" where
  "sys_inv s \<longleftrightarrow> engine_inv (sy_engine s) \<and> log_ok (sy_engine s)
     \<and> readers_ok (sy_engine s) (sy_readers s) \<and> writers_ok (sy_engine s) (sy_writers s)"

text \<open>A step of the engine that keeps the committed version and what it shows.\<close>

definition quiet :: "engine \<Rightarrow> engine \<Rightarrow> bool" where
  "quiet e e' \<longleftrightarrow> engine_inv e' \<and> log_ok e' \<and> en_gate e' = en_gate e
     \<and> mv_committed (en_mvcc e') = mv_committed (en_mvcc e)"

lemma tx_inv_quiet: "tx_inv (e, tx) \<Longrightarrow> quiet e e' \<Longrightarrow> tx_inv (e', tx)"
  by (auto simp: tx_inv_def quiet_def)

lemma reader_count_le:
  assumes "engine_inv e" and "0 < reader_count (en_mvcc e) v"
  shows "v \<le> mv_committed (en_mvcc e)"
  using assms by (auto simp: engine_inv_def mvcc_inv_iff reader_count_def split: option.splits)

section \<open>Reads and checkpoints\<close>

lemma read_page_at_cases:
  assumes "engine_inv e" and "read_page_at e p v = Ok (page, e')"
  shows "\<exists>c. e' = e\<lparr>en_cache := c\<rparr> \<and> engine_inv e'"
proof (cases "engine_view e v p")
  case None
  with read_page_at_out_of_range [OF assms(1) None] assms(2) show ?thesis by auto
next
  case (Some b)
  with read_page_at_ok [OF assms(1) Some] assms(2) show ?thesis by auto
qed

lemma begin_read_ok:
  assumes "engine_inv e" and "begin_read e = (tx, e')"
  shows "engine_inv e' \<and> engine_view e' = engine_view e \<and> en_gate e' = en_gate e \<and> en_wal e' = en_wal e
    \<and> mv_committed (en_mvcc e') = mv_committed (en_mvcc e) \<and> rt_version tx = mv_committed (en_mvcc e)
    \<and> (\<forall>v. reader_count (en_mvcc e') v = reader_count (en_mvcc e) v + (if v = rt_version tx then 1 else 0))"
proof -
  let ?m = "snd (mvcc_begin_read (en_mvcc e))"
  have e': "e' = e\<lparr>en_mvcc := ?m\<rparr>" "rt_version tx = mv_committed (en_mvcc e)"
    using assms(2) by (auto simp: begin_read_def mvcc_begin_read_def Let_def rt_version_def)
  have m: "mvcc_inv (en_mvcc e)" using assms(1) by (simp add: engine_inv_def)
  have c: "mv_committed ?m = mv_committed (en_mvcc e)" by (simp add: mvcc_begin_read_def Let_def)
  show ?thesis
    using assms(1) e' c mvcc_inv_begin_read [OF m] reader_count_begin_read [OF m] by (simp add: engine_inv_def)
qed

lemma read_tx_drop_ok:
  assumes "engine_inv e"
  shows "engine_inv (read_tx_drop tx e) \<and> engine_view (read_tx_drop tx e) = engine_view e
    \<and> en_gate (read_tx_drop tx e) = en_gate e \<and> en_wal (read_tx_drop tx e) = en_wal e
    \<and> mv_committed (en_mvcc (read_tx_drop tx e)) = mv_committed (en_mvcc e)
    \<and> (\<forall>v. reader_count (en_mvcc (read_tx_drop tx e)) v
        = reader_count (en_mvcc e) v - (if v = rt_version tx then 1 else 0))"
proof -
  have m: "mvcc_inv (en_mvcc e)" using assms by (simp add: engine_inv_def)
  have c: "mv_committed (mvcc_end_read s (en_mvcc e)) = mv_committed (en_mvcc e)" for s by (simp add: mvcc_end_read_def)
  show ?thesis
    using assms c mvcc_inv_end_read [OF m] reader_count_end_read [OF m]
    by (simp add: engine_inv_def read_tx_drop_def rt_version_def)
qed

lemma checkpoint_ok:
  assumes "engine_inv e" and "log_ok e" and "engine_checkpoint e = Ok e'"
  shows "quiet e e' \<and> en_mvcc e' = en_mvcc e
    \<and> (\<forall>v p b. 0 < reader_count (en_mvcc e) v \<or> v = mv_committed (en_mvcc e) \<longrightarrow>
         engine_view e v p = Some b \<longrightarrow> engine_view e' v p = Some b)"
proof (cases "may_checkpoint e")
  case False
  with assms show ?thesis by (simp add: engine_checkpoint_def quiet_def)
next
  case True
  obtain e1 where e1: "engine_fold_wal e = Ok e1" "engine_inv e1" "en_mvcc e1 = en_mvcc e" "en_gate e1 = en_gate e"
    "\<And>v p b. mv_committed (en_mvcc e) \<le> v \<Longrightarrow> engine_view e v p = Some b \<Longrightarrow> engine_view e1 v p = Some b"
    using engine_fold_wal_ok [OF assms(1)] by blast
  then have e': "e' = e1" using assms(3) True by (simp add: engine_checkpoint_def)
  have log: "log_ok e1"
    using e1(1) assms(2) by (auto simp: engine_fold_wal_def wal_checkpoint_def log_ok_def obind_eq_Ok split: if_splits)
  have "mv_committed (en_mvcc e) \<le> v"
    if "0 < reader_count (en_mvcc e) v \<or> v = mv_committed (en_mvcc e)" for v
    using that True oldest_le_reader [of "en_mvcc e" v] assms(1)
    by (auto simp: may_checkpoint_def current_version_def engine_inv_def)
  with e1 e' log show ?thesis by (auto simp: quiet_def)
qed

section \<open>Write transactions\<close>

text \<open>An operation of the transaction changes the cache of the engine at most.\<close>

lemma tx_op_ok:
  assumes "tx_op (e, tx) (e', tx')" and "tx_inv (e, tx)"
  shows "tx_inv (e', tx') \<and> wt_finished tx' = wt_finished tx \<and> (\<exists>c. e' = e\<lparr>en_cache := c\<rparr>)"
  using assms(1)
proof (cases rule: tx_op.cases)
  case (get p page)
  have g: "tx_get_page (e, tx) p = Ok (page, (e', tx'))" using get by simp
  show ?thesis
  proof (cases "map_of (wt_pending tx) p")
    case None
    with g have r: "read_page_at e p (sn_version (wt_snapshot tx)) = Ok (page, e')" "tx' = tx"
      by (auto simp add: tx_get_page_def obind_eq_Ok)
    have "engine_inv e" using assms(2) by (simp add: tx_inv_def)
    from read_page_at_cases [OF this r(1)] obtain c where c: "e' = e\<lparr>en_cache := c\<rparr>" "engine_inv e'" by blast
    have "tx_inv (e', tx)" using assms(2) c by (simp add: tx_inv_def)
    with r(2) c(1) show ?thesis by blast
  next
    case (Some q)
    with g have "e' = e" "tx' = tx" by (simp_all add: tx_get_page_def)
    with assms(2) show ?thesis by (intro conjI exI [of _ "en_cache e"]) simp_all
  qed
next
  case (alloc p)
  then have "tx_avail (e, tx) \<noteq> {}"
    by (auto simp: tx_alloc_page_def tx_avail_def Let_def word_less_succ split: if_splits)
  from tx_alloc_page_ok [OF assms(2) this] alloc have "tx_inv (e', tx')" by simp
  moreover have "e' = e" "wt_finished tx' = wt_finished tx"
    using alloc by (auto simp: tx_alloc_page_def Let_def split: if_splits)
  ultimately show ?thesis by (intro conjI exI [of _ "en_cache e"]) simp_all
next
  case (put page)
  from tx_write_page_ok [OF assms(2) put(2,3)] put(1) have "tx_inv (e', tx')" by simp
  moreover have "e' = e" "wt_finished tx' = wt_finished tx" using put(1) by (auto simp: tx_write_page_def)
  ultimately show ?thesis by (intro conjI exI [of _ "en_cache e"]) simp_all
next
  case (free p)
  from tx_free_page_ok [OF assms(2) free(2-4)] free(1) have "tx_inv (e', tx')" by simp
  moreover have "e' = e" "wt_finished tx' = wt_finished tx" using free(1) by (auto simp: tx_free_page_def)
  ultimately show ?thesis by (intro conjI exI [of _ "en_cache e"]) simp_all
qed

lemma write_frames_grows: "length bs \<le> length (snd (write_frames fault bs off fs))"
proof (induction fault bs off fs rule: write_frames.induct)
  case (2 fault bs off f fs)
  then show ?case
    by (force simp: length_file_write_at split: outcome.split io_fault.split nat.split)
qed simp

lemma append_commit_fails:
  assumes "append_commit fault w fs v n = (Err err, w')"
  shows "\<exists>bs. w' = w\<lparr>wi_file := bs\<rparr> \<and> length (wi_file w) \<le> length bs"
proof -
  let ?st = "stamp_frames v n fs"
  have "length (wi_file w) \<le> length (snd (write_frames fault (wi_file w) (wi_write_offset w) ?st))"
    by (rule write_frames_grows)
  with assms show ?thesis
    by (auto simp: append_commit_def Let_def split: if_splits prod.splits outcome.splits)
qed

text \<open>A commit that fails changes the log file past its end and the cache, and nothing that is seen.\<close>

lemma tx_commit_fails:
  assumes "tx_inv (e, tx)" and "log_ok e" and "tx_commit fault hv e tx = (Err err, e', tx')"
  shows "tx' = tx \<and> quiet e e' \<and> en_mvcc e' = en_mvcc e \<and> engine_view e' = engine_view e"
proof -
  from assms(3) obtain v where v: "reserve_commit_version (en_mvcc e) = Ok v"
    by (auto simp: tx_commit_def reserve_commit_version_def checked_succ_def split: if_splits)
  let ?pages = "hv (wt_pending tx)"
  let ?fs = "map (page_frame (wi_salt (en_wal e)) v) ?pages"
  let ?cache = "fold (\<lambda>p. cache_invalidate (rp_id p)) ?pages (en_cache e)"
  from assms(3) v obtain w where w: "append_commit fault (en_wal e) ?fs v (wt_local_page_count tx) = (Err err, w)"
      "e' = e\<lparr>en_cache := ?cache, en_wal := w\<rparr>" "tx' = tx"
    by (auto simp: tx_commit_def Let_def split: if_splits prod.splits outcome.splits)
  obtain bs where f: "w = (en_wal e)\<lparr>wi_file := bs\<rparr>" "length (wi_file (en_wal e)) \<le> length bs"
    using append_commit_fails [OF w(1)] by blast
  have inv: "engine_inv e" using assms(1) by (simp add: tx_inv_def)
  have "cache_coherent ?cache (en_file e)"
    using inv by (auto simp: engine_inv_def cache_invalidate_fold elim!: cache_coherent_sub split: if_splits)
  then have "engine_inv e'"
    using inv w(2) f(1) cache_inv_fold by (auto simp: engine_inv_def)
  moreover have "engine_view e' = engine_view e"
    by (rule ext)+ (simp add: engine_view_def w(2) f(1) wal_read_page_def split: option.split)
  ultimately show ?thesis
    using w f assms(2) by (simp add: quiet_def log_ok_def)
qed

lemma tx_drop_ok: "\<not> wt_finished tx \<Longrightarrow> tx_drop e tx = e\<lparr>en_gate := False\<rparr>"
  by (simp add: tx_drop_def tx_finish_def)

lemma tx_commit_finishes:
  assumes "tx_commit NoFault hv e tx = (Ok (), e', tx')" and "\<not> wt_finished tx"
  shows "tx_drop e' tx' = e'"
  using assms by (auto simp: tx_commit_def Let_def tx_drop_def tx_finish_def split: outcome.splits prod.splits if_splits)

lemma tx_commit_log_ok:
  assumes "tx_inv (e, tx)" and "iterates_values hv" and "\<not> wt_finished tx" and "log_ok e"
    and "tx_commit NoFault hv e tx = (Ok (), e', tx')"
  shows "engine_inv e' \<and> \<not> en_gate e' \<and> log_ok e'
    \<and> mv_committed (en_mvcc e') = mv_committed (en_mvcc e) + 1
    \<and> mv_committed (en_mvcc e) < mv_committed (en_mvcc e) + 1
    \<and> reader_count (en_mvcc e') = reader_count (en_mvcc e)
    \<and> (\<forall>u p. u \<le> mv_committed (en_mvcc e) \<longrightarrow> engine_view e' u p = engine_view e u p)
    \<and> engine_view e' (mv_committed (en_mvcc e')) = tx_view (e, tx)"
proof -
  have v: "mv_committed (en_mvcc e) \<noteq> - 1"
    using assms(5) by (auto simp: tx_commit_def reserve_commit_version_def checked_succ_def)
  have off: "wi_write_offset (en_wal e) \<le> length (wi_file (en_wal e))" using assms(4) by (simp add: log_ok_def)
  from tx_commit_ok [OF assms(1-3) v off] assms(5)
  have c: "engine_inv e' \<and> \<not> en_gate e' \<and> mv_committed (en_mvcc e') = mv_committed (en_mvcc e) + 1
    \<and> reader_count (en_mvcc e') = reader_count (en_mvcc e)
    \<and> (\<forall>u p. u \<le> mv_committed (en_mvcc e) \<longrightarrow> engine_view e' u p = engine_view e u p)
    \<and> engine_view e' (mv_committed (en_mvcc e) + 1) = tx_view (e, tx)"
    and w: "en_wal e' = en_wal e \<or> (\<exists>c. commit_ok c \<and>
          append_commit NoFault (en_wal e) (snd (snd c)) (fst c) (fst (snd c)) = (Ok (), en_wal e'))"
    by auto
  have "log_ok e'"
    using w
  proof
    assume "\<exists>c. commit_ok c \<and>
          append_commit NoFault (en_wal e) (snd (snd c)) (fst c) (fst (snd c)) = (Ok (), en_wal e')"
    then obtain v n fs where "commit_ok (v, n, fs)" "append_commit NoFault (en_wal e) fs v n = (Ok (), en_wal e')"
      by auto
    with append_commit_ok [OF off] have "en_wal e' = (apply_commit (v, n, fs) (en_wal e))
      \<lparr>wi_file := take (wi_write_offset (en_wal e)) (wi_file (en_wal e)) @ commit_log (v, n, fs)
          @ drop (wi_write_offset (en_wal e) + length (commit_log (v, n, fs))) (wi_file (en_wal e)),
       wi_write_offset := wi_write_offset (en_wal e) + length (commit_log (v, n, fs))\<rparr>" by auto
    with off show ?thesis by (simp add: log_ok_def)
  qed (use assms(4) in \<open>simp add: log_ok_def\<close>)
  moreover have "mv_committed (en_mvcc e) < mv_committed (en_mvcc e) + 1"
    using word_less_succ [OF v] by blast
  ultimately show ?thesis using c by simp
qed

section \<open>The invariant\<close>

lemma wal_open_Nil: "wal_open [] n = wal_empty n"
  using wal_open_log [of "[]" "[]" n] by (simp add: wal_of_def wal_empty_def)

lemma engine_open_ok:
  "\<exists>e d. engine_open [] [] = Ok e \<and> started e \<and> mv_committed (en_mvcc e) = 0
    \<and> engine_view e 0 1 = Some (page_body 1 d) \<and> node_at 1 (page_body 1 d) empty_leaf"
proof -
  obtain bs d where f: "file_open [] = Ok (bs, default_header)" "file_open bs = Ok (bs, default_header)"
    "file_page bs 1 = Some d" "node_at 1 (page_body 1 d) empty_leaf"
    using fresh_file_ok by blast
  obtain e where e: "engine_open [] [] = Ok e" "en_file e = bs" "en_wal e = wal_empty (dh_db_size_pages default_header)"
    "en_cache e = cache_with_default_capacity" "en_mvcc e = mvcc_new 0" "\<not> en_gate e" "en_freelist e = []"
    "1 \<le> en_page_count e"
    by (simp add: engine_open_def f(1) wal_open_Nil Let_def wal_empty_def)
  have "durable e"
    unfolding durable_def using e(2,3) f(2) by (auto simp: wal_empty_def wal_of_def intro!: exI [of _ "[]"])
  moreover have "engine_inv e"
    using e f(3) by (simp add: engine_inv_def cache_coherent_def versions_bounded_def index_versions_def alloc_ok_def
        wal_empty_def cache_with_default_capacity_def cache_new_def cache_inv_def cache_len_def mvcc_inv_def mvcc_new_def)
  moreover have "log_ok e" using e(3) by (simp add: log_ok_def wal_empty_def)
  ultimately have "started e" using e(5,6) by (simp add: started_def reader_count_def mvcc_new_def)
  moreover have "engine_view e 0 1 = Some (page_body 1 d)"
    using e(2,3) f(3) by (simp add: engine_view_def wal_read_page_def wal_empty_def)
  ultimately show ?thesis using e(1,5) f(4) by (intro exI [of _ e] exI [of _ d]) (simp add: mvcc_new_def)
qed

lemma writers_ok_app:
  "writers_ok e (ws1 @ tx # ws2) \<longleftrightarrow> ws1 = [] \<and> ws2 = [] \<and> en_gate e \<and> tx_inv (e, tx) \<and> \<not> wt_finished tx"
  by (cases ws1; cases "tl ws1"; cases ws2) auto

lemma sys_inv_writer:
  assumes "sys_inv \<lparr>sy_engine = e, sy_readers = rs, sy_writers = ws1 @ tx # ws2\<rparr>"
  shows "ws1 = []" "ws2 = []" "en_gate e" "tx_inv (e, tx)" "\<not> wt_finished tx"
  using assms by (simp_all add: sys_inv_def writers_ok_app)

lemma sys_invD:
  assumes "sys_inv \<lparr>sy_engine = e, sy_readers = rs, sy_writers = ws\<rparr>"
  shows "engine_inv e" "log_ok e" "readers_ok e rs" "writers_ok e ws"
  using assms by (simp_all add: sys_inv_def)

lemma writers_ok_quiet: "writers_ok e ws \<Longrightarrow> quiet e e' \<Longrightarrow> writers_ok e' ws"
  by (induction e ws rule: writers_ok.induct) (auto simp: quiet_def tx_inv_def)

lemma sys_inv_quiet:
  assumes "sys_inv \<lparr>sy_engine = e, sy_readers = rs, sy_writers = ws\<rparr>" and "quiet e e'" and "readers_ok e' rs'"
  shows "sys_inv \<lparr>sy_engine = e', sy_readers = rs', sy_writers = ws\<rparr>"
  using assms writers_ok_quiet [OF sys_invD(4) [OF assms(1)] assms(2)] by (simp add: sys_inv_def quiet_def)

lemma readers_ok_same: "readers_ok e rs \<Longrightarrow> reader_count (en_mvcc e') = reader_count (en_mvcc e) \<Longrightarrow> readers_ok e' rs"
  by (simp add: readers_ok_def)

lemma reader_counted:
  assumes "readers_ok e rs" and "v \<in> rt_version ` set rs"
  shows "0 < reader_count (en_mvcc e) v"
  using assms count_list_0_iff [of "map rt_version rs" v] by (auto simp: readers_ok_def)

lemma count_remove1:
  "x \<in> set xs \<Longrightarrow> count_list (map f xs) v = count_list (map f (remove1 x xs)) v + (if v = f x then 1 else 0)"
proof (induction xs)
  case (Cons a xs)
  then show ?case by (cases "x = a") simp_all
qed simp

lemma gate_inv [simp]: "engine_inv (e\<lparr>en_gate := g\<rparr>) = engine_inv e" "log_ok (e\<lparr>en_gate := g\<rparr>) = log_ok e"
  by (simp_all add: engine_inv_def log_ok_def)

lemma begin_write_writers:
  assumes "writers_ok e ws" and "begin_write e = Ok (tx, e')"
  shows "ws = []"
  using assms by (induction e ws rule: writers_ok.induct) (auto simp: begin_write_def)

lemma sys_inv_step:
  assumes "iterates_values hv" and "sys_step hv F s s'" and "sys_inv s"
  shows "sys_inv s'"
  using assms(2)
proof (cases rule: sys_step.cases)
  case (open_read e tx e' rs ws)
  note i = sys_invD [OF assms(3) [unfolded open_read(1)]]
  note b = begin_read_ok [OF i(1) open_read(3)]
  have "quiet e e'" using b i(2) by (simp add: quiet_def log_ok_def)
  moreover have "readers_ok e' (tx # rs)" using b i(3) by (simp add: readers_ok_def)
  ultimately show ?thesis using assms(3) unfolding open_read(1,2) by (rule sys_inv_quiet [rotated])
next
  case (read_page tx rs e p page e' ws)
  note i = sys_invD [OF assms(3) [unfolded read_page(1)]]
  obtain c where c: "e' = e\<lparr>en_cache := c\<rparr>" "engine_inv e'"
    using read_page_at_cases [OF i(1) read_page(4) [unfolded read_tx_get_page_def]] by blast
  have "quiet e e'" using c i(2) by (simp add: quiet_def log_ok_def)
  moreover have "readers_ok e' rs" by (rule readers_ok_same [OF i(3)]) (simp add: c(1))
  ultimately show ?thesis using assms(3) unfolding read_page(1,2) by (rule sys_inv_quiet [rotated])
next
  case (close_read tx rs e ws)
  note i = sys_invD [OF assms(3) [unfolded close_read(1)]]
  note b = read_tx_drop_ok [OF i(1), of tx]
  have "quiet e (read_tx_drop tx e)" using b i(2) by (simp add: quiet_def log_ok_def)
  moreover have "readers_ok (read_tx_drop tx e) (remove1 tx rs)"
    using b i(3) by (simp add: readers_ok_def count_remove1 [OF close_read(3)])
  ultimately show ?thesis using assms(3) unfolding close_read(1,2) by (rule sys_inv_quiet [rotated])
next
  case (open_write e tx e' rs ws)
  note i = sys_invD [OF assms(3) [unfolded open_write(1)]]
  have ws: "ws = []" by (rule begin_write_writers [OF i(4) open_write(3)])
  have "\<not> wt_finished tx" "en_wal e' = en_wal e"
    using open_write(3) by (auto simp: begin_write_def obind_eq_Ok split: if_splits)
  with begin_write_ok [OF i(1) open_write(3)] i ws show ?thesis
    unfolding open_write(2) sys_inv_def by (simp add: readers_ok_def log_ok_def tx_inv_def)
next
  case (operate e tx e' tx' rs ws1 ws2)
  note i = sys_invD [OF assms(3) [unfolded operate(1)]]
  note w = sys_inv_writer [OF assms(3) [unfolded operate(1)]]
  obtain c where c: "tx_inv (e', tx')" "wt_finished tx' = wt_finished tx" "e' = e\<lparr>en_cache := c\<rparr>"
    using tx_op_ok [OF operate(3) w(4)] by blast
  have "engine_inv e'" "log_ok e'" using c i(2) by (simp_all add: tx_inv_def log_ok_def)
  moreover have "readers_ok e' rs" by (rule readers_ok_same [OF i(3)]) (simp add: c(3))
  ultimately show ?thesis using w c unfolding operate(2) sys_inv_def by simp
next
  case (commit e tx e' tx' rs ws1 ws2)
  note i = sys_invD [OF assms(3) [unfolded commit(1)]]
  note w = sys_inv_writer [OF assms(3) [unfolded commit(1)]]
  note c = tx_commit_log_ok [OF w(4) assms(1) w(5) i(2) commit(3)]
  have "readers_ok e' rs" by (rule readers_ok_same [OF i(3)]) (simp add: c)
  with c tx_commit_finishes [OF commit(3) w(5)] w(1,2) show ?thesis unfolding commit(2) sys_inv_def by simp
next
  case (commit_fails fault e tx err e' tx' rs ws1 ws2)
  note i = sys_invD [OF assms(3) [unfolded commit_fails(1)]]
  note w = sys_inv_writer [OF assms(3) [unfolded commit_fails(1)]]
  note c = tx_commit_fails [OF w(4) i(2) commit_fails(4)]
  have d: "tx_drop e' tx' = e'\<lparr>en_gate := False\<rparr>" using c w(5) by (simp add: tx_drop_ok)
  have "readers_ok (tx_drop e' tx') rs" by (rule readers_ok_same [OF i(3)]) (use c d in simp)
  moreover have "engine_inv (tx_drop e' tx')" "log_ok (tx_drop e' tx')"
    using c d by (simp_all add: quiet_def)
  ultimately show ?thesis using w(1,2) d unfolding commit_fails(2) sys_inv_def by simp
next
  case (rollback e rs ws1 tx ws2)
  note i = sys_invD [OF assms(3) [unfolded rollback(1)]]
  note w = sys_inv_writer [OF assms(3) [unfolded rollback(1)]]
  have d: "tx_drop e tx = e\<lparr>en_gate := False\<rparr>" using w(5) by (simp add: tx_drop_ok)
  have "readers_ok (tx_drop e tx) rs" by (rule readers_ok_same [OF i(3)]) (simp add: d)
  moreover have "engine_inv (tx_drop e tx)" "log_ok (tx_drop e tx)"
    using i(1,2) d by simp_all
  ultimately show ?thesis using w(1,2) d unfolding rollback(2) sys_inv_def by simp
next
  case (checkpoint e e' rs ws)
  note i = sys_invD [OF assms(3) [unfolded checkpoint(1)]]
  note c = checkpoint_ok [OF i(1,2) checkpoint(3)]
  have "readers_ok e' rs" by (rule readers_ok_same [OF i(3)]) (simp add: c)
  with c assms(3) show ?thesis unfolding checkpoint(1,2) by (rule_tac sys_inv_quiet) auto
qed

lemma started_inv: "started e \<Longrightarrow> sys_inv \<lparr>sy_engine = e, sy_readers = [], sy_writers = []\<rparr>"
  by (simp add: started_def sys_inv_def readers_ok_def)

lemma reachable_inv:
  assumes "iterates_values hv" and "started e" and "reachable hv F e s"
  shows "sys_inv s"
  using assms(3)
proof (induction rule: reachable.induct)
  case start
  show ?case by (rule started_inv [OF assms(2)])
next
  case (more s s')
  with sys_inv_step [OF assms(1)] show ?case by blast
qed

text \<open>What a step keeps: the pages of the snapshots of the readers and of the committed version.\<close>

lemma step_keeps:
  assumes "iterates_values hv" and "sys_step hv F s s'" and "sys_inv s"
    and "v \<in> rt_version ` set (sy_readers s)" and "engine_view (sy_engine s) v p = Some b"
  shows "engine_view (sy_engine s') v p = Some b"
  using assms(2)
proof (cases rule: sys_step.cases)
  case (open_read e tx e' rs ws)
  from begin_read_ok [OF sys_invD(1) [OF assms(3) [unfolded open_read(1)]] open_read(3)] assms(5)
  show ?thesis by (simp add: open_read(1,2))
next
  case (read_page tx rs e p' page e' ws)
  obtain c where "e' = e\<lparr>en_cache := c\<rparr>"
    using read_page_at_cases [OF sys_invD(1) [OF assms(3) [unfolded read_page(1)]]
        read_page(4) [unfolded read_tx_get_page_def]] by blast
  with assms(5) show ?thesis by (simp add: read_page(1,2))
next
  case (close_read tx rs e ws)
  from read_tx_drop_ok [OF sys_invD(1) [OF assms(3) [unfolded close_read(1)]]] assms(5)
  show ?thesis by (simp add: close_read(1,2))
next
  case (open_write e tx e' rs ws)
  from begin_write_ok [OF sys_invD(1) [OF assms(3) [unfolded open_write(1)]] open_write(3)] assms(5)
  show ?thesis by (simp add: open_write(1,2))
next
  case (operate e tx e' tx' rs ws1 ws2)
  obtain c where "e' = e\<lparr>en_cache := c\<rparr>"
    using tx_op_ok [OF operate(3) sys_inv_writer(4) [OF assms(3) [unfolded operate(1)]]] by blast
  with assms(5) show ?thesis by (simp add: operate(1,2))
next
  case (commit e tx e' tx' rs ws1 ws2)
  note i = sys_invD [OF assms(3) [unfolded commit(1)]]
  note w = sys_inv_writer [OF assms(3) [unfolded commit(1)]]
  have "v \<le> mv_committed (en_mvcc e)"
    by (rule reader_count_le [OF i(1) reader_counted [OF i(3)]]) (use assms(4) commit(1) in simp)
  with tx_commit_log_ok [OF w(4) assms(1) w(5) i(2) commit(3)] tx_commit_finishes [OF commit(3) w(5)] assms(5)
  show ?thesis by (simp add: commit(1,2))
next
  case (commit_fails fault e tx err e' tx' rs ws1 ws2)
  note w = sys_inv_writer [OF assms(3) [unfolded commit_fails(1)]]
  from tx_commit_fails [OF w(4) sys_invD(2) [OF assms(3) [unfolded commit_fails(1)]] commit_fails(4)] w assms(5)
  show ?thesis by (simp add: commit_fails(1,2) tx_drop_ok)
next
  case (rollback e rs ws1 tx ws2)
  from sys_inv_writer(5) [OF assms(3) [unfolded rollback(1)]] assms(5)
  show ?thesis by (simp add: rollback(1,2) tx_drop_ok)
next
  case (checkpoint e e' rs ws)
  note i = sys_invD [OF assms(3) [unfolded checkpoint(1)]]
  have "0 < reader_count (en_mvcc e) v"
    by (rule reader_counted [OF i(3)]) (use assms(4) checkpoint(1) in simp)
  with checkpoint_ok [OF i(1,2) checkpoint(3)] assms(5) show ?thesis by (simp add: checkpoint(1,2))
qed

section \<open>Durability\<close>

lemma index_same_fold: "wi_index w = wi_index w' \<Longrightarrow> wi_index (fold apply_commit cs w) = wi_index (fold apply_commit cs w')"
proof (induction cs arbitrary: w w')
  case (Cons c cs)
  have "wi_index (apply_commit c w) = wi_index (apply_commit c w')"
    using Cons.prems by (cases c) (simp add: apply_commit_def publish_frames_def)
  from Cons.IH [OF this] show ?case by simp
qed simp

lemma index_wal_of: "wi_index (wal_of n cs) = wi_index (wal_of m cs)"
  using index_same_fold [of "wal_empty n" "wal_empty m" cs] by (simp add: wal_of_def wal_empty_def)

lemma wal_of_versions: "versions_bounded (wi_index (wal_of n cs)) (wi_max_version (wal_of n cs))"
proof (induction cs rule: rev_induct)
  case Nil
  show ?case by (simp add: wal_of_def wal_empty_def versions_bounded_def index_versions_def)
next
  case (snoc c cs)
  obtain v m fs where c: "c = (v, m, fs)" by (cases c)
  let ?w = "wal_of n cs"
  have "u \<le> max (wi_max_version ?w) v" if h: "(u, d) \<in> set (index_versions (push_frames v fs (wi_index ?w)) p)" for u d p
  proof -
    consider "(u, d) \<in> set (index_versions (wi_index ?w) p)" | "u = v"
      using h unfolding index_versions_push_frames by auto
    then show ?thesis
    proof cases
      case 1
      then have "u \<le> wi_max_version ?w" using snoc.IH unfolding versions_bounded_def by blast
      then show ?thesis by (simp add: le_max_iff_disj)
    qed simp
  qed
  then show ?case
    unfolding wal_of_snoc c by (auto simp: apply_commit_def publish_frames_def versions_bounded_def)
qed

lemma file_write_header_opens:
  assumes "file_write_header bs h = Ok bs'" and "dh_page_size h = word_of_nat PAGE_SIZE"
  shows "file_open bs' = Ok (bs', h)"
proof -
  let ?d = "case file_page bs 1 of Some d \<Rightarrow> d | None \<Rightarrow> replicate PAGE_SIZE 0"
  have len: "length ?d = PAGE_SIZE" by (cases "file_page bs 1") (simp_all add: length_file_page)
  then have "HEADER_SIZE \<le> length ?d" by (simp add: PAGE_SIZE_def HEADER_SIZE_def)
  then obtain d' where d': "header_write_into h ?d = Ok d'" "header_read_from d' = Ok h" "length d' = PAGE_SIZE"
    using header_roundtrip_core [OF _ assms(2)] len by metis
  then have bs': "bs' = file_write_at bs d' 0"
    using assms(1) by (auto simp: file_write_header_def file_read_page_eq file_write_page_ok obind_eq_Ok)
  have "file_page bs' 1 = Some d'"
    using file_page_write_same [of 1 d' bs] d'(3) bs' by simp
  then have "slice 0 PAGE_SIZE bs' = d'" "PAGE_SIZE \<le> length bs'"
    by (auto simp: file_page_def split: if_splits)
  moreover from this(2) have "bs' \<noteq> []" by (auto simp: PAGE_SIZE_def)
  ultimately show ?thesis using d'(2) by (simp add: file_open_def PAGE_SIZE_def)
qed

lemma durable_same:
  "durable e \<Longrightarrow> en_file e' = en_file e \<Longrightarrow> en_wal e' = en_wal e \<Longrightarrow> durable e'"
  by (simp add: durable_def)

lemma durable_checkpoint:
  assumes "durable e" and "engine_checkpoint e = Ok e'"
  shows "durable e'"
proof (cases "may_checkpoint e \<and> wi_index (en_wal e) \<noteq> []")
  case False
  with assms show ?thesis
    by (cases e) (auto simp: engine_checkpoint_def engine_fold_wal_def wal_checkpoint_def obind_eq_Ok split: if_splits)
next
  case True
  with assms(2) obtain bs1 c h bs2 where w: "checkpoint_header (en_wal e) bs1 = Ok h"
    "file_write_header bs1 h = Ok bs2" "en_file e' = bs2"
    "en_wal e' = (en_wal e)\<lparr>wi_file := [], wi_write_offset := 0, wi_index := []\<rparr>"
    by (auto simp: engine_checkpoint_def engine_fold_wal_def wal_checkpoint_def obind_eq_Ok)
  have "dh_page_size h = word_of_nat PAGE_SIZE"
    using w(1) by (auto simp: checkpoint_header_def obind_eq_Ok)
  from file_write_header_opens [OF w(2) this] w(3,4) show ?thesis
    unfolding durable_def by (auto simp: wal_of_def wal_empty_def intro!: exI [of _ "[]"])
qed

lemma durable_commit:
  assumes "durable e" and "tx_inv (e, tx)" and "iterates_values hv" and "\<not> wt_finished tx"
    and "tx_commit NoFault hv e tx = (Ok (), e', tx')"
  shows "durable e'"
proof -
  have v: "mv_committed (en_mvcc e) \<noteq> - 1"
    using assms(5) by (auto simp: tx_commit_def reserve_commit_version_def checked_succ_def)
  obtain h cs where d: "file_open (en_file e) = Ok (en_file e, h)" "list_all commit_ok cs"
    "wi_file (en_wal e) = log_bytes cs" "wi_write_offset (en_wal e) = length (log_bytes cs)"
    "wi_index (en_wal e) = wi_index (wal_of 1 cs)"
    using assms(1) by (auto simp: durable_def)
  have off: "wi_write_offset (en_wal e) \<le> length (wi_file (en_wal e))" using d(3,4) by simp
  from tx_commit_ok [OF assms(2-4) v off] assms(5)
  have f: "en_file e' = en_file e" and w: "en_wal e' = en_wal e \<or> (\<exists>c. commit_ok c \<and>
          append_commit NoFault (en_wal e) (snd (snd c)) (fst c) (fst (snd c)) = (Ok (), en_wal e'))"
    by auto
  show ?thesis
    using w
  proof
    assume "\<exists>c. commit_ok c \<and>
          append_commit NoFault (en_wal e) (snd (snd c)) (fst c) (fst (snd c)) = (Ok (), en_wal e')"
    then obtain v n fs where c: "commit_ok (v, n, fs)" "append_commit NoFault (en_wal e) fs v n = (Ok (), en_wal e')"
      by auto
    let ?cs = "cs @ [(v, n, fs)]"
    from c append_commit_ok [OF off c(1)] d(3,4) have w': "en_wal e' = (apply_commit (v, n, fs) (en_wal e))
      \<lparr>wi_file := log_bytes ?cs, wi_write_offset := length (log_bytes ?cs)\<rparr>" by auto
    then have "wi_index (en_wal e') = push_frames v fs (wi_index (wal_of 1 cs))"
      using d(5) by (simp add: apply_commit_def publish_frames_def)
    also have "\<dots> = wi_index (wal_of 1 ?cs)"
      unfolding wal_of_snoc by (simp add: apply_commit_def publish_frames_def)
    finally have "wi_index (en_wal e') = wi_index (wal_of 1 ?cs)" .
    with w' d(1,2) c(1) f show ?thesis
      unfolding durable_def by (intro conjI exI [of _ h] exI [of _ ?cs]) simp_all
  qed (use durable_same [OF assms(1) f] in blast)
qed

lemma durable_step:
  assumes "iterates_values hv" and "sys_step hv {} s s'" and "sys_inv s" and "durable (sy_engine s)"
  shows "durable (sy_engine s')"
  using assms(2)
proof (cases rule: sys_step.cases)
  case (open_read e tx e' rs ws)
  then have "en_file e' = en_file e" "en_wal e' = en_wal e" by (auto simp: begin_read_def split: prod.splits)
  with assms(4) show ?thesis by (simp add: open_read(1,2) durable_def)
next
  case (read_page tx rs e p page e' ws)
  obtain c where "e' = e\<lparr>en_cache := c\<rparr>"
    using read_page_at_cases [OF sys_invD(1) [OF assms(3) [unfolded read_page(1)]]
        read_page(4) [unfolded read_tx_get_page_def]] by blast
  with assms(4) show ?thesis by (simp add: read_page(1,2) durable_def)
next
  case (close_read tx rs e ws)
  with assms(4) show ?thesis by (simp add: close_read(1,2) read_tx_drop_def durable_def)
next
  case (open_write e tx e' rs ws)
  then have "en_file e' = en_file e" "en_wal e' = en_wal e" by (auto simp: begin_write_def obind_eq_Ok split: if_splits)
  with assms(4) show ?thesis by (simp add: open_write(1,2) durable_def)
next
  case (operate e tx e' tx' rs ws1 ws2)
  obtain c where "e' = e\<lparr>en_cache := c\<rparr>"
    using tx_op_ok [OF operate(3) sys_inv_writer(4) [OF assms(3) [unfolded operate(1)]]] by blast
  with assms(4) show ?thesis by (simp add: operate(1,2) durable_def)
next
  case (commit e tx e' tx' rs ws1 ws2)
  note w = sys_inv_writer [OF assms(3) [unfolded commit(1)]]
  from durable_commit [OF _ w(4) assms(1) w(5) commit(3)] tx_commit_finishes [OF commit(3) w(5)] assms(4)
  show ?thesis by (simp add: commit(1,2))
next
  case (commit_fails fault e tx err e' tx' rs ws1 ws2)
  then show ?thesis by simp
next
  case (rollback e rs ws1 tx ws2)
  from sys_inv_writer(5) [OF assms(3) [unfolded rollback(1)]] assms(4)
  show ?thesis by (simp add: rollback(1,2) tx_drop_ok durable_def)
next
  case (checkpoint e e' rs ws)
  from durable_checkpoint [OF _ checkpoint(3)] assms(4) show ?thesis by (simp add: checkpoint(1,2))
qed

lemma reachable_durable:
  assumes "iterates_values hv" and "started e" and "reachable hv {} e s"
  shows "durable (sy_engine s)"
  using assms(3)
proof (induction rule: reachable.induct)
  case start
  with assms(2) show ?case by (simp add: started_def)
next
  case (more s s')
  with durable_step [OF assms(1)] reachable_inv [OF assms(1,2)] show ?case by blast
qed

text \<open>Opening the files again after any stop, even with a torn commit at the end of the log.\<close>

lemma reopen_ok:
  assumes "engine_inv e" and "durable e" and "torn_tail tail"
  shows "\<exists>e'. engine_open (en_file e) (wi_file (en_wal e) @ tail) = Ok e' \<and> started e'
    \<and> engine_view e' (mv_committed (en_mvcc e')) = engine_view e (mv_committed (en_mvcc e))"
proof -
  obtain h cs where d: "file_open (en_file e) = Ok (en_file e, h)" "list_all commit_ok cs"
    "wi_file (en_wal e) = log_bytes cs" "wi_index (en_wal e) = wi_index (wal_of 1 cs)"
    using assms(2) by (auto simp: durable_def)
  let ?w = "wal_of (dh_db_size_pages h) cs"
  have idx: "wi_index ?w = wi_index (en_wal e)" using d(4) index_wal_of by metis
  have w: "wal_open (wi_file (en_wal e) @ tail) (dh_db_size_pages h) = ?w"
    using wal_open_log [OF d(2) assms(3)] d(3) by simp
  obtain e' where e': "engine_open (en_file e) (wi_file (en_wal e) @ tail) = Ok e'"
    "en_file e' = en_file e" "en_wal e' = ?w" "en_cache e' = cache_with_default_capacity"
    "en_mvcc e' = mvcc_new (wi_max_version ?w)" "\<not> en_gate e'" "en_freelist e' = []" "1 \<le> en_page_count e'"
    by (simp add: engine_open_def d(1) w Let_def)
  have inv: "engine_inv e'"
    using assms(1) e' wal_of_versions [of "dh_db_size_pages h" cs] idx
    by (simp add: engine_inv_def cache_coherent_def alloc_ok_def
        cache_with_default_capacity_def cache_new_def cache_inv_def cache_len_def mvcc_inv_def mvcc_new_def)
  have "durable e'"
    unfolding durable_def using d e'(2,3) idx
    by (intro conjI exI [of _ h] exI [of _ cs]) (simp_all add: wal_of_def)
  moreover have "log_ok e'" using e'(3) by (simp add: log_ok_def wal_of_def)
  ultimately have st: "started e'" using inv e'(5,6) by (simp add: started_def reader_count_def mvcc_new_def)
  have "newest_page (en_wal e') (en_file e') p = newest_page (en_wal e) (en_file e) p" for p
    using e'(2,3) idx by (simp add: newest_page_def)
  then have "engine_view e' (mv_committed (en_mvcc e')) = engine_view e (mv_committed (en_mvcc e))"
    by (intro ext) (simp add: engine_view_newest [OF inv] engine_view_newest [OF assms(1)])
  with e'(1) st show ?thesis by blast
qed

section \<open>What the state machine guarantees\<close>

text \<open>The steps during which a read transaction stays open.\<close>

definition while_open ::
    "((page_id \<times> raw_page) list \<Rightarrow> raw_page list) \<Rightarrow> io_fault set \<Rightarrow> read_tx \<Rightarrow> sys \<Rightarrow> sys \<Rightarrow> bool" where
  "while_open hv F tx = (\<lambda>s s'. sys_step hv F s s' \<and> tx \<in> set (sy_readers s'))\<^sup>*\<^sup>*"

lemma while_open_reachable:
  assumes "while_open hv F tx s s'" and "reachable hv F e s"
  shows "reachable hv F e s'"
  using assms(1)[unfolded while_open_def] assms(2) by (induction rule: rtranclp_induct) (auto intro: reachable.more)

lemma snapshot_kept:
  assumes hv: "iterates_values hv" and st: "started e" and re: "reachable hv F e s"
    and tx: "tx \<in> set (sy_readers s)" and w: "while_open hv F tx s s'"
    and b: "engine_view (sy_engine s) (rt_version tx) p = Some b"
  shows "engine_view (sy_engine s') (rt_version tx) p = Some b \<and> tx \<in> set (sy_readers s')"
  using w[unfolded while_open_def]
proof (induction rule: rtranclp_induct)
  case base
  with b tx show ?case by simp
next
  case (step s1 s2)
  have "reachable hv F e s1"
    by (rule while_open_reachable [OF _ re]) (use step(1) in \<open>simp add: while_open_def\<close>)
  from step_keeps [OF hv _ reachable_inv [OF hv st this], where s' = s2 and v = "rt_version tx" and p = p and b = b] step show ?case by auto
qed

text \<open>
  C15. In every reachable state the storage engine is consistent: the cache agrees with the
  file, no version of the log is ahead of the committed one, the free list is valid, the
  engine counts exactly the open readers of each version, and the gate is held exactly
  when a write transaction is open, of which there is at most one. Commits that fail on an
  I/O error do not break this.
\<close>

theorem reachable_consistent:
  assumes "iterates_values hv" and "started e" and "reachable hv F e s"
  shows "sys_inv s \<and> length (sy_writers s) \<le> 1
    \<and> (en_gate (sy_engine s) \<longleftrightarrow> sy_writers s \<noteq> [])
    \<and> oldest_required_version (en_mvcc (sy_engine s)) \<le> mv_committed (en_mvcc (sy_engine s))"
proof -
  have i: "sys_inv s" by (rule reachable_inv [OF assms])
  then have "writers_ok (sy_engine s) (sy_writers s)" "engine_inv (sy_engine s)" by (simp_all add: sys_inv_def)
  moreover have "writers_ok e ws \<Longrightarrow> length ws \<le> 1 \<and> (en_gate e \<longleftrightarrow> ws \<noteq> [])" for e ws
    by (induction e ws rule: writers_ok.induct) auto
  ultimately show ?thesis using i oldest_le_committed by (simp add: engine_inv_def)
qed

text \<open>
  C1. Snapshot isolation: while a read transaction is open, whatever the other transactions do,
  commits and checkpoints included, it reads of every page the content the page had
  when it began: of every page but the first all bytes, and of page 1 the user version and everything behind the
  database header. The other fields of that header are not versioned: a checkpoint writes them anew.
\<close>

theorem snapshot_isolation:
  assumes "iterates_values hv" and "started e" and "reachable hv F e s"
    and "tx \<in> set (sy_readers s)" and "while_open hv F tx s s'"
    and "engine_view (sy_engine s) (rt_version tx) p = Some b"
  shows "\<exists>page e'. read_tx_get_page tx (sy_engine s') p = Ok (page, e')
    \<and> rp_id page = p \<and> page_wf page \<and> page_body p (rp_data page) = b
    \<and> b = (if p = 1 then slice 60 4 (rp_data page) @ drop 100 (rp_data page) else rp_data page)"
proof -
  have "engine_inv (sy_engine s')"
    using reachable_inv [OF assms(1,2) while_open_reachable [OF assms(5,3)]] by (simp add: sys_inv_def)
  moreover have "engine_view (sy_engine s') (rt_version tx) p = Some b"
    using snapshot_kept [OF assms] by blast
  ultimately show ?thesis
    using read_page_at_ok
    by (fastforce simp: read_tx_get_page_def rt_version_def page_ok_def page_body_def header_offset_def)
qed

text \<open>
  C3. A commit is seen whole or not at all. With no I/O failure the commit of the open write
  transaction succeeds, every version up to the old one shows what it showed, and the new
  committed version shows exactly the pages of the transaction (of page 1 the user version and what follows
  the database header); a commit that fails leaves the
  committed version and what every version shows as they were.
\<close>

theorem commit_atomic:
  assumes "iterates_values hv" and "started e0"
    and "reachable hv F e0 \<lparr>sy_engine = e, sy_readers = rs, sy_writers = [tx]\<rparr>"
    and "mv_committed (en_mvcc e) \<noteq> - 1"
  shows "(\<exists>e' tx'. tx_commit NoFault hv e tx = (Ok (), e', tx')
      \<and> mv_committed (en_mvcc e') = mv_committed (en_mvcc e) + 1
      \<and> engine_view e' (mv_committed (en_mvcc e')) = tx_view (e, tx)
      \<and> (\<forall>u p. u \<le> mv_committed (en_mvcc e) \<longrightarrow> engine_view e' u p = engine_view e u p))
    \<and> (\<forall>fault err e' tx'. tx_commit fault hv e tx = (Err err, e', tx') \<longrightarrow>
         en_mvcc e' = en_mvcc e \<and> engine_view e' = engine_view e)"
proof -
  have "sys_inv \<lparr>sy_engine = e, sy_readers = rs, sy_writers = [] @ tx # []\<rparr>"
    using reachable_inv [OF assms(1-3)] by simp
  note w = sys_inv_writer [OF this] and i = sys_invD [OF this]
  have off: "wi_write_offset (en_wal e) \<le> length (wi_file (en_wal e))" using i(2) by (simp add: log_ok_def)
  show ?thesis
    using tx_commit_ok [OF w(4) assms(1) w(5) assms(4) off] tx_commit_fails [OF w(4) i(2)] by auto
qed

text \<open>
  C2. Durability. In a history in which no I/O has failed (after a failed sync this does not hold, see
  \<open>failed_commit_resurrected\<close>), the machine may stop in any reachable state, even
  while the bytes of a further commit are being appended to the log: opening the two files
  again succeeds and gives a consistent engine, ready to start from, whose committed
  version shows of every page exactly what the committed version showed before the stop, on page 1 the user
  version and what follows the database header.
\<close>

theorem crash_recovery:
  assumes "iterates_values hv" and "started e" and "reachable hv {} e s" and "torn_tail tail"
  shows "\<exists>e'. engine_open (en_file (sy_engine s)) (wi_file (en_wal (sy_engine s)) @ tail) = Ok e' \<and> started e'
    \<and> engine_view e' (mv_committed (en_mvcc e'))
      = engine_view (sy_engine s) (mv_committed (en_mvcc (sy_engine s)))"
  using reopen_ok [OF _ reachable_durable [OF assms(1-3)] assms(4)] reachable_inv [OF assms(1-3)]
  by (simp add: sys_inv_def)

section \<open>An execution\<close>

text \<open>
  A reader opens on a new database, a writer replaces page 1 by a page of zeros and commits.
\<close>

lemma iterates_map_snd: "iterates_values (map snd)"
  by (simp add: iterates_values_def)

lemma example_run:
  "\<exists>e d s s' s'' tx. engine_open [] [] = Ok e \<and> started e \<and> reachable (map snd) {} e s
    \<and> sy_readers s = [tx] \<and> while_open (map snd) {} tx s s' \<and> while_open (map snd) {} tx s' s''
    \<and> engine_view (sy_engine s) (rt_version tx) 1 = Some (page_body 1 d)
    \<and> node_at 1 (page_body 1 d) empty_leaf
    \<and> (\<exists>e1 wt. s' = \<lparr>sy_engine = e1, sy_readers = [tx], sy_writers = [wt]\<rparr> \<and> mv_committed (en_mvcc e1) = 0)
    \<and> engine_view (sy_engine s'') (mv_committed (en_mvcc (sy_engine s''))) 1 = Some (replicate 4000 0)"
proof -
  obtain e d where e: "engine_open [] [] = Ok e" "started e" "mv_committed (en_mvcc e) = 0"
    "engine_view e 0 1 = Some (page_body 1 d)" "node_at 1 (page_body 1 d) empty_leaf"
    using engine_open_ok by blast
  obtain tx e1 where r: "begin_read e = (tx, e1)" by (cases "begin_read e")
  have ei: "engine_inv e" using e(2) by (simp add: started_def)
  note b = begin_read_ok [OF ei r]
  let ?s = "\<lparr>sy_engine = e1, sy_readers = [tx], sy_writers = []\<rparr>"
  have s: "reachable (map snd) {} e ?s"
    using reachable.more [OF reachable.start sys_step.open_read [OF r]] .
  have "\<not> en_gate e1" "mv_tx_ids (en_mvcc e1) = 0"
  proof -
    show "\<not> en_gate e1" using b e(2) by (simp add: started_def)
    have "mv_tx_ids (en_mvcc e) = 0"
      using e(1) fresh_file_ok by (auto simp: engine_open_def wal_open_Nil wal_empty_def mvcc_new_def obind_eq_Ok)
    then show "mv_tx_ids (en_mvcc e1) = 0"
      using r by (auto simp: begin_read_def mvcc_begin_read_def Let_def)
  qed
  then obtain wt e2 where w: "begin_write e1 = Ok (wt, e2)"
    by (simp add: begin_write_def mvcc_begin_write_def checked_succ_def)
  obtain wt' where p: "tx_write_page (e2, wt) (new_page 1) = Ok (e2, wt')"
    "wt_pending wt' = AList.update 1 (new_page 1) (wt_pending wt)"
    by (simp add: tx_write_page_def)
  let ?s1 = "\<lparr>sy_engine = e2, sy_readers = [tx], sy_writers = [] @ wt # []\<rparr>"
  let ?s2 = "\<lparr>sy_engine = e2, sy_readers = [tx], sy_writers = [] @ wt' # []\<rparr>"
  have st1: "sys_step (map snd) {} ?s ?s1" using sys_step.open_write [OF w] by simp
  have st2: "sys_step (map snd) {} ?s1 ?s2"
    by (rule sys_step.operate [OF tx_op.put [OF p(1)]]) simp_all
  have wo1: "while_open (map snd) {} tx ?s ?s2"
    unfolding while_open_def
    by (rule rtranclp.rtrancl_into_rtrancl [OF rtranclp.rtrancl_into_rtrancl [OF rtranclp.rtrancl_refl]])
      (use st1 st2 in simp_all)
  have re2: "reachable (map snd) {} e ?s2" by (rule while_open_reachable [OF wo1 s])
  have c2: "mv_committed (en_mvcc e2) = 0"
    using b e(3) begin_write_ok [OF _ w] by simp
  note i2 = reachable_inv [OF iterates_map_snd e(2) re2]
  note w2 = sys_inv_writer [OF i2]
  have off: "wi_write_offset (en_wal e2) \<le> length (wi_file (en_wal e2))"
    using sys_invD(2) [OF i2] by (simp add: log_ok_def)
  obtain e3 wt3 where c: "tx_commit NoFault (map snd) e2 wt' = (Ok (), e3, wt3)"
    "engine_view e3 (mv_committed (en_mvcc e3)) = tx_view (e2, wt')"
    using tx_commit_ok [OF w2(4) iterates_map_snd w2(5) _ off] c2 by auto
  let ?s3 = "\<lparr>sy_engine = tx_drop e3 wt3, sy_readers = [tx], sy_writers = [] @ []\<rparr>"
  have "sys_step (map snd) {} ?s2 ?s3" by (rule sys_step.commit [OF c(1)])
  then have wo2: "while_open (map snd) {} tx ?s2 ?s3" unfolding while_open_def by auto
  have v: "engine_view (sy_engine ?s3) (mv_committed (en_mvcc (sy_engine ?s3))) 1 = Some (replicate 4000 0)"
    using c(2) tx_commit_finishes [OF c(1) w2(5)] p(2)
    by (simp add: tx_view_def update_conv' page_body_def slice_def header_offset_def new_page_def PAGE_SIZE_def
        replicate_add [symmetric])
  have d: "engine_view (sy_engine ?s) (rt_version tx) 1 = Some (page_body 1 d)"
    using b e(3,4) by simp
  show ?thesis
    by (rule exI [of _ e], rule exI [of _ d], rule exI [of _ ?s], rule exI [of _ ?s2], rule exI [of _ ?s3],
        rule exI [of _ tx]) (use e s wo1 wo2 d v c2 in simp)
qed

theorem reachable_consistent_witness:
  "\<exists>e s. reachable (map snd) {} e s \<and> sy_writers s \<noteq> [] \<and> sys_inv s \<and> en_gate (sy_engine s)"
proof -
  obtain e s s' tx e1 wt where x: "started e" "reachable (map snd) {} e s" "while_open (map snd) {} tx s s'"
    "s' = \<lparr>sy_engine = e1, sy_readers = [tx], sy_writers = [wt]\<rparr>" using example_run by blast
  have "reachable (map snd) {} e s'" by (rule while_open_reachable [OF x(3,2)])
  with reachable_consistent [OF iterates_map_snd x(1) this] x(4) show ?thesis by force
qed

theorem snapshot_isolation_witness:
  "\<exists>(s :: sys) tx d page e'. engine_view (sy_engine s) (mv_committed (en_mvcc (sy_engine s))) 1 = Some (replicate 4000 0)
    \<and> read_tx_get_page tx (sy_engine s) 1 = Ok (page, e') \<and> page_body 1 (rp_data page) = d
    \<and> node_at 1 d empty_leaf"
proof -
  obtain e d s s' s'' tx where x: "started e" "reachable (map snd) {} e s" "sy_readers s = [tx]"
    "while_open (map snd) {} tx s s'" "while_open (map snd) {} tx s' s''"
    "engine_view (sy_engine s) (rt_version tx) 1 = Some (page_body 1 d)" "node_at 1 (page_body 1 d) empty_leaf"
    "engine_view (sy_engine s'') (mv_committed (en_mvcc (sy_engine s''))) 1 = Some (replicate 4000 0)"
    using example_run by blast
  have "while_open (map snd) {} tx s s''" using x(4,5) unfolding while_open_def by auto
  from snapshot_isolation [OF iterates_map_snd x(1,2) _ this x(6)] x(3) obtain page e' where
    "read_tx_get_page tx (sy_engine s'') 1 = Ok (page, e')" "page_body 1 (rp_data page) = page_body 1 d" by auto
  with x(7,8) show ?thesis by blast
qed

theorem commit_atomic_witness:
  "\<exists>e tx e' tx'. tx_commit NoFault (map snd) e tx = (Ok (), e', tx') \<and> mv_committed (en_mvcc e') = 1
    \<and> engine_view e' 1 = tx_view (e, tx) \<and> engine_view e' 0 = engine_view e 0"
proof -
  obtain e s s' tx e1 wt where x: "started e" "reachable (map snd) {} e s" "while_open (map snd) {} tx s s'"
    "s' = \<lparr>sy_engine = e1, sy_readers = [tx], sy_writers = [wt]\<rparr>" "mv_committed (en_mvcc e1) = 0"
    using example_run by blast
  have "reachable (map snd) {} e s'" by (rule while_open_reachable [OF x(3,2)])
  from commit_atomic [OF iterates_map_snd x(1) this [unfolded x(4)]] x(5) obtain e' tx' where
    "tx_commit NoFault (map snd) e1 wt = (Ok (), e', tx')" "mv_committed (en_mvcc e') = 1"
    "engine_view e' 1 = tx_view (e1, wt)" "\<And>p. engine_view e' 0 p = engine_view e1 0 p" by auto
  moreover from this(4) have "engine_view e' 0 = engine_view e1 0" by (rule ext)
  ultimately show ?thesis by blast
qed

theorem crash_recovery_witness:
  "\<exists>e. started e \<and> engine_view e (mv_committed (en_mvcc e)) 1 = Some (replicate 4000 0)"
proof -
  obtain e s s' s'' tx where x: "started e" "reachable (map snd) {} e s"
    "while_open (map snd) {} tx s s'" "while_open (map snd) {} tx s' s''"
    "engine_view (sy_engine s'') (mv_committed (en_mvcc (sy_engine s''))) 1 = Some (replicate 4000 0)"
    using example_run by blast
  have "reachable (map snd) {} e s''"
    by (rule while_open_reachable [OF x(4) while_open_reachable [OF x(3,2)]])
  from crash_recovery [OF iterates_map_snd x(1) this torn_tail_Nil] x(5) show ?thesis by auto
qed

end
