(* ===== verification/TableStore.thy ===== *)
theory TableStore
  imports TxStore StorageSteps
begin

text \<open>
  The tables of a write transaction: several b-trees on disjoint pages. Inserting and
  deleting in one of them, through the transaction of the storage engine, changes that
  table as a map from row ids to records and no other.
\<close>

definition store_ok :: "tx_state \<Rightarrow> (page_id \<Rightarrow> btree option) \<Rightarrow> bool" where
  "store_ok st trees \<longleftrightarrow> tx_inv st
     \<and> (\<forall>p t. trees p = Some t \<longrightarrow> root_of t = p \<and> tree_ok (tx_view st) (tx_avail st) (i64_min - 1) i64_max t)
     \<and> (\<forall>p q t u. trees p = Some t \<longrightarrow> trees q = Some u \<longrightarrow> p \<noteq> q \<longrightarrow> set (pages t) \<inter> set (pages u) = {})"

lemma store_okD:
  assumes "store_ok st trees" and "trees p = Some t"
  shows "tx_inv st" "root_of t = p" "tree_ok (tx_view st) (tx_avail st) (i64_min - 1) i64_max t"
    "tree_rep (tx_view st) t" "ordered (i64_min - 1) i64_max t" "distinct (pages t)" "set (pages t) \<inter> tx_avail st = {}"
  using assms by (auto simp: store_ok_def tree_ok_def)

lemma i64_in_range: "i64_min - 1 < int_of_i64 k" "int_of_i64 k \<le> i64_max"
  using int_of_i64_bounds [of k] by auto

text \<open>A change of one tree on its own and on free pages keeps the others.\<close>

lemma store_ok_update:
  assumes "store_ok st trees" and "trees p = Some t"
    and "tx_inv st'" and "tree_ok (tx_view st') (tx_avail st') (i64_min - 1) i64_max t'" and "root_of t' = p"
    and "set (pages t') \<subseteq> set (pages t) \<union> tx_avail st" and "tx_avail st' \<subseteq> tx_avail st \<union> set (pages t)"
    and "\<And>q. q \<notin> set (pages t) \<Longrightarrow> q \<notin> tx_avail st \<Longrightarrow> tx_view st' q = tx_view st q"
  shows "store_ok st' (trees(p \<mapsto> t'))"
proof -
  have other: "tree_ok (tx_view st') (tx_avail st') (i64_min - 1) i64_max u \<and> root_of u = q
      \<and> set (pages u) \<inter> set (pages t') = {}" if u: "trees q = Some u" "q \<noteq> p" for q u
  proof -
    have d: "set (pages u) \<inter> set (pages t) = {}" "set (pages u) \<inter> tx_avail st = {}"
      using assms(1,2) u by (auto simp: store_ok_def tree_ok_def)
    have "tree_rep (tx_view st') u = tree_rep (tx_view st) u"
      using d assms(8) by (intro tree_rep_cong) auto
    then show ?thesis using store_okD [OF assms(1) u(1)] d assms(6,7) by (auto simp: tree_ok_def)
  qed
  have dj: "set (pages v) \<inter> set (pages u) = {}" if "trees q = Some v" "trees q' = Some u" "q \<noteq> q'" for q q' v u
    using assms(1) that unfolding store_ok_def by blast
  show ?thesis
    unfolding store_ok_def using assms(3-5) other dj by (auto simp: Int_commute split: if_splits)
qed

text \<open>A lookup through the transaction reads the table.\<close>

lemma store_get:
  assumes "store_ok st trees" and "trees p = Some t" and "fuel_ok fuel t"
  shows "\<exists>st'. btree_get tx_ops fuel p st k = Ok (lookup (entries t) k, st') \<and> store_ok st' trees"
proof -
  note t = store_okD [OF assms(1,2)]
  have "tx_inv st \<and> tx_avail st = tx_avail st" using t(1) by simp
  from write_tx.keep.btree_get_ok [OF this t(4,5) i64_in_range(1) assms(3), of k]
  obtain st' where "btree_get tx_ops fuel p st k = Ok (lookup (entries t) k, st')" "tx_inv st'" "tx_view st' = tx_view st"
    "tx_avail st' = tx_avail st"
    unfolding t(2) by blast
  then show ?thesis using assms(1) by (intro exI [of _ st']) (simp add: store_ok_def)
qed

lemma store_insert:
  assumes "store_ok st trees" and "trees p = Some t" and "fuel_ok fuel t" and "small_record record"
    and "insert_pages t record \<le> card (tx_avail st)"
  shows "\<exists>st' t' e. btree_insert tx_ops fuel p st k record = Ok st' \<and> store_ok st' (trees(p \<mapsto> t'))
    \<and> entries t' = ins_entry e (entries t) \<and> entry_key e = k \<and> entry_val e = record
    \<and> length (entry_chain e) = overflow_pages record \<and> height t' \<le> Suc (height t)"
proof -
  note t = store_okD [OF assms(1,2)]
  from write_tx.btree_insert_ok [OF t(1,3) assms(3) i64_in_range assms(4,5), of k]
  obtain st' t' e where r: "btree_insert tx_ops fuel p st k record = Ok st'" "tx_inv st'"
      "tree_ok (tx_view st') (tx_avail st') (i64_min - 1) i64_max t'" "root_of t' = p" "height t' \<le> Suc (height t)"
      "entries t' = ins_entry e (entries t)" "entry_key e = k" "entry_val e = record"
      "length (entry_chain e) = overflow_pages record" "set (pages t') \<subseteq> set (pages t) \<union> tx_avail st"
      "tx_avail st' \<subseteq> tx_avail st \<union> set (pages t)"
      "\<And>q. q \<notin> set (pages t) \<Longrightarrow> q \<notin> tx_avail st \<Longrightarrow> tx_view st' q = tx_view st q"
    unfolding t(2) by blast
  have "store_ok st' (trees(p \<mapsto> t'))"
    by (rule store_ok_update [OF assms(1,2) r(2-4,10-12)])
  with r show ?thesis by blast
qed

lemma store_delete:
  assumes "store_ok st trees" and "trees p = Some t" and "fuel_ok fuel t"
  shows "\<exists>st' t'. btree_delete tx_ops fuel p st k = Ok (lookup (entries t) k \<noteq> None, st') \<and> store_ok st' (trees(p \<mapsto> t'))
    \<and> entries t' = del_entry k (entries t) \<and> height t' \<le> height t
    \<and> tx_avail st' = tx_avail st \<union> set (key_chain k (entries t))"
proof -
  note t = store_okD [OF assms(1,2)]
  from write_tx.delete_rec_ok [OF t(1,3) assms(3) i64_in_range, of k]
  obtain st' t' where r: "delete_rec tx_ops fuel st p k = Ok (lookup (entries t) k \<noteq> None, st')" "tx_inv st'"
      "tree_ok (tx_view st') (tx_avail st') (i64_min - 1) i64_max t'" "root_of t' = p"
      "entries t' = del_entry k (entries t)" "height t' \<le> height t" "set (pages t') \<subseteq> set (pages t)"
      "tx_avail st' = tx_avail st \<union> set (key_chain k (entries t))"
      "\<And>q. q \<notin> set (pages t) \<Longrightarrow> tx_view st' q = tx_view st q"
    unfolding t(2) by blast
  have "store_ok st' (trees(p \<mapsto> t'))"
    by (rule store_ok_update [OF assms(1,2) r(2-4)]) (use r(7-9) key_chain_pages [of k t] in auto)
  with r show ?thesis unfolding btree_delete_def by blast
qed

section \<open>A table is a map\<close>

text \<open>
  C6. Insertion into a table of small cells. On a write transaction with the tables on disjoint pages, none
  of their cells taking more than 512 bytes of its page, with enough free pages and a record of which at
  most 490 bytes stay in the leaf, \<open>insert\<close> succeeds; afterwards the table maps the row id
  to the record and is otherwise as before, whatever the splits of nodes and of the root, every
  other table is untouched, and all of them can be read back. For larger cells this is false: a
  half of a split may overflow its page (\<open>split_leaf_may_overflow\<close>).
\<close>

theorem btree_insert_correct:
  assumes "store_ok st trees" and "trees p = Some t" and "fuel_ok fuel t" and "small_record record"
    and "insert_pages t record \<le> card (tx_avail st)"
  shows "\<exists>st' t'. btree_insert tx_ops fuel p st k record = Ok st' \<and> store_ok st' (trees(p \<mapsto> t'))
    \<and> (\<forall>fuel' j. fuel_ok fuel' t' \<longrightarrow> (\<exists>st''. btree_get tx_ops fuel' p st' j
          = Ok (if j = k then Some record else lookup (entries t) j, st'')))
    \<and> (\<forall>q u fuel' j. q \<noteq> p \<longrightarrow> trees q = Some u \<longrightarrow> fuel_ok fuel' u \<longrightarrow>
          (\<exists>st''. btree_get tx_ops fuel' q st' j = Ok (lookup (entries u) j, st'')))"
proof -
  obtain st' t' e where r: "btree_insert tx_ops fuel p st k record = Ok st'" "store_ok st' (trees(p \<mapsto> t'))"
      "entries t' = ins_entry e (entries t)" "entry_key e = k" "entry_val e = record"
    using store_insert [OF assms] by blast
  have l: "lookup (entries t') j = (if j = k then Some record else lookup (entries t) j)" for j
    using r(3-5) lookup_ins by simp
  show ?thesis
  proof (rule exI [of _ st'], rule exI [of _ t'], intro conjI allI impI)
    fix fuel' j assume "fuel_ok fuel' t'"
    from store_get [OF r(2) fun_upd_same this, of j] show "\<exists>st''. btree_get tx_ops fuel' p st' j = Ok (if j = k then Some record else lookup (entries t) j, st'')"
      unfolding l by blast
  next
    fix q u fuel' j assume a: "q \<noteq> p" "trees q = Some u" "fuel_ok fuel' u"
    then have "(trees(p \<mapsto> t')) q = Some u" by simp
    from store_get [OF r(2) this a(3), of j] show "\<exists>st''. btree_get tx_ops fuel' q st' j = Ok (lookup (entries u) j, st'')"
      by blast
  qed (rule r(1), rule r(2))
qed

text \<open>
  C14. Deletion from a table reports whether the row was there, and afterwards the table lacks
  exactly that row; every other table is untouched. The overflow pages of the deleted row, and no other pages, become
  free for new allocations.
\<close>

theorem btree_delete_correct:
  assumes "store_ok st trees" and "trees p = Some t" and "fuel_ok fuel t"
  shows "\<exists>st' t'. btree_delete tx_ops fuel p st k = Ok (lookup (entries t) k \<noteq> None, st')
    \<and> store_ok st' (trees(p \<mapsto> t'))
    \<and> tx_avail st' = tx_avail st \<union> set (concat (map entry_chain (filter (\<lambda>e. entry_key e = k) (entries t))))
    \<and> (\<forall>fuel' j. fuel_ok fuel' t' \<longrightarrow> (\<exists>st''. btree_get tx_ops fuel' p st' j
          = Ok (if j = k then None else lookup (entries t) j, st'')))
    \<and> (\<forall>q u fuel' j. q \<noteq> p \<longrightarrow> trees q = Some u \<longrightarrow> fuel_ok fuel' u \<longrightarrow>
          (\<exists>st''. btree_get tx_ops fuel' q st' j = Ok (lookup (entries u) j, st'')))"
proof -
  obtain st' t' where r: "btree_delete tx_ops fuel p st k = Ok (lookup (entries t) k \<noteq> None, st')"
      "store_ok st' (trees(p \<mapsto> t'))" "entries t' = del_entry k (entries t)"
      "tx_avail st' = tx_avail st \<union> set (key_chain k (entries t))"
    using store_delete [OF assms] by blast
  have l: "lookup (entries t') j = (if j = k then None else lookup (entries t) j)" for j
    using r(3) lookup_del by simp
  show ?thesis
  proof (rule exI [of _ st'], rule exI [of _ t'], intro conjI allI impI)
    fix fuel' j assume "fuel_ok fuel' t'"
    from store_get [OF r(2) fun_upd_same this, of j] show "\<exists>st''. btree_get tx_ops fuel' p st' j = Ok (if j = k then None else lookup (entries t) j, st'')"
      unfolding l by blast
  next
    fix q u fuel' j assume a: "q \<noteq> p" "trees q = Some u" "fuel_ok fuel' u"
    then have "(trees(p \<mapsto> t')) q = Some u" by simp
    from store_get [OF r(2) this a(3), of j] show "\<exists>st''. btree_get tx_ops fuel' q st' j = Ok (lookup (entries u) j, st'')"
      by blast
  qed (rule r(1), rule r(2), rule r(4) [unfolded key_chain_def])
qed

section \<open>A new database\<close>

text \<open>A write transaction on a new database: one empty table on page 1, all other pages free.\<close>

lemma fresh_writer:
  "\<exists>e tx e'. engine_open [] [] = Ok e \<and> begin_write e = Ok (tx, e') \<and> store_ok (e', tx) [1 \<mapsto> TLeaf 1 []]
    \<and> tx_avail (e', tx) = {p. 1 < p}"
proof -
  obtain e d where e: "engine_open [] [] = Ok e" "started e" "mv_committed (en_mvcc e) = 0"
    "engine_view e 0 1 = Some (page_body 1 d)" "node_at 1 (page_body 1 d) empty_leaf"
    using engine_open_ok by blast
  obtain bs where bs: "file_open [] = Ok (bs, default_header)" "length bs = PAGE_SIZE" using fresh_file_ok by blast
  have pc: "en_page_count e = 1" "en_freelist e = []" "mv_tx_ids (en_mvcc e) = 0" "\<not> en_gate e"
    using e(1,2) bs by (auto simp: engine_open_def wal_open_Nil wal_empty_def mvcc_new_def started_def default_header_def
        file_page_count_def PAGE_SIZE_def)
  then obtain tx e' where w: "begin_write e = Ok (tx, e')" "wt_local_page_count tx = 1" "wt_local_freelist tx = []"
    by (simp add: begin_write_def mvcc_begin_write_def checked_succ_def)
  have ei: "engine_inv e" using e(2) by (simp add: started_def)
  note b = begin_write_ok [OF ei w(1)]
  have av: "tx_avail (e', tx) = {p. 1 < p}" using w(2,3) by (simp add: tx_avail_def)
  have "tree_ok (tx_view (e', tx)) (tx_avail (e', tx)) (i64_min - 1) i64_max (TLeaf 1 [])"
    using b e(3-5) unfolding av
    by (simp add: tree_ok_def empty_leaf_def leaf_fits_def leaf_used_def header_offset_def PAGE_SIZE_def)
  then have "store_ok (e', tx) [1 \<mapsto> TLeaf 1 []]" using b by (auto simp: store_ok_def split: if_splits)
  with e(1) w(1) av show ?thesis by blast
qed

lemma fresh_room: "n \<le> 2 \<Longrightarrow> n \<le> card {p :: page_id. 1 < p}"
proof -
  have "card {2 :: page_id, 3} \<le> card {p :: page_id. 1 < p}" by (rule card_mono) auto
  then show "n \<le> 2 \<Longrightarrow> n \<le> card {p :: page_id. 1 < p}" by simp
qed

lemma fresh_fuel: "fuel_ok 1 (TLeaf 1 [])"
  by (simp add: fuel_ok_def)

theorem btree_insert_correct_witness:
  "\<exists>e tx e' st. engine_open [] [] = Ok e \<and> begin_write e = Ok (tx, e')
    \<and> btree_insert tx_ops 1 1 (e', tx) (i64_of_int 7) [1, 2] = Ok st"
proof -
  obtain e tx e' where f: "engine_open [] [] = Ok e" "begin_write e = Ok (tx, e')" "store_ok (e', tx) [1 \<mapsto> TLeaf 1 []]"
    "tx_avail (e', tx) = {p. 1 < p}" using fresh_writer by blast
  have "insert_pages (TLeaf 1 []) [1, 2] \<le> card (tx_avail (e', tx))"
    unfolding f(4) by (rule fresh_room) (simp add: insert_pages_def overflow_pages_def USABLE_def PAGE_SIZE_def)
  from btree_insert_correct [OF f(3) fun_upd_same fresh_fuel small_record_short this, of "i64_of_int 7"] f(1,2)
  show ?thesis by auto
qed

theorem btree_delete_correct_witness:
  "\<exists>e tx e' st. engine_open [] [] = Ok e \<and> begin_write e = Ok (tx, e')
    \<and> btree_delete tx_ops 1 1 (e', tx) (i64_of_int 7) = Ok (False, st)"
proof -
  obtain e tx e' where f: "engine_open [] [] = Ok e" "begin_write e = Ok (tx, e')" "store_ok (e', tx) [1 \<mapsto> TLeaf 1 []]"
    using fresh_writer by blast
  from btree_delete_correct [OF f(3) fun_upd_same fresh_fuel, where k = "i64_of_int 7"] f(1,2) show ?thesis
    by (auto simp: lookup_def)
qed

end
