(* ===== verification/Query.thy ===== *)
theory Query
  imports TxStore StorageSteps
begin

text \<open>
  A query from its plan to its rows: the optimizer, the executors over a read transaction, the
  b-trees of the tables and the storage engine under them, together.
\<close>

section \<open>The optimizer keeps what the executors need\<close>

lemma fold_binary_cases: "fold_binary op l r = EBinary op l r \<or> (\<exists>v. fold_binary op l r = ELiteral v)"
proof (cases "\<exists>a b. l = ELiteral a \<and> r = ELiteral b")
  case True
  then obtain a b where "l = ELiteral a" "r = ELiteral b" by blast
  then show ?thesis by (cases "eval_const_binary op a b") (simp_all add: fold_binary_def)
next
  case False
  then show ?thesis by (cases l; cases r) (simp_all add: fold_binary_def)
qed

lemma fold_unary_cases: "fold_unary op e = Ok e' \<Longrightarrow> e' = EUnary op e \<or> (\<exists>v. e' = ELiteral v)"
  by (cases e) (auto simp: fold_unary_def omap_eq_Ok split: option.splits)

lemma fold_expr_pure: "fold_expr e = Ok e' \<Longrightarrow> pure_expr e \<Longrightarrow> pure_expr e'"
proof (induction e arbitrary: e' rule: fold_expr.induct)
  case (1 op l r)
  then obtain l' r' where f: "fold_expr l = Ok l'" "fold_expr r = Ok r'" "e' = fold_binary op l' r'"
    by (auto simp: obind_eq_Ok)
  with 1 fold_binary_cases [of op l' r'] show ?case by auto
next
  case (2 op e)
  then obtain e1 where f: "fold_expr e = Ok e1" "fold_unary op e1 = Ok e'" by (auto simp: obind_eq_Ok)
  with 2 fold_unary_cases [OF f(2)] show ?case by auto
qed auto

lemma fold_list_pure: "omapM fold_expr es = Ok es' \<Longrightarrow> list_all pure_expr es \<Longrightarrow> list_all pure_expr es'"
  by (induction es arbitrary: es') (auto simp: obind_eq_Ok omap_eq_Ok intro: fold_expr_pure)

lemma fold_opt_pure: "omap_opt fold_expr e = Ok e' \<Longrightarrow> pred_option pure_expr e \<Longrightarrow> pred_option pure_expr e'"
  by (cases e) (auto simp: omap_opt_def omap_eq_Ok intro: fold_expr_pure)

lemma fold_output_pure: "omapM fold_output cs = Ok cs' \<Longrightarrow> list_all pure_output cs \<Longrightarrow> list_all pure_output cs'"
  by (induction cs arbitrary: cs')
    (auto simp: obind_eq_Ok omap_eq_Ok fold_output_def pure_output_def intro: fold_expr_pure split: output_col.splits)

lemma fold_keys_pure:
  "omapM (\<lambda>k. omap (\<lambda>e. SortKey e (sk_asc k)) (fold_expr (sk_expr k))) ks = Ok ks' \<Longrightarrow>
    list_all (\<lambda>k. pure_expr (sk_expr k)) ks \<Longrightarrow> list_all (\<lambda>k. pure_expr (sk_expr k)) ks'"
  by (induction ks arbitrary: ks') (auto simp: obind_eq_Ok omap_eq_Ok intro: fold_expr_pure)

lemma fold_plan_pure: "fold_plan p = Ok p' \<Longrightarrow> pure_plan p \<Longrightarrow> pure_plan p' \<and> scan_pages p' = scan_pages p"
proof (induction p arbitrary: p')
  case (PFilter p e)
  then show ?case by (auto simp: obind_eq_Ok omap_eq_Ok intro: fold_expr_pure)
next
  case (PProject p es cs)
  then show ?case by (auto simp: obind_eq_Ok omap_eq_Ok intro: fold_list_pure)
next
  case (PJoin l r e outer cs)
  then show ?case by (fastforce simp: obind_eq_Ok omap_eq_Ok intro: fold_opt_pure)
next
  case (PAggregate p gs ags outs cs n h)
  then show ?case
    by (auto simp: obind_eq_Ok omap_eq_Ok intro: fold_list_pure fold_output_pure fold_opt_pure)
next
  case (PSort p ks)
  then show ?case by (auto simp: obind_eq_Ok omap_eq_Ok intro: fold_keys_pure)
qed (auto simp: obind_eq_Ok omap_eq_Ok)

section \<open>The result of a query\<close>

text \<open>
  C9. The optimizer keeps the rows of a plan, their order included, as long as no \<open>NOT\<close> in the
  plan is applied to an operand that folds to a literal NULL.
\<close>

theorem optimize_sound:
  assumes "optimize p = Ok q" and "plan_safe p"
  shows "plan_rows pf params T q = plan_rows pf params T p \<and> plan_columns q = plan_columns p"
  using fold_plan_sound [OF assms(1)[unfolded optimize_def] assms(2)]
    fold_plan_columns [OF assms(1)[unfolded optimize_def]] by blast

theorem optimize_sound_witness:
  "plan_rows test_platform [] (\<lambda>p. [])
      (PFilter PDual (EUnary OpNeg (ELiteral (VInteger (i64_of_int 3)))) :: (unit, unit) plan)
    = Ok [\<lparr>row_id = i64_of_int 0, row_values = []\<rparr>]"
proof -
  let ?p = "PFilter PDual (EUnary OpNeg (ELiteral (VInteger (i64_of_int 3)))) :: (unit, unit) plan"
  let ?q = "PFilter PDual (ELiteral (VInteger (i64_of_int (-3)))) :: (unit, unit) plan"
  have 3: "int_of_i64 (i64_of_int 3) = 3" "int_of_i64 (i64_of_int (-3)) = -3"
    by (simp_all add: int_of_i64_of_int i64_min_def i64_max_def)
  have "optimize ?p = Ok ?q"
    by (simp add: optimize_def fold_unary_def eval_const_unary_def 3 ck_i64_def i64_min_def i64_max_def)
  moreover have "plan_safe ?p" by simp
  ultimately have "plan_rows test_platform [] (\<lambda>p. []) ?p = plan_rows test_platform [] (\<lambda>p. []) ?q"
    using optimize_sound [of ?p ?q] by simp
  also have "\<dots> = Ok [\<lparr>row_id = i64_of_int 0, row_values = []\<rparr>]"
    by (simp add: pred_holds_def run_pure_def ev_return_def 3)
  finally show ?thesis .
qed

lemma keep_rows_const:
  "(\<And>r. r \<in> set rs \<Longrightarrow> f r = Ok k) \<Longrightarrow> keep_rows f rs = Ok (if k then rs else [])"
  by (induction rs) auto

text \<open>
  C39. The exception is real: when the operand of a \<open>NOT\<close> folds to a literal NULL, the optimizer turns
  \<open>WHERE NOT e\<close> into \<open>WHERE TRUE\<close>. The plan as written has no rows, because the condition is NULL on each;
  the optimized plan has all rows of its input.
\<close>

theorem optimize_not_null_wrong:
  fixes e :: "('j, 'q) expr"
  assumes "fold_expr e = Ok (ELiteral VNull)" and "not_safe e"
    and "optimize p = Ok p'" and "plan_safe p" and "plan_rows pf params T p = Ok rows"
  shows "\<exists>q. optimize (PFilter p (EUnary OpNot e)) = Ok q
    \<and> plan_rows pf params T (PFilter p (EUnary OpNot e)) = Ok [] \<and> plan_rows pf params T q = Ok rows"
proof -
  have f: "fold_plan p = Ok p'" using assms(3) by (simp add: optimize_def)
  have opt: "optimize (PFilter p (EUnary OpNot e)) = Ok (PFilter p' (ELiteral (VBoolean True)))"
    using f assms(1) by (simp add: optimize_def fold_unary_def eval_const_unary_def)
  have "eval pf en e = ev_return VNull" for en
    using fold_expr_sound [OF assms(1,2), of pf en] by simp
  then have "pred_holds pf params (EUnary OpNot e) r = Ok False" for r
    by (simp add: pred_holds_def run_pure_def ev_bind_def ev_return_def ev_lift_def eval_unary_def)
  moreover have "pred_holds pf params (ELiteral (VBoolean True) :: ('j, 'q) expr) r = Ok True" for r
    by (simp add: pred_holds_def run_pure_def ev_return_def)
  moreover have "plan_rows pf params T p' = Ok rows" using fold_plan_sound [OF f assms(4)] assms(5) by simp
  ultimately show ?thesis using opt assms(5) by (simp add: keep_rows_const [of _ _ False] keep_rows_const [of _ _ True])
qed

theorem optimize_not_null_wrong_witness:
  "\<exists>q. optimize (PFilter PDual (EUnary OpNot (ELiteral VNull)) :: (unit, unit) plan) = Ok q
    \<and> plan_rows test_platform [] (\<lambda>p. []) q = Ok [\<lparr>row_id = i64_of_int 0, row_values = []\<rparr>]"
proof -
  let ?p = "PDual :: (unit, unit) plan" and ?e = "ELiteral VNull :: (unit, unit) expr"
  have "fold_expr ?e = Ok (ELiteral VNull)" "not_safe ?e" "optimize ?p = Ok ?p" "plan_safe ?p"
    "plan_rows test_platform [] (\<lambda>p. []) ?p = Ok [\<lparr>row_id = i64_of_int 0, row_values = []\<rparr>]"
    by (simp_all add: optimize_def)
  from optimize_not_null_wrong [OF this] show ?thesis by blast
qed

text \<open>
  C4. A query returns the rows of its plan. On any read transaction whose snapshot holds the
  b-trees of the tables, the executor tree built from the optimized plan ends, for
  every large enough number of calls, with exactly the rows that the plan denotes on the tables'
  entries, in that order; the engine stays consistent, the snapshot is unchanged, and so is the
  world. The plan may not use functions of the clock or of random numbers, nor a \<open>NOT\<close> whose operand folds to
  NULL (\<open>optimize_not_null_wrong\<close>), and no cell of the tables takes more than 512 bytes.
\<close>

theorem query_correct:
  assumes "engine_inv e" and "trees_good (engine_view e (rt_version tx)) fuel trees"
    and "optimize p = Ok q" and "plan_safe p" and "pure_plan p" and "scan_pages p \<subseteq> dom trees"
    and "plan_rows pf params (tables_of trees) p = Ok rows"
  shows "\<exists>e' n0. engine_inv e' \<and> engine_view e' (rt_version tx) = engine_view e (rt_version tx)
    \<and> (\<forall>n. collect_all (read_ctx tx fuel pf params) (n0 + n) (build q) (e, w) = Ok (rows, (e', w)))"
proof -
  note f = assms(3)[unfolded optimize_def]
  have q: "pure_plan q" "scan_pages q \<subseteq> dom trees" "plan_rows pf params (tables_of trees) q = Ok rows"
    using fold_plan_pure [OF f assms(5)] fold_plan_sound [OF f assms(4)] assms(6,7) by auto
  let ?V = "engine_view e (sn_version (rt_snapshot tx))"
  have "reads_tables engine_inv (\<lambda>e. engine_view e (sn_version (rt_snapshot tx))) fuel trees ?V e"
    using assms(1,2) by (simp add: reads_tables_def rt_version_def)
  from read_tables.query_refines [OF _ q(1,2) this, of pf params rows w] q(3)
  obtain e' n0 where "reads_tables engine_inv (\<lambda>e. engine_view e (sn_version (rt_snapshot tx))) fuel trees ?V e'"
    "\<And>n. n0 \<le> n \<Longrightarrow> collect_all (read_ctx tx fuel pf params) n (build q) (e, w) = Ok (rows, (e', w))"
    by (auto simp: read_ctx_def)
  then show ?thesis
    by (intro exI [of _ e'] exI [of _ n0]) (simp add: reads_tables_def rt_version_def)
qed

text \<open>\<open>SELECT COUNT(*)\<close> over the empty leaf on page 1 of a new database.\<close>

theorem query_correct_witness:
  "\<exists>e tx e' n. engine_open [] [] = Ok e
    \<and> collect_all (read_ctx tx 2 test_platform []) n
        (build (PAggregate (PScan ''t'' 1 [] None []) [] [AggExpr AgCountStar None False None] [OutAgg 0] [] 0 None
          :: (unit, unit) plan)) (e, default_world)
      = Ok ([\<lparr>row_id = i64_of_int 0, row_values = [VInteger (i64_of_int 0)]\<rparr>], (e', default_world))"
proof -
  let ?p = "PAggregate (PScan ''t'' 1 [] None []) [] [AggExpr AgCountStar None False None] [OutAgg 0] [] 0 None
     :: (unit, unit) plan"
  let ?rows = "[\<lparr>row_id = i64_of_int 0, row_values = [VInteger (i64_of_int 0)]\<rparr>] :: unit row list"
  let ?trees = "[1 \<mapsto> TLeaf 1 []]" and ?tx = "\<lparr>rt_snapshot = \<lparr>sn_version = 0\<rparr>\<rparr>"
  obtain e d where e: "engine_open [] [] = Ok e" "started e" "engine_view e 0 1 = Some (page_body 1 d)"
    "node_at 1 (page_body 1 d) empty_leaf"
    using engine_open_ok by blast
  have v: "rt_version ?tx = 0" by (simp add: rt_version_def)
  have good: "trees_good (engine_view e (rt_version ?tx)) 2 ?trees"
    using e(3,4) by (simp add: v trees_good_def tree_good_def empty_leaf_def leaf_fits_def leaf_used_def
        header_offset_def PAGE_SIZE_def fuel_ok_def)
  have opt: "optimize ?p = Ok ?p" by (simp add: optimize_def fold_output_def omap_opt_def)
  have rows: "plan_rows test_platform [] (tables_of ?trees) ?p = Ok ?rows"
    by (simp add: tables_of_def table_rows_def run_pure_def agg_rows_def order_groups_def group_new_def
        acc_default_def row_default_def group_passes_def acc_finalize_def index_at_def ev_return_def ev_bind_def ev_lift_def)
  have "engine_inv e" using e(2) by (simp add: started_def)
  from query_correct [OF this good opt _ _ _ rows, of default_world] obtain e' n0 where
    "\<And>n. collect_all (read_ctx ?tx 2 test_platform []) (n0 + n) (build ?p) (e, default_world) = Ok (?rows, (e', default_world))"
    by (auto simp: pure_agg_def pure_output_def)
  with e(1) show ?thesis by blast
qed

end
