(* ===== verification/SqlAst.thy ===== *)
theory SqlAst
  imports Eval
begin

text \<open>
  The syntax trees of SQL. The parser is a library; of the types it documents the model
  has the shapes that \<open>squrust-sql\<close> tells apart, and one constructor for all the others, which
  carries the text that the code puts into its message. \<open>'q\<close> stands for a query.
\<close>

datatype sql_literal =
    LNumber string | LSingleQuoted string | LDoubleQuoted string | LEscaped string | LHex string
  | LBoolean bool | LNull | LPlaceholder string | LOther string

datatype sql_binop =
    BoEq | BoNotEq | BoLt | BoLtEq | BoGt | BoGtEq | BoAnd | BoOr | BoPlus | BoMinus | BoMultiply
  | BoDivide | BoModulo | BoStringConcat | BoOther string

datatype sql_unop = UoNot | UoMinus | UoPlus | UoOther string

datatype trim_where = TrimBoth | TrimLeading | TrimTrailing

text \<open>
  Function arguments: an expression, a named expression, an unnamed wildcard, or something
  else; a call without an argument list is \<open>NoArgList\<close>. The flag is \<open>DISTINCT\<close>.
\<close>

datatype 'e fn_arg = FaExpr 'e | FaNamed 'e | FaWildcard | FaOther

datatype 'e fn_args = ArgList bool "'e fn_arg list" | NoArgList

datatype 'q sql_expr =
    SIdentifier string
  | SCompoundIdentifier "string list"
  | SValue sql_literal
  | SNested "'q sql_expr"
  | SBinaryOp "'q sql_expr" sql_binop "'q sql_expr"
  | SUnaryOp sql_unop "'q sql_expr"
  | SIsNull "'q sql_expr"
  | SIsNotNull "'q sql_expr"
  | SLike bool "'q sql_expr" "'q sql_expr"
  | SInList "'q sql_expr" "'q sql_expr list" bool
  | SCeil "'q sql_expr"
  | SFloor "'q sql_expr"
  | SSubquery 'q
  | SExists 'q bool
  | SInSubquery "'q sql_expr" 'q bool
  | SBetween "'q sql_expr" bool "'q sql_expr" "'q sql_expr"
  | SFunction "string list" "'q sql_expr fn_args"
  | SCast "'q sql_expr" string
  | STrim "'q sql_expr" "trim_where option" "'q sql_expr option" "'q sql_expr list option"
  | SCase "'q sql_expr option" "'q sql_expr list" "'q sql_expr list" "'q sql_expr option"
  | SSubstring "'q sql_expr" "'q sql_expr option" "'q sql_expr option"
  | SOther string

text \<open>The options of a column definition.\<close>

datatype 'e column_option = CoNotNull | CoUnique bool | CoDefault 'e | CoOther

text \<open>\<open>data_type\<close> and \<open>cd_text\<close> are the texts of \<open>Display\<close> for the type and the definition.\<close>

record 'e column_def =
  cd_name :: string
  cd_data_type :: string
  cd_options :: "'e column_option list"
  cd_text :: string

record 'e create_table =
  ct_name :: "string list"
  ct_columns :: "'e column_def list"
  ct_if_not_exists :: bool

record 'e create_index =
  ci_index_name :: "string list option"
  ci_on_table :: "string list"
  ci_columns :: "'e list"
  ci_unique :: bool
  ci_if_not_exists :: bool

section \<open>Queries\<close>

datatype table_factor = TfTable "string list" "string option" | TfOther string

datatype 'e join_operator = JoInnerNone | JoCross | JoInnerOn 'e | JoLeftOuterOn 'e | JoOther string

text \<open>A relation of \<open>FROM\<close> and the relations joined to it.\<close>

datatype 'e from_item = FromItem table_factor "(table_factor \<times> 'e join_operator) list"

datatype 'e select_item = SiWildcard | SiQualifiedWildcard "string list" | SiUnnamed 'e | SiAliased 'e string

datatype distinct_clause = DistinctPlain | DistinctOther string

text \<open>\<open>se_group_by\<close> is \<open>None\<close> for \<open>GROUP BY ALL\<close>; \<open>oi_asc\<close> is the direction, if it is given.\<close>

datatype 'e select = Select
  (se_projection: "'e select_item list")
  (se_from: "'e from_item list")
  (se_selection: "'e option")
  (se_group_by: "'e list option")
  (se_having: "'e option")
  (se_distinct: "distinct_clause option")

datatype 'e order_item = OrderItem (oi_expr: 'e) (oi_asc: "bool option")

datatype set_operator = SoUnion | SoIntersect | SoExcept

datatype set_quantifier = SqAll | SqAllByName | SqOther

datatype query = Query
    "(bool \<times> cte list) option"
    set_expr
    "query sql_expr order_item list option"
    "query sql_expr option"
    "query sql_expr option"
  and cte = Cte string "string list" query
  and set_expr =
    SeSelect "query sql_expr select"
  | SeQuery query
  | SeSetOperation set_operator set_quantifier set_expr set_expr
  | SeValues "query sql_expr list list"
  | SeOther

text \<open>\<open>Query with body order_by limit offset\<close>; the flag of \<open>with\<close> is \<open>RECURSIVE\<close>.\<close>

type_synonym sexpr = "query sql_expr"

primrec q_body :: "query \<Rightarrow> set_expr" where
  "q_body (Query w body order limit offset) = body"

section \<open>Statements\<close>

datatype assignment_target = AtColumn "string list" | AtOther string

datatype alter_operation = AoAddColumn "sexpr column_def" bool | AoOther string

record insert_stmt =
  in_table :: "string list"
  in_columns :: "string list"
  in_source :: "query option"
  in_or_replace :: bool
  in_replace_into :: bool

text \<open>
  The texts are the \<open>Display\<close> of the whole statement; \<open>StDrop\<close> has the kind of object if it
  is not a table.
\<close>

datatype statement =
    StQuery query
  | StInsert insert_stmt
  | StUpdate table_factor "(assignment_target \<times> sexpr) list" "sexpr option"
  | StDelete "sexpr from_item list" "sexpr option"
  | StCreateTable "sexpr create_table" string
  | StCreateIndex "sexpr create_index" string
  | StDrop "string option" bool "string list list"
  | StAlterTable "string list" "alter_operation list"
  | StOther string

text \<open>The parser and the printer of the library.\<close>

record sql_front =
  sf_parse :: "string \<Rightarrow> string + statement list"
  sf_expr_text :: "sexpr \<Rightarrow> string"
  sf_body_text :: "set_expr \<Rightarrow> string"
  sf_item_text :: "sexpr select_item \<Rightarrow> string"

text \<open>\<open>parser.rs\<close>.\<close>

definition sql_parse :: "sql_front \<Rightarrow> string \<Rightarrow> statement list qres" where
  "sql_parse fr sql = (case sf_parse fr sql of Inl msg \<Rightarrow> Err (ParseError msg) | Inr stmts \<Rightarrow> Ok stmts)"

definition object_name_to_string :: "string list \<Rightarrow> string" where
  "object_name_to_string parts =
     (case parts of [] \<Rightarrow> [] | p # ps \<Rightarrow> p @ concat (map (\<lambda>q. CHR ''.'' # q) ps))"

end
