(* ===== verification/Schema.thy ===== *)
theory Schema
  imports SqlAst Page DateTime
begin

text \<open>
  The schema model of \<open>squrust-sql/src/schema/mod.rs\<close>, and \<open>squrust-sql/src/ddl.rs\<close>, which reads
  it from the definitions of columns, tables and indexes.
\<close>

section \<open>Tables, columns and indexes\<close>

datatype 'j default_expr = DefValue "'j sql_value" | DefCurrentTimestamp | DefCurrentDate | DefCurrentTime

record 'j column =
  co_name :: string
  co_decl_type :: string
  co_sql_type :: sql_type
  co_not_null :: bool
  co_primary_key :: bool
  co_unique :: bool
  co_default :: "'j default_expr option"

record 'j table =
  tb_name :: string
  tb_columns :: "'j column list"
  tb_root_page :: page_id
  tb_rowid_alias :: "nat option"
  tb_sql :: string

definition column_index :: "'j table \<Rightarrow> string \<Rightarrow> nat option" where
  "column_index t name = position (\<lambda>c. eq_ignore_ascii_case (co_name c) name) (tb_columns t)"

definition table_column :: "'j table \<Rightarrow> string \<Rightarrow> 'j column option" where
  "table_column t name = map_option (\<lambda>i. tb_columns t ! i) (column_index t name)"

record index =
  ix_name :: string
  ix_table :: string
  ix_columns :: "string list"
  ix_unique :: bool
  ix_sql :: string

section \<open>Literals\<close>

definition hex_val :: "char \<Rightarrow> nat option" where
  "hex_val c =
     (let n = cp c in
      if 48 \<le> n \<and> n \<le> 57 then Some (n - 48)
      else if 65 \<le> n \<and> n \<le> 70 then Some (n - 55)
      else if 97 \<le> n \<and> n \<le> 102 then Some (n - 87) else None)"

text \<open>
  \<open>u8::from_str_radix(s, 16)\<close>: an optional plus sign, then digits; the two digits of a byte
  cannot overflow.
\<close>

fun hex_digits :: "string \<Rightarrow> nat \<Rightarrow> nat option" where
  "hex_digits [] n = Some n"
| "hex_digits (c # cs) n =
     (case hex_val c of None \<Rightarrow> None | Some d \<Rightarrow> hex_digits cs (16 * n + d))"

definition byte_from_hex :: "string \<Rightarrow> nat option" where
  "byte_from_hex s =
     (let ds = (if 1 < length s \<and> hd s = CHR ''+'' then tl s else s) in
      if ds = [] then None else hex_digits ds 0)"

text \<open>The loop over \<open>(0..s.len()).step_by(2)\<close>; slicing inside a character panics.\<close>

fun hex_pairs :: "string \<Rightarrow> string \<Rightarrow> bytes qres" where
  "hex_pairs whole (a # b # cs) =
     (if \<not> utf8_valid [a, b] then Panic
      else case byte_from_hex [a, b] of
        None \<Rightarrow> Err (TypeError (''invalid hex literal x'' @ [CHR 0x27] @ whole @ [CHR 0x27]))
      | Some n \<Rightarrow> obind (hex_pairs whole cs) (\<lambda>bs. Ok (word_of_nat n # bs)))"
| "hex_pairs whole cs = Ok []"

definition decode_hex :: "string \<Rightarrow> bytes qres" where
  "decode_hex s =
     (if length s mod 2 \<noteq> 0 then Err (TypeError ''odd-length hex literal'') else hex_pairs s s)"

text \<open>A number is an integer if it fits, else a real.\<close>

definition value_from_sql :: "sql_literal \<Rightarrow> 'j sql_value qres" where
  "value_from_sql v =
     (case v of
        LNumber s \<Rightarrow>
          (case parse_i64 s of
             Some i \<Rightarrow> Ok (VInteger i)
           | None \<Rightarrow>
               (case parse_f64 s of
                  Some r \<Rightarrow> Ok (VReal r)
                | None \<Rightarrow> Err (TypeError (''bad number literal '' @ s))))
      | LSingleQuoted s \<Rightarrow> Ok (VText s)
      | LDoubleQuoted s \<Rightarrow> Ok (VText s)
      | LEscaped s \<Rightarrow> Ok (VText s)
      | LHex s \<Rightarrow> obind (decode_hex s) (\<lambda>b. Ok (VBlob b))
      | LBoolean b \<Rightarrow> Ok (VBoolean b)
      | LNull \<Rightarrow> Ok VNull
      | LPlaceholder p \<Rightarrow> Err (UnsupportedError (''unsupported literal: '' @ p))
      | LOther p \<Rightarrow> Err (UnsupportedError (''unsupported literal: '' @ p)))"

definition negate_value :: "'j sql_value \<Rightarrow> 'j sql_value qres" where
  "negate_value v =
     (case v of
        VInteger i \<Rightarrow> obind (ck_i64 (- int_of_i64 i)) (\<lambda>k. Ok (VInteger (i64_of_int k)))
      | VReal r \<Rightarrow> Ok (VReal (f64_neg r))
      | v \<Rightarrow> Ok v)"

fun literal_from_expr :: "('q sql_expr \<Rightarrow> string) \<Rightarrow> 'q sql_expr \<Rightarrow> 'j sql_value qres" where
  "literal_from_expr disp (SValue v) = value_from_sql v"
| "literal_from_expr disp (SUnaryOp UoMinus e) = obind (literal_from_expr disp e) negate_value"
| "literal_from_expr disp e = Err (UnsupportedError (''non-literal default expression: '' @ disp e))"

section \<open>Definitions\<close>

text \<open>The keyword a default may be: an identifier or the name of a function.\<close>

definition default_keyword :: "'q sql_expr \<Rightarrow> string option" where
  "default_keyword e =
     (case e of
        SIdentifier s \<Rightarrow> Some (to_ascii_uppercase s)
      | SFunction name args \<Rightarrow> Some (to_ascii_uppercase (object_name_to_string name))
      | _ \<Rightarrow> None)"

text \<open>Whatever is not a literal is the default NULL; only a panic is not caught.\<close>

definition default_from_expr :: "('q sql_expr \<Rightarrow> string) \<Rightarrow> 'q sql_expr \<Rightarrow> 'j default_expr qres" where
  "default_from_expr disp e =
     (let k = default_keyword e in
      if k = Some ''CURRENT_TIMESTAMP'' then Ok DefCurrentTimestamp
      else if k = Some ''CURRENT_DATE'' then Ok DefCurrentDate
      else if k = Some ''CURRENT_TIME'' then Ok DefCurrentTime
      else case literal_from_expr disp e of
             Ok v \<Rightarrow> Ok (DefValue v)
           | Err _ \<Rightarrow> Ok (DefValue VNull)
           | Panic \<Rightarrow> Panic
           | Diverge \<Rightarrow> Diverge)"

fun column_options ::
    "('q sql_expr \<Rightarrow> string) \<Rightarrow> 'q sql_expr column_option list \<Rightarrow> 'j column \<Rightarrow> 'j column qres" where
  "column_options disp [] c = Ok c"
| "column_options disp (opt # opts) c =
     obind (case opt of
          CoNotNull \<Rightarrow> Ok (c\<lparr>co_not_null := True\<rparr>)
        | CoUnique is_primary \<Rightarrow>
            Ok (if is_primary then c\<lparr>co_primary_key := True\<rparr> else c\<lparr>co_unique := True\<rparr>)
        | CoDefault e \<Rightarrow> obind (default_from_expr disp e) (\<lambda>d. Ok (c\<lparr>co_default := Some d\<rparr>))
        | CoOther \<Rightarrow> Ok c) (\<lambda>c. column_options disp opts c)"

definition column_from_ast :: "('q sql_expr \<Rightarrow> string) \<Rightarrow> 'q sql_expr column_def \<Rightarrow> 'j column qres" where
  "column_from_ast disp d =
     column_options disp (cd_options d)
       \<lparr>co_name = cd_name d, co_decl_type = cd_data_type d, co_sql_type = affinity_from_decl (cd_data_type d),
        co_not_null = False, co_primary_key = False, co_unique = False, co_default = None\<rparr>"

fun table_columns ::
    "('q sql_expr \<Rightarrow> string) \<Rightarrow> nat \<Rightarrow> 'q sql_expr column_def list \<Rightarrow> nat option \<Rightarrow> ('j column list \<times> nat option) qres" where
  "table_columns disp idx [] alias = Ok ([], alias)"
| "table_columns disp idx (d # ds) alias =
     obind (column_from_ast disp d) (\<lambda>c.
     let alias = (if co_primary_key c \<and> co_sql_type c = TyInteger \<and> alias = None then Some idx else alias) in
     obind (table_columns disp (idx + 1) ds alias) (\<lambda>(cs, alias). Ok (c # cs, alias)))"

definition table_from_ast ::
    "('q sql_expr \<Rightarrow> string) \<Rightarrow> 'q sql_expr create_table \<Rightarrow> string \<Rightarrow> 'j table qres" where
  "table_from_ast disp ct sql =
     obind (table_columns disp 0 (ct_columns ct) None) (\<lambda>(cs, alias).
     Ok \<lparr>tb_name = object_name_to_string (ct_name ct), tb_columns = cs, tb_root_page = 0,
         tb_rowid_alias = alias, tb_sql = sql\<rparr>)"

fun index_columns :: "('q sql_expr \<Rightarrow> string) \<Rightarrow> 'q sql_expr list \<Rightarrow> string list qres" where
  "index_columns disp [] = Ok []"
| "index_columns disp (e # es) =
     (case e of
        SIdentifier s \<Rightarrow> obind (index_columns disp es) (\<lambda>cs. Ok (s # cs))
      | _ \<Rightarrow> Err (UnsupportedError (''index on expression `'' @ disp e @ ''` is not supported'')))"

definition index_from_ast ::
    "('q sql_expr \<Rightarrow> string) \<Rightarrow> 'q sql_expr create_index \<Rightarrow> string \<Rightarrow> index qres" where
  "index_from_ast disp ci sql =
     obind (ok_or (map_option object_name_to_string (ci_index_name ci)) (SchemaError ''index requires a name'')) (\<lambda>name.
     obind (index_columns disp (ci_columns ci)) (\<lambda>cs.
     Ok \<lparr>ix_name = name, ix_table = object_name_to_string (ci_on_table ci), ix_columns = cs,
         ix_unique = ci_unique ci, ix_sql = sql\<rparr>))"

section \<open>Definitions from text\<close>

definition parse_create_table :: "sql_front \<Rightarrow> string \<Rightarrow> 'j table qres" where
  "parse_create_table fr sql =
     obind (sql_parse fr sql) (\<lambda>stmts.
     case stmts of
       [] \<Rightarrow> Err (ParseError ''empty statement'')
     | StCreateTable ct shown # _ \<Rightarrow> table_from_ast (sf_expr_text fr) ct sql
     | _ \<Rightarrow> Err (SchemaError ''expected CREATE TABLE''))"

definition parse_create_index :: "sql_front \<Rightarrow> string \<Rightarrow> index qres" where
  "parse_create_index fr sql =
     obind (sql_parse fr sql) (\<lambda>stmts.
     case stmts of
       StCreateIndex ci shown # _ \<Rightarrow> index_from_ast (sf_expr_text fr) ci sql
     | _ \<Rightarrow> Err (SchemaError ''expected CREATE INDEX''))"

end
