(* ===== verification/Catalog.thy ===== *)
theory Catalog
  imports Schema BTree RowCodec Exec "HOL-Library.AList"
begin

text \<open>
  The schema catalog of \<open>squrust-sql/src/schema/catalog.rs\<close>: the table \<open>sqlite_master\<close> on page 1
  and its mirror in memory. The hash maps are association lists with distinct keys, the
  names in lower case; what depends on the order of a hash map is sorted by the code, or
  depends on it only in which of several storage errors comes first. A failed change returns
  no catalog: what it leaves in memory is not modelled.
\<close>

definition CATALOG_ROOT :: page_id where "CATALOG_ROOT = 1"

record 'j catalog =
  cg_tables :: "(string \<times> 'j table) list"
  cg_indexes :: "(string \<times> index) list"
  cg_ids :: "(string \<times> i64) list"

definition catalog_default :: "'j catalog" where
  "catalog_default = \<lparr>cg_tables = [], cg_indexes = [], cg_ids = []\<rparr>"

definition get_table :: "'j catalog \<Rightarrow> string \<Rightarrow> 'j table option" where
  "get_table cat name = map_of (cg_tables cat) (to_ascii_lowercase name)"

definition table_names :: "'j catalog \<Rightarrow> string list" where
  "table_names cat = sort (map (\<lambda>(k, t). tb_name t) (cg_tables cat))"

section \<open>Loading\<close>

definition text_at :: "'j platform \<Rightarrow> 'j sql_value list \<Rightarrow> nat \<Rightarrow> string" where
  "text_at pf vs i = (if i < length vs then to_display_string pf (vs ! i) else [])"

text \<open>\<open>as PageId\<close> keeps the low 32 bits.\<close>

definition root_at :: "'j sql_value list \<Rightarrow> nat \<Rightarrow> page_id" where
  "root_at vs i =
     (case (if i < length vs then as_i64 (vs ! i) else None) of
        Some k \<Rightarrow> word_of_int (int_of_i64 k) | None \<Rightarrow> 0)"

definition absorb :: "sql_front \<Rightarrow> 'j platform \<Rightarrow> i64 \<Rightarrow> 'j row \<Rightarrow> 'j catalog \<Rightarrow> 'j catalog qres" where
  "absorb fr pf rowid r cat =
     (let vs = row_values r;
          entry_type = text_at pf vs 0; name = text_at pf vs 1; rootpage = root_at vs 3; sql = text_at pf vs 4
      in if entry_type = ''table'' then
           obind (parse_create_table fr sql) (\<lambda>t.
           Ok (cat\<lparr>cg_ids := AList.update (to_ascii_lowercase name) rowid (cg_ids cat),
                   cg_tables := AList.update (to_ascii_lowercase (tb_name t)) (t\<lparr>tb_root_page := rootpage\<rparr>) (cg_tables cat)\<rparr>))
         else if entry_type = ''index'' then
           obind (parse_create_index fr sql) (\<lambda>ix.
           Ok (cat\<lparr>cg_ids := AList.update (to_ascii_lowercase name) rowid (cg_ids cat),
                   cg_indexes := AList.update (to_ascii_lowercase (ix_name ix)) ix (cg_indexes cat)\<rparr>))
         else Err (SchemaError (''unknown catalog entry '' @ entry_type)))"

fun load_loop ::
    "sql_front \<Rightarrow> 'j platform \<Rightarrow> ('s, 'm) page_source_scheme \<Rightarrow> nat \<Rightarrow> nat \<Rightarrow> 's \<Rightarrow> cursor \<Rightarrow> 'j catalog
     \<Rightarrow> ('j catalog \<times> 's) qres" where
  "load_loop fr pf S fuel 0 s c cat = Diverge"
| "load_loop fr pf S fuel (Suc n) s c cat =
     obind (from_storage (cursor_next S fuel fuel s c)) (\<lambda>(r, c, s).
     case r of
       None \<Rightarrow> Ok (cat, s)
     | Some (rowid, data) \<Rightarrow>
         obind (row_decode rowid data) (\<lambda>row.
         obind (absorb fr pf rowid row cat) (\<lambda>cat. load_loop fr pf S fuel n s c cat)))"

definition catalog_load ::
    "sql_front \<Rightarrow> 'j platform \<Rightarrow> ('s, 'm) page_source_scheme \<Rightarrow> nat \<Rightarrow> 's \<Rightarrow> ('j catalog \<times> 's) qres" where
  "catalog_load fr pf S fuel s =
     obind (from_storage (cursor_seek_first S fuel s CATALOG_ROOT)) (\<lambda>(c, s).
     load_loop fr pf S fuel fuel s c catalog_default)"

section \<open>Changes\<close>

text \<open>The record of a catalog entry.\<close>

definition entry_row :: "i64 \<Rightarrow> string \<Rightarrow> string \<Rightarrow> string \<Rightarrow> page_id \<Rightarrow> string \<Rightarrow> 'j row" where
  "entry_row rowid entry_type name tbl_name rootpage sql =
     \<lparr>row_id = rowid, row_values =
        [VText entry_type, VText name, VText tbl_name, VInteger (i64_of_int (uint rootpage)), VText sql]\<rparr>"

definition put_entry :: "'j platform \<Rightarrow> 's page_ops \<Rightarrow> nat \<Rightarrow> 's \<Rightarrow> 'j row \<Rightarrow> 's qres" where
  "put_entry pf S fuel s r =
     obind (row_encode pf r) (\<lambda>data. from_storage (btree_insert S fuel CATALOG_ROOT s (row_id r) data))"

definition insert_entry ::
    "'j platform \<Rightarrow> 's page_ops \<Rightarrow> nat \<Rightarrow> 's \<Rightarrow> string \<Rightarrow> string \<Rightarrow> string \<Rightarrow> page_id \<Rightarrow> string \<Rightarrow> (i64 \<times> 's) qres" where
  "insert_entry pf S fuel s entry_type name tbl_name rootpage sql =
     obind (from_storage (btree_last_key S fuel CATALOG_ROOT s)) (\<lambda>(k, s).
     obind (ck_i64 (1 + (case k of Some k \<Rightarrow> int_of_i64 k | None \<Rightarrow> 0))) (\<lambda>n.
     let rowid = i64_of_int n in
     obind (put_entry pf S fuel s (entry_row rowid entry_type name tbl_name rootpage sql)) (\<lambda>s. Ok (rowid, s))))"

definition add_table ::
    "'j platform \<Rightarrow> 's page_ops \<Rightarrow> nat \<Rightarrow> 's \<Rightarrow> 'j table \<Rightarrow> 'j catalog \<Rightarrow> ('j catalog \<times> 's) qres" where
  "add_table pf S fuel s t cat =
     obind (insert_entry pf S fuel s ''table'' (tb_name t) (tb_name t) (tb_root_page t) (tb_sql t)) (\<lambda>(rowid, s).
     let key = to_ascii_lowercase (tb_name t) in
     Ok (cat\<lparr>cg_ids := AList.update key rowid (cg_ids cat), cg_tables := AList.update key t (cg_tables cat)\<rparr>, s))"

text \<open>Indexes live in memory only.\<close>

definition add_index :: "index \<Rightarrow> 'j catalog \<Rightarrow> 'j catalog" where
  "add_index ix cat = cat\<lparr>cg_indexes := AList.update (to_ascii_lowercase (ix_name ix)) ix (cg_indexes cat)\<rparr>"

definition alter_add_column ::
    "'j platform \<Rightarrow> 's page_ops \<Rightarrow> nat \<Rightarrow> 's \<Rightarrow> string \<Rightarrow> 'j column \<Rightarrow> string \<Rightarrow> 'j catalog \<Rightarrow> ('j catalog \<times> 's) qres" where
  "alter_add_column pf S fuel s table_name col new_sql cat =
     (let key = to_ascii_lowercase table_name; missing = NotFoundError (''table `'' @ table_name @ ''`'') in
      obind (ok_or (map_of (cg_tables cat) key) missing) (\<lambda>t.
      obind (ok_or (map_of (cg_ids cat) key) missing) (\<lambda>rowid.
      obind (put_entry pf S fuel s (entry_row rowid ''table'' (tb_name t) (tb_name t) (tb_root_page t) new_sql)) (\<lambda>s.
      Ok (cat\<lparr>cg_tables := AList.update key (t\<lparr>tb_columns := tb_columns t @ [col], tb_sql := new_sql\<rparr>) (cg_tables cat)\<rparr>,
          s)))))"

text \<open>Removing the entry a name has, if it has one.\<close>

definition drop_entry :: "'s page_ops \<Rightarrow> nat \<Rightarrow> 's \<Rightarrow> string \<Rightarrow> 'j catalog \<Rightarrow> ('j catalog \<times> 's) qres" where
  "drop_entry S fuel s key cat =
     (case map_of (cg_ids cat) key of
        None \<Rightarrow> Ok (cat, s)
      | Some rowid \<Rightarrow>
          obind (from_storage (btree_delete S fuel CATALOG_ROOT s rowid)) (\<lambda>(b, s).
          Ok (cat\<lparr>cg_ids := AList.delete key (cg_ids cat)\<rparr>, s)))"

fun drop_indexes :: "'s page_ops \<Rightarrow> nat \<Rightarrow> 's \<Rightarrow> string list \<Rightarrow> 'j catalog \<Rightarrow> ('j catalog \<times> 's) qres" where
  "drop_indexes S fuel s [] cat = Ok (cat, s)"
| "drop_indexes S fuel s (key # keys) cat =
     obind (drop_entry S fuel s key cat) (\<lambda>(cat, s).
     drop_indexes S fuel s keys (cat\<lparr>cg_indexes := AList.delete key (cg_indexes cat)\<rparr>))"

definition dependent_indexes :: "string \<Rightarrow> 'j catalog \<Rightarrow> string list" where
  "dependent_indexes name cat =
     map (\<lambda>(k, ix). to_ascii_lowercase (ix_name ix))
       (filter (\<lambda>(k, ix). eq_ignore_ascii_case (ix_table ix) name) (cg_indexes cat))"

definition drop_table :: "'s page_ops \<Rightarrow> nat \<Rightarrow> 's \<Rightarrow> string \<Rightarrow> 'j catalog \<Rightarrow> (bool \<times> 'j catalog \<times> 's) qres" where
  "drop_table S fuel s name cat =
     (let key = to_ascii_lowercase name in
      if map_of (cg_tables cat) key = None then Ok (False, cat, s)
      else
        obind (drop_entry S fuel s key cat) (\<lambda>(cat, s).
        let cat = cat\<lparr>cg_tables := AList.delete key (cg_tables cat)\<rparr> in
        obind (drop_indexes S fuel s (dependent_indexes name cat) cat) (\<lambda>(cat, s). Ok (True, cat, s))))"

end
