(* ===== verification/Resolver.thy ===== *)
theory Resolver
  imports Schema Exec
begin

text \<open>
  Name resolution, \<open>squrust-sql/src/planner/resolver.rs\<close>: the expressions of the syntax tree become
  expressions over the positions of a row. Resolution threads the number of the next bind
  parameter; \<open>disp\<close> is the \<open>Display\<close> of an expression.
\<close>

section \<open>Scopes\<close>

record scope_col =
  sc_table :: "string option"
  sc_name :: string
  sc_sql_type :: sql_type
  sc_decl_type :: "string option"

type_synonym scope = "scope_col list"

definition scope_match :: "string option \<Rightarrow> string \<Rightarrow> scope_col \<Rightarrow> bool" where
  "scope_match tbl name c \<longleftrightarrow> eq_ignore_ascii_case (sc_name c) name
     \<and> (case (tbl, sc_table c) of
          (None, _) \<Rightarrow> True
        | (Some t, Some ct) \<Rightarrow> eq_ignore_ascii_case t ct
        | (Some _, None) \<Rightarrow> False)"

fun scope_loop :: "string option \<Rightarrow> string \<Rightarrow> nat \<Rightarrow> scope \<Rightarrow> nat option \<Rightarrow> nat qres" where
  "scope_loop tbl name i [] found = ok_or found (NotFoundError (''column `'' @ name @ ''`''))"
| "scope_loop tbl name i (c # cs) found =
     (if scope_match tbl name c then
        (if found \<noteq> None then Err (AmbiguousError (''column `'' @ name @ ''`''))
         else scope_loop tbl name (i + 1) cs (Some i))
      else scope_loop tbl name (i + 1) cs found)"

definition scope_resolve :: "scope \<Rightarrow> string option \<Rightarrow> string \<Rightarrow> nat qres" where
  "scope_resolve sc tbl name = scope_loop tbl name 0 sc None"

section \<open>Aggregates\<close>

definition is_aggregate_name :: "string \<Rightarrow> bool" where
  "is_aggregate_name name \<longleftrightarrow>
     to_ascii_uppercase name \<in> {''COUNT'', ''SUM'', ''AVG'', ''MIN'', ''MAX'', ''TOTAL'', ''GROUP_CONCAT''}"

primrec arg_list :: "'e fn_args \<Rightarrow> 'e fn_arg list" where
  "arg_list (ArgList d args) = args"
| "arg_list NoArgList = []"

primrec arg_distinct :: "'e fn_args \<Rightarrow> bool" where
  "arg_distinct (ArgList d args) = d"
| "arg_distinct NoArgList = False"

definition arg_true :: "bool fn_arg \<Rightarrow> bool" where
  "arg_true a = (case a of FaExpr b \<Rightarrow> b | FaNamed b \<Rightarrow> b | _ \<Rightarrow> False)"

primrec contains_aggregate :: "'q sql_expr \<Rightarrow> bool" where
  "contains_aggregate (SFunction parts args) =
     (let name = to_ascii_uppercase (object_name_to_string parts);
          bs = arg_list (map_fn_args contains_aggregate args) in
      is_aggregate_name name \<and> \<not> (name \<in> {''MIN'', ''MAX''} \<and> 1 < length bs)
      \<or> list_ex arg_true bs)"
| "contains_aggregate (SBinaryOp l op r) = (contains_aggregate l \<or> contains_aggregate r)"
| "contains_aggregate (SUnaryOp op e) = contains_aggregate e"
| "contains_aggregate (SNested e) = contains_aggregate e"
| "contains_aggregate (SIdentifier s) = False"
| "contains_aggregate (SCompoundIdentifier ps) = False"
| "contains_aggregate (SValue v) = False"
| "contains_aggregate (SIsNull e) = False"
| "contains_aggregate (SIsNotNull e) = False"
| "contains_aggregate (SLike neg e p) = False"
| "contains_aggregate (SInList e es neg) = False"
| "contains_aggregate (SCeil e) = False"
| "contains_aggregate (SFloor e) = False"
| "contains_aggregate (SSubquery q) = False"
| "contains_aggregate (SExists q neg) = False"
| "contains_aggregate (SInSubquery e q neg) = False"
| "contains_aggregate (SBetween e neg lo hi) = False"
| "contains_aggregate (SCast e ty) = False"
| "contains_aggregate (STrim e w what ch) = False"
| "contains_aggregate (SCase opr cs rs els) = False"
| "contains_aggregate (SSubstring e fr fo) = False"
| "contains_aggregate (SOther s) = False"

section \<open>Expressions\<close>

definition map_binop :: "sql_binop \<Rightarrow> bin_op qres" where
  "map_binop op =
     (case op of
        BoEq \<Rightarrow> Ok OpEq | BoNotEq \<Rightarrow> Ok OpNotEq | BoLt \<Rightarrow> Ok OpLt | BoLtEq \<Rightarrow> Ok OpLtEq | BoGt \<Rightarrow> Ok OpGt
      | BoGtEq \<Rightarrow> Ok OpGtEq | BoAnd \<Rightarrow> Ok OpAnd | BoOr \<Rightarrow> Ok OpOr | BoPlus \<Rightarrow> Ok OpAdd | BoMinus \<Rightarrow> Ok OpSub
      | BoMultiply \<Rightarrow> Ok OpMul | BoDivide \<Rightarrow> Ok OpDiv | BoModulo \<Rightarrow> Ok OpMod | BoStringConcat \<Rightarrow> Ok OpConcat
      | BoOther s \<Rightarrow> Err (UnsupportedError (''operator '' @ s)))"

definition unary_of :: "sql_unop \<Rightarrow> ('j, 'q) expr \<Rightarrow> ('j, 'q) expr qres" where
  "unary_of op e =
     (case op of
        UoNot \<Rightarrow> Ok (EUnary OpNot e) | UoMinus \<Rightarrow> Ok (EUnary OpNeg e) | UoPlus \<Rightarrow> Ok e
      | UoOther s \<Rightarrow> Err (UnsupportedError (''unary operator '' @ s)))"

text \<open>
  \<open>?\<close> takes the next number, a placeholder with digits names its own, from 1. The number is
  a \<open>usize\<close>; counting past it panics.
\<close>

definition param_index :: "string \<Rightarrow> nat \<Rightarrow> (nat \<times> nat) qres" where
  "param_index placeholder next_param =
     (let digits = filter is_digit placeholder; n = nat (digits_val digits) in
      if digits \<noteq> [] \<and> n < 2 ^ 64 \<and> 1 \<le> n then Ok (n - 1, max next_param n)
      else if next_param + 1 < 2 ^ 64 then Ok (next_param, next_param + 1)
      else Panic)"

type_synonym 'a rs = "('a, nat) sm"

definition sm_lift :: "'a qres \<Rightarrow> ('a, 't) sm" where
  "sm_lift r = (\<lambda>t. omap (\<lambda>x. (x, t)) r)"

definition sm_fail :: "sql_error \<Rightarrow> ('a, 't) sm" where
  "sm_fail e = (\<lambda>t. Err e)"

fun sm_sequence :: "('a, 't) sm list \<Rightarrow> ('a list, 't) sm" where
  "sm_sequence [] = sm_return []"
| "sm_sequence (m # ms) = sm_bind m (\<lambda>x. sm_bind (sm_sequence ms) (\<lambda>xs. sm_return (x # xs)))"

definition sm_option :: "('a, 't) sm option \<Rightarrow> ('a option, 't) sm" where
  "sm_option m = (case m of None \<Rightarrow> sm_return None | Some m \<Rightarrow> sm_bind m (\<lambda>x. sm_return (Some x)))"

definition resolve_value :: "sql_literal \<Rightarrow> ('j, 'q) expr rs" where
  "resolve_value v =
     (case v of
        LPlaceholder p \<Rightarrow> (\<lambda>n. omap (\<lambda>(i, n). (EParam i, n)) (param_index p n))
      | v \<Rightarrow> sm_bind (sm_lift (value_from_sql v)) (\<lambda>v. sm_return (ELiteral v)))"

definition resolve_ident :: "scope \<Rightarrow> string \<Rightarrow> ('j, 'q) expr qres" where
  "resolve_ident sc s =
     (if eq_ignore_ascii_case s ''rowid'' \<and> \<not> is_ok (scope_resolve sc None ''rowid'') then Ok ERowId
      else omap EColumn (scope_resolve sc None s))"

definition resolve_compound :: "scope \<Rightarrow> string list \<Rightarrow> ('j, 'q) expr qres" where
  "resolve_compound sc parts =
     (case parts of
        [t, c] \<Rightarrow> omap EColumn (scope_resolve sc (Some t) c)
      | _ \<Rightarrow> Err (UnsupportedError (''compound identifier with '' @ show_nat (int (length parts)) @ '' parts'')))"

text \<open>\<open>a BETWEEN x AND y\<close> is \<open>a >= x AND a <= y\<close>.\<close>

definition between :: "('j, 'q) expr \<Rightarrow> ('j, 'q) expr \<Rightarrow> ('j, 'q) expr \<Rightarrow> bool \<Rightarrow> ('j, 'q) expr" where
  "between a lo hi negated =
     (let e = EBinary OpAnd (EBinary OpGtEq a lo) (EBinary OpLtEq a hi) in
      if negated then EUnary OpNot e else e)"

text \<open>The arguments of a scalar function, given the resolutions of the argument expressions.\<close>

fun resolve_args :: "'a rs fn_arg list \<Rightarrow> 'a list rs" where
  "resolve_args [] = sm_return []"
| "resolve_args (a # as) =
     (case a of
        FaExpr m \<Rightarrow> sm_bind m (\<lambda>x. sm_bind (resolve_args as) (\<lambda>xs. sm_return (x # xs)))
      | FaNamed m \<Rightarrow> sm_bind m (\<lambda>x. sm_bind (resolve_args as) (\<lambda>xs. sm_return (x # xs)))
      | _ \<Rightarrow> sm_fail (UnsupportedError ''wildcard argument to scalar function''))"

definition trim_name :: "trim_where option \<Rightarrow> string" where
  "trim_name w =
     (case w of Some TrimLeading \<Rightarrow> ''LTRIM'' | Some TrimTrailing \<Rightarrow> ''RTRIM'' | _ \<Rightarrow> ''TRIM'')"

primrec resolve_expr :: "scope \<Rightarrow> 'q sql_expr \<Rightarrow> ('j, 'q) expr rs" where
  "resolve_expr sc (SIdentifier s) = sm_lift (resolve_ident sc s)"
| "resolve_expr sc (SCompoundIdentifier parts) = sm_lift (resolve_compound sc parts)"
| "resolve_expr sc (SValue v) = resolve_value v"
| "resolve_expr sc (SNested e) = resolve_expr sc e"
| "resolve_expr sc (SBinaryOp l op r) =
     sm_bind (resolve_expr sc l) (\<lambda>l. sm_bind (resolve_expr sc r) (\<lambda>r.
     sm_bind (sm_lift (map_binop op)) (\<lambda>op. sm_return (EBinary op l r))))"
| "resolve_expr sc (SUnaryOp op e) = sm_bind (resolve_expr sc e) (\<lambda>e. sm_lift (unary_of op e))"
| "resolve_expr sc (SIsNull e) = sm_bind (resolve_expr sc e) (\<lambda>e. sm_return (EIsNull e False))"
| "resolve_expr sc (SIsNotNull e) = sm_bind (resolve_expr sc e) (\<lambda>e. sm_return (EIsNull e True))"
| "resolve_expr sc (SLike negated e p) =
     sm_bind (resolve_expr sc e) (\<lambda>e. sm_bind (resolve_expr sc p) (\<lambda>p. sm_return (ELike e p negated)))"
| "resolve_expr sc (SInList e es negated) =
     sm_bind (resolve_expr sc e) (\<lambda>e. sm_bind (sm_sequence (map (resolve_expr sc) es)) (\<lambda>es.
     sm_return (EInList e es negated)))"
| "resolve_expr sc (SCeil e) = sm_bind (resolve_expr sc e) (\<lambda>e. sm_return (EFunction ''CEIL'' [e]))"
| "resolve_expr sc (SFloor e) = sm_bind (resolve_expr sc e) (\<lambda>e. sm_return (EFunction ''FLOOR'' [e]))"
| "resolve_expr sc (SSubquery q) = sm_return (EScalarSubquery q)"
| "resolve_expr sc (SExists q negated) = sm_return (EExists q negated)"
| "resolve_expr sc (SInSubquery e q negated) =
     sm_bind (resolve_expr sc e) (\<lambda>e. sm_return (EInSubquery e q negated))"
| "resolve_expr sc (SBetween e negated lo hi) =
     sm_bind (resolve_expr sc e) (\<lambda>a. sm_bind (resolve_expr sc lo) (\<lambda>lo. sm_bind (resolve_expr sc hi) (\<lambda>hi.
     sm_return (between a lo hi negated))))"
| "resolve_expr sc (SFunction parts args) =
     sm_bind (resolve_args (arg_list (map_fn_args (resolve_expr sc) args))) (\<lambda>es.
     sm_return (EFunction (to_ascii_uppercase (object_name_to_string parts)) es))"
| "resolve_expr sc (SCast e ty) = sm_bind (resolve_expr sc e) (\<lambda>e. sm_return (ECast e (affinity_from_decl ty)))"
| "resolve_expr sc (STrim e w what ch) =
     sm_bind (resolve_expr sc e) (\<lambda>e.
     sm_bind (case map_option (resolve_expr sc) what of
         Some m \<Rightarrow> sm_bind m (\<lambda>x. sm_return [x])
       | None \<Rightarrow>
           (case map_option (map (resolve_expr sc)) ch of
              Some (m # ms) \<Rightarrow> sm_bind m (\<lambda>x. sm_return [x])
            | _ \<Rightarrow> sm_return [])) (\<lambda>xs.
     sm_return (EFunction (trim_name w) (e # xs))))"
| "resolve_expr sc (SCase opr cs rs els) =
     sm_bind (sm_option (map_option (resolve_expr sc) opr)) (\<lambda>opr.
     sm_bind (sm_sequence (map (\<lambda>(c, r). sm_bind c (\<lambda>c. sm_bind r (\<lambda>r. sm_return (c, r))))
         (zip (map (resolve_expr sc) cs) (map (resolve_expr sc) rs)))) (\<lambda>whens.
     sm_bind (sm_option (map_option (resolve_expr sc) els)) (\<lambda>els.
     sm_return (ECase opr whens els))))"
| "resolve_expr sc (SSubstring e fr fo) =
     sm_bind (resolve_expr sc e) (\<lambda>e.
     sm_bind (sm_option (map_option (resolve_expr sc) fr)) (\<lambda>fr.
     sm_bind (sm_option (map_option (resolve_expr sc) fo)) (\<lambda>fo.
     sm_return (EFunction ''SUBSTR'' (e # (case fr of None \<Rightarrow> [] | Some x \<Rightarrow> [x])
       @ (case fo of None \<Rightarrow> [] | Some x \<Rightarrow> [x]))))))"
| "resolve_expr sc (SOther s) = sm_fail (UnsupportedError (''expression: '' @ s))"

end
