(* ===== verification/Planner.thy ===== *)
theory Planner
  imports Catalog Resolver
begin

text \<open>
  Logical planning, \<open>squrust-sql/src/planner/mod.rs\<close> and \<open>resolve_having\<close> of \<open>resolver.rs\<close>: parsed
  statements become plans, with names resolved against the catalog and the common table
  expressions in scope.
\<close>

type_synonym 'j qexpr = "('j, query) expr"
type_synonym 'j qplan = "('j, query) plan"

section \<open>Statement-level plans\<close>

record 'j insert_plan =
  ip_table :: string
  ip_target_cols :: "nat list"
  ip_rows :: "'j qexpr list list"
  ip_or_replace :: bool

record 'j update_plan =
  up_table :: string
  up_assignments :: "(nat \<times> 'j qexpr) list"
  up_predicate :: "'j qexpr option"

record 'j delete_plan =
  dp_table :: string
  dp_predicate :: "'j qexpr option"

datatype 'j statement_plan =
    PlQuery "'j qplan" "column_info list"
  | PlInsert "'j insert_plan"
  | PlUpdate "'j update_plan"
  | PlDelete "'j delete_plan"
  | PlCreateTable "'j table" bool
  | PlCreateIndex index bool
  | PlDropTable string bool
  | PlAlterTableAddColumn string "'j column" string

section \<open>Tables\<close>

definition decl_opt :: "string \<Rightarrow> string option" where
  "decl_opt decl = (if decl = [] then None else Some decl)"

definition table_scope :: "'j table \<Rightarrow> scope" where
  "table_scope t = map (\<lambda>c. \<lparr>sc_table = Some (tb_name t), sc_name = co_name c, sc_sql_type = co_sql_type c,
     sc_decl_type = decl_opt (co_decl_type c)\<rparr>) (tb_columns t)"

definition constant_default :: "'j column \<Rightarrow> 'j sql_value" where
  "constant_default c = (case co_default c of Some (DefValue v) \<Rightarrow> v | _ \<Rightarrow> VNull)"

definition scan_for :: "'j table \<Rightarrow> 'j qplan" where
  "scan_for t = PScan (tb_name t) (tb_root_page t)
     (map (\<lambda>c. \<lparr>ci_name = co_name c, ci_table = Some (tb_name t), ci_decl_type = decl_opt (co_decl_type c)\<rparr>) (tb_columns t))
     (tb_rowid_alias t) (map constant_default (tb_columns t))"

definition lookup_table :: "'j catalog \<Rightarrow> string \<Rightarrow> 'j table qres" where
  "lookup_table cat name = ok_or (get_table cat name) (NotFoundError (''table `'' @ name @ ''`''))"

definition aliased_scope :: "'j table \<Rightarrow> string option \<Rightarrow> scope" where
  "aliased_scope t al =
     (case al of None \<Rightarrow> table_scope t | Some a \<Rightarrow> map (\<lambda>c. c\<lparr>sc_table := Some a\<rparr>) (table_scope t))"

fun table_factor_name :: "table_factor \<Rightarrow> (string \<times> string option) qres" where
  "table_factor_name (TfTable name al) = Ok (object_name_to_string name, al)"
| "table_factor_name (TfOther shown) = Err (UnsupportedError (''FROM factor: '' @ shown))"

section \<open>FROM\<close>

text \<open>A common table expression: its plan and scope, by its name in lower case.\<close>

type_synonym 'j cte_map = "(string \<times> 'j qplan \<times> scope) list"

definition resolve_relation :: "'j catalog \<Rightarrow> 'j cte_map \<Rightarrow> table_factor \<Rightarrow> ('j qplan \<times> scope) qres" where
  "resolve_relation cat ctes tf =
     obind (table_factor_name tf) (\<lambda>(name, al).
     case map_of ctes (to_ascii_lowercase name) of
       Some (p, sc) \<Rightarrow>
         let qualifier = (case al of Some a \<Rightarrow> a | None \<Rightarrow> name) in
         Ok (p, map (\<lambda>c. c\<lparr>sc_table := Some qualifier\<rparr>) sc)
     | None \<Rightarrow> obind (lookup_table cat name) (\<lambda>t. Ok (scan_for t, aliased_scope t al)))"

definition col_info :: "scope_col \<Rightarrow> column_info" where
  "col_info c = \<lparr>ci_name = sc_name c, ci_table = sc_table c, ci_decl_type = sc_decl_type c\<rparr>"

definition join_step ::
    "'j qplan \<times> scope \<Rightarrow> 'j qplan \<times> scope \<Rightarrow> sexpr join_operator option \<Rightarrow> ('j qplan \<times> scope) rs" where
  "join_step l r op =
     (let sc = snd l @ snd r in
      sm_bind (case op of
          None \<Rightarrow> sm_return (None, False)
        | Some JoInnerNone \<Rightarrow> sm_return (None, False)
        | Some JoCross \<Rightarrow> sm_return (None, False)
        | Some (JoInnerOn e) \<Rightarrow> sm_bind (resolve_expr sc e) (\<lambda>p. sm_return (Some p, False))
        | Some (JoLeftOuterOn e) \<Rightarrow> sm_bind (resolve_expr sc e) (\<lambda>p. sm_return (Some p, True))
        | Some (JoOther shown) \<Rightarrow> sm_fail (UnsupportedError (''join type '' @ shown))) (\<lambda>(p, outer).
      sm_return (PJoin (fst l) (fst r) p outer (map col_info sc), sc)))"

fun join_rest ::
    "'j catalog \<Rightarrow> 'j cte_map \<Rightarrow> (table_factor \<times> sexpr join_operator) list \<Rightarrow> 'j qplan \<times> scope \<Rightarrow> ('j qplan \<times> scope) rs" where
  "join_rest cat ctes [] acc = sm_return acc"
| "join_rest cat ctes ((tf, op) # js) acc =
     sm_bind (sm_lift (resolve_relation cat ctes tf)) (\<lambda>r.
     sm_bind (join_step acc r (Some op)) (join_rest cat ctes js))"

fun join_items ::
    "'j catalog \<Rightarrow> 'j cte_map \<Rightarrow> sexpr from_item list \<Rightarrow> ('j qplan \<times> scope) option \<Rightarrow> ('j qplan \<times> scope) option rs" where
  "join_items cat ctes [] acc = sm_return acc"
| "join_items cat ctes (FromItem tf js # items) acc =
     sm_bind (sm_lift (resolve_relation cat ctes tf)) (\<lambda>r.
     sm_bind (case acc of None \<Rightarrow> sm_return r | Some l \<Rightarrow> join_step l r None) (\<lambda>acc.
     sm_bind (join_rest cat ctes js acc) (\<lambda>acc. join_items cat ctes items (Some acc))))"

text \<open>The bind parameters of \<open>ON\<close> are numbered from 0, apart from the rest of the query.\<close>

definition plan_from :: "'j catalog \<Rightarrow> 'j cte_map \<Rightarrow> sexpr select \<Rightarrow> ('j qplan \<times> scope) qres" where
  "plan_from cat ctes sel =
     (if se_from sel = [] then Ok (PDual, [])
      else obind (join_items cat ctes (se_from sel) None 0) (\<lambda>(acc, n).
           case acc of Some x \<Rightarrow> Ok x | None \<Rightarrow> Panic))"

section \<open>The SELECT list\<close>

definition decl_for_expr :: "'j qexpr \<Rightarrow> scope \<Rightarrow> string option" where
  "decl_for_expr e sc =
     (case e of EColumn i \<Rightarrow> if i < length sc then sc_decl_type (sc ! i) else None | _ \<Rightarrow> None)"

definition derive_name :: "sql_front \<Rightarrow> sexpr \<Rightarrow> string" where
  "derive_name fr e =
     (case e of
        SIdentifier s \<Rightarrow> s
      | SCompoundIdentifier parts \<Rightarrow> if parts = [] then [] else last parts
      | _ \<Rightarrow> sf_expr_text fr e)"

text \<open>The columns of the scope with their positions, as a wildcard lists them.\<close>

definition wildcard :: "(scope_col \<Rightarrow> bool) \<Rightarrow> scope \<Rightarrow> ('j qexpr \<times> column_info) list" where
  "wildcard keep sc = map (\<lambda>(i, c). (EColumn i, col_info c)) (filter (\<lambda>(i, c). keep c) (List.enumerate 0 sc))"

fun collect_projection ::
    "sql_front \<Rightarrow> scope \<Rightarrow> sexpr select_item list \<Rightarrow> ('j qexpr \<times> column_info) list rs" where
  "collect_projection fr sc [] = sm_return []"
| "collect_projection fr sc (item # items) =
     sm_bind (case item of
         SiWildcard \<Rightarrow> sm_return (wildcard (\<lambda>c. True) sc)
       | SiQualifiedWildcard parts \<Rightarrow>
           let t = object_name_to_string parts in
           sm_return (wildcard (\<lambda>c. map_option (\<lambda>x. eq_ignore_ascii_case x t) (sc_table c) = Some True) sc)
       | SiUnnamed e \<Rightarrow>
           sm_bind (resolve_expr sc e) (\<lambda>x.
           sm_return [(x, \<lparr>ci_name = derive_name fr e, ci_table = None, ci_decl_type = decl_for_expr x sc\<rparr>)])
       | SiAliased e al \<Rightarrow>
           sm_bind (resolve_expr sc e) (\<lambda>x.
           sm_return [(x, \<lparr>ci_name = al, ci_table = None, ci_decl_type = decl_for_expr x sc\<rparr>)])) (\<lambda>cols.
     sm_bind (collect_projection fr sc items) (\<lambda>rest. sm_return (cols @ rest)))"

section \<open>Aggregates\<close>

definition agg_func_of :: "string \<Rightarrow> agg_func" where
  "agg_func_of name =
     (if name = ''COUNT'' then AgCount
      else if name = ''SUM'' \<or> name = ''TOTAL'' then AgSum
      else if name = ''AVG'' then AgAvg
      else if name = ''MIN'' then AgMin
      else if name = ''MAX'' then AgMax
      else AgGroupConcat)"

definition resolve_arg_at :: "scope \<Rightarrow> sexpr fn_arg list \<Rightarrow> nat \<Rightarrow> string \<Rightarrow> 'j qexpr option rs" where
  "resolve_arg_at sc args i msg =
     (if i < length args then
        (case args ! i of
           FaExpr e \<Rightarrow> sm_bind (resolve_expr sc e) (\<lambda>x. sm_return (Some x))
         | _ \<Rightarrow> sm_fail (UnsupportedError msg))
      else sm_return None)"

definition try_aggregate :: "scope \<Rightarrow> sexpr \<Rightarrow> ('j, query) agg_expr option rs" where
  "try_aggregate sc e =
     (case e of
        SFunction parts fargs \<Rightarrow>
          let name = to_ascii_uppercase (object_name_to_string parts); args = arg_list fargs; dist = arg_distinct fargs in
          if \<not> is_aggregate_name name then sm_return None
          else if name \<in> {''MIN'', ''MAX''} \<and> 1 < length args then sm_return None
          else if name = ''COUNT'' \<and> args = [FaWildcard] then sm_return (Some (AggExpr AgCountStar None dist None))
          else
            sm_bind (resolve_arg_at sc args 0 (''argument to aggregate '' @ name)) (\<lambda>arg.
            sm_bind (if name = ''GROUP_CONCAT'' then resolve_arg_at sc args 1 ''separator to group_concat''
                     else sm_return None) (\<lambda>sep.
            sm_return (Some (AggExpr (agg_func_of name) arg dist sep))))
      | _ \<Rightarrow> sm_return None)"

text \<open>
  \<open>HAVING\<close> reads the row of a group: the columns of a representative row, then the
  aggregates. An aggregate it calls is appended to those of the plan.
\<close>

type_synonym 'j aggs = "('j, query) agg_expr list"

definition having_leaf ::
    "scope \<Rightarrow> (string \<times> 'j qexpr) list \<Rightarrow> sexpr \<Rightarrow> 'j qexpr rs" where
  "having_leaf sc aliases e =
     (case e of
        SIdentifier s \<Rightarrow>
          (if is_ok (scope_resolve sc None s) then resolve_expr sc e
           else case map_of aliases (to_ascii_lowercase s) of
                  Some x \<Rightarrow> sm_return x | None \<Rightarrow> resolve_expr sc e)
      | _ \<Rightarrow> resolve_expr sc e)"

text \<open>The state is the next parameter and the aggregates.\<close>

definition on_ctx :: "'a rs \<Rightarrow> ('a, nat \<times> 'b) sm" where
  "on_ctx m = (\<lambda>(n, b). omap (\<lambda>(x, n). (x, (n, b))) (m n))"

definition or_aggregate ::
    "scope \<Rightarrow> nat \<Rightarrow> sexpr \<Rightarrow> ('j qexpr, nat \<times> 'j aggs) sm \<Rightarrow> ('j qexpr, nat \<times> 'j aggs) sm" where
  "or_aggregate sc base_len e other =
     sm_bind (on_ctx (try_aggregate sc e)) (\<lambda>agg.
     case agg of
       Some a \<Rightarrow> (\<lambda>(n, aggs). Ok (EColumn (base_len + length aggs), (n, aggs @ [a])))
     | None \<Rightarrow> other)"

fun resolve_having ::
    "scope \<Rightarrow> nat \<Rightarrow> (string \<times> 'j qexpr) list \<Rightarrow> sexpr \<Rightarrow> ('j qexpr, nat \<times> 'j aggs) sm" where
  "resolve_having sc base_len aliases (SNested e) = resolve_having sc base_len aliases e"
| "resolve_having sc base_len aliases (SBinaryOp l op r) =
     sm_bind (sm_lift (map_binop op)) (\<lambda>op.
     sm_bind (resolve_having sc base_len aliases l) (\<lambda>l.
     sm_bind (resolve_having sc base_len aliases r) (\<lambda>r. sm_return (EBinary op l r))))"
| "resolve_having sc base_len aliases (SUnaryOp op e) =
     sm_bind (resolve_having sc base_len aliases e) (\<lambda>e. sm_lift (unary_of op e))"
| "resolve_having sc base_len aliases e = or_aggregate sc base_len e (on_ctx (having_leaf sc aliases e))"

text \<open>One item of the SELECT list: an aggregate or an expression, with its name.\<close>

definition agg_item ::
    "sql_front \<Rightarrow> scope \<Rightarrow> nat \<Rightarrow> sexpr select_item \<Rightarrow> 'j aggs
     \<Rightarrow> ('j aggs \<times> ('j, query) output_col \<times> column_info \<times> string \<times> 'j qexpr) rs" where
  "agg_item fr sc base_len item aggs =
     sm_bind (case item of
         SiUnnamed e \<Rightarrow> sm_return (e, derive_name fr e)
       | SiAliased e al \<Rightarrow> sm_return (e, al)
       | other \<Rightarrow> sm_fail (UnsupportedError (''wildcard with aggregation: '' @ sf_item_text fr other))) (\<lambda>(e, name).
     let col = \<lparr>ci_name = name, ci_table = None, ci_decl_type = None\<rparr>; key = to_ascii_lowercase name in
     sm_bind (try_aggregate sc e) (\<lambda>agg.
     case agg of
       Some a \<Rightarrow> sm_return (aggs @ [a], OutAgg (length aggs), col, key, EColumn (base_len + length aggs))
     | None \<Rightarrow> sm_bind (resolve_expr sc e) (\<lambda>x. sm_return (aggs, OutExpr x, col, key, x))))"

fun agg_items ::
    "sql_front \<Rightarrow> scope \<Rightarrow> nat \<Rightarrow> sexpr select_item list \<Rightarrow> 'j aggs \<Rightarrow> (string \<times> 'j qexpr) list
     \<Rightarrow> ('j aggs \<times> ('j, query) output_col list \<times> column_info list \<times> (string \<times> 'j qexpr) list) rs" where
  "agg_items fr sc base_len [] aggs aliases = sm_return (aggs, [], [], aliases)"
| "agg_items fr sc base_len (item # items) aggs aliases =
     sm_bind (agg_item fr sc base_len item aggs) (\<lambda>(aggs, out, col, key, x).
     sm_bind (agg_items fr sc base_len items aggs (AList.update key x aliases)) (\<lambda>(aggs, outs, cols, aliases).
     sm_return (aggs, out # outs, col # cols, aliases)))"

definition plan_aggregate ::
    "sql_front \<Rightarrow> 'j qplan \<Rightarrow> sexpr select \<Rightarrow> sexpr list \<Rightarrow> scope \<Rightarrow> 'j qplan rs" where
  "plan_aggregate fr input sel group_exprs sc =
     (let base_len = length sc in
      sm_bind (sm_sequence (map (resolve_expr sc) group_exprs)) (\<lambda>group_by.
      sm_bind (agg_items fr sc base_len (se_projection sel) [] []) (\<lambda>(aggs, output, columns, aliases).
      sm_bind (case se_having sel of
          None \<Rightarrow> sm_return (None, aggs)
        | Some h \<Rightarrow>
            (\<lambda>n. omap (\<lambda>(x, (n, aggs)). ((Some x, aggs), n)) (resolve_having sc base_len aliases h (n, aggs))))
        (\<lambda>(having, aggs).
      sm_return (PAggregate input group_by aggs output columns base_len having)))))"

section \<open>ORDER BY and LIMIT\<close>

definition parse_uint :: "nat \<Rightarrow> string \<Rightarrow> nat option" where
  "parse_uint bits s =
     (let ds = (if s \<noteq> [] \<and> hd s = CHR ''+'' then tl s else s) in
      if ds \<noteq> [] \<and> list_all is_digit ds \<and> nat (digits_val ds) < 2 ^ bits then Some (nat (digits_val ds)) else None)"

definition order_by_alias ::
    "scope \<Rightarrow> ('j qexpr \<times> column_info) list option \<Rightarrow> sexpr \<Rightarrow> 'j qexpr rs" where
  "order_by_alias sc projected e =
     (case (e, projected) of
        (SIdentifier s, Some proj) \<Rightarrow>
          (if is_ok (scope_resolve sc None s) then resolve_expr sc e
           else case find (\<lambda>(x, c). eq_ignore_ascii_case (ci_name c) s) proj of
                  Some (x, c) \<Rightarrow> sm_return x | None \<Rightarrow> resolve_expr sc e)
      | _ \<Rightarrow> resolve_expr sc e)"

definition order_key_expr ::
    "scope \<Rightarrow> ('j qexpr \<times> column_info) list option \<Rightarrow> sexpr \<Rightarrow> 'j qexpr rs" where
  "order_key_expr sc projected e =
     (case (case e of SValue (LNumber s) \<Rightarrow> parse_uint 64 s | _ \<Rightarrow> None) of
        Some idx \<Rightarrow>
          if 1 \<le> idx then
            (case projected of
               Some proj \<Rightarrow>
                 if idx - 1 < length proj then sm_return (fst (proj ! (idx - 1)))
                 else sm_fail (NotFoundError (''ORDER BY position '' @ show_nat (int idx)))
             | None \<Rightarrow> sm_return (EColumn (idx - 1)))
          else order_by_alias sc projected e
      | None \<Rightarrow> order_by_alias sc projected e)"

definition sort_keys ::
    "scope \<Rightarrow> ('j qexpr \<times> column_info) list option \<Rightarrow> sexpr order_item list \<Rightarrow> ('j, query) sort_key list rs" where
  "sort_keys sc projected items =
     sm_sequence (map (\<lambda>ob. sm_bind (order_key_expr sc projected (oi_expr ob)) (\<lambda>x.
       sm_return (SortKey x (case oi_asc ob of Some b \<Rightarrow> b | None \<Rightarrow> True)))) items)"

definition const_u64 :: "sql_front \<Rightarrow> sexpr \<Rightarrow> nat qres" where
  "const_u64 fr e =
     (case e of
        SValue (LNumber s) \<Rightarrow> ok_or (parse_uint 64 s) (TypeError (''bad LIMIT/OFFSET value '' @ s))
      | _ \<Rightarrow> Err (UnsupportedError (''non-constant LIMIT/OFFSET: '' @ sf_expr_text fr e)))"

definition apply_limit :: "sql_front \<Rightarrow> sexpr option \<Rightarrow> sexpr option \<Rightarrow> 'j qplan \<Rightarrow> 'j qplan qres" where
  "apply_limit fr lm off p =
     obind (case lm of None \<Rightarrow> Ok None | Some e \<Rightarrow> omap Some (const_u64 fr e)) (\<lambda>lm.
     obind (case off of None \<Rightarrow> Ok 0 | Some e \<Rightarrow> const_u64 fr e) (\<lambda>off.
     Ok (if lm \<noteq> None \<or> 0 < off then PLimit p lm off else p)))"

text \<open>The columns of a plan as a scope.\<close>

definition output_scope :: "column_info list \<Rightarrow> scope" where
  "output_scope cols = map (\<lambda>c. \<lparr>sc_table = ci_table c, sc_name = ci_name c, sc_sql_type = TyNull,
     sc_decl_type = ci_decl_type c\<rparr>) cols"

definition apply_order_limit ::
    "sql_front \<Rightarrow> sexpr order_item list option \<Rightarrow> sexpr option \<Rightarrow> sexpr option \<Rightarrow> 'j qplan \<Rightarrow> 'j qplan rs" where
  "apply_order_limit fr order lm off p =
     sm_bind (case order of
         None \<Rightarrow> sm_return p
       | Some items \<Rightarrow> sm_bind (sort_keys (output_scope (plan_columns p)) None items) (\<lambda>keys. sm_return (PSort p keys)))
       (\<lambda>p. sm_lift (apply_limit fr lm off p))"

section \<open>Queries\<close>

definition group_exprs :: "'e select \<Rightarrow> 'e list" where
  "group_exprs sel = (case se_group_by sel of Some es \<Rightarrow> es | None \<Rightarrow> [])"

definition has_agg :: "sexpr select \<Rightarrow> bool" where
  "has_agg sel \<longleftrightarrow> group_exprs sel \<noteq> []
     \<or> list_ex (\<lambda>item. case item of SiUnnamed e \<Rightarrow> contains_aggregate e | SiAliased e al \<Rightarrow> contains_aggregate e | _ \<Rightarrow> False)
         (se_projection sel)"

definition wants_distinct :: "'e select \<Rightarrow> bool qres" where
  "wants_distinct sel =
     (case se_distinct sel of
        None \<Rightarrow> Ok False | Some DistinctPlain \<Rightarrow> Ok True | Some (DistinctOther shown) \<Rightarrow> Err (UnsupportedError shown))"

definition apply_where :: "sexpr select \<Rightarrow> scope \<Rightarrow> 'j qplan \<Rightarrow> 'j qplan rs" where
  "apply_where sel sc p =
     (case se_selection sel of
        None \<Rightarrow> sm_return p
      | Some e \<Rightarrow> sm_bind (resolve_expr sc e) (\<lambda>x. sm_return (PFilter p x)))"

text \<open>A \<open>SELECT\<close> that is the whole query.\<close>

definition plan_select ::
    "sql_front \<Rightarrow> 'j catalog \<Rightarrow> 'j cte_map \<Rightarrow> sexpr select \<Rightarrow> sexpr order_item list option \<Rightarrow> sexpr option \<Rightarrow> sexpr option
     \<Rightarrow> 'j qplan rs" where
  "plan_select fr cat ctes sel order lm off =
     sm_bind (sm_lift (plan_from cat ctes sel)) (\<lambda>(p, sc).
     sm_bind (apply_where sel sc p) (\<lambda>p.
     sm_bind (sm_lift (wants_distinct sel)) (\<lambda>dist.
     if has_agg sel then
       sm_bind (plan_aggregate fr p sel (group_exprs sel) sc) (\<lambda>p.
       apply_order_limit fr order lm off (if dist then PDistinct p else p))
     else
       sm_bind (collect_projection fr sc (se_projection sel)) (\<lambda>proj.
       sm_bind (case order of
           None \<Rightarrow> sm_return p
         | Some items \<Rightarrow> sm_bind (sort_keys sc (Some proj) items) (\<lambda>keys. sm_return (PSort p keys))) (\<lambda>p.
       let p = PProject p (map fst proj) (map snd proj) in
       sm_lift (apply_limit fr lm off (if dist then PDistinct p else p)))))))"

text \<open>A \<open>SELECT\<close> that is an operand of a set operation.\<close>

definition plan_select_core ::
    "sql_front \<Rightarrow> 'j catalog \<Rightarrow> 'j cte_map \<Rightarrow> sexpr select \<Rightarrow> 'j qplan rs" where
  "plan_select_core fr cat ctes sel =
     sm_bind (sm_lift (plan_from cat ctes sel)) (\<lambda>(p, sc).
     sm_bind (apply_where sel sc p) (\<lambda>p.
     sm_bind (if has_agg sel then plan_aggregate fr p sel (group_exprs sel) sc
              else sm_bind (collect_projection fr sc (se_projection sel)) (\<lambda>proj.
                   sm_return (PProject p (map fst proj) (map snd proj)))) (\<lambda>p.
     sm_bind (sm_lift (wants_distinct sel)) (\<lambda>dist. sm_return (if dist then PDistinct p else p)))))"

definition set_kind :: "set_operator \<Rightarrow> set_op_kind" where
  "set_kind op = (case op of SoUnion \<Rightarrow> SetUnion | SoIntersect \<Rightarrow> SetIntersect | SoExcept \<Rightarrow> SetExcept)"

definition combine_set :: "set_operator \<Rightarrow> set_quantifier \<Rightarrow> 'j qplan \<Rightarrow> 'j qplan \<Rightarrow> 'j qplan qres" where
  "combine_set op q l r =
     (if length (plan_columns l) \<noteq> length (plan_columns r) then
        Err (SchemaError ''SELECTs to the left and right of a set operator do not have the same number of result columns'')
      else Ok (PSetOp (set_kind op) (q \<noteq> SqOther) l r (plan_columns l)))"

text \<open>The name, plan and scope of a common table expression, given its plan.\<close>

definition cte_entry :: "string \<Rightarrow> string list \<Rightarrow> 'j qplan \<Rightarrow> (string \<times> 'j qplan \<times> scope) qres" where
  "cte_entry name aliases p =
     (let cols = plan_columns p in
      if aliases \<noteq> [] \<and> length aliases \<noteq> length cols then
        Err (SchemaError (''CTE `'' @ name @ ''` declares '' @ show_nat (int (length aliases))
          @ '' columns but the query returns '' @ show_nat (int (length cols))))
      else
        let cols = (if aliases = [] then cols else map (\<lambda>(c, a). c\<lparr>ci_name := a\<rparr>) (zip cols aliases)) in
        Ok (to_ascii_lowercase name, p, map (\<lambda>c. \<lparr>sc_table = Some name, sc_name = ci_name c, sc_sql_type = TyNull,
             sc_decl_type = ci_decl_type c\<rparr>) cols))"

fun with_ctes :: "('j cte_map \<Rightarrow> (string \<times> 'j qplan \<times> scope) rs) list \<Rightarrow> 'j cte_map \<Rightarrow> 'j cte_map rs" where
  "with_ctes [] m = sm_return m"
| "with_ctes (f # fs) m = sm_bind (f m) (\<lambda>(k, v). with_ctes fs (AList.update k v m))"

primrec plan_query_with :: "sql_front \<Rightarrow> 'j catalog \<Rightarrow> query \<Rightarrow> 'j cte_map \<Rightarrow> 'j qplan rs"
  and plan_cte :: "sql_front \<Rightarrow> 'j catalog \<Rightarrow> cte \<Rightarrow> 'j cte_map \<Rightarrow> (string \<times> 'j qplan \<times> scope) rs"
  and plan_set_expr :: "sql_front \<Rightarrow> 'j catalog \<Rightarrow> set_expr \<Rightarrow> 'j cte_map \<Rightarrow> 'j qplan rs" where
  "plan_query_with fr cat (Query w body order lm off) inherited =
     sm_bind (case map_option (map_prod id (map (plan_cte fr cat))) w of
         None \<Rightarrow> sm_return inherited
       | Some (recursive, fs) \<Rightarrow>
           if recursive then sm_fail (UnsupportedError ''recursive CTEs (WITH RECURSIVE) are not supported'')
           else with_ctes fs inherited) (\<lambda>ctes.
     case body of
       SeSelect sel \<Rightarrow> plan_select fr cat ctes sel order lm off
     | SeSetOperation op q l r \<Rightarrow> sm_bind (plan_set_expr fr cat body ctes) (apply_order_limit fr order lm off)
     | _ \<Rightarrow> sm_fail (UnsupportedError (''query body: '' @ sf_body_text fr body)))"
| "plan_cte fr cat (Cte name aliases q) ctes =
     sm_bind (plan_query_with fr cat q ctes) (\<lambda>p. sm_lift (cte_entry name aliases p))"
| "plan_set_expr fr cat (SeSelect sel) ctes = plan_select_core fr cat ctes sel"
| "plan_set_expr fr cat (SeQuery q) ctes = plan_query_with fr cat q ctes"
| "plan_set_expr fr cat (SeSetOperation op q l r) ctes =
     sm_bind (plan_set_expr fr cat l ctes) (\<lambda>l.
     sm_bind (plan_set_expr fr cat r ctes) (\<lambda>r. sm_lift (combine_set op q l r)))"
| "plan_set_expr fr cat (SeValues rows) ctes =
     sm_fail (UnsupportedError (''set expression: '' @ sf_body_text fr (SeValues rows)))"
| "plan_set_expr fr cat SeOther ctes = sm_fail (UnsupportedError (''set expression: '' @ sf_body_text fr SeOther))"

definition plan_query :: "sql_front \<Rightarrow> 'j catalog \<Rightarrow> query \<Rightarrow> 'j qplan rs" where
  "plan_query fr cat q = plan_query_with fr cat q []"

definition plan_subquery :: "sql_front \<Rightarrow> 'j catalog \<Rightarrow> query \<Rightarrow> 'j qplan qres" where
  "plan_subquery fr cat q =
     obind (plan_query fr cat q 0) (\<lambda>(p, next_param).
     obind (optimize p) (\<lambda>p.
     if 0 < next_param then Err (UnsupportedError ''bind parameters inside subqueries are not supported'')
     else Ok p))"

section \<open>Statements\<close>

definition insert_targets :: "'j table \<Rightarrow> string list \<Rightarrow> nat list qres" where
  "insert_targets t cols =
     (if cols = [] then Ok [0..<length (tb_columns t)]
      else foldr (\<lambda>c acc. obind (ok_or (column_index t c) (NotFoundError (''column `'' @ c @ ''`''))) (\<lambda>i.
             obind acc (\<lambda>is. Ok (i # is)))) cols (Ok []))"

text \<open>The expressions of \<open>VALUES\<close> see no columns.\<close>

definition plan_insert :: "sql_front \<Rightarrow> 'j catalog \<Rightarrow> insert_stmt \<Rightarrow> 'j statement_plan rs" where
  "plan_insert fr cat st =
     sm_bind (sm_lift (lookup_table cat (object_name_to_string (in_table st)))) (\<lambda>t.
     sm_bind (sm_lift (insert_targets t (in_columns st))) (\<lambda>cols.
     sm_bind (sm_lift (ok_or (in_source st) (UnsupportedError ''INSERT without VALUES''))) (\<lambda>q.
     case q_body q of
       SeValues rows \<Rightarrow>
         sm_bind (sm_sequence (map (\<lambda>row. sm_sequence (map (resolve_expr []) row)) rows)) (\<lambda>rows.
         sm_return (PlInsert \<lparr>ip_table = tb_name t, ip_target_cols = cols, ip_rows = rows,
           ip_or_replace = (in_or_replace st \<or> in_replace_into st)\<rparr>))
     | body \<Rightarrow> sm_fail (UnsupportedError (''INSERT source: '' @ sf_body_text fr body)))))"

fun plan_assignments ::
    "'j table \<Rightarrow> scope \<Rightarrow> (assignment_target \<times> sexpr) list \<Rightarrow> (nat \<times> 'j qexpr) list rs" where
  "plan_assignments t sc [] = sm_return []"
| "plan_assignments t sc ((target, e) # as) =
     sm_bind (case target of
         AtColumn parts \<Rightarrow> sm_return (object_name_to_string parts)
       | AtOther shown \<Rightarrow> sm_fail (UnsupportedError (''assignment target '' @ shown))) (\<lambda>name.
     sm_bind (sm_lift (ok_or (column_index t name) (NotFoundError (''column `'' @ name @ ''`'')))) (\<lambda>idx.
     sm_bind (resolve_expr sc e) (\<lambda>x.
     sm_bind (plan_assignments t sc as) (\<lambda>rest. sm_return ((idx, x) # rest)))))"

definition plan_update ::
    "'j catalog \<Rightarrow> table_factor \<Rightarrow> (assignment_target \<times> sexpr) list \<Rightarrow> sexpr option \<Rightarrow> 'j statement_plan rs" where
  "plan_update cat tf assignments sel =
     sm_bind (sm_lift (table_factor_name tf)) (\<lambda>(name, al).
     sm_bind (sm_lift (lookup_table cat name)) (\<lambda>t.
     sm_bind (plan_assignments t (table_scope t) assignments) (\<lambda>as.
     sm_bind (sm_option (map_option (resolve_expr (table_scope t)) sel)) (\<lambda>p.
     sm_return (PlUpdate \<lparr>up_table = tb_name t, up_assignments = as, up_predicate = p\<rparr>)))))"

definition plan_delete :: "'j catalog \<Rightarrow> sexpr from_item list \<Rightarrow> sexpr option \<Rightarrow> 'j statement_plan rs" where
  "plan_delete cat items sel =
     (case items of
        [] \<Rightarrow> sm_fail (ParseError ''DELETE without table'')
      | FromItem tf js # _ \<Rightarrow>
          sm_bind (sm_lift (table_factor_name tf)) (\<lambda>(name, al).
          sm_bind (sm_lift (lookup_table cat name)) (\<lambda>t.
          sm_bind (sm_option (map_option (resolve_expr (table_scope t)) sel)) (\<lambda>p.
          sm_return (PlDelete \<lparr>dp_table = tb_name t, dp_predicate = p\<rparr>)))))"

text \<open>\<open>rfind(')')\<close>.\<close>

definition rfind :: "char \<Rightarrow> string \<Rightarrow> nat option" where
  "rfind c s = (if c \<in> set s then Some (length s - 1 - length (takeWhile (\<lambda>x. x \<noteq> c) (rev s))) else None)"

definition added_sql :: "string \<Rightarrow> string \<Rightarrow> string qres" where
  "added_sql old_sql def_text =
     (case rfind (CHR '')'') old_sql of
        None \<Rightarrow> Err (SchemaError ''malformed CREATE TABLE text'')
      | Some pos \<Rightarrow> Ok (trim_end_matches is_space (take pos old_sql) @ '', '' @ def_text @ drop pos old_sql))"

text \<open>SQLite's restrictions on the column of \<open>ALTER TABLE ADD COLUMN\<close>.\<close>

definition check_added :: "'j column \<Rightarrow> unit qres" where
  "check_added c =
     (if co_primary_key c then Err (UnsupportedError ''cannot add a PRIMARY KEY column'')
      else if co_unique c then Err (UnsupportedError ''cannot add a UNIQUE column'')
      else case co_default c of
             None \<Rightarrow>
               if co_not_null c then Err (ConstraintError ''cannot add a NOT NULL column with no default value'') else Ok ()
           | Some (DefValue v) \<Rightarrow> Ok ()
           | Some _ \<Rightarrow> Err (UnsupportedError ''cannot add a column with a non-constant default''))"

definition plan_alter_table ::
    "sql_front \<Rightarrow> 'j catalog \<Rightarrow> string list \<Rightarrow> alter_operation list \<Rightarrow> 'j statement_plan qres" where
  "plan_alter_table fr cat name ops =
     (let table_name = object_name_to_string name in
      obind (lookup_table cat table_name) (\<lambda>t.
      case ops of
        [AoAddColumn d if_not_exists] \<Rightarrow>
          obind (column_from_ast (sf_expr_text fr) d) (\<lambda>c.
          if table_column t (co_name c) \<noteq> None then
            (if if_not_exists then Ok (PlAlterTableAddColumn table_name c (tb_sql t))
             else Err (ConstraintError (''duplicate column name: '' @ co_name c)))
          else
            obind (check_added c) (\<lambda>u.
            obind (added_sql (tb_sql t) (cd_text d)) (\<lambda>sql. Ok (PlAlterTableAddColumn table_name c sql))))
      | [AoOther shown] \<Rightarrow> Err (UnsupportedError (''ALTER TABLE '' @ shown))
      | _ \<Rightarrow> Err (UnsupportedError ''only a single ALTER TABLE operation is supported'')))"

definition plan_statement :: "sql_front \<Rightarrow> 'j catalog \<Rightarrow> statement \<Rightarrow> 'j statement_plan qres" where
  "plan_statement fr cat st =
     (case st of
        StQuery q \<Rightarrow>
          obind (plan_query fr cat q 0) (\<lambda>(p, n). obind (optimize p) (\<lambda>p. Ok (PlQuery p (plan_columns p))))
      | StInsert ins \<Rightarrow> omap fst (plan_insert fr cat ins 0)
      | StUpdate tf as sel \<Rightarrow> omap fst (plan_update cat tf as sel 0)
      | StDelete items sel \<Rightarrow> omap fst (plan_delete cat items sel 0)
      | StCreateTable ct shown \<Rightarrow>
          obind (table_from_ast (sf_expr_text fr) ct shown) (\<lambda>t. Ok (PlCreateTable t (ct_if_not_exists ct)))
      | StCreateIndex ci shown \<Rightarrow>
          obind (index_from_ast (sf_expr_text fr) ci shown) (\<lambda>ix. Ok (PlCreateIndex ix (ci_if_not_exists ci)))
      | StDrop kind if_exists names \<Rightarrow>
          (case kind of
             Some shown \<Rightarrow> Err (UnsupportedError (''DROP '' @ shown))
           | None \<Rightarrow>
               (case names of
                  [] \<Rightarrow> Err (ParseError ''DROP with no name'')
                | n # _ \<Rightarrow> Ok (PlDropTable (object_name_to_string n) if_exists)))
      | StAlterTable name ops \<Rightarrow> plan_alter_table fr cat name ops
      | StOther shown \<Rightarrow> Err (UnsupportedError (''statement: '' @ shown)))"

end
