(* ===== verification/Dml.thy ===== *)
theory Dml
  imports Planner
begin

text \<open>
  Data modification, \<open>squrust-sql/src/executor/dml.rs\<close>: \<open>INSERT\<close>, \<open>UPDATE\<close> and \<open>DELETE\<close> on a page
  store. The state is that of the page store and the world; an error carries no state, for
  its transaction is dropped, or its caller sees only the error.
\<close>

definition sm_pages :: "('s \<Rightarrow> ('a \<times> 's) qres) \<Rightarrow> ('a, 's \<times> world) sm" where
  "sm_pages m = (\<lambda>(s, w). omap (\<lambda>(x, s). (x, (s, w))) (m s))"

definition put_at :: "'a list \<Rightarrow> nat \<Rightarrow> 'a \<Rightarrow> 'a list qres" where
  "put_at xs i x = (if i < length xs then Ok (xs[i := x]) else Panic)"

section \<open>Defaults\<close>

text \<open>
  The civil date and the time of Unix seconds: year, month, day, hours, minutes, seconds.
\<close>

definition civil_fields :: "int \<Rightarrow> int \<times> int \<times> int \<times> int \<times> int \<times> int" where
  "civil_fields secs =
     (let days = secs div 86400; tod = secs mod 86400;
          z = days + 719468;
          era = rust_div (if 0 \<le> z then z else z - 146096) 146097;
          doe = z - era * 146097;
          yoe = rust_div (doe - rust_div doe 1460 + rust_div doe 36524 - rust_div doe 146096) 365;
          y = yoe + era * 400;
          doy = doe - (365 * yoe + rust_div yoe 4 - rust_div yoe 100);
          mp = rust_div (5 * doy + 2) 153;
          d = doy - rust_div (153 * mp + 2) 5 + 1;
          m = (if mp < 10 then mp + 3 else mp - 9)
      in (y + (if m \<le> 2 then 1 else 0), m, d, rust_div tod 3600, rust_div (rust_rem tod 3600) 60, rust_rem tod 60))"

definition format_civil :: "string \<Rightarrow> int \<Rightarrow> string" where
  "format_civil f secs =
     (case civil_fields secs of (year, m, d, hh, mm, ss) \<Rightarrow>
        str_replace (str_replace (str_replace (str_replace (str_replace (str_replace f
          ''%Y'' (fmt_zeros 4 year)) ''%m'' (fmt_zeros 2 m)) ''%d'' (fmt_zeros 2 d))
          ''%H'' (fmt_zeros 2 hh)) ''%M'' (fmt_zeros 2 mm)) ''%S'' (fmt_zeros 2 ss))"

text \<open>The seconds are a \<open>u64\<close> cast to \<open>i64\<close>; before the epoch the code takes 0.\<close>

definition now_utc :: "string \<Rightarrow> string ev" where
  "now_utc f =
     ev_bind read_clock (\<lambda>now.
     let secs = (case now of Some n \<Rightarrow> sint (word_of_int (int (n div 1000000000)) :: 64 word) | None \<Rightarrow> 0) in
     ev_return (format_civil f secs))"

definition eval_default :: "'j column \<Rightarrow> 'j sql_value ev" where
  "eval_default c =
     (case co_default c of
        None \<Rightarrow> ev_return VNull
      | Some (DefValue v) \<Rightarrow> ev_return v
      | Some DefCurrentTimestamp \<Rightarrow> ev_bind (now_utc ''%Y-%m-%d %H:%M:%S'') (\<lambda>t. ev_return (VText t))
      | Some DefCurrentDate \<Rightarrow> ev_bind (now_utc ''%Y-%m-%d'') (\<lambda>t. ev_return (VText t))
      | Some DefCurrentTime \<Rightarrow> ev_bind (now_utc ''%H:%M:%S'') (\<lambda>t. ev_return (VText t)))"

section \<open>Constraints\<close>

definition constraint_failed :: "string \<Rightarrow> string \<Rightarrow> string \<Rightarrow> sql_error" where
  "constraint_failed kind tname cname =
     ConstraintError (kind @ '' constraint failed: '' @ tname @ ''.'' @ cname)"

fun check_not_null :: "string \<Rightarrow> 'j column list \<Rightarrow> nat \<Rightarrow> 'j sql_value list \<Rightarrow> unit qres" where
  "check_not_null tname [] i vs = Ok ()"
| "check_not_null tname (c # cs) i vs =
     obind (if co_not_null c then omap is_null (index_at vs i) else Ok False) (\<lambda>bad.
     if bad then Err (constraint_failed ''NOT NULL'' tname (co_name c))
     else check_not_null tname cs (i + 1) vs)"

text \<open>The positions of the \<open>UNIQUE\<close> columns other than the row id whose value is not NULL.\<close>

fun unique_cols :: "nat option \<Rightarrow> 'j column list \<Rightarrow> nat \<Rightarrow> 'j sql_value list \<Rightarrow> nat list qres" where
  "unique_cols al [] i vs = Ok []"
| "unique_cols al (c # cs) i vs =
     obind (if co_unique c \<and> al \<noteq> Some i then omap (\<lambda>v. \<not> is_null v) (index_at vs i) else Ok False) (\<lambda>keep.
     obind (unique_cols al cs (i + 1) vs) (\<lambda>is. Ok (if keep then i # is else is)))"

definition conflict_at :: "nat list \<Rightarrow> 'j sql_value list \<Rightarrow> 'j sql_value list \<Rightarrow> nat option" where
  "conflict_at cols vs row =
     find (\<lambda>ci. ci < length row \<and> value_eq (row ! ci) (vs ! ci)) cols"

fun conflict_loop ::
    "('s, 'm) page_source_scheme \<Rightarrow> nat \<Rightarrow> nat list \<Rightarrow> 'j sql_value list \<Rightarrow> i64 option \<Rightarrow> nat \<Rightarrow> cursor \<Rightarrow> 's
     \<Rightarrow> ((nat \<times> i64) option \<times> 's) qres" where
  "conflict_loop S fuel cols vs exclude 0 c s = Diverge"
| "conflict_loop S fuel cols vs exclude (Suc n) c s =
     obind (from_storage (cursor_next S fuel fuel s c)) (\<lambda>(r, c, s).
     case r of
       None \<Rightarrow> Ok (None, s)
     | Some (rowid, data) \<Rightarrow>
         if Some rowid = exclude then conflict_loop S fuel cols vs exclude n c s
         else
           obind (row_decode rowid data) (\<lambda>row.
           case conflict_at cols vs (row_values row) of
             Some ci \<Rightarrow> Ok (Some (ci, rowid), s)
           | None \<Rightarrow> conflict_loop S fuel cols vs exclude n c s))"

definition find_unique_conflict ::
    "('s, 'm) page_source_scheme \<Rightarrow> nat \<Rightarrow> 'j table \<Rightarrow> 'j sql_value list \<Rightarrow> i64 option \<Rightarrow> 's
     \<Rightarrow> ((nat \<times> i64) option \<times> 's) qres" where
  "find_unique_conflict S fuel t vs exclude s =
     obind (unique_cols (tb_rowid_alias t) (tb_columns t) 0 vs) (\<lambda>cols.
     if cols = [] then Ok (None, s)
     else obind (from_storage (cursor_seek_first S fuel s (tb_root_page t))) (\<lambda>(c, s).
          conflict_loop S fuel cols vs exclude fuel c s))"

definition with_alias_nulled :: "'j sql_value list \<Rightarrow> nat option \<Rightarrow> 'j sql_value list" where
  "with_alias_nulled vs al =
     (case al of Some a \<Rightarrow> if a < length vs then vs[a := VNull] else vs | None \<Rightarrow> vs)"

text \<open>Writing a row, and the column named when its row id is taken.\<close>

definition store_row :: "'s page_ops \<Rightarrow> nat \<Rightarrow> 'j platform \<Rightarrow> 'j table \<Rightarrow> i64 \<Rightarrow> 'j sql_value list \<Rightarrow> 's \<Rightarrow> (unit \<times> 's) qres" where
  "store_row S fuel pf t rowid vs s =
     obind (row_encode pf \<lparr>row_id = rowid, row_values = with_alias_nulled vs (tb_rowid_alias t)\<rparr>) (\<lambda>data.
     obind (from_storage (btree_insert S fuel (tb_root_page t) s rowid data)) (\<lambda>s. Ok ((), s)))"

definition alias_name :: "'j table \<Rightarrow> string qres" where
  "alias_name t =
     (case tb_rowid_alias t of Some i \<Rightarrow> omap co_name (index_at (tb_columns t) i) | None \<Rightarrow> Ok ''rowid'')"

definition delete_key :: "'s page_ops \<Rightarrow> nat \<Rightarrow> 'j table \<Rightarrow> i64 \<Rightarrow> 's \<Rightarrow> (bool \<times> 's) qres" where
  "delete_key S fuel t rowid s = from_storage (btree_delete S fuel (tb_root_page t) s rowid)"

definition row_exists :: "('s, 'm) page_source_scheme \<Rightarrow> nat \<Rightarrow> 'j table \<Rightarrow> i64 \<Rightarrow> 's \<Rightarrow> (bool \<times> 's) qres" where
  "row_exists S fuel t rowid s =
     omap (\<lambda>(v, s). (v \<noteq> None, s)) (from_storage (btree_get S fuel (tb_root_page t) s rowid))"

section \<open>INSERT\<close>

record insert_result =
  ir_count :: nat
  ir_last_rowid :: i64

fun assign_targets ::
    "'j platform \<Rightarrow> 'j sql_value list \<Rightarrow> 'j table \<Rightarrow> (nat \<times> 'j qexpr) list \<Rightarrow> 'j sql_value list \<Rightarrow> 'j sql_value list ev" where
  "assign_targets pf params t [] vs = ev_return vs"
| "assign_targets pf params t ((slot, e) # rest) vs =
     ev_bind (eval pf \<lparr>env_values = [], env_row_id = i64_of_int 0, env_params = params\<rparr> e) (\<lambda>v.
     ev_bind (ev_lift (obind (index_at (tb_columns t) slot) (\<lambda>c. coerce_to pf v (co_sql_type c)))) (\<lambda>v.
     ev_bind (ev_lift (put_at vs slot v)) (assign_targets pf params t rest)))"

text \<open>The row id: the value of the column that aliases it, or one more than the last.\<close>

definition next_rowid :: "('s, 'm) page_source_scheme \<Rightarrow> nat \<Rightarrow> 'j table \<Rightarrow> 's \<Rightarrow> (i64 \<times> 's) qres" where
  "next_rowid S fuel t s =
     obind (from_storage (btree_last_key S fuel (tb_root_page t) s)) (\<lambda>(k, s).
     omap (\<lambda>n. (i64_of_int n, s)) (ck_i64 ((case k of Some k \<Rightarrow> int_of_i64 k | None \<Rightarrow> 0) + 1)))"

definition choose_rowid ::
    "('s, 'm) page_source_scheme \<Rightarrow> nat \<Rightarrow> 'j table \<Rightarrow> 'j sql_value list \<Rightarrow> 's \<Rightarrow> (i64 \<times> 's) qres" where
  "choose_rowid S fuel t vs s =
     (case tb_rowid_alias t of
        None \<Rightarrow> next_rowid S fuel t s
      | Some idx \<Rightarrow>
          obind (index_at vs idx) (\<lambda>v.
          if is_null v then next_rowid S fuel t s
          else omap (\<lambda>k. (k, s)) (ok_or (as_i64 v) (TypeError ''INTEGER PRIMARY KEY must be an integer''))))"

definition set_alias :: "nat option \<Rightarrow> i64 \<Rightarrow> 'j sql_value list \<Rightarrow> 'j sql_value list qres" where
  "set_alias al rowid vs = (case al of Some idx \<Rightarrow> put_at vs idx (VInteger rowid) | None \<Rightarrow> Ok vs)"

text \<open>Conflicts: the first row with an equal \<open>UNIQUE\<close> value, then a row with the same row id.\<close>

definition clear_unique ::
    "'s page_ops \<Rightarrow> nat \<Rightarrow> 'j table \<Rightarrow> bool \<Rightarrow> 'j sql_value list \<Rightarrow> 's \<Rightarrow> (unit \<times> 's) qres" where
  "clear_unique S fuel t or_replace vs s =
     obind (find_unique_conflict S fuel t vs None s) (\<lambda>(r, s).
     case r of
       None \<Rightarrow> Ok ((), s)
     | Some (ci, rowid) \<Rightarrow>
         if or_replace then omap (\<lambda>(b, s). ((), s)) (delete_key S fuel t rowid s)
         else obind (index_at (tb_columns t) ci) (\<lambda>c. Err (constraint_failed ''UNIQUE'' (tb_name t) (co_name c))))"

definition clear_rowid :: "'s page_ops \<Rightarrow> nat \<Rightarrow> 'j table \<Rightarrow> bool \<Rightarrow> i64 \<Rightarrow> 's \<Rightarrow> (unit \<times> 's) qres" where
  "clear_rowid S fuel t or_replace rowid s =
     obind (row_exists S fuel t rowid s) (\<lambda>(exists, s).
     if \<not> exists then Ok ((), s)
     else if or_replace then omap (\<lambda>(b, s). ((), s)) (delete_key S fuel t rowid s)
     else if tb_rowid_alias t \<noteq> None then
       obind (alias_name t) (\<lambda>c. Err (constraint_failed ''UNIQUE'' (tb_name t) c))
     else Ok ((), s))"

text \<open>What one row of \<open>VALUES\<close> does to the store, once its values are known.\<close>

definition insert_values ::
    "'s page_ops \<Rightarrow> nat \<Rightarrow> 'j platform \<Rightarrow> 'j table \<Rightarrow> bool \<Rightarrow> 'j sql_value list \<Rightarrow> 's \<Rightarrow> (i64 \<times> 's) qres" where
  "insert_values S fuel pf t or_replace vs s =
     obind (choose_rowid S fuel t vs s) (\<lambda>(rowid, s).
     obind (set_alias (tb_rowid_alias t) rowid vs) (\<lambda>vs.
     obind (check_not_null (tb_name t) (tb_columns t) 0 vs) (\<lambda>u.
     obind (clear_unique S fuel t or_replace vs s) (\<lambda>(u, s).
     obind (clear_rowid S fuel t or_replace rowid s) (\<lambda>(u, s).
     obind (store_row S fuel pf t rowid vs s) (\<lambda>(u, s). Ok (rowid, s)))))))"

definition insert_row ::
    "'s page_ops \<Rightarrow> nat \<Rightarrow> 'j platform \<Rightarrow> 'j sql_value list \<Rightarrow> 'j table \<Rightarrow> 'j insert_plan \<Rightarrow> 'j qexpr list
     \<Rightarrow> (i64, 's \<times> world) sm" where
  "insert_row S fuel pf params t p es =
     (if length es \<noteq> length (ip_target_cols p) then
        sm_fail (TypeError (show_nat (int (length es)) @ '' values for ''
          @ show_nat (int (length (ip_target_cols p))) @ '' columns''))
      else
        sm_bind (sm_ev (ev_map eval_default (tb_columns t))) (\<lambda>vs.
        sm_bind (sm_ev (assign_targets pf params t (zip (ip_target_cols p) es) vs)) (\<lambda>vs.
        sm_pages (insert_values S fuel pf t (ip_or_replace p) vs))))"

fun insert_rows ::
    "'s page_ops \<Rightarrow> nat \<Rightarrow> 'j platform \<Rightarrow> 'j sql_value list \<Rightarrow> 'j table \<Rightarrow> 'j insert_plan \<Rightarrow> 'j qexpr list list
     \<Rightarrow> insert_result \<Rightarrow> (insert_result, 's \<times> world) sm" where
  "insert_rows S fuel pf params t p [] res = sm_return res"
| "insert_rows S fuel pf params t p (es # rest) res =
     sm_bind (insert_row S fuel pf params t p es) (\<lambda>rowid.
     insert_rows S fuel pf params t p rest \<lparr>ir_count = ir_count res + 1, ir_last_rowid = rowid\<rparr>)"

definition dml_insert ::
    "'s page_ops \<Rightarrow> nat \<Rightarrow> 'j platform \<Rightarrow> 'j sql_value list \<Rightarrow> 'j table \<Rightarrow> 'j insert_plan
     \<Rightarrow> (insert_result, 's \<times> world) sm" where
  "dml_insert S fuel pf params t p =
     insert_rows S fuel pf params t p (ip_rows p) \<lparr>ir_count = 0, ir_last_rowid = i64_of_int 0\<rparr>"

section \<open>The rows a predicate selects\<close>

definition keep_row :: "'j platform \<Rightarrow> 'j sql_value list \<Rightarrow> 'j qexpr option \<Rightarrow> i64 \<Rightarrow> 'j sql_value list \<Rightarrow> bool ev" where
  "keep_row pf params predicate rowid vs =
     (case predicate of
        None \<Rightarrow> ev_return True
      | Some p \<Rightarrow> ev_bind (eval pf \<lparr>env_values = vs, env_row_id = rowid, env_params = params\<rparr> p)
          (\<lambda>v. ev_return (is_truthy v)))"

definition with_alias_set :: "nat option \<Rightarrow> i64 \<Rightarrow> 'j sql_value list \<Rightarrow> 'j sql_value list" where
  "with_alias_set al rowid vs =
     (case al of Some a \<Rightarrow> if a < length vs then vs[a := VInteger rowid] else vs | None \<Rightarrow> vs)"

fun scan_loop ::
    "('s, 'm) page_source_scheme \<Rightarrow> nat \<Rightarrow> 'j platform \<Rightarrow> 'j sql_value list \<Rightarrow> 'j qexpr option \<Rightarrow> nat option \<Rightarrow> nat \<Rightarrow> cursor
     \<Rightarrow> ((i64 \<times> 'j sql_value list) list, 's \<times> world) sm" where
  "scan_loop S fuel pf params predicate al 0 c = (\<lambda>t. Diverge)"
| "scan_loop S fuel pf params predicate al (Suc n) c =
     sm_bind (sm_storage (\<lambda>s. omap (\<lambda>(r, c, s). ((r, c), s)) (cursor_next S fuel fuel s c))) (\<lambda>(r, c).
     case r of
       None \<Rightarrow> sm_return []
     | Some (rowid, data) \<Rightarrow>
         sm_bind (sm_lift (row_decode rowid data)) (\<lambda>row.
         let vs = with_alias_set al rowid (row_values row) in
         sm_bind (sm_ev (keep_row pf params predicate rowid vs)) (\<lambda>keep.
         sm_bind (scan_loop S fuel pf params predicate al n c) (\<lambda>rest.
         sm_return (if keep then (rowid, vs) # rest else rest)))))"

definition scan_matching ::
    "('s, 'm) page_source_scheme \<Rightarrow> nat \<Rightarrow> 'j platform \<Rightarrow> 'j sql_value list \<Rightarrow> 'j table \<Rightarrow> 'j qexpr option
     \<Rightarrow> ((i64 \<times> 'j sql_value list) list, 's \<times> world) sm" where
  "scan_matching S fuel pf params t predicate =
     sm_bind (sm_storage (\<lambda>s. cursor_seek_first S fuel s (tb_root_page t)))
       (scan_loop S fuel pf params predicate (tb_rowid_alias t) fuel)"

section \<open>UPDATE\<close>

text \<open>An assignment is evaluated on the values that the assignments before it have changed.\<close>

fun apply_assignments ::
    "'j platform \<Rightarrow> 'j sql_value list \<Rightarrow> 'j table \<Rightarrow> i64 \<Rightarrow> (nat \<times> 'j qexpr) list \<Rightarrow> 'j sql_value list \<Rightarrow> i64
     \<Rightarrow> ('j sql_value list \<times> i64) ev" where
  "apply_assignments pf params t rowid [] vs new_rowid = ev_return (vs, new_rowid)"
| "apply_assignments pf params t rowid ((i, e) # as) vs new_rowid =
     ev_bind (eval pf \<lparr>env_values = vs, env_row_id = rowid, env_params = params\<rparr> e) (\<lambda>v.
     ev_bind (ev_lift (obind (index_at (tb_columns t) i) (\<lambda>c. coerce_to pf v (co_sql_type c)))) (\<lambda>v.
     ev_bind (if tb_rowid_alias t = Some i
              then ev_lift (ok_or (as_i64 v) (TypeError ''INTEGER PRIMARY KEY must be integer''))
              else ev_return new_rowid) (\<lambda>new_rowid.
     ev_bind (ev_lift (put_at vs i v)) (\<lambda>vs.
     apply_assignments pf params t rowid as vs new_rowid))))"

definition update_values ::
    "'s page_ops \<Rightarrow> nat \<Rightarrow> 'j platform \<Rightarrow> 'j table \<Rightarrow> i64 \<Rightarrow> i64 \<Rightarrow> 'j sql_value list \<Rightarrow> 's \<Rightarrow> (unit \<times> 's) qres" where
  "update_values S fuel pf t rowid new_rowid vs s =
     obind (check_not_null (tb_name t) (tb_columns t) 0 vs) (\<lambda>u.
     obind (find_unique_conflict S fuel t vs (Some rowid) s) (\<lambda>(r, s).
     case r of
       Some (ci, k) \<Rightarrow>
         obind (index_at (tb_columns t) ci) (\<lambda>c. Err (constraint_failed ''UNIQUE'' (tb_name t) (co_name c)))
     | None \<Rightarrow>
         obind (if new_rowid \<noteq> rowid then row_exists S fuel t new_rowid s else Ok (False, s)) (\<lambda>(taken, s).
         if taken then obind (alias_name t) (\<lambda>c. Err (constraint_failed ''UNIQUE'' (tb_name t) c))
         else
           obind (if new_rowid \<noteq> rowid then omap snd (delete_key S fuel t rowid s) else Ok s) (\<lambda>s.
           store_row S fuel pf t new_rowid vs s))))"

fun update_rows ::
    "'s page_ops \<Rightarrow> nat \<Rightarrow> 'j platform \<Rightarrow> 'j sql_value list \<Rightarrow> 'j table \<Rightarrow> 'j update_plan \<Rightarrow> (i64 \<times> 'j sql_value list) list \<Rightarrow> nat
     \<Rightarrow> (nat, 's \<times> world) sm" where
  "update_rows S fuel pf params t p [] cnt = sm_return cnt"
| "update_rows S fuel pf params t p ((rowid, vs) # rest) cnt =
     sm_bind (sm_ev (apply_assignments pf params t rowid (up_assignments p) vs rowid)) (\<lambda>(vs, new_rowid).
     sm_bind (sm_pages (update_values S fuel pf t rowid new_rowid vs)) (\<lambda>u.
     update_rows S fuel pf params t p rest (cnt + 1)))"

definition dml_update ::
    "'s page_ops \<Rightarrow> nat \<Rightarrow> 'j platform \<Rightarrow> 'j sql_value list \<Rightarrow> 'j table \<Rightarrow> 'j update_plan \<Rightarrow> (nat, 's \<times> world) sm" where
  "dml_update S fuel pf params t p =
     sm_bind (scan_matching S fuel pf params t (up_predicate p)) (\<lambda>matching.
     update_rows S fuel pf params t p matching 0)"

section \<open>DELETE\<close>

fun delete_rows ::
    "'s page_ops \<Rightarrow> nat \<Rightarrow> 'j table \<Rightarrow> (i64 \<times> 'j sql_value list) list \<Rightarrow> nat \<Rightarrow> 's \<Rightarrow> (nat \<times> 's) qres" where
  "delete_rows S fuel t [] cnt s = Ok (cnt, s)"
| "delete_rows S fuel t ((rowid, vs) # rest) cnt s =
     obind (delete_key S fuel t rowid s) (\<lambda>(removed, s).
     delete_rows S fuel t rest (if removed then cnt + 1 else cnt) s)"

definition dml_delete ::
    "'s page_ops \<Rightarrow> nat \<Rightarrow> 'j platform \<Rightarrow> 'j sql_value list \<Rightarrow> 'j table \<Rightarrow> 'j delete_plan \<Rightarrow> (nat, 's \<times> world) sm" where
  "dml_delete S fuel pf params t p =
     sm_bind (scan_matching S fuel pf params t (dp_predicate p)) (\<lambda>matching.
     sm_pages (delete_rows S fuel t matching 0))"

end
