(* ===== verification/Pragma.thy ===== *)
theory Pragma
  imports RustString Planner
begin

text \<open>
  The parser of \<open>PRAGMA\<close> statements, \<open>squrust-sql/src/pragma.rs\<close>.
\<close>

record pragma =
  pg_name :: string
  pg_arg :: "string option"
  pg_value :: "string option"

definition quoted_by :: "char \<Rightarrow> char \<Rightarrow> string \<Rightarrow> bool" where
  "quoted_by a b s \<longleftrightarrow> hd s = a \<and> last s = b"

text \<open>The first and the last byte are ASCII, so the slice is one of characters.\<close>

definition unquote :: "string \<Rightarrow> string" where
  "unquote s =
     (if 2 \<le> length s \<and> (quoted_by (CHR 0x27) (CHR 0x27) s \<or> quoted_by (CHR 0x22) (CHR 0x22) s
          \<or> quoted_by (CHR ''['') (CHR '']'') s)
      then butlast (tl s) else s)"

definition is_ascii_whitespace :: "char \<Rightarrow> bool" where
  "is_ascii_whitespace c \<longleftrightarrow> cp c \<in> {9, 10, 12, 13, 32}"

definition is_name_byte :: "char \<Rightarrow> bool" where
  "is_name_byte c \<longleftrightarrow> is_digit c \<or> 65 \<le> cp c \<and> cp c \<le> 90 \<or> 97 \<le> cp c \<and> cp c \<le> 122 \<or> c = CHR ''_''"

text \<open>\<open>rsplit('.').next()\<close>: what follows the last dot.\<close>

definition after_last_dot :: "string \<Rightarrow> string" where
  "after_last_dot s = rev (takeWhile (\<lambda>c. c \<noteq> CHR ''.'') (rev s))"

text \<open>The head of a pragma, its parenthesized argument and its value.\<close>

definition pragma_parts :: "string \<Rightarrow> (string \<times> string option \<times> string option) option" where
  "pragma_parts rest =
     (case str_find rest ''('' of
        Some opn \<Rightarrow>
          (case rfind (CHR '')'') rest of
             None \<Rightarrow> None
           | Some close \<Rightarrow>
               if close < opn then None
               else Some (take opn rest, Some (unquote (trim (drop (opn + 1) (take close rest)))), None))
      | None \<Rightarrow>
          (case str_find rest ''='' of
             Some eq \<Rightarrow> Some (take eq rest, None, Some (unquote (trim (drop (eq + 1) rest))))
           | None \<Rightarrow> Some (rest, None, None)))"

definition pragma_name :: "string \<Rightarrow> string" where
  "pragma_name head = to_ascii_lowercase (trim (after_last_dot (trim head)))"

definition try_parse :: "string \<Rightarrow> pragma option" where
  "try_parse sql =
     (let s = trim (trim_end_matches (\<lambda>c. c = cp (CHR '';'')) (trim sql)) in
      if length s < 7 \<or> \<not> eq_ignore_ascii_case (take 6 s) ''pragma'' \<or> \<not> is_ascii_whitespace (s ! 6) then None
      else
        let rest = trim (drop 6 s) in
        if rest = [] \<or> CHR '';'' \<in> set rest then None
        else
          case pragma_parts rest of
            None \<Rightarrow> None
          | Some (head, arg, val) \<Rightarrow>
              let name = pragma_name head in
              if name = [] \<or> \<not> list_all is_name_byte name then None
              else Some \<lparr>pg_name = name, pg_arg = arg, pg_value = val\<rparr>)"

end
