(* ===== verification/SqlEngine.thy ===== *)
theory SqlEngine
  imports Dml Pragma TxStore
begin

text \<open>
  The SQL engine, \<open>squrust-sql/src/lib.rs\<close>: statements are planned on the catalog, subqueries
  are evaluated and replaced by constants, and the plan runs on a read or a write
  transaction of the storage engine. A statement that fails returns no state; its
  transaction has been dropped, so its pages are not in the database.
\<close>

section \<open>Subqueries\<close>

text \<open>
  \<open>rows\<close> gives the rows of a query. A scalar subquery is its first value or NULL, an \<open>IN\<close>
  subquery becomes a list.
\<close>

definition scalar_of :: "'j sql_value list list \<Rightarrow> 'j sql_value" where
  "scalar_of rows = (case rows of (v # vs) # _ \<Rightarrow> v | _ \<Rightarrow> VNull)"

definition first_or_null :: "'j sql_value list \<Rightarrow> 'j sql_value" where
  "first_or_null r = (case r of [] \<Rightarrow> VNull | v # vs \<Rightarrow> v)"

primrec rewrite_expr ::
    "(query \<Rightarrow> ('j sql_value list list, 't) sm) \<Rightarrow> 'j qexpr \<Rightarrow> ('j qexpr, 't) sm" where
  "rewrite_expr rows (ELiteral v) = sm_return (ELiteral v)"
| "rewrite_expr rows (EColumn i) = sm_return (EColumn i)"
| "rewrite_expr rows ERowId = sm_return ERowId"
| "rewrite_expr rows (EParam i) = sm_return (EParam i)"
| "rewrite_expr rows (EBinary op l r) =
     sm_bind (rewrite_expr rows l) (\<lambda>l. sm_bind (rewrite_expr rows r) (\<lambda>r. sm_return (EBinary op l r)))"
| "rewrite_expr rows (EUnary op e) = sm_bind (rewrite_expr rows e) (\<lambda>e. sm_return (EUnary op e))"
| "rewrite_expr rows (EIsNull e negated) = sm_bind (rewrite_expr rows e) (\<lambda>e. sm_return (EIsNull e negated))"
| "rewrite_expr rows (ELike e p negated) =
     sm_bind (rewrite_expr rows e) (\<lambda>e. sm_bind (rewrite_expr rows p) (\<lambda>p. sm_return (ELike e p negated)))"
| "rewrite_expr rows (EInList e es negated) =
     sm_bind (rewrite_expr rows e) (\<lambda>e. sm_bind (sm_sequence (map (rewrite_expr rows) es)) (\<lambda>es.
     sm_return (EInList e es negated)))"
| "rewrite_expr rows (EFunction name args) =
     sm_bind (sm_sequence (map (rewrite_expr rows) args)) (\<lambda>args. sm_return (EFunction name args))"
| "rewrite_expr rows (ECast e ty) = sm_bind (rewrite_expr rows e) (\<lambda>e. sm_return (ECast e ty))"
| "rewrite_expr rows (ECase operand whens els) =
     sm_bind (sm_option (map_option (rewrite_expr rows) operand)) (\<lambda>operand.
     sm_bind (sm_sequence (map (\<lambda>(c, r). sm_bind c (\<lambda>c. sm_bind r (\<lambda>r. sm_return (c, r))))
         (map (map_prod (rewrite_expr rows) (rewrite_expr rows)) whens))) (\<lambda>whens.
     sm_bind (sm_option (map_option (rewrite_expr rows) els)) (\<lambda>els.
     sm_return (ECase operand whens els))))"
| "rewrite_expr rows (EScalarSubquery q) = sm_bind (rows q) (\<lambda>rs. sm_return (ELiteral (scalar_of rs)))"
| "rewrite_expr rows (EExists q negated) =
     sm_bind (rows q) (\<lambda>rs. sm_return (ELiteral (VBoolean ((rs \<noteq> []) \<noteq> negated))))"
| "rewrite_expr rows (EInSubquery e q negated) =
     sm_bind (rewrite_expr rows e) (\<lambda>e. sm_bind (rows q) (\<lambda>rs.
     sm_return (EInList e (map (\<lambda>r. ELiteral (first_or_null r)) rs) negated)))"

definition rewrite_exprs ::
    "(query \<Rightarrow> ('j sql_value list list, 't) sm) \<Rightarrow> 'j qexpr list \<Rightarrow> ('j qexpr list, 't) sm" where
  "rewrite_exprs rows es = sm_sequence (map (rewrite_expr rows) es)"

definition rewrite_opt ::
    "(query \<Rightarrow> ('j sql_value list list, 't) sm) \<Rightarrow> 'j qexpr option \<Rightarrow> ('j qexpr option, 't) sm" where
  "rewrite_opt rows e = sm_option (map_option (rewrite_expr rows) e)"

definition rewrite_agg ::
    "(query \<Rightarrow> ('j sql_value list list, 't) sm) \<Rightarrow> ('j, query) agg_expr \<Rightarrow> (('j, query) agg_expr, 't) sm" where
  "rewrite_agg rows a =
     sm_bind (rewrite_opt rows (agg_arg a)) (\<lambda>arg. sm_bind (rewrite_opt rows (agg_sep a)) (\<lambda>sep.
     sm_return (AggExpr (agg_fn a) arg (agg_distinct a) sep)))"

fun rewrite_output ::
    "(query \<Rightarrow> ('j sql_value list list, 't) sm) \<Rightarrow> ('j, query) output_col \<Rightarrow> (('j, query) output_col, 't) sm" where
  "rewrite_output rows (OutExpr e) = sm_bind (rewrite_expr rows e) (\<lambda>e. sm_return (OutExpr e))"
| "rewrite_output rows (OutAgg i) = sm_return (OutAgg i)"

definition rewrite_key ::
    "(query \<Rightarrow> ('j sql_value list list, 't) sm) \<Rightarrow> ('j, query) sort_key \<Rightarrow> (('j, query) sort_key, 't) sm" where
  "rewrite_key rows k = sm_bind (rewrite_expr rows (sk_expr k)) (\<lambda>e. sm_return (SortKey e (sk_asc k)))"

primrec rewrite_plan ::
    "(query \<Rightarrow> ('j sql_value list list, 't) sm) \<Rightarrow> 'j qplan \<Rightarrow> ('j qplan, 't) sm" where
  "rewrite_plan rows PDual = sm_return PDual"
| "rewrite_plan rows (PScan table page columns al defaults) = sm_return (PScan table page columns al defaults)"
| "rewrite_plan rows (PFilter input p) =
     sm_bind (rewrite_plan rows input) (\<lambda>input. sm_bind (rewrite_expr rows p) (\<lambda>p. sm_return (PFilter input p)))"
| "rewrite_plan rows (PProject input es columns) =
     sm_bind (rewrite_plan rows input) (\<lambda>input. sm_bind (rewrite_exprs rows es) (\<lambda>es.
     sm_return (PProject input es columns)))"
| "rewrite_plan rows (PJoin l r p outer columns) =
     sm_bind (rewrite_plan rows l) (\<lambda>l. sm_bind (rewrite_plan rows r) (\<lambda>r. sm_bind (rewrite_opt rows p) (\<lambda>p.
     sm_return (PJoin l r p outer columns))))"
| "rewrite_plan rows (PAggregate input group_by aggs output columns base_len having) =
     sm_bind (rewrite_plan rows input) (\<lambda>input.
     sm_bind (rewrite_exprs rows group_by) (\<lambda>group_by.
     sm_bind (sm_sequence (map (rewrite_agg rows) aggs)) (\<lambda>aggs.
     sm_bind (sm_sequence (map (rewrite_output rows) output)) (\<lambda>output.
     sm_bind (rewrite_opt rows having) (\<lambda>having.
     sm_return (PAggregate input group_by aggs output columns base_len having))))))"
| "rewrite_plan rows (PSort input keys) =
     sm_bind (rewrite_plan rows input) (\<lambda>input. sm_bind (sm_sequence (map (rewrite_key rows) keys)) (\<lambda>keys.
     sm_return (PSort input keys)))"
| "rewrite_plan rows (PLimit input lm off) =
     sm_bind (rewrite_plan rows input) (\<lambda>input. sm_return (PLimit input lm off))"
| "rewrite_plan rows (PDistinct input) = sm_bind (rewrite_plan rows input) (\<lambda>input. sm_return (PDistinct input))"
| "rewrite_plan rows (PSetOp kind all l r columns) =
     sm_bind (rewrite_plan rows l) (\<lambda>l. sm_bind (rewrite_plan rows r) (\<lambda>r.
     sm_return (PSetOp kind all l r columns)))"

text \<open>The rows of a subquery; the fuel bounds how deep subqueries nest.\<close>

fun subquery_rows ::
    "sql_front \<Rightarrow> 'j catalog \<Rightarrow> ('j, 's) exec_ctx \<Rightarrow> nat \<Rightarrow> query \<Rightarrow> ('j sql_value list list, 's \<times> world) sm" where
  "subquery_rows fr cat X 0 q = (\<lambda>t. Diverge)"
| "subquery_rows fr cat X (Suc n) q =
     sm_bind (sm_lift (plan_subquery fr cat q)) (\<lambda>p.
     sm_bind (rewrite_plan (subquery_rows fr cat X n) p) (\<lambda>p.
     sm_bind (collect_all X (xc_fuel X) (build p)) (\<lambda>rs. sm_return (map row_values rs))))"

definition rewrite_insert ::
    "(query \<Rightarrow> ('j sql_value list list, 't) sm) \<Rightarrow> 'j insert_plan \<Rightarrow> ('j insert_plan, 't) sm" where
  "rewrite_insert rows p =
     sm_bind (sm_sequence (map (rewrite_exprs rows) (ip_rows p))) (\<lambda>rs. sm_return (p\<lparr>ip_rows := rs\<rparr>))"

definition rewrite_update ::
    "(query \<Rightarrow> ('j sql_value list list, 't) sm) \<Rightarrow> 'j update_plan \<Rightarrow> ('j update_plan, 't) sm" where
  "rewrite_update rows p =
     sm_bind (sm_sequence (map (\<lambda>(i, e). sm_bind (rewrite_expr rows e) (\<lambda>e. sm_return (i, e))) (up_assignments p))) (\<lambda>as.
     sm_bind (rewrite_opt rows (up_predicate p)) (\<lambda>pr.
     sm_return (p\<lparr>up_assignments := as, up_predicate := pr\<rparr>)))"

definition rewrite_dml ::
    "(query \<Rightarrow> ('j sql_value list list, 't) sm) \<Rightarrow> 'j statement_plan \<Rightarrow> ('j statement_plan, 't) sm" where
  "rewrite_dml rows pl =
     (case pl of
        PlInsert p \<Rightarrow> sm_bind (rewrite_insert rows p) (\<lambda>p. sm_return (PlInsert p))
      | PlUpdate p \<Rightarrow> sm_bind (rewrite_update rows p) (\<lambda>p. sm_return (PlUpdate p))
      | PlDelete p \<Rightarrow>
          sm_bind (rewrite_opt rows (dp_predicate p)) (\<lambda>pr. sm_return (PlDelete (p\<lparr>dp_predicate := pr\<rparr>)))
      | pl \<Rightarrow> sm_return pl)"

section \<open>The engine\<close>

record 'j sql_engine =
  se_storage :: engine
  se_catalog :: "'j catalog"
  se_last_insert_rowid :: i64
  se_changes :: i64

text \<open>
  The parser, the platform, a bound for loops, and of a commit the fault of the log file
  and the iteration order of the pending pages.
\<close>

record 'j sql_config =
  cf_front :: sql_front
  cf_platform :: "'j platform"
  cf_fuel :: nat
  cf_fault :: io_fault
  cf_hash :: "(page_id \<times> raw_page) list \<Rightarrow> raw_page list"

definition sql_engine_new :: "'j sql_config \<Rightarrow> engine \<Rightarrow> 'j sql_engine qres" where
  "sql_engine_new cf e =
     (let (tx, e) = begin_read e in
      obind (catalog_load (cf_front cf) (cf_platform cf) (read_tx_source tx) (cf_fuel cf) e) (\<lambda>(cat, e).
      Ok \<lparr>se_storage = read_tx_drop tx e, se_catalog = cat, se_last_insert_rowid = i64_of_int 0,
          se_changes = i64_of_int 0\<rparr>))"

definition se_table_names :: "'j sql_engine \<Rightarrow> string list" where
  "se_table_names se = table_names (se_catalog se)"

definition schema_statements :: "'j sql_engine \<Rightarrow> string list" where
  "schema_statements se =
     map snd (sort_key fst (map (\<lambda>(k, t). (tb_name t, tb_sql t)) (cg_tables (se_catalog se))))"

definition table_sql :: "'j sql_engine \<Rightarrow> string \<Rightarrow> string option" where
  "table_sql se name = map_option tb_sql (get_table (se_catalog se) name)"

definition single_statement :: "sql_front \<Rightarrow> string \<Rightarrow> statement qres" where
  "single_statement fr sql =
     obind (sql_parse fr sql) (\<lambda>stmts.
     case stmts of
       [st] \<Rightarrow> Ok st
     | _ \<Rightarrow> Err (ParseError (''expected a single statement, found '' @ show_nat (int (length stmts)))))"

definition describe :: "sql_front \<Rightarrow> 'j sql_engine \<Rightarrow> string \<Rightarrow> column_info list qres" where
  "describe fr se sql =
     obind (single_statement fr sql) (\<lambda>st.
     obind (plan_statement fr (se_catalog se) st) (\<lambda>pl.
     Ok (case pl of PlQuery p columns \<Rightarrow> columns | _ \<Rightarrow> [])))"

section \<open>Pragmas\<close>

definition default_pragma_text :: "'j platform \<Rightarrow> 'j default_expr option \<Rightarrow> 'j sql_value" where
  "default_pragma_text pf d =
     (case d of
        None \<Rightarrow> VNull
      | Some (DefValue v) \<Rightarrow>
          (case v of
             VNull \<Rightarrow> VText ''NULL''
           | VText s \<Rightarrow> VText ([CHR 0x27] @ str_replace s [CHR 0x27] [CHR 0x27, CHR 0x27] @ [CHR 0x27])
           | _ \<Rightarrow> VText (to_display_string pf v))
      | Some DefCurrentTimestamp \<Rightarrow> VText ''CURRENT_TIMESTAMP''
      | Some DefCurrentDate \<Rightarrow> VText ''CURRENT_DATE''
      | Some DefCurrentTime \<Rightarrow> VText ''CURRENT_TIME'')"

definition plain_col :: "string \<Rightarrow> column_info" where
  "plain_col name = \<lparr>ci_name = name, ci_table = None, ci_decl_type = None\<rparr>"

type_synonym 'j pragma_result = "column_info list \<times> 'j sql_value list list"

definition table_info_row :: "'j platform \<Rightarrow> nat \<times> 'j column \<Rightarrow> 'j sql_value list" where
  "table_info_row pf ic =
     (case ic of (i, c) \<Rightarrow>
        [VInteger (i64_of_int (int i)), VText (co_name c), VText (co_decl_type c),
         VInteger (i64_of_int (of_bool (co_not_null c))), default_pragma_text pf (co_default c),
         VInteger (i64_of_int (of_bool (co_primary_key c)))])"

definition table_info :: "'j platform \<Rightarrow> 'j catalog \<Rightarrow> string option \<Rightarrow> 'j pragma_result qres" where
  "table_info pf cat arg =
     obind (ok_or arg (UnsupportedError ''table_info requires a table name'')) (\<lambda>name.
     Ok (case get_table cat name of
           None \<Rightarrow> ([], [])
         | Some t \<Rightarrow>
             (map plain_col [''cid'', ''name'', ''type'', ''notnull'', ''dflt_value'', ''pk''],
              map (table_info_row pf) (List.enumerate 0 (tb_columns t)))))"

definition pragma_user_version ::
    "'j sql_config \<Rightarrow> string option \<Rightarrow> engine \<Rightarrow> ('j pragma_result \<times> engine) qres" where
  "pragma_user_version cf val e =
     (case val of
        Some v \<Rightarrow>
          obind (ok_or (parse_i64 (trim v)) (ParseError ''user_version must be an integer'')) (\<lambda>n.
          obind (from_storage (engine_set_user_version (cf_hash cf) e (word_of_int (int_of_i64 n)))) (\<lambda>e.
          Ok (([], []), e)))
      | None \<Rightarrow>
          obind (from_storage (engine_user_version e)) (\<lambda>(uv, e).
          Ok (([plain_col ''user_version''], [[VInteger (i64_of_int (uint uv))]]), e)))"

definition run_pragma ::
    "'j sql_config \<Rightarrow> 'j catalog \<Rightarrow> pragma \<Rightarrow> engine \<Rightarrow> ('j pragma_result \<times> engine) qres" where
  "run_pragma cf cat p e =
     (if pg_name p = ''table_info'' then omap (\<lambda>r. (r, e)) (table_info (cf_platform cf) cat (pg_arg p))
      else if pg_name p = ''foreign_keys'' then
        Ok (if pg_value p \<noteq> None then ([], []) else ([plain_col ''foreign_keys''], [[VInteger (i64_of_int 0)]]), e)
      else if pg_name p = ''user_version'' then pragma_user_version cf (pg_value p) e
      else if pg_name p = ''journal_mode'' then
        Ok (([plain_col ''journal_mode''],
             [[VText (case pg_value p of Some v \<Rightarrow> to_ascii_lowercase v | None \<Rightarrow> ''wal'')]]), e)
      else Ok (([], []), e))"

section \<open>Queries\<close>

text \<open>\<open>build_query\<close> on any source; \<open>prag\<close> runs a pragma on its state.\<close>

definition build_query ::
    "sql_front \<Rightarrow> 'j catalog \<Rightarrow> ('j, 's) exec_ctx \<Rightarrow> (pragma \<Rightarrow> 's \<Rightarrow> ('j pragma_result \<times> 's) qres) \<Rightarrow> string
     \<Rightarrow> (('j, query) exec, 's \<times> world) sm" where
  "build_query fr cat X prag sql =
     (case try_parse sql of
        Some p \<Rightarrow> sm_bind (sm_pages (prag p)) (\<lambda>(columns, rows). sm_return (rows_exec columns rows))
      | None \<Rightarrow>
          sm_bind (sm_lift (single_statement fr sql)) (\<lambda>st.
          sm_bind (sm_lift (plan_statement fr cat st)) (\<lambda>pl.
          case pl of
            PlQuery p columns \<Rightarrow>
              sm_bind (rewrite_plan (subquery_rows fr cat X (xc_fuel X)) p) (\<lambda>p. sm_return (build p))
          | _ \<Rightarrow> sm_fail (UnsupportedError ''query() requires a SELECT statement; use execute() for DML/DDL''))))"

definition sql_query ::
    "'j sql_config \<Rightarrow> string \<Rightarrow> 'j sql_value list \<Rightarrow> 'j sql_engine \<times> world
     \<Rightarrow> ((('j, query) exec \<times> read_tx) \<times> 'j sql_engine \<times> world) qres" where
  "sql_query cf sql params = (\<lambda>(se, w).
     let (tx, e) = begin_read (se_storage se) in
     omap (\<lambda>(x, (e, w)). ((x, tx), (se\<lparr>se_storage := e\<rparr>, w)))
       (build_query (cf_front cf) (se_catalog se) (read_ctx tx (cf_fuel cf) (cf_platform cf) params)
          (run_pragma cf (se_catalog se)) sql (e, w)))"

section \<open>Statements\<close>

text \<open>A computation on a fresh read transaction, and one on a write transaction that commits.\<close>

definition with_read ::
    "(read_tx \<Rightarrow> ('a, engine \<times> world) sm) \<Rightarrow> ('a, 'j sql_engine \<times> world) sm" where
  "with_read m = (\<lambda>(se, w).
     let (tx, e) = begin_read (se_storage se) in
     omap (\<lambda>(x, (e, w)). (x, (se\<lparr>se_storage := read_tx_drop tx e\<rparr>, w))) (m tx (e, w)))"

definition with_write ::
    "'j sql_config \<Rightarrow> ('a, tx_state \<times> world) sm \<Rightarrow> ('a, 'j sql_engine \<times> world) sm" where
  "with_write cf m = (\<lambda>(se, w).
     obind (from_storage (begin_write (se_storage se))) (\<lambda>(tx, e).
     obind (m ((e, tx), w)) (\<lambda>(x, ((e, tx), w)).
     case tx_commit (cf_fault cf) (cf_hash cf) e tx of
       (r, e, tx) \<Rightarrow> omap (\<lambda>u. (x, (se\<lparr>se_storage := tx_drop e tx\<rparr>, w))) (from_storage r))))"

definition sm_get :: "('a, 'a \<times> world) sm" where
  "sm_get = (\<lambda>(se, w). Ok (se, (se, w)))"

definition sm_modify :: "('a \<Rightarrow> 'a) \<Rightarrow> (unit, 'a \<times> world) sm" where
  "sm_modify f = (\<lambda>(se, w). Ok ((), (f se, w)))"

definition clone_table :: "'j catalog \<Rightarrow> string \<Rightarrow> 'j table qres" where
  "clone_table cat name = ok_or (get_table cat name) (NotFoundError (''table `'' @ name @ ''`''))"

text \<open>The plan of a statement with its subqueries replaced, read from a fresh snapshot.\<close>

definition read_rows ::
    "'j sql_config \<Rightarrow> 'j catalog \<Rightarrow> read_tx \<Rightarrow> 'j sql_value list \<Rightarrow> query \<Rightarrow> ('j sql_value list list, engine \<times> world) sm" where
  "read_rows cf cat tx params =
     subquery_rows (cf_front cf) cat (read_ctx tx (cf_fuel cf) (cf_platform cf) params) (cf_fuel cf)"

definition plan_folded ::
    "'j sql_config \<Rightarrow> statement \<Rightarrow> 'j sql_value list \<Rightarrow> ('j statement_plan, 'j sql_engine \<times> world) sm" where
  "plan_folded cf st params =
     sm_bind sm_get (\<lambda>se.
     sm_bind (sm_lift (plan_statement (cf_front cf) (se_catalog se) st)) (\<lambda>pl.
     with_read (\<lambda>tx. rewrite_dml (read_rows cf (se_catalog se) tx params) pl)))"

definition run_select :: "'j sql_config \<Rightarrow> 'j qplan \<Rightarrow> 'j sql_value list \<Rightarrow> (nat, 'j sql_engine \<times> world) sm" where
  "run_select cf p params =
     sm_bind sm_get (\<lambda>se.
     with_read (\<lambda>tx.
       sm_bind (rewrite_plan (read_rows cf (se_catalog se) tx params) p) (\<lambda>p.
       sm_bind (collect_all (read_ctx tx (cf_fuel cf) (cf_platform cf) params) (cf_fuel cf) (build p)) (\<lambda>rs.
       sm_return 0))))"

text \<open>Insertion, update and deletion on a write transaction, with the table cloned before.\<close>

definition run_insert ::
    "'j sql_config \<Rightarrow> 'j sql_value list \<Rightarrow> 'j table \<Rightarrow> 'j insert_plan \<Rightarrow> (insert_result, tx_state \<times> world) sm" where
  "run_insert cf params t p = dml_insert tx_ops (cf_fuel cf) (cf_platform cf) params t p"

definition run_update ::
    "'j sql_config \<Rightarrow> 'j sql_value list \<Rightarrow> 'j table \<Rightarrow> 'j update_plan \<Rightarrow> (nat, tx_state \<times> world) sm" where
  "run_update cf params t p = dml_update tx_ops (cf_fuel cf) (cf_platform cf) params t p"

definition run_delete ::
    "'j sql_config \<Rightarrow> 'j sql_value list \<Rightarrow> 'j table \<Rightarrow> 'j delete_plan \<Rightarrow> (nat, tx_state \<times> world) sm" where
  "run_delete cf params t p = dml_delete tx_ops (cf_fuel cf) (cf_platform cf) params t p"

definition note_insert :: "insert_result \<Rightarrow> 'j sql_engine \<Rightarrow> 'j sql_engine" where
  "note_insert res se =
     se\<lparr>se_last_insert_rowid := ir_last_rowid res, se_changes := i64_of_int (int (ir_count res))\<rparr>"

definition note_changes :: "nat \<Rightarrow> 'j sql_engine \<Rightarrow> 'j sql_engine" where
  "note_changes n se = se\<lparr>se_changes := i64_of_int (int n)\<rparr>"

definition run_create_table ::
    "'j sql_config \<Rightarrow> 'j table \<Rightarrow> bool \<Rightarrow> (nat, 'j sql_engine \<times> world) sm" where
  "run_create_table cf t if_not_exists =
     sm_bind sm_get (\<lambda>se.
     if get_table (se_catalog se) (tb_name t) \<noteq> None then
       (if if_not_exists then sm_return 0
        else sm_fail (ConstraintError (''table '' @ tb_name t @ '' already exists'')))
     else
       sm_bind (with_write cf (sm_pages (\<lambda>s.
           obind (from_storage (btree_create tx_ops s)) (\<lambda>(page, s).
           add_table (cf_platform cf) tx_ops (cf_fuel cf) s (t\<lparr>tb_root_page := page\<rparr>) (se_catalog se))))) (\<lambda>cat.
       sm_bind (sm_modify (\<lambda>se. se\<lparr>se_catalog := cat\<rparr>)) (\<lambda>u. sm_return 0)))"

definition run_create_index :: "'j sql_config \<Rightarrow> index \<Rightarrow> bool \<Rightarrow> (nat, 'j sql_engine \<times> world) sm" where
  "run_create_index cf ix if_not_exists =
     sm_bind sm_get (\<lambda>se.
     if map_of (cg_indexes (se_catalog se)) (to_ascii_lowercase (ix_name ix)) \<noteq> None then
       (if if_not_exists then sm_return 0
        else sm_fail (ConstraintError (''index '' @ ix_name ix @ '' already exists'')))
     else
       sm_bind (with_write cf (sm_return (add_index ix (se_catalog se)))) (\<lambda>cat.
       sm_bind (sm_modify (\<lambda>se. se\<lparr>se_catalog := cat\<rparr>)) (\<lambda>u. sm_return 0)))"

definition run_drop_table :: "'j sql_config \<Rightarrow> string \<Rightarrow> bool \<Rightarrow> (nat, 'j sql_engine \<times> world) sm" where
  "run_drop_table cf name if_exists =
     sm_bind sm_get (\<lambda>se.
     sm_bind (with_write cf (sm_pages (\<lambda>s.
         omap (\<lambda>(dropped, cat, s). ((dropped, cat), s)) (drop_table tx_ops (cf_fuel cf) s name (se_catalog se)))))
       (\<lambda>(dropped, cat).
     sm_bind (sm_modify (\<lambda>se. se\<lparr>se_catalog := cat\<rparr>)) (\<lambda>u.
     if \<not> dropped \<and> \<not> if_exists then sm_fail (NotFoundError (''table `'' @ name @ ''`'')) else sm_return 0)))"

definition run_alter ::
    "'j sql_config \<Rightarrow> string \<Rightarrow> 'j column \<Rightarrow> string \<Rightarrow> (nat, 'j sql_engine \<times> world) sm" where
  "run_alter cf name c new_sql =
     sm_bind sm_get (\<lambda>se.
     sm_bind (with_write cf (sm_pages (\<lambda>s.
         alter_add_column (cf_platform cf) tx_ops (cf_fuel cf) s name c new_sql (se_catalog se)))) (\<lambda>cat.
     sm_bind (sm_modify (\<lambda>se. se\<lparr>se_catalog := cat\<rparr>)) (\<lambda>u. sm_return 0)))"

definition run_one :: "'j sql_config \<Rightarrow> 'j sql_value list \<Rightarrow> statement \<Rightarrow> (nat, 'j sql_engine \<times> world) sm" where
  "run_one cf params st =
     sm_bind (plan_folded cf st params) (\<lambda>pl.
     sm_bind sm_get (\<lambda>se.
     case pl of
       PlQuery p columns \<Rightarrow> run_select cf p params
     | PlInsert p \<Rightarrow>
         sm_bind (sm_lift (clone_table (se_catalog se) (ip_table p))) (\<lambda>t.
         sm_bind (with_write cf (run_insert cf params t p)) (\<lambda>res.
         sm_bind (sm_modify (note_insert res)) (\<lambda>u. sm_return (ir_count res))))
     | PlUpdate p \<Rightarrow>
         sm_bind (sm_lift (clone_table (se_catalog se) (up_table p))) (\<lambda>t.
         sm_bind (with_write cf (run_update cf params t p)) (\<lambda>n.
         sm_bind (sm_modify (note_changes n)) (\<lambda>u. sm_return n)))
     | PlDelete p \<Rightarrow>
         sm_bind (sm_lift (clone_table (se_catalog se) (dp_table p))) (\<lambda>t.
         sm_bind (with_write cf (run_delete cf params t p)) (\<lambda>n.
         sm_bind (sm_modify (note_changes n)) (\<lambda>u. sm_return n)))
     | PlCreateTable t b \<Rightarrow> run_create_table cf t b
     | PlCreateIndex ix b \<Rightarrow> run_create_index cf ix b
     | PlDropTable name b \<Rightarrow> run_drop_table cf name b
     | PlAlterTableAddColumn name c new_sql \<Rightarrow> run_alter cf name c new_sql))"

text \<open>The statements of a text run one after the other; the last one's count is returned.\<close>

fun run_all ::
    "(statement \<Rightarrow> (nat, 't) sm) \<Rightarrow> statement list \<Rightarrow> nat \<Rightarrow> (nat, 't) sm" where
  "run_all run [] affected = sm_return affected"
| "run_all run (st # sts) affected = sm_bind (run st) (run_all run sts)"

definition sql_execute ::
    "'j sql_config \<Rightarrow> string \<Rightarrow> 'j sql_value list \<Rightarrow> (nat, 'j sql_engine \<times> world) sm" where
  "sql_execute cf sql params =
     (case try_parse sql of
        Some p \<Rightarrow>
          (\<lambda>(se, w). omap (\<lambda>(r, e). (0, (se\<lparr>se_storage := e\<rparr>, w))) (run_pragma cf (se_catalog se) p (se_storage se)))
      | None \<Rightarrow> sm_bind (sm_lift (sql_parse (cf_front cf) sql)) (\<lambda>sts. run_all (run_one cf params) sts 0))"

section \<open>Statements inside a transaction\<close>

text \<open>The state is the engine with the open write transaction.\<close>

definition on_tx ::
    "('a, tx_state \<times> world) sm \<Rightarrow> ('a, ('j sql_engine \<times> write_tx) \<times> world) sm" where
  "on_tx m = (\<lambda>((se, tx), w).
     omap (\<lambda>(x, ((e, tx), w)). (x, ((se\<lparr>se_storage := e\<rparr>, tx), w))) (m ((se_storage se, tx), w)))"

definition on_engine ::
    "('a, 'j sql_engine \<times> world) sm \<Rightarrow> ('a, ('j sql_engine \<times> write_tx) \<times> world) sm" where
  "on_engine m = (\<lambda>((se, tx), w). omap (\<lambda>(x, (se, w)). (x, ((se, tx), w))) (m (se, w)))"

definition run_on ::
    "'j sql_config \<Rightarrow> 'j sql_value list \<Rightarrow> statement \<Rightarrow> (nat, ('j sql_engine \<times> write_tx) \<times> world) sm" where
  "run_on cf params st =
     sm_bind (on_engine (plan_folded cf st params)) (\<lambda>pl.
     sm_bind (on_engine sm_get) (\<lambda>se.
     case pl of
       PlInsert p \<Rightarrow>
         sm_bind (sm_lift (clone_table (se_catalog se) (ip_table p))) (\<lambda>t.
         sm_bind (on_tx (run_insert cf params t p)) (\<lambda>res.
         sm_bind (on_engine (sm_modify (note_insert res))) (\<lambda>u. sm_return (ir_count res))))
     | PlUpdate p \<Rightarrow>
         sm_bind (sm_lift (clone_table (se_catalog se) (up_table p))) (\<lambda>t.
         sm_bind (on_tx (run_update cf params t p)) (\<lambda>n.
         sm_bind (on_engine (sm_modify (note_changes n))) (\<lambda>u. sm_return n)))
     | PlDelete p \<Rightarrow>
         sm_bind (sm_lift (clone_table (se_catalog se) (dp_table p))) (\<lambda>t.
         sm_bind (on_tx (run_delete cf params t p)) (\<lambda>n.
         sm_bind (on_engine (sm_modify (note_changes n))) (\<lambda>u. sm_return n)))
     | _ \<Rightarrow> sm_fail (UnsupportedError ''only INSERT/UPDATE/DELETE are allowed inside a transaction'')))"

definition execute_on ::
    "'j sql_config \<Rightarrow> string \<Rightarrow> 'j sql_value list \<Rightarrow> (nat, ('j sql_engine \<times> write_tx) \<times> world) sm" where
  "execute_on cf sql params =
     sm_bind (sm_lift (sql_parse (cf_front cf) sql)) (\<lambda>sts. run_all (run_on cf params) sts 0)"

end
