(* ===== verification/DmlFacts.thy ===== *)
theory DmlFacts
  imports Dml TableStore
begin

text \<open>
  Data modification on the tables of a write transaction. The loops of \<open>dml.rs\<close> over a cursor
  are functions of the rows the table holds, and \<open>DELETE\<close> and \<open>INSERT\<close> change the table as the
  list of its rows says.
\<close>

section \<open>Reading the rows of a table\<close>

definition same_store :: "tx_state \<Rightarrow> tx_state \<Rightarrow> bool" where
  "same_store st s \<longleftrightarrow> tx_inv s \<and> tx_avail s = tx_avail st \<and> tx_view s = tx_view st"

lemma same_store_ok: "same_store st s \<Longrightarrow> store_ok st trees \<Longrightarrow> store_ok s trees"
  by (simp add: same_store_def store_ok_def)

lemma same_store_trans: "same_store st s \<Longrightarrow> same_store s u \<Longrightarrow> same_store st u"
  by (simp add: same_store_def)

definition scan_fuel :: "nat \<Rightarrow> btree \<Rightarrow> bool" where
  "scan_fuel fuel t \<longleftrightarrow> fuel_ok fuel t \<and> leaf_count t \<le> fuel \<and> length (entries t) < fuel"

text \<open>The rows that the records of a table decode to.\<close>

definition holds_rows :: "entry list \<Rightarrow> (i64 \<times> 'j sql_value list) list \<Rightarrow> bool" where
  "holds_rows es rows \<longleftrightarrow> list_all2 (\<lambda>e r. fst r = entry_key e
     \<and> row_decode (entry_key e) (entry_val e) = Ok \<lparr>row_id = entry_key e, row_values = snd r\<rparr>) es rows"

lemma holds_rows_Nil [simp]: "holds_rows [] rows \<longleftrightarrow> rows = []"
  by (simp add: holds_rows_def)

lemma holds_rows_Cons:
  "holds_rows (e # es) rows \<longleftrightarrow> (\<exists>vs rest. rows = (entry_key e, vs) # rest \<and> holds_rows es rest
     \<and> row_decode (entry_key e) (entry_val e) = Ok \<lparr>row_id = entry_key e, row_values = vs\<rparr>)"
  by (auto simp: holds_rows_def list_all2_Cons1)

lemma holds_rows_keys: "holds_rows es rows \<Longrightarrow> map fst rows = map entry_key es"
  by (induction es arbitrary: rows) (auto simp: holds_rows_Cons)

lemma holds_rows_filter:
  "holds_rows es rows \<Longrightarrow> holds_rows (filter (\<lambda>e. P (entry_key e)) es) (filter (\<lambda>r. P (fst r)) rows)"
  by (induction es arbitrary: rows) (auto simp: holds_rows_Cons)

lemma store_seek:
  assumes "store_ok st trees" and "trees p = Some t" and "fuel_ok fuel t"
  shows "\<exists>c st' n. cursor_seek_first tx_ops fuel st p = Ok (c, st') \<and> same_store st st'
    \<and> n < leaf_count t \<and> cursor_rep (tx_view st') fuel c (entries t) n"
proof -
  note t = store_okD [OF assms(1,2)]
  have i: "tx_inv st \<and> tx_avail st = tx_avail st" using t(1) by simp
  have all: "filter (\<lambda>e. i64_of_int i64_min \<le> entry_key e) (entries t) = entries t"
    using int_of_i64_bounds(1) by (auto simp: filter_id_conv less_eq_i64_def int_of_i64_of_int i64_min_def i64_max_def)
  have lo: "i64_min - 1 < int_of_i64 (i64_of_int i64_min)" by (rule i64_in_range)
  from write_tx.keep.cursor_seek_loop_ok [OF i t(4,5) lo assms(3) order.refl, of "[]"]
  show ?thesis
    by (auto simp: cursor_seek_first_def cursor_seek_def same_store_def stack_ok_def all t(2) rest_trees_def trees_entries_def trees_leaves_def)
qed

lemma store_next:
  assumes "tx_inv st" and "cursor_rep (tx_view st) fuel c L n" and "n < m"
  shows "\<exists>st'. same_store st st' \<and>
    (case L of
       [] \<Rightarrow> \<exists>c'. cursor_next tx_ops fuel m st c = Ok (None, c', st')
     | e # L' \<Rightarrow> \<exists>c' n'. cursor_next tx_ops fuel m st c = Ok (Some (entry_key e, entry_val e), c', st')
         \<and> n' \<le> n \<and> cursor_rep (tx_view st') fuel c' L' n')"
proof -
  have i: "tx_inv st \<and> tx_avail st = tx_avail st" using assms(1) by simp
  from write_tx.keep.cursor_next_ok [OF i assms(2,3)]
  show ?thesis by (cases L) (fastforce simp: same_store_def)+
qed

text \<open>The first row that agrees with the values in a unique column.\<close>

fun first_conflict ::
    "nat list \<Rightarrow> 'j sql_value list \<Rightarrow> i64 option \<Rightarrow> (i64 \<times> 'j sql_value list) list \<Rightarrow> (nat \<times> i64) option" where
  "first_conflict cols vs exclude [] = None"
| "first_conflict cols vs exclude ((k, row) # rows) =
     (if Some k = exclude then first_conflict cols vs exclude rows
      else case conflict_at cols vs row of
             Some ci \<Rightarrow> Some (ci, k) | None \<Rightarrow> first_conflict cols vs exclude rows)"

lemma conflict_loop_ok:
  assumes "tx_inv st" and "cursor_rep (tx_view st) fuel c L n" and "n < fuel" and "length L < m"
    and "holds_rows L rows"
  shows "\<exists>st'. conflict_loop tx_ops fuel cols vs exclude m c st = Ok (first_conflict cols vs exclude rows, st')
    \<and> same_store st st'"
  using assms
proof (induction m arbitrary: st c L n rows)
  case (Suc m)
  show ?case
  proof (cases L)
    case Nil
    then show ?thesis using store_next [OF Suc.prems(1-3)] Suc.prems(5) by auto
  next
    case (Cons e L')
    obtain st1 c' n' where x: "cursor_next tx_ops fuel fuel st c = Ok (Some (entry_key e, entry_val e), c', st1)"
      "same_store st st1" "n' \<le> n" "cursor_rep (tx_view st1) fuel c' L' n'"
      using store_next [OF Suc.prems(1-3)] Cons by auto
    obtain vs' rest where r: "rows = (entry_key e, vs') # rest" "holds_rows L' rest"
      "row_decode (entry_key e) (entry_val e) = Ok \<lparr>row_id = entry_key e, row_values = vs'\<rparr>"
      using Suc.prems(5) Cons by (auto simp: holds_rows_Cons)
    have "tx_inv st1" "n' < fuel" "length L' < m" using x(2,3) Suc.prems(3,4) Cons by (auto simp: same_store_def)
    from Suc.IH [OF this(1) x(4) this(2,3) r(2)] obtain st2 where
      "conflict_loop tx_ops fuel cols vs exclude m c' st1 = Ok (first_conflict cols vs exclude rest, st2)" "same_store st1 st2"
      by blast
    with x(1,2) r(1,3) show ?thesis
      by (intro exI [of _ "if Some (entry_key e) \<noteq> exclude \<and> conflict_at cols vs vs' \<noteq> None then st1 else st2"])
        (auto split: option.split intro: same_store_trans)
  qed
qed simp

lemma find_unique_conflict_ok:
  assumes "store_ok st trees" and "trees (tb_root_page t) = Some tr" and "scan_fuel fuel tr"
    and "holds_rows (entries tr) rows" and "unique_cols (tb_rowid_alias t) (tb_columns t) 0 vs = Ok cols"
  shows "\<exists>st'. find_unique_conflict tx_ops fuel t vs exclude st
      = Ok (if cols = [] then None else first_conflict cols vs exclude rows, st') \<and> same_store st st'"
proof (cases "cols = []")
  case True
  then show ?thesis using assms(5) store_okD(1) [OF assms(1,2)] by (simp add: find_unique_conflict_def same_store_def)
next
  case False
  have f: "fuel_ok fuel tr" "leaf_count tr \<le> fuel" "length (entries tr) < fuel" using assms(3) by (auto simp: scan_fuel_def)
  obtain c st1 n where c: "cursor_seek_first tx_ops fuel st (tb_root_page t) = Ok (c, st1)" "same_store st st1"
    "n < leaf_count tr" "cursor_rep (tx_view st1) fuel c (entries tr) n"
    using store_seek [OF assms(1,2) f(1)] by blast
  have "tx_inv st1" "n < fuel" using c(2,3) f(2) by (auto simp: same_store_def)
  from conflict_loop_ok [OF this(1) c(4) this(2) f(3) assms(4), of cols vs exclude] c(1,2) False assms(5)
  show ?thesis by (auto simp: find_unique_conflict_def intro: same_store_trans)
qed

text \<open>A scan keeps the rows that the predicate selects, with the row id in its column.\<close>

lemma scan_loop_ok:
  assumes "tx_inv st" and "cursor_rep (tx_view st) fuel c L n" and "n < fuel" and "length L < m"
    and "holds_rows L rows"
    and "\<And>k vs. (k, vs) \<in> set rows \<Longrightarrow>
      keep_row pf params predicate k (with_alias_set al k vs) w = Ok (sel k vs, w)"
  shows "\<exists>st'. scan_loop tx_ops fuel pf params predicate al m c (st, w)
      = Ok (map (\<lambda>(k, vs). (k, with_alias_set al k vs)) (filter (\<lambda>(k, vs). sel k vs) rows), (st', w))
    \<and> same_store st st'"
  using assms
proof (induction m arbitrary: st c L n rows)
  case (Suc m)
  show ?case
  proof (cases L)
    case Nil
    then show ?thesis using store_next [OF Suc.prems(1-3)] Suc.prems(5)
      by (auto simp: sm_bind_def sm_storage_def sm_return_def)
  next
    case (Cons e L')
    obtain st1 c' n' where x: "cursor_next tx_ops fuel fuel st c = Ok (Some (entry_key e, entry_val e), c', st1)"
      "same_store st st1" "n' \<le> n" "cursor_rep (tx_view st1) fuel c' L' n'"
      using store_next [OF Suc.prems(1-3)] Cons by auto
    obtain vs' rest where r: "rows = (entry_key e, vs') # rest" "holds_rows L' rest"
      "row_decode (entry_key e) (entry_val e) = Ok \<lparr>row_id = entry_key e, row_values = vs'\<rparr>"
      using Suc.prems(5) Cons by (auto simp: holds_rows_Cons)
    have "tx_inv st1" "n' < fuel" "length L' < m" using x(2,3) Suc.prems(3,4) Cons by (auto simp: same_store_def)
    have "\<exists>st2. scan_loop tx_ops fuel pf params predicate al m c' (st1, w)
        = Ok (map (\<lambda>(k, vs). (k, with_alias_set al k vs)) (filter (\<lambda>(k, vs). sel k vs) rest), (st2, w))
      \<and> same_store st1 st2"
      by (rule Suc.IH [OF \<open>tx_inv st1\<close> x(4) \<open>n' < fuel\<close> \<open>length L' < m\<close> r(2)]) (simp add: Suc.prems(6) r(1))
    then obtain st2 where s2: "scan_loop tx_ops fuel pf params predicate al m c' (st1, w)
        = Ok (map (\<lambda>(k, vs). (k, with_alias_set al k vs)) (filter (\<lambda>(k, vs). sel k vs) rest), (st2, w))" "same_store st1 st2"
      by blast
    have k: "keep_row pf params predicate (entry_key e) (with_alias_set al (entry_key e) vs') w = Ok (sel (entry_key e) vs', w)"
      by (rule Suc.prems(6)) (simp add: r(1))
    show ?thesis
      using x(1) r(1,3) s2(1) k same_store_trans [OF x(2) s2(2)]
      by (intro exI [of _ st2]) (simp add: sm_bind_def sm_storage_def sm_return_def sm_lift_def sm_ev_def Let_def)
  qed
qed simp

lemma lookup_key_iff: "lookup es k \<noteq> None \<longleftrightarrow> k \<in> entry_key ` set es"
  by (simp add: lookup_def map_of_eq_None_iff image_image)

section \<open>DELETE\<close>

lemma delete_rows_ok:
  assumes "store_ok st trees" and "trees (tb_root_page t) = Some tr" and "fuel_ok fuel tr"
    and "distinct (map fst ms)" and "fst ` set ms \<subseteq> entry_key ` set (entries tr)"
  shows "\<exists>st' tr'. delete_rows tx_ops fuel t ms n st = Ok (n + length ms, st')
    \<and> store_ok st' (trees(tb_root_page t \<mapsto> tr'))
    \<and> entries tr' = filter (\<lambda>e. entry_key e \<notin> fst ` set ms) (entries tr)"
  using assms
proof (induction ms arbitrary: n st trees tr)
  case Nil
  then show ?case by (intro exI [of _ st] exI [of _ tr]) (simp add: fun_upd_idem)
next
  case (Cons m ms)
  obtain k vs where m: "m = (k, vs)" by (cases m)
  obtain e where e: "e \<in> set (entries tr)" "entry_key e = k" using Cons.prems(5) m by auto
  have there: "lookup (entries tr) k \<noteq> None" unfolding lookup_key_iff using e by blast
  obtain st1 tr1 where d: "btree_delete tx_ops fuel (tb_root_page t) st k = Ok (True, st1)"
    "store_ok st1 (trees(tb_root_page t \<mapsto> tr1))" "entries tr1 = del_entry k (entries tr)" "height tr1 \<le> height tr"
    using store_delete [OF Cons.prems(1-3), of k] there by auto
  have f1: "fuel_ok fuel tr1" using Cons.prems(3) d(3,4) by (auto simp: fuel_ok_def del_entry_def)
  have d1: "distinct (map fst ms)" using Cons.prems(4) by simp
  have s1: "fst ` set ms \<subseteq> entry_key ` set (entries tr1)"
  proof
    fix j assume j: "j \<in> fst ` set ms"
    have "k \<notin> fst ` set ms" using Cons.prems(4) m by simp
    then have "j \<noteq> k" using j by blast
    moreover have "j \<in> entry_key ` set (entries tr)" using j Cons.prems(5) by auto
    ultimately show "j \<in> entry_key ` set (entries tr1)" unfolding d(3) del_entry_def by auto
  qed
  from Cons.IH [OF d(2) fun_upd_same f1 d1 s1, of "Suc n"] obtain st2 tr2 where
    r: "delete_rows tx_ops fuel t ms (Suc n) st1 = Ok (Suc n + length ms, st2)"
      "store_ok st2 (trees(tb_root_page t \<mapsto> tr2))"
      "entries tr2 = filter (\<lambda>e. entry_key e \<notin> fst ` set ms) (entries tr1)"
    by (simp only: fun_upd_upd) blast
  have "entries tr2 = filter (\<lambda>e. entry_key e \<notin> fst ` set (m # ms)) (entries tr)"
    using r(3) d(3) m by (auto simp: del_entry_def intro: filter_cong)
  with r d(1) m show ?case
    by (intro exI [of _ st2] exI [of _ tr2]) (simp add: delete_key_def del: fun_upd_apply)
qed

lemma store_rows_distinct:
  assumes "store_ok st trees" and "trees p = Some tr" and "holds_rows (entries tr) rows"
  shows "distinct (map fst rows)"
  using ordered_entries(1) [OF store_okD(5) [OF assms(1,2)]] holds_rows_keys [OF assms(3)]
  by (auto simp: strict_sorted_iff)

lemma filter_unselected:
  assumes "distinct (map fst rows)"
  shows "filter (\<lambda>r. fst r \<notin> fst ` set (filter P rows)) rows = filter (\<lambda>r. \<not> P r) rows"
  using assms by (intro filter_cong) (auto simp: distinct_map inj_on_def)

text \<open>
  C12. \<open>DELETE\<close> on a table of a write transaction. If the predicate neither fails nor reads
  the world, the statement ends, counts the rows it selects, and afterwards the table holds
  exactly the other rows, with the records they had; other tables are untouched.
\<close>

theorem delete_correct:
  assumes "store_ok st trees" and "trees (tb_root_page t) = Some tr" and "scan_fuel fuel tr"
    and "holds_rows (entries tr) rows"
    and "\<forall>(k, vs)\<in>set rows.
      keep_row pf params (dp_predicate p) k (with_alias_set (tb_rowid_alias t) k vs) w = Ok (sel k vs, w)"
  shows "\<exists>st' tr'. dml_delete tx_ops fuel pf params t p (st, w)
        = Ok (length (filter (\<lambda>(k, vs). sel k vs) rows), (st', w))
    \<and> store_ok st' (trees(tb_root_page t \<mapsto> tr'))
    \<and> holds_rows (entries tr') (filter (\<lambda>(k, vs). \<not> sel k vs) rows)"
proof -
  let ?ms = "map (\<lambda>(k, vs). (k, with_alias_set (tb_rowid_alias t) k vs)) (filter (\<lambda>(k, vs). sel k vs) rows)"
  have f: "fuel_ok fuel tr" "leaf_count tr \<le> fuel" "length (entries tr) < fuel" using assms(3) by (auto simp: scan_fuel_def)
  obtain c st1 n where c: "cursor_seek_first tx_ops fuel st (tb_root_page t) = Ok (c, st1)" "same_store st st1"
    "n < leaf_count tr" "cursor_rep (tx_view st1) fuel c (entries tr) n"
    using store_seek [OF assms(1,2) f(1)] by blast
  have i: "tx_inv st1" "n < fuel" using c(2,3) f(2) by (auto simp: same_store_def)
  have "\<exists>st2. scan_loop tx_ops fuel pf params (dp_predicate p) (tb_rowid_alias t) fuel c (st1, w) = Ok (?ms, (st2, w))
      \<and> same_store st1 st2"
    by (rule scan_loop_ok [OF i(1) c(4) i(2) f(3) assms(4)]) (use assms(5) in auto)
  then obtain st2 where s: "scan_loop tx_ops fuel pf params (dp_predicate p) (tb_rowid_alias t) fuel c (st1, w) = Ok (?ms, (st2, w))"
    "same_store st1 st2" by blast
  have scan: "scan_matching tx_ops fuel pf params t (dp_predicate p) (st, w) = Ok (?ms, (st2, w))"
    using c(1) s(1) by (simp add: scan_matching_def sm_bind_def sm_storage_def)
  have ok: "store_ok st2 trees" using c(2) s(2) assms(1) same_store_ok same_store_trans by blast
  have dis: "distinct (map fst rows)" by (rule store_rows_distinct [OF assms(1,2,4)])
  have fk: "map fst ?ms = map fst (filter (\<lambda>(k, vs). sel k vs) rows)" by (auto simp: case_prod_beta)
  have "distinct (map fst ?ms)" unfolding fk using dis by (rule distinct_map_filter)
  moreover have sub: "fst ` set ?ms = fst ` set (filter (\<lambda>(k, vs). sel k vs) rows)" using fk by (metis set_map)
  moreover have "fst ` set ?ms \<subseteq> entry_key ` set (entries tr)"
    unfolding sub using holds_rows_keys [OF assms(4)] by (metis filter_is_subset image_mono set_map)
  ultimately obtain st3 tr3 where d: "delete_rows tx_ops fuel t ?ms 0 st2 = Ok (length ?ms, st3)"
    "store_ok st3 (trees(tb_root_page t \<mapsto> tr3))"
    "entries tr3 = filter (\<lambda>e. entry_key e \<notin> fst ` set ?ms) (entries tr)"
    using delete_rows_ok [OF ok assms(2) f(1), of ?ms 0] by auto
  have "holds_rows (entries tr3) (filter (\<lambda>(k, vs). \<not> sel k vs) rows)"
    using holds_rows_filter [OF assms(4), of "\<lambda>k. k \<notin> fst ` set ?ms"] filter_unselected [OF dis, of "\<lambda>(k, vs). sel k vs"] d(3)
    unfolding sub by (simp add: case_prod_unfold)
  with scan d show ?thesis
    by (intro exI [of _ st3] exI [of _ tr3]) (simp add: dml_delete_def sm_bind_def sm_pages_def del: fun_upd_apply)
qed

section \<open>INSERT\<close>

text \<open>The row id a row gets: the value of its alias, or one more than the last of the table.\<close>

definition rowid_spec :: "'j table \<Rightarrow> btree \<Rightarrow> 'j sql_value list \<Rightarrow> i64 qres" where
  "rowid_spec t tr vs =
     (let fresh = omap i64_of_int (ck_i64 ((if rightmost tr = [] then 0 else int_of_i64 (entry_key (last (rightmost tr)))) + 1)) in
      case tb_rowid_alias t of
        None \<Rightarrow> fresh
      | Some a \<Rightarrow>
          obind (index_at vs a) (\<lambda>v. if is_null v then fresh
            else ok_or (as_i64 v) (TypeError ''INTEGER PRIMARY KEY must be an integer'')))"

text \<open>What a plain \<open>INSERT\<close> of one row decides: the error, or the row id and the values it stores.\<close>

definition insert_outcome ::
    "'j table \<Rightarrow> btree \<Rightarrow> (i64 \<times> 'j sql_value list) list \<Rightarrow> 'j sql_value list \<Rightarrow> (i64 \<times> 'j sql_value list) qres" where
  "insert_outcome t tr rows vs =
     obind (rowid_spec t tr vs) (\<lambda>k.
     obind (set_alias (tb_rowid_alias t) k vs) (\<lambda>vs.
     obind (check_not_null (tb_name t) (tb_columns t) 0 vs) (\<lambda>u.
     obind (unique_cols (tb_rowid_alias t) (tb_columns t) 0 vs) (\<lambda>cols.
     case (if cols = [] then None else first_conflict cols vs None rows) of
       Some (ci, j) \<Rightarrow> obind (index_at (tb_columns t) ci) (\<lambda>c. Err (constraint_failed ''UNIQUE'' (tb_name t) (co_name c)))
     | None \<Rightarrow>
         if tb_rowid_alias t \<noteq> None \<and> k \<in> fst ` set rows then
           obind (alias_name t) (\<lambda>c. Err (constraint_failed ''UNIQUE'' (tb_name t) c))
         else Ok (k, vs)))))"

lemma choose_rowid_ok:
  assumes "store_ok st trees" and "trees (tb_root_page t) = Some tr" and "fuel_ok fuel tr"
  shows "\<exists>st'. choose_rowid tx_ops fuel t vs st = omap (\<lambda>k. (k, st')) (rowid_spec t tr vs) \<and> same_store st st'"
proof -
  note t = store_okD [OF assms(1,2)]
  have i: "tx_inv st \<and> tx_avail st = tx_avail st" using t(1) by simp
  have "height tr < fuel" using assms(3) by (simp add: fuel_ok_def)
  from write_tx.keep.btree_last_key_ok [OF i t(4) this] obtain st1 where l: "btree_last_key tx_ops fuel (tb_root_page t) st
      = Ok (if rightmost tr = [] then None else Some (entry_key (last (rightmost tr))), st1)" "same_store st st1"
    unfolding t(2) same_store_def by blast
  have n: "next_rowid tx_ops fuel t st
      = omap (\<lambda>k. (k, st1)) (omap i64_of_int (ck_i64 ((if rightmost tr = [] then 0 else int_of_i64 (entry_key (last (rightmost tr)))) + 1)))"
    using l(1) by (simp add: next_rowid_def ck_i64_def)
  have r: "same_store st st" using t(1) by (simp add: same_store_def)
  show ?thesis
  proof (cases "tb_rowid_alias t")
    case None
    then show ?thesis using n l(2) by (intro exI [of _ st1]) (simp add: choose_rowid_def rowid_spec_def Let_def)
  next
    case (Some a)
    show ?thesis
    proof (cases "a < length vs \<and> \<not> is_null (vs ! a)")
      case True
      then show ?thesis using Some r
        by (intro exI [of _ st]) (simp add: choose_rowid_def rowid_spec_def index_at_def ok_or_def split: option.split)
    next
      case False
      then show ?thesis using Some n l(2)
        by (intro exI [of _ st1]) (auto simp: choose_rowid_def rowid_spec_def index_at_def Let_def)
    qed
  qed
qed

lemma row_exists_ok:
  assumes "store_ok st trees" and "trees (tb_root_page t) = Some tr" and "fuel_ok fuel tr"
    and "holds_rows (entries tr) rows"
  shows "\<exists>st'. row_exists tx_ops fuel t k st = Ok (k \<in> fst ` set rows, st') \<and> same_store st st'"
proof -
  note t = store_okD [OF assms(1,2)]
  have i: "tx_inv st \<and> tx_avail st = tx_avail st" using t(1) by simp
  from write_tx.keep.btree_get_ok [OF i t(4,5) i64_in_range(1) assms(3), of k]
  obtain st1 where g: "btree_get tx_ops fuel (tb_root_page t) st k = Ok (lookup (entries tr) k, st1)" "same_store st st1"
    unfolding t(2) same_store_def by blast
  have "fst ` set rows = entry_key ` set (entries tr)" using holds_rows_keys [OF assms(4)] by (metis set_map)
  then have "lookup (entries tr) k \<noteq> None \<longleftrightarrow> k \<in> fst ` set rows" by (simp only: lookup_key_iff)
  with g show ?thesis by (intro exI [of _ st1]) (simp add: row_exists_def)
qed

text \<open>Up to the store of the row, a plain \<open>INSERT\<close> decides as \<open>insert_outcome\<close> says.\<close>

lemma insert_values_ok:
  assumes "store_ok st trees" and "trees (tb_root_page t) = Some tr" and "scan_fuel fuel tr"
    and "holds_rows (entries tr) rows"
  shows "\<exists>st'. same_store st st' \<and> insert_values tx_ops fuel pf t False vs st =
    obind (insert_outcome t tr rows vs) (\<lambda>(k, vs). obind (store_row tx_ops fuel pf t k vs st') (\<lambda>(u, s). Ok (k, s)))"
proof -
  have f: "fuel_ok fuel tr" using assms(3) by (simp add: scan_fuel_def)
  obtain st1 where c: "choose_rowid tx_ops fuel t vs st = omap (\<lambda>k. (k, st1)) (rowid_spec t tr vs)" "same_store st st1"
    using choose_rowid_ok [OF assms(1,2) f] by blast
  have ok1: "store_ok st1 trees" by (rule same_store_ok [OF c(2) assms(1)])
  note defs = insert_values_def insert_outcome_def
  show ?thesis
  proof (cases "rowid_spec t tr vs")
    case k: (Ok k)
    show ?thesis
    proof (cases "set_alias (tb_rowid_alias t) k vs :: 'a sql_value list qres")
      case v: (Ok vs')
      show ?thesis
      proof (cases "check_not_null (tb_name t) (tb_columns t) 0 vs'")
        case n: (Ok u)
        show ?thesis
        proof (cases "unique_cols (tb_rowid_alias t) (tb_columns t) 0 vs'")
          case cols: (Ok cols)
          let ?c = "if cols = [] then None else first_conflict cols vs' None rows"
          obtain st2 where q: "find_unique_conflict tx_ops fuel t vs' None st1 = Ok (?c, st2)" "same_store st1 st2"
            using find_unique_conflict_ok [OF ok1 assms(2-4) cols, of None] by blast
          have ok2: "store_ok st2 trees" by (rule same_store_ok [OF q(2) ok1])
          obtain st3 where r: "row_exists tx_ops fuel t k st2 = Ok (k \<in> fst ` set rows, st3)" "same_store st2 st3"
            using row_exists_ok [OF ok2 assms(2) f assms(4)] by blast
          have s: "same_store st st3" using c(2) q(2) r(2) same_store_trans by blast
          show ?thesis
          proof (cases ?c)
            case None
            have u: "clear_unique tx_ops fuel t False vs' st1 = Ok ((), st2)" using q(1) None by (simp add: clear_unique_def)
            have "clear_rowid tx_ops fuel t False k st2 = (if tb_rowid_alias t \<noteq> None \<and> k \<in> fst ` set rows
                then obind (alias_name t) (\<lambda>c. Err (constraint_failed ''UNIQUE'' (tb_name t) c)) else Ok ((), st3))"
              using r(1) by (auto simp: clear_rowid_def)
            with u s k v n cols c(1) None show ?thesis
              by (intro exI [of _ st3]) (simp add: defs obind_assoc)
          next
            case (Some x)
            then obtain ci j where x: "?c = Some (ci, j)" by (cases x) simp
            have u: "clear_unique tx_ops fuel t False vs' st1
                = obind (index_at (tb_columns t) ci) (\<lambda>c. Err (constraint_failed ''UNIQUE'' (tb_name t) (co_name c)))"
              using q(1) x by (simp add: clear_unique_def)
            with x s k v n cols c(1) show ?thesis
              by (intro exI [of _ st3]) (simp add: defs obind_assoc)
          qed
        qed (rule exI [of _ st1], use c k v n in \<open>simp add: defs clear_unique_def find_unique_conflict_def\<close>)+
      qed (rule exI [of _ st1], use c k v in \<open>simp add: defs clear_unique_def find_unique_conflict_def\<close>)+
    qed (rule exI [of _ st1], use c k in \<open>simp add: defs clear_unique_def find_unique_conflict_def\<close>)+
  qed (rule exI [of _ st1], use c in \<open>simp add: defs clear_unique_def find_unique_conflict_def\<close>)+
qed

text \<open>
  C10. \<open>INSERT\<close> (not \<open>OR REPLACE\<close>) of one row into a table of a write transaction: if the constraints accept the
  values, the statement stores the record under the row id it returns; every other row and every
  other table is as before, and the row id of an \<open>INTEGER PRIMARY KEY\<close> was free. The rows are small: of the
  new record at most 490 bytes stay in the leaf, no stored cell takes more than 512 bytes, and there are free
  pages. A larger row may need a split that overflows its page.
\<close>

theorem insert_correct:
  assumes "store_ok st trees" and "trees (tb_root_page t) = Some tr" and "scan_fuel fuel tr"
    and "holds_rows (entries tr) rows" and "insert_outcome t tr rows vs = Ok (k, vs')"
    and "row_encode pf \<lparr>row_id = k, row_values = with_alias_nulled vs' (tb_rowid_alias t)\<rparr> = (Ok data :: bytes qres)"
    and "small_record data" and "insert_pages tr data \<le> card (tx_avail st)"
  shows "\<exists>st' tr'. insert_values tx_ops fuel pf t False vs st = Ok (k, st')
    \<and> store_ok st' (trees(tb_root_page t \<mapsto> tr'))
    \<and> lookup (entries tr') = (lookup (entries tr))(k \<mapsto> data)
    \<and> (tb_rowid_alias t \<noteq> None \<longrightarrow> lookup (entries tr) k = None)"
proof -
  have f: "fuel_ok fuel tr" using assms(3) by (simp add: scan_fuel_def)
  obtain st1 where i: "same_store st st1"
    "insert_values tx_ops fuel pf t False vs st = obind (store_row tx_ops fuel pf t k vs' st1) (\<lambda>(u, s). Ok (k, s))"
    using insert_values_ok [OF assms(1-4), of pf vs] assms(5) by auto
  have ok1: "store_ok st1 trees" by (rule same_store_ok [OF i(1) assms(1)])
  have "insert_pages tr data \<le> card (tx_avail st1)" using i(1) assms(8) by (simp add: same_store_def)
  from store_insert [OF ok1 assms(2) f assms(7) this, of k] obtain st2 tr2 e where
    r: "btree_insert tx_ops fuel (tb_root_page t) st1 k data = Ok st2" "store_ok st2 (trees(tb_root_page t \<mapsto> tr2))"
      "entries tr2 = ins_entry e (entries tr)" "entry_key e = k" "entry_val e = data" by blast
  have "store_row tx_ops fuel pf t k vs' st1 = Ok ((), st2)" using r(1) assms(6) by (simp add: store_row_def)
  moreover have "lookup (entries tr2) = (lookup (entries tr))(k \<mapsto> data)"
    using r(3-5) lookup_ins by fastforce
  moreover have "lookup (entries tr) k = None" if "tb_rowid_alias t \<noteq> None"
  proof -
    have "k \<notin> fst ` set rows" using assms(5) that by (auto simp: insert_outcome_def obind_eq_Ok split: option.splits if_splits)
    moreover have "fst ` set rows = entry_key ` set (entries tr)" using holds_rows_keys [OF assms(4)] by (metis set_map)
    ultimately show ?thesis using lookup_key_iff [of "entries tr" k] by blast
  qed
  ultimately show ?thesis using i(2) r(2) by (intro exI [of _ st2] exI [of _ tr2]) (simp del: fun_upd_apply)
qed

text \<open>
  C17. A row that breaks a constraint is refused: a plain \<open>INSERT\<close> returns the error that the values, the
  schema and the rows of the table determine, and never a state.
\<close>

theorem insert_rejects:
  assumes "store_ok st trees" and "trees (tb_root_page t) = Some tr" and "scan_fuel fuel tr"
    and "holds_rows (entries tr) rows" and "insert_outcome t tr rows vs = Err e"
  shows "insert_values tx_ops fuel pf t False vs st = Err e"
  using insert_values_ok [OF assms(1-4), of pf vs] assms(5) by auto

section \<open>Constraints\<close>

lemma check_not_null_ok:
  "check_not_null tname cs i vs = Ok u \<Longrightarrow> j < length cs \<Longrightarrow> co_not_null (cs ! j) \<Longrightarrow>
   i + j < length vs \<and> \<not> is_null (vs ! (i + j))"
proof (induction cs arbitrary: i j)
  case (Cons c cs)
  have rest: "check_not_null tname cs (i + 1) vs = Ok u"
    using Cons.prems(1) by (auto simp: obind_eq_Ok split: if_splits)
  show ?case
  proof (cases j)
    case 0
    then show ?thesis using Cons.prems by (auto simp: obind_eq_Ok omap_def index_at_def split: if_splits)
  next
    case (Suc j')
    then show ?thesis using Cons.IH [OF rest, of j'] Cons.prems(2,3) by simp
  qed
qed simp

lemma unique_cols_ok:
  "unique_cols al cs i vs = Ok cols \<Longrightarrow> j < length cs \<Longrightarrow> co_unique (cs ! j) \<Longrightarrow> al \<noteq> Some (i + j) \<Longrightarrow>
   \<not> is_null (vs ! (i + j)) \<Longrightarrow> i + j \<in> set cols"
proof (induction cs arbitrary: i j cols)
  case (Cons c cs)
  obtain b rest where rest: "unique_cols al cs (i + 1) vs = Ok rest" "cols = (if b then i # rest else rest)"
    using Cons.prems(1) by (auto simp: obind_eq_Ok)
  then have sub: "set rest \<subseteq> set cols" by auto
  show ?case
  proof (cases j)
    case 0
    then show ?thesis using Cons.prems by (auto simp: obind_eq_Ok omap_def index_at_def split: if_splits)
  next
    case (Suc j')
    have "i + 1 + j' \<in> set rest" by (rule Cons.IH [OF rest(1)]) (use Cons.prems Suc in auto)
    then show ?thesis using sub Suc by auto
  qed
qed simp

lemma first_conflict_None:
  "first_conflict cols vs None rows = None \<Longrightarrow> (k, row) \<in> set rows \<Longrightarrow> ci \<in> set cols \<Longrightarrow> ci < length row \<Longrightarrow>
   \<not> value_eq (row ! ci) (vs ! ci)"
  by (induction rows) (auto simp: conflict_at_def find_None_iff split: option.splits prod.splits)

lemma from_storage_OkE: "from_storage r = Ok x \<Longrightarrow> (r = Ok x \<Longrightarrow> P) \<Longrightarrow> P"
  by (cases r) simp_all

lemma insert_outcome_stored:
  assumes "insert_outcome t tr rows vs = Ok (k, vs')"
  shows "vs' = with_alias_set (tb_rowid_alias t) k vs"
    and "tb_rowid_alias t \<noteq> None \<Longrightarrow> k \<notin> fst ` set rows"
  using assms by (auto simp: insert_outcome_def obind_eq_Ok set_alias_def put_at_def with_alias_set_def
      split: option.splits if_splits)

lemma insert_outcome_constraints:
  assumes "insert_outcome t tr rows vs = Ok (k, vs')" and "i < length (tb_columns t)"
  shows "(co_not_null (tb_columns t ! i) \<longrightarrow> i < length vs' \<and> \<not> is_null (vs' ! i))
    \<and> (co_unique (tb_columns t ! i) \<and> tb_rowid_alias t \<noteq> Some i \<and> \<not> is_null (vs' ! i)
        \<longrightarrow> (\<forall>(j, row)\<in>set rows. i < length row \<longrightarrow> \<not> value_eq (row ! i) (vs' ! i)))"
proof -
  obtain u cols where x: "check_not_null (tb_name t) (tb_columns t) 0 vs' = Ok u"
    "unique_cols (tb_rowid_alias t) (tb_columns t) 0 vs' = Ok cols" "cols \<noteq> [] \<longrightarrow> first_conflict cols vs' None rows = None"
    using assms(1) unfolding insert_outcome_def
    by (force simp: obind_eq_Ok not_Some_eq [symmetric] simp del: not_Some_eq split: option.splits if_splits)
  have "i \<in> set cols" if "co_unique (tb_columns t ! i)" "tb_rowid_alias t \<noteq> Some i" "\<not> is_null (vs' ! i)"
    using unique_cols_ok [OF x(2) assms(2)] that by simp
  then show ?thesis
    using check_not_null_ok [OF x(1) assms(2)] first_conflict_None [of cols vs' rows _ _ i] x(3) by fastforce
qed

text \<open>
  C13. When a plain \<open>INSERT\<close> of one row succeeds, the row whose record it writes to the table's b-tree
  satisfies the constraints: no \<open>NOT NULL\<close> column is NULL, no row of the table has an equal value in a
  \<open>UNIQUE\<close> column other than the row id's, unless that value is NULL, and with an
  \<open>INTEGER PRIMARY KEY\<close> the row id is one that no row had.
\<close>

theorem insert_keeps_constraints:
  assumes "store_ok st trees" and "trees (tb_root_page t) = Some tr" and "scan_fuel fuel tr"
    and "holds_rows (entries tr) rows" and "insert_values tx_ops fuel pf t False vs st = Ok (k, st')"
  shows "\<exists>s data. same_store st s \<and> btree_insert tx_ops fuel (tb_root_page t) s k data = Ok st'
    \<and> (row_encode pf \<lparr>row_id = k, row_values = with_alias_nulled (with_alias_set (tb_rowid_alias t) k vs) (tb_rowid_alias t)\<rparr>
        :: bytes qres) = Ok data
    \<and> (\<forall>i<length (tb_columns t). let v = with_alias_set (tb_rowid_alias t) k vs ! i; c = tb_columns t ! i in
        (co_not_null c \<longrightarrow> i < length vs \<and> \<not> is_null v)
      \<and> (co_unique c \<and> tb_rowid_alias t \<noteq> Some i \<and> \<not> is_null v
          \<longrightarrow> (\<forall>(j, row)\<in>set rows. i < length row \<longrightarrow> \<not> value_eq (row ! i) v)))
    \<and> (tb_rowid_alias t \<noteq> None \<longrightarrow> (\<forall>(j, row)\<in>set rows. j \<noteq> k))"
proof -
  obtain s vs' where o: "same_store st s" "insert_outcome t tr rows vs = Ok (k, vs')"
    "store_row tx_ops fuel pf t k vs' s = Ok ((), st')"
  proof -
    obtain s where s: "same_store st s" "insert_values tx_ops fuel pf t False vs st =
        obind (insert_outcome t tr rows vs) (\<lambda>(k, vs). obind (store_row tx_ops fuel pf t k vs s) (\<lambda>(u, s). Ok (k, s)))"
      using insert_values_ok [OF assms(1-4)] by blast
    have "obind (insert_outcome t tr rows vs) (\<lambda>(k, vs). obind (store_row tx_ops fuel pf t k vs s) (\<lambda>(u, s). Ok (k, s)))
        = Ok (k, st')" using s(2) assms(5) by (simp only:)
    then obtain k0 vs0 p where p: "insert_outcome t tr rows vs = Ok (k0, vs0)"
      "store_row tx_ops fuel pf t k0 vs0 s = Ok p" "k0 = k" "snd p = st'" by (fastforce simp: obind_eq_Ok)
    have "p = ((), st')" using p(4) by (cases p) simp
    then show thesis using that [OF s(1), of vs0] p by simp
  qed
  note v = insert_outcome_stored [OF o(2)] and c = insert_outcome_constraints [OF o(2)]
  have len: "length vs' = length vs" unfolding v(1) by (simp add: with_alias_set_def split: option.split)
  obtain data where d: "(row_encode pf \<lparr>row_id = k, row_values = with_alias_nulled vs' (tb_rowid_alias t)\<rparr> :: bytes qres) = Ok data"
    "btree_insert tx_ops fuel (tb_root_page t) s k data = Ok st'"
    using o(3) by (auto simp: store_row_def obind_eq_Ok elim: from_storage_OkE)
  have "\<forall>i<length (tb_columns t). let v = vs' ! i; c = tb_columns t ! i in
        (co_not_null c \<longrightarrow> i < length vs \<and> \<not> is_null v)
      \<and> (co_unique c \<and> tb_rowid_alias t \<noteq> Some i \<and> \<not> is_null v
          \<longrightarrow> (\<forall>(j, row)\<in>set rows. i < length row \<longrightarrow> \<not> value_eq (row ! i) v))"
    using c len by (simp add: Let_def)
  moreover have "tb_rowid_alias t \<noteq> None \<longrightarrow> (\<forall>(j, row)\<in>set rows. j \<noteq> k)" using v(2) by force
  ultimately show ?thesis using o(1) d unfolding v(1) by blast
qed

section \<open>UPDATE\<close>

text \<open>What the update of one row decides: the error, or nothing if the row may be stored.\<close>

definition update_outcome ::
    "'j table \<Rightarrow> (i64 \<times> 'j sql_value list) list \<Rightarrow> i64 \<Rightarrow> i64 \<Rightarrow> 'j sql_value list \<Rightarrow> unit qres" where
  "update_outcome t rows rowid new_rowid vs =
     obind (check_not_null (tb_name t) (tb_columns t) 0 vs) (\<lambda>u.
     obind (unique_cols (tb_rowid_alias t) (tb_columns t) 0 vs) (\<lambda>cols.
     case (if cols = [] then None else first_conflict cols vs (Some rowid) rows) of
       Some (ci, j) \<Rightarrow> obind (index_at (tb_columns t) ci) (\<lambda>c. Err (constraint_failed ''UNIQUE'' (tb_name t) (co_name c)))
     | None \<Rightarrow>
         if new_rowid \<noteq> rowid \<and> new_rowid \<in> fst ` set rows then
           obind (alias_name t) (\<lambda>c. Err (constraint_failed ''UNIQUE'' (tb_name t) c))
         else Ok ()))"

text \<open>Up to the change of the table, the update of a row decides as \<open>update_outcome\<close> says.\<close>

lemma update_values_ok:
  assumes "store_ok st trees" and "trees (tb_root_page t) = Some tr" and "scan_fuel fuel tr"
    and "holds_rows (entries tr) rows"
  shows "\<exists>st'. same_store st st' \<and> update_values tx_ops fuel pf t rowid new_rowid vs st =
    obind (update_outcome t rows rowid new_rowid vs) (\<lambda>u.
    obind (if new_rowid \<noteq> rowid then omap snd (delete_key tx_ops fuel t rowid st') else Ok st') (\<lambda>s.
    store_row tx_ops fuel pf t new_rowid vs s))"
proof -
  have f: "fuel_ok fuel tr" using assms(3) by (simp add: scan_fuel_def)
  have r: "same_store st st" using store_okD(1) [OF assms(1,2)] by (simp add: same_store_def)
  note defs = update_values_def update_outcome_def
  show ?thesis
  proof (cases "check_not_null (tb_name t) (tb_columns t) 0 vs")
    case n: (Ok u)
    show ?thesis
    proof (cases "unique_cols (tb_rowid_alias t) (tb_columns t) 0 vs")
      case cols: (Ok cols)
      let ?c = "if cols = [] then None else first_conflict cols vs (Some rowid) rows"
      obtain st2 where q: "find_unique_conflict tx_ops fuel t vs (Some rowid) st = Ok (?c, st2)" "same_store st st2"
        using find_unique_conflict_ok [OF assms cols, of "Some rowid"] by blast
      have ok2: "store_ok st2 trees" by (rule same_store_ok [OF q(2) assms(1)])
      obtain st3 where x: "row_exists tx_ops fuel t new_rowid st2 = Ok (new_rowid \<in> fst ` set rows, st3)" "same_store st2 st3"
        using row_exists_ok [OF ok2 assms(2) f assms(4)] by blast
      have s: "same_store st st3" using q(2) x(2) same_store_trans by blast
      show ?thesis
      proof (cases ?c)
        case None
        show ?thesis
        proof (cases "new_rowid = rowid")
          case True
          then show ?thesis using q n cols None by (intro exI [of _ st2]) (simp add: defs)
        next
          case False
          then show ?thesis using q n cols None x s
            by (intro exI [of _ st3]) (auto simp: defs obind_assoc)
        qed
      next
        case (Some y)
        then obtain ci j where y: "?c = Some (ci, j)" by (cases y) simp
        with q n cols show ?thesis by (intro exI [of _ st2]) (simp add: defs obind_assoc)
      qed
    qed (rule exI [of _ st], use n r in \<open>simp add: defs find_unique_conflict_def\<close>)+
  qed (rule exI [of _ st], use r in \<open>simp add: defs\<close>)+
qed

text \<open>A row that changes its row id leaves its old place, and frees room rather than taking it.\<close>

lemma remove_old_ok:
  assumes "store_ok st trees" and "trees (tb_root_page t) = Some tr" and "fuel_ok fuel tr"
    and "insert_pages tr data \<le> card (tx_avail st)"
  shows "\<exists>st' tr'. (if new_rowid \<noteq> rowid then omap snd (delete_key tx_ops fuel t rowid st) else Ok st) = Ok st'
    \<and> store_ok st' (trees(tb_root_page t \<mapsto> tr')) \<and> fuel_ok fuel tr' \<and> insert_pages tr' data \<le> card (tx_avail st')
    \<and> lookup (entries tr') = (if new_rowid = rowid then lookup (entries tr) else (lookup (entries tr))(rowid := None))"
proof (cases "new_rowid = rowid")
  case True
  then show ?thesis using assms by (intro exI [of _ st] exI [of _ tr]) (simp add: fun_upd_idem)
next
  case False
  obtain st2 tr2 where q: "btree_delete tx_ops fuel (tb_root_page t) st rowid = Ok (lookup (entries tr) rowid \<noteq> None, st2)"
    "store_ok st2 (trees(tb_root_page t \<mapsto> tr2))" "entries tr2 = del_entry rowid (entries tr)" "height tr2 \<le> height tr"
    "tx_avail st \<subseteq> tx_avail st2"
    using store_delete [OF assms(1-3), of rowid] by blast
  have "fuel_ok fuel tr2" using assms(3) q(3,4) by (auto simp: fuel_ok_def del_entry_def)
  moreover have "insert_pages tr2 data \<le> card (tx_avail st2)"
    using assms(4) q(4) card_mono [OF _ q(5)] by (simp add: insert_pages_def)
  moreover have "lookup (entries tr2) = (lookup (entries tr))(rowid := None)"
    unfolding q(3) using lookup_del by fastforce
  ultimately show ?thesis using False q(1,2)
    by (intro exI [of _ st2] exI [of _ tr2]) (simp add: delete_key_def del: fun_upd_apply)
qed

text \<open>
  C11. \<open>UPDATE\<close> of one row in a table of a write transaction. If the constraints accept the
  new values, the row is stored under its new row id and no longer under the old one; every other
  row and every other table is as before, and a row id that the row moves to was free. The rows are small: of
  the new record at most 490 bytes stay in the leaf, no stored cell takes more than 512 bytes, and there are
  free pages. A larger record may need a split that overflows its page.
\<close>

theorem update_correct:
  assumes "store_ok st trees" and "trees (tb_root_page t) = Some tr" and "scan_fuel fuel tr"
    and "holds_rows (entries tr) rows" and "update_outcome t rows rowid new_rowid vs = Ok ()"
    and "row_encode pf \<lparr>row_id = new_rowid, row_values = with_alias_nulled vs (tb_rowid_alias t)\<rparr> = (Ok data :: bytes qres)"
    and "small_record data" and "insert_pages tr data \<le> card (tx_avail st)"
  shows "\<exists>st' tr'. update_values tx_ops fuel pf t rowid new_rowid vs st = Ok ((), st')
    \<and> store_ok st' (trees(tb_root_page t \<mapsto> tr'))
    \<and> lookup (entries tr') = (lookup (entries tr))(rowid := None, new_rowid \<mapsto> data)
    \<and> (new_rowid \<noteq> rowid \<longrightarrow> lookup (entries tr) new_rowid = None)"
proof -
  have f: "fuel_ok fuel tr" using assms(3) by (simp add: scan_fuel_def)
  obtain st1 where i: "same_store st st1" "update_values tx_ops fuel pf t rowid new_rowid vs st =
      obind (if new_rowid \<noteq> rowid then omap snd (delete_key tx_ops fuel t rowid st1) else Ok st1) (\<lambda>s.
        store_row tx_ops fuel pf t new_rowid vs s)"
    using update_values_ok [OF assms(1-4), of pf rowid new_rowid vs] assms(5) by auto
  have ok1: "store_ok st1 trees" by (rule same_store_ok [OF i(1) assms(1)])
  have room: "insert_pages tr data \<le> card (tx_avail st1)" using i(1) assms(8) by (simp add: same_store_def)
  obtain st2 tr2 where d: "(if new_rowid \<noteq> rowid then omap snd (delete_key tx_ops fuel t rowid st1) else Ok st1) = Ok st2"
    "store_ok st2 (trees(tb_root_page t \<mapsto> tr2))" "fuel_ok fuel tr2" "insert_pages tr2 data \<le> card (tx_avail st2)"
    "lookup (entries tr2) = (if new_rowid = rowid then lookup (entries tr) else (lookup (entries tr))(rowid := None))"
    using remove_old_ok [OF ok1 assms(2) f room] by blast
  from store_insert [OF d(2) fun_upd_same d(3) assms(7) d(4), of new_rowid] obtain st3 tr3 e where
    r: "btree_insert tx_ops fuel (tb_root_page t) st2 new_rowid data = Ok st3"
      "store_ok st3 ((trees(tb_root_page t \<mapsto> tr2))(tb_root_page t \<mapsto> tr3))"
      "entries tr3 = ins_entry e (entries tr2)" "entry_key e = new_rowid" "entry_val e = data" by blast
  have "store_row tx_ops fuel pf t new_rowid vs st2 = Ok ((), st3)" using r(1) assms(6) by (simp add: store_row_def)
  moreover have "lookup (entries tr3) = (lookup (entries tr2))(new_rowid \<mapsto> data)"
    using r(3-5) lookup_ins by fastforce
  then have "lookup (entries tr3) = (lookup (entries tr))(rowid := None, new_rowid \<mapsto> data)"
    using d(5) by auto
  moreover have "lookup (entries tr) new_rowid = None" if "new_rowid \<noteq> rowid"
  proof -
    have "new_rowid \<notin> fst ` set rows"
      using assms(5) that by (auto simp: update_outcome_def obind_eq_Ok split: option.splits if_splits)
    moreover have "fst ` set rows = entry_key ` set (entries tr)" using holds_rows_keys [OF assms(4)] by (metis set_map)
    ultimately show ?thesis using lookup_key_iff [of "entries tr" new_rowid] by blast
  qed
  ultimately show ?thesis using i(2) d(1) r(2) [unfolded fun_upd_upd]
    by (intro exI [of _ st3] exI [of _ tr3]) (simp del: fun_upd_apply)
qed

text \<open>
  C40. The assignments of one \<open>UPDATE\<close> see each other, although they should all see the old row:
  \<open>SET a = b, b = a\<close> does not exchange the two columns but makes both the old \<open>b\<close>.
\<close>

theorem update_does_not_swap:
  assumes "tb_columns t = [c, d]" and "tb_rowid_alias t = None"
    and "coerce_to pf y (co_sql_type c) = Ok y" and "coerce_to pf y (co_sql_type d) = Ok y"
  shows "apply_assignments pf params t rowid [(0, EColumn 1), (1, EColumn 0)] [x, y] rowid w = Ok (([y, y], rowid), w)"
  using assms by (simp add: ev_bind_def ev_lift_def ev_return_def index_at_def put_at_def ok_or_def get_def)

text \<open>
  A row written before \<open>ALTER TABLE ADD COLUMN\<close> is short, and \<open>UPDATE\<close> does not pad it: assigning to
  the new column panics.
\<close>

lemma update_short_row_panics:
  assumes "length vs < length (tb_columns t)" and "tb_rowid_alias t \<noteq> Some (length vs)"
    and "coerce_to pf v (co_sql_type (tb_columns t ! length vs)) = Ok v'"
  shows "apply_assignments pf params t rowid [(length vs, ELiteral v)] vs rowid w = Panic"
  using assms by (simp add: ev_bind_def ev_lift_def ev_return_def index_at_def put_at_def)

section \<open>Examples\<close>

definition demo_table :: "unit table" where
  "demo_table = \<lparr>tb_name = ''t'', tb_columns =
     [\<lparr>co_name = ''id'', co_decl_type = ''INTEGER'', co_sql_type = TyInteger, co_not_null = False, co_primary_key = True,
        co_unique = False, co_default = None\<rparr>,
      \<lparr>co_name = ''name'', co_decl_type = ''TEXT'', co_sql_type = TyText, co_not_null = True, co_primary_key = False,
        co_unique = True, co_default = None\<rparr>],
     tb_root_page = 1, tb_rowid_alias = Some 0, tb_sql = []\<rparr>"

definition demo_record :: bytes where
  "demo_record = [3, 0, 15, 97]"

lemma demo_decode:
  "(row_decode (i64_of_int 7) demo_record :: unit row qres) = Ok \<lparr>row_id = i64_of_int 7, row_values = [VNull, VText ''a'']\<rparr>"
  unfolding demo_record_def by code_simp

lemma demo_encode:
  "(row_encode test_platform \<lparr>row_id = i64_of_int 7, row_values = [VNull, VText ''a'']\<rparr> :: bytes qres) = Ok demo_record"
  unfolding demo_record_def by code_simp

lemma demo_outcome:
  "insert_outcome demo_table (TLeaf 1 []) [] [VInteger (i64_of_int 7), VText ''a'']
     = Ok (i64_of_int 7, [VInteger (i64_of_int 7), VText ''a''])"
  "insert_outcome demo_table (TLeaf 1 []) [] [VInteger (i64_of_int 7), VNull]
     = Err (ConstraintError ''NOT NULL constraint failed: t.name'')"
  by (simp_all add: insert_outcome_def rowid_spec_def demo_table_def index_at_def ok_or_def set_alias_def put_at_def
      constraint_failed_def)

lemma demo_scan: "scan_fuel 2 (TLeaf 1 [])"
  by (simp add: scan_fuel_def fuel_ok_def)

theorem insert_correct_witness:
  "\<exists>e tx e' st. engine_open [] [] = Ok e \<and> begin_write e = Ok (tx, e')
    \<and> insert_values tx_ops 2 test_platform demo_table False [VInteger (i64_of_int 7), VText ''a''] (e', tx) = Ok (i64_of_int 7, st)"
proof -
  obtain e tx e' where f: "engine_open [] [] = Ok e" "begin_write e = Ok (tx, e')" "store_ok (e', tx) [1 \<mapsto> TLeaf 1 []]"
    "tx_avail (e', tx) = {p. 1 < p}" using fresh_writer by blast
  have t: "[1 \<mapsto> TLeaf 1 []] (tb_root_page demo_table) = Some (TLeaf 1 [])" by (simp add: demo_table_def)
  have enc: "(row_encode test_platform \<lparr>row_id = i64_of_int 7, row_values =
      with_alias_nulled [VInteger (i64_of_int 7), VText ''a''] (tb_rowid_alias demo_table)\<rparr> :: bytes qres) = Ok demo_record"
    using demo_encode by (simp add: demo_table_def with_alias_nulled_def)
  have small: "small_record demo_record" unfolding demo_record_def by (rule small_record_short) simp
  have room: "insert_pages (TLeaf 1 []) demo_record \<le> card (tx_avail (e', tx))"
    unfolding f(4) by (rule fresh_room) (simp add: demo_record_def insert_pages_def overflow_pages_def USABLE_def PAGE_SIZE_def)
  have "holds_rows (entries (TLeaf 1 [])) []" by simp
  from insert_correct [OF f(3) t demo_scan this demo_outcome(1) enc small room] f(1,2) show ?thesis by auto
qed

theorem insert_rejects_witness:
  "\<exists>e tx e'. engine_open [] [] = Ok e \<and> begin_write e = Ok (tx, e')
    \<and> insert_values tx_ops 2 test_platform demo_table False [VInteger (i64_of_int 7), VNull] (e', tx)
      = Err (ConstraintError ''NOT NULL constraint failed: t.name'')"
proof -
  obtain e tx e' where f: "engine_open [] [] = Ok e" "begin_write e = Ok (tx, e')" "store_ok (e', tx) [1 \<mapsto> TLeaf 1 []]"
    using fresh_writer by blast
  have t: "[1 \<mapsto> TLeaf 1 []] (tb_root_page demo_table) = Some (TLeaf 1 [])" by (simp add: demo_table_def)
  have "holds_rows (entries (TLeaf 1 [])) []" by simp
  from insert_rejects [OF f(3) t demo_scan this demo_outcome(2)] f(1,2) show ?thesis by auto
qed

lemma demo_insert:
  assumes "store_ok (e', tx) [1 \<mapsto> TLeaf 1 []]" and "tx_avail (e', tx) = {p. 1 < p}"
  shows "\<exists>st. insert_values tx_ops 2 test_platform demo_table False [VInteger (i64_of_int 7), VText ''a''] (e', tx)
    = Ok (i64_of_int 7, st)"
proof -
  have t: "[1 \<mapsto> TLeaf 1 []] (tb_root_page demo_table) = Some (TLeaf 1 [])" by (simp add: demo_table_def)
  have rows: "holds_rows (entries (TLeaf 1 [])) []" by simp
  have small: "small_record demo_record" unfolding demo_record_def by (rule small_record_short) simp
  have f: "fuel_ok 2 (TLeaf 1 [])" by (simp add: fuel_ok_def)
  obtain s where s: "same_store (e', tx) s" "insert_values tx_ops 2 test_platform demo_table False
      [VInteger (i64_of_int 7), VText ''a''] (e', tx) =
      obind (store_row tx_ops 2 test_platform demo_table (i64_of_int 7) [VInteger (i64_of_int 7), VText ''a''] s)
        (\<lambda>(u, s). Ok (i64_of_int 7, s))"
    using insert_values_ok [OF assms(1) t demo_scan rows, of test_platform "[VInteger (i64_of_int 7), VText ''a'']"]
    by (auto simp: demo_outcome(1))
  have "insert_pages (TLeaf 1 []) demo_record \<le> card (tx_avail (e', tx))"
    unfolding assms(2) by (rule fresh_room) (simp add: demo_record_def insert_pages_def overflow_pages_def USABLE_def PAGE_SIZE_def)
  then have "insert_pages (TLeaf 1 []) demo_record \<le> card (tx_avail s)" using s(1) by (simp add: same_store_def)
  from store_insert [OF same_store_ok [OF s(1) assms(1)] t f small this, of "i64_of_int 7"] obtain st where
    "btree_insert tx_ops 2 (tb_root_page demo_table) s (i64_of_int 7) demo_record = Ok st" by blast
  with s(2) demo_encode show ?thesis by (simp add: store_row_def demo_table_def with_alias_nulled_def)
qed

theorem insert_keeps_constraints_witness:
  "\<exists>e tx e' st s data. engine_open [] [] = Ok e \<and> begin_write e = Ok (tx, e')
    \<and> insert_values tx_ops 2 test_platform demo_table False [VInteger (i64_of_int 7), VText ''a''] (e', tx) = Ok (i64_of_int 7, st)
    \<and> btree_insert tx_ops 2 (tb_root_page demo_table) s (i64_of_int 7) data = Ok st
    \<and> co_not_null (tb_columns demo_table ! 1)"
proof -
  obtain e tx e' where f: "engine_open [] [] = Ok e" "begin_write e = Ok (tx, e')" "store_ok (e', tx) [1 \<mapsto> TLeaf 1 []]"
    "tx_avail (e', tx) = {p. 1 < p}" using fresh_writer by blast
  have t: "[1 \<mapsto> TLeaf 1 []] (tb_root_page demo_table) = Some (TLeaf 1 [])" by (simp add: demo_table_def)
  have rows: "holds_rows (entries (TLeaf 1 [])) []" by simp
  obtain st' where ins: "insert_values tx_ops 2 test_platform demo_table False [VInteger (i64_of_int 7), VText ''a''] (e', tx)
      = Ok (i64_of_int 7, st')" using demo_insert [OF f(3,4)] by blast
  from insert_keeps_constraints [OF f(3) t demo_scan rows ins] obtain s data where
    "btree_insert tx_ops 2 (tb_root_page demo_table) s (i64_of_int 7) data = Ok st'" by blast
  moreover have "co_not_null (tb_columns demo_table ! 1)" by (simp add: demo_table_def)
  ultimately show ?thesis using f(1,2) ins by blast
qed

lemma demo_encode8:
  "(row_encode test_platform \<lparr>row_id = i64_of_int 8, row_values = [VNull, VText ''a'']\<rparr> :: bytes qres) = Ok demo_record"
  unfolding demo_record_def by code_simp

theorem update_correct_witness:
  "\<exists>e tx e' st. engine_open [] [] = Ok e \<and> begin_write e = Ok (tx, e')
    \<and> update_values tx_ops 2 test_platform demo_table (i64_of_int 7) (i64_of_int 8)
        [VInteger (i64_of_int 8), VText ''a''] (e', tx) = Ok ((), st)"
proof -
  obtain e tx e' where f: "engine_open [] [] = Ok e" "begin_write e = Ok (tx, e')" "store_ok (e', tx) [1 \<mapsto> TLeaf 1 []]"
    "tx_avail (e', tx) = {p. 1 < p}" using fresh_writer by blast
  have t: "[1 \<mapsto> TLeaf 1 []] (tb_root_page demo_table) = Some (TLeaf 1 [])" by (simp add: demo_table_def)
  have enc: "(row_encode test_platform \<lparr>row_id = i64_of_int 8, row_values =
      with_alias_nulled [VInteger (i64_of_int 8), VText ''a''] (tb_rowid_alias demo_table)\<rparr> :: bytes qres) = Ok demo_record"
    using demo_encode8 by (simp add: demo_table_def with_alias_nulled_def)
  have small: "small_record demo_record" unfolding demo_record_def by (rule small_record_short) simp
  have room: "insert_pages (TLeaf 1 []) demo_record \<le> card (tx_avail (e', tx))"
    unfolding f(4) by (rule fresh_room) (simp add: demo_record_def insert_pages_def overflow_pages_def USABLE_def PAGE_SIZE_def)
  have rows: "holds_rows (entries (TLeaf 1 [])) []" by simp
  have out: "update_outcome demo_table [] (i64_of_int 7) (i64_of_int 8) [VInteger (i64_of_int 8), VText ''a''] = Ok ()"
    by (simp add: update_outcome_def demo_table_def index_at_def)
  from update_correct [OF f(3) t demo_scan rows out enc small room] f(1,2) show ?thesis by auto
qed

theorem update_does_not_swap_witness:
  "apply_assignments test_platform [] \<lparr>tb_name = ''t'', tb_columns =
       [\<lparr>co_name = ''a'', co_decl_type = [], co_sql_type = TyNull, co_not_null = False, co_primary_key = False,
          co_unique = False, co_default = None\<rparr>,
        \<lparr>co_name = ''b'', co_decl_type = [], co_sql_type = TyNull, co_not_null = False, co_primary_key = False,
          co_unique = False, co_default = None\<rparr>], tb_root_page = 2, tb_rowid_alias = None, tb_sql = []\<rparr>
     (i64_of_int 1) [(0, EColumn 1), (1, EColumn 0)] [VInteger (i64_of_int 1), VInteger (i64_of_int 2)] (i64_of_int 1) default_world
   = Ok (([VInteger (i64_of_int 2), VInteger (i64_of_int 2) :: unit sql_value], i64_of_int 1), default_world)"
  by (rule update_does_not_swap, simp, simp, simp add: coerce_to_def, simp add: coerce_to_def)

theorem delete_correct_witness:
  "\<exists>e tx e' st st' fuel. engine_open [] [] = Ok e \<and> begin_write e = Ok (tx, e')
    \<and> btree_insert tx_ops 1 1 (e', tx) (i64_of_int 7) demo_record = Ok st
    \<and> dml_delete tx_ops fuel test_platform [] demo_table \<lparr>dp_table = ''t'', dp_predicate = None\<rparr> (st, default_world)
        = Ok (1, (st', default_world))"
proof -
  obtain e tx e' where f: "engine_open [] [] = Ok e" "begin_write e = Ok (tx, e')" "store_ok (e', tx) [1 \<mapsto> TLeaf 1 []]"
    "tx_avail (e', tx) = {p. 1 < p}" using fresh_writer by blast
  have small: "small_record demo_record" unfolding demo_record_def by (rule small_record_short) simp
  have room: "insert_pages (TLeaf 1 []) demo_record \<le> card (tx_avail (e', tx))"
    unfolding f(4) by (rule fresh_room) (simp add: demo_record_def insert_pages_def overflow_pages_def USABLE_def PAGE_SIZE_def)
  obtain st tr en where i0: "btree_insert tx_ops 1 1 (e', tx) (i64_of_int 7) demo_record = Ok st"
      "store_ok st ([1 \<mapsto> TLeaf 1 []](1 \<mapsto> tr))" "entries tr = ins_entry en (entries (TLeaf 1 []))"
      "entry_key en = i64_of_int 7" "entry_val en = demo_record"
    using store_insert [OF f(3) fun_upd_same fresh_fuel small room, of "i64_of_int 7"] by blast
  have i: "btree_insert tx_ops 1 1 (e', tx) (i64_of_int 7) demo_record = Ok st" "store_ok st [1 \<mapsto> tr]"
      "entries tr = [en]" "entry_key en = i64_of_int 7" "entry_val en = demo_record"
    using i0(1,4,5) i0(2) [unfolded fun_upd_upd] i0(3) by (simp_all only: ins_entry_def entries.simps) simp
  define fuel where "fuel = height tr + length (entry_chain en) + leaf_count tr + 2"
  have t: "[1 \<mapsto> tr] (tb_root_page demo_table) = Some tr" by (simp add: demo_table_def)
  have scan: "scan_fuel fuel tr" using i(3) by (simp add: scan_fuel_def fuel_ok_def fuel_def)
  have rows: "holds_rows (entries tr) [(i64_of_int 7, [VNull, VText ''a''] :: unit sql_value list)]"
    using i(3-5) demo_decode by (simp add: holds_rows_Cons)
  have keep: "\<forall>(k, vs)\<in>set [(i64_of_int 7, [VNull, VText ''a''] :: unit sql_value list)].
      keep_row test_platform [] (dp_predicate \<lparr>dp_table = ''t'', dp_predicate = None\<rparr>) k
        (with_alias_set (tb_rowid_alias demo_table) k vs) default_world = Ok (True, default_world)"
    by (simp add: keep_row_def ev_return_def)
  from delete_correct [OF i(2) t scan rows keep] obtain st' where
    "dml_delete tx_ops fuel test_platform [] demo_table \<lparr>dp_table = ''t'', dp_predicate = None\<rparr> (st, default_world)
      = Ok (1, (st', default_world))" by auto
  with f(1,2) i(1) show ?thesis by blast
qed

end
