(* ===== verification/CatalogFacts.thy ===== *)
theory CatalogFacts
  imports DmlFacts Catalog
begin

text \<open>
  The catalog in memory and the table \<open>sqlite_master\<close>: loading reads the entries of the table
  in row id order, and a table that is created is one that the next load finds.
\<close>

section \<open>Loading\<close>

text \<open>The catalog that the entries of \<open>sqlite_master\<close> describe.\<close>

fun absorb_all :: "sql_front \<Rightarrow> 'j platform \<Rightarrow> entry list \<Rightarrow> 'j catalog \<Rightarrow> 'j catalog qres" where
  "absorb_all fr pf [] cat = Ok cat"
| "absorb_all fr pf (e # es) cat =
     obind (row_decode (entry_key e) (entry_val e)) (\<lambda>row.
     obind (absorb fr pf (entry_key e) row cat) (absorb_all fr pf es))"

lemma absorb_all_append:
  "absorb_all fr pf (es @ fs) cat = obind (absorb_all fr pf es cat) (absorb_all fr pf fs)"
proof (induction es arbitrary: cat)
  case (Cons e es)
  have "absorb_all fr pf (es @ fs) = (\<lambda>c. obind (absorb_all fr pf es c) (absorb_all fr pf fs))"
    by (rule ext) (rule Cons)
  then show ?case by (simp add: obind_assoc)
qed simp

context page_reader begin

lemma load_loop_ok:
  assumes "inv s" and "cursor_rep (view s) fuel c L n" and "n < fuel" and "length L < m"
    and "absorb_all fr pf L cat = Ok cat'"
  shows "\<exists>s'. load_loop fr pf S fuel m s c cat = Ok (cat', s') \<and> inv s' \<and> view s' = view s"
  using assms
proof (induction m arbitrary: s c L n cat)
  case (Suc m)
  show ?case
  proof (cases L)
    case Nil
    then show ?thesis using cursor_next_ok [OF Suc.prems(1-3)] Suc.prems(5) by auto
  next
    case (Cons e L')
    obtain s1 c' n' where x: "cursor_next S fuel fuel s c = Ok (Some (entry_key e, entry_val e), c', s1)"
      "inv s1" "view s1 = view s" "n' \<le> n" "cursor_rep (view s) fuel c' L' n'"
      using cursor_next_ok [OF Suc.prems(1-3)] Cons by auto
    obtain row cat1 where r: "row_decode (entry_key e) (entry_val e) = Ok row" "absorb fr pf (entry_key e) row cat = Ok cat1"
      "absorb_all fr pf L' cat1 = Ok cat'"
      using Suc.prems(5) Cons by (auto simp: obind_eq_Ok)
    have "n' < fuel" "length L' < m" using x(4) Suc.prems(3,4) Cons by auto
    from Suc.IH [OF x(2) x(5)[folded x(3)] this r(3)] obtain s2 where
      "load_loop fr pf S fuel m s1 c' cat1 = Ok (cat', s2)" "inv s2" "view s2 = view s1" by blast
    with x(1,3) r(1,2) show ?thesis by simp
  qed
qed simp

lemma catalog_load_ok:
  assumes "inv s" and "tree_rep (view s) t" and "ordered (i64_min - 1) i64_max t" and "root_of t = CATALOG_ROOT"
    and "scan_fuel fuel t" and "absorb_all fr pf (entries t) catalog_default = Ok cat"
  shows "\<exists>s'. catalog_load fr pf S fuel s = Ok (cat, s') \<and> inv s' \<and> view s' = view s"
proof -
  have f: "fuel_ok fuel t" "leaf_count t \<le> fuel" "length (entries t) < fuel" using assms(5) by (auto simp: scan_fuel_def)
  have all: "filter (\<lambda>e. i64_of_int i64_min \<le> entry_key e) (entries t) = entries t"
    using int_of_i64_bounds(1) by (auto simp: filter_id_conv less_eq_i64_def int_of_i64_of_int i64_min_def i64_max_def)
  have lo: "i64_min - 1 < int_of_i64 (i64_of_int i64_min)" by (rule i64_in_range)
  from cursor_seek_loop_ok [OF assms(1-3) lo f(1) order.refl, of "[]"]
  obtain c s1 n where c: "cursor_seek_first S fuel s CATALOG_ROOT = Ok (c, s1)" "inv s1" "view s1 = view s"
    "n < leaf_count t" "cursor_rep (view s) fuel c (entries t) n"
    by (auto simp: cursor_seek_first_def cursor_seek_def stack_ok_def all assms(4) rest_trees_def trees_entries_def trees_leaves_def)
  have n: "n < fuel" using c(4) f(2) by simp
  from load_loop_ok [OF c(2) c(5)[folded c(3)] n f(3) assms(6)] c(1,3)
  show ?thesis by (auto simp: catalog_load_def)
qed

end

text \<open>
  C1. Opening the schema. From any snapshot whose page 1 holds a good b-tree, the load of the catalog
  ends and gives the catalog that the entries of \<open>sqlite_master\<close> describe, taken in row id
  order; the engine stays consistent and the snapshot unchanged.
\<close>

theorem catalog_load_correct:
  assumes "engine_inv e" and "tree_rep (engine_view e (sn_version (rt_snapshot tx))) t"
    and "ordered (i64_min - 1) i64_max t" and "root_of t = CATALOG_ROOT" and "scan_fuel fuel t"
    and "absorb_all fr pf (entries t) catalog_default = Ok cat"
  shows "\<exists>e'. catalog_load fr pf (read_tx_source tx) fuel e = Ok (cat, e') \<and> engine_inv e'
    \<and> engine_view e' (sn_version (rt_snapshot tx)) = engine_view e (sn_version (rt_snapshot tx))"
  using read_tx.catalog_load_ok [OF assms] .

section \<open>Creating a table\<close>

lemma rightmost_last: "rightmost t \<noteq> [] \<Longrightarrow> entries t \<noteq> [] \<and> last (rightmost t) = last (entries t)"
  using rightmost_suffix [of t] by auto

lemma sorted_last: "sorted_wrt (<) (map f es) \<Longrightarrow> x \<in> set es \<Longrightarrow> f x \<le> (f (last es) :: 'a :: linorder)"
  by (induction es) (auto split: if_splits intro: less_imp_le)

lemma ins_entry_last:
  assumes "\<forall>x\<in>set es. entry_key x < entry_key e"
  shows "ins_entry e es = es @ [e]"
  using assms by (auto simp: ins_entry_def filter_id_conv filter_empty_conv)

lemma entry_row_stored:
  fixes pf :: "'j platform"
  assumes "utf8_valid ty" and "utf8_valid name" and "utf8_valid sql" and "length ty < 2 ^ 62" and "length name < 2 ^ 62"
    and "length sql < 2 ^ 62" and "row_encode pf (entry_row k ty name name page sql) = (Ok data :: bytes qres)"
  shows "row_decode k data = Ok (entry_row k ty name name page sql :: 'j row)"
proof -
  have "\<exists>data. row_encode pf (entry_row k ty name name page sql) = (Ok data :: bytes qres) \<and>
    (\<forall>rid. row_decode rid data = Ok \<lparr>row_id = rid,
       row_values = map (stored_value pf) (row_values (entry_row k ty name name page sql))\<rparr>)"
    by (rule row_encode_decode) (use assms in \<open>simp_all add: entry_row_def\<close>)
  then obtain data' where "row_encode pf (entry_row k ty name name page sql) = (Ok data' :: bytes qres)"
    "row_decode k data' = Ok \<lparr>row_id = k, row_values = map (stored_value pf) (row_values (entry_row k ty name name page sql))\<rparr>"
    by blast
  then show ?thesis using assms(7) by (simp add: entry_row_def)
qed

text \<open>What the load does with the entry of a new table is what \<open>add_table\<close> does in memory.\<close>

lemma absorb_entry:
  assumes "obind (parse_create_table fr (tb_sql t)) (\<lambda>u. Ok (u\<lparr>tb_root_page := tb_root_page t\<rparr>)) = Ok t"
  shows "absorb fr pf k (entry_row k ''table'' (tb_name t) (tb_name t) (tb_root_page t) (tb_sql t)) cat
    = Ok (cat\<lparr>cg_ids := AList.update (to_ascii_lowercase (tb_name t)) k (cg_ids cat),
              cg_tables := AList.update (to_ascii_lowercase (tb_name t)) t (cg_tables cat)\<rparr>)"
proof -
  obtain u where u: "parse_create_table fr (tb_sql t) = Ok u" "u\<lparr>tb_root_page := tb_root_page t\<rparr> = t"
    using assms by (auto simp: obind_eq_Ok)
  have n: "tb_name u = tb_name t" by (subst u(2) [symmetric]) simp
  have r: "int_of_i64 (i64_of_int (uint (tb_root_page t))) = uint (tb_root_page t)"
  proof (rule int_of_i64_of_int)
    show "i64_min \<le> uint (tb_root_page t)" by (rule order_trans [OF _ uint_ge_0]) (simp add: i64_min_def)
    show "uint (tb_root_page t) \<le> i64_max" using uint_bounded [of "tb_root_page t"] by (simp add: i64_max_def)
  qed
  show ?thesis
    using u n r by (simp add: absorb_def entry_row_def text_at_def root_at_def Let_def)
qed

text \<open>A new entry goes behind the others, unless the rightmost leaf has lost its entries.\<close>

lemma insert_entry_ok:
  fixes data :: bytes
  assumes "store_ok st trees" and "trees CATALOG_ROOT = Some tr" and "fuel_ok fuel tr"
    and "rightmost tr = [] \<longrightarrow> entries tr = []" and "\<forall>e\<in>set (entries tr). int_of_i64 (entry_key e) < i64_max"
    and "\<forall>k. row_encode pf (entry_row k ty name tbl page sql) = (Ok data :: bytes qres)"
    and "small_record data" and "insert_pages tr data \<le> card (tx_avail st)"
  shows "\<exists>k st' tr' e. insert_entry pf tx_ops fuel st ty name tbl page sql = Ok (k, st')
    \<and> store_ok st' (trees(CATALOG_ROOT \<mapsto> tr')) \<and> entries tr' = entries tr @ [e] \<and> entry_key e = k \<and> entry_val e = data"
proof -
  note t = store_okD [OF assms(1,2)]
  have i: "tx_inv st \<and> tx_avail st = tx_avail st" using t(1) by simp
  have h: "height tr < fuel" using assms(3) by (simp add: fuel_ok_def)
  define lk where "lk = (if rightmost tr = [] then None else Some (entry_key (last (rightmost tr))))"
  obtain st1 where l: "btree_last_key tx_ops fuel CATALOG_ROOT st = Ok (lk, st1)" "same_store st st1"
    using write_tx.keep.btree_last_key_ok [OF i t(4) h] unfolding t(2) same_store_def lk_def by blast
  define n where "n = 1 + (case lk of Some k \<Rightarrow> int_of_i64 k | None \<Rightarrow> 0)"
  have sorted: "sorted_wrt (<) (map entry_key (entries tr))" using ordered_entries(1) [OF t(5)] by simp
  have b: "i64_min \<le> n \<and> n \<le> i64_max \<and> (\<forall>x\<in>set (entries tr). int_of_i64 (entry_key x) < n)"
  proof (cases lk)
    case None
    then have "entries tr = []" using assms(4) by (auto simp: lk_def split: if_splits)
    then show ?thesis using None by (simp add: n_def i64_min_def i64_max_def)
  next
    case (Some k)
    then have r: "k = entry_key (last (entries tr))" "entries tr \<noteq> []"
      using rightmost_last [of tr] by (auto simp: lk_def split: if_splits)
    have "int_of_i64 (entry_key x) \<le> int_of_i64 k" if "x \<in> set (entries tr)" for x
      using sorted_last [OF sorted that] r(1) by (simp add: less_eq_i64_def)
    moreover have "int_of_i64 k < i64_max" using assms(5) r by simp
    ultimately show ?thesis using Some int_of_i64_bounds(1) [of k] by (fastforce simp: n_def)
  qed
  then have n: "ck_i64 n = (Ok n :: int qres)" "\<forall>x\<in>set (entries tr). entry_key x < i64_of_int n"
    by (auto simp: ck_i64_def less_i64_def int_of_i64_of_int)
  have ok1: "store_ok st1 trees" by (rule same_store_ok [OF l(2) assms(1)])
  have room: "insert_pages tr data \<le> card (tx_avail st1)" using l(2) assms(8) by (simp add: same_store_def)
  from store_insert [OF ok1 assms(2,3,7) room, of "i64_of_int n"] obtain st2 tr2 e where
    r: "btree_insert tx_ops fuel CATALOG_ROOT st1 (i64_of_int n) data = Ok st2" "store_ok st2 (trees(CATALOG_ROOT \<mapsto> tr2))"
      "entries tr2 = ins_entry e (entries tr)" "entry_key e = i64_of_int n" "entry_val e = data" by blast
  have "insert_entry pf tx_ops fuel st ty name tbl page sql = Ok (i64_of_int n, st2)"
    using l(1) n(1) r(1) assms(6) by (simp add: insert_entry_def put_entry_def entry_row_def n_def Let_def)
  moreover have "entries tr2 = entries tr @ [e]" unfolding r(3) by (rule ins_entry_last) (simp add: n(2) r(4))
  ultimately show ?thesis using r(2,4,5) by blast
qed

text \<open>
  C8. A table that is created can be found again. If \<open>CREATE TABLE\<close>'s text parses to the table
  and the catalog mirrors \<open>sqlite_master\<close>, then \<open>add_table\<close> files the table, and
  whoever loads the catalog from the pages it leaves behind gets the very catalog it left in memory.
  This holds for entries that leaves can be split around: of the new entry's record, which holds the
  statement's text, at most 490 bytes stay in the leaf, no stored cell takes more than 512 bytes, and there are
  free pages; the name and the text are UTF-8. The rightmost leaf of \<open>sqlite_master\<close> may not be empty, unless the
  whole table is, or the new entry would overwrite another one, and its row ids are not exhausted.
\<close>

theorem created_table_found:
  assumes "store_ok st trees" and "trees CATALOG_ROOT = Some tr" and "scan_fuel fuel tr"
    and "rightmost tr = [] \<longrightarrow> entries tr = []" and "\<forall>e\<in>set (entries tr). int_of_i64 (entry_key e) < i64_max"
    and "absorb_all fr pf (entries tr) catalog_default = Ok cat"
    and parse: "obind (parse_create_table fr (tb_sql t)) (\<lambda>u. Ok (u\<lparr>tb_root_page := tb_root_page t\<rparr>)) = Ok t"
    and "utf8_valid (tb_name t)" and "utf8_valid (tb_sql t)" and "length (tb_name t) < 2 ^ 62" and "length (tb_sql t) < 2 ^ 62"
    and "\<forall>k. row_encode pf (entry_row k ''table'' (tb_name t) (tb_name t) (tb_root_page t) (tb_sql t)) = (Ok data :: bytes qres)"
    and "small_record data" and "insert_pages tr data \<le> card (tx_avail st)"
  shows "\<exists>cat' st' tr'. add_table pf tx_ops fuel st t cat = Ok (cat', st') \<and> store_ok st' (trees(CATALOG_ROOT \<mapsto> tr'))
    \<and> get_table cat' (tb_name t) = Some t
    \<and> (\<forall>f. scan_fuel f tr' \<longrightarrow> (\<exists>st''. catalog_load fr pf tx_ops f st' = Ok (cat', st'')))"
proof -
  have f: "fuel_ok fuel tr" using assms(3) by (simp add: scan_fuel_def)
  obtain k st' tr' e where r: "insert_entry pf tx_ops fuel st ''table'' (tb_name t) (tb_name t) (tb_root_page t) (tb_sql t) = Ok (k, st')"
    "store_ok st' (trees(CATALOG_ROOT \<mapsto> tr'))" "entries tr' = entries tr @ [e]" "entry_key e = k" "entry_val e = data"
    using insert_entry_ok [OF assms(1,2) f assms(4,5,12-14)] by blast
  let ?key = "to_ascii_lowercase (tb_name t)"
  let ?cat = "cat\<lparr>cg_ids := AList.update ?key k (cg_ids cat), cg_tables := AList.update ?key t (cg_tables cat)\<rparr>"
  have add: "add_table pf tx_ops fuel st t cat = Ok (?cat, st')" using r(1) by (simp add: add_table_def Let_def)
  have dec: "row_decode k data = Ok (entry_row k ''table'' (tb_name t) (tb_name t) (tb_root_page t) (tb_sql t) :: 'a row)"
    by (rule entry_row_stored) (use assms(8-12) in \<open>auto intro: ascii_valid simp: is_ascii_def\<close>)
  have all: "absorb_all fr pf (entries tr') catalog_default = Ok ?cat"
    using assms(6) dec absorb_entry [OF parse] by (simp add: r(3-5) absorb_all_append)
  have "\<exists>st''. catalog_load fr pf tx_ops f' st' = Ok (?cat, st'')" if "scan_fuel f' tr'" for f'
  proof -
    note t2 = store_okD [OF r(2) fun_upd_same]
    have i2: "tx_inv st' \<and> tx_avail st' = tx_avail st'" using t2(1) by simp
    from write_tx.keep.catalog_load_ok [OF i2 t2(4,5,2) that all] show ?thesis by blast
  qed
  moreover have "get_table ?cat (tb_name t) = Some t" by (simp add: get_table_def update_conv')
  ultimately show ?thesis using add r(2) by blast
qed

text \<open>
  An index may have the name of another table. Dropping the table of the index then deletes the
  other table's entry of \<open>sqlite_master\<close>, although the table stays in memory.
\<close>

lemma drop_removes_namesake:
  assumes "cg_tables cat = [(''a'', ta), (''b'', tb)]" and "cg_indexes cat = [(''b'', ix)]"
    and "cg_ids cat = [(''a'', ka), (''b'', kb)]" and "ix_name ix = ''b''" and "ix_table ix = ''a''"
  shows "drop_table S fuel s ''a'' cat =
    obind (from_storage (btree_delete S fuel CATALOG_ROOT s ka)) (\<lambda>(r, s).
    obind (from_storage (btree_delete S fuel CATALOG_ROOT s kb)) (\<lambda>(r, s).
    Ok (True, cat\<lparr>cg_tables := [(''b'', tb)], cg_ids := [], cg_indexes := []\<rparr>, s)))"
proof -
  have l: "to_ascii_lowercase ''a'' = ''a''" "to_ascii_lowercase ''b'' = ''b''" "eq_ignore_ascii_case ''a'' ''a''"
    by code_simp+
  show ?thesis
    by (cases "btree_delete S fuel CATALOG_ROOT s ka")
      (use assms in \<open>auto simp: drop_table_def drop_entry_def dependent_indexes_def l Let_def obind_assoc split_def\<close>)
qed

definition demo_front :: sql_front where
  "demo_front = \<lparr>sf_parse = (\<lambda>sql. Inr [StCreateTable \<lparr>ct_name = [''t''], ct_columns =
       [\<lparr>cd_name = ''id'', cd_data_type = ''INTEGER'', cd_options = [CoUnique True], cd_text = []\<rparr>,
        \<lparr>cd_name = ''name'', cd_data_type = ''TEXT'', cd_options = [CoNotNull, CoUnique False], cd_text = []\<rparr>],
       ct_if_not_exists = False\<rparr> []]),
     sf_expr_text = (\<lambda>e. []), sf_body_text = (\<lambda>b. []), sf_item_text = (\<lambda>i. [])\<rparr>"

lemma demo_parsed:
  "obind (parse_create_table demo_front (tb_sql demo_table)) (\<lambda>u. Ok (u\<lparr>tb_root_page := tb_root_page demo_table\<rparr>)) = Ok demo_table"
  unfolding demo_front_def demo_table_def by code_simp

definition demo_entry :: bytes where
  "demo_entry = [6, 23, 15, 15, 9, 13, 116, 97, 98, 108, 101, 116, 116]"

lemma demo_entry_encoded:
  "(row_encode test_platform (entry_row k ''table'' (tb_name demo_table) (tb_name demo_table) (tb_root_page demo_table)
      (tb_sql demo_table)) :: bytes qres) = Ok demo_entry"
  unfolding demo_table_def demo_entry_def by code_simp

theorem created_table_found_witness:
  "\<exists>e tx e' cat' st'. engine_open [] [] = Ok e \<and> begin_write e = Ok (tx, e')
    \<and> add_table test_platform tx_ops 2 (e', tx) demo_table catalog_default = Ok (cat', st')
    \<and> get_table cat' ''t'' = Some demo_table"
proof -
  obtain e tx e' where f: "engine_open [] [] = Ok e" "begin_write e = Ok (tx, e')" "store_ok (e', tx) [1 \<mapsto> TLeaf 1 []]"
    "tx_avail (e', tx) = {p. 1 < p}" using fresh_writer by blast
  have t: "[1 \<mapsto> TLeaf 1 []] CATALOG_ROOT = Some (TLeaf 1 [])" by (simp add: CATALOG_ROOT_def)
  have small: "small_record demo_entry" unfolding demo_entry_def by (rule small_record_short) simp
  have room: "insert_pages (TLeaf 1 []) demo_entry \<le> card (tx_avail (e', tx))"
    unfolding f(4) by (rule fresh_room) (simp add: demo_entry_def insert_pages_def overflow_pages_def USABLE_def PAGE_SIZE_def)
  have n: "tb_name demo_table = ''t''" "tb_sql demo_table = ''''" by (simp_all add: demo_table_def)
  have u: "utf8_valid (tb_name demo_table)" "utf8_valid (tb_sql demo_table)"
    "length (tb_name demo_table) < 2 ^ 62" "length (tb_sql demo_table) < 2 ^ 62"
    by (simp_all add: n ascii_valid is_ascii_def)
  have s: "\<forall>e\<in>set (entries (TLeaf 1 [])). int_of_i64 (entry_key e) < i64_max" "rightmost (TLeaf 1 []) = [] \<longrightarrow> entries (TLeaf 1 []) = []"
    by simp_all
  have a: "absorb_all demo_front test_platform (entries (TLeaf 1 [])) catalog_default = Ok catalog_default" by simp
  from created_table_found [OF f(3) t demo_scan s(2,1) a demo_parsed u allI [OF demo_entry_encoded] small room] n f(1,2)
  show ?thesis by auto
qed

lemma fresh_reader:
  "\<exists>e e1. engine_open [] [] = Ok e \<and> begin_read e = (\<lparr>rt_snapshot = \<lparr>sn_version = 0\<rparr>\<rparr>, e1)
    \<and> engine_inv e1 \<and> tree_rep (engine_view e1 0) (TLeaf 1 [])"
proof -
  obtain e d where e: "engine_open [] [] = Ok e" "started e" "mv_committed (en_mvcc e) = 0" "engine_view e 0 1 = Some (page_body 1 d)"
    "node_at 1 (page_body 1 d) empty_leaf"
    using engine_open_ok by blast
  have i: "engine_inv e" using e(2) by (simp add: started_def)
  obtain tx e1 where b: "begin_read e = (tx, e1)" by force
  note r = begin_read_ok [OF i b]
  have "tree_rep (engine_view e1 0) (TLeaf 1 [])"
    using e(4,5) r by (simp add: empty_leaf_def leaf_fits_def leaf_used_def header_offset_def PAGE_SIZE_def)
  moreover have "tx = \<lparr>rt_snapshot = \<lparr>sn_version = 0\<rparr>\<rparr>"
    using r e(3) by (cases tx; cases "rt_snapshot tx") (simp add: rt_version_def)
  ultimately show ?thesis using e(1) b r by blast
qed

lemma fresh_catalog:
  assumes "engine_inv e" and "tree_rep (engine_view e 0) (TLeaf 1 [])"
  shows "\<exists>e'. catalog_load fr pf (read_tx_source \<lparr>rt_snapshot = \<lparr>sn_version = 0\<rparr>\<rparr>) 2 e = Ok (catalog_default, e')"
proof -
  let ?tx = "\<lparr>rt_snapshot = \<lparr>sn_version = 0\<rparr>\<rparr>"
  have "tree_rep (engine_view e (sn_version (rt_snapshot ?tx))) (TLeaf 1 [])" using assms(2) by simp
  from read_tx.catalog_load_ok [OF assms(1) this _ _ demo_scan, of fr pf catalog_default] show ?thesis
    by (auto simp: CATALOG_ROOT_def)
qed

theorem catalog_load_correct_witness:
  "\<exists>e e1 e'. engine_open [] [] = Ok e \<and> begin_read e = (\<lparr>rt_snapshot = \<lparr>sn_version = 0\<rparr>\<rparr>, e1)
    \<and> catalog_load demo_front test_platform (read_tx_source \<lparr>rt_snapshot = \<lparr>sn_version = 0\<rparr>\<rparr>) 2 e1 = Ok (catalog_default, e')"
proof -
  let ?tx = "\<lparr>rt_snapshot = \<lparr>sn_version = 0\<rparr>\<rparr>"
  obtain e e1 where e: "engine_open [] [] = Ok e" "begin_read e = (?tx, e1)" "engine_inv e1" "tree_rep (engine_view e1 0) (TLeaf 1 [])"
    using fresh_reader by blast
  have t: "tree_rep (engine_view e1 (sn_version (rt_snapshot ?tx))) (TLeaf 1 [])" using e(4) by simp
  have "ordered (i64_min - 1) i64_max (TLeaf 1 [])" "root_of (TLeaf 1 []) = CATALOG_ROOT"
    "absorb_all demo_front test_platform (entries (TLeaf 1 [])) catalog_default = Ok catalog_default"
    by (simp_all add: CATALOG_ROOT_def)
  from catalog_load_correct [OF e(3) t this(1,2) demo_scan this(3)] e(1,2) show ?thesis by blast
qed

end
