(* ===== verification/PlannerFacts.thy ===== *)
theory PlannerFacts
  imports DmlFacts SqlEngine Query ExecFacts
begin

text \<open>
  Types of plans. A plan is well formed if it scans only tables of the catalog, every column that one
  of its expressions reads is a column of its input (ordinals over aggregates and set operations apart)
  and its own columns match what it computes. The planner makes only
  well-formed plans, the optimizer keeps them so, and the replacement of subqueries too; on
  well-formed plans the rows have as many values as the plan has columns.
\<close>

section \<open>What a computation yields\<close>

definition yields :: "('a, 't) sm \<Rightarrow> ('a \<Rightarrow> bool) \<Rightarrow> bool" where
  "yields m P \<longleftrightarrow> (\<forall>t x t'. m t = Ok (x, t') \<longrightarrow> P x)"

named_theorems yields_intros \<open>rules for what a computation yields\<close>

lemma yieldsD: "yields m P \<Longrightarrow> m t = Ok (x, t') \<Longrightarrow> P x"
  by (auto simp: yields_def)

lemma yields_return [yields_intros]: "P x \<Longrightarrow> yields (sm_return x) P"
  by (simp add: yields_def sm_return_def)

lemma yields_fail [yields_intros]: "yields (sm_fail e) P"
  by (simp add: yields_def sm_fail_def)

lemma yields_bind:
  assumes "yields m P" and "\<And>x. P x \<Longrightarrow> yields (f x) Q"
  shows "yields (sm_bind m f) Q"
  unfolding yields_def
proof (intro allI impI)
  fix t y t' assume "sm_bind m f t = Ok (y, t')"
  then obtain x u where "m t = Ok (x, u)" "f x u = Ok (y, t')"
    by (auto simp: sm_bind_def obind_eq_Ok)
  then show "Q y" using assms by (blast dest: yieldsD)
qed

lemma yields_any: "yields m (\<lambda>_. True)"
  by (simp add: yields_def)

lemma yields_both: "yields m P \<Longrightarrow> yields m Q \<Longrightarrow> yields m (\<lambda>x. P x \<and> Q x)"
  by (simp add: yields_def)

lemma yields_mono: "yields m P \<Longrightarrow> (\<And>x. P x \<Longrightarrow> Q x) \<Longrightarrow> yields m Q"
  by (auto simp: yields_def)

lemma yields_lift [yields_intros]: "(\<And>x. r = Ok x \<Longrightarrow> P x) \<Longrightarrow> yields (sm_lift r) P"
  by (auto simp: yields_def sm_lift_def omap_eq_Ok)

lemma yields_if [yields_intros]:
  "(c \<Longrightarrow> yields a P) \<Longrightarrow> (\<not> c \<Longrightarrow> yields b P) \<Longrightarrow> yields (if c then a else b) P"
  by simp

lemma yields_sequence:
  "list_all (\<lambda>m. yields m P) ms \<Longrightarrow> yields (sm_sequence ms) (\<lambda>xs. length xs = length ms \<and> list_all P xs)"
  by (induction ms) (auto intro!: yields_return elim!: yields_bind)

lemma yields_option: "pred_option (\<lambda>m. yields m P) m \<Longrightarrow> yields (sm_option m) (pred_option P)"
  by (cases m) (auto simp: sm_option_def intro!: yields_return elim!: yields_bind)

section \<open>Expressions over a row\<close>

text \<open>\<open>in_width n e\<close>: the columns that \<open>e\<close> reads are below \<open>n\<close>.\<close>

primrec in_width :: "nat \<Rightarrow> ('j, 'q) expr \<Rightarrow> bool" where
  "in_width n (ELiteral v) \<longleftrightarrow> True"
| "in_width n (EColumn i) \<longleftrightarrow> i < n"
| "in_width n ERowId \<longleftrightarrow> True"
| "in_width n (EParam i) \<longleftrightarrow> True"
| "in_width n (EBinary op l r) \<longleftrightarrow> in_width n l \<and> in_width n r"
| "in_width n (EUnary op e) \<longleftrightarrow> in_width n e"
| "in_width n (EIsNull e negated) \<longleftrightarrow> in_width n e"
| "in_width n (ELike e p negated) \<longleftrightarrow> in_width n e \<and> in_width n p"
| "in_width n (EInList e items negated) \<longleftrightarrow> in_width n e \<and> list_all (\<lambda>b. b) (map (in_width n) items)"
| "in_width n (EFunction name args) \<longleftrightarrow> list_all (\<lambda>b. b) (map (in_width n) args)"
| "in_width n (ECast e ty) \<longleftrightarrow> in_width n e"
| "in_width n (ECase operand whens els) \<longleftrightarrow>
     pred_option (\<lambda>b. b) (map_option (in_width n) operand)
     \<and> list_all (\<lambda>(a, b). a \<and> b) (map (map_prod (in_width n) (in_width n)) whens)
     \<and> pred_option (\<lambda>b. b) (map_option (in_width n) els)"
| "in_width n (EScalarSubquery q) \<longleftrightarrow> True"
| "in_width n (EExists q negated) \<longleftrightarrow> True"
| "in_width n (EInSubquery e q negated) \<longleftrightarrow> in_width n e"

lemma in_width_lists:
  "list_all (\<lambda>b. b) (map (in_width n) es) \<longleftrightarrow> list_all (in_width n) es"
  "pred_option (\<lambda>b. b) (map_option (in_width n) o1) \<longleftrightarrow> pred_option (in_width n) o1"
  "list_all (\<lambda>(a, b). a \<and> b) (map (map_prod (in_width n) (in_width n)) ws) \<longleftrightarrow> list_all (\<lambda>(a, b). in_width n a \<and> in_width n b) ws"
  by (auto simp: list_all_iff pred_option_def)

lemma scope_loop_bound:
  "scope_loop tbl name i sc found = Ok j \<Longrightarrow> (\<forall>k. found = Some k \<longrightarrow> k < i) \<Longrightarrow> j < i + length sc"
proof (induction tbl name i sc found arbitrary: j rule: scope_loop.induct)
  case (1 tbl name i found)
  then show ?case by (cases found) (auto simp: ok_or_def)
next
  case (2 tbl name i c cs found)
  have "\<forall>k. found = Some k \<longrightarrow> k < i + 1" using 2(4) by auto
  with 2 show ?case by (auto split: if_splits)
qed

lemma scope_resolve_bound: "scope_resolve sc tbl name = Ok j \<Longrightarrow> j < length sc"
  using scope_loop_bound [of tbl name 0 sc None j] by (simp add: scope_resolve_def)

lemma resolve_ident_in_width: "resolve_ident sc s = Ok e \<Longrightarrow> in_width (length sc) e"
  by (auto simp: resolve_ident_def omap_eq_Ok dest: scope_resolve_bound split: if_splits)

lemma resolve_compound_in_width: "resolve_compound sc parts = Ok e \<Longrightarrow> in_width (length sc) e"
  by (auto simp: resolve_compound_def omap_eq_Ok dest: scope_resolve_bound split: list.splits)

lemma resolve_value_in_width: "yields (resolve_value v) (in_width n)"
  by (cases v) (auto simp: resolve_value_def yields_def sm_bind_def sm_lift_def sm_return_def obind_eq_Ok omap_eq_Ok)

lemma unary_of_in_width: "unary_of op e = Ok e' \<Longrightarrow> in_width n e \<Longrightarrow> in_width n e'"
  by (auto simp: unary_of_def split: sql_unop.splits)

lemma resolve_args_yields:
  assumes "\<And>a m. a \<in> set args \<Longrightarrow> m \<in> set_fn_arg a \<Longrightarrow> yields m P"
  shows "yields (resolve_args args) (list_all P)"
  using assms
proof (induction args)
  case (Cons a args)
  have rest: "yields (resolve_args args) (list_all P)" by (rule Cons.IH) (use Cons.prems in auto)
  have one: "yields m P" if "m \<in> set_fn_arg a" for m using Cons.prems [of a m] that by simp
  show ?case
    using rest one by (cases a) (auto intro!: yields_intros elim!: yields_bind)
qed (simp add: yields_return)

lemma between_in_width: "in_width n a \<Longrightarrow> in_width n lo \<Longrightarrow> in_width n hi \<Longrightarrow> in_width n (between a lo hi neg)"
  by (simp add: between_def Let_def)

lemma resolve_expr_in_width:
  fixes e :: "'q sql_expr"
  shows "yields (resolve_expr sc e :: ('j, 'q) expr rs) (in_width (length sc))"
proof (induction e)
  case (SIdentifier s)
  then show ?case by (auto intro!: yields_lift dest: resolve_ident_in_width)
next
  case (SCompoundIdentifier ps)
  then show ?case by (auto intro!: yields_lift dest: resolve_compound_in_width)
next
  case (SValue v)
  then show ?case by (simp add: resolve_value_in_width)
next
  case (SBinaryOp l op r)
  then show ?case
    by (auto intro!: yields_intros elim!: yields_bind intro: yields_bind [OF yields_any])
next
  case (SUnaryOp op e)
  then show ?case by (auto intro!: yields_lift elim!: yields_bind dest: unary_of_in_width)
next
  case (SInList e es neg)
  have "yields (sm_sequence (map (resolve_expr sc) es) :: ('j, 'q) expr list rs) (\<lambda>xs. length xs = length (map (resolve_expr sc :: 'q sql_expr \<Rightarrow> ('j, 'q) expr rs) es) \<and> list_all (in_width (length sc)) xs)"
    by (rule yields_sequence) (use SInList in \<open>auto simp: list_all_iff\<close>)
  with SInList(1) show ?case by (auto intro!: yields_intros elim!: yields_bind simp: in_width_lists)
next
  case (SBetween e neg lo hi)
  then show ?case by (auto intro!: yields_intros between_in_width elim!: yields_bind)
next
  case (SFunction parts args)
  have "yields (resolve_args (arg_list (map_fn_args (resolve_expr sc) args)) :: ('j, 'q) expr list rs) (list_all (in_width (length sc)))"
  proof (rule resolve_args_yields)
    fix a :: "('j, 'q) expr rs fn_arg" and m assume "a \<in> set (arg_list (map_fn_args (resolve_expr sc) args))" "m \<in> set_fn_arg a"
    then have "m \<in> resolve_expr sc ` set_fn_args args"
      by (cases args) (force simp: fn_arg.set_map)+
    with SFunction show "yields (m :: ('j, 'q) expr rs) (in_width (length sc))" by auto
  qed
  then show ?case by (auto intro!: yields_intros elim!: yields_bind simp: in_width_lists)
next
  case (STrim e w what ch)
  have 1: "yields (resolve_expr sc x :: ('j, 'q) expr rs) (in_width (length sc))" if "what = Some x" for x
    using STrim(2) that by simp
  have 2: "yields (resolve_expr sc x :: ('j, 'q) expr rs) (in_width (length sc))" if "ch = Some (x # xs)" for x xs
    using STrim(3) that by simp
  have "yields (case map_option (resolve_expr sc :: 'q sql_expr \<Rightarrow> ('j, 'q) expr rs) what of
         Some m \<Rightarrow> sm_bind m (\<lambda>x. sm_return [x])
       | None \<Rightarrow>
           (case map_option (map (resolve_expr sc)) ch of
              Some (m # ms) \<Rightarrow> sm_bind m (\<lambda>x. sm_return [x])
            | _ \<Rightarrow> sm_return [])) (list_all (in_width (length sc)))"
    by (auto intro!: yields_intros dest!: 1 2 elim!: yields_bind split: option.split list.split)
  with STrim(1) show ?case by (auto intro!: yields_intros elim!: yields_bind simp: in_width_lists)
next
  case (SCase opr cs rs els)
  have o: "yields (sm_option (map_option (resolve_expr sc) x) :: ('j, 'q) expr option rs) (pred_option (in_width (length sc)))"
    if "\<And>e. e \<in> set_option x \<Longrightarrow> yields (resolve_expr sc e :: ('j, 'q) expr rs) (in_width (length sc))" for x
    by (rule yields_option) (use that in \<open>auto simp: pred_option_def option.set_map\<close>)
  let ?pairs = "map (\<lambda>(c, r). sm_bind c (\<lambda>c. sm_bind r (\<lambda>r. sm_return (c, r))))
         (zip (map (resolve_expr sc) cs) (map (resolve_expr sc) rs)) :: (('j, 'q) expr \<times> ('j, 'q) expr) rs list"
  have "list_all (\<lambda>m. yields m (\<lambda>(a, b). in_width (length sc) a \<and> in_width (length sc) b)) ?pairs"
    unfolding list_all_iff
  proof
    fix m assume "m \<in> set ?pairs"
    then obtain c r where m: "m = sm_bind c (\<lambda>c. sm_bind r (\<lambda>r. sm_return (c, r)))"
      "(c, r) \<in> set (zip (map (resolve_expr sc) cs) (map (resolve_expr sc) rs))" by auto
    have "yields c (in_width (length sc))" using set_zip_leftD [OF m(2)] SCase(2) by auto
    moreover have "yields r (in_width (length sc))" using set_zip_rightD [OF m(2)] SCase(3) by auto
    ultimately show "yields m (\<lambda>(a, b). in_width (length sc) a \<and> in_width (length sc) b)"
      unfolding m(1) by (auto intro!: yields_intros elim!: yields_bind)
  qed
  from yields_sequence [OF this] o [of opr] o [of els] SCase(1,4) show ?case
    by (auto intro!: yields_intros elim!: yields_bind simp: in_width_lists)
next
  case (SSubstring e fr fo)
  have o: "yields (sm_option (map_option (resolve_expr sc) x) :: ('j, 'q) expr option rs) (pred_option (in_width (length sc)))"
    if "\<And>e. e \<in> set_option x \<Longrightarrow> yields (resolve_expr sc e :: ('j, 'q) expr rs) (in_width (length sc))" for x
    by (rule yields_option) (use that in \<open>auto simp: pred_option_def option.set_map\<close>)
  from SSubstring(1) o [of fr] o [of fo] SSubstring(2,3) show ?case
    by (auto intro!: yields_intros elim!: yields_bind simp: in_width_lists split: option.split)
qed (auto intro!: yields_intros elim!: yields_bind)

lemma in_width_mono:
  fixes e :: "('j, 'q) expr"
  shows "in_width n e \<Longrightarrow> n \<le> m \<Longrightarrow> in_width m e"
proof (induction e)
  case (EInList e es neg)
  then show ?case by (auto simp: in_width_lists list_all_iff)
next
  case (EFunction name args)
  then show ?case by (auto simp: in_width_lists list_all_iff)
next
  case (ECase opr ws els)
  have w: "pred_option (in_width n) opr" "pred_option (in_width n) els" "list_all (\<lambda>(a, b). in_width n a \<and> in_width n b) ws"
    using ECase.prems(1) by (simp_all add: in_width_lists)
  have "pred_option (in_width m) opr" using w(1) ECase.IH(1) ECase.prems(2) by (auto simp: pred_option_def)
  moreover have "pred_option (in_width m) els" using w(2) ECase.IH(4) ECase.prems(2) by (auto simp: pred_option_def)
  moreover have "in_width m a \<and> in_width m b" if "(a, b) \<in> set ws" for a b
    using w(3) that ECase.IH(2) [of "(a, b)" a] ECase.IH(3) [of "(a, b)" b] ECase.prems(2) by (auto simp: list_all_iff)
  then have "list_all (\<lambda>(a, b). in_width m a \<and> in_width m b) ws" by (auto simp: list_all_iff)
  ultimately show ?case by (simp add: in_width_lists)
qed auto

section \<open>Well-formed plans\<close>

definition agg_wf :: "nat \<Rightarrow> ('j, 'q) agg_expr \<Rightarrow> bool" where
  "agg_wf n a \<longleftrightarrow> pred_option (in_width n) (agg_arg a) \<and> pred_option (in_width n) (agg_sep a)"

fun output_wf :: "nat \<Rightarrow> nat \<Rightarrow> ('j, 'q) output_col \<Rightarrow> bool" where
  "output_wf n k (OutExpr e) \<longleftrightarrow> in_width n e"
| "output_wf n k (OutAgg i) \<longleftrightarrow> i < k"

text \<open>
  A sort key over aggregates or a set operation may also be the ordinal of an output column, which the
  planner does not check there.
\<close>

fun grouped :: "('j, 'q) plan \<Rightarrow> bool" where
  "grouped (PAggregate input group_by aggs output columns base_len having) \<longleftrightarrow> True"
| "grouped (PSetOp kind all l r columns) \<longleftrightarrow> True"
| "grouped (PDistinct input) \<longleftrightarrow> grouped input"
| "grouped p \<longleftrightarrow> False"

definition key_wf :: "bool \<Rightarrow> nat \<Rightarrow> ('j, 'q) sort_key \<Rightarrow> bool" where
  "key_wf any_ordinal n k \<longleftrightarrow> in_width n (sk_expr k) \<or> any_ordinal \<and> (\<exists>i. sk_expr k = EColumn i)"

abbreviation width :: "('j, 'q) plan \<Rightarrow> nat" where
  "width p \<equiv> length (plan_columns p)"

lemma key_wf_any: "key_wf False n k \<Longrightarrow> key_wf g n k"
  by (simp add: key_wf_def)

text \<open>A well-formed plan whose scans are among those of the set \<open>D\<close>.\<close>

primrec plan_wf :: "('j, 'q) plan set \<Rightarrow> ('j, 'q) plan \<Rightarrow> bool" where
  "plan_wf D PDual \<longleftrightarrow> True"
| "plan_wf D (PScan table page columns al defaults) \<longleftrightarrow> PScan table page columns al defaults \<in> D
     \<and> length defaults = length columns \<and> pred_option (\<lambda>a. a < length columns) al"
| "plan_wf D (PFilter input p) \<longleftrightarrow> plan_wf D input \<and> in_width (width input) p"
| "plan_wf D (PProject input es columns) \<longleftrightarrow>
     plan_wf D input \<and> list_all (in_width (width input)) es \<and> length columns = length es"
| "plan_wf D (PJoin l r p outer columns) \<longleftrightarrow>
     plan_wf D l \<and> plan_wf D r \<and> length columns = width l + width r \<and> pred_option (in_width (length columns)) p"
| "plan_wf D (PAggregate input group_by aggs output columns base_len having) \<longleftrightarrow>
     plan_wf D input \<and> base_len = width input \<and> length columns = length output
     \<and> list_all (in_width base_len) group_by \<and> list_all (agg_wf base_len) aggs
     \<and> list_all (output_wf base_len (length aggs)) output \<and> pred_option (in_width (base_len + length aggs)) having"
| "plan_wf D (PSort input keys) \<longleftrightarrow> plan_wf D input \<and> list_all (key_wf (grouped input) (width input)) keys"
| "plan_wf D (PLimit input lm off) \<longleftrightarrow> plan_wf D input"
| "plan_wf D (PDistinct input) \<longleftrightarrow> plan_wf D input"
| "plan_wf D (PSetOp kind all l r columns) \<longleftrightarrow>
     plan_wf D l \<and> plan_wf D r \<and> length columns = width l \<and> width r = width l"

definition table_wf :: "'j table \<Rightarrow> bool" where
  "table_wf t \<longleftrightarrow> pred_option (\<lambda>a. a < length (tb_columns t)) (tb_rowid_alias t)"

definition catalog_wf :: "'j catalog \<Rightarrow> bool" where
  "catalog_wf cat \<longleftrightarrow> (\<forall>(k, t)\<in>set (cg_tables cat). table_wf t)"

definition has_table :: "'j catalog \<Rightarrow> 'j table \<Rightarrow> bool" where
  "has_table cat t \<longleftrightarrow> (\<exists>k. (k, t) \<in> set (cg_tables cat))"

text \<open>The scans of the tables of a catalog: each at its root page, with its columns and their defaults.\<close>

definition catalog_scans :: "'j catalog \<Rightarrow> 'j qplan set" where
  "catalog_scans cat =
     {PScan (tb_name t) (tb_root_page t) columns (tb_rowid_alias t) defaults |t columns defaults. has_table cat t
        \<and> map ci_name columns = map co_name (tb_columns t) \<and> list_all (\<lambda>c. ci_table c = Some (tb_name t)) columns
        \<and> defaults = map (\<lambda>c. case co_default c of Some (DefValue v) \<Rightarrow> v | _ \<Rightarrow> VNull) (tb_columns t)}"

lemma scan_for_in: "has_table cat t \<Longrightarrow> scan_for t \<in> catalog_scans cat"
  by (force simp: catalog_scans_def scan_for_def constant_default_def list_all_iff)

definition catalog_in :: "'j qplan set \<Rightarrow> 'j catalog \<Rightarrow> bool" where
  "catalog_in D cat \<longleftrightarrow> catalog_wf cat \<and> catalog_scans cat \<subseteq> D"

text \<open>A plan with the scope of its columns.\<close>

definition scoped :: "'j qplan set \<Rightarrow> 'j qplan \<times> scope \<Rightarrow> bool" where
  "scoped D x \<longleftrightarrow> plan_wf D (fst x) \<and> length (snd x) = width (fst x)"

definition ctes_wf :: "'j qplan set \<Rightarrow> 'j cte_map \<Rightarrow> bool" where
  "ctes_wf D ctes \<longleftrightarrow> (\<forall>(k, x)\<in>set ctes. scoped D x)"

section \<open>The planner makes well-formed plans\<close>

lemma lookup_table_wf: "catalog_wf cat \<Longrightarrow> lookup_table cat name = Ok t \<Longrightarrow> table_wf t"
  by (auto simp: lookup_table_def get_table_def ok_or_def catalog_wf_def dest!: map_of_SomeD split: option.splits)

lemma lookup_table_in: "lookup_table cat name = Ok t \<Longrightarrow> has_table cat t"
  by (auto simp: has_table_def lookup_table_def get_table_def ok_or_def dest!: map_of_SomeD split: option.splits)

lemma resolve_relation_wf:
  assumes "catalog_in D cat" and "ctes_wf D ctes" and "resolve_relation cat ctes tf = Ok x"
  shows "scoped D x"
proof -
  obtain name al where n: "table_factor_name tf = Ok (name, al)" using assms(3) by (auto simp: resolve_relation_def obind_eq_Ok)
  show ?thesis
  proof (cases "map_of ctes (to_ascii_lowercase name)")
    case None
    then obtain t where t: "lookup_table cat name = Ok t" "x = (scan_for t, aliased_scope t al)"
      using assms(3) n by (auto simp: resolve_relation_def obind_eq_Ok)
    have "table_wf t" using assms(1) lookup_table_wf t(1) by (auto simp: catalog_in_def)
    moreover have "scan_for t \<in> D" using assms(1) scan_for_in [OF lookup_table_in [OF t(1)]] by (auto simp: catalog_in_def)
    ultimately show ?thesis
      by (simp add: t(2) scoped_def scan_for_def aliased_scope_def table_scope_def table_wf_def split: option.split)
  next
    case (Some y)
    then have "scoped D y" using assms(2) by (auto simp: ctes_wf_def dest: map_of_SomeD)
    then show ?thesis using assms(3) n Some by (auto simp: resolve_relation_def scoped_def Let_def split: prod.splits)
  qed
qed

lemma join_step_wf: "scoped D l \<Longrightarrow> scoped D r \<Longrightarrow> yields (join_step l r op) (scoped D)"
proof -
  assume s: "scoped D l" "scoped D r"
  let ?sc = "snd l @ snd r"
  have p: "yields (case op of
          None \<Rightarrow> sm_return (None, False)
        | Some JoInnerNone \<Rightarrow> sm_return (None, False)
        | Some JoCross \<Rightarrow> sm_return (None, False)
        | Some (JoInnerOn e) \<Rightarrow> sm_bind (resolve_expr ?sc e) (\<lambda>p. sm_return (Some p, False))
        | Some (JoLeftOuterOn e) \<Rightarrow> sm_bind (resolve_expr ?sc e) (\<lambda>p. sm_return (Some p, True))
        | Some (JoOther shown) \<Rightarrow> sm_fail (UnsupportedError (''join type '' @ shown)))
      (\<lambda>(p, outer). pred_option (in_width (length ?sc)) p)"
    by (auto intro!: yields_intros intro: yields_bind [OF resolve_expr_in_width] split: option.split join_operator.split)
  show ?thesis
    unfolding join_step_def Let_def
    by (rule yields_bind [OF p]) (use s in \<open>auto intro!: yields_intros simp: scoped_def\<close>)
qed

lemma join_rest_wf:
  assumes "catalog_in D cat" and "ctes_wf D ctes"
  shows "scoped D acc \<Longrightarrow> yields (join_rest cat ctes js acc) (scoped D)"
proof (induction js arbitrary: acc)
  case (Cons j js)
  obtain tf op where j: "j = (tf, op)" by (cases j)
  have r: "yields (sm_lift (resolve_relation cat ctes tf)) (scoped D)"
    by (rule yields_lift) (rule resolve_relation_wf [OF assms])
  show ?case
    unfolding j join_rest.simps
    by (rule yields_bind [OF r]) (rule yields_bind [OF join_step_wf], use Cons in auto)
qed (simp add: yields_return)

lemma join_items_wf:
  assumes "catalog_in D cat" and "ctes_wf D ctes"
  shows "pred_option (scoped D) acc \<Longrightarrow> yields (join_items cat ctes items acc) (pred_option (scoped D))"
proof (induction items arbitrary: acc)
  case (Cons item items)
  obtain tf js where i: "item = FromItem tf js" by (cases item)
  have r: "yields (sm_lift (resolve_relation cat ctes tf)) (scoped D)"
    by (rule yields_lift) (rule resolve_relation_wf [OF assms])
  have a: "yields (case acc of None \<Rightarrow> sm_return x | Some l \<Rightarrow> join_step l x None) (scoped D)" if "scoped D x" for x
    using that Cons.prems by (auto intro: yields_return join_step_wf split: option.split)
  show ?case
    unfolding i join_items.simps
    by (rule yields_bind [OF r], rule yields_bind [OF a], assumption, rule yields_bind [OF join_rest_wf [OF assms]], assumption)
      (use Cons.IH in simp)
qed (simp add: yields_return)

lemma plan_from_wf:
  assumes "catalog_in D cat" and "ctes_wf D ctes" and "plan_from cat ctes sel = Ok x"
  shows "scoped D x"
proof (cases "se_from sel = []")
  case False
  then obtain n where "join_items cat ctes (se_from sel) None 0 = Ok (Some x, n)"
    using assms(3) by (auto simp: plan_from_def obind_eq_Ok split: option.splits)
  from yieldsD [OF join_items_wf [OF assms(1,2)] this] show ?thesis by simp
qed (use assms(3) in \<open>auto simp: plan_from_def scoped_def\<close>)

lemma wildcard_in_width: "list_all (\<lambda>(x, c). in_width (length sc) x) (wildcard keep sc)"
  by (auto simp: wildcard_def list_all_iff in_set_enumerate_eq)

lemma collect_projection_wf:
  "yields (collect_projection fr sc items) (list_all (\<lambda>(x, c). in_width (length sc) x))"
proof (induction items)
  case (Cons item items)
  have one: "yields (case item of
         SiWildcard \<Rightarrow> sm_return (wildcard (\<lambda>c. True) sc)
       | SiQualifiedWildcard parts \<Rightarrow>
           let t = object_name_to_string parts in
           sm_return (wildcard (\<lambda>c. map_option (\<lambda>x. eq_ignore_ascii_case x t) (sc_table c) = Some True) sc)
       | SiUnnamed e \<Rightarrow>
           sm_bind (resolve_expr sc e) (\<lambda>x.
           sm_return [(x, \<lparr>ci_name = derive_name fr e, ci_table = None, ci_decl_type = decl_for_expr x sc\<rparr>)])
       | SiAliased e al \<Rightarrow>
           sm_bind (resolve_expr sc e) (\<lambda>x.
           sm_return [(x, \<lparr>ci_name = al, ci_table = None, ci_decl_type = decl_for_expr x sc\<rparr>)]))
      (list_all (\<lambda>(x, c). in_width (length sc) x))"
    by (auto intro!: yields_intros wildcard_in_width intro: yields_bind [OF resolve_expr_in_width] simp: Let_def split: select_item.split)
  show ?case
    unfolding collect_projection.simps
    by (rule yields_bind [OF one], rule yields_bind [OF Cons.IH]) (auto intro!: yields_intros)
qed (simp add: yields_return)

lemma resolve_arg_at_wf: "yields (resolve_arg_at sc args i msg) (pred_option (in_width (length sc)))"
  by (auto simp: resolve_arg_at_def intro!: yields_intros intro: yields_bind [OF resolve_expr_in_width] split: fn_arg.split)

lemma try_aggregate_wf: "yields (try_aggregate sc e) (pred_option (agg_wf (length sc)))"
proof (cases "\<exists>parts fargs. e = SFunction parts fargs")
  case True
  then obtain parts fargs where e: "e = SFunction parts fargs" by blast
  let ?n = "to_ascii_uppercase (object_name_to_string parts)"
  have sep: "yields (if ?n = ''GROUP_CONCAT'' then resolve_arg_at sc (arg_list fargs) 1 ''separator to group_concat''
      else sm_return None) (pred_option (in_width (length sc)))"
    by (simp add: resolve_arg_at_wf yields_return)
  show ?thesis
    unfolding e try_aggregate_def sql_expr.case Let_def
    by (intro yields_if yields_return yields_bind [OF resolve_arg_at_wf] yields_bind [OF sep]) (simp_all add: agg_wf_def)
qed (auto simp: try_aggregate_def intro!: yields_intros split: sql_expr.split)

text \<open>\<open>HAVING\<close> refers to the columns of the input and to the aggregates, those it adds included.\<close>

definition having_wf :: "nat \<Rightarrow> nat \<Rightarrow> 'j qexpr \<times> nat \<times> 'j aggs \<Rightarrow> bool" where
  "having_wf n k r \<longleftrightarrow> (case r of (x, m, aggs) \<Rightarrow>
     k \<le> length aggs \<and> list_all (agg_wf n) aggs \<and> in_width (n + length aggs) x)"

lemma having_leaf_wf:
  assumes "\<forall>(k, x)\<in>set aliases. in_width m x" and "length sc \<le> m"
  shows "yields (having_leaf sc aliases e) (in_width m)"
proof -
  have r: "yields (resolve_expr sc e) (in_width m)"
    by (rule yields_mono [OF resolve_expr_in_width]) (rule in_width_mono [OF _ assms(2)])
  then show ?thesis
    using assms(1) by (auto simp: having_leaf_def intro!: yields_return dest!: map_of_SomeD split: sql_expr.split option.split)
qed

lemma or_aggregate_wf:
  fixes aggs :: "'j aggs"
  assumes "or_aggregate sc (length sc) e (on_ctx (having_leaf sc aliases e)) (i, aggs) = Ok r"
    and "list_all (agg_wf (length sc)) aggs" and "\<forall>(k, x)\<in>set aliases. in_width (length sc + length aggs) x"
  shows "having_wf (length sc) (length aggs) r"
proof -
  obtain agg :: "('j, query) agg_expr option" and j where t: "try_aggregate sc e i = Ok (agg, j)"
    using assms(1) by (cases "try_aggregate sc e i :: (('j, query) agg_expr option \<times> nat) qres") (auto simp: or_aggregate_def sm_bind_def on_ctx_def)
  note a = yieldsD [OF try_aggregate_wf t]
  show ?thesis
  proof (cases agg)
    case None
    then obtain x k where "having_leaf sc aliases e j = Ok (x, k)" "r = (x, k, aggs)"
      using assms(1) t by (auto simp: or_aggregate_def sm_bind_def on_ctx_def omap_eq_Ok)
    moreover have "in_width (length sc + length aggs) x"
      by (rule yieldsD [OF having_leaf_wf [OF assms(3)] \<open>having_leaf sc aliases e j = Ok (x, k)\<close>]) simp
    ultimately show ?thesis using assms(2) by (simp add: having_wf_def)
  next
    case (Some b)
    then show ?thesis using assms(1,2) t a by (auto simp: or_aggregate_def sm_bind_def on_ctx_def having_wf_def)
  qed
qed

lemma resolve_having_wf:
  "resolve_having sc n aliases e (i, aggs) = Ok r \<Longrightarrow> n = length sc \<Longrightarrow> list_all (agg_wf (length sc)) aggs \<Longrightarrow>
   \<forall>(k, x)\<in>set aliases. in_width (length sc + length aggs) x \<Longrightarrow> having_wf (length sc) (length aggs) r"
proof (induction sc n aliases e arbitrary: i aggs r rule: resolve_having.induct)
  case (2 sc n aliases l op r')
  obtain op' l' i1 a1 where l: "map_binop op = Ok op'" "resolve_having sc n aliases l (i, aggs) = Ok (l', i1, a1)"
    using 2(3) by (auto simp: sm_bind_def sm_lift_def obind_eq_Ok omap_eq_Ok)
  obtain r1 i2 a2 where q: "resolve_having sc n aliases r' (i1, a1) = Ok (r1, i2, a2)" "r = (EBinary op' l' r1, i2, a2)"
    using 2(3) l by (auto simp: sm_bind_def sm_lift_def sm_return_def obind_eq_Ok omap_eq_Ok)
  have wl: "having_wf (length sc) (length aggs) (l', i1, a1)" by (rule 2(1) [OF l(2) 2(4-6)])
  have al: "\<forall>(k, x)\<in>set aliases. in_width (length sc + length a1) x"
    using 2(6) wl by (auto simp: having_wf_def intro: in_width_mono)
  have "list_all (agg_wf (length sc)) a1" using wl by (simp add: having_wf_def)
  from 2(2) [OF q(1) 2(4) this al] wl q(2) show ?case by (auto simp: having_wf_def intro: in_width_mono)
next
  case (3 sc n aliases op e)
  then obtain e' i1 a1 where e: "resolve_having sc n aliases e (i, aggs) = Ok (e', i1, a1)"
    by (auto simp: sm_bind_def obind_eq_Ok)
  have "having_wf (length sc) (length aggs) (e', i1, a1)" by (rule 3(1) [OF e 3(3-5)])
  with 3(2) e show ?case
    by (auto simp: sm_bind_def sm_lift_def omap_eq_Ok having_wf_def dest: unary_of_in_width)
qed (simp_all add: or_aggregate_wf)

definition item_wf ::
    "nat \<Rightarrow> nat \<Rightarrow> 'j aggs \<times> ('j, query) output_col \<times> column_info \<times> string \<times> 'j qexpr \<Rightarrow> bool" where
  "item_wf n k r \<longleftrightarrow> (case r of (aggs, out, col, key, x) \<Rightarrow>
     k \<le> length aggs \<and> list_all (agg_wf n) aggs \<and> output_wf n (length aggs) out \<and> in_width (n + length aggs) x)"

lemma agg_item_wf:
  assumes "list_all (agg_wf (length sc)) aggs"
  shows "yields (agg_item fr sc (length sc) item aggs) (item_wf (length sc) (length aggs))"
proof -
  have name: "yields (case item of
         SiUnnamed e \<Rightarrow> sm_return (e, derive_name fr e)
       | SiAliased e al \<Rightarrow> sm_return (e, al)
       | other \<Rightarrow> sm_fail (UnsupportedError (''wildcard with aggregation: '' @ sf_item_text fr other))) (\<lambda>_. True)"
    by (rule yields_any)
  have plain: "yields (sm_bind (resolve_expr sc e) (\<lambda>x. sm_return (aggs, OutExpr x, col, key, x)))
      (item_wf (length sc) (length aggs))" for e col key
    by (rule yields_bind [OF resolve_expr_in_width]) (use assms in \<open>auto intro!: yields_return intro: in_width_mono [OF _ le_add1] simp: item_wf_def\<close>)
  have agg: "yields (sm_return (aggs @ [a], OutAgg (length aggs), col, key, EColumn (length sc + length aggs)))
      (item_wf (length sc) (length aggs))" if "agg_wf (length sc) a" for a col key
    using that assms by (auto intro!: yields_return simp: item_wf_def)
  show ?thesis
    unfolding agg_item_def
    by (rule yields_bind [OF name])
      (auto simp: Let_def intro!: yields_bind [OF try_aggregate_wf] agg plain split: option.split)
qed

lemma output_wf_mono: "output_wf n k out \<Longrightarrow> k \<le> m \<Longrightarrow> output_wf n m out"
  by (cases out) auto

definition items_wf ::
    "nat \<Rightarrow> 'j aggs \<times> ('j, query) output_col list \<times> column_info list \<times> (string \<times> 'j qexpr) list \<Rightarrow> bool" where
  "items_wf n r \<longleftrightarrow> (case r of (aggs, outs, cols, aliases) \<Rightarrow>
     list_all (agg_wf n) aggs \<and> list_all (output_wf n (length aggs)) outs \<and> length cols = length outs
     \<and> (\<forall>(k, x)\<in>set aliases. in_width (n + length aggs) x))"

lemma agg_items_wf:
  fixes aggs :: "'j aggs"
  shows "list_all (agg_wf (length sc)) aggs \<Longrightarrow> \<forall>(k, x)\<in>set aliases. in_width (length sc + length aggs) x \<Longrightarrow>
   yields (agg_items fr sc (length sc) items aggs aliases)
     (\<lambda>r. items_wf (length sc) r \<and> length aggs \<le> length (fst r))"
proof (induction items arbitrary: aggs aliases)
  case (Cons item items)
  show ?case
    unfolding agg_items.simps
  proof (rule yields_bind [OF agg_item_wf [OF Cons.prems(1)]], clarify)
    fix aggs1 out col key and x :: "'j qexpr"
    assume i: "item_wf (length sc) (length aggs) (aggs1, out, col, key, x)"
    then have a: "length aggs \<le> length aggs1" "list_all (agg_wf (length sc)) aggs1" "output_wf (length sc) (length aggs1) out"
      "in_width (length sc + length aggs1) x" by (auto simp: item_wf_def)
    have al: "\<forall>(k, x)\<in>set (AList.update key x aliases). in_width (length sc + length aggs1) x"
    proof clarify
      fix k y assume "(k, y) \<in> set (AList.update key x aliases)"
      then have "(k, y) \<in> set aliases \<or> y = x" by (induction aliases) (auto split: if_splits)
      then show "in_width (length sc + length aggs1) y" using Cons.prems(2) a(1,4) by (auto intro: in_width_mono)
    qed
    show "yields (sm_bind (agg_items fr sc (length sc) items aggs1 (AList.update key x aliases))
           (\<lambda>(aggs, outs, cols, aliases). sm_return (aggs, out # outs, col # cols, aliases)))
          (\<lambda>r. items_wf (length sc) r \<and> length aggs \<le> length (fst r))"
      by (rule yields_bind [OF Cons.IH [OF a(2) al]])
        (use a in \<open>auto intro!: yields_return intro: output_wf_mono simp: items_wf_def\<close>)
  qed
qed (auto intro!: yields_return simp: items_wf_def)

lemma plan_aggregate_wf:
  assumes "scoped D (p, sc)"
  shows "yields (plan_aggregate fr p sel es sc) (\<lambda>q. plan_wf D q \<and> grouped q)"
proof -
  let ?n = "length sc"
  have g: "yields (sm_sequence (map (resolve_expr sc) es)) (list_all (in_width ?n))"
    by (rule yields_mono [OF yields_sequence [where P = "in_width ?n"]]) (auto simp: list_all_iff resolve_expr_in_width)
  have h: "yields (case se_having sel of
          None \<Rightarrow> sm_return (None, aggs)
        | Some h \<Rightarrow>
            (\<lambda>n. omap (\<lambda>(x, (n, aggs)). ((Some x, aggs), n)) (resolve_having sc ?n aliases h (n, aggs))))
      (\<lambda>(having, aggs'). length aggs \<le> length aggs' \<and> list_all (agg_wf ?n) aggs'
        \<and> pred_option (in_width (?n + length aggs')) having)"
    if "list_all (agg_wf ?n) aggs" "\<forall>(k, x)\<in>set aliases. in_width (?n + length aggs) x" for aggs aliases
  proof (cases "se_having sel")
    case None
    then show ?thesis using that by (auto intro: yields_return)
  next
    case (Some h)
    have "having_wf ?n (length aggs) (x, m, aggs')" if "resolve_having sc ?n aliases h (n, aggs) = Ok (x, m, aggs')" for n x m aggs'
      by (rule resolve_having_wf [OF that refl \<open>list_all (agg_wf ?n) aggs\<close> \<open>\<forall>(k, x)\<in>set aliases. _\<close>])
    then show ?thesis using Some by (fastforce simp: yields_def omap_eq_Ok having_wf_def)
  qed
  have items: "yields (agg_items fr sc ?n (se_projection sel) [] []) (items_wf ?n)"
    by (rule yields_mono [OF agg_items_wf]) auto
  show ?thesis
    unfolding plan_aggregate_def Let_def
    by (rule yields_bind [OF g], rule yields_bind [OF items], clarsimp, rule yields_bind [OF h])
      (use assms in \<open>auto intro!: yields_return simp: scoped_def items_wf_def list_all_iff\<close>, drule (1) bspec, erule (1) output_wf_mono)
qed

lemma order_by_alias_wf:
  assumes "\<And>proj. projected = Some proj \<Longrightarrow> list_all (\<lambda>(x, c). in_width (length sc) x) proj"
  shows "yields (order_by_alias sc projected e) (in_width (length sc))"
proof (cases "\<exists>s proj. e = SIdentifier s \<and> projected = Some proj")
  case True
  then obtain s proj where e: "e = SIdentifier s" "projected = Some proj" by blast
  have f: "in_width (length sc) x" if "find P proj = Some (x, c)" for P x c
    using assms [OF e(2)] that by (auto simp: list_all_iff dest!: find_SomeD)
  show ?thesis
    unfolding e order_by_alias_def
    by (auto intro!: yields_return resolve_expr_in_width dest!: f split: option.split simp del: resolve_expr.simps)
qed (auto simp: order_by_alias_def resolve_expr_in_width simp del: resolve_expr.simps split: sql_expr.split option.split)

lemma order_key_expr_wf:
  fixes projected :: "('j qexpr \<times> column_info) list option"
  assumes "\<And>proj. projected = Some proj \<Longrightarrow> list_all (\<lambda>(x, c). in_width (length sc) x) proj"
  shows "yields (order_key_expr sc projected e) (\<lambda>x. in_width (length sc) x \<or> projected = None \<and> (\<exists>i. x = EColumn i))"
proof -
  define P where "P x \<longleftrightarrow> in_width (length sc) x \<or> projected = None \<and> (\<exists>i. x = EColumn i)" for x :: "'j qexpr"
  have a: "yields (order_by_alias sc projected e) P"
    by (rule yields_mono [OF order_by_alias_wf [OF assms]]) (auto simp: P_def)
  have p: "P (fst (proj ! i))" if "projected = Some proj" "i < length proj" for proj i
    using assms [OF that(1)] that(2) by (auto simp: list_all_length case_prod_beta P_def)
  have c: "P (EColumn i)" if "projected = None" for i using that by (simp add: P_def)
  have "yields (order_key_expr sc projected e) P"
  proof (cases projected)
    case None
    then show ?thesis
      using a by (auto intro!: yields_intros c simp: order_key_expr_def split: option.split)
  next
    case (Some proj)
    then show ?thesis
      using a by (auto intro!: yields_intros p simp: order_key_expr_def split: option.split)
  qed
  then show ?thesis by (simp add: P_def [abs_def])
qed

lemma sort_keys_wf:
  assumes "\<And>proj. projected = Some proj \<Longrightarrow> list_all (\<lambda>(x, c). in_width (length sc) x) proj"
  shows "yields (sort_keys sc projected items) (list_all (key_wf (projected = None) (length sc)))"
proof -
  have "yields (sm_bind (order_key_expr sc projected (oi_expr ob)) (\<lambda>x.
       sm_return (SortKey x (case oi_asc ob of Some b \<Rightarrow> b | None \<Rightarrow> True)))) (key_wf (projected = None) (length sc))" for ob
    by (rule yields_bind [OF order_key_expr_wf [OF assms]]) (auto intro!: yields_return simp: key_wf_def)
  then show ?thesis
    unfolding sort_keys_def
    by (intro yields_mono [OF yields_sequence [where P = "key_wf (projected = None) (length sc)"]]) (auto simp: list_all_iff)
qed

lemma apply_limit_wf: "plan_wf D p \<Longrightarrow> apply_limit fr lm off p = Ok q \<Longrightarrow> plan_wf D q"
  by (auto simp: apply_limit_def obind_eq_Ok split: if_splits)

lemma sort_keys_length_scope: "length (output_scope cols) = length cols"
  by (simp add: output_scope_def)

lemma apply_order_limit_wf:
  assumes "plan_wf D p" and "grouped p"
  shows "yields (apply_order_limit fr order lm off p) (plan_wf D)"
proof -
  have s: "yields (case order of
         None \<Rightarrow> sm_return p
       | Some items \<Rightarrow> sm_bind (sort_keys (output_scope (plan_columns p)) None items) (\<lambda>keys. sm_return (PSort p keys))) (plan_wf D)"
    using assms
    by (auto intro!: yields_return yields_bind [OF sort_keys_wf] simp: sort_keys_length_scope split: option.split)
  show ?thesis
    unfolding apply_order_limit_def
    by (rule yields_bind [OF s]) (auto intro!: yields_lift dest: apply_limit_wf)
qed

lemma apply_where_scoped: "scoped D (p, sc) \<Longrightarrow> yields (apply_where sel sc p) (\<lambda>q. scoped D (q, sc))"
  by (auto simp: apply_where_def scoped_def intro!: yields_return yields_bind [OF resolve_expr_in_width] split: option.split)

lemma project_wf:
  "plan_wf D p \<Longrightarrow> list_all (\<lambda>(x, c). in_width (width p) x) proj \<Longrightarrow> plan_wf D (PProject p (map fst proj) (map snd proj))"
  by (auto simp: list_all_iff)

lemma plan_select_wf:
  assumes "catalog_in D (cat :: 'j catalog)" and "ctes_wf D ctes"
  shows "yields (plan_select fr cat ctes sel order lm off) (plan_wf D)"
proof -
  have f: "yields (sm_lift (plan_from cat ctes sel)) (scoped D)"
    by (rule yields_lift) (rule plan_from_wf [OF assms])
  have ord: "yields (case order of
           None \<Rightarrow> sm_return p
         | Some items \<Rightarrow> sm_bind (sort_keys sc (Some proj) items) (\<lambda>keys. sm_return (PSort p keys)))
       (\<lambda>q. scoped D (q, sc))"
    if "scoped D (p, sc)" "list_all (\<lambda>(x, c). in_width (length sc) x) proj" for p sc proj
    using that by (auto simp: scoped_def intro!: yields_return yields_bind [OF sort_keys_wf] split: option.split
      elim!: list.pred_mono_strong key_wf_any)
  have plain: "yields (sm_bind (collect_projection fr sc (se_projection sel)) (\<lambda>proj.
       sm_bind (case order of
           None \<Rightarrow> sm_return p
         | Some items \<Rightarrow> sm_bind (sort_keys sc (Some proj) items) (\<lambda>keys. sm_return (PSort p keys))) (\<lambda>p.
       let p = PProject p (map fst proj) (map snd proj) in
       sm_lift (apply_limit fr lm off (if dist then PDistinct p else p))))) (plan_wf D)"
    if "scoped D (p, sc)" for p :: "'j qplan" and sc dist
  proof (rule yields_bind [OF collect_projection_wf], rule yields_bind [OF ord [OF that]], assumption)
    fix proj :: "('j qexpr \<times> column_info) list" and q :: "'j qplan" assume *: "list_all (\<lambda>(x, c). in_width (length sc) x) proj" "scoped D (q, sc)"
    then have "plan_wf D (PProject q (map fst proj) (map snd proj))" by (intro project_wf) (simp_all add: scoped_def)
    then show "yields ((let p = PProject q (map fst proj) (map snd proj) in
       sm_lift (apply_limit fr lm off (if dist then PDistinct p else p))) :: 'j qplan rs) (plan_wf D)"
      by (auto simp del: plan_wf.simps(4) simp: Let_def intro!: yields_lift dest!: apply_limit_wf [rotated])
  qed
  have agg: "yields (sm_bind (plan_aggregate fr p sel (group_exprs sel) sc) (\<lambda>p.
       apply_order_limit fr order lm off (if dist then PDistinct p else p))) (plan_wf D)"
    if "scoped D (p, sc)" for p sc dist
    by (rule yields_bind [OF plan_aggregate_wf [OF that]]) (auto intro!: apply_order_limit_wf)
  show ?thesis
    unfolding plan_select_def
    by (rule yields_bind [OF f], clarify, rule yields_bind [OF apply_where_scoped], assumption,
        rule yields_bind [OF yields_any], rule yields_if) (erule agg, erule plain)
qed

lemma plan_select_core_wf:
  assumes "catalog_in D cat" and "ctes_wf D ctes"
  shows "yields (plan_select_core fr cat ctes sel) (plan_wf D)"
proof -
  have f: "yields (sm_lift (plan_from cat ctes sel)) (scoped D)"
    by (rule yields_lift) (rule plan_from_wf [OF assms])
  have plain: "yields (sm_bind (collect_projection fr sc (se_projection sel)) (\<lambda>proj.
                   sm_return (PProject p (map fst proj) (map snd proj)))) (plan_wf D)"
    if "scoped D (p, sc)" for p sc
    by (rule yields_bind [OF collect_projection_wf], rule yields_return, rule project_wf)
      (use that in \<open>simp_all add: scoped_def\<close>)
  have agg: "yields (plan_aggregate fr p sel es sc) (plan_wf D)" if "scoped D (p, sc)" for p es sc
    by (rule yields_mono [OF plan_aggregate_wf [OF that]]) simp
  show ?thesis
    unfolding plan_select_core_def
    by (rule yields_bind [OF f], clarify, rule yields_bind [OF apply_where_scoped], assumption,
        rule yields_bind [where P = "plan_wf D"], rule yields_if, erule agg, erule plain,
        rule yields_bind [OF yields_any])
      (simp add: yields_return)
qed

lemma combine_set_grouped: "combine_set op q l r = Ok p \<Longrightarrow> grouped p"
  by (auto simp: combine_set_def split: if_splits)

lemma set_operation_grouped: "yields (plan_set_expr fr cat (SeSetOperation op q l r) ctes) grouped"
  unfolding plan_set_expr.simps
  by (rule yields_bind [OF yields_any], rule yields_bind [OF yields_any])
    (auto intro!: yields_lift dest: combine_set_grouped)

lemma combine_set_wf: "plan_wf D l \<Longrightarrow> plan_wf D r \<Longrightarrow> combine_set op q l r = Ok p \<Longrightarrow> plan_wf D p"
  by (auto simp: combine_set_def split: if_splits)

lemma cte_entry_wf: "plan_wf D p \<Longrightarrow> cte_entry name al p = Ok kv \<Longrightarrow> scoped D (snd kv)"
  by (auto simp: cte_entry_def Let_def scoped_def split: if_splits)

lemma ctes_wf_update: "ctes_wf D m \<Longrightarrow> scoped D v \<Longrightarrow> ctes_wf D (AList.update k v m)"
  by (induction m) (auto simp: ctes_wf_def split: if_splits)

lemma with_ctes_wf:
  fixes m :: "'j cte_map"
  assumes "\<And>f m. f \<in> set fs \<Longrightarrow> ctes_wf D m \<Longrightarrow> yields (f m) (\<lambda>kv. scoped D (snd kv))"
  shows "ctes_wf D m \<Longrightarrow> yields (with_ctes fs m) (ctes_wf D)"
  using assms
proof (induction fs arbitrary: m)
  case (Cons f fs)
  show ?case
    unfolding with_ctes.simps
  proof (rule yields_bind)
    show "yields (f m) (\<lambda>kv. scoped D (snd kv))" by (rule Cons.prems(2)) (simp_all add: Cons.prems(1))
    fix kv :: "string \<times> 'j qplan \<times> scope" assume "scoped D (snd kv)"
    then show "yields (case kv of (k, v) \<Rightarrow> with_ctes fs (AList.update k v m)) (ctes_wf D)"
      by (cases kv) (auto intro!: Cons.IH ctes_wf_update Cons.prems)
  qed
qed (simp add: yields_return)

lemma plan_query_with_wf:
  assumes c: "catalog_in D (cat :: 'j catalog)"
  shows "\<And>ctes. ctes_wf D ctes \<Longrightarrow> yields (plan_query_with fr cat q ctes) (plan_wf D)"
    and "\<And>ctes. ctes_wf D ctes \<Longrightarrow> yields (plan_cte fr cat ct ctes) (\<lambda>kv. scoped D (snd kv))"
    and "\<And>ctes. ctes_wf D ctes \<Longrightarrow> yields (plan_set_expr fr cat b ctes) (plan_wf D)"
proof (induction q and ct and b)
  case (Query w body order lm off)
  have w: "yields (case map_option (map_prod id (map (plan_cte fr cat))) w of
         None \<Rightarrow> sm_return ctes
       | Some (recursive, fs) \<Rightarrow>
           if recursive then sm_fail (UnsupportedError ''recursive CTEs (WITH RECURSIVE) are not supported'')
           else with_ctes fs ctes) (ctes_wf D)"
    using Query(1) Query.prems
    by (cases w) (auto intro!: yields_intros with_ctes_wf)
  have "yields (sm_bind (plan_set_expr fr cat body m) (apply_order_limit fr order lm off)) (plan_wf D)"
    if "ctes_wf D m" "body = SeSetOperation op q l r" for m op q l r
    by (rule yields_bind [OF yields_both [OF Query.IH(2) [OF that(1)] set_operation_grouped [of fr cat op q l r m, folded that(2)]]])
      (auto intro!: apply_order_limit_wf)
  then show ?case
    unfolding plan_query_with.simps
    by (intro yields_bind [OF w]) (cases body; auto intro!: plan_select_wf [OF c] yields_fail simp del: plan_set_expr.simps)
next
  case (Cte name al q)
  then show ?case by (auto intro!: yields_bind [OF Cte(1)] yields_lift dest: cte_entry_wf)
next
  case (SeSetOperation op q l r)
  show ?case
    unfolding plan_set_expr.simps
    by (rule yields_bind [OF SeSetOperation.IH(1)], simp add: SeSetOperation.prems, rule yields_bind [OF SeSetOperation.IH(2)], simp add: SeSetOperation.prems)
      (auto intro!: yields_lift dest: combine_set_wf)
qed (auto intro: plan_select_core_wf [OF c] yields_fail)

section \<open>The optimizer keeps plans well formed\<close>

lemma fold_expr_in_width: "fold_expr e = Ok e' \<Longrightarrow> in_width n e \<Longrightarrow> in_width n e'"
proof (induction e arbitrary: e' rule: fold_expr.induct)
  case (1 op l r)
  then obtain l' r' where f: "fold_expr l = Ok l'" "fold_expr r = Ok r'" "e' = fold_binary op l' r'"
    by (auto simp: obind_eq_Ok)
  with 1 fold_binary_cases [of op l' r'] show ?case by auto
next
  case (2 op e)
  then obtain e1 where f: "fold_expr e = Ok e1" "fold_unary op e1 = Ok e'" by (auto simp: obind_eq_Ok)
  with 2 fold_unary_cases [OF f(2)] show ?case by auto
qed auto

lemma omapM_length: "omapM f xs = Ok ys \<Longrightarrow> length ys = length xs"
  by (induction xs arbitrary: ys) (auto simp: obind_eq_Ok omap_eq_Ok)

lemma omapM_all:
  "omapM f xs = Ok ys \<Longrightarrow> list_all P xs \<Longrightarrow> (\<And>x y. f x = Ok y \<Longrightarrow> P x \<Longrightarrow> Q y) \<Longrightarrow> list_all Q ys"
  by (induction xs arbitrary: ys) (auto simp: obind_eq_Ok omap_eq_Ok)

lemma omapM_mem: "omapM f xs = Ok ys \<Longrightarrow> y \<in> set ys \<Longrightarrow> \<exists>x\<in>set xs. f x = Ok y"
  by (induction xs arbitrary: ys) (auto simp: obind_eq_Ok omap_eq_Ok)

lemma omap_opt_all:
  "omap_opt f x = Ok y \<Longrightarrow> pred_option P x \<Longrightarrow> (\<And>x y. f x = Ok y \<Longrightarrow> P x \<Longrightarrow> Q y) \<Longrightarrow> pred_option Q y"
  by (cases x) (auto simp: omap_opt_def omap_eq_Ok)

lemma fold_output_wf: "fold_output c = Ok c' \<Longrightarrow> output_wf n k c \<Longrightarrow> output_wf n k c'"
  by (cases c) (auto simp: fold_output_def omap_eq_Ok intro: fold_expr_in_width)

lemma fold_key_wf:
  "omap (\<lambda>e. SortKey e (sk_asc k)) (fold_expr (sk_expr k)) = Ok k' \<Longrightarrow> key_wf g n k \<Longrightarrow> key_wf g n k'"
  by (auto simp: omap_eq_Ok key_wf_def intro: fold_expr_in_width)

lemma fold_plan_grouped: "fold_plan p = Ok p' \<Longrightarrow> grouped p' = grouped p"
  by (induction p arbitrary: p') (auto simp: obind_eq_Ok omap_eq_Ok)

lemma fold_plan_wf: "fold_plan p = Ok p' \<Longrightarrow> plan_wf D p \<Longrightarrow> plan_wf D p'"
proof (induction p arbitrary: p')
  case (PFilter p e)
  then show ?case by (auto simp: obind_eq_Ok omap_eq_Ok fold_plan_columns intro: fold_expr_in_width)
next
  case (PProject p es cs)
  then show ?case
    by (auto simp: obind_eq_Ok omap_eq_Ok fold_plan_columns omapM_length intro: omapM_all [OF _ _ fold_expr_in_width])
next
  case (PJoin l r e outer cs)
  then show ?case
    by (auto simp: obind_eq_Ok omap_eq_Ok fold_plan_columns intro: omap_opt_all [OF _ _ fold_expr_in_width])
next
  case (PAggregate p gs ags outs cs n h)
  then show ?case
    by (auto simp: obind_eq_Ok omap_eq_Ok fold_plan_columns omapM_length
        intro: omapM_all [OF _ _ fold_expr_in_width] omapM_all [OF _ _ fold_output_wf] omap_opt_all [OF _ _ fold_expr_in_width])
next
  case (PSort p ks)
  then show ?case
    by (auto simp: obind_eq_Ok omap_eq_Ok fold_plan_columns fold_plan_grouped intro: omapM_all [OF _ _ fold_key_wf])
qed (auto simp: obind_eq_Ok omap_eq_Ok fold_plan_columns)

section \<open>Statements\<close>

text \<open>
  \<open>statement_wf cat pl\<close>: the plan of a query is well formed and scans only tables of the catalog; a plan that changes a table names a
  table of the catalog, its target columns are columns of that table, and its expressions read only
  columns of that table, or none for \<open>VALUES\<close>; a new table has its rowid alias among its columns.
\<close>

definition statement_wf :: "'j catalog \<Rightarrow> 'j statement_plan \<Rightarrow> bool" where
  "statement_wf cat pl \<longleftrightarrow>
     (case pl of
        PlQuery p cols \<Rightarrow> plan_wf (catalog_scans cat) p \<and> cols = plan_columns p
      | PlInsert p \<Rightarrow> (\<exists>t. has_table cat t \<and> tb_name t = ip_table p
          \<and> list_all (\<lambda>i. i < length (tb_columns t)) (ip_target_cols p) \<and> list_all (list_all (in_width 0)) (ip_rows p))
      | PlUpdate p \<Rightarrow> (\<exists>t. has_table cat t \<and> tb_name t = up_table p
          \<and> list_all (\<lambda>(i, e). i < length (tb_columns t) \<and> in_width (length (tb_columns t)) e) (up_assignments p)
          \<and> pred_option (in_width (length (tb_columns t))) (up_predicate p))
      | PlDelete p \<Rightarrow> (\<exists>t. has_table cat t \<and> tb_name t = dp_table p
          \<and> pred_option (in_width (length (tb_columns t))) (dp_predicate p))
      | PlCreateTable t _ \<Rightarrow> table_wf t
      | _ \<Rightarrow> True)"

lemma position_bound: "position P xs = Some i \<Longrightarrow> i < length xs"
  by (induction xs arbitrary: i) (auto split: if_splits)

lemma column_index_bound: "column_index t name = Some i \<Longrightarrow> i < length (tb_columns t)"
  by (auto simp: column_index_def dest: position_bound)

lemma insert_targets_bound: "insert_targets t cols = Ok is \<Longrightarrow> list_all (\<lambda>i. i < length (tb_columns t)) is"
proof -
  have "foldr (\<lambda>c acc. obind (ok_or (column_index t c) (NotFoundError (''column `'' @ c @ ''`''))) (\<lambda>i.
             obind acc (\<lambda>is. Ok (i # is)))) cols (Ok []) = Ok is \<Longrightarrow> list_all (\<lambda>i. i < length (tb_columns t)) is"
    by (induction cols arbitrary: "is") (auto simp: obind_eq_Ok ok_or_def dest: column_index_bound split: option.splits)
  then show "insert_targets t cols = Ok is \<Longrightarrow> list_all (\<lambda>i. i < length (tb_columns t)) is"
    by (auto simp: insert_targets_def list_all_iff split: if_splits)
qed

lemma plan_insert_wf: "yields (plan_insert fr cat st) (statement_wf cat)"
proof -
  have t: "yields (sm_lift (lookup_table cat n)) (has_table cat)" for n
    by (rule yields_lift) (erule lookup_table_in)
  have c: "yields (sm_lift (insert_targets t cols)) (list_all (\<lambda>i. i < length (tb_columns t)))" for t cols
    by (rule yields_lift) (erule insert_targets_bound)
  have row: "yields (sm_sequence (map (resolve_expr []) row)) (list_all (in_width 0))" for row
    by (rule yields_mono [OF yields_sequence [where P = "in_width 0"]])
      (use resolve_expr_in_width [where sc = "[]"] in \<open>auto simp: list_all_iff\<close>)
  have rows: "yields (sm_sequence (map (\<lambda>row. sm_sequence (map (resolve_expr []) row)) rows)) (list_all (list_all (in_width 0)))" for rows
    by (rule yields_mono [OF yields_sequence [where P = "list_all (in_width 0)"]])
      (use row in \<open>auto simp: list_all_iff\<close>)
  show ?thesis
    unfolding plan_insert_def
    by (rule yields_bind [OF t], rule yields_bind [OF c], rule yields_bind [OF yields_any])
      (auto intro!: yields_intros yields_bind [OF rows] simp: statement_wf_def split: set_expr.split)
qed

lemma resolve_opt_in_width: "yields (sm_option (map_option (resolve_expr sc) e)) (pred_option (in_width (length sc)))"
  by (rule yields_option) (auto simp: pred_option_def option.set_map resolve_expr_in_width)

lemma table_scope_length [simp]: "length (table_scope t) = length (tb_columns t)"
  by (simp add: table_scope_def)

lemma plan_assignments_wf:
  "yields (plan_assignments t sc as) (list_all (\<lambda>(i, e). i < length (tb_columns t) \<and> in_width (length sc) e))"
proof (induction t sc as rule: plan_assignments.induct)
  case (2 t sc target e as)
  have i: "yields (sm_lift (ok_or (column_index t name) (NotFoundError (''column `'' @ name @ ''`'')))) (\<lambda>i. i < length (tb_columns t))"
    for name
    by (rule yields_lift) (auto simp: ok_or_def dest: column_index_bound split: option.splits)
  show ?case
    unfolding plan_assignments.simps
    by (rule yields_bind [OF yields_any], rule yields_bind [OF i], rule yields_bind [OF resolve_expr_in_width], rule yields_bind [OF 2])
      (auto intro!: yields_return)
qed (simp add: yields_return)

lemma plan_update_wf: "yields (plan_update cat tf as sel) (statement_wf cat)"
proof -
  have t: "yields (sm_lift (lookup_table cat n)) (has_table cat)" for n
    by (rule yields_lift) (erule lookup_table_in)
  show ?thesis
    unfolding plan_update_def
    by (rule yields_bind [OF yields_any], clarify, rule yields_bind [OF t], rule yields_bind [OF plan_assignments_wf],
        rule yields_bind [OF resolve_opt_in_width])
      (auto intro!: yields_return simp: statement_wf_def)
qed

lemma plan_delete_wf: "yields (plan_delete cat items sel) (statement_wf cat)"
proof -
  have t: "yields (sm_lift (lookup_table cat n)) (has_table cat)" for n
    by (rule yields_lift) (erule lookup_table_in)
  have d: "yields (sm_bind (sm_lift (lookup_table cat name)) (\<lambda>t.
          sm_bind (sm_option (map_option (resolve_expr (table_scope t)) sel)) (\<lambda>p.
          sm_return (PlDelete \<lparr>dp_table = tb_name t, dp_predicate = p\<rparr>)))) (statement_wf cat)" for name
    by (rule yields_bind [OF t], rule yields_bind [OF resolve_opt_in_width])
      (auto intro!: yields_return simp: statement_wf_def)
  show ?thesis
    unfolding plan_delete_def
    by (auto intro!: yields_fail yields_bind [OF yields_any] d split: list.split from_item.split)
qed

lemma table_columns_wf:
  "table_columns disp idx ds al = Ok (cs, a) \<Longrightarrow> pred_option (\<lambda>i. i < idx) al \<Longrightarrow> pred_option (\<lambda>i. i < idx + length cs) a"
proof (induction ds arbitrary: idx al cs a)
  case (Cons d ds)
  then obtain c cs' where c: "column_from_ast disp d = Ok c" "cs = c # cs'"
    "table_columns disp (idx + 1) ds (if co_primary_key c \<and> co_sql_type c = TyInteger \<and> al = None then Some idx else al) = Ok (cs', a)"
    by (auto simp: obind_eq_Ok Let_def)
  have "pred_option (\<lambda>i. i < idx + 1) (if co_primary_key c \<and> co_sql_type c = TyInteger \<and> al = None then Some idx else al)"
    using Cons.prems(2) by (auto simp: pred_option_def)
  from Cons.IH [OF c(3) this] c(2) show ?case by simp
qed auto

lemma table_from_ast_wf: "table_from_ast disp ct sql = Ok t \<Longrightarrow> table_wf t"
  using table_columns_wf [of disp 0 "ct_columns ct" None]
  by (auto simp: table_from_ast_def table_wf_def obind_eq_Ok)

lemma plan_alter_table_shape: "plan_alter_table fr cat name ops = Ok pl \<Longrightarrow> \<exists>n c s. pl = PlAlterTableAddColumn n c s"
  by (cases ops; cases "hd ops"; cases "tl ops") (auto simp: plan_alter_table_def obind_eq_Ok Let_def split: if_splits)

definition demo_catalog :: "unit catalog" where
  "demo_catalog = \<lparr>cg_tables = [(''t'', demo_table)], cg_indexes = [], cg_ids = []\<rparr>"

definition demo_query :: query where
  "demo_query = Query None (SeSelect (Select [SiUnnamed (SIdentifier ''name'')] [FromItem (TfTable [''t''] None) []]
     (Some (SBinaryOp (SIdentifier ''id'') BoEq (SValue (LNumber ''7'')))) None None None)) None None None"

definition demo_plan :: "unit qplan" where
  "demo_plan = PProject (PFilter (scan_for demo_table) (EBinary OpEq (EColumn 0) (ELiteral (VInteger (i64_of_int 7)))))
     [EColumn 1] [\<lparr>ci_name = ''name'', ci_table = None, ci_decl_type = Some ''TEXT''\<rparr>]"

lemma demo_planned: "plan_statement fr demo_catalog (StQuery demo_query) = Ok (PlQuery demo_plan (plan_columns demo_plan))"
  unfolding demo_catalog_def demo_query_def demo_plan_def demo_table_def
  by code_simp

text \<open>The planner makes well-formed plans of all statements.\<close>

lemma catalog_in_self: "catalog_wf cat \<Longrightarrow> catalog_in (catalog_scans cat) cat"
  by (simp add: catalog_in_def)

lemma plan_statement_types:
  assumes "catalog_wf cat" and "plan_statement fr cat st = Ok pl"
  shows "statement_wf cat pl"
proof (cases st)
  case (StQuery q)
  then obtain p n p' where p: "plan_query_with fr cat q [] 0 = Ok (p, n)" "fold_plan p = Ok p'" "pl = PlQuery p' (plan_columns p')"
    using assms(2) by (auto simp: plan_statement_def plan_query_def optimize_def obind_eq_Ok)
  have "plan_wf (catalog_scans cat) p"
    by (rule yieldsD [OF plan_query_with_wf(1) [OF catalog_in_self [OF assms(1)]] p(1)]) (simp add: ctes_wf_def)
  then show ?thesis using fold_plan_wf [OF p(2)] p(3) by (simp add: statement_wf_def)
next
  case (StInsert ins)
  then show ?thesis using assms(2) by (auto simp: plan_statement_def omap_eq_Ok dest: yieldsD [OF plan_insert_wf])
next
  case (StUpdate tf as sel)
  then show ?thesis using assms(2) by (auto simp: plan_statement_def omap_eq_Ok dest: yieldsD [OF plan_update_wf])
next
  case (StDelete items sel)
  then show ?thesis using assms(2) by (auto simp: plan_statement_def omap_eq_Ok dest: yieldsD [OF plan_delete_wf])
next
  case (StCreateTable ct shown)
  then show ?thesis using assms(2) by (auto simp: plan_statement_def obind_eq_Ok statement_wf_def dest: table_from_ast_wf)
next
  case (StAlterTable name ops)
  then obtain n c s where "pl = PlAlterTableAddColumn n c s"
    using assms(2) by (auto simp: plan_statement_def dest: plan_alter_table_shape)
  then show ?thesis by (simp add: statement_wf_def)
qed (use assms(2) in \<open>auto simp: plan_statement_def obind_eq_Ok statement_wf_def split: option.splits list.splits\<close>)

section \<open>Rows of a well-formed plan\<close>

text \<open>The records of the tables that a plan scans have no more values than the table has columns.\<close>

primrec fits :: "(page_id \<Rightarrow> (i64 \<times> bytes) list) \<Rightarrow> ('j, 'q) plan \<Rightarrow> bool" where
  "fits T PDual \<longleftrightarrow> True"
| "fits T (PScan table page columns al defaults) \<longleftrightarrow>
     (\<forall>(k, d)\<in>set (T page). \<forall>r :: 'j row. row_decode k d = Ok r \<longrightarrow> length (row_values r) \<le> length columns)"
| "fits T (PFilter input p) \<longleftrightarrow> fits T input"
| "fits T (PProject input es columns) \<longleftrightarrow> fits T input"
| "fits T (PJoin l r p outer columns) \<longleftrightarrow> fits T l \<and> fits T r"
| "fits T (PAggregate input group_by aggs output columns base_len having) \<longleftrightarrow> fits T input"
| "fits T (PSort input keys) \<longleftrightarrow> fits T input"
| "fits T (PLimit input lm off) \<longleftrightarrow> fits T input"
| "fits T (PDistinct input) \<longleftrightarrow> fits T input"
| "fits T (PSetOp kind all l r columns) \<longleftrightarrow> fits T l \<and> fits T r"

definition of_width :: "nat \<Rightarrow> 'j row list \<Rightarrow> bool" where
  "of_width n rows \<longleftrightarrow> (\<forall>r\<in>set rows. length (row_values r) = n)"

lemma of_width_subset: "of_width n rows \<Longrightarrow> set rows' \<subseteq> set rows \<Longrightarrow> of_width n rows'"
  by (auto simp: of_width_def)

lemma scan_row_width:
  assumes "scan_row columns al defaults k d = Ok r" and "length defaults = length columns"
    and "\<And>r :: 'j row. row_decode k d = Ok r \<Longrightarrow> length (row_values r) \<le> length columns"
  shows "length (row_values (r :: 'j row)) = length columns"
proof -
  obtain r0 :: "'j row" where r0: "row_decode k d = Ok r0" "length (row_values r0) \<le> length columns"
    using assms(1,3) by (auto simp: scan_row_def obind_eq_Ok)
  then show ?thesis
    using assms(1,2) by (auto simp: scan_row_def obind_eq_Ok omap_eq_Ok slice_from_def Let_def split: option.splits if_splits)
qed

lemma keep_rows_subset: "keep_rows f rs = Ok rs' \<Longrightarrow> set rs' \<subseteq> set rs"
  by (induction rs arbitrary: rs') (auto simp: obind_eq_Ok omap_eq_Ok split: if_splits)

lemma project_row_width: "project_row pf params es r = Ok r' \<Longrightarrow> length (row_values r') = length es"
  by (auto simp: project_row_def run_pure_def omap_eq_Ok eval_args_length)

lemma join_rows_width:
  "join_rows pf params p outer n ls rs = Ok rows \<Longrightarrow> of_width m ls \<Longrightarrow> of_width n rs \<Longrightarrow> of_width (m + n) rows"
proof (induction pf params p outer n ls rs arbitrary: rows rule: join_rows.induct)
  case (2 pf params p outer n l ls rs)
  then obtain ms rest where m: "matches pf params p l rs = Ok ms" "join_rows pf params p outer n ls rs = Ok rest"
    "rows = (if outer \<and> ms = [] then [join_row l (replicate n VNull)] else ms) @ rest"
    by (auto simp: obind_eq_Ok omap_eq_Ok)
  have "of_width (m + n) rest" by (rule 2(1) [OF m(1,2)]) (use 2(3,4) in \<open>auto simp: of_width_def\<close>)
  moreover have "of_width (m + n) ms"
    by (rule of_width_subset [OF _ keep_rows_subset [OF m(1)[unfolded matches_def]]])
      (use 2(3,4) in \<open>auto simp: of_width_def join_row_def\<close>)
  ultimately show ?case using m(3) 2(3) by (auto simp: of_width_def join_row_def)
qed (auto simp: of_width_def)

lemma group_output_length: "group_output pf params fin g cs w = Ok (vs, w') \<Longrightarrow> length vs = length cs"
  by (induction cs arbitrary: vs w w') (auto simp: ev_bind_def ev_return_def obind_eq_Ok)

lemma emit_groups_width:
  "emit_groups pf params aggs outs n having gs w = Ok (rows, w') \<Longrightarrow> of_width (length outs) rows"
proof (induction gs arbitrary: rows w w')
  case (Cons g gs)
  then show ?case
    by (fastforce simp: ev_bind_def ev_return_def obind_eq_Ok Let_def of_width_def group_output_length split: if_splits)
qed (auto simp: ev_return_def of_width_def)

lemma dedup_subset: "set (dedup seen rs) \<subseteq> set rs"
  by (induction seen rs rule: dedup.induct) auto

lemma set_op_rows_width:
  assumes "of_width n ls" and "of_width n rs"
  shows "of_width n (set_op_rows kind all ls rs)"
proof (rule of_width_subset)
  show "of_width n (ls @ rs)" using assms by (auto simp: of_width_def)
  show "set (set_op_rows kind all ls rs) \<subseteq> set (ls @ rs)"
    by (auto simp: set_op_rows_def sort_set_rows_def set_sort_by split: set_op_kind.splits dest!: subsetD [OF dedup_subset])
qed

lemma key_rows_rows: "key_rows pf params keys rs w = Ok (keyed, w') \<Longrightarrow> map snd keyed = rs"
  by (induction rs arbitrary: keyed w w') (auto simp: ev_bind_def ev_return_def obind_eq_Ok)

lemma sort_rows_subset:
  assumes "sort_rows pf params keys rs w = Ok (rows, w')"
  shows "set rows \<subseteq> set rs"
proof -
  obtain keyed u where "key_rows pf params keys rs w = Ok (keyed, u)"
    "rows = map snd (sort_by (\<lambda>a b. sort_cmp keys (fst a) (fst b)) keyed)"
    using assms by (auto simp: sort_rows_def ev_bind_def ev_return_def obind_eq_Ok)
  with key_rows_rows [OF this(1)] show ?thesis by (force simp: set_sort_by)
qed

lemma plan_rows_of_width:
  "plan_wf D p \<Longrightarrow> fits T p \<Longrightarrow> plan_rows pf params T p = Ok rows \<Longrightarrow> of_width (width p) rows"
proof (induction p arbitrary: rows)
  case PDual
  then show ?case by (auto simp: of_width_def)
next
  case (PScan table page columns al defaults)
  have "length (row_values r) = length columns" if r: "r \<in> set rows" for r
  proof -
    obtain k d where "(k, d) \<in> set (T page)" "scan_row columns al defaults k d = Ok r"
      using omapM_mem [OF _ r] PScan.prems(3) by fastforce
    then show ?thesis by (rule_tac scan_row_width) (use PScan.prems in auto)
  qed
  then show ?case by (simp add: of_width_def)
next
  case (PFilter p e)
  then show ?case by (auto simp: obind_eq_Ok intro: of_width_subset dest: keep_rows_subset)
next
  case (PProject p es cs)
  then obtain rs where rs: "omapM (project_row pf params es) rs = Ok rows" by (auto simp: obind_eq_Ok)
  have "list_all (\<lambda>r. length (row_values r) = length es) rows"
    by (rule omapM_all [OF rs, where P = "\<lambda>_. True"]) (auto simp: project_row_width list_all_iff)
  then show ?case using PProject.prems(1) by (simp add: of_width_def list_all_iff)
next
  case (PJoin l r e outer cs)
  then show ?case by (auto simp: obind_eq_Ok intro: join_rows_width)
next
  case (PAggregate p gs ags outs cs n h)
  then show ?case
    by (auto simp: obind_eq_Ok omap_eq_Ok run_pure_def agg_rows_def ev_bind_def dest: emit_groups_width)
next
  case (PSort p ks)
  then show ?case
    by (auto simp: obind_eq_Ok omap_eq_Ok run_pure_def intro: of_width_subset dest: sort_rows_subset)
next
  case (PLimit p lm off)
  have "set (limit_rows lm off rs) \<subseteq> set rs" for rs :: "'a row list"
    by (auto simp: limit_rows_def split: option.splits dest: in_set_takeD in_set_dropD)
  with PLimit show ?case by (auto simp: omap_eq_Ok intro: of_width_subset)
next
  case (PDistinct p)
  then show ?case by (auto simp: omap_eq_Ok intro: of_width_subset [OF _ dedup_subset])
next
  case (PSetOp kind all l r cs)
  then show ?case by (auto simp: obind_eq_Ok omap_eq_Ok intro: set_op_rows_width)
qed

lemma plan_query_wf:
  assumes "catalog_wf cat" and "plan_statement fr cat (StQuery q) = Ok (PlQuery p cols)"
  shows "plan_wf (catalog_scans cat) p" and "cols = plan_columns p"
proof -
  obtain p0 n where p: "plan_query_with fr cat q [] 0 = Ok (p0, n)" "fold_plan p0 = Ok p" "cols = plan_columns p"
    using assms(2) by (auto simp: plan_statement_def plan_query_def optimize_def obind_eq_Ok)
  have "plan_wf (catalog_scans cat) p0"
    by (rule yieldsD [OF plan_query_with_wf(1) [OF catalog_in_self [OF assms(1)]] p(1)]) (simp add: ctes_wf_def)
  then show "plan_wf (catalog_scans cat) p" by (rule fold_plan_wf [OF p(2)])
  show "cols = plan_columns p" by (rule p(3))
qed

text \<open>
  C7. Results have the announced shape. Whatever query the planner accepts, every row of its result
  has exactly as many values as the columns announced to the client, for joins (the padding of a
  \<open>LEFT JOIN\<close> included), aggregates, set operations and common table expressions alike, over
  tables whose records have no more values than the table has columns. (A plan with a subquery left in
  it denotes no rows; replacing subqueries changes neither columns nor well-formedness.)
\<close>

theorem query_result_shape:
  assumes "catalog_wf cat" and "plan_statement fr cat (StQuery q) = Ok (PlQuery p cols)"
    and "fits T p" and "plan_rows pf params T p = Ok rows"
  shows "list_all (\<lambda>r. length (row_values r) = length cols) rows"
  using plan_rows_of_width [OF plan_query_wf(1) [OF assms(1,2)] assms(3,4)] plan_query_wf(2) [OF assms(1,2)]
  by (simp add: of_width_def list_all_iff)

theorem query_result_shape_witness:
  "\<exists>rows. plan_rows test_platform [] (\<lambda>p. [(i64_of_int 7, demo_record)]) demo_plan = Ok rows
    \<and> list_all (\<lambda>r. length (row_values r) = 1) rows \<and> length rows = 1"
proof -
  let ?T = "\<lambda>p :: page_id. [(i64_of_int 7, demo_record)]"
  have c: "catalog_wf demo_catalog" by (simp add: catalog_wf_def demo_catalog_def table_wf_def demo_table_def)
  have f: "fits ?T demo_plan"
    by (auto simp: demo_plan_def scan_for_def table_scope_def demo_table_def demo_decode)
  have "plan_rows test_platform [] ?T demo_plan = Ok [\<lparr>row_id = i64_of_int 7, row_values = [VText ''a'']\<rparr>]"
    unfolding demo_plan_def demo_table_def demo_record_def by code_simp
  with query_result_shape [OF c demo_planned f this] show ?thesis
    by (simp add: demo_plan_def)
qed

section \<open>Subqueries are gone before a plan runs\<close>

primrec no_sub :: "('j, 'q) expr \<Rightarrow> bool" where
  "no_sub (ELiteral v) \<longleftrightarrow> True"
| "no_sub (EColumn i) \<longleftrightarrow> True"
| "no_sub ERowId \<longleftrightarrow> True"
| "no_sub (EParam i) \<longleftrightarrow> True"
| "no_sub (EBinary op l r) \<longleftrightarrow> no_sub l \<and> no_sub r"
| "no_sub (EUnary op e) \<longleftrightarrow> no_sub e"
| "no_sub (EIsNull e negated) \<longleftrightarrow> no_sub e"
| "no_sub (ELike e p negated) \<longleftrightarrow> no_sub e \<and> no_sub p"
| "no_sub (EInList e items negated) \<longleftrightarrow> no_sub e \<and> list_all (\<lambda>b. b) (map no_sub items)"
| "no_sub (EFunction name args) \<longleftrightarrow> list_all (\<lambda>b. b) (map no_sub args)"
| "no_sub (ECast e ty) \<longleftrightarrow> no_sub e"
| "no_sub (ECase operand whens els) \<longleftrightarrow>
     pred_option (\<lambda>b. b) (map_option no_sub operand)
     \<and> list_all (\<lambda>(a, b). a \<and> b) (map (map_prod no_sub no_sub) whens)
     \<and> pred_option (\<lambda>b. b) (map_option no_sub els)"
| "no_sub (EScalarSubquery q) \<longleftrightarrow> False"
| "no_sub (EExists q negated) \<longleftrightarrow> False"
| "no_sub (EInSubquery e q negated) \<longleftrightarrow> False"

lemma no_sub_lists:
  "list_all (\<lambda>b. b) (map no_sub es) \<longleftrightarrow> list_all no_sub es"
  "pred_option (\<lambda>b. b) (map_option no_sub o1) \<longleftrightarrow> pred_option no_sub o1"
  "list_all (\<lambda>(a, b). a \<and> b) (map (map_prod no_sub no_sub) ws) \<longleftrightarrow> list_all (\<lambda>(a, b). no_sub a \<and> no_sub b) ws"
  by (auto simp: list_all_iff pred_option_def)

definition no_sub_output :: "('j, 'q) output_col \<Rightarrow> bool" where
  "no_sub_output c \<longleftrightarrow> (case c of OutExpr e \<Rightarrow> no_sub e | OutAgg i \<Rightarrow> True)"

primrec no_sub_plan :: "('j, 'q) plan \<Rightarrow> bool" where
  "no_sub_plan PDual \<longleftrightarrow> True"
| "no_sub_plan (PScan table page columns al defaults) \<longleftrightarrow> True"
| "no_sub_plan (PFilter input p) \<longleftrightarrow> no_sub_plan input \<and> no_sub p"
| "no_sub_plan (PProject input es columns) \<longleftrightarrow> no_sub_plan input \<and> list_all no_sub es"
| "no_sub_plan (PJoin l r p outer columns) \<longleftrightarrow> no_sub_plan l \<and> no_sub_plan r \<and> pred_option no_sub p"
| "no_sub_plan (PAggregate input group_by aggs output columns base_len having) \<longleftrightarrow>
     no_sub_plan input \<and> list_all no_sub group_by
     \<and> list_all (\<lambda>a. pred_option no_sub (agg_arg a) \<and> pred_option no_sub (agg_sep a)) aggs
     \<and> list_all no_sub_output output \<and> pred_option no_sub having"
| "no_sub_plan (PSort input keys) \<longleftrightarrow> no_sub_plan input \<and> list_all (\<lambda>k. no_sub (sk_expr k)) keys"
| "no_sub_plan (PLimit input lm off) \<longleftrightarrow> no_sub_plan input"
| "no_sub_plan (PDistinct input) \<longleftrightarrow> no_sub_plan input"
| "no_sub_plan (PSetOp kind all l r columns) \<longleftrightarrow> no_sub_plan l \<and> no_sub_plan r"

text \<open>
  What stands where a subquery stood. \<open>Q q rs\<close> says that the rows \<open>rs\<close> are a result of the subquery
  \<open>q\<close>: a scalar subquery becomes the first value of its first row (NULL if there is none), \<open>EXISTS\<close>
  whether there is a row, and the list of \<open>IN\<close> the first values of the rows. Nothing else changes.
\<close>

inductive replaced :: "(query \<Rightarrow> 'j sql_value list list \<Rightarrow> bool) \<Rightarrow> 'j qexpr \<Rightarrow> 'j qexpr \<Rightarrow> bool"
  for Q :: "query \<Rightarrow> 'j sql_value list list \<Rightarrow> bool" where
  rp_literal: "replaced Q (ELiteral v) (ELiteral v)"
| rp_column: "replaced Q (EColumn i) (EColumn i)"
| rp_row_id: "replaced Q ERowId ERowId"
| rp_param: "replaced Q (EParam i) (EParam i)"
| rp_binary: "replaced Q l l' \<Longrightarrow> replaced Q r r' \<Longrightarrow> replaced Q (EBinary op l r) (EBinary op l' r')"
| rp_unary: "replaced Q e e' \<Longrightarrow> replaced Q (EUnary uop e) (EUnary uop e')"
| rp_is_null: "replaced Q e e' \<Longrightarrow> replaced Q (EIsNull e negated) (EIsNull e' negated)"
| rp_like: "replaced Q e e' \<Longrightarrow> replaced Q p p' \<Longrightarrow> replaced Q (ELike e p negated) (ELike e' p' negated)"
| rp_in_list: "replaced Q e e' \<Longrightarrow> list_all2 (replaced Q) es es' \<Longrightarrow>
    replaced Q (EInList e es negated) (EInList e' es' negated)"
| rp_function: "list_all2 (replaced Q) es es' \<Longrightarrow> replaced Q (EFunction name es) (EFunction name es')"
| rp_cast: "replaced Q e e' \<Longrightarrow> replaced Q (ECast e ty) (ECast e' ty)"
| rp_case: "rel_option (replaced Q) opr opr' \<Longrightarrow> list_all2 (rel_prod (replaced Q) (replaced Q)) ws ws' \<Longrightarrow>
    rel_option (replaced Q) els els' \<Longrightarrow> replaced Q (ECase opr ws els) (ECase opr' ws' els')"
| rp_scalar: "Q q rs \<Longrightarrow> replaced Q (EScalarSubquery q)
    (ELiteral (case rs of [] \<Rightarrow> VNull | [] # rs' \<Rightarrow> VNull | (v # vs) # rs' \<Rightarrow> v))"
| rp_exists: "Q q rs \<Longrightarrow> replaced Q (EExists q negated) (ELiteral (VBoolean (if negated then rs = [] else rs \<noteq> [])))"
| rp_in_subquery: "replaced Q e e' \<Longrightarrow> Q q rs \<Longrightarrow> replaced Q (EInSubquery e q negated)
    (EInList e' (map (\<lambda>r. ELiteral (case r of [] \<Rightarrow> VNull | v # vs \<Rightarrow> v)) rs) negated)"

definition replaced_agg ::
    "(query \<Rightarrow> 'j sql_value list list \<Rightarrow> bool) \<Rightarrow> ('j, query) agg_expr \<Rightarrow> ('j, query) agg_expr \<Rightarrow> bool" where
  "replaced_agg Q a x \<longleftrightarrow> agg_fn x = agg_fn a \<and> agg_distinct x = agg_distinct a
     \<and> rel_option (replaced Q) (agg_arg a) (agg_arg x) \<and> rel_option (replaced Q) (agg_sep a) (agg_sep x)"

inductive replaced_output ::
    "(query \<Rightarrow> 'j sql_value list list \<Rightarrow> bool) \<Rightarrow> ('j, query) output_col \<Rightarrow> ('j, query) output_col \<Rightarrow> bool"
  for Q :: "query \<Rightarrow> 'j sql_value list list \<Rightarrow> bool" where
  ro_expr: "replaced Q e e' \<Longrightarrow> replaced_output Q (OutExpr e) (OutExpr e')"
| ro_agg: "replaced_output Q (OutAgg i) (OutAgg i)"

definition replaced_key ::
    "(query \<Rightarrow> 'j sql_value list list \<Rightarrow> bool) \<Rightarrow> ('j, query) sort_key \<Rightarrow> ('j, query) sort_key \<Rightarrow> bool" where
  "replaced_key Q k x \<longleftrightarrow> sk_asc x = sk_asc k \<and> replaced Q (sk_expr k) (sk_expr x)"

inductive replaced_plan :: "(query \<Rightarrow> 'j sql_value list list \<Rightarrow> bool) \<Rightarrow> 'j qplan \<Rightarrow> 'j qplan \<Rightarrow> bool"
  for Q :: "query \<Rightarrow> 'j sql_value list list \<Rightarrow> bool" where
  rq_dual: "replaced_plan Q PDual PDual"
| rq_scan: "replaced_plan Q (PScan table page columns al defaults) (PScan table page columns al defaults)"
| rq_filter: "replaced_plan Q p p' \<Longrightarrow> replaced Q e e' \<Longrightarrow> replaced_plan Q (PFilter p e) (PFilter p' e')"
| rq_project: "replaced_plan Q p p' \<Longrightarrow> list_all2 (replaced Q) es es' \<Longrightarrow>
    replaced_plan Q (PProject p es columns) (PProject p' es' columns)"
| rq_join: "replaced_plan Q l l' \<Longrightarrow> replaced_plan Q r r' \<Longrightarrow> rel_option (replaced Q) e e' \<Longrightarrow>
    replaced_plan Q (PJoin l r e outer columns) (PJoin l' r' e' outer columns)"
| rq_aggregate: "replaced_plan Q p p' \<Longrightarrow> list_all2 (replaced Q) gs gs' \<Longrightarrow> list_all2 (replaced_agg Q) as as' \<Longrightarrow>
    list_all2 (replaced_output Q) outs outs' \<Longrightarrow> rel_option (replaced Q) h h' \<Longrightarrow>
    replaced_plan Q (PAggregate p gs as outs columns n h) (PAggregate p' gs' as' outs' columns n h')"
| rq_sort: "replaced_plan Q p p' \<Longrightarrow> list_all2 (replaced_key Q) ks ks' \<Longrightarrow> replaced_plan Q (PSort p ks) (PSort p' ks')"
| rq_limit: "replaced_plan Q p p' \<Longrightarrow> replaced_plan Q (PLimit p lm off) (PLimit p' lm off)"
| rq_distinct: "replaced_plan Q p p' \<Longrightarrow> replaced_plan Q (PDistinct p) (PDistinct p')"
| rq_set_op: "replaced_plan Q l l' \<Longrightarrow> replaced_plan Q r r' \<Longrightarrow>
    replaced_plan Q (PSetOp kind all l r columns) (PSetOp kind all l' r' columns)"

lemmas replaced_intros = replaced.intros replaced_output.intros replaced_plan.intros

subsection \<open>The rewriting replaces\<close>

lemma yields_sequence2:
  "list_all2 (\<lambda>m a. yields m (P a)) ms as \<Longrightarrow> yields (sm_sequence ms) (list_all2 P as)"
  by (induction rule: list_all2_induct) (auto intro!: yields_return elim!: yields_bind)

lemma rewrite_map:
  "(\<And>a. a \<in> set as \<Longrightarrow> yields (f a) (P a)) \<Longrightarrow> yields (sm_sequence (map f as)) (list_all2 P as)"
  by (rule yields_sequence2) (auto simp: list_all2_map1 intro!: list.rel_refl_strong)

lemma rewrite_option:
  "(\<And>x. x \<in> set_option e \<Longrightarrow> yields (f x) (P x)) \<Longrightarrow> yields (sm_option (map_option f e)) (rel_option P e)"
  by (cases e) (auto simp: sm_option_def intro!: yields_return elim!: yields_bind)

lemma rewrite_expr_replaced:
  fixes e :: "'j qexpr"
  assumes "\<And>q. yields (rows q) (Q q)"
  shows "yields (rewrite_expr rows e) (replaced Q e)"
proof (induction e)
  case (EInList e es negated)
  show ?case
    unfolding rewrite_expr.simps
    by (rule yields_bind [OF EInList(1)], rule yields_bind [OF rewrite_map [OF EInList(2)]])
      (auto intro!: yields_return replaced_intros)
next
  case (EFunction name args)
  show ?case
    unfolding rewrite_expr.simps
    by (rule yields_bind [OF rewrite_map [OF EFunction]]) (auto intro!: yields_return replaced_intros)
next
  case (ECase opr ws els)
  have w: "yields (sm_sequence (map (\<lambda>(c, r). sm_bind c (\<lambda>c. sm_bind r (\<lambda>r. sm_return (c, r))))
         (map (map_prod (rewrite_expr rows) (rewrite_expr rows)) ws))) (list_all2 (rel_prod (replaced Q) (replaced Q)) ws)"
    unfolding map_map
  proof (rule rewrite_map)
    fix w assume "w \<in> set ws"
    then have "yields (rewrite_expr rows (fst w)) (replaced Q (fst w))" "yields (rewrite_expr rows (snd w)) (replaced Q (snd w))"
      by (auto intro: ECase(2,3) prod_set_simps simp: fsts.intros snds.intros)
    then show "yields (((\<lambda>(c, r). sm_bind c (\<lambda>c. sm_bind r (\<lambda>r. sm_return (c, r))))
        \<circ> map_prod (rewrite_expr rows) (rewrite_expr rows)) w) (rel_prod (replaced Q) (replaced Q) w)"
      by (cases w) (auto intro!: yields_return elim!: yields_bind)
  qed
  show ?case
    unfolding rewrite_expr.simps
    by (rule yields_bind [OF rewrite_option [OF ECase(1)]], assumption, rule yields_bind [OF w],
        rule yields_bind [OF rewrite_option [OF ECase(4)]], assumption)
      (auto intro!: yields_return replaced_intros)
next
  case (EInSubquery e q negated)
  show ?case
    unfolding rewrite_expr.simps first_or_null_def
    by (rule yields_bind [OF EInSubquery], rule yields_bind [OF assms], rule yields_return) (rule rp_in_subquery)
next
  case (EScalarSubquery q)
  have *: "scalar_of rs = (case rs of [] \<Rightarrow> VNull | [] # rs' \<Rightarrow> VNull | (v # vs) # rs' \<Rightarrow> v)" for rs :: "'j sql_value list list"
    by (simp add: scalar_of_def first_or_null_def split: list.split)
  show ?case
    unfolding rewrite_expr.simps *
    by (rule yields_bind [OF assms], rule yields_return) (rule rp_scalar)
next
  case (EExists q negated)
  have *: "VBoolean ((rs \<noteq> []) \<noteq> negated) = (VBoolean (if negated then rs = [] else rs \<noteq> []) :: 'j sql_value)"
    for rs :: "'j sql_value list list" by auto
  show ?case
    unfolding rewrite_expr.simps *
    by (rule yields_bind [OF assms], rule yields_return) (rule rp_exists)
qed (auto intro!: yields_return replaced_intros elim!: yields_bind)

lemma rewrite_parts_replaced:
  assumes "\<And>q. yields (rows q) (Q q)"
  shows "yields (rewrite_exprs rows es) (list_all2 (replaced Q) es)"
    and "yields (rewrite_opt rows h) (rel_option (replaced Q) h)"
    and "yields (rewrite_agg rows a) (replaced_agg Q a)"
    and "yields (rewrite_output rows c) (replaced_output Q c)"
    and "yields (rewrite_key rows k) (replaced_key Q k)"
proof -
  note e = rewrite_expr_replaced [of rows Q, OF assms]
  show "yields (rewrite_exprs rows es) (list_all2 (replaced Q) es)"
    unfolding rewrite_exprs_def by (rule rewrite_map) (rule e)
  have h: "yields (rewrite_opt rows h) (rel_option (replaced Q) h)" for h
    unfolding rewrite_opt_def by (rule rewrite_option) (rule e)
  then show "yields (rewrite_opt rows h) (rel_option (replaced Q) h)" .
  show "yields (rewrite_agg rows a) (replaced_agg Q a)"
    unfolding rewrite_agg_def
    by (rule yields_bind [OF h], rule yields_bind [OF h], rule yields_return) (simp add: replaced_agg_def)
  show "yields (rewrite_output rows c) (replaced_output Q c)"
    by (cases c) (auto intro!: yields_return yields_bind [OF e] replaced_intros)
  show "yields (rewrite_key rows k) (replaced_key Q k)"
    unfolding rewrite_key_def
    by (rule yields_bind [OF e], rule yields_return) (simp add: replaced_key_def)
qed

lemma rewrite_plan_replaced:
  assumes "\<And>q. yields (rows q) (Q q)"
  shows "yields (rewrite_plan rows p) (replaced_plan Q p)"
proof (induction p)
  case (PAggregate p gs ags outs cs n h)
  note r = rewrite_parts_replaced [of rows Q, OF assms]
  show ?case
    unfolding rewrite_plan.simps
    by (rule yields_bind [OF PAggregate], rule yields_bind [OF r(1)], rule yields_bind [OF rewrite_map [OF r(3)]],
        rule yields_bind [OF rewrite_map [OF r(4)]], rule yields_bind [OF r(2)], rule yields_return)
      (rule rq_aggregate)
next
  case (PFilter p e)
  show ?case
    unfolding rewrite_plan.simps
    by (rule yields_bind [OF PFilter], rule yields_bind [OF rewrite_expr_replaced [of rows Q, OF assms]], rule yields_return)
      (rule rq_filter)
next
  case (PProject p es cs)
  show ?case
    unfolding rewrite_plan.simps
    by (rule yields_bind [OF PProject], rule yields_bind [OF rewrite_parts_replaced(1) [of rows Q, OF assms]], rule yields_return)
      (rule rq_project)
next
  case (PJoin l r e outer cs)
  show ?case
    unfolding rewrite_plan.simps
    by (rule yields_bind [OF PJoin(1)], rule yields_bind [OF PJoin(2)],
        rule yields_bind [OF rewrite_parts_replaced(2) [of rows Q, OF assms]], rule yields_return)
      (rule rq_join)
next
  case (PSort p ks)
  show ?case
    unfolding rewrite_plan.simps
    by (rule yields_bind [OF PSort], rule yields_bind [OF rewrite_map [OF rewrite_parts_replaced(5) [of rows Q, OF assms]]],
        rule yields_return)
      (rule rq_sort)
qed (auto intro!: yields_return replaced_intros elim!: yields_bind)

subsection \<open>What a replaced plan keeps\<close>

lemma replaced_keeps: "replaced Q e x \<Longrightarrow> no_sub x \<and> (\<forall>n. in_width n e \<longrightarrow> in_width n x)"
proof (induction rule: replaced.induct)
  case (rp_case opr opr' ws ws' els els')
  have o: "pred_option no_sub x \<and> (\<forall>n. pred_option (in_width n) e \<longrightarrow> pred_option (in_width n) x)"
    if "rel_option (\<lambda>e x. replaced Q e x \<and> no_sub x \<and> (\<forall>n. in_width n e \<longrightarrow> in_width n x)) e x" for e x
    using that by (cases e; cases x) auto
  have "list_all (\<lambda>(a, b). no_sub a \<and> no_sub b) xs
     \<and> (\<forall>n. list_all (\<lambda>(a, b). in_width n a \<and> in_width n b) ws \<longrightarrow> list_all (\<lambda>(a, b). in_width n a \<and> in_width n b) xs)"
    if "list_all2 (rel_prod (\<lambda>e x. replaced Q e x \<and> no_sub x \<and> (\<forall>n. in_width n e \<longrightarrow> in_width n x))
        (\<lambda>e x. replaced Q e x \<and> no_sub x \<and> (\<forall>n. in_width n e \<longrightarrow> in_width n x))) ws xs" for ws xs
    using that by (induction rule: list_all2_induct) auto
  from this [OF rp_case(2)] o [OF rp_case(1)] o [OF rp_case(3)] show ?case
    by (auto simp: in_width_lists no_sub_lists)
next
  case (rp_in_list e e' es es' negated)
  from rp_in_list(3) have "list_all no_sub es' \<and> (\<forall>n. list_all (in_width n) es \<longrightarrow> list_all (in_width n) es')"
    by (induction rule: list_all2_induct) auto
  with rp_in_list(2) show ?case by (auto simp: in_width_lists no_sub_lists)
next
  case (rp_function es es' name)
  then have "list_all no_sub es' \<and> (\<forall>n. list_all (in_width n) es \<longrightarrow> list_all (in_width n) es')"
    by (induction rule: list_all2_induct) auto
  then show ?case by (auto simp: in_width_lists no_sub_lists)
qed (auto simp: in_width_lists no_sub_lists list_all_iff split: list.split)

lemma replaced_list_keeps:
  "list_all2 (replaced Q) es xs \<Longrightarrow> length xs = length es \<and> list_all no_sub xs \<and> (\<forall>n. list_all (in_width n) es \<longrightarrow> list_all (in_width n) xs)"
  by (induction rule: list_all2_induct) (auto dest: replaced_keeps)

lemma replaced_option_keeps:
  "rel_option (replaced Q) e x \<Longrightarrow> pred_option no_sub x \<and> (\<forall>n. pred_option (in_width n) e \<longrightarrow> pred_option (in_width n) x)"
  by (cases e; cases x) (auto dest: replaced_keeps)

lemma replaced_agg_keeps:
  "replaced_agg Q a x \<Longrightarrow> pred_option no_sub (agg_arg x) \<and> pred_option no_sub (agg_sep x) \<and> (\<forall>n. agg_wf n a \<longrightarrow> agg_wf n x)"
  by (auto simp: replaced_agg_def agg_wf_def dest!: replaced_option_keeps)

lemma replaced_output_keeps: "replaced_output Q c x \<Longrightarrow> no_sub_output x \<and> (\<forall>n k. output_wf n k c \<longrightarrow> output_wf n k x)"
  by (induction rule: replaced_output.induct) (auto simp: no_sub_output_def dest: replaced_keeps)

lemma replaced_column: "replaced Q (EColumn i) x \<Longrightarrow> x = EColumn i"
  by (auto elim: replaced.cases)

lemma replaced_key_keeps: "replaced_key Q k x \<Longrightarrow> no_sub (sk_expr x) \<and> (\<forall>g n. key_wf g n k \<longrightarrow> key_wf g n x)"
  by (auto simp: replaced_key_def key_wf_def dest: replaced_keeps dest!: replaced_column)

lemma list_all2_all: "list_all2 P as xs \<Longrightarrow> (\<And>a x. P a x \<Longrightarrow> Q x) \<Longrightarrow> list_all Q xs"
  by (induction rule: list_all2_induct) auto

lemma list_all2_keeps: "list_all2 P as xs \<Longrightarrow> list_all W as \<Longrightarrow> (\<And>a x. P a x \<Longrightarrow> W a \<Longrightarrow> V x) \<Longrightarrow> list_all V xs"
  by (induction rule: list_all2_induct) auto

definition keeps_plan :: "'j qplan \<Rightarrow> 'j qplan \<Rightarrow> bool" where
  "keeps_plan p x \<longleftrightarrow> no_sub_plan x \<and> plan_columns x = plan_columns p \<and> grouped x = grouped p
     \<and> (\<forall>D. plan_wf D p \<longrightarrow> plan_wf D x)"

lemma replaced_plan_keeps: "replaced_plan Q p x \<Longrightarrow> keeps_plan p x"
proof (induction rule: replaced_plan.induct)
  case (rq_aggregate p p' gs gs' ags ags' outs outs' h h' cs n)
  have 1: "list_all (\<lambda>a. pred_option no_sub (agg_arg a) \<and> pred_option no_sub (agg_sep a)) ags'"
    by (rule list_all2_all [OF rq_aggregate(3)]) (blast dest: replaced_agg_keeps)
  have 2: "list_all no_sub_output outs'" by (rule list_all2_all [OF rq_aggregate(4)]) (blast dest: replaced_output_keeps)
  have 3: "list_all (agg_wf m) ags'" if "list_all (agg_wf m) ags" for m
    by (rule list_all2_keeps [OF rq_aggregate(3) that]) (blast dest: replaced_agg_keeps)
  have 4: "list_all (output_wf m k) outs'" if "list_all (output_wf m k) outs" for m k
    by (rule list_all2_keeps [OF rq_aggregate(4) that]) (blast dest: replaced_output_keeps)
  have len: "length ags' = length ags" "length outs' = length outs"
    using rq_aggregate(3,4) by (auto dest: list_all2_lengthD)
  show ?case
    using replaced_list_keeps [OF rq_aggregate(2)] replaced_option_keeps [OF rq_aggregate(5)] rq_aggregate(6) len 1 2 3 4
    by (auto simp: keeps_plan_def)
next
  case (rq_sort p p' ks ks')
  have 1: "list_all (\<lambda>k. no_sub (sk_expr k)) ks'" by (rule list_all2_all [OF rq_sort(2)]) (blast dest: replaced_key_keeps)
  have 2: "list_all (key_wf g m) ks'" if "list_all (key_wf g m) ks" for g m
    by (rule list_all2_keeps [OF rq_sort(2) that]) (blast dest: replaced_key_keeps)
  show ?case using rq_sort(3) 1 2 by (auto simp: keeps_plan_def)
qed (auto simp: keeps_plan_def dest!: replaced_keeps replaced_list_keeps replaced_option_keeps)

text \<open>
  C16. Executors never meet a subquery, and the plan that runs has its results in its place. The plan is
  the planned one in which, wherever subqueries stood (nested in each other's expressions, in \<open>CASE\<close>
  branches, aggregates, sort keys, join conditions), a scalar subquery is the first value of the first
  row that running it gave, or NULL, \<open>EXISTS\<close> and \<open>NOT EXISTS\<close> are whether it gave a row or none, \<open>IN\<close> has
  the first value of each row as its list, and nothing else differs. So it has no subquery in it,
  announces the same columns, and is well formed if the planned one was. \<open>rows\<close> runs a subquery,
  and \<open>Q\<close> is any property that each of its results has.
\<close>

theorem subqueries_replaced:
  assumes "rewrite_plan rows p t = Ok (p', t')"
    and "\<And>q u rs u'. rows q u = Ok (rs, u') \<Longrightarrow> Q q rs"
  shows "replaced_plan Q p p' \<and> no_sub_plan p' \<and> plan_columns p' = plan_columns p \<and> (plan_wf D p \<longrightarrow> plan_wf D p')"
proof -
  have "yields (rows q) (Q q)" for q using assms(2) by (auto simp: yields_def)
  from yieldsD [OF rewrite_plan_replaced [of rows Q, OF this] assms(1)] have "replaced_plan Q p p'" .
  with replaced_plan_keeps [OF this] show ?thesis by (simp add: keeps_plan_def)
qed

text \<open>\<open>WHERE c0 IN (q) AND NOT EXISTS (q)\<close>, with \<open>q\<close> a query whose only row is \<open>7\<close>.\<close>

definition subquery_plan :: "unit qplan" where
  "subquery_plan = (let q = Query None SeOther None None None in
     PFilter PDual (EBinary OpAnd (EInSubquery (EColumn 0) q False) (EExists q True)))"

theorem subqueries_replaced_witness:
  "\<exists>p' :: unit qplan. rewrite_plan (\<lambda>q. sm_return [[VInteger (i64_of_int 7)]]) subquery_plan () = Ok (p', ())
     \<and> replaced_plan (\<lambda>q rs. rs = [[VInteger (i64_of_int 7)]]) subquery_plan p'
     \<and> p' = PFilter PDual (EBinary OpAnd (EInList (EColumn 0) [ELiteral (VInteger (i64_of_int 7))] False) (ELiteral (VBoolean False)))"
proof -
  let ?r = "\<lambda>q :: query. sm_return [[VInteger (i64_of_int 7)]] :: (unit sql_value list list, unit) sm"
  have r: "rewrite_plan ?r subquery_plan () = Ok (PFilter PDual (EBinary OpAnd
      (EInList (EColumn 0) [ELiteral (VInteger (i64_of_int 7))] False) (ELiteral (VBoolean False))), ())"
    by (simp add: subquery_plan_def Let_def sm_bind_def sm_return_def first_or_null_def)
  have "replaced_plan (\<lambda>q rs. rs = [[VInteger (i64_of_int 7)]]) subquery_plan (PFilter PDual (EBinary OpAnd
      (EInList (EColumn 0) [ELiteral (VInteger (i64_of_int 7))] False) (ELiteral (VBoolean False))))"
    by (rule conjunct1 [OF subqueries_replaced [OF r]]) (simp add: sm_return_def)
  with r show ?thesis by blast
qed

end
