(* ===== verification/EngineFacts.thy ===== *)
theory EngineFacts
  imports PlannerFacts CatalogFacts
begin

text \<open>
  The schema catalog while the engine runs: it is well formed when the engine opens and every
  statement keeps it so, so that the types of plans hold for every statement that an engine ever runs.
\<close>

section \<open>The catalog\<close>

text \<open>Tables are filed under their own names, once each, and are well formed.\<close>

definition catalog_inv :: "'j catalog \<Rightarrow> bool" where
  "catalog_inv cat \<longleftrightarrow> distinct (map fst (cg_tables cat))
     \<and> (\<forall>(k, t)\<in>set (cg_tables cat). k = to_ascii_lowercase (tb_name t) \<and> table_wf t)"

lemma catalog_inv_wf: "catalog_inv cat \<Longrightarrow> catalog_wf cat"
  by (auto simp: catalog_inv_def catalog_wf_def)

lemma catalog_inv_lookup: "catalog_inv cat \<Longrightarrow> has_table cat t \<Longrightarrow> get_table cat (tb_name t) = Some t"
  by (force simp: catalog_inv_def has_table_def get_table_def)

lemma set_update: "(k, v) \<in> set (AList.update key x al) \<Longrightarrow> (k, v) \<in> set al \<or> (k = key \<and> v = x)"
  by (induction al) (auto split: if_splits)

lemma catalog_inv_update:
  assumes "catalog_inv cat" and "table_wf t" and "cg_tables cat' = AList.update (to_ascii_lowercase (tb_name t)) t (cg_tables cat)"
  shows "catalog_inv cat'"
  using assms by (auto simp: catalog_inv_def distinct_update dest!: set_update)

lemma catalog_inv_delete:
  assumes "catalog_inv cat" and "cg_tables cat' = AList.delete key (cg_tables cat)"
  shows "catalog_inv cat'"
  using assms by (auto simp: catalog_inv_def AList.delete_eq distinct_map_filter)

lemma catalog_inv_same: "catalog_inv cat \<Longrightarrow> cg_tables cat' = cg_tables cat \<Longrightarrow> catalog_inv cat'"
  by (simp add: catalog_inv_def)

lemma absorb_inv: "catalog_inv cat \<Longrightarrow> absorb fr pf rowid r cat = Ok cat' \<Longrightarrow> catalog_inv cat'"
proof -
  assume c: "catalog_inv cat" and a: "absorb fr pf rowid r cat = Ok cat'"
  have w: "table_wf t" if p: "parse_create_table fr sql = Ok t" for t :: "'a table" and sql
  proof -
    obtain stmts where "(case stmts of
       [] \<Rightarrow> Err (ParseError ''empty statement'')
     | StCreateTable ct shown # _ \<Rightarrow> table_from_ast (sf_expr_text fr) ct sql
     | _ \<Rightarrow> Err (SchemaError ''expected CREATE TABLE'')) = Ok t"
      using p by (auto simp: parse_create_table_def obind_eq_Ok)
    then show ?thesis by (cases stmts; cases "hd stmts") (simp_all add: table_from_ast_wf)
  qed
  show ?thesis
  proof (cases "text_at pf (row_values r) 0 = ''table''")
    case True
    then obtain t where t: "parse_create_table fr (text_at pf (row_values r) 4) = Ok t"
      "cg_tables cat' = AList.update (to_ascii_lowercase (tb_name t))
         (t\<lparr>tb_root_page := root_at (row_values r) 3\<rparr>) (cg_tables cat)"
      using a by (auto simp: absorb_def Let_def obind_eq_Ok)
    have "table_wf (t\<lparr>tb_root_page := root_at (row_values r) 3\<rparr>)" using w [OF t(1)] by (simp add: table_wf_def)
    then show ?thesis by (rule catalog_inv_update [OF c]) (simp add: t(2))
  next
    case False
    then have "cg_tables cat' = cg_tables cat" using a by (auto simp: absorb_def Let_def obind_eq_Ok split: if_splits)
    then show ?thesis by (rule catalog_inv_same [OF c])
  qed
qed

lemma load_loop_inv: "catalog_inv cat \<Longrightarrow> load_loop fr pf S fuel n s c cat = Ok (cat', s') \<Longrightarrow> catalog_inv cat'"
  by (induction fr pf S fuel n s c cat rule: load_loop.induct)
    (fastforce simp: obind_eq_Ok split: option.splits prod.splits dest: absorb_inv)+

lemma catalog_load_inv: "catalog_load fr pf S fuel s = Ok (cat, s') \<Longrightarrow> catalog_inv cat"
  by (auto simp: catalog_load_def obind_eq_Ok catalog_default_def catalog_inv_def dest!: load_loop_inv [rotated])

lemma add_table_inv:
  "catalog_inv cat \<Longrightarrow> table_wf t \<Longrightarrow> add_table pf S fuel s t cat = Ok (cat', s') \<Longrightarrow> catalog_inv cat'"
  by (auto simp: add_table_def obind_eq_Ok Let_def intro: catalog_inv_update)

lemma alter_add_column_inv:
  assumes c: "catalog_inv cat" and a: "alter_add_column pf S fuel s name col sql cat = Ok (cat', s')"
  shows "catalog_inv cat'"
proof -
  obtain t where t: "map_of (cg_tables cat) (to_ascii_lowercase name) = Some t"
    "cg_tables cat' = AList.update (to_ascii_lowercase name) (t\<lparr>tb_columns := tb_columns t @ [col], tb_sql := sql\<rparr>) (cg_tables cat)"
    using a by (auto simp: alter_add_column_def obind_eq_Ok Let_def ok_or_def split: option.splits)
  have n: "to_ascii_lowercase name = to_ascii_lowercase (tb_name t)" "table_wf t"
    using c map_of_SomeD [OF t(1)] by (auto simp: catalog_inv_def)
  let ?t = "t\<lparr>tb_columns := tb_columns t @ [col], tb_sql := sql\<rparr>"
  have "table_wf ?t" using n(2) by (auto simp: table_wf_def pred_option_def)
  then show ?thesis by (rule catalog_inv_update [OF c]) (simp add: t(2) n(1))
qed

lemma drop_entry_tables: "drop_entry S fuel s key cat = Ok (cat', s') \<Longrightarrow> cg_tables cat' = cg_tables cat"
  by (auto simp: drop_entry_def obind_eq_Ok split: option.splits)

lemma drop_indexes_tables: "drop_indexes S fuel s keys cat = Ok (cat', s') \<Longrightarrow> cg_tables cat' = cg_tables cat"
  by (induction S fuel s keys cat rule: drop_indexes.induct) (auto simp: obind_eq_Ok drop_entry_tables)

lemma drop_table_inv: "catalog_inv cat \<Longrightarrow> drop_table S fuel s name cat = Ok (b, cat', s') \<Longrightarrow> catalog_inv cat'"
  by (auto simp: drop_table_def obind_eq_Ok Let_def drop_entry_tables split: if_splits dest!: drop_indexes_tables
      intro: catalog_inv_delete)

section \<open>The engine\<close>

text \<open>\<open>runs m P\<close>: \<open>m\<close> keeps the catalog well formed, and its value satisfies \<open>P\<close>.\<close>

definition runs :: "('a, 'j sql_engine \<times> world) sm \<Rightarrow> ('a \<Rightarrow> bool) \<Rightarrow> bool" where
  "runs m P \<longleftrightarrow> (\<forall>se w x se' w'. catalog_inv (se_catalog se) \<longrightarrow> m (se, w) = Ok (x, (se', w')) \<longrightarrow>
     catalog_inv (se_catalog se') \<and> P x)"

named_theorems runs_intros \<open>rules for what a computation of the engine keeps\<close>

lemma runsD: "runs m P \<Longrightarrow> catalog_inv (se_catalog se) \<Longrightarrow> m (se, w) = Ok (x, (se', w')) \<Longrightarrow> catalog_inv (se_catalog se')"
  unfolding runs_def by blast

lemma runs_bind:
  assumes "runs m P" and "\<And>x. P x \<Longrightarrow> runs (f x) Q"
  shows "runs (sm_bind m f) Q"
  unfolding runs_def
proof (intro allI impI)
  fix se w y se2 w2 assume c: "catalog_inv (se_catalog se)" and m: "sm_bind m f (se, w) = Ok (y, (se2, w2))"
  obtain x se1 w1 where "m (se, w) = Ok (x, (se1, w1))" "f x (se1, w1) = Ok (y, (se2, w2))"
    using m by (auto simp: sm_bind_def obind_eq_Ok)
  then show "catalog_inv (se_catalog se2) \<and> Q y" using assms c unfolding runs_def by blast
qed

lemma runs_return [runs_intros]: "P x \<Longrightarrow> runs (sm_return x) P"
  by (simp add: runs_def sm_return_def)

lemma runs_fail [runs_intros]: "runs (sm_fail e) P"
  by (simp add: runs_def sm_fail_def)

lemma runs_lift [runs_intros]: "(\<And>x. r = Ok x \<Longrightarrow> P x) \<Longrightarrow> runs (sm_lift r) P"
  by (auto simp: runs_def sm_lift_def omap_eq_Ok)

lemma runs_get: "runs sm_get (\<lambda>se. catalog_inv (se_catalog se))"
  by (simp add: runs_def sm_get_def)

lemma runs_modify [runs_intros]: "(\<And>se. catalog_inv (se_catalog se) \<Longrightarrow> catalog_inv (se_catalog (f se))) \<Longrightarrow> runs (sm_modify f) (\<lambda>_. True)"
  by (simp add: runs_def sm_modify_def)

lemma runs_with_read: "(\<And>tx. yields (m tx) P) \<Longrightarrow> runs (with_read m) P"
  by (auto simp: runs_def with_read_def omap_eq_Ok Let_def split: prod.splits dest: yieldsD)

lemma runs_with_write: "yields m P \<Longrightarrow> runs (with_write cf m) P"
  unfolding runs_def
proof (intro allI impI)
  fix se w x se' w' assume y: "yields m P" and c: "catalog_inv (se_catalog se)" and r: "with_write cf m (se, w) = Ok (x, (se', w'))"
  obtain p q where m: "m ((snd p, fst p), w) = Ok q"
    "(let r = tx_commit (cf_fault cf) (cf_hash cf) (fst (fst (snd q))) (snd (fst (snd q))) in
      omap (\<lambda>u. (fst q, (se\<lparr>se_storage := tx_drop (fst (snd r)) (snd (snd r))\<rparr>, snd (snd q)))) (from_storage (fst r)))
     = Ok (x, (se', w'))"
    using r by (auto simp: with_write_def obind_eq_Ok case_prod_unfold Let_def)
  have "se_catalog se' = se_catalog se" "x = fst q" using m(2) by (auto simp: omap_eq_Ok Let_def)
  moreover have "P (fst q)" by (rule yieldsD [OF y, of "((snd p, fst p), w)" _ "snd q"]) (simp add: m(1))
  ultimately show "catalog_inv (se_catalog se') \<and> P x" using c by simp
qed

lemma yields_pages: "(\<And>s x s'. m s = Ok (x, s') \<Longrightarrow> P x) \<Longrightarrow> yields (sm_pages m) P"
  by (auto simp: yields_def sm_pages_def omap_eq_Ok)

text \<open>A plan to create a table has a well-formed one, before and after its subqueries are replaced.\<close>

definition creates_wf :: "'j statement_plan \<Rightarrow> bool" where
  "creates_wf pl \<longleftrightarrow> (\<forall>t b. pl = PlCreateTable t b \<longrightarrow> table_wf t)"

lemma plan_statement_creates: "plan_statement fr cat st = Ok pl \<Longrightarrow> creates_wf pl"
proof (cases st)
  case (StCreateTable ct shown)
  then show "plan_statement fr cat st = Ok pl \<Longrightarrow> creates_wf pl"
    by (auto simp: plan_statement_def obind_eq_Ok creates_wf_def dest: table_from_ast_wf)
next
  case (StAlterTable name ops)
  then show "plan_statement fr cat st = Ok pl \<Longrightarrow> creates_wf pl"
    by (auto simp: plan_statement_def creates_wf_def dest: plan_alter_table_shape)
next
  case (StInsert ins)
  have "yields (plan_insert fr cat ins) creates_wf"
    by (auto simp: plan_insert_def creates_wf_def intro!: yields_intros yields_bind [OF yields_any] split: set_expr.split)
  with StInsert show "plan_statement fr cat st = Ok pl \<Longrightarrow> creates_wf pl"
    by (auto simp: plan_statement_def omap_eq_Ok dest: yieldsD)
next
  case (StUpdate tf as sel)
  have "yields (plan_update cat tf as sel) creates_wf"
    by (auto simp: plan_update_def creates_wf_def intro!: yields_intros yields_bind [OF yields_any])
  with StUpdate show "plan_statement fr cat st = Ok pl \<Longrightarrow> creates_wf pl"
    by (auto simp: plan_statement_def omap_eq_Ok dest: yieldsD)
next
  case (StDelete items sel)
  have "yields (plan_delete cat items sel) creates_wf"
    by (auto simp: plan_delete_def creates_wf_def intro!: yields_intros yields_bind [OF yields_any] split: list.split from_item.split)
  with StDelete show "plan_statement fr cat st = Ok pl \<Longrightarrow> creates_wf pl"
    by (auto simp: plan_statement_def omap_eq_Ok dest: yieldsD)
qed (auto simp: plan_statement_def obind_eq_Ok creates_wf_def split: option.splits list.splits)

lemma rewrite_dml_creates: "creates_wf pl \<Longrightarrow> yields (rewrite_dml rows pl) creates_wf"
  by (cases pl) (auto simp: rewrite_dml_def creates_wf_def intro!: yields_return yields_bind [OF yields_any])

lemma plan_folded_creates: "runs (plan_folded cf st params) creates_wf"
  unfolding plan_folded_def
  by (rule runs_bind [OF runs_get], rule runs_bind [OF runs_lift], erule plan_statement_creates)
    (auto intro: runs_with_read rewrite_dml_creates)

lemma run_select_runs: "runs (run_select cf p params) (\<lambda>_. True)"
  unfolding run_select_def by (rule runs_bind [OF runs_get], rule runs_with_read) (rule yields_any)

lemma run_create_table_runs:
  assumes t: "table_wf t"
  shows "runs (run_create_table cf t b) (\<lambda>_. True)"
  unfolding run_create_table_def
proof (rule runs_bind [OF runs_get])
  fix se :: "'a sql_engine" assume c: "catalog_inv (se_catalog se)"
  have y: "yields (sm_pages (\<lambda>s. obind (from_storage (btree_create tx_ops s)) (\<lambda>(page, s).
      add_table (cf_platform cf) tx_ops (cf_fuel cf) s (t\<lparr>tb_root_page := page\<rparr>) (se_catalog se)))) catalog_inv"
  proof (rule yields_pages)
    have t': "table_wf (t\<lparr>tb_root_page := page\<rparr>)" for page using t by (simp add: table_wf_def)
    show "catalog_inv x" if "obind (from_storage (btree_create tx_ops s)) (\<lambda>(page, s).
        add_table (cf_platform cf) tx_ops (cf_fuel cf) s (t\<lparr>tb_root_page := page\<rparr>) (se_catalog se)) = Ok (x, s')" for s x s'
      using that by (auto simp: obind_eq_Ok dest: add_table_inv [OF c t'])
  qed
  show "runs (if get_table (se_catalog se) (tb_name t) \<noteq> None then
       (if b then sm_return 0 else sm_fail (ConstraintError (''table '' @ tb_name t @ '' already exists'')))
     else
       sm_bind (with_write cf (sm_pages (\<lambda>s.
           obind (from_storage (btree_create tx_ops s)) (\<lambda>(page, s).
           add_table (cf_platform cf) tx_ops (cf_fuel cf) s (t\<lparr>tb_root_page := page\<rparr>) (se_catalog se))))) (\<lambda>cat.
       sm_bind (sm_modify (\<lambda>se. se\<lparr>se_catalog := cat\<rparr>)) (\<lambda>u. sm_return 0))) (\<lambda>_. True)"
    by (auto intro!: runs_intros runs_bind [OF runs_with_write [OF y]] runs_bind [OF runs_modify])
qed

lemma run_create_index_runs: "runs (run_create_index cf ix b) (\<lambda>_. True)"
  unfolding run_create_index_def
proof (rule runs_bind [OF runs_get])
  fix se :: "'a sql_engine" assume c: "catalog_inv (se_catalog se)"
  have "catalog_inv (add_index ix (se_catalog se))" by (rule catalog_inv_same [OF c]) (simp add: add_index_def)
  then have y: "yields (sm_return (add_index ix (se_catalog se))) catalog_inv" by (rule yields_return)
  show "runs (if map_of (cg_indexes (se_catalog se)) (to_ascii_lowercase (ix_name ix)) \<noteq> None then
       (if b then sm_return 0 else sm_fail (ConstraintError (''index '' @ ix_name ix @ '' already exists'')))
     else
       sm_bind (with_write cf (sm_return (add_index ix (se_catalog se)))) (\<lambda>cat.
       sm_bind (sm_modify (\<lambda>se. se\<lparr>se_catalog := cat\<rparr>)) (\<lambda>u. sm_return 0))) (\<lambda>_. True)"
    by (auto intro!: runs_intros runs_bind [OF runs_with_write [OF y]] runs_bind [OF runs_modify])
qed

lemma run_drop_table_runs: "runs (run_drop_table cf name b) (\<lambda>_. True)"
  unfolding run_drop_table_def
proof (rule runs_bind [OF runs_get])
  fix se :: "'a sql_engine" assume c: "catalog_inv (se_catalog se)"
  have y: "yields (sm_pages (\<lambda>s. omap (\<lambda>(dropped, cat, s). ((dropped, cat), s))
      (drop_table tx_ops (cf_fuel cf) s name (se_catalog se)))) (\<lambda>x. catalog_inv (snd x))"
    by (rule yields_pages) (auto simp: omap_eq_Ok intro: drop_table_inv [OF c])
  show "runs (sm_bind (with_write cf (sm_pages (\<lambda>s.
         omap (\<lambda>(dropped, cat, s). ((dropped, cat), s)) (drop_table tx_ops (cf_fuel cf) s name (se_catalog se)))))
       (\<lambda>(dropped, cat).
     sm_bind (sm_modify (\<lambda>se. se\<lparr>se_catalog := cat\<rparr>)) (\<lambda>u.
     if \<not> dropped \<and> \<not> b then sm_fail (NotFoundError (''table `'' @ name @ ''`'')) else sm_return 0))) (\<lambda>_. True)"
    by (rule runs_bind [OF runs_with_write [OF y]]) (auto intro!: runs_intros runs_bind [OF runs_modify])
qed

lemma run_alter_runs: "runs (run_alter cf name col sql) (\<lambda>_. True)"
  unfolding run_alter_def
proof (rule runs_bind [OF runs_get])
  fix se :: "'a sql_engine" assume c: "catalog_inv (se_catalog se)"
  have y: "yields (sm_pages (\<lambda>s.
         alter_add_column (cf_platform cf) tx_ops (cf_fuel cf) s name col sql (se_catalog se))) catalog_inv"
    by (rule yields_pages) (rule alter_add_column_inv [OF c])
  show "runs (sm_bind (with_write cf (sm_pages (\<lambda>s.
         alter_add_column (cf_platform cf) tx_ops (cf_fuel cf) s name col sql (se_catalog se)))) (\<lambda>cat.
     sm_bind (sm_modify (\<lambda>se. se\<lparr>se_catalog := cat\<rparr>)) (\<lambda>u. sm_return 0))) (\<lambda>_. True)"
    by (rule runs_bind [OF runs_with_write [OF y]]) (auto intro!: runs_intros runs_bind [OF runs_modify])
qed

lemma run_changes_runs:
  assumes "\<And>x se. se_catalog (f x se) = se_catalog se"
  shows "runs (sm_bind (with_write cf m) (\<lambda>x. sm_bind (sm_modify (f x)) (\<lambda>u. sm_return (g x)))) (\<lambda>_. True)"
  by (rule runs_bind [OF runs_with_write [OF yields_any]]) (auto intro!: runs_intros runs_bind [OF runs_modify] simp: assms)

lemma run_one_runs: "runs (run_one cf params st) (\<lambda>_. True)"
  unfolding run_one_def
proof (rule runs_bind [OF plan_folded_creates], rule runs_bind [OF runs_get])
  fix pl :: "'a statement_plan" and se :: "'a sql_engine"
  assume "creates_wf pl"
  then show "runs (case pl of
       PlQuery p columns \<Rightarrow> run_select cf p params
     | PlInsert p \<Rightarrow>
         sm_bind (sm_lift (clone_table (se_catalog se) (ip_table p))) (\<lambda>t.
         sm_bind (with_write cf (run_insert cf params t p)) (\<lambda>res.
         sm_bind (sm_modify (note_insert res)) (\<lambda>u. sm_return (ir_count res))))
     | PlUpdate p \<Rightarrow>
         sm_bind (sm_lift (clone_table (se_catalog se) (up_table p))) (\<lambda>t.
         sm_bind (with_write cf (run_update cf params t p)) (\<lambda>n.
         sm_bind (sm_modify (note_changes n)) (\<lambda>u. sm_return n)))
     | PlDelete p \<Rightarrow>
         sm_bind (sm_lift (clone_table (se_catalog se) (dp_table p))) (\<lambda>t.
         sm_bind (with_write cf (run_delete cf params t p)) (\<lambda>n.
         sm_bind (sm_modify (note_changes n)) (\<lambda>u. sm_return n)))
     | PlCreateTable t b \<Rightarrow> run_create_table cf t b
     | PlCreateIndex ix b \<Rightarrow> run_create_index cf ix b
     | PlDropTable name b \<Rightarrow> run_drop_table cf name b
     | PlAlterTableAddColumn name c new_sql \<Rightarrow> run_alter cf name c new_sql) (\<lambda>_. True)"
    by (cases pl)
      (auto intro!: run_select_runs run_create_table_runs run_create_index_runs run_drop_table_runs run_alter_runs
        runs_bind [OF runs_lift] run_changes_runs simp: creates_wf_def note_insert_def note_changes_def)
qed

lemma run_all_runs: "(\<And>st. runs (run st) (\<lambda>_. True)) \<Longrightarrow> runs (run_all run sts n) (\<lambda>_. True)"
  by (induction sts arbitrary: n) (auto intro!: runs_return intro: runs_bind)

lemma sql_execute_runs: "runs (sql_execute cf sql params) (\<lambda>_. True)"
proof (cases "try_parse sql")
  case None
  then show ?thesis
    by (auto simp: sql_execute_def intro!: runs_bind [OF runs_lift] run_all_runs run_one_runs)
next
  case (Some p)
  then show ?thesis by (auto simp: sql_execute_def runs_def omap_eq_Ok)
qed

lemma sql_engine_new_inv: "sql_engine_new cf e = Ok se \<Longrightarrow> catalog_inv (se_catalog se)"
  by (auto simp: sql_engine_new_def obind_eq_Ok Let_def split: prod.splits dest: catalog_load_inv)

text \<open>
  The engines that a client can reach: one opens an engine on a storage engine and executes SQL
  texts, each at some state of the clock and of the generator, and goes on after each that succeeds.
\<close>

inductive sql_reachable :: "'j sql_config \<Rightarrow> 'j sql_engine \<Rightarrow> bool" for cf where
  opened: "sql_engine_new cf e = Ok se \<Longrightarrow> sql_reachable cf se"
| executed: "sql_reachable cf se \<Longrightarrow> sql_execute cf sql params (se, w) = Ok (n, (se', w')) \<Longrightarrow> sql_reachable cf se'"

lemma sql_reachable_inv: "sql_reachable cf se \<Longrightarrow> catalog_inv (se_catalog se)"
proof (induction rule: sql_reachable.induct)
  case (opened e se)
  then show ?case by (rule sql_engine_new_inv)
next
  case (executed se sql params w n se' w')
  from runsD [OF sql_execute_runs executed.IH executed.hyps(2)] show ?case .
qed

text \<open>
  C5. Plans are well typed. Whatever statement the planner accepts on an engine, after any
  history of statements that succeeded, it translates to a plan whose scans are scans of tables of the
  catalog, each at the root page of its table and with its columns and defaults; in which every
  expression reads only columns of its own input, every aggregate that is referred to exists, both sides
  of a set operation have as many columns, and the columns reported for a query are those of its
  optimized plan; a plan that changes a table reads and writes columns of that table only; and every
  table is found under its own name. The one exception is a sort key over aggregates or set operations:
  there the ordinal of an \<open>ORDER BY\<close> is not checked, and the key may be any column.
\<close>

theorem reachable_plans_typed:
  assumes "sql_reachable cf se" and "plan_statement (cf_front cf) (se_catalog se) st = Ok pl"
  shows "statement_wf (se_catalog se) pl
    \<and> (\<forall>t. has_table (se_catalog se) t \<longrightarrow> get_table (se_catalog se) (tb_name t) = Some t)"
proof -
  have i: "catalog_inv (se_catalog se)" by (rule sql_reachable_inv [OF assms(1)])
  show ?thesis
    using plan_statement_types [OF catalog_inv_wf [OF i] assms(2)] catalog_inv_lookup [OF i] by blast
qed

definition demo_config :: "unit sql_config" where
  "demo_config = \<lparr>cf_front = demo_front, cf_platform = test_platform, cf_fuel = 2, cf_fault = NoFault, cf_hash = map snd\<rparr>"

theorem reachable_plans_typed_witness:
  "\<exists>e se. engine_open [] [] = Ok e \<and> sql_engine_new demo_config e = Ok se
    \<and> statement_wf (se_catalog se) (PlQuery (PProject PDual [ELiteral (VInteger (i64_of_int 7))]
         [\<lparr>ci_name = [], ci_table = None, ci_decl_type = None\<rparr>]) [\<lparr>ci_name = [], ci_table = None, ci_decl_type = None\<rparr>])"
proof -
  obtain e e1 where e: "engine_open [] [] = Ok e" "begin_read e = (\<lparr>rt_snapshot = \<lparr>sn_version = 0\<rparr>\<rparr>, e1)"
    "engine_inv e1" "tree_rep (engine_view e1 0) (TLeaf 1 [])"
    using fresh_reader by blast
  obtain e2 where l: "catalog_load demo_front test_platform (read_tx_source \<lparr>rt_snapshot = \<lparr>sn_version = 0\<rparr>\<rparr>) 2 e1
      = Ok (catalog_default, e2)"
    using fresh_catalog [OF e(3,4)] by blast
  obtain se where se: "sql_engine_new demo_config e = Ok se" "se_catalog se = catalog_default"
    using e(2) l by (simp add: sql_engine_new_def demo_config_def)
  have r: "sql_reachable demo_config se" by (rule opened) (rule se(1))
  have "plan_statement (cf_front demo_config) (se_catalog se)
      (StQuery (Query None (SeSelect (Select [SiUnnamed (SValue (LNumber ''7''))] [] None None None None)) None None None))
    = Ok (PlQuery (PProject PDual [ELiteral (VInteger (i64_of_int 7))]
         [\<lparr>ci_name = [], ci_table = None, ci_decl_type = None\<rparr>]) [\<lparr>ci_name = [], ci_table = None, ci_decl_type = None\<rparr>])"
    unfolding se(2) demo_config_def demo_front_def catalog_default_def by code_simp
  from reachable_plans_typed [OF r this] se(1) e(1) show ?thesis by blast
qed

end
