(* ===== verification/Spec2Isabelle.thy ===== *)
theory Spec2Isabelle
  imports Varint Page PageCache DbHeader BTreeNode BTreeSplit BTree BTreeRead WalFrame Wal
    DatabaseFile Mvcc Storage RustString F64 F64Facts SqlValue RowCodec SqlWorld Builtins DateTime Eval Plan Optimizer
    Exec ExecSpec ExecRun ExecFacts BTreeWrite TxStore StorageSteps TableStore Query
    SqlAst Schema Catalog Resolver Planner Dml Pragma SqlEngine
    DmlFacts CatalogFacts PlannerFacts EngineFacts
begin

text \<open>
  Squrust is an embedded SQL database in Rust: a storage engine with a write-ahead log and
  snapshots (\<open>squrust-core\<close>), and on it an SQL engine (\<open>squrust-sql\<close>). This library models
  both crates, function by function, and proves what they promise.

  \<^bold>\<open>The parts and how they work together.\<close> A database is a file of 4096-byte pages and a log. The
  storage engine serves a page at a version: from the cache, from the log's index, or from the file.
  A write transaction collects pages and commits them as frames of the log; a checkpoint folds the
  log into the file when no reader is active. Tables are b-trees of records over those pages, keyed
  by row id; page 1 holds \<open>sqlite_master\<close>, which the catalog mirrors in memory. A statement is parsed by a
  library, resolved and planned against the catalog, its plan is folded by the optimizer, its
  subqueries are run and replaced by their results, and a tree of pull executors produces the rows; or,
  for \<open>INSERT\<close>, \<open>UPDATE\<close> and \<open>DELETE\<close>, the plan changes a table through a write transaction.

  \<^bold>\<open>Theories, from the bottom.\<close>
  \<open>Squrust_Prelude\<close>: machine integers at their width, outcomes, byte buffers, named lemma
  collections; the errors of \<open>squrust-core/src/error.rs\<close>.
  \<open>Varint\<close> (\<open>varint.rs\<close>), \<open>Page\<close> (\<open>page/mod.rs\<close>, \<open>page/format.rs\<close>), \<open>PageCache\<close> (\<open>page/cache.rs\<close>),
  \<open>DbHeader\<close> (\<open>storage/header.rs\<close>), \<open>DatabaseFile\<close> (\<open>storage/file.rs\<close>), \<open>WalFrame\<close> (\<open>wal/frame.rs\<close>),
  \<open>Wal\<close> (\<open>wal/mod.rs\<close>, \<open>wal/checkpoint.rs\<close>), \<open>Mvcc\<close> (\<open>mvcc/\<close>): encodings and their inverses, the
  cache's invariant, what recovery replays after a crash.
  \<open>Storage\<close> (\<open>storage/mod.rs\<close>): the record \<open>engine\<close> has the fields of the code's \<open>Storage\<close>; read and write
  transactions are records, their methods are functions that thread the engine.
  \<open>StorageSteps\<close>: the interleavings of any number of transactions, commits, failures and
  checkpoints as an inductive step relation; snapshots, atomicity and crash recovery.
  \<open>BTreeNode\<close> (\<open>btree/node.rs\<close>), \<open>BTreeSplit\<close> (\<open>btree/split.rs\<close>), \<open>BTree\<close> (\<open>btree/mod.rs\<close>,
  \<open>btree/cursor.rs\<close>): nodes, splits and the operations, over any page source; \<open>PageStore\<close> states as locales
  what they need of one, \<open>BTreeModel\<close> the trees they stand for, \<open>BTreeRead\<close> and \<open>BTreeWrite\<close> prove
  reading and writing in the locales, and \<open>TxStore\<close> interprets them with the engine's
  transactions. \<open>TableStore\<close>: the tables of a write transaction are maps.
  \<open>F64\<close>, \<open>F64Facts\<close>: IEEE double arithmetic as bit patterns, and that it rounds correctly;
  \<open>RustString\<close>: strings as UTF-8 bytes.
  \<open>SqlValue\<close> (\<open>types.rs\<close>, \<open>error.rs\<close>), \<open>RowCodec\<close> (\<open>row.rs\<close>), \<open>SqlWorld\<close>, \<open>Builtins\<close>, \<open>DateTime\<close>, \<open>Eval\<close>
  (\<open>executor/builtins.rs\<close>, \<open>datetime.rs\<close>, \<open>eval.rs\<close>, \<open>planner/expr.rs\<close>): values, records and expressions.
  \<open>Plan\<close>, \<open>Optimizer\<close>, \<open>Exec\<close> (\<open>planner/optimizer.rs\<close>, the executors of \<open>executor/\<close>); \<open>ExecSpec\<close> gives plans
  a meaning on lists, \<open>ExecRun\<close> proves in a locale that the executors refine it, \<open>ExecFacts\<close> what
  the operators compute, \<open>Query\<close> puts them on the storage engine.
  \<open>SqlAst\<close>, \<open>Schema\<close> (\<open>parser.rs\<close>, \<open>ddl.rs\<close>, \<open>schema/mod.rs\<close>), \<open>Catalog\<close> (\<open>schema/catalog.rs\<close>), \<open>Resolver\<close>, \<open>Planner\<close>
  (\<open>planner/resolver.rs\<close>, \<open>planner/mod.rs\<close>), \<open>Dml\<close> (\<open>executor/dml.rs\<close>), \<open>Pragma\<close> (\<open>pragma.rs\<close>), \<open>SqlEngine\<close>
  (\<open>lib.rs\<close>): the front end. \<open>DmlFacts\<close>: the three changes of a table against the list of its rows;
  \<open>CatalogFacts\<close>: the catalog against \<open>sqlite_master\<close>; \<open>PlannerFacts\<close>: the types of plans;
  \<open>EngineFacts\<close>: they hold on every engine that statements reach.

  \<^bold>\<open>How the code is modelled.\<close> A function that may fail returns an \<open>outcome\<close>: \<open>Ok\<close>, \<open>Err\<close> with the code's
  error, \<open>Panic\<close>, or \<open>Diverge\<close> when the fuel of a loop is spent. Arithmetic that overflows is \<open>Panic\<close>, as
  in a build with overflow checks; casts wrap as in Rust. An error carries no state: where the code
  goes on after an error (a commit that fails), the state is returned beside it. The clock and the random
  generator are a \<open>world\<close> that evaluation threads. Asynchronous functions are calls, locks are taken for
  one call at a time. Hash maps are association lists with distinct keys; where their order is visible
  (the order of the pages of a commit) it is a parameter.

  \<^bold>\<open>Parameters.\<close> The SQL parser and printer (the record \<open>sql_front\<close>), JSON text, Unicode case tables and
  transcendental functions (the record \<open>platform\<close>), and the faults of the log file are arguments.
  The model of a syntax tree has the shapes that the code tells apart and one constructor for the rest.

  \<^bold>\<open>Fuel.\<close> A damaged file can make the loops over pages, over cursors and over cells' chains run for ever, so
  they take fuel. \<open>fuel_ok\<close> (more than the height of the tree and the length of its longest overflow
  chain) is enough for every lookup, insertion and deletion, \<open>scan_fuel\<close> (at least its leaves, more than its
  entries) for every scan, and the theorems give the result for all such fuel, so they show that the
  code returns. For executors \<open>query_correct\<close> gives a bound after which every number of calls is enough. In
  \<open>SqlEngine\<close> one bound \<open>cf_fuel\<close> serves all loops; it also bounds how deep subqueries nest.

  \<^bold>\<open>What the properties show.\<close> Storage: a snapshot never moves, a commit is seen whole or not at all, and
  a reopen after a crash, a torn commit included, shows exactly the committed version, as long as no I/O has
  failed. What they speak of is the body of a page: every byte, except that of the 100 bytes of page 1's database
  header only the user version counts, because a checkpoint writes the other fields anew. B-trees:
  insertion and deletion are those of a map, through all splits, and leave other tables alone, in tables whose
  cells take at most 512 bytes of their page (\<open>SMALL_CELL\<close>, part of \<open>tree_rep\<close>): with larger cells a split may overflow
  its page (\<open>split_leaf_may_overflow\<close>), so this bound is also a condition of the properties of statements. Queries: the
  executors end with the rows the plan denotes; folding keeps them, except for \<open>NOT\<close> of NULL; the operators
  sort, deduplicate, combine and aggregate as SQL says. Statements: plans are well typed and scan tables of the
  catalog at their root pages, on every engine that successful statements reach; results have the announced columns;
  executors meet the results of subqueries in their place (\<open>replaced_plan\<close>); a row that a
  constraint forbids is refused, a row that is accepted is stored, moved or removed alone, and a table
  that is created is found by the next load. Which rows the constraints forbid is a specification on the list
  of a table's rows (\<open>insert_outcome\<close>, \<open>update_outcome\<close> in \<open>DmlFacts\<close>); the functions of the code are proved to
  decide it, and \<open>insert_keeps_constraints\<close> says of the code itself what it accepts. The error properties, and lemmas beside the definitions
  (\<open>drop_removes_namesake\<close>, \<open>update_short_row_panics\<close> and others), record where the code does not do
  what SQL or its comments say.

  \<^bold>\<open>Not modelled.\<close> The asynchronous and synchronous interfaces, the serde, C and WebAssembly bindings, the macros
  and the command line: they convert and forward, through futures, raw pointers, visitors of
  libraries, or code generation, and keep no logic of the database. Threads inside one call of the
  storage engine: a step is a whole method, so the races inside \<open>checkpoint\<close> are outside the model.
  What a failed statement leaves in memory (the catalog is changed before a commit). The order of a
  sort whose comparator is not a total preorder (NaN, JSON), which Rust leaves open.
\<close>

end
